(* ===== verification/Prelude.thy ===== *)
theory Prelude
  imports Main "HOL-Library.Word" "HOL-Library.Log_Nat"
begin

text \<open>
  The vocabulary and the automation every component theory shares: the machine
  integer types of the C++ sources, the collections of simplification and
  introduction rules that the component proofs draw on, and the generic
  lemmas on lists, options, maps and words.
\<close>

section \<open>Machine integers\<close>

type_synonym u8 = "8 word"
type_synonym u16 = "16 word"
type_synonym u32 = "32 word"
type_synonym u64 = "64 word"

section \<open>Collections of rules\<close>

named_theorems float_bounds
  \<open>facts on rounding and comparing floating-point values\<close>

named_theorems inv_defs
  \<open>definitions of component invariants\<close>

named_theorems inv_intros
  \<open>every operation preserves its component's invariant\<close>

named_theorems word_bounds
  \<open>bounds on the values of machine words\<close>

section \<open>Options: undefined behaviour and errors\<close>

text \<open>
  Partial operations (an out-of-range vector access, an undefined cast) are
  \<^verbatim>\<open>option\<close>-valued; \<^verbatim>\<open>obind\<close> sequences them.
\<close>

abbreviation obind :: "'a option \<Rightarrow> ('a \<Rightarrow> 'b option) \<Rightarrow> 'b option" where
  "obind \<equiv> Option.bind"

lemma obind_eq_Some: "obind x f = Some y \<longleftrightarrow> (\<exists>a. x = Some a \<and> f a = Some y)"
  by (cases x) auto

text \<open>\<^verbatim>\<open>vec_get\<close> and \<^verbatim>\<open>vec_set\<close> are C++ \<^verbatim>\<open>v[i]\<close> read and write: outside the bounds
  the behaviour is undefined, hence \<^const>\<open>None\<close>.\<close>

definition vec_get :: "'a list \<Rightarrow> nat \<Rightarrow> 'a option" where
  "vec_get v i = (if i < length v then Some (v ! i) else None)"

definition vec_set :: "'a list \<Rightarrow> nat \<Rightarrow> 'a \<Rightarrow> 'a list option" where
  "vec_set v i a = (if i < length v then Some (v[i := a]) else None)"

lemma vec_get_in [simp]: "i < length v \<Longrightarrow> vec_get v i = Some (v ! i)"
  by (simp add: vec_get_def)

lemma vec_set_in [simp]: "i < length v \<Longrightarrow> vec_set v i a = Some (v[i := a])"
  by (simp add: vec_set_def)

lemma vec_get_out [simp]: "length v \<le> i \<Longrightarrow> vec_get v i = None"
  by (simp add: vec_get_def)

lemma vec_set_out [simp]: "length v \<le> i \<Longrightarrow> vec_set v i a = None"
  by (simp add: vec_set_def)

section \<open>Lists\<close>

lemma sum_list_bound:
  fixes xs :: "nat list"
  assumes "\<forall>x\<in>set xs. x \<le> b"
  shows "sum_list xs \<le> length xs * b"
  using assms by (induction xs) auto

lemma list_all_update:
  "list_all P xs \<Longrightarrow> P a \<Longrightarrow> list_all P (xs[i := a])"
  by (induction xs arbitrary: i) (auto split: nat.splits)

section \<open>Words\<close>

lemma unat_of_nat_small [simp]:
  "n < 2 ^ LENGTH('a) \<Longrightarrow> unat (of_nat n :: 'a::len word) = n"
  by (simp add: unat_of_nat take_bit_nat_eq_self)

lemma unat_max: "unat (max (a :: 'a::len word) b) = max (unat a) (unat b)"
  by (simp add: max_def word_le_nat_alt)

lemma unat_min: "unat (min (a :: 'a::len word) b) = min (unat a) (unat b)"
  by (simp add: min_def word_le_nat_alt)

lemma unat_plus_one:
  "unat (a :: 'a::len word) < 2 ^ LENGTH('a) - 1 \<Longrightarrow> unat (a + 1) = unat a + 1"
  by (metis add.commute less_diff_conv unat_1 unat_add_lem)

lemma unat_succ_of_less:
  assumes "(a :: 'a::len word) < b"
  shows "unat (a + 1) = unat a + 1"
proof -
  have "unat a < unat b" "unat b < 2 ^ LENGTH('a)"
    using assms by (simp_all add: word_less_nat_alt)
  then show ?thesis by (intro unat_plus_one) linarith
qed

lemma unat_pow2: "n < LENGTH('a) \<Longrightarrow> unat ((2 :: 'a::len word) ^ n) = 2 ^ n"
  using unat_of_nat_small [of "2 ^ n", where 'a = 'a] by simp

lemma unat_add_no_wrap:
  assumes "(a :: 'a::len word) \<le> a + b"
  shows "unat (a + b) = unat a + unat b"
proof (cases "unat a + unat b < 2 ^ LENGTH('a)")
  case True
  then show ?thesis by (simp add: unat_plus_if')
next
  case False
  have b: "unat b < 2 ^ LENGTH('a)" by simp
  have "unat a \<le> unat (a + b)" using assms by (simp add: word_le_nat_alt)
  moreover have "unat (a + b) = unat a + unat b - 2 ^ LENGTH('a)"
    using False by (simp add: unat_plus_if')
  ultimately show ?thesis using b False by linarith
qed

lemma unat_ucast_wider:
  "LENGTH('a) \<le> LENGTH('b) \<Longrightarrow> unat (ucast (w :: 'a::len word) :: 'b::len word) = unat w"
proof -
  assume "LENGTH('a) \<le> LENGTH('b)"
  then have "(2::nat) ^ LENGTH('a) \<le> 2 ^ LENGTH('b)" by (intro power_increasing) auto
  moreover have "unat w < 2 ^ LENGTH('a)" by simp
  ultimately have "unat w < 2 ^ LENGTH('b)" by linarith
  then show ?thesis by (simp add: unsigned_ucast_eq take_bit_nat_eq_self)
qed

lemma unat_minus_le: "(b :: 'a::len word) \<le> a \<Longrightarrow> unat (a - b) = unat a - unat b"
  by (simp add: unat_sub)

section \<open>Circular buffers\<close>

text \<open>The contents of a circular buffer of \<^verbatim>\<open>n\<close> cells, initially \<^verbatim>\<open>d\<close>, after the
  values \<^verbatim>\<open>xs\<close> were written to it, the latest first: every write goes to the cell after the
  previous one, modulo \<^verbatim>\<open>n\<close>.\<close>

fun ring :: "nat \<Rightarrow> 'a \<Rightarrow> 'a list \<Rightarrow> 'a list" where
  "ring n d [] = replicate n d"
| "ring n d (x # xs) = (ring n d xs)[length xs mod n := x]"

lemma length_ring [simp]: "length (ring n d xs) = n"
  by (induction xs) auto

lemma ring_all: "P d \<Longrightarrow> list_all P xs \<Longrightarrow> list_all P (ring n d xs)"
  by (induction xs, simp add: list_all_length, simp add: list_all_update)

text \<open>Cell \<^verbatim>\<open>i\<close> holds the latest value written to it: among the last \<^verbatim>\<open>n\<close> writes
  write number \<^verbatim>\<open>k\<close> (from the latest, 0) is found at position
  \<^verbatim>\<open>(length xs - 1 - k) mod n\<close>.\<close>

lemma ring_nth:
  assumes "k < n" "k < length xs"
  shows "ring n d xs ! ((length xs - 1 - k) mod n) = xs ! k"
  using assms
proof (induction xs arbitrary: k)
  case (Cons x xs)
  show ?case
  proof (cases k)
    case 0
    then show ?thesis using Cons.prems by simp
  next
    case (Suc j)
    have ne: "(length xs - Suc j) mod n \<noteq> length xs mod n"
    proof
      assume "(length xs - Suc j) mod n = length xs mod n"
      then have "n dvd length xs - (length xs - Suc j)"
        by (metis mod_eq_dvd_iff_nat diff_le_self)
      then show False using Cons.prems Suc by (auto dest: dvd_imp_le)
    qed
    have "ring n d xs ! ((length xs - 1 - j) mod n) = xs ! j"
      using Cons.prems Suc by (intro Cons.IH) auto
    then show ?thesis using ne Suc by simp
  qed
qed simp

section \<open>Totals over a finite map\<close>

definition map_total :: "('b \<Rightarrow> nat) \<Rightarrow> ('a \<Rightarrow> 'b option) \<Rightarrow> nat" where
  "map_total f m = (\<Sum>k\<in>dom m. f (the (m k)))"

definition at_key :: "('b \<Rightarrow> nat) \<Rightarrow> ('a \<Rightarrow> 'b option) \<Rightarrow> 'a \<Rightarrow> nat" where
  "at_key f m k = (case m k of None \<Rightarrow> 0 | Some v \<Rightarrow> f v)"

lemma map_total_empty [simp]: "map_total f Map.empty = 0"
  by (simp add: map_total_def)

lemma map_total_split:
  assumes "finite (dom m)"
  shows "map_total f m = at_key f m k + (\<Sum>i\<in>dom m - {k}. f (the (m i)))"
proof (cases "m k")
  case None
  then have "dom m - {k} = dom m" by auto
  then show ?thesis using None by (simp add: map_total_def at_key_def)
next
  case (Some v)
  then have "k \<in> dom m" by auto
  then show ?thesis
    using sum.remove [OF assms, of k "\<lambda>i. f (the (m i))"] Some by (simp add: map_total_def at_key_def)
qed

lemma map_total_upd:
  assumes "finite (dom m)"
  shows "map_total f (m(k \<mapsto> v)) + at_key f m k = map_total f m + f v"
proof -
  have "(\<Sum>i\<in>dom m - {k}. f (the ((m(k \<mapsto> v)) i))) = (\<Sum>i\<in>dom m - {k}. f (the (m i)))"
    by (intro sum.cong) auto
  moreover have "dom (m(k \<mapsto> v)) - {k} = dom m - {k}" by auto
  ultimately show ?thesis
    using map_total_split [OF assms, of f k] map_total_split [of "m(k \<mapsto> v)" f k] assms
    by (simp add: at_key_def)
qed

lemma map_total_delete:
  assumes "finite (dom m)"
  shows "map_total f (m(k := None)) + at_key f m k = map_total f m"
proof -
  have "map_total f (m(k := None)) = (\<Sum>i\<in>dom m - {k}. f (the (m i)))"
    unfolding map_total_def by (intro sum.cong) auto
  then show ?thesis using map_total_split [OF assms, of f k] by simp
qed

lemma at_key_le: "finite (dom m) \<Longrightarrow> at_key f m k \<le> map_total f m"
  using map_total_delete [of m f k] by simp

section \<open>Sequences of operations\<close>

text \<open>Running a sequence of operations, each of which may fail.\<close>

fun run_ops :: "('op \<Rightarrow> 's \<Rightarrow> 's option) \<Rightarrow> 'op list \<Rightarrow> 's \<Rightarrow> 's option" where
  "run_ops step [] s = Some s"
| "run_ops step (x # xs) s = (case step x s of None \<Rightarrow> None | Some s' \<Rightarrow> run_ops step xs s')"

lemma run_ops_append:
  "run_ops step (xs @ ys) s =
     (case run_ops step xs s of None \<Rightarrow> None | Some s' \<Rightarrow> run_ops step ys s')"
  by (induction xs arbitrary: s) (auto split: option.splits)

text \<open>The contract between a component and what it promises: an abstract state, related to the
  concrete one by \<^verbatim>\<open>R\<close>, follows every admissible operation, none of which fails.\<close>

locale refinement =
  fixes step :: "'op \<Rightarrow> 's \<Rightarrow> 's option"
    and astep :: "'op \<Rightarrow> 'a \<Rightarrow> 'a"
    and R :: "'s \<Rightarrow> 'a \<Rightarrow> bool"
    and ok :: "'op \<Rightarrow> bool"
  assumes simulates: "R s a \<Longrightarrow> ok x \<Longrightarrow> \<exists>s'. step x s = Some s' \<and> R s' (astep x a)"
begin

lemma run_simulates:
  "R s a \<Longrightarrow> list_all ok xs \<Longrightarrow>
   \<exists>s'. run_ops step xs s = Some s' \<and> R s' (fold astep xs a)"
proof (induction xs arbitrary: s a)
  case (Cons x xs)
  then obtain s' where "step x s = Some s'" "R s' (astep x a)"
    using simulates by fastforce
  then show ?case using Cons by simp
qed simp

lemma run_related:
  "R s a \<Longrightarrow> list_all ok xs \<Longrightarrow> run_ops step xs s = Some s' \<Longrightarrow> R s' (fold astep xs a)"
  using run_simulates by fastforce

end

text \<open>An invariant is the refinement of the one-state system.\<close>

locale invariant =
  fixes step :: "'op \<Rightarrow> 's \<Rightarrow> 's option"
    and inv :: "'s \<Rightarrow> bool"
    and ok :: "'op \<Rightarrow> bool"
  assumes preserves: "inv s \<Longrightarrow> ok x \<Longrightarrow> \<exists>s'. step x s = Some s' \<and> inv s'"

sublocale invariant \<subseteq> refinement step "\<lambda>_ _. ()" "\<lambda>s _. inv s" ok
  by unfold_locales (rule preserves)

context invariant
begin

lemma run_invariant:
  "inv s \<Longrightarrow> list_all ok xs \<Longrightarrow> \<exists>s'. run_ops step xs s = Some s' \<and> inv s'"
  using run_simulates by blast

end

text \<open>Where an operation may be undefined, what the defined ones keep.\<close>

locale partial_invariant =
  fixes step :: "'op \<Rightarrow> 's \<Rightarrow> 's option"
    and inv :: "'s \<Rightarrow> bool"
    and ok :: "'op \<Rightarrow> bool"
  assumes keeps: "inv s \<Longrightarrow> ok x \<Longrightarrow> step x s = Some s' \<Longrightarrow> inv s'"
begin

lemma run_keeps: "inv s \<Longrightarrow> list_all ok xs \<Longrightarrow> run_ops step xs s = Some s' \<Longrightarrow> inv s'"
  by (induction xs arbitrary: s) (auto split: option.split_asm dest: keeps)

end

end
