(* ===== verification/Floats.thy ===== *)
theory Floats
  imports Prelude
begin

text \<open>
  IEEE 754 binary arithmetic as the C++ sources use it (\<^verbatim>\<open>float\<close> and
  \<^verbatim>\<open>double\<close>, round to nearest even).  A value is a NaN, a signed infinity
  or an exact rational; the two zeros are identified, which no operation of the
  modelled code can observe.  Arithmetic rounds the exact rational result with
  \<^verbatim>\<open>rnd\<close>, which is executable.  A cast to an integer is \<^const>\<open>None\<close> where C++
  leaves it undefined.
\<close>

section \<open>Values and formats\<close>

datatype fp = FNaN | FInf bool | FFin rat

record fmt =
  fprec :: nat
  fqmin :: int
  ftop :: rat

definition b32 :: fmt where
  "b32 = \<lparr> fprec = 24, fqmin = - 149, ftop = 340282366920938463463374607431768211456 \<rparr>"

definition b64 :: fmt where
  "b64 = \<lparr> fprec = 53, fqmin = - 1074, ftop = 179769313486231590772930519078902473361797697894230657273430081157732675805500963132708477322407536021120113879871393357658789768814416622492847430639474124377767893424865485276302219601246094119453082952085005768838150682342462881473913110540827237163350510684586298239947245938479716304835356329624224137216 \<rparr>"

definition pow2 :: "int \<Rightarrow> rat" where
  "pow2 k = (if 0 \<le> k then of_int (2 ^ nat k) else 1 / of_int (2 ^ nat (- k)))"

lemma pow2_powi: "pow2 k = 2 powi k"
  by (simp add: pow2_def power_int_def field_simps)

section \<open>Rounding\<close>

definition ilog2 :: "rat \<Rightarrow> int" where
  "ilog2 x = (let (n, d) = quotient_of x; k = bitlen n - bitlen d in
              if pow2 k \<le> x then k else k - 1)"

definition fexp :: "fmt \<Rightarrow> rat \<Rightarrow> int" where
  "fexp F x = max (fqmin F) (ilog2 x - (int (fprec F) - 1))"

definition rne :: "rat \<Rightarrow> int" where
  "rne x = (let f = \<lfloor>x\<rfloor>; r = x - of_int f in
            if r < 1 / 2 then f else if r > 1 / 2 then f + 1 else if even f then f else f + 1)"

definition rnd_pos :: "fmt \<Rightarrow> rat \<Rightarrow> rat" where
  "rnd_pos F x = (let q = fexp F x in of_int (rne (x / pow2 q)) * pow2 q)"

definition rnd :: "fmt \<Rightarrow> rat \<Rightarrow> rat" where
  "rnd F x = (if x = 0 then 0 else if 0 < x then rnd_pos F x else - rnd_pos F (- x))"

definition to_fp :: "fmt \<Rightarrow> rat \<Rightarrow> fp" where
  "to_fp F x = (let r = rnd F x in
     if r \<ge> ftop F then FInf False
     else if r \<le> - ftop F then FInf True
     else FFin r)"

section \<open>Arithmetic and comparison\<close>

fun fneg :: "fp \<Rightarrow> fp" where
  "fneg FNaN = FNaN"
| "fneg (FInf s) = FInf (\<not> s)"
| "fneg (FFin x) = FFin (- x)"

fun fadd :: "fmt \<Rightarrow> fp \<Rightarrow> fp \<Rightarrow> fp" where
  "fadd F FNaN y = FNaN"
| "fadd F x FNaN = FNaN"
| "fadd F (FInf s) (FInf t) = (if s = t then FInf s else FNaN)"
| "fadd F (FInf s) (FFin y) = FInf s"
| "fadd F (FFin x) (FInf t) = FInf t"
| "fadd F (FFin x) (FFin y) = to_fp F (x + y)"

definition fsub :: "fmt \<Rightarrow> fp \<Rightarrow> fp \<Rightarrow> fp" where
  "fsub F x y = fadd F x (fneg y)"

fun fmul :: "fmt \<Rightarrow> fp \<Rightarrow> fp \<Rightarrow> fp" where
  "fmul F FNaN y = FNaN"
| "fmul F x FNaN = FNaN"
| "fmul F (FInf s) (FInf t) = FInf (s \<noteq> t)"
| "fmul F (FInf s) (FFin y) = (if y = 0 then FNaN else FInf (s \<noteq> (y < 0)))"
| "fmul F (FFin x) (FInf t) = (if x = 0 then FNaN else FInf ((x < 0) \<noteq> t))"
| "fmul F (FFin x) (FFin y) = to_fp F (x * y)"

text \<open>Division by a zero is \<^const>\<open>FNaN\<close> for a zero dividend and otherwise an
  infinity; with the zeros identified its sign is the dividend's (the divisor being
  the positive zero, the only one the code divides by).\<close>

fun fdiv :: "fmt \<Rightarrow> fp \<Rightarrow> fp \<Rightarrow> fp" where
  "fdiv F FNaN y = FNaN"
| "fdiv F x FNaN = FNaN"
| "fdiv F (FInf s) (FInf t) = FNaN"
| "fdiv F (FInf s) (FFin y) = FInf (s \<noteq> (y < 0))"
| "fdiv F (FFin x) (FInf t) = FFin 0"
| "fdiv F (FFin x) (FFin y) =
     (if y = 0 then (if x = 0 then FNaN else FInf (x < 0)) else to_fp F (x / y))"

fun flt :: "fp \<Rightarrow> fp \<Rightarrow> bool" where
  "flt FNaN y = False"
| "flt x FNaN = False"
| "flt (FInf s) (FInf t) = (s \<and> \<not> t)"
| "flt (FInf s) (FFin y) = s"
| "flt (FFin x) (FInf t) = (\<not> t)"
| "flt (FFin x) (FFin y) = (x < y)"

fun fle :: "fp \<Rightarrow> fp \<Rightarrow> bool" where
  "fle FNaN y = False"
| "fle x FNaN = False"
| "fle (FInf s) (FInf t) = (s \<or> \<not> t)"
| "fle (FInf s) (FFin y) = s"
| "fle (FFin x) (FInf t) = (\<not> t)"
| "fle (FFin x) (FFin y) = (x \<le> y)"

text \<open>\<^verbatim>\<open>std::max(a, b)\<close> is \<^verbatim>\<open>a < b ? b : a\<close>, \<^verbatim>\<open>std::min(a, b)\<close> is
  \<^verbatim>\<open>b < a ? b : a\<close>.\<close>

definition fmaxi :: "fp \<Rightarrow> fp \<Rightarrow> fp" where
  "fmaxi a b = (if flt a b then b else a)"

definition fmini :: "fp \<Rightarrow> fp \<Rightarrow> fp" where
  "fmini a b = (if flt b a then b else a)"

text \<open>The conversions of unsigned words to single and double precision, and the casts back.\<close>

abbreviation fu32 :: "'w::len word \<Rightarrow> fp" where
  "fu32 w \<equiv> to_fp b32 (of_nat (unat w))"

abbreviation du64 :: "'w::len word \<Rightarrow> fp" where
  "du64 w \<equiv> to_fp b64 (of_nat (unat w))"

text \<open>A literal, the conversion of an integer, of one format to the other, and the
  truncating cast to an unsigned integer below \<^verbatim>\<open>n\<close>.\<close>

abbreviation flit :: "fmt \<Rightarrow> rat \<Rightarrow> fp" where
  "flit F x \<equiv> to_fp F x"

fun fcvt :: "fmt \<Rightarrow> fp \<Rightarrow> fp" where
  "fcvt F FNaN = FNaN"
| "fcvt F (FInf s) = FInf s"
| "fcvt F (FFin x) = to_fp F x"

fun fcast :: "int \<Rightarrow> fp \<Rightarrow> nat option" where
  "fcast n (FFin x) = (let t = (if 0 \<le> x then \<lfloor>x\<rfloor> else \<lceil>x\<rceil>) in
                       if 0 \<le> t \<and> t < n then Some (nat t) else None)"
| "fcast n _ = None"

abbreviation cast_u64 :: "fp \<Rightarrow> u64 option" where
  "cast_u64 x \<equiv> map_option of_nat (fcast (2 ^ 64) x)"

abbreviation cast_u32 :: "fp \<Rightarrow> u32 option" where
  "cast_u32 x \<equiv> map_option of_nat (fcast (2 ^ 32) x)"

section \<open>Rounding is monotone and fixes the representable numbers\<close>

lemma pow2_pos [simp]: "0 < pow2 k"
  by (simp add: pow2_powi zero_less_power_int)

lemma pow2_nonneg [simp]: "0 \<le> pow2 k"
  by (simp add: less_imp_le)

lemma pow2_nonzero [simp]: "pow2 k \<noteq> 0"
  using pow2_pos [of k] by linarith

lemma pow2_mono: "j \<le> k \<Longrightarrow> pow2 j \<le> pow2 k"
  by (simp add: pow2_powi power_int_increasing)

lemma pow2_strict: "pow2 j < pow2 k \<Longrightarrow> j < k"
  by (metis not_le pow2_mono)

lemma pow2_add: "pow2 (j + k) = pow2 j * pow2 k"
  by (simp add: pow2_powi power_int_add)

lemma pow2_int: "0 \<le> k \<Longrightarrow> \<exists>n. pow2 k = of_int n"
  by (simp only: pow2_def if_True) blast

lemma bitlen_pow2:
  assumes "0 < n"
  shows "pow2 (bitlen n - 1) \<le> of_int n" "of_int n < pow2 (bitlen n)"
proof -
  have *: "2 ^ nat (bitlen n - 1) \<le> n" "n < 2 ^ nat (bitlen n)" and b: "1 \<le> bitlen n"
    using bitlen_bounds [OF assms] bitlen_le_iff_power [of n 0] assms by auto
  have "(of_int (2 ^ nat (bitlen n - 1)) :: rat) \<le> of_int n"
    "of_int n < (of_int (2 ^ nat (bitlen n)) :: rat)"
    using * by (metis of_int_le_iff, metis of_int_less_iff)
  then show "pow2 (bitlen n - 1) \<le> of_int n" "of_int n < pow2 (bitlen n)"
    using b by (simp_all add: pow2_def)
qed

lemma ilog2_bounds:
  assumes "0 < x"
  shows "pow2 (ilog2 x) \<le> x" "x < pow2 (ilog2 x + 1)"
proof -
  obtain n d where nd: "quotient_of x = (n, d)" by (cases "quotient_of x")
  have d: "0 < d" and x: "x = of_int n / of_int d"
    using quotient_of_denom_pos [OF nd] quotient_of_div [OF nd] by auto
  have n: "0 < n" using assms d unfolding x by (simp add: zero_less_divide_iff)
  define k where "k = bitlen n - bitlen d"
  have "pow2 (k - 1) * of_int d \<le> pow2 (k - 1) * pow2 (bitlen d)"
    using bitlen_pow2(2) [OF d] by (intro mult_left_mono) auto
  also have "\<dots> = pow2 (bitlen n - 1)" by (simp add: k_def flip: pow2_add)
  also have "\<dots> \<le> of_int n" by (rule bitlen_pow2(1) [OF n])
  finally have lo: "pow2 (k - 1) \<le> x" using d by (simp add: x field_simps)
  have "of_int n < pow2 (k + 1) * pow2 (bitlen d - 1)"
    using bitlen_pow2(2) [OF n] by (simp add: k_def flip: pow2_add)
  also have "\<dots> \<le> pow2 (k + 1) * of_int d"
    using bitlen_pow2(1) [OF d] by (intro mult_left_mono) auto
  finally have hi: "x < pow2 (k + 1)" using d by (simp add: x field_simps)
  show "pow2 (ilog2 x) \<le> x" "x < pow2 (ilog2 x + 1)"
    using lo hi by (auto simp: ilog2_def nd Let_def k_def)
qed

lemma ilog2_mono:
  assumes "0 < x" "x \<le> y"
  shows "ilog2 x \<le> ilog2 y"
proof -
  have "pow2 (ilog2 x) < pow2 (ilog2 y + 1)"
    using ilog2_bounds(1) [of x] ilog2_bounds(2) [of y] assms by linarith
  then show ?thesis by (auto dest: pow2_strict)
qed

lemma fexp_mono: "0 < x \<Longrightarrow> x \<le> y \<Longrightarrow> fexp F x \<le> fexp F y"
  by (auto simp: fexp_def dest: ilog2_mono [of x y])

lemma rne_of_int [simp]: "rne (of_int n) = n"
  by (simp add: rne_def)

lemma rne_cases: "rne x = \<lfloor>x\<rfloor> \<or> rne x = \<lfloor>x\<rfloor> + 1"
  by (simp add: rne_def Let_def)

lemma rne_mono:
  assumes "x \<le> y"
  shows "rne x \<le> rne y"
proof (cases "\<lfloor>x\<rfloor> = \<lfloor>y\<rfloor>")
  case True
  then show ?thesis using assms by (auto simp: rne_def Let_def)
next
  case False
  then have "\<lfloor>x\<rfloor> + 1 \<le> \<lfloor>y\<rfloor>" using floor_mono [OF assms] by linarith
  then show ?thesis using rne_cases [of x] rne_cases [of y] by linarith
qed

lemma rne_le_int: "x \<le> of_int n \<Longrightarrow> rne x \<le> n"
  using rne_mono [of x "of_int n"] by simp

lemma rne_ge_int: "of_int n \<le> x \<Longrightarrow> n \<le> rne x"
  using rne_mono [of "of_int n" x] by simp

text \<open>A representable positive number is a multiple of its own unit in the last place.\<close>

definition representable :: "fmt \<Rightarrow> rat \<Rightarrow> bool" where
  "representable F c = (c / pow2 (fexp F c) \<in> \<int>)"

lemma rnd_pos_representable:
  assumes "representable F c"
  shows "rnd_pos F c = c"
proof -
  obtain m where m: "c / pow2 (fexp F c) = of_int m"
    using assms by (auto simp: representable_def Ints_def)
  have "rnd_pos F c = c / pow2 (fexp F c) * pow2 (fexp F c)"
    by (simp only: rnd_pos_def Let_def m rne_of_int)
  then show ?thesis by simp
qed

lemma rnd_pos_le_grid:
  assumes "0 < x" "x \<le> c" "c / pow2 (fexp F x) \<in> \<int>"
  shows "rnd_pos F x \<le> c"
proof -
  obtain m where m: "c / pow2 (fexp F x) = of_int m" using assms(3) by (auto simp: Ints_def)
  have "x / pow2 (fexp F x) \<le> of_int m"
    using assms(2) by (simp add: divide_right_mono less_imp_le flip: m)
  then have "rne (x / pow2 (fexp F x)) \<le> m" by (rule rne_le_int)
  then have "of_int (rne (x / pow2 (fexp F x))) \<le> (of_int m :: rat)" by simp
  then have "of_int (rne (x / pow2 (fexp F x))) * pow2 (fexp F x)
     \<le> of_int m * pow2 (fexp F x)"
    by (intro mult_right_mono) auto
  then show ?thesis by (simp add: rnd_pos_def Let_def flip: m)
qed

lemma rnd_pos_ge_grid:
  assumes "0 < x" "c \<le> x" "c / pow2 (fexp F x) \<in> \<int>"
  shows "c \<le> rnd_pos F x"
proof -
  obtain m where m: "c / pow2 (fexp F x) = of_int m" using assms(3) by (auto simp: Ints_def)
  have "of_int m \<le> x / pow2 (fexp F x)"
    using assms(2) by (simp add: divide_right_mono less_imp_le flip: m)
  then have "m \<le> rne (x / pow2 (fexp F x))" by (rule rne_ge_int)
  then have "(of_int m :: rat) \<le> of_int (rne (x / pow2 (fexp F x)))" by simp
  then have "of_int m * pow2 (fexp F x)
     \<le> of_int (rne (x / pow2 (fexp F x))) * pow2 (fexp F x)"
    by (intro mult_right_mono) auto
  then show ?thesis by (simp add: rnd_pos_def Let_def flip: m)
qed

lemma grid_coarser:
  assumes "c / pow2 q \<in> \<int>" "q' \<le> q"
  shows "c / pow2 q' \<in> \<int>"
proof -
  have "c / pow2 q' = c / pow2 q * pow2 (q - q')"
    by (simp add: pow2_powi power_int_diff)
  moreover have "pow2 (q - q') \<in> \<int>"
    using pow2_int [of "q - q'"] assms(2) by auto
  ultimately show ?thesis using Ints_mult [OF assms(1)] by presburger
qed

lemma rnd_pos_le:
  assumes "0 < x" "x \<le> c" "representable F c"
  shows "rnd_pos F x \<le> c"
  using assms fexp_mono [of x c F]
  by (intro rnd_pos_le_grid) (auto simp: representable_def intro: grid_coarser)

lemma rnd_pos_nonneg: "0 < x \<Longrightarrow> 0 \<le> rnd_pos F x"
  by (rule rnd_pos_ge_grid) auto


text \<open>Monotonicity: across a change of binade the smallest number of the upper one separates
  the two results.\<close>

lemma rnd_pos_mono:
  assumes "0 < x" "x \<le> y" "0 < fprec F"
  shows "rnd_pos F x \<le> rnd_pos F y"
proof (cases "fexp F x = fexp F y")
  case True
  have "rne (x / pow2 (fexp F y)) \<le> rne (y / pow2 (fexp F y))"
    using assms(2) by (intro rne_mono) (simp add: divide_right_mono less_imp_le)
  then show ?thesis by (simp add: rnd_pos_def True Let_def mult_right_mono less_imp_le)
next
  case False
  then have lt: "fexp F x < fexp F y" using fexp_mono [OF assms(1,2), of F] by linarith
  then have q: "fexp F y = ilog2 y - (int (fprec F) - 1)" by (auto simp: fexp_def)
  have "ilog2 x < ilog2 y" using lt q by (auto simp: fexp_def)
  then have "pow2 (ilog2 x + 1) \<le> pow2 (ilog2 y)" by (intro pow2_mono) linarith
  then have xc: "x \<le> pow2 (ilog2 y)" using ilog2_bounds(2) [OF assms(1)] by linarith
  have "pow2 (ilog2 y) / pow2 (fexp F y) = pow2 (int (fprec F) - 1)"
    by (simp add: q pow2_powi flip: power_int_diff)
  then have grid: "pow2 (ilog2 y) / pow2 (fexp F y) \<in> \<int>"
    using pow2_int [of "int (fprec F) - 1"] assms(3) by auto
  have "rnd_pos F x \<le> pow2 (ilog2 y)"
    using grid_coarser [OF grid, of "fexp F x"] lt by (intro rnd_pos_le_grid xc assms(1)) simp
  also have "\<dots> \<le> rnd_pos F y"
    using ilog2_bounds(1) [of y] assms(1,2) by (intro rnd_pos_ge_grid grid) simp_all
  finally show ?thesis .
qed

lemma rnd_mono:
  assumes "x \<le> y" "0 < fprec F"
  shows "rnd F x \<le> rnd F y"
proof -
  consider "0 < x" | "x \<le> 0" "0 \<le> y" | "y < 0" by linarith
  then show ?thesis
  proof cases
    case 1
    then show ?thesis using assms by (simp add: rnd_def rnd_pos_mono)
  next
    case 2
    then have "rnd F x \<le> 0" "0 \<le> rnd F y"
      using rnd_pos_nonneg [of "- x" F] rnd_pos_nonneg [of y F] by (simp_all add: rnd_def)
    then show ?thesis by linarith
  next
    case 3
    then show ?thesis using assms rnd_pos_mono [of "- y" "- x" F] by (simp add: rnd_def)
  qed
qed

lemma rnd_zero [simp]: "rnd F 0 = 0"
  by (simp add: rnd_def)

lemma rnd_nonneg [float_bounds]: "0 \<le> x \<Longrightarrow> 0 \<le> rnd F x"
  by (simp add: rnd_def rnd_pos_nonneg)

lemma rnd_le [float_bounds]:
  "x \<le> c \<Longrightarrow> 0 \<le> c \<Longrightarrow> representable F c \<Longrightarrow> rnd F x \<le> c"
  using rnd_pos_le [of x c F] rnd_pos_nonneg [of "- x" F] by (auto simp: rnd_def not_less)

lemma b32_prec [simp]: "fprec b32 = 24" "fqmin b32 = - 149" "ftop b32 = 2 ^ 128"
  by (simp_all add: b32_def)

lemma b64_prec [simp]: "fprec b64 = 53" "fqmin b64 = - 1074" "ftop b64 = 2 ^ 1024"
  by (simp_all add: b64_def)

text \<open>A finite result: the rounded value stays below the overflow threshold.\<close>

lemma to_fp_bounded:
  assumes "0 \<le> x" "x \<le> c" "representable F c" "c < ftop F"
  shows "to_fp F x = FFin (rnd F x)" "0 \<le> rnd F x" "rnd F x \<le> c"
proof -
  have b: "0 \<le> rnd F x" "rnd F x \<le> c"
    using rnd_nonneg [of x F] rnd_le [of x c F] assms by auto
  moreover have "- ftop F < 0" using assms by simp
  ultimately show "to_fp F x = FFin (rnd F x)"
    using assms(4) by (simp add: to_fp_def Let_def not_le)
  show "0 \<le> rnd F x" "rnd F x \<le> c" by (rule b)+
qed

lemma representableI: "c = of_int m * pow2 (fexp F c) \<Longrightarrow> representable F c"
  by (metis Ints_of_int nonzero_mult_div_cancel_right pow2_pos less_irrefl representable_def)

text \<open>A product or quotient of finite values within a representable bound is finite and within
  the bound.\<close>

lemma fdiv_bounded:
  assumes "0 \<le> x" "0 < y" "x \<le> c * y" "0 \<le> c" "representable F c" "c < ftop F"
  obtains r where "fdiv F (FFin x) (FFin y) = FFin r" "0 \<le> r" "r \<le> c"
  using to_fp_bounded [of "x / y" c F] assms by (auto simp: pos_divide_le_eq)

lemma fmul_bounded:
  assumes "0 \<le> x" "0 \<le> y" "x * y \<le> c" "representable F c" "c < ftop F"
  obtains r where "fmul F (FFin x) (FFin y) = FFin r" "0 \<le> r" "r \<le> c"
  using to_fp_bounded [of "x * y" c F] assms by auto

lemma fcast_in_range:
  "0 \<le> x \<Longrightarrow> x < of_int n \<Longrightarrow> fcast n (FFin x) = Some (nat \<lfloor>x\<rfloor>)"
  by (simp add: Let_def floor_less_iff)

lemma representable_1 [simp]: "representable b32 1" "representable b64 1"
  by (rule representableI [where m = "2 ^ 23"], code_simp)
     (rule representableI [where m = "2 ^ 52"], code_simp)

lemma pow2_b32 [simp]: "1 < ftop b32" "1 < ftop b64"
  by simp_all

section \<open>Evaluation of the rounding on integers\<close>

definition rne_div :: "int \<Rightarrow> int \<Rightarrow> int" where
  "rne_div a b = (let f = a div b; r = 2 * (a mod b) in
     if r < b then f else if b < r then f + 1 else if even f then f else f + 1)"

lemma rne_div: "0 < b \<Longrightarrow> rne (of_int a / of_int b) = rne_div a b"
proof -
  assume b: "0 < b"
  have fl: "\<lfloor>of_int a / of_int b :: rat\<rfloor> = a div b" by (simp add: floor_divide_of_int_eq)
  have "(of_int a :: rat) = of_int (a div b) * of_int b + of_int (a mod b)"
    by (metis div_mult_mod_eq of_int_add of_int_mult)
  then have r: "of_int a / of_int b - of_int (a div b) = (of_int (a mod b) / of_int b :: rat)"
    using b by (simp add: field_simps)
  have "(of_int m / of_int b < (1 / 2 :: rat)) = (of_int (2 * m) < (of_int b :: rat))"
    "((1 / 2 :: rat) < of_int m / of_int b) = (of_int b < (of_int (2 * m) :: rat))" for m
    using b by (simp_all add: field_simps)
  then have "(of_int (a mod b) / of_int b < (1 / 2 :: rat)) = (2 * (a mod b) < b)"
    "((1 / 2 :: rat) < of_int (a mod b) / of_int b) = (b < 2 * (a mod b))"
    by (simp_all only: of_int_less_iff)
  then show ?thesis unfolding rne_def rne_div_def fl Let_def r by simp
qed

lemma rnd_pos_code [code]:
  "rnd_pos F x = (let q = fexp F x; (n, d) = quotient_of x in
     if 0 \<le> q then of_int (rne_div n (d * 2 ^ nat q) * 2 ^ nat q)
     else Fract (rne_div (n * 2 ^ nat (- q)) d) (2 ^ nat (- q)))"
proof -
  obtain n d where nd: "quotient_of x = (n, d)" by (cases "quotient_of x")
  have d: "0 < d" and x: "x = of_int n / of_int d"
    using quotient_of_denom_pos [OF nd] quotient_of_div [OF nd] by auto
  show ?thesis
  proof (cases "0 \<le> fexp F x")
    case True
    have "x / pow2 (fexp F x) = of_int n / of_int (d * 2 ^ nat (fexp F x))"
      using True by (simp add: x pow2_def)
    moreover have "0 < d * 2 ^ nat (fexp F x)" using d by simp
    ultimately have "rne (x / pow2 (fexp F x)) = rne_div n (d * 2 ^ nat (fexp F x))"
      by (simp only: rne_div)
    then show ?thesis using True by (simp add: rnd_pos_def Let_def nd pow2_def)
  next
    case False
    then have "x / pow2 (fexp F x) = of_int (n * 2 ^ nat (- fexp F x)) / of_int d"
      by (simp add: x pow2_def)
    then have "rne (x / pow2 (fexp F x)) = rne_div (n * 2 ^ nat (- fexp F x)) d"
      using d by (simp only: rne_div)
    then show ?thesis using False by (simp add: rnd_pos_def Let_def nd pow2_def Fract_of_int_quotient)
  qed
qed

lemma ilog2_code [code]:
  "ilog2 x = (let (n, d) = quotient_of x; k = bitlen n - bitlen d in
     if (if 0 \<le> k then d * 2 ^ nat k \<le> n else d \<le> n * 2 ^ nat (- k)) then k else k - 1)"
proof -
  obtain n d where nd: "quotient_of x = (n, d)" by (cases "quotient_of x")
  have d: "0 < d" and x: "x = of_int n / of_int d"
    using quotient_of_denom_pos [OF nd] quotient_of_div [OF nd] by auto
  have "(pow2 k \<le> x) = (if 0 \<le> k then (of_int (d * 2 ^ nat k) :: rat) \<le> of_int n
      else (of_int d :: rat) \<le> of_int (n * 2 ^ nat (- k)))" for k
    using d by (simp add: x pow2_def field_simps)
  then have "(pow2 k \<le> x) = (if 0 \<le> k then d * 2 ^ nat k \<le> n else d \<le> n * 2 ^ nat (- k))" for k
    by (simp only: of_int_le_iff)
  then show ?thesis by (simp add: ilog2_def nd Let_def)
qed

section \<open>Counter ratios\<close>

text \<open>The ratio of two counters, as the statistics getters compute it, is between 0 and 1.\<close>

lemma representable_2_64 [simp]: "representable b64 (2 ^ 64)"
  by (rule representableI [where m = "2 ^ 52"]) code_simp

lemma flit_nat:
  assumes "n \<le> 2 ^ 64"
  shows "flit b64 (of_nat n) = FFin (rnd b64 (of_nat n))"
proof (rule to_fp_bounded(1) [OF _ _ representable_2_64])
  show "of_nat n \<le> (2 ^ 64 :: rat)"
    using assms by (metis of_nat_le_iff of_nat_numeral of_nat_power)
  show "(2 ^ 64 :: rat) < ftop b64" by simp
qed simp

lemma rnd_ge_1:
  assumes "1 \<le> x"
  shows "1 \<le> rnd b64 x"
proof -
  have "rnd b64 1 = 1" by code_simp
  then show ?thesis using rnd_mono [OF assms, of b64] by simp
qed

lemma counter_ratio:
  assumes "c \<le> t" "0 < t" "t \<le> 2 ^ 64"
  shows "\<exists>r. fdiv b64 (flit b64 (of_nat c)) (flit b64 (of_nat t)) = FFin r \<and> 0 \<le> r \<and> r \<le> 1"
proof -
  let ?c = "rnd b64 (of_nat c)" and ?t = "rnd b64 (of_nat t)"
  have "?c \<le> ?t" "0 \<le> ?c" "1 \<le> ?t"
    using assms rnd_mono [of "of_nat c" "of_nat t" b64] by (simp_all add: rnd_nonneg rnd_ge_1)
  then obtain r where "fdiv b64 (FFin ?c) (FFin ?t) = FFin r" "0 \<le> r" "r \<le> 1"
    using fdiv_bounded [of ?c ?t 1 b64] by (auto simp del: fdiv.simps)
  moreover have "flit b64 (of_nat c) = FFin ?c" "flit b64 (of_nat t) = FFin ?t"
    using assms flit_nat by simp_all
  ultimately show ?thesis by metis
qed

lemma to_fp_0 [simp]: "to_fp b32 0 = FFin 0" "to_fp b64 0 = FFin 0"
  by (simp_all add: to_fp_def)

end
