(* ===== verification/EDC.thy ===== *)
theory EDC
  imports Floats
begin

text \<open>
  The Entropy-History-Aware Drafting Control of
  \<^verbatim>\<open>ONNXim/src/async_queue/EDC.h\<close>: a two-level branch-predictor-like
  table that decides after each draft batch whether drafting goes on.  The
  record \<^verbatim>\<open>edc\<close> has the fields of class \<^verbatim>\<open>EDC\<close>; every operation is
  \<^verbatim>\<open>option\<close>-valued, \<^const>\<open>None\<close> standing for an out-of-range vector access or an
  undefined cast.  The lemmas show that none occurs, what training does to
  each counter, and that the two circular history tables implement a plain
  history with commit and rollback.
\<close>

section \<open>State\<close>

datatype counter_state =
  STRONGLY_NOT_TAKEN | WEAKLY_NOT_TAKEN | WEAKLY_TAKEN | STRONGLY_TAKEN

fun cs_val :: "counter_state \<Rightarrow> nat" where
  "cs_val STRONGLY_NOT_TAKEN = 0"
| "cs_val WEAKLY_NOT_TAKEN = 1"
| "cs_val WEAKLY_TAKEN = 2"
| "cs_val STRONGLY_TAKEN = 3"

definition cs_of :: "nat \<Rightarrow> counter_state" where
  "cs_of v = (if v = 0 then STRONGLY_NOT_TAKEN else if v = 1 then WEAKLY_NOT_TAKEN
              else if v = 2 then WEAKLY_TAKEN else STRONGLY_TAKEN)"

record edc =
  edc_leht :: "u8 list"
  edc_lceht :: "u8 list"
  edc_llr :: u8
  edc_pht :: "counter_state list"
  edc_total_predictions :: u64
  edc_correct_predictions :: u64
  edc_suppressed_drafts :: u64
  edc_total_drafts :: u64
  edc_h_max :: fp
  edc_leht_size :: u32
  edc_llr_bits :: u32
  edc_llr_max :: u8
  edc_pht_size :: u32
  edc_pht_index_mask :: u32
  edc_leht_group_bits :: u32
  edc_leht_ptr :: u32
  edc_lceht_ptr :: u32
  edc_pending_indices :: "u16 list"
  edc_pending_values :: "bool list"

section \<open>Operations\<close>

definition DEFAULT_LEHT_SIZE :: u32 where "DEFAULT_LEHT_SIZE = 8"
definition DEFAULT_LLR_BITS :: u32 where "DEFAULT_LLR_BITS = 3"
definition DEFAULT_H_MAX :: fp where "DEFAULT_H_MAX = FFin 10"

definition compute_pht_size :: "u32 \<Rightarrow> u32" where
  "compute_pht_size llr_bits = (let bits = min (3 + 3 + llr_bits) 16 in push_bit (unat bits) 1)"

definition clamp :: "u32 \<Rightarrow> u32 \<Rightarrow> u32 \<Rightarrow> u32" where
  "clamp v lo hi = (if v < lo then lo else if hi < v then hi else v)"

definition edc_init :: "fp \<Rightarrow> u32 \<Rightarrow> u32 \<Rightarrow> edc" where
  "edc_init h_max leht_size llr_bits =
     (let sz = max 1 leht_size; bits = clamp llr_bits 1 8; psz = compute_pht_size bits in
      \<lparr> edc_leht = replicate (unat sz) 0, edc_lceht = replicate (unat sz) 0, edc_llr = 0,
        edc_pht = replicate (unat psz) WEAKLY_TAKEN,
        edc_total_predictions = 0, edc_correct_predictions = 0,
        edc_suppressed_drafts = 0, edc_total_drafts = 0,
        edc_h_max = h_max, edc_leht_size = sz, edc_llr_bits = bits,
        edc_llr_max = ucast (push_bit (unat bits) 1 - 1 :: u32),
        edc_pht_size = psz, edc_pht_index_mask = psz - 1, edc_leht_group_bits = 3,
        edc_leht_ptr = 0, edc_lceht_ptr = 0,
        edc_pending_indices = [], edc_pending_values = [] \<rparr>)"

definition entropy_to_bucket :: "fp \<Rightarrow> fp \<Rightarrow> u8 option" where
  "entropy_to_bucket h_max entropy =
     (let e1 = (if flt entropy (FFin 0) then FFin 0 else entropy);
          e2 = (if flt h_max e1 then h_max else e1)
      in map_option of_nat (fcast 256 (fmul b32 (fdiv b32 e2 h_max) (flit b32 (799 / 100)))))"

function sum_range :: "u8 list \<Rightarrow> nat \<Rightarrow> nat \<Rightarrow> u32 \<Rightarrow> u32 option" where
  "sum_range v i n acc =
     (if i < n then (case vec_get v i of None \<Rightarrow> None
                     | Some x \<Rightarrow> sum_range v (i + 1) n (acc + ucast x))
      else Some acc)"
  by auto
termination by (relation "measure (\<lambda>(v, i, n, acc). n - i)") auto

declare sum_range.simps [simp del]

definition calculate_pht_index :: "edc \<Rightarrow> u16 option" where
  "calculate_pht_index e =
     (if edc_leht_size e = 0 then Some 0 else
      let half = max 1 (edc_leht_size e div 2) in
      case sum_range (edc_leht e) 0 (min (unat half) (unat (edc_leht_size e))) 0 of
        None \<Rightarrow> None
      | Some sum_low \<Rightarrow>
        (let avg_low = (ucast (sum_low div half) :: u8);
             upper_count = (if half < edc_leht_size e then edc_leht_size e - half else 0) in
         case sum_range (edc_leht e) (unat half) (unat (edc_leht_size e)) 0 of
           None \<Rightarrow> None
         | Some sum_high \<Rightarrow>
           (let avg_high = (if upper_count \<noteq> 0 then (ucast (sum_high div upper_count) :: u8) else 0);
                index = or (or (push_bit (unat (3 + edc_llr_bits e)) (ucast avg_high :: u32))
                               (push_bit (unat (edc_llr_bits e)) (ucast avg_low)))
                           (ucast (and (edc_llr e) (edc_llr_max e)))
            in Some (ucast (and index (edc_pht_index_mask e))))))"

definition update_counter :: "counter_state \<Rightarrow> bool \<Rightarrow> counter_state" where
  "update_counter c taken =
     (let val = cs_val c in
      if taken \<and> val < 3 then cs_of (val + 1)
      else if \<not> taken \<and> val > 0 then cs_of (val - 1)
      else c)"

definition should_continue_drafting :: "edc \<Rightarrow> fp \<Rightarrow> (bool \<times> edc) option" where
  "should_continue_drafting e0 avg_entropy =
     (let e1 = e0\<lparr> edc_total_drafts := edc_total_drafts e0 + 1 \<rparr> in
      case entropy_to_bucket (edc_h_max e1) avg_entropy of None \<Rightarrow> None | Some bucket \<Rightarrow>
      case vec_set (edc_leht e1) (unat (edc_leht_ptr e1)) bucket of None \<Rightarrow> None | Some l \<Rightarrow>
      let e2 = e1\<lparr> edc_leht := l, edc_leht_ptr := (edc_leht_ptr e1 + 1) mod edc_leht_size e1 \<rparr>;
          e3 = (if edc_llr e2 < edc_llr_max e2 then e2\<lparr> edc_llr := edc_llr e2 + 1 \<rparr> else e2) in
      case calculate_pht_index e3 of None \<Rightarrow> None | Some pht_index \<Rightarrow>
      case vec_get (edc_pht e3) (unat pht_index) of None \<Rightarrow> None | Some prediction \<Rightarrow>
      let should_continue = (2 \<le> cs_val prediction);
          e4 = e3\<lparr> edc_total_predictions := edc_total_predictions e3 + 1,
                   edc_pending_indices := edc_pending_indices e3 @ [pht_index],
                   edc_pending_values := edc_pending_values e3 @ [should_continue] \<rparr>;
          e5 = (if should_continue then e4
                else e4\<lparr> edc_suppressed_drafts := edc_suppressed_drafts e4 + 1 \<rparr>)
      in Some (should_continue, e5))"

fun train_loop :: "bool \<Rightarrow> u32 \<Rightarrow> nat \<Rightarrow> u16 list \<Rightarrow> edc \<Rightarrow> edc option" where
  "train_loop fully_accepted accepted_count i [] e = Some e"
| "train_loop fully_accepted accepted_count i (pht_index # rest) e =
     (let actual_taken = (fully_accepted \<or> i + 1 < unat accepted_count) in
      case vec_get (edc_pending_values e) i of None \<Rightarrow> None | Some predicted \<Rightarrow>
      let e1 = (if predicted = actual_taken
                then e\<lparr> edc_correct_predictions := edc_correct_predictions e + 1 \<rparr> else e) in
      case vec_get (edc_pht e1) (unat pht_index) of None \<Rightarrow> None | Some c \<Rightarrow>
      train_loop fully_accepted accepted_count (i + 1) rest
        (e1\<lparr> edc_pht := (edc_pht e1)[unat pht_index := update_counter c actual_taken] \<rparr>))"

definition update_on_verification :: "edc \<Rightarrow> bool \<Rightarrow> u32 \<Rightarrow> edc option" where
  "update_on_verification e fully_accepted accepted_count =
     (case train_loop fully_accepted accepted_count 0 (edc_pending_indices e) e of
        None \<Rightarrow> None
      | Some e1 \<Rightarrow>
        let e2 = e1\<lparr> edc_pending_indices := [], edc_pending_values := [] \<rparr>;
            e3 = (if fully_accepted
                  then e2\<lparr> edc_lceht := edc_leht e2, edc_lceht_ptr := edc_leht_ptr e2 \<rparr>
                  else e2\<lparr> edc_leht := edc_lceht e2, edc_leht_ptr := edc_lceht_ptr e2 \<rparr>)
        in Some (e3\<lparr> edc_llr := 0 \<rparr>))"

definition edc_reset :: "edc \<Rightarrow> edc" where
  "edc_reset e = e\<lparr> edc_leht := replicate (length (edc_leht e)) 0,
                    edc_lceht := replicate (length (edc_lceht e)) 0,
                    edc_llr := 0, edc_leht_ptr := 0, edc_lceht_ptr := 0,
                    edc_pending_indices := [], edc_pending_values := [] \<rparr>"

definition get_prediction_accuracy :: "edc \<Rightarrow> fp" where
  "get_prediction_accuracy e =
     (if edc_total_predictions e = 0 then FFin 0
      else fdiv b64 (flit b64 (of_nat (unat (edc_correct_predictions e))))
                    (flit b64 (of_nat (unat (edc_total_predictions e)))))"

definition get_suppression_rate :: "edc \<Rightarrow> fp" where
  "get_suppression_rate e =
     (if edc_total_drafts e = 0 then FFin 0
      else fdiv b64 (flit b64 (of_nat (unat (edc_suppressed_drafts e))))
                    (flit b64 (of_nat (unat (edc_total_drafts e)))))"

definition get_area_bits :: nat where
  "get_area_bits = 24 + 24 + 3 + 1024"

section \<open>Sequences of operations\<close>

datatype edc_op = EdcDraft fp | EdcVerify bool u32 | EdcReset

fun edc_step :: "edc_op \<Rightarrow> edc \<Rightarrow> edc option" where
  "edc_step (EdcDraft x) e = map_option snd (should_continue_drafting e x)"
| "edc_step (EdcVerify fa ac) e = update_on_verification e fa ac"
| "edc_step EdcReset e = Some (edc_reset e)"

section \<open>The entropy bucket\<close>

lemma lit_799: "to_fp b32 (799 / 100) = FFin (4189061 / 524288)"
  by code_simp

lemma lit_799_representable: "representable b32 (4189061 / 524288)"
  by (rule representableI [where m = "16756244"]) code_simp

text \<open>The clamped entropy, and the bucket as a function of it.\<close>
definition clamped :: "rat \<Rightarrow> fp \<Rightarrow> rat" where
  "clamped h x = (case x of FFin v \<Rightarrow> min h (max 0 v) | FInf s \<Rightarrow> if s then 0 else h | FNaN \<Rightarrow> 0)"

lemma clamped_range: "0 < h \<Longrightarrow> 0 \<le> clamped h x \<and> clamped h x \<le> h"
  by (cases x) (auto simp: clamped_def)

lemma clamped_mono: "0 < h \<Longrightarrow> fle x y \<Longrightarrow> clamped h x \<le> clamped h y"
  by (cases x; cases y) (auto simp: clamped_def)

lemma entropy_to_bucket_value:
  assumes "0 < h" "x \<noteq> FNaN"
  shows "entropy_to_bucket (FFin h) x =
    Some (of_nat (nat \<lfloor>rnd b32 (rnd b32 (clamped h x / h) * (4189061 / 524288))\<rfloor>))"
proof -
  let ?v = "clamped h x" and ?lit = "4189061 / 524288 :: rat"
  let ?r = "rnd b32 (?v / h)"
  have v: "0 \<le> ?v / h" "?v / h \<le> 1" using clamped_range [OF assms(1), of x] assms(1) by auto
  have r: "0 \<le> ?r" "?r \<le> 1" using rnd_nonneg [OF v(1)] rnd_le [OF v(2)] by auto
  have lit: "?lit < ftop b32" by simp
  have rl: "0 \<le> ?r * ?lit" "?r * ?lit \<le> ?lit" using r by auto
  have "to_fp b32 (?v / h) = FFin ?r" using to_fp_bounded(1) [OF v, of b32] by simp
  then have "fdiv b32 (FFin ?v) (FFin h) = FFin ?r" using assms(1) by simp
  moreover have "to_fp b32 (?r * ?lit) = FFin (rnd b32 (?r * ?lit))"
    by (rule to_fp_bounded(1) [OF rl lit_799_representable lit])
  then have "fmul b32 (FFin ?r) (FFin ?lit) = FFin (rnd b32 (?r * ?lit))" by (simp only: fmul.simps)
  moreover have "(if flt (FFin h) (if flt x (FFin 0) then FFin 0 else x) then FFin h
       else if flt x (FFin 0) then FFin 0 else x) = FFin ?v"
    using assms by (cases x) (auto simp: clamped_def)
  moreover have "fcast 256 (FFin (rnd b32 (?r * ?lit))) = Some (nat \<lfloor>rnd b32 (?r * ?lit)\<rfloor>)"
    using rnd_nonneg [OF rl(1)] rnd_le [OF rl(2) _ lit_799_representable]
    by (intro fcast_in_range) auto
  ultimately show ?thesis by (simp only: entropy_to_bucket_def Let_def lit_799 option.map)
qed

lemma bucket_bounds:
  assumes "0 < h"
  shows "0 \<le> rnd b32 (rnd b32 (clamped h x / h) * (4189061 / 524288))"
    "rnd b32 (rnd b32 (clamped h x / h) * (4189061 / 524288)) \<le> 4189061 / 524288"
proof -
  let ?r = "rnd b32 (clamped h x / h)"
  have v: "0 \<le> clamped h x / h" "clamped h x / h \<le> 1"
    using clamped_range [OF assms, of x] assms by auto
  have r: "0 \<le> ?r" "?r \<le> 1" using rnd_nonneg [OF v(1)] rnd_le [OF v(2)] by auto
  have p: "0 \<le> ?r * (4189061 / 524288)" "?r * (4189061 / 524288) \<le> 4189061 / 524288"
    using r by auto
  show "0 \<le> rnd b32 (?r * (4189061 / 524288))" by (rule rnd_nonneg [OF p(1)])
  show "rnd b32 (?r * (4189061 / 524288)) \<le> 4189061 / 524288"
    by (rule rnd_le [OF p(2) _ lit_799_representable]) simp
qed

lemma entropy_to_bucket_finite:
  assumes "0 < h" "x \<noteq> FNaN"
  shows "\<exists>b. entropy_to_bucket (FFin h) x = Some b \<and> b \<le> 7"
proof -
  have "nat \<lfloor>rnd b32 (rnd b32 (clamped h x / h) * (4189061 / 524288))\<rfloor> \<le> 7"
    using bucket_bounds [OF assms(1), of x] by linarith
  then show ?thesis
    by (simp add: entropy_to_bucket_value [OF assms] word_le_nat_alt)
qed

lemma entropy_to_bucket_mono:
  assumes "0 < h" "fle x y" "entropy_to_bucket (FFin h) x = Some a"
    "entropy_to_bucket (FFin h) y = Some b"
  shows "a \<le> b"
proof -
  let ?f = "\<lambda>x. rnd b32 (rnd b32 (clamped h x / h) * (4189061 / 524288))"
  have num: "x \<noteq> FNaN" "y \<noteq> FNaN" using assms(2) by (cases x; cases y; simp)+
  have "clamped h x / h \<le> clamped h y / h"
    using clamped_mono [OF assms(1,2)] assms(1) by (simp add: divide_right_mono)
  then have "rnd b32 (clamped h x / h) \<le> rnd b32 (clamped h y / h)" by (simp add: rnd_mono)
  then have "?f x \<le> ?f y" by (simp add: rnd_mono)
  then have "nat \<lfloor>?f x\<rfloor> \<le> nat \<lfloor>?f y\<rfloor>" by (simp add: floor_mono nat_mono)
  moreover have "nat \<lfloor>?f y\<rfloor> \<le> 7" using bucket_bounds [OF assms(1), of y] by linarith
  moreover have "a = of_nat (nat \<lfloor>?f x\<rfloor>)" "b = of_nat (nat \<lfloor>?f y\<rfloor>)"
    using assms(3,4) entropy_to_bucket_value [OF assms(1)] num by simp_all
  ultimately show ?thesis by (simp add: word_le_nat_alt)
qed

section \<open>Invariant\<close>

definition pht_bits :: "edc \<Rightarrow> nat" where
  "pht_bits e = 6 + unat (edc_llr_bits e)"

definition edc_inv :: "edc \<Rightarrow> bool" where
  "edc_inv e \<longleftrightarrow>
     (case edc_h_max e of FFin h \<Rightarrow> 0 < h | _ \<Rightarrow> False) \<and>
     1 \<le> edc_leht_size e \<and>
     length (edc_leht e) = unat (edc_leht_size e) \<and> list_all (\<lambda>b. b \<le> 7) (edc_leht e) \<and>
     length (edc_lceht e) = unat (edc_leht_size e) \<and> list_all (\<lambda>b. b \<le> 7) (edc_lceht e) \<and>
     edc_leht_ptr e < edc_leht_size e \<and> edc_lceht_ptr e < edc_leht_size e \<and>
     edc_llr_bits e \<le> 8 \<and> edc_llr e \<le> edc_llr_max e \<and>
     edc_llr_max e = mask (unat (edc_llr_bits e)) \<and>
     edc_pht_size e = 2 ^ pht_bits e \<and> edc_pht_index_mask e = mask (pht_bits e) \<and>
     length (edc_pht e) = 2 ^ pht_bits e \<and>
     length (edc_pending_values e) = length (edc_pending_indices e) \<and>
     list_all (\<lambda>i. unat i < 2 ^ pht_bits e) (edc_pending_indices e)"

lemma sum_range_defined: "n \<le> length v \<Longrightarrow> \<exists>s. sum_range v i n acc = Some s"
proof (induction v i n acc rule: sum_range.induct)
  case (1 v i n acc)
  then show ?case by (subst sum_range.simps) auto
qed

lemma pht_index_defined:
  assumes "length (edc_leht e) = unat (edc_leht_size e)" "edc_llr_bits e \<le> 8"
    "edc_pht_index_mask e = mask (pht_bits e)"
  shows "\<exists>i. calculate_pht_index e = Some i \<and> unat i < 2 ^ pht_bits e"
proof -
  have b: "pht_bits e \<le> 14" using assms(2) by (simp add: pht_bits_def word_le_nat_alt)
  have *: "unat (ucast (and w (edc_pht_index_mask e)) :: u16) < 2 ^ pht_bits e" for w :: u32
  proof -
    have "unat (and w (edc_pht_index_mask e)) = take_bit (pht_bits e) (unat w)"
      by (simp add: assms(3) unsigned_take_bit_eq flip: take_bit_eq_mask)
    moreover have "take_bit (pht_bits e) (unat w) < 2 ^ pht_bits e" by simp
    ultimately show ?thesis
      by (metis order_le_less_trans unsigned_ucast_eq take_bit_nat_less_eq_self)
  qed
  obtain s where "sum_range (edc_leht e) 0
     (min (unat (max 1 (edc_leht_size e div 2))) (unat (edc_leht_size e))) 0 = Some s"
    using sum_range_defined assms(1) by (metis min.cobounded2)
  moreover obtain t where "sum_range (edc_leht e)
     (unat (max 1 (edc_leht_size e div 2))) (unat (edc_leht_size e)) 0 = Some t"
    using sum_range_defined assms(1) by (metis order_refl)
  ultimately show ?thesis using * by (auto simp: calculate_pht_index_def Let_def)
qed

text \<open>One draft step, spelled out: the bucket enters the history, the prediction is read from
  the table and joins the pending ones.\<close>

lemma should_continue_draftingE:
  assumes inv: "edc_inv e" and x: "x \<noteq> FNaN"
  obtains b i p where
    "entropy_to_bucket (edc_h_max e) x = Some b" "b \<le> 7" "unat i < 2 ^ pht_bits e"
    "p = (2 \<le> cs_val (edc_pht e ! unat i))"
    "should_continue_drafting e x = Some (p,
       e\<lparr> edc_total_drafts := edc_total_drafts e + 1,
          edc_leht := (edc_leht e)[unat (edc_leht_ptr e) := b],
          edc_leht_ptr := (edc_leht_ptr e + 1) mod edc_leht_size e,
          edc_llr := (if edc_llr e < edc_llr_max e then edc_llr e + 1 else edc_llr e),
          edc_total_predictions := edc_total_predictions e + 1,
          edc_pending_indices := edc_pending_indices e @ [i],
          edc_pending_values := edc_pending_values e @ [p],
          edc_suppressed_drafts := edc_suppressed_drafts e + (if p then 0 else 1) \<rparr>)"
proof -
  obtain h where h: "edc_h_max e = FFin h" "0 < h"
    using inv by (auto simp: edc_inv_def split: fp.splits)
  obtain b where b: "entropy_to_bucket (edc_h_max e) x = Some b" "b \<le> 7"
    using entropy_to_bucket_finite [OF h(2) x] h(1) by auto
  define e3 where "e3 = e\<lparr> edc_total_drafts := edc_total_drafts e + 1,
          edc_leht := (edc_leht e)[unat (edc_leht_ptr e) := b],
          edc_leht_ptr := (edc_leht_ptr e + 1) mod edc_leht_size e,
          edc_llr := (if edc_llr e < edc_llr_max e then edc_llr e + 1 else edc_llr e) \<rparr>"
  have bits: "pht_bits e3 = pht_bits e" by (simp add: e3_def pht_bits_def)
  obtain i where i: "calculate_pht_index e3 = Some i" "unat i < 2 ^ pht_bits e"
    using pht_index_defined [of e3] inv bits by (auto simp: edc_inv_def e3_def)
  have ptr: "unat (edc_leht_ptr e) < length (edc_leht e)"
    using inv by (auto simp: edc_inv_def word_less_nat_alt)
  have pht: "unat i < length (edc_pht e)" using inv i(2) by (simp add: edc_inv_def)
  show ?thesis
    by (rule that [OF b i(2) refl], use b i ptr pht in
         \<open>cases "edc_llr e < edc_llr_max e"; cases "2 \<le> cs_val (edc_pht e ! unat i)"\<close>)
       (simp_all add: should_continue_drafting_def Let_def e3_def)
qed

lemma update_counter_val:
  "cs_val (update_counter c True) = min 3 (cs_val c + 1)"
  "cs_val (update_counter c False) = cs_val c - 1"
  by (cases c; simp add: update_counter_def cs_of_def)+

lemma edc_draft_inv [inv_intros]:
  assumes inv: "edc_inv e" and x: "x \<noteq> FNaN"
  shows "\<exists>p e'. should_continue_drafting e x = Some (p, e') \<and> edc_inv e'"
proof -
  obtain b i p where *: "b \<le> 7" "unat i < 2 ^ pht_bits e"
    "should_continue_drafting e x = Some (p,
       e\<lparr> edc_total_drafts := edc_total_drafts e + 1,
          edc_leht := (edc_leht e)[unat (edc_leht_ptr e) := b],
          edc_leht_ptr := (edc_leht_ptr e + 1) mod edc_leht_size e,
          edc_llr := (if edc_llr e < edc_llr_max e then edc_llr e + 1 else edc_llr e),
          edc_total_predictions := edc_total_predictions e + 1,
          edc_pending_indices := edc_pending_indices e @ [i],
          edc_pending_values := edc_pending_values e @ [p],
          edc_suppressed_drafts := edc_suppressed_drafts e + (if p then 0 else 1) \<rparr>)"
    by (rule should_continue_draftingE [OF assms])
  have llr: "edc_llr e < edc_llr_max e \<Longrightarrow> edc_llr e + 1 \<le> edc_llr_max e"
    by (simp add: inc_le)
  have ptr: "(edc_leht_ptr e + 1) mod edc_leht_size e < edc_leht_size e"
    using inv by (intro word_mod_less_divisor) (auto simp: edc_inv_def word_less_nat_alt word_le_nat_alt)
  show ?thesis
    using inv *(1,2) llr ptr unfolding *(3)
    by (auto simp: edc_inv_def pht_bits_def list_all_update)
qed


section \<open>What a verification trains\<close>

text \<open>The outcome of pending prediction \<^verbatim>\<open>k\<close>, the outcomes that reach counter \<^verbatim>\<open>j\<close> in
  order, and the number of pending predictions that were right.\<close>

definition outcome :: "bool \<Rightarrow> u32 \<Rightarrow> nat \<Rightarrow> bool" where
  "outcome fa ac k \<longleftrightarrow> fa \<or> k + 1 < unat ac"

definition outcomes_at :: "bool \<Rightarrow> u32 \<Rightarrow> nat \<Rightarrow> u16 list \<Rightarrow> nat \<Rightarrow> bool list" where
  "outcomes_at fa ac i ps j =
     map (\<lambda>(k, p). outcome fa ac k) (filter (\<lambda>(k, p). unat p = j) (enumerate i ps))"

definition hits :: "bool \<Rightarrow> u32 \<Rightarrow> nat \<Rightarrow> u16 list \<Rightarrow> bool list \<Rightarrow> nat" where
  "hits fa ac i ps vs =
     length (filter (\<lambda>(k, p). vs ! k = outcome fa ac k) (enumerate i ps))"

lemma train_loop_result:
  assumes "i + length ps \<le> length (edc_pending_values e)"
    "list_all (\<lambda>p. unat p < length (edc_pht e)) ps"
  shows "\<exists>pht'. train_loop fa ac i ps e = Some (e\<lparr> edc_pht := pht', edc_correct_predictions :=
             edc_correct_predictions e + of_nat (hits fa ac i ps (edc_pending_values e)) \<rparr>) \<and>
           length pht' = length (edc_pht e) \<and>
           (\<forall>j < length (edc_pht e).
              pht' ! j = foldl update_counter (edc_pht e ! j) (outcomes_at fa ac i ps j))"
  using assms
proof (induction ps arbitrary: i e)
  case Nil
  show ?case by (rule exI [of _ "edc_pht e"]) (simp add: hits_def outcomes_at_def)
next
  case (Cons p ps)
  define e1 where "e1 = e\<lparr> edc_correct_predictions := edc_correct_predictions e +
       (if edc_pending_values e ! i = outcome fa ac i then 1 else 0),
     edc_pht := (edc_pht e)[unat p := update_counter (edc_pht e ! unat p) (outcome fa ac i)] \<rparr>"
  have step: "train_loop fa ac i (p # ps) e = train_loop fa ac (i + 1) ps e1"
    using Cons.prems
    by (cases "edc_pending_values e ! i"; cases "outcome fa ac i")
       (simp_all add: e1_def outcome_def Let_def)
  have len: "length (edc_pht e1) = length (edc_pht e)"
    and vals: "edc_pending_values e1 = edc_pending_values e" by (simp_all add: e1_def)
  obtain pht' where IH: "train_loop fa ac (i + 1) ps e1 = Some (e1\<lparr> edc_pht := pht',
       edc_correct_predictions := edc_correct_predictions e1 +
         of_nat (hits fa ac (i + 1) ps (edc_pending_values e1)) \<rparr>)"
    "length pht' = length (edc_pht e1)"
    "\<forall>j < length (edc_pht e1).
       pht' ! j = foldl update_counter (edc_pht e1 ! j) (outcomes_at fa ac (i + 1) ps j)"
    using Cons.IH [of "i + 1" e1] Cons.prems len vals by auto
  have "pht' ! j = foldl update_counter (edc_pht e ! j) (outcomes_at fa ac i (p # ps) j)"
    if "j < length (edc_pht e)" for j
    using that IH(3) len by (cases "unat p = j") (simp_all add: e1_def outcomes_at_def)
  then show ?case
    using IH(2) len unfolding step IH(1)
    by (intro exI [of _ pht']) (auto simp: hits_def e1_def)
qed

lemma update_on_verificationE:
  assumes inv: "edc_inv e"
  obtains pht' where "length pht' = length (edc_pht e)"
    "\<forall>j < length (edc_pht e). pht' ! j =
       foldl update_counter (edc_pht e ! j) (outcomes_at fa ac 0 (edc_pending_indices e) j)"
    "update_on_verification e fa ac = Some (e\<lparr> edc_pht := pht', edc_correct_predictions :=
         edc_correct_predictions e + of_nat (hits fa ac 0 (edc_pending_indices e) (edc_pending_values e)),
       edc_pending_indices := [], edc_pending_values := [],
       edc_leht := (if fa then edc_leht e else edc_lceht e),
       edc_leht_ptr := (if fa then edc_leht_ptr e else edc_lceht_ptr e),
       edc_lceht := (if fa then edc_leht e else edc_lceht e),
       edc_lceht_ptr := (if fa then edc_leht_ptr e else edc_lceht_ptr e), edc_llr := 0 \<rparr>)"
proof -
  obtain pht' where *: "train_loop fa ac 0 (edc_pending_indices e) e = Some (e\<lparr> edc_pht := pht',
       edc_correct_predictions := edc_correct_predictions e +
         of_nat (hits fa ac 0 (edc_pending_indices e) (edc_pending_values e)) \<rparr>)"
    "length pht' = length (edc_pht e)"
    "\<forall>j < length (edc_pht e). pht' ! j =
       foldl update_counter (edc_pht e ! j) (outcomes_at fa ac 0 (edc_pending_indices e) j)"
    using train_loop_result [of 0 "edc_pending_indices e" e fa ac] inv by (auto simp: edc_inv_def)
  show ?thesis
    by (rule that [OF *(2,3)]) (simp add: update_on_verification_def *(1) Let_def)
qed

lemma edc_verify_inv [inv_intros]:
  assumes inv: "edc_inv e"
  shows "\<exists>e'. update_on_verification e fa ac = Some e' \<and> edc_inv e'"
proof -
  obtain pht' where *: "length pht' = length (edc_pht e)" "update_on_verification e fa ac =
     Some (e\<lparr> edc_pht := pht', edc_correct_predictions :=
         edc_correct_predictions e + of_nat (hits fa ac 0 (edc_pending_indices e) (edc_pending_values e)),
       edc_pending_indices := [], edc_pending_values := [],
       edc_leht := (if fa then edc_leht e else edc_lceht e),
       edc_leht_ptr := (if fa then edc_leht_ptr e else edc_lceht_ptr e),
       edc_lceht := (if fa then edc_leht e else edc_lceht e),
       edc_lceht_ptr := (if fa then edc_leht_ptr e else edc_lceht_ptr e), edc_llr := 0 \<rparr>)"
    by (rule update_on_verificationE [OF inv])
  show ?thesis using inv *(1) unfolding *(2) by (auto simp: edc_inv_def pht_bits_def)
qed

lemma edc_reset_inv [inv_intros]: "edc_inv e \<Longrightarrow> edc_inv (edc_reset e)"
  by (auto simp: edc_inv_def edc_reset_def pht_bits_def list_all_length word_le_nat_alt
      word_less_nat_alt)

lemma edc_init_inv [inv_intros]:
  assumes "0 < h"
  shows "edc_inv (edc_init (FFin h) n b)"
proof -
  define k where "k = clamp b 1 8"
  have k: "1 \<le> k" "k \<le> 8" by (auto simp: k_def clamp_def not_less word_le_nat_alt word_less_nat_alt)
  then have k8: "unat k \<le> 8" by (simp add: word_le_nat_alt)
  have u6: "unat (6 + k) = 6 + unat k" using k8 by (simp add: unat_plus_if')
  have "unat (min (3 + 3 + k) 16) = 6 + unat k" using k8 u6 by (simp add: unat_min)
  then have sz: "compute_pht_size k = 2 ^ (6 + unat k)"
    by (simp add: compute_pht_size_def push_bit_eq_mult)
  have "unat ((2::u32) ^ (6 + unat k)) = 2 ^ (6 + unat k)"
    using k8 by (intro unat_pow2) simp
  moreover have "ucast (push_bit (unat k) 1 - 1 :: u32) = (mask (unat k) :: u8)"
  proof -
    have "push_bit (unat k) 1 - 1 = (mask (unat k) :: u32)"
      by (simp add: push_bit_eq_mult mask_eq_exp_minus_1)
    then show ?thesis by (simp only:) (rule bit_word_eqI, simp add: bit_simps)
  qed
  ultimately show ?thesis
    using assms k sz
    by (simp add: edc_init_def edc_inv_def Let_def pht_bits_def list_all_length
        mask_eq_exp_minus_1 unat_max word_less_nat_alt flip: k_def)
qed

section \<open>Every sequence of operations is safe\<close>

text \<open>Drafting calls come with an entropy that is a number.\<close>

fun edc_op_ok :: "edc_op \<Rightarrow> bool" where
  "edc_op_ok (EdcDraft x) = (x \<noteq> FNaN)"
| "edc_op_ok _ = True"

lemma edc_step_inv:
  "edc_inv e \<Longrightarrow> edc_op_ok op \<Longrightarrow> \<exists>e'. edc_step op e = Some e' \<and> edc_inv e'"
  using edc_draft_inv edc_verify_inv edc_reset_inv by (cases op) fastforce+

interpretation edc: invariant edc_step edc_inv edc_op_ok
  by unfold_locales (rule edc_step_inv)

section \<open>The history tables implement commit and rollback\<close>

text \<open>The abstract history: the buckets drafted so far and the committed ones, latest first.
  A draft appends, a full acceptance commits, a rejection drops what was not committed.\<close>

fun hist_step :: "fp \<Rightarrow> edc_op \<Rightarrow> u8 list \<times> u8 list \<Rightarrow> u8 list \<times> u8 list" where
  "hist_step h (EdcDraft x) (H, C) = (the (entropy_to_bucket h x) # H, C)"
| "hist_step h (EdcVerify fa ac) (H, C) = (if fa then (H, H) else (C, C))"
| "hist_step h EdcReset (H, C) = ([], [])"

definition edc_tables :: "fp \<Rightarrow> u32 \<Rightarrow> edc \<Rightarrow> u8 list \<times> u8 list \<Rightarrow> bool" where
  "edc_tables h n e HC \<longleftrightarrow> edc_inv e \<and> edc_h_max e = h \<and> edc_leht_size e = n \<and>
     edc_leht e = ring (unat (edc_leht_size e)) 0 (fst HC) \<and>
     unat (edc_leht_ptr e) = length (fst HC) mod unat (edc_leht_size e) \<and>
     edc_lceht e = ring (unat (edc_leht_size e)) 0 (snd HC) \<and>
     unat (edc_lceht_ptr e) = length (snd HC) mod unat (edc_leht_size e)"

lemma unat_ring_ptr:
  assumes "(p :: u32) < n" "unat p = k mod unat n"
  shows "unat ((p + 1) mod n) = Suc k mod unat n"
  using assms by (simp add: unat_mod unat_succ_of_less mod_Suc_eq)

lemma edc_step_tables:
  assumes "edc_tables h n e HC" "edc_op_ok op"
  shows "\<exists>e'. edc_step op e = Some e' \<and> edc_tables h n e' (hist_step h op HC)"
proof -
  obtain H C where HC: "HC = (H, C)" by (cases HC)
  have inv: "edc_inv e" using assms(1) by (simp add: edc_tables_def)
  obtain e' where e': "edc_step op e = Some e'" "edc_inv e'"
    using edc_step_inv [OF inv assms(2)] by blast
  have "edc_tables h n e' (hist_step h op HC)"
  proof (cases op)
    case (EdcDraft x)
    then have num: "x \<noteq> FNaN" using assms(2) by simp
    have "edc_leht_ptr e < edc_leht_size e" using inv by (simp add: edc_inv_def)
    then show ?thesis
      by - (rule should_continue_draftingE [OF inv num],
         use assms(1) e' EdcDraft in \<open>auto simp: edc_tables_def HC unat_ring_ptr\<close>)
  next
    case (EdcVerify fa ac)
    show ?thesis
      by (rule update_on_verificationE [OF inv, of fa ac])
         (use assms(1) e' EdcVerify in \<open>auto simp: edc_tables_def HC\<close>)
  next
    case EdcReset
    then show ?thesis
      using assms(1) e' by (auto simp: edc_tables_def HC edc_reset_def edc_inv_def)
  qed
  then show ?thesis using e'(1) by blast
qed

interpretation edc_hist: refinement edc_step "hist_step h" "edc_tables h n" edc_op_ok
  by unfold_locales (rule edc_step_tables)

lemma edc_init_tables: "0 < h \<Longrightarrow> edc_tables (FFin h) (max 1 n) (edc_init (FFin h) n b) ([], [])"
  using edc_init_inv [of h n b] by (auto simp: edc_tables_def edc_init_def Let_def)

section \<open>The statistics count\<close>

text \<open>After at most \<^verbatim>\<open>k\<close> operations, \<^verbatim>\<open>k\<close> below the range of the counters.\<close>

definition edc_counts :: "edc \<Rightarrow> nat \<Rightarrow> bool" where
  "edc_counts e k \<longleftrightarrow> edc_inv e \<and> (k < 2 ^ 64 \<longrightarrow>
     unat (edc_total_predictions e) \<le> k \<and> unat (edc_total_drafts e) \<le> k \<and>
     unat (edc_correct_predictions e) + length (edc_pending_indices e)
       \<le> unat (edc_total_predictions e) \<and>
     unat (edc_suppressed_drafts e) \<le> unat (edc_total_drafts e))"

lemma hits_le: "hits fa ac i ps vs \<le> length ps"
  unfolding hits_def by (metis length_enumerate length_filter_le)

lemma unat_count:
  assumes "unat (c :: u64) + h \<le> t" "t < 2 ^ 64"
  shows "unat (c + of_nat h) = unat c + h"
  using assms by (simp add: unat_plus_if')

lemma edc_step_counts:
  assumes "edc_counts e k" "edc_op_ok op"
  shows "\<exists>e'. edc_step op e = Some e' \<and> edc_counts e' (Suc k)"
proof -
  have inv: "edc_inv e" using assms(1) by (simp add: edc_counts_def)
  obtain e' where e': "edc_step op e = Some e'" "edc_inv e'"
    using edc_step_inv [OF inv assms(2)] by blast
  have "edc_counts e' (Suc k)"
  proof (cases op)
    case (EdcDraft x)
    then have num: "x \<noteq> FNaN" using assms(2) by simp
    show ?thesis
      by (rule should_continue_draftingE [OF inv num])
         (use assms(1) e' EdcDraft in \<open>auto simp: edc_counts_def unat_plus_one\<close>)
  next
    case (EdcVerify fa ac)
    let ?h = "hits fa ac 0 (edc_pending_indices e) (edc_pending_values e)"
    have "unat (edc_correct_predictions e + of_nat ?h) = unat (edc_correct_predictions e) + ?h"
      if "Suc k < 2 ^ 64"
      using that assms(1) hits_le [of fa ac 0 "edc_pending_indices e" "edc_pending_values e"]
      by (intro unat_count [where t = k]) (auto simp: edc_counts_def)
    then show ?thesis
      using hits_le [of fa ac 0 "edc_pending_indices e" "edc_pending_values e"]
      by - (rule update_on_verificationE [OF inv, of fa ac],
         use assms(1) e' EdcVerify in \<open>auto simp: edc_counts_def\<close>)
  next
    case EdcReset
    then show ?thesis
      using assms(1) e' by (auto simp: edc_counts_def edc_reset_def)
  qed
  then show ?thesis using e'(1) by blast
qed

interpretation edc_cnt: refinement edc_step "\<lambda>_ k. Suc k" edc_counts edc_op_ok
  by unfold_locales (rule edc_step_counts)

lemma fold_count: "fold (\<lambda>_ k. Suc k) xs n = n + length xs"
  by (induction xs arbitrary: n) auto

section \<open>Properties\<close>

text \<open>C20: from the constructor, any sequence of drafting calls (with entropies that are
  numbers), verifications and resets runs without an out-of-range table access or an undefined
  cast, and keeps the invariant: buckets at most 7, pointers inside the tables, the leading
  length register within its width, every pending index inside the pattern table.\<close>

theorem edc_never_undefined:
  assumes "0 < h" "list_all edc_op_ok ops"
  shows "\<exists>e. run_ops edc_step ops (edc_init (FFin h) n b) = Some e \<and> edc_inv e"
  by (rule edc.run_invariant [OF edc_init_inv [OF assms(1)] assms(2)])

lemma edc_never_undefined_witness:
  "\<exists>e. run_ops edc_step [EdcDraft (FFin 3), EdcDraft (FInf False), EdcVerify False 1, EdcReset]
     (edc_init (FFin 10) 8 3) = Some e \<and> edc_inv e"
  by (rule edc_never_undefined) simp_all

text \<open>C3: the entropy history tables implement a plain history with commit and rollback: a
  draft appends its bucket, a full acceptance commits the history, a rejection returns to the
  committed one, and the two tables hold the last entries of the current and of the committed
  history.\<close>

theorem edc_history_commit_rollback:
  assumes "0 < h" "list_all edc_op_ok ops"
    "fold (hist_step (FFin h)) ops ([], []) = (H, C)"
  shows "\<exists>e. run_ops edc_step ops (edc_init (FFin h) n b) = Some e \<and>
    edc_leht e = ring (unat (max 1 n)) 0 H \<and> edc_lceht e = ring (unat (max 1 n)) 0 C"
  using edc_hist.run_simulates [OF edc_init_tables [OF assms(1), of n b] assms(2)] assms(3)
  by (fastforce simp: edc_tables_def)

lemma edc_history_commit_rollback_witness:
  "\<exists>e. run_ops edc_step [EdcDraft (FFin 3), EdcVerify True 1, EdcDraft (FFin 5), EdcVerify False 0]
     (edc_init (FFin 10) 8 3) = Some e \<and>
    edc_leht e = ring (unat (max 1 8 :: u32)) 0 [2] \<and>
    edc_lceht e = ring (unat (max 1 8 :: u32)) 0 [2]"
  by (rule edc_history_commit_rollback) (simp_all, code_simp)

text \<open>C15: a verification trains every counter of the pattern table with the outcomes of the
  pending predictions that used it, in order (the prediction after token \<^verbatim>\<open>k\<close> was right to
  go on when everything was accepted or at least \<^verbatim>\<open>k + 2\<close> tokens were), and counts the
  predictions that were right; nothing stays pending.\<close>

theorem edc_training:
  assumes "edc_inv e"
  shows "\<exists>e'. update_on_verification e fa ac = Some e' \<and>
    length (edc_pht e') = length (edc_pht e) \<and>
    (\<forall>j < length (edc_pht e). edc_pht e' ! j =
       foldl update_counter (edc_pht e ! j) (outcomes_at fa ac 0 (edc_pending_indices e) j)) \<and>
    edc_correct_predictions e' = edc_correct_predictions e +
       of_nat (hits fa ac 0 (edc_pending_indices e) (edc_pending_values e)) \<and>
    edc_pending_indices e' = [] \<and> edc_pending_values e' = [] \<and> edc_llr e' = 0"
  by (rule update_on_verificationE [OF assms, of fa ac]) simp

lemma edc_training_witness:
  "\<exists>e'. update_on_verification (edc_init (FFin 10) 8 3) True 0 = Some e' \<and> edc_llr e' = 0"
  using edc_training [OF edc_init_inv [of 10 8 3], of True 0] by auto

text \<open>The bucket never decreases when the entropy grows, under the rounding of the
  divisions and multiplications in the code.\<close>

theorem entropy_bucket_monotone:
  assumes "0 < h" "fle x y"
  shows "\<exists>a b. entropy_to_bucket (FFin h) x = Some a \<and> entropy_to_bucket (FFin h) y = Some b \<and>
     a \<le> b \<and> b \<le> 7"
proof -
  have "x \<noteq> FNaN" "y \<noteq> FNaN" using assms(2) by (cases x; cases y; simp)+
  then show ?thesis
    using entropy_to_bucket_finite [OF assms(1)] entropy_to_bucket_mono [OF assms] by blast
qed

lemma entropy_bucket_monotone_witness:
  "\<exists>a b. entropy_to_bucket (FFin 10) (FFin 3) = Some a \<and>
     entropy_to_bucket (FFin 10) (FInf False) = Some b \<and> a \<le> b \<and> b \<le> 7"
  by (rule entropy_bucket_monotone) simp_all

text \<open>After any number of operations within the range of the 64-bit counters the reported
  accuracy and suppression rate are numbers between 0 and 1.\<close>

theorem edc_rates_bounded:
  assumes "0 < h" "list_all edc_op_ok ops" "length ops < 2 ^ 64"
  shows "\<exists>e a s. run_ops edc_step ops (edc_init (FFin h) n b) = Some e \<and>
    get_prediction_accuracy e = FFin a \<and> 0 \<le> a \<and> a \<le> 1 \<and>
    get_suppression_rate e = FFin s \<and> 0 \<le> s \<and> s \<le> 1"
proof -
  have "edc_counts (edc_init (FFin h) n b) 0"
    using edc_init_inv [OF assms(1)] by (simp add: edc_counts_def edc_init_def Let_def)
  then obtain e where run: "run_ops edc_step ops (edc_init (FFin h) n b) = Some e"
    and "edc_counts e (length ops)"
    using edc_cnt.run_simulates [OF _ assms(2)] by (fastforce simp: fold_count)
  then have c: "unat (edc_correct_predictions e) \<le> unat (edc_total_predictions e)"
    "unat (edc_suppressed_drafts e) \<le> unat (edc_total_drafts e)"
    using assms(3) by (auto simp: edc_counts_def)
  have le: "unat (w :: u64) \<le> 2 ^ 64" for w
    using unsigned_less [of w, where 'a = nat] by simp
  show ?thesis
    using run counter_ratio [OF c(1) _ le] counter_ratio [OF c(2) _ le]
    by (auto simp: get_prediction_accuracy_def get_suppression_rate_def unat_gt_0 simp del: fdiv.simps)
qed

lemma edc_rates_bounded_witness:
  "\<exists>e a s. run_ops edc_step [EdcDraft (FFin 3), EdcVerify True 1] (edc_init (FFin 10) 8 3) = Some e \<and>
    get_prediction_accuracy e = FFin a \<and> 0 \<le> a \<and> a \<le> 1 \<and>
    get_suppression_rate e = FFin s \<and> 0 \<le> s \<and> s \<le> 1"
  by (rule edc_rates_bounded) simp_all

end
