(* ===== verification/TVC.thy ===== *)
theory TVC
  imports Floats
begin

text \<open>
  The Time-Aware Pre-Verification Control of
  \<^verbatim>\<open>ONNXim/src/async_queue/TVC.h\<close>: three sliding windows of cycle counts
  (verification on the NPU, drafting and pre-verification on the PIM side) and
  the decision whether, and how many tokens, to pre-verify.  All arithmetic is
  that of the code: unsigned 64-bit words and single precision.
\<close>

section \<open>State\<close>

record cycle_record =
  cr_cycles :: u64
  cr_length :: u32

definition get_ratio :: "cycle_record \<Rightarrow> fp" where
  "get_ratio r = (if cr_length r = 0 then FFin 0
     else fdiv b32 (fu32 (cr_cycles r)) (fu32 (cr_length r)))"

record tvc =
  tvc_nvct :: "cycle_record list"
  tvc_pdct :: "cycle_record list"
  tvc_pvct :: "cycle_record list"
  tvc_ncr :: u64
  tvc_npu_task_start :: u64
  tvc_freq_ratio :: fp
  tvc_cycle_table_size :: u32
  tvc_total_preverifications :: u64
  tvc_successful_preverifications :: u64
  tvc_prevented_npu_idles :: u64
  tvc_total_decisions :: u64

section \<open>Operations\<close>

definition calculate_avg_ratio :: "cycle_record list \<Rightarrow> fp" where
  "calculate_avg_ratio table =
     (if table = [] then FFin 0
      else fdiv b32 (foldl (\<lambda>sum r. fadd b32 sum (get_ratio r)) (FFin 0) table)
                    (flit b32 (of_nat (length table))))"

text \<open>The loop of \<^verbatim>\<open>add_to_table\<close>; popping an empty deque is undefined.\<close>

fun pop_until_room :: "nat \<Rightarrow> cycle_record list \<Rightarrow> cycle_record list option" where
  "pop_until_room n [] = (if n \<le> 0 then None else Some [])"
| "pop_until_room n (r # rs) = (if n \<le> length (r # rs) then pop_until_room n rs else Some (r # rs))"

definition add_to_table :: "u32 \<Rightarrow> cycle_record list \<Rightarrow> u64 \<Rightarrow> u32 \<Rightarrow> cycle_record list option" where
  "add_to_table sz table cycles len =
     (case pop_until_room (unat sz) table of None \<Rightarrow> None
      | Some t \<Rightarrow> Some (t @ [\<lparr> cr_cycles = cycles, cr_length = len \<rparr>]))"

definition DEFAULT_CYCLE_TABLE_SIZE :: u32 where "DEFAULT_CYCLE_TABLE_SIZE = 4"

definition tvc_init :: "fp \<Rightarrow> fp \<Rightarrow> u32 \<Rightarrow> tvc" where
  "tvc_init pim_freq_mhz npu_freq_mhz cycle_table_size =
     \<lparr> tvc_nvct = [], tvc_pdct = [], tvc_pvct = [], tvc_ncr = 0, tvc_npu_task_start = 0,
       tvc_freq_ratio = fdiv b32 pim_freq_mhz npu_freq_mhz,
       tvc_cycle_table_size = max 1 cycle_table_size,
       tvc_total_preverifications = 0, tvc_successful_preverifications = 0,
       tvc_prevented_npu_idles = 0, tvc_total_decisions = 0 \<rparr>"

definition record_npu_verification :: "tvc \<Rightarrow> u64 \<Rightarrow> u32 \<Rightarrow> tvc option" where
  "record_npu_verification t cycles kv = map_option (\<lambda>tb. t\<lparr> tvc_nvct := tb \<rparr>)
     (add_to_table (tvc_cycle_table_size t) (tvc_nvct t) cycles kv)"

definition record_pim_drafting :: "tvc \<Rightarrow> u64 \<Rightarrow> u32 \<Rightarrow> tvc option" where
  "record_pim_drafting t cycles len = map_option (\<lambda>tb. t\<lparr> tvc_pdct := tb \<rparr>)
     (add_to_table (tvc_cycle_table_size t) (tvc_pdct t) cycles len)"

definition record_pim_preverification :: "tvc \<Rightarrow> u64 \<Rightarrow> u32 \<Rightarrow> tvc option" where
  "record_pim_preverification t cycles len =
     map_option (\<lambda>tb. t\<lparr> tvc_pvct := tb,
         tvc_total_preverifications := tvc_total_preverifications t + 1 \<rparr>)
       (add_to_table (tvc_cycle_table_size t) (tvc_pvct t) cycles len)"

definition start_npu_task :: "tvc \<Rightarrow> u64 \<Rightarrow> tvc" where
  "start_npu_task t current_cycle = t\<lparr> tvc_npu_task_start := current_cycle, tvc_ncr := 0 \<rparr>"

definition update_npu_progress :: "tvc \<Rightarrow> u64 \<Rightarrow> tvc" where
  "update_npu_progress t current_npu_cycle =
     t\<lparr> tvc_ncr := current_npu_cycle - tvc_npu_task_start t \<rparr>"

definition should_insert_preverification :: "tvc \<Rightarrow> u32 \<Rightarrow> u32 \<Rightarrow> ((bool \<times> u32) \<times> tvc) option" where
  "should_insert_preverification t0 current_kv_length pending_draft_count =
     (let t = t0\<lparr> tvc_total_decisions := tvc_total_decisions t0 + 1 \<rparr> in
      if tvc_nvct t = [] \<or> tvc_pdct t = [] \<or> pending_draft_count = 0 then Some ((False, 0), t) else
      let npu_ratio = calculate_avg_ratio (tvc_nvct t) in
      case cast_u64 (fmul b32 (fmul b32 npu_ratio (fu32 current_kv_length)) (tvc_freq_ratio t)) of
        None \<Rightarrow> None
      | Some predicted_npu_cycles \<Rightarrow>
      let draft_ratio = calculate_avg_ratio (tvc_pdct t) in
      case cast_u64 (fmul b32 draft_ratio (FFin 1)) of None \<Rightarrow> None | Some one_draft_cycles \<Rightarrow>
      if predicted_npu_cycles \<le> tvc_ncr t + one_draft_cycles then Some ((False, 0), t) else
      let pim_left_cycles = predicted_npu_cycles - (tvc_ncr t + one_draft_cycles);
          ratio0 = calculate_avg_ratio (tvc_pvct t);
          preverify_ratio = (if flt ratio0 (flit b64 (1 / 1000000))
                             then fmul b32 draft_ratio (flit b32 (8 / 10)) else ratio0) in
      case cast_u32 (fdiv b32 (fu32 pim_left_cycles) preverify_ratio) of None \<Rightarrow> None
      | Some len0 \<Rightarrow>
      let len1 = min len0 pending_draft_count; len = max 1 (min len1 8) in
      if 1 \<le> len
      then Some ((True, len),
             t\<lparr> tvc_successful_preverifications := tvc_successful_preverifications t + 1 \<rparr>)
      else Some ((False, 0), t))"

definition conservative_preverify_decision :: "tvc \<Rightarrow> u32 \<Rightarrow> u32 \<Rightarrow> bool option" where
  "conservative_preverify_decision t predicted_npu_remaining_cycles min_preverify_length =
     (if tvc_pdct t = [] \<or> tvc_pvct t = [] then Some False else
      let draft_ratio = calculate_avg_ratio (tvc_pdct t);
          preverify_ratio = calculate_avg_ratio (tvc_pvct t) in
      case cast_u64 draft_ratio of None \<Rightarrow> None | Some one_draft_cycles \<Rightarrow>
      case cast_u64 (fmul b32 preverify_ratio (fu32 min_preverify_length)) of None \<Rightarrow> None
      | Some preverify_cycles \<Rightarrow>
        Some (preverify_cycles + one_draft_cycles < ucast predicted_npu_remaining_cycles))"

definition record_prevented_idle :: "tvc \<Rightarrow> tvc" where
  "record_prevented_idle t = t\<lparr> tvc_prevented_npu_idles := tvc_prevented_npu_idles t + 1 \<rparr>"

definition tvc_reset :: "tvc \<Rightarrow> tvc" where
  "tvc_reset t = t\<lparr> tvc_nvct := [], tvc_pdct := [], tvc_pvct := [], tvc_ncr := 0,
                   tvc_npu_task_start := 0 \<rparr>"

definition get_preverify_success_rate :: "tvc \<Rightarrow> fp" where
  "get_preverify_success_rate t =
     (if tvc_total_preverifications t = 0 then FFin 0
      else fdiv b64 (flit b64 (of_nat (unat (tvc_successful_preverifications t))))
                    (flit b64 (of_nat (unat (tvc_total_preverifications t)))))"

section \<open>The windows hold the latest records\<close>

definition last_n :: "nat \<Rightarrow> 'a list \<Rightarrow> 'a list" where
  "last_n n xs = drop (length xs - n) xs"

lemma pop_until_room:
  "1 \<le> n \<Longrightarrow> pop_until_room n xs = Some (drop (length xs - (n - 1)) xs)"
  by (induction xs) (auto simp: Suc_diff_le drop_Cons' not_le)

lemma add_to_table_last_n:
  assumes "1 \<le> unat sz"
  shows "add_to_table sz (last_n (unat sz) xs) c l =
    Some (last_n (unat sz) (xs @ [\<lparr> cr_cycles = c, cr_length = l \<rparr>]))"
proof -
  have "length (last_n (unat sz) xs) - (unat sz - 1) + (length xs - unat sz)
     = length xs - (unat sz - 1)"
    using assms by (auto simp: last_n_def)
  then show ?thesis
    using assms by (simp add: add_to_table_def pop_until_room last_n_def add.commute)
qed

datatype tvc_op =
  TvcNpu u64 u32 | TvcDraft u64 u32 | TvcPre u64 u32 | TvcStart u64 | TvcProgress u64
| TvcPrevented | TvcReset

fun tvc_step :: "tvc_op \<Rightarrow> tvc \<Rightarrow> tvc option" where
  "tvc_step (TvcNpu c l) t = record_npu_verification t c l"
| "tvc_step (TvcDraft c l) t = record_pim_drafting t c l"
| "tvc_step (TvcPre c l) t = record_pim_preverification t c l"
| "tvc_step (TvcStart c) t = Some (start_npu_task t c)"
| "tvc_step (TvcProgress c) t = Some (update_npu_progress t c)"
| "tvc_step TvcPrevented t = Some (record_prevented_idle t)"
| "tvc_step TvcReset t = Some (tvc_reset t)"

text \<open>The abstract component keeps everything recorded since the last reset.\<close>

record tvc_log =
  log_npu :: "cycle_record list"
  log_draft :: "cycle_record list"
  log_pre :: "cycle_record list"

abbreviation rec :: "u64 \<Rightarrow> u32 \<Rightarrow> cycle_record" where
  "rec c l \<equiv> \<lparr> cr_cycles = c, cr_length = l \<rparr>"

fun log_step :: "tvc_op \<Rightarrow> tvc_log \<Rightarrow> tvc_log" where
  "log_step (TvcNpu c l) g = g\<lparr> log_npu := log_npu g @ [rec c l] \<rparr>"
| "log_step (TvcDraft c l) g = g\<lparr> log_draft := log_draft g @ [rec c l] \<rparr>"
| "log_step (TvcPre c l) g = g\<lparr> log_pre := log_pre g @ [rec c l] \<rparr>"
| "log_step TvcReset g = \<lparr> log_npu = [], log_draft = [], log_pre = [] \<rparr>"
| "log_step _ g = g"

definition tvc_windows :: "u32 \<Rightarrow> tvc \<Rightarrow> tvc_log \<Rightarrow> bool" where
  "tvc_windows n t g \<longleftrightarrow> tvc_cycle_table_size t = n \<and> 1 \<le> unat n \<and>
     tvc_nvct t = last_n (unat n) (log_npu g) \<and> tvc_pdct t = last_n (unat n) (log_draft g) \<and>
     tvc_pvct t = last_n (unat n) (log_pre g)"

interpretation tvc: refinement tvc_step log_step "tvc_windows n" "\<lambda>_. True"
proof unfold_locales
  fix t g x
  assume R: "tvc_windows n t g"
  show "\<exists>t'. tvc_step x t = Some t' \<and> tvc_windows n t' (log_step x g)"
    using R by (cases x) (auto simp: tvc_windows_def record_npu_verification_def
      record_pim_drafting_def record_pim_preverification_def add_to_table_last_n start_npu_task_def
      update_npu_progress_def record_prevented_idle_def tvc_reset_def, simp_all add: last_n_def)
qed

section \<open>The decision\<close>

text \<open>A positive decision has data on both sides and a length between 1 and both 8 and the
  number of pending drafts.\<close>

lemma should_insert_True:
  assumes "should_insert_preverification t kv pending = Some ((True, len), t')"
  shows "1 \<le> len" "len \<le> 8" "len \<le> pending" "tvc_nvct t \<noteq> []" "tvc_pdct t \<noteq> []"
    "t' = t\<lparr> tvc_total_decisions := tvc_total_decisions t + 1,
            tvc_successful_preverifications := tvc_successful_preverifications t + 1 \<rparr>"
proof -
  have "\<And>l. pending \<noteq> 0 \<Longrightarrow> max 1 (min (min l pending) 8) \<le> pending"
    by (simp add: word_le_nat_alt unat_max unat_min unat_gt_0 Suc_le_eq)
  then show "1 \<le> len" "len \<le> 8" "len \<le> pending" "tvc_nvct t \<noteq> []" "tvc_pdct t \<noteq> []"
    "t' = t\<lparr> tvc_total_decisions := tvc_total_decisions t + 1,
            tvc_successful_preverifications := tvc_successful_preverifications t + 1 \<rparr>"
    using assms by (auto simp: should_insert_preverification_def Let_def
        split: if_split_asm option.split_asm)
qed

lemma should_insert_False:
  assumes "should_insert_preverification t kv pending = Some ((False, len), t')"
  shows "len = 0" "t' = t\<lparr> tvc_total_decisions := tvc_total_decisions t + 1 \<rparr>"
  using assms by (auto simp: should_insert_preverification_def Let_def
        split: if_split_asm option.split_asm)

text \<open>The roundings in the examples below.\<close>

lemma to_fp_samples:
  "to_fp b32 (4 / 5) = FFin (13421773 / 16777216)" "to_fp b32 10 = FFin 10"
  "to_fp b32 100 = FFin 100" "to_fp b32 1000 = FFin 1000" "to_fp b32 50 = FFin 50"
  "to_fp b32 5 = FFin 5" "to_fp b32 1 = FFin 1"
  "to_fp b64 (1 / 1000000) = FFin (4722366482869645 / 4722366482869645213696)"
  "to_fp b32 (8388608125 / 1048576) = FFin 8000" "to_fp b32 (67108865 / 8388608) = FFin 8"
  "to_fp b32 7990 = FFin 7990" "to_fp b32 10000 = FFin 10000" "to_fp b32 8000 = FFin 8000"
  "to_fp b32 (3995 / 4) = FFin (3995 / 4)"
  by code_simp+

lemma floor_sample: "\<lfloor>3995 / 4 :: rat\<rfloor> = 998"
  by (simp add: floor_eq_iff)

definition tvc_ready :: "u32 \<Rightarrow> tvc" where
  "tvc_ready draft_length =
     \<lparr> tvc_nvct = [rec 1000 10], tvc_pdct = [rec 50 draft_length], tvc_pvct = [], tvc_ncr = 0,
       tvc_npu_task_start = 0, tvc_freq_ratio = FFin (13421773 / 16777216),
       tvc_cycle_table_size = 4, tvc_total_preverifications = 0,
       tvc_successful_preverifications = 0, tvc_prevented_npu_idles = 0,
       tvc_total_decisions = 0 \<rparr>"

lemma tvc_ready_reachable:
  "run_ops tvc_step [TvcNpu 1000 10, TvcDraft 50 l] (tvc_init (FFin 800) (FFin 1000) 4) =
     Some (tvc_ready l)"
  by (simp add: tvc_ready_def tvc_init_def to_fp_samples record_npu_verification_def
      record_pim_drafting_def add_to_table_def)

lemma tvc_ready_decides:
  "should_insert_preverification (tvc_ready 5) 100 4 = Some ((True, 4),
     (tvc_ready 5)\<lparr> tvc_total_decisions := 1, tvc_successful_preverifications := 1 \<rparr>)"
  by (simp add: should_insert_preverification_def tvc_ready_def calculate_avg_ratio_def
      get_ratio_def to_fp_samples floor_sample Let_def cong: let_weak_cong option.case_cong_weak)

text \<open>A drafting record of length 0 makes the pre-verification ratio zero and the cast of the
  quotient undefined.\<close>

lemma zero_length_draft_undefined:
  "should_insert_preverification (tvc_ready 0) 100 4 = None"
  by (simp add: should_insert_preverification_def tvc_ready_def calculate_avg_ratio_def
      get_ratio_def to_fp_samples floor_sample Let_def cong: let_weak_cong option.case_cong_weak)

text \<open>Successes are counted when a pre-verification is decided, the total when one completes:
  two decisions and one completion report a success rate of 2.\<close>

lemma success_rate_exceeds_one:
  "get_preverify_success_rate
     ((tvc_ready 5)\<lparr> tvc_successful_preverifications := 2, tvc_total_preverifications := 1 \<rparr>)
   = FFin 2"
  by (simp add: get_preverify_success_rate_def tvc_ready_def) code_simp

section \<open>Properties\<close>

text \<open>C14: whatever is recorded, in whatever order, each of the three windows holds exactly the
  latest records of its kind since the last reset, as many as the configured depth (at least 1),
  and no operation fails.\<close>

theorem tvc_windows_latest:
  assumes "fold log_step ops \<lparr> log_npu = [], log_draft = [], log_pre = [] \<rparr> = g"
  shows "\<exists>t. run_ops tvc_step ops (tvc_init p q n) = Some t \<and>
    tvc_nvct t = last_n (unat (max 1 n)) (log_npu g) \<and>
    tvc_pdct t = last_n (unat (max 1 n)) (log_draft g) \<and>
    tvc_pvct t = last_n (unat (max 1 n)) (log_pre g)"
proof -
  have "tvc_windows (max 1 n) (tvc_init p q n) \<lparr> log_npu = [], log_draft = [], log_pre = [] \<rparr>"
    by (simp add: tvc_windows_def tvc_init_def last_n_def unat_max)
  from tvc.run_simulates [OF this, of ops] show ?thesis
    using assms by (auto simp: tvc_windows_def list_all_iff)
qed

lemma tvc_windows_latest_witness:
  "\<exists>t. run_ops tvc_step [TvcDraft 10 1, TvcDraft 20 2, TvcDraft 30 3]
       (tvc_init (FFin 800) (FFin 1000) 2) = Some t \<and>
    tvc_nvct t = [] \<and> tvc_pdct t = [rec 20 2, rec 30 3] \<and> tvc_pvct t = []"
proof -
  have "last_n (unat (max 1 2 :: u32)) [rec 10 1, rec 20 2, rec 30 3] = [rec 20 2, rec 30 3]"
    "last_n (unat (max 1 2 :: u32)) ([] :: cycle_record list) = []"
    by (simp_all add: last_n_def unat_max)
  then show ?thesis
    using tvc_windows_latest [of "[TvcDraft 10 1, TvcDraft 20 2, TvcDraft 30 3]" _ "FFin 800"
      "FFin 1000" 2, OF refl] by simp
qed

text \<open>When pre-verification is decided, there is data on both sides, the length is at least
  1, at most 8 and at most the number of pending drafts, and only the decision counters change.\<close>

theorem preverify_length_bounds:
  assumes "should_insert_preverification t kv pending = Some ((True, len), t')"
  shows "1 \<le> unat len \<and> unat len \<le> min 8 (unat pending) \<and> tvc_nvct t \<noteq> [] \<and> tvc_pdct t \<noteq> [] \<and>
    t' = t\<lparr> tvc_total_decisions := tvc_total_decisions t + 1,
           tvc_successful_preverifications := tvc_successful_preverifications t + 1 \<rparr>"
  using should_insert_True [OF assms] by (auto simp: word_le_nat_alt)

lemma preverify_length_bounds_witness:
  "1 \<le> unat (4 :: u32) \<and> unat (4 :: u32) \<le> min 8 (unat (4 :: u32))"
  using preverify_length_bounds [OF tvc_ready_decides] by blast

end
