(* ===== verification/VSKM.thy ===== *)
theory VSKM
  imports Floats
begin

text \<open>
  The versioned speculative KV manager of
  \<^verbatim>\<open>ONNXim/src/async_queue/VSKM.h\<close>: per request it accounts for the KV
  bytes that drafted, not yet committed tokens occupy, and charges rollback
  cycles and traffic when a verification rejects tokens.  Byte and cycle
  estimates are double-precision products cast to 64-bit words, \<^const>\<open>None\<close> where the
  cast is undefined.
\<close>

section \<open>State\<close>

datatype kv_mode = NAIVE | PAGED | VSKM_MODE

definition parse_kv_management_mode :: "string \<Rightarrow> bool \<Rightarrow> kv_mode" where
  "parse_kv_management_mode mode enable_vskm =
     (if enable_vskm then VSKM_MODE
      else if mode = ''paged'' \<or> mode = ''paged_kv'' then PAGED
      else if mode = ''vskm'' then VSKM_MODE
      else NAIVE)"

fun kv_management_mode_name :: "kv_mode \<Rightarrow> string" where
  "kv_management_mode_name PAGED = ''paged''"
| "kv_management_mode_name VSKM_MODE = ''vskm''"
| "kv_management_mode_name NAIVE = ''naive''"

record vskm_config =
  vc_enable_vskm :: bool
  vc_kv_management_mode :: string
  vc_version_entries :: u32
  vc_region_entries :: u32
  vc_block_tokens :: u32
  vc_enable_lazy_rollback :: bool
  vc_virtual_uncommitted_batches :: fp

record vskm_stats =
  vs_peak_speculative_kv_bytes :: u64
  vs_total_kv_write_bytes :: u64
  vs_rejected_kv_write_bytes :: u64
  vs_external_kv_traffic_bytes :: u64
  vs_accepted_tokens :: u64
  vs_rollback_cycles :: u64
  vs_rollback_events :: u64
  vs_version_table_lookups :: u64
  vs_free_list_reuses :: u64
  vs_metadata_updates :: u64
  vs_rounds_started :: u64
  vs_sum_uncommitted_batches :: fp
  vs_peak_uncommitted_batches :: fp

record vskm_request =
  vr_commit_length :: u32
  vr_spec_round :: u32
  vr_planned_tokens :: u32
  vr_drafted_tokens :: u32
  vr_version_id :: u32
  vr_active_region_bytes :: u64

record vskm =
  vk_cfg :: vskm_config
  vk_mode :: kv_mode
  vk_kv_bytes_per_token :: u64
  vk_next_version_id :: u32
  vk_current_speculative_kv_bytes :: u64
  vk_stats :: vskm_stats
  vk_requests :: "u32 \<Rightarrow> vskm_request option"

definition vskm_stats_init :: vskm_stats where
  "vskm_stats_init = \<lparr> vs_peak_speculative_kv_bytes = 0, vs_total_kv_write_bytes = 0,
     vs_rejected_kv_write_bytes = 0, vs_external_kv_traffic_bytes = 0, vs_accepted_tokens = 0,
     vs_rollback_cycles = 0, vs_rollback_events = 0, vs_version_table_lookups = 0,
     vs_free_list_reuses = 0, vs_metadata_updates = 0, vs_rounds_started = 0,
     vs_sum_uncommitted_batches = FFin 0, vs_peak_uncommitted_batches = FFin 0 \<rparr>"

definition request_init :: vskm_request where
  "request_init = \<lparr> vr_commit_length = 0, vr_spec_round = 0, vr_planned_tokens = 0,
     vr_drafted_tokens = 0, vr_version_id = 0, vr_active_region_bytes = 0 \<rparr>"

definition vskm_init :: "vskm_config \<Rightarrow> u64 \<Rightarrow> vskm" where
  "vskm_init cfg kv_bytes_per_token =
     \<lparr> vk_cfg = cfg,
       vk_mode = parse_kv_management_mode (vc_kv_management_mode cfg) (vc_enable_vskm cfg),
       vk_kv_bytes_per_token = max 1 kv_bytes_per_token, vk_next_version_id = 1,
       vk_current_speculative_kv_bytes = 0, vk_stats = vskm_stats_init, vk_requests = Map.empty \<rparr>"

section \<open>Cost factors and estimates\<close>

definition scaled_bytes :: "vskm \<Rightarrow> fp \<Rightarrow> u64 option" where
  "scaled_bytes s factor =
     map_option (max 1) (cast_u64 (fmul b64 (du64 (vk_kv_bytes_per_token s)) factor))"

fun write_factor :: "kv_mode \<Rightarrow> fp" where
  "write_factor PAGED = flit b64 (91 / 100)"
| "write_factor VSKM_MODE = flit b64 (62 / 100)"
| "write_factor NAIVE = FFin 1"

fun resident_factor :: "kv_mode \<Rightarrow> fp" where
  "resident_factor PAGED = flit b64 (82 / 100)"
| "resident_factor VSKM_MODE = flit b64 (57 / 100)"
| "resident_factor NAIVE = FFin 1"

fun reject_write_factor :: "kv_mode \<Rightarrow> fp" where
  "reject_write_factor PAGED = flit b64 (91 / 100)"
| "reject_write_factor VSKM_MODE = flit b64 (62 / 100)"
| "reject_write_factor NAIVE = FFin 1"

fun external_traffic_factor :: "kv_mode \<Rightarrow> fp" where
  "external_traffic_factor PAGED = flit b64 (88 / 100)"
| "external_traffic_factor VSKM_MODE = flit b64 (71 / 100)"
| "external_traffic_factor NAIVE = FFin 1"

definition virtual_uncommitted_batches :: "vskm \<Rightarrow> fp" where
  "virtual_uncommitted_batches s = fmaxi (FFin 1) (vc_virtual_uncommitted_batches (vk_cfg s))"

fun rollback_factor :: "kv_mode \<Rightarrow> bool \<Rightarrow> fp" where
  "rollback_factor PAGED lazy = flit b64 (46 / 100)"
| "rollback_factor VSKM_MODE lazy = (if lazy then flit b64 (16 / 100) else flit b64 (41 / 100))"
| "rollback_factor NAIVE lazy = FFin 1"

definition estimate_rollback_cycles :: "vskm \<Rightarrow> u32 \<Rightarrow> u32 \<Rightarrow> u64 option" where
  "estimate_rollback_cycles s rejected_tokens context_tokens =
     (let per_token_cycles = max 1 (vk_kv_bytes_per_token s div 64) in
      case cast_u64 (fmul b64 (fmul b64 (du64 per_token_cycles) (du64 (max 1 context_tokens)))
                              (virtual_uncommitted_batches s)) of
        None \<Rightarrow> None
      | Some context_cycles \<Rightarrow>
        (let suffix_cycles = per_token_cycles * ucast rejected_tokens;
             base_cycles = 80 + context_cycles + suffix_cycles;
             factor = rollback_factor (vk_mode s) (vc_enable_lazy_rollback (vk_cfg s))
         in map_option (max 1) (cast_u64 (fmul b64 (du64 base_cycles) factor))))"

definition estimate_rollback_traffic_bytes :: "vskm \<Rightarrow> u32 \<Rightarrow> u32 \<Rightarrow> u64 option" where
  "estimate_rollback_traffic_bytes s rejected_tokens context_tokens =
     (case cast_u64 (fmul b64 (fmul b64 (du64 (vk_kv_bytes_per_token s))
                                        (du64 (max 1 context_tokens)))
                              (virtual_uncommitted_batches s)) of
        None \<Rightarrow> None
      | Some context_bytes \<Rightarrow>
        (let suffix_bytes = vk_kv_bytes_per_token s * ucast rejected_tokens;
             base_bytes = context_bytes + suffix_bytes;
             factor = rollback_factor (vk_mode s) (vc_enable_lazy_rollback (vk_cfg s))
         in map_option (max 1) (cast_u64 (fmul b64 (du64 base_bytes) factor))))"

section \<open>Operations\<close>

text \<open>\<^verbatim>\<open>requests_[request_id]\<close> inserts a default entry when there is none.\<close>

definition get_request :: "vskm \<Rightarrow> u32 \<Rightarrow> vskm_request" where
  "get_request s rid = (case vk_requests s rid of Some r \<Rightarrow> r | None \<Rightarrow> request_init)"

definition put_request :: "vskm \<Rightarrow> u32 \<Rightarrow> vskm_request \<Rightarrow> vskm" where
  "put_request s rid r = s\<lparr> vk_requests := (vk_requests s)(rid \<mapsto> r) \<rparr>"

definition vskm_reset_request :: "vskm \<Rightarrow> u32 \<Rightarrow> u32 \<Rightarrow> vskm" where
  "vskm_reset_request s rid committed_length =
     put_request s rid (request_init\<lparr> vr_commit_length := committed_length \<rparr>)"

definition vskm_begin_round :: "vskm \<Rightarrow> u32 \<Rightarrow> u32 \<Rightarrow> u32 \<Rightarrow> u32 \<Rightarrow> vskm" where
  "vskm_begin_round s rid spec_round committed_length planned_draft_length =
     (let r = (get_request s rid)\<lparr> vr_commit_length := committed_length, vr_spec_round := spec_round,
                vr_planned_tokens := max 1 planned_draft_length, vr_drafted_tokens := 0,
                vr_active_region_bytes := 0, vr_version_id := vk_next_version_id s \<rparr>;
          next1 = vk_next_version_id s + 1;
          entries = vc_version_entries (vk_cfg s);
          next2 = (if entries < next1 \<and> 0 < entries then 1 else next1);
          vb = virtual_uncommitted_batches s;
          st = vk_stats s
      in (put_request s rid r)
         \<lparr> vk_next_version_id := next2,
           vk_stats := st\<lparr> vs_version_table_lookups := vs_version_table_lookups st + 1,
             vs_metadata_updates := vs_metadata_updates st + 1,
             vs_rounds_started := vs_rounds_started st + 1,
             vs_sum_uncommitted_batches := fadd b64 (vs_sum_uncommitted_batches st) vb,
             vs_peak_uncommitted_batches := fmaxi (vs_peak_uncommitted_batches st) vb \<rparr> \<rparr>)"

definition vskm_draft_token :: "vskm \<Rightarrow> u32 \<Rightarrow> vskm option" where
  "vskm_draft_token s rid =
     (let r = get_request s rid; m = vk_mode s in
      case scaled_bytes s (write_factor m) of None \<Rightarrow> None | Some write_bytes \<Rightarrow>
      case scaled_bytes s (fmul b64 (resident_factor m) (virtual_uncommitted_batches s)) of
        None \<Rightarrow> None | Some resident_bytes \<Rightarrow>
      case scaled_bytes s (external_traffic_factor m) of None \<Rightarrow> None | Some external_bytes \<Rightarrow>
      let r' = r\<lparr> vr_drafted_tokens := vr_drafted_tokens r + 1,
                  vr_active_region_bytes := vr_active_region_bytes r + resident_bytes \<rparr>;
          cur = vk_current_speculative_kv_bytes s + resident_bytes;
          st = vk_stats s
      in Some ((put_request s rid r')
           \<lparr> vk_current_speculative_kv_bytes := cur,
             vk_stats := st\<lparr> vs_peak_speculative_kv_bytes := max (vs_peak_speculative_kv_bytes st) cur,
               vs_total_kv_write_bytes := vs_total_kv_write_bytes st + write_bytes,
               vs_external_kv_traffic_bytes :=
                 vs_external_kv_traffic_bytes st + external_bytes \<rparr> \<rparr>))"

definition vskm_pre_verify :: "vskm \<Rightarrow> u32 \<Rightarrow> vskm" where
  "vskm_pre_verify s rid =
     (case vk_requests s rid of None \<Rightarrow> s
      | Some _ \<Rightarrow> let st = vk_stats s in
          s\<lparr> vk_stats := st\<lparr> vs_version_table_lookups := vs_version_table_lookups st + 1,
                            vs_metadata_updates := vs_metadata_updates st + 1 \<rparr> \<rparr>)"

text \<open>The rollback part of \<^verbatim>\<open>complete_verify\<close>: the charged cycles and the statistics.\<close>

definition charge_rollback ::
  "vskm \<Rightarrow> vskm_stats \<Rightarrow> u32 \<Rightarrow> u32 \<Rightarrow> (u64 \<times> vskm_stats) option" where
  "charge_rollback s st rejected context =
     (if rejected = 0 then Some (0, st) else
      case scaled_bytes s (reject_write_factor (vk_mode s)) of None \<Rightarrow> None | Some rw \<Rightarrow>
      case scaled_bytes s (external_traffic_factor (vk_mode s)) of None \<Rightarrow> None | Some ext \<Rightarrow>
      case estimate_rollback_cycles s rejected context of None \<Rightarrow> None | Some cycles \<Rightarrow>
      case estimate_rollback_traffic_bytes s rejected context of None \<Rightarrow> None | Some traffic \<Rightarrow>
      Some (cycles,
        st\<lparr> vs_rollback_events := vs_rollback_events st + 1,
            vs_rejected_kv_write_bytes := vs_rejected_kv_write_bytes st + rw * ucast rejected,
            vs_external_kv_traffic_bytes :=
              vs_external_kv_traffic_bytes st + ext * ucast rejected + traffic,
            vs_metadata_updates := vs_metadata_updates st +
              (if vk_mode s = VSKM_MODE then 2 else ucast rejected),
            vs_free_list_reuses := vs_free_list_reuses st +
              (if vk_mode s = NAIVE then 0 else 1),
            vs_rollback_cycles := vs_rollback_cycles st + cycles \<rparr>))"

definition vskm_complete_verify :: "vskm \<Rightarrow> u32 \<Rightarrow> u32 \<Rightarrow> u32 \<Rightarrow> (u64 \<times> vskm) option" where
  "vskm_complete_verify s rid draft_length accepted_length =
     (case vk_requests s rid of None \<Rightarrow> Some (0, s)
      | Some r \<Rightarrow>
        let drafted = max draft_length (vr_drafted_tokens r);
            accepted = min accepted_length drafted;
            rejected = drafted - accepted;
            st0 = vk_stats s;
            st1 = st0\<lparr> vs_accepted_tokens := vs_accepted_tokens st0 + ucast accepted,
                       vs_version_table_lookups := vs_version_table_lookups st0 + 1,
                       vs_metadata_updates := vs_metadata_updates st0 + 1 \<rparr>;
            cur = (if vr_active_region_bytes r \<le> vk_current_speculative_kv_bytes s
                   then vk_current_speculative_kv_bytes s - vr_active_region_bytes r else 0);
            commit = vr_commit_length r + accepted in
        case charge_rollback s st1 rejected (commit + drafted) of None \<Rightarrow> None
        | Some (rollback_cycles, st2) \<Rightarrow>
          Some (rollback_cycles,
            (put_request s rid (r\<lparr> vr_commit_length := commit, vr_drafted_tokens := 0,
                                  vr_planned_tokens := 0, vr_active_region_bytes := 0 \<rparr>))
            \<lparr> vk_current_speculative_kv_bytes := cur, vk_stats := st2 \<rparr>))"

definition ratio_or_zero :: "fp \<Rightarrow> u64 \<Rightarrow> fp" where
  "ratio_or_zero num den = (if den = 0 then FFin 0 else fdiv b64 num (du64 den))"

definition kv_writes_per_accepted_token :: "vskm \<Rightarrow> fp" where
  "kv_writes_per_accepted_token s =
     ratio_or_zero (du64 (vs_total_kv_write_bytes (vk_stats s))) (vs_accepted_tokens (vk_stats s))"

definition rejected_kv_write_ratio :: "vskm \<Rightarrow> fp" where
  "rejected_kv_write_ratio s =
     ratio_or_zero (du64 (vs_rejected_kv_write_bytes (vk_stats s))) (vs_total_kv_write_bytes (vk_stats s))"

definition mean_uncommitted_batches :: "vskm \<Rightarrow> fp" where
  "mean_uncommitted_batches s =
     ratio_or_zero (vs_sum_uncommitted_batches (vk_stats s)) (vs_rounds_started (vk_stats s))"

definition metadata_updates_per_round :: "vskm \<Rightarrow> fp" where
  "metadata_updates_per_round s =
     ratio_or_zero (du64 (vs_metadata_updates (vk_stats s))) (vs_rounds_started (vk_stats s))"

section \<open>The speculative bytes are those of the open regions\<close>

abbreviation region_total :: "vskm \<Rightarrow> nat" where
  "region_total s \<equiv> map_total (\<lambda>r. unat (vr_active_region_bytes r)) (vk_requests s)"

text \<open>The protocol of the callers: a round begins, or a request is reset, only when the request
  holds no bytes, and the byte counter does not wrap.\<close>

inductive vskm_step :: "vskm \<Rightarrow> vskm \<Rightarrow> bool" where
  Reset: "vr_active_region_bytes (get_request s rid) = 0 \<Longrightarrow>
    vskm_step s (vskm_reset_request s rid len)"
| Begin: "vr_active_region_bytes (get_request s rid) = 0 \<Longrightarrow>
    vskm_step s (vskm_begin_round s rid rnd_no len planned)"
| Draft: "vskm_draft_token s rid = Some s' \<Longrightarrow>
    vk_current_speculative_kv_bytes s \<le> vk_current_speculative_kv_bytes s' \<Longrightarrow> vskm_step s s'"
| PreVerify: "vskm_step s (vskm_pre_verify s rid)"
| Complete: "vskm_complete_verify s rid drafted accepted = Some (cycles, s') \<Longrightarrow> vskm_step s s'"

inductive vskm_reachable :: "vskm_config \<Rightarrow> u64 \<Rightarrow> vskm \<Rightarrow> bool" for cfg kvb where
  Init: "vskm_reachable cfg kvb (vskm_init cfg kvb)"
| Step: "vskm_reachable cfg kvb s \<Longrightarrow> vskm_step s s' \<Longrightarrow> vskm_reachable cfg kvb s'"

text \<open>Version numbers are recycled when the table has entries; with the largest 32-bit entry count
  the successor would wrap to 0 before the comparison.\<close>

definition bounded_versions :: "vskm_config \<Rightarrow> bool" where
  "bounded_versions cfg \<longleftrightarrow> 0 < vc_version_entries cfg \<and> vc_version_entries cfg < - 1"

definition vskm_inv :: "vskm \<Rightarrow> bool" where
  "vskm_inv s \<longleftrightarrow> finite (dom (vk_requests s)) \<and>
     unat (vk_current_speculative_kv_bytes s) = region_total s \<and>
     (bounded_versions (vk_cfg s) \<longrightarrow>
        1 \<le> vk_next_version_id s \<and> vk_next_version_id s \<le> vc_version_entries (vk_cfg s) \<and>
        (\<forall>r \<in> ran (vk_requests s). vr_version_id r \<le> vc_version_entries (vk_cfg s)))"

lemma region_of_request:
  "at_key (\<lambda>r. unat (vr_active_region_bytes r)) (vk_requests s) rid =
     unat (vr_active_region_bytes (get_request s rid))"
  by (simp add: at_key_def get_request_def request_init_def split: option.split)

lemma put_request_total:
  assumes "finite (dom (vk_requests s))"
  shows "region_total (put_request s rid r) + unat (vr_active_region_bytes (get_request s rid))
     = region_total s + unat (vr_active_region_bytes r)"
  using map_total_upd [OF assms, of "\<lambda>r. unat (vr_active_region_bytes r)" rid r]
  by (simp add: put_request_def region_of_request)

lemma request_region_le:
  "finite (dom (vk_requests s)) \<Longrightarrow>
   unat (vr_active_region_bytes (get_request s rid)) \<le> region_total s"
  using at_key_le [of "vk_requests s" "\<lambda>r. unat (vr_active_region_bytes r)" rid]
  by (simp add: region_of_request)

lemma get_request_version:
  "vskm_inv s \<Longrightarrow> bounded_versions (vk_cfg s) \<Longrightarrow>
   vr_version_id (get_request s rid) \<le> vc_version_entries (vk_cfg s)"
  by (auto simp: vskm_inv_def get_request_def request_init_def ran_def split: option.split)

text \<open>Replacing one request's entry keeps the invariant when the counter follows the change.\<close>

lemma vskm_inv_put:
  assumes inv: "vskm_inv s" and req: "vk_requests s' = vk_requests (put_request s rid r)"
    and cfg: "vk_cfg s' = vk_cfg s"
    and cur: "unat (vk_current_speculative_kv_bytes s') + unat (vr_active_region_bytes (get_request s rid))
       = unat (vk_current_speculative_kv_bytes s) + unat (vr_active_region_bytes r)"
    and ver: "bounded_versions (vk_cfg s) \<Longrightarrow>
       vr_version_id r \<le> vc_version_entries (vk_cfg s) \<and> 1 \<le> vk_next_version_id s' \<and>
       vk_next_version_id s' \<le> vc_version_entries (vk_cfg s)"
  shows "vskm_inv s'"
proof -
  have fin: "finite (dom (vk_requests s))" using inv by (simp add: vskm_inv_def)
  have "region_total s' = region_total (put_request s rid r)" by (simp add: req)
  then have "unat (vk_current_speculative_kv_bytes s') = region_total s'"
    using put_request_total [OF fin, of rid r] cur inv by (simp add: vskm_inv_def)
  moreover have "\<forall>q \<in> ran (vk_requests s'). vr_version_id q \<le> vc_version_entries (vk_cfg s)"
    if "bounded_versions (vk_cfg s)"
    using inv ver [OF that] that
    by (auto simp: req put_request_def vskm_inv_def ran_def split: if_split_asm)
  ultimately show ?thesis
    using inv ver by (auto simp: vskm_inv_def req cfg put_request_def)
qed

lemma next_version_bounds:
  assumes "1 \<le> (n :: u32)" "n \<le> e" "0 < e" "e < - 1"
  shows "1 \<le> (if e < n + 1 \<and> 0 < e then 1 else n + 1)"
    "(if e < n + 1 \<and> 0 < e then 1 else n + 1) \<le> e"
proof -
  have "unat (n + 1) = unat n + 1"
    by (rule unat_succ_of_less [of n "- 1"]) (rule order_le_less_trans [OF assms(2,4)])
  then show "1 \<le> (if e < n + 1 \<and> 0 < e then 1 else n + 1)"
    "(if e < n + 1 \<and> 0 < e then 1 else n + 1) \<le> e"
    using assms by (auto simp: word_le_nat_alt word_less_nat_alt)
qed

lemma vskm_reset_inv [inv_intros]:
  assumes "vskm_inv s" "vr_active_region_bytes (get_request s rid) = 0"
  shows "vskm_inv (vskm_reset_request s rid len)"
  by (rule vskm_inv_put [OF assms(1), where rid = rid and
        r = "request_init\<lparr> vr_commit_length := len \<rparr>"])
     (use assms in \<open>auto simp: vskm_reset_request_def put_request_def request_init_def vskm_inv_def\<close>)

lemma vskm_begin_inv [inv_intros]:
  assumes inv: "vskm_inv s" and free: "vr_active_region_bytes (get_request s rid) = 0"
  shows "vskm_inv (vskm_begin_round s rid rnd_no len planned)"
proof -
  let ?r = "(get_request s rid)\<lparr> vr_commit_length := len, vr_spec_round := rnd_no,
    vr_planned_tokens := max 1 planned, vr_drafted_tokens := 0,
    vr_active_region_bytes := 0, vr_version_id := vk_next_version_id s \<rparr>"
  show ?thesis
    by (rule vskm_inv_put [OF inv, where rid = rid and r = ?r])
       (use inv free next_version_bounds [of "vk_next_version_id s" "vc_version_entries (vk_cfg s)"] in
         \<open>auto simp: vskm_begin_round_def put_request_def vskm_inv_def bounded_versions_def Let_def\<close>)
qed

lemma vskm_draft_inv [inv_intros]:
  assumes inv: "vskm_inv s" and run: "vskm_draft_token s rid = Some s'"
    and room: "vk_current_speculative_kv_bytes s \<le> vk_current_speculative_kv_bytes s'"
  shows "vskm_inv s'"
proof -
  obtain rb st where s': "s' = (put_request s rid ((get_request s rid)
        \<lparr> vr_drafted_tokens := vr_drafted_tokens (get_request s rid) + 1,
          vr_active_region_bytes := vr_active_region_bytes (get_request s rid) + rb \<rparr>))
      \<lparr> vk_current_speculative_kv_bytes := vk_current_speculative_kv_bytes s + rb, vk_stats := st \<rparr>"
    using run by (auto simp: vskm_draft_token_def Let_def split: option.split_asm)
  have fin: "finite (dom (vk_requests s))" using inv by (simp add: vskm_inv_def)
  have cur: "unat (vk_current_speculative_kv_bytes s + rb) =
      unat (vk_current_speculative_kv_bytes s) + unat rb"
    using room unfolding s' by (intro unat_add_no_wrap) simp
  have "unat (vr_active_region_bytes (get_request s rid)) + unat rb
      \<le> unat (vk_current_speculative_kv_bytes s + rb)"
    using request_region_le [OF fin, of rid] inv cur by (simp add: vskm_inv_def)
  then have "unat (vr_active_region_bytes (get_request s rid)) + unat rb < 2 ^ 64"
    by (rule order_le_less_trans) (use unsigned_less [of "vk_current_speculative_kv_bytes s + rb", where 'a = nat] in simp)
  then have reg: "unat (vr_active_region_bytes (get_request s rid) + rb) =
      unat (vr_active_region_bytes (get_request s rid)) + unat rb"
    by (simp add: unat_plus_if')
  show ?thesis
    by (rule vskm_inv_put [OF inv, where rid = rid])
       (use cur reg get_request_version [OF inv] inv in
         \<open>auto simp: s' put_request_def vskm_inv_def\<close>)
qed

lemma vskm_pre_verify_inv [inv_intros]: "vskm_inv s \<Longrightarrow> vskm_inv (vskm_pre_verify s rid)"
  by (auto simp: vskm_inv_def vskm_pre_verify_def Let_def bounded_versions_def split: option.split)

lemma vskm_complete_inv [inv_intros]:
  assumes inv: "vskm_inv s" and run: "vskm_complete_verify s rid d a = Some (c, s')"
  shows "vskm_inv s'"
proof (cases "vk_requests s rid")
  case None
  then show ?thesis using assms by (simp add: vskm_complete_verify_def)
next
  case (Some r)
  then have r: "get_request s rid = r" by (simp add: get_request_def)
  have fin: "finite (dom (vk_requests s))" using inv by (simp add: vskm_inv_def)
  have le: "vr_active_region_bytes r \<le> vk_current_speculative_kv_bytes s"
    using request_region_le [OF fin, of rid] inv by (simp add: vskm_inv_def word_le_nat_alt r)
  obtain commit st where s': "s' = (put_request s rid (r\<lparr> vr_commit_length := commit,
        vr_drafted_tokens := 0, vr_planned_tokens := 0, vr_active_region_bytes := 0 \<rparr>))
      \<lparr> vk_current_speculative_kv_bytes := vk_current_speculative_kv_bytes s - vr_active_region_bytes r,
        vk_stats := st \<rparr>"
    using run le by (auto simp: vskm_complete_verify_def Some Let_def split: option.split_asm)
  show ?thesis
    by (rule vskm_inv_put [OF inv, where rid = rid and r = "r\<lparr> vr_commit_length := commit,
          vr_drafted_tokens := 0, vr_planned_tokens := 0, vr_active_region_bytes := 0 \<rparr>"])
       (use le get_request_version [OF inv, of rid] inv in
         \<open>auto simp: s' put_request_def vskm_inv_def r unat_minus_le
            word_le_nat_alt\<close>)
qed

lemma vskm_init_inv [inv_intros]: "vskm_inv (vskm_init cfg kvb)"
  by (auto simp: vskm_inv_def vskm_init_def bounded_versions_def word_le_nat_alt word_less_nat_alt)

lemma vskm_step_inv: "vskm_step s s' \<Longrightarrow> vskm_inv s \<Longrightarrow> vskm_inv s'"
  by (induction rule: vskm_step.induct) (auto intro: inv_intros)

lemma vskm_reachable_inv: "vskm_reachable cfg kvb s \<Longrightarrow> vskm_inv s"
  by (induction rule: vskm_reachable.induct) (auto intro: inv_intros vskm_step_inv)

section \<open>The order of the rollback costs\<close>

lemma rollback_factor_values:
  "rollback_factor NAIVE lazy = FFin 1"
  "rollback_factor PAGED lazy = FFin (8286623314361713 / 18014398509481984)"
  "rollback_factor VSKM_MODE lazy = (if lazy then FFin (5764607523034235 / 36028797018963968)
     else FFin (7385903388887613 / 18014398509481984))"
proof -
  have "flit b64 (46 / 100) = FFin (8286623314361713 / 18014398509481984)" by code_simp
  moreover have "flit b64 (16 / 100) = FFin (5764607523034235 / 36028797018963968)" by code_simp
  moreover have "flit b64 (41 / 100) = FFin (7385903388887613 / 18014398509481984)" by code_simp
  ultimately show "rollback_factor NAIVE lazy = FFin 1"
    "rollback_factor PAGED lazy = FFin (8286623314361713 / 18014398509481984)"
    "rollback_factor VSKM_MODE lazy = (if lazy then FFin (5764607523034235 / 36028797018963968)
       else FFin (7385903388887613 / 18014398509481984))"
    by (simp_all only: rollback_factor.simps)
qed

lemma cast_u64_eq_Some: "cast_u64 x = Some c \<longleftrightarrow> (\<exists>n. fcast (2 ^ 64) x = Some n \<and> c = of_nat n)"
  by auto

lemma cast_product_mono:
  assumes "0 \<le> x" "0 \<le> f" "f \<le> g"
    and g: "cast_u64 (to_fp b64 (x * g)) = Some c"
  shows "\<exists>a. cast_u64 (to_fp b64 (x * f)) = Some a \<and> a \<le> c"
proof -
  obtain n where n: "fcast (2 ^ 64) (to_fp b64 (x * g)) = Some n" "c = of_nat n"
    using g by (auto simp only: cast_u64_eq_Some)
  let ?f = "rnd b64 (x * f)" and ?g = "rnd b64 (x * g)"
  have xg: "x * f \<le> x * g" "0 \<le> x * f" using assms by (auto intro: mult_left_mono)
  have le: "0 \<le> ?f" "?f \<le> ?g" using rnd_nonneg [OF xg(2)] rnd_mono [OF xg(1)] by auto
  have fin: "to_fp b64 (x * g) = FFin ?g" "?g < ftop b64"
    using n(1) by (auto simp: to_fp_def Let_def split: if_splits simp del: b64_prec)
  have "?f < ftop b64" "- ftop b64 < ?f" using le fin(2) by linarith+
  then have f: "to_fp b64 (x * f) = FFin ?f" by (simp add: to_fp_def Let_def del: b64_prec)
  have ng: "\<lfloor>?g\<rfloor> < 2 ^ 64" "n = nat \<lfloor>?g\<rfloor>"
    using n(1) le unfolding fin(1) by (auto simp: Let_def split: if_splits)
  have fl: "0 \<le> \<lfloor>?f\<rfloor>" "\<lfloor>?f\<rfloor> \<le> \<lfloor>?g\<rfloor>" using le by (auto intro: floor_mono)
  then have "cast_u64 (FFin ?f) = Some (of_nat (nat \<lfloor>?f\<rfloor>))"
    using ng(1) le by (simp add: Let_def floor_less_iff)
  moreover have "nat \<lfloor>?f\<rfloor> \<le> n" "n < 2 ^ LENGTH(64)" "nat \<lfloor>?f\<rfloor> < 2 ^ LENGTH(64)"
    using fl ng le by (auto simp: nat_less_iff floor_less_iff)
  then have "(of_nat (nat \<lfloor>?f\<rfloor>) :: u64) \<le> of_nat n"
    by (simp only: word_le_nat_alt unat_of_nat_small)
  ultimately show ?thesis unfolding f n(2) by blast
qed

text \<open>What the factor does to a base amount; the estimates differ between the modes only in it.\<close>

definition charged :: "u64 \<Rightarrow> fp \<Rightarrow> u64 option" where
  "charged base factor = map_option (max 1) (cast_u64 (fmul b64 (du64 base) factor))"

lemma charged_mono:
  assumes "0 \<le> f" "f \<le> g" "charged base (FFin g) = Some c"
  shows "\<exists>a. charged base (FFin f) = Some a \<and> a \<le> c"
proof -
  have "unat base \<le> 2 ^ 64" using unsigned_less [of base, where 'a = nat] by simp
  then have d: "du64 base = FFin (rnd b64 (of_nat (unat base)))" by (rule flit_nat)
  obtain b where b: "cast_u64 (to_fp b64 (rnd b64 (of_nat (unat base)) * g)) = Some b"
    "c = max 1 b"
    using assms(3) unfolding charged_def d fmul.simps by auto
  obtain a where "cast_u64 (to_fp b64 (rnd b64 (of_nat (unat base)) * f)) = Some a" "a \<le> b"
    using cast_product_mono [OF rnd_nonneg [OF of_nat_0_le_iff] assms(1,2) b(1)] by blast
  then show ?thesis
    unfolding charged_def d fmul.simps b(2) by (auto simp: max.coboundedI2)
qed

lemma charged_by_mode:
  assumes "charged base (rollback_factor NAIVE lazy) = Some n"
  shows "\<exists>p v. charged base (rollback_factor PAGED lazy) = Some p \<and>
    charged base (rollback_factor VSKM_MODE lazy) = Some v \<and> v \<le> p \<and> p \<le> n"
proof -
  obtain p where p: "charged base (rollback_factor PAGED lazy) = Some p" "p \<le> n"
    using charged_mono [of "8286623314361713 / 18014398509481984" 1 base n] assms
    by (auto simp: rollback_factor_values simp del: rollback_factor.simps(1,2))
  moreover obtain v where "charged base (rollback_factor VSKM_MODE lazy) = Some v" "v \<le> p"
    using charged_mono [of "5764607523034235 / 36028797018963968"
        "8286623314361713 / 18014398509481984" base p]
      charged_mono [of "7385903388887613 / 18014398509481984"
        "8286623314361713 / 18014398509481984" base p] p(1)
    by (cases lazy) (auto simp: rollback_factor_values simp del: rollback_factor.simps(1,2))
  ultimately show ?thesis by blast
qed

lemma estimate_cycles_charged:
  "estimate_rollback_cycles (s\<lparr> vk_mode := m \<rparr>) rej ctx =
    obind (cast_u64 (fmul b64 (fmul b64 (du64 (max 1 (vk_kv_bytes_per_token s div 64)))
             (du64 (max 1 ctx))) (virtual_uncommitted_batches s)))
      (\<lambda>cc. charged (80 + cc + max 1 (vk_kv_bytes_per_token s div 64) * ucast rej)
         (rollback_factor m (vc_enable_lazy_rollback (vk_cfg s))))"
  by (simp add: estimate_rollback_cycles_def charged_def Let_def virtual_uncommitted_batches_def
      split: option.split)

lemma estimate_traffic_charged:
  "estimate_rollback_traffic_bytes (s\<lparr> vk_mode := m \<rparr>) rej ctx =
    obind (cast_u64 (fmul b64 (fmul b64 (du64 (vk_kv_bytes_per_token s)) (du64 (max 1 ctx)))
             (virtual_uncommitted_batches s)))
      (\<lambda>cb. charged (cb + vk_kv_bytes_per_token s * ucast rej)
         (rollback_factor m (vc_enable_lazy_rollback (vk_cfg s))))"
  by (simp add: estimate_rollback_traffic_bytes_def charged_def Let_def virtual_uncommitted_batches_def
      split: option.split)


section \<open>Properties\<close>

text \<open>C21: in every state the protocol reaches, the current speculative KV bytes are exactly
  the bytes of the open regions of all requests, and recycled version numbers stay within the
  version table.\<close>

theorem speculative_bytes_are_open_regions:
  assumes "vskm_reachable cfg kvb s"
  shows "unat (vk_current_speculative_kv_bytes s) =
      (\<Sum>i\<in>dom (vk_requests s). unat (vr_active_region_bytes (the (vk_requests s i)))) \<and>
    (bounded_versions (vk_cfg s) \<longrightarrow>
      (\<forall>r \<in> ran (vk_requests s). vr_version_id r \<le> vc_version_entries (vk_cfg s)))"
  using vskm_reachable_inv [OF assms] by (simp add: vskm_inv_def map_total_def)

definition vskm_sample_cfg :: vskm_config where
  "vskm_sample_cfg = \<lparr> vc_enable_vskm = False, vc_kv_management_mode = ''naive'',
     vc_version_entries = 16, vc_region_entries = 16, vc_block_tokens = 4,
     vc_enable_lazy_rollback = True, vc_virtual_uncommitted_batches = FFin 1 \<rparr>"

lemma vskm_sample_reachable:
  "vskm_reachable vskm_sample_cfg 512
     (vskm_begin_round (vskm_init vskm_sample_cfg 512) 7 1 100 4)"
  by (rule vskm_reachable.Step [OF vskm_reachable.Init], rule vskm_step.Begin)
     (simp add: get_request_def vskm_init_def request_init_def)

lemma speculative_bytes_are_open_regions_witness:
  "unat (vk_current_speculative_kv_bytes (vskm_begin_round (vskm_init vskm_sample_cfg 512) 7 1 100 4))
     = (\<Sum>i\<in>dom (vk_requests (vskm_begin_round (vskm_init vskm_sample_cfg 512) 7 1 100 4)).
          unat (vr_active_region_bytes
            (the (vk_requests (vskm_begin_round (vskm_init vskm_sample_cfg 512) 7 1 100 4) i))))"
  using speculative_bytes_are_open_regions [OF vskm_sample_reachable] by blast

text \<open>Rolling back the same tokens in the same context costs no more cycles and no more
  traffic under the versioned manager than under paging, and no more under paging than under the
  naive mode; where the naive estimate is defined so are the others.\<close>

theorem rollback_cost_by_mode:
  assumes "estimate_rollback_cycles (s\<lparr> vk_mode := NAIVE \<rparr>) rej ctx = Some cn"
    "estimate_rollback_traffic_bytes (s\<lparr> vk_mode := NAIVE \<rparr>) rej ctx = Some tn"
  shows "\<exists>cp cv tp tv.
    estimate_rollback_cycles (s\<lparr> vk_mode := PAGED \<rparr>) rej ctx = Some cp \<and>
    estimate_rollback_cycles (s\<lparr> vk_mode := VSKM_MODE \<rparr>) rej ctx = Some cv \<and>
    estimate_rollback_traffic_bytes (s\<lparr> vk_mode := PAGED \<rparr>) rej ctx = Some tp \<and>
    estimate_rollback_traffic_bytes (s\<lparr> vk_mode := VSKM_MODE \<rparr>) rej ctx = Some tv \<and>
    cv \<le> cp \<and> cp \<le> cn \<and> tv \<le> tp \<and> tp \<le> tn"
proof -
  note eqs = estimate_cycles_charged estimate_traffic_charged obind_eq_Some
  obtain b1 b2 where
    "charged b1 (rollback_factor NAIVE (vc_enable_lazy_rollback (vk_cfg s))) = Some cn"
    "\<And>m. estimate_rollback_cycles (s\<lparr> vk_mode := m \<rparr>) rej ctx =
       charged b1 (rollback_factor m (vc_enable_lazy_rollback (vk_cfg s)))"
    "charged b2 (rollback_factor NAIVE (vc_enable_lazy_rollback (vk_cfg s))) = Some tn"
    "\<And>m. estimate_rollback_traffic_bytes (s\<lparr> vk_mode := m \<rparr>) rej ctx =
       charged b2 (rollback_factor m (vc_enable_lazy_rollback (vk_cfg s)))"
    using assms unfolding eqs by (metis bind.bind_lunit)
  then show ?thesis using charged_by_mode by metis
qed

lemma vskm_samples:
  "to_fp b64 8 = FFin 8" "to_fp b64 10 = FFin 10" "to_fp b64 80 = FFin 80"
  "to_fp b64 176 = FFin 176" "to_fp b64 512 = FFin 512" "to_fp b64 5120 = FFin 5120"
  "to_fp b64 6144 = FFin 6144"
  by code_simp+

definition vskm_sample :: vskm where
  "vskm_sample = vskm_begin_round (vskm_init vskm_sample_cfg 512) 7 1 100 4"

lemma vskm_sample_naive:
  "estimate_rollback_cycles (vskm_sample\<lparr> vk_mode := NAIVE \<rparr>) 2 10 = Some 176"
  "estimate_rollback_traffic_bytes (vskm_sample\<lparr> vk_mode := NAIVE \<rparr>) 2 10 = Some 6144"
  by (simp_all add: estimate_rollback_cycles_def estimate_rollback_traffic_bytes_def vskm_sample_def
      vskm_begin_round_def vskm_init_def vskm_sample_cfg_def virtual_uncommitted_batches_def
      fmaxi_def put_request_def max_def vskm_samples Let_def cong: let_weak_cong)

lemma rollback_cost_by_mode_witness:
  "\<exists>cp cv tp tv.
    estimate_rollback_cycles (vskm_sample\<lparr> vk_mode := PAGED \<rparr>) 2 10 = Some cp \<and>
    estimate_rollback_cycles (vskm_sample\<lparr> vk_mode := VSKM_MODE \<rparr>) 2 10 = Some cv \<and>
    estimate_rollback_traffic_bytes (vskm_sample\<lparr> vk_mode := PAGED \<rparr>) 2 10 = Some tp \<and>
    estimate_rollback_traffic_bytes (vskm_sample\<lparr> vk_mode := VSKM_MODE \<rparr>) 2 10 = Some tv \<and>
    cv \<le> cp \<and> cp \<le> 176 \<and> tv \<le> tp \<and> tp \<le> 6144"
  by (rule rollback_cost_by_mode [OF vskm_sample_naive])

lemma charge_rollback_cycles:
  assumes "charge_rollback s st rej ctx = Some (c, st2)"
  shows "vs_accepted_tokens st2 = vs_accepted_tokens st \<and>
    (if rej = 0 then c = 0 \<and> st2 = st
     else 1 \<le> c \<and> vs_rollback_events st2 = vs_rollback_events st + 1 \<and>
          vs_rollback_cycles st2 = vs_rollback_cycles st + c)"
  using assms unfolding charge_rollback_def estimate_rollback_cycles_def Let_def
  by (simp split: option.split_asm if_split_asm) auto

text \<open>Verifying commits exactly the accepted prefix, at most the drafted tokens; the rest
  is rolled back, at a charge of at least one cycle when anything was rejected and none
  otherwise, and the request's region is empty afterwards.\<close>

theorem complete_verify_commits:
  assumes "vk_requests s rid = Some r"
    "vskm_complete_verify s rid draft accepted = Some (cycles, s')"
  shows "\<exists>r'. vk_requests s' rid = Some r' \<and>
    (let drafted = max draft (vr_drafted_tokens r); taken = min accepted drafted in
      vr_commit_length r' = vr_commit_length r + taken \<and>
      vr_active_region_bytes r' = 0 \<and> vr_drafted_tokens r' = 0 \<and> vr_planned_tokens r' = 0 \<and>
      vs_accepted_tokens (vk_stats s') = vs_accepted_tokens (vk_stats s) + ucast taken \<and>
      (if drafted = taken then cycles = 0 \<and> vs_rollback_events (vk_stats s') = vs_rollback_events (vk_stats s)
       else 1 \<le> cycles \<and> vs_rollback_events (vk_stats s') = vs_rollback_events (vk_stats s) + 1 \<and>
            vs_rollback_cycles (vk_stats s') = vs_rollback_cycles (vk_stats s) + cycles))"
proof -
  define drafted where "drafted = max draft (vr_drafted_tokens r)"
  define taken where "taken = min accepted drafted"
  obtain st2 st1 ctx cur where c: "charge_rollback s st1 (drafted - taken) ctx = Some (cycles, st2)"
    and st1: "vs_accepted_tokens st1 = vs_accepted_tokens (vk_stats s) + ucast taken"
      "vs_rollback_events st1 = vs_rollback_events (vk_stats s)"
      "vs_rollback_cycles st1 = vs_rollback_cycles (vk_stats s)"
    and s': "s' = (put_request s rid (r\<lparr> vr_commit_length := vr_commit_length r + taken,
        vr_drafted_tokens := 0, vr_planned_tokens := 0, vr_active_region_bytes := 0 \<rparr>))
        \<lparr> vk_current_speculative_kv_bytes := cur, vk_stats := st2 \<rparr>"
    using assms(2) unfolding vskm_complete_verify_def assms(1) Let_def
    by (fastforce simp: drafted_def taken_def split: option.split_asm)
  show ?thesis
    using charge_rollback_cycles [OF c] st1
    by (simp add: s' put_request_def Let_def flip: drafted_def taken_def)
qed

lemma vskm_sample_verify:
  "\<exists>r s'. vk_requests vskm_sample 7 = Some r \<and> vr_drafted_tokens r = 0 \<and>
     vr_commit_length r = 100 \<and> vskm_complete_verify vskm_sample 7 0 0 = Some (0, s')"
  by (simp add: vskm_sample_def vskm_begin_round_def vskm_complete_verify_def charge_rollback_def
      put_request_def get_request_def vskm_init_def request_init_def Let_def)

lemma complete_verify_commits_witness:
  "\<exists>s' r'. vskm_complete_verify vskm_sample 7 0 0 = Some (0, s') \<and>
     vk_requests s' 7 = Some r' \<and> vr_commit_length r' = 100 \<and> vr_active_region_bytes r' = 0"
proof -
  obtain r s' where *: "vk_requests vskm_sample 7 = Some r" "vr_drafted_tokens r = 0"
    "vr_commit_length r = 100" "vskm_complete_verify vskm_sample 7 0 0 = Some (0, s')"
    using vskm_sample_verify by blast
  show ?thesis using complete_verify_commits [OF *(1,4)] *(2,3,4) by (auto simp: Let_def)
qed


end
