(* ===== verification/SSRC.thy ===== *)
theory SSRC
  imports Floats
begin

text \<open>
  The Speculative State Rollback Control of \<^verbatim>\<open>ONNXim/src/SSRC.h\<close>: the
  coordinator that reserves resident state for deferred draft rounds, tells
  the PIM back end which requests bypass DRAM, and splits the reserved bytes
  into replayed and saved ones when a round is verified.  Every public
  operation takes the mutex for its whole body, so an operation is one atomic
  step on the record.
\<close>

section \<open>State\<close>

record ssrc_config =
  sc_enable :: bool
  sc_confidence_threshold :: fp
  sc_state_bytes_per_token :: u32
  sc_resident_limit_bytes :: u64
  sc_bypass_ns :: u32

definition ssrc_default_config :: ssrc_config where
  "ssrc_default_config = \<lparr> sc_enable = False, sc_confidence_threshold = FFin 6,
     sc_state_bytes_per_token = 128, sc_resident_limit_bytes = 4 * 1024 * 1024,
     sc_bypass_ns = 10 \<rparr>"

record ssrc_stats =
  ss_total_round_decisions :: u64
  ss_total_rounds_deferred :: u64
  ss_total_rounds_refused :: u64
  ss_total_rounds_committed :: u64
  ss_total_rounds_discarded :: u64
  ss_total_rounds_partial :: u64
  ss_total_state_bytes_saved :: u64
  ss_total_state_bytes_replayed :: u64
  ss_total_bypassed_writes :: u64
  ss_total_bypassed_write_bytes :: u64
  ss_peak_resident_bytes :: u64

record round_record =
  rr_spec_round :: u32
  rr_planned_draft_length :: u32
  rr_reserved_bytes :: u64

record ssrc =
  sr_cfg :: ssrc_config
  sr_active_requests :: "u32 \<Rightarrow> round_record option"
  sr_resident_bytes :: u64
  sr_stats :: ssrc_stats

definition ssrc_init :: "ssrc_config \<Rightarrow> ssrc" where
  "ssrc_init cfg = \<lparr> sr_cfg = cfg, sr_active_requests = Map.empty, sr_resident_bytes = 0,
     sr_stats = \<lparr> ss_total_round_decisions = 0, ss_total_rounds_deferred = 0,
       ss_total_rounds_refused = 0, ss_total_rounds_committed = 0, ss_total_rounds_discarded = 0,
       ss_total_rounds_partial = 0, ss_total_state_bytes_saved = 0,
       ss_total_state_bytes_replayed = 0, ss_total_bypassed_writes = 0,
       ss_total_bypassed_write_bytes = 0, ss_peak_resident_bytes = 0 \<rparr> \<rparr>"

section \<open>Operations\<close>

fun isfinite :: "fp \<Rightarrow> bool" where
  "isfinite (FFin x) = True"
| "isfinite _ = False"

definition should_defer_round :: "ssrc \<Rightarrow> u32 \<Rightarrow> u32 \<Rightarrow> u32 \<Rightarrow> fp \<Rightarrow> bool \<times> ssrc" where
  "should_defer_round s rid spec_round planned_draft_length entropy_hint =
     (if \<not> sc_enable (sr_cfg s) then (False, s) else
      let st = (sr_stats s)\<lparr> ss_total_round_decisions := ss_total_round_decisions (sr_stats s) + 1 \<rparr>;
          s1 = s\<lparr> sr_stats := st \<rparr> in
      if \<not> isfinite entropy_hint then (False, s1) else
      if fle entropy_hint (sc_confidence_threshold (sr_cfg s)) then (False, s1) else
      let bytes = ucast planned_draft_length * ucast (sc_state_bytes_per_token (sr_cfg s)) in
      if sc_resident_limit_bytes (sr_cfg s) < sr_resident_bytes s + bytes
      then (False, s\<lparr> sr_stats := st\<lparr> ss_total_rounds_refused := ss_total_rounds_refused st + 1 \<rparr> \<rparr>)
      else
      let resident = sr_resident_bytes s + bytes in
        (True, s\<lparr> sr_active_requests := (sr_active_requests s)(rid \<mapsto>
                   \<lparr> rr_spec_round = spec_round, rr_planned_draft_length = planned_draft_length,
                     rr_reserved_bytes = bytes \<rparr>),
                 sr_resident_bytes := resident,
                 sr_stats := st\<lparr> ss_peak_resident_bytes :=
                     (if ss_peak_resident_bytes st < resident then resident
                      else ss_peak_resident_bytes st),
                   ss_total_rounds_deferred := ss_total_rounds_deferred st + 1 \<rparr> \<rparr>))"

definition release_bytes :: "u64 \<Rightarrow> u64 \<Rightarrow> u64" where
  "release_bytes resident reserved = (if reserved \<le> resident then resident - reserved else 0)"

definition on_round_verified :: "ssrc \<Rightarrow> u32 \<Rightarrow> u32 \<Rightarrow> u32 \<Rightarrow> u32 \<Rightarrow> ssrc" where
  "on_round_verified s rid spec_round accepted_length round_draft_length =
     (if \<not> sc_enable (sr_cfg s) then s else
      case sr_active_requests s rid of None \<Rightarrow> s | Some it \<Rightarrow>
      if rr_spec_round it \<noteq> spec_round then s else
      let reserved = rr_reserved_bytes it;
          k = max 1 round_draft_length;
          acc = min accepted_length k;
          replayed = (reserved * ucast acc) div ucast k;
          saved = reserved - replayed;
          st = sr_stats s;
          st1 = st\<lparr> ss_total_state_bytes_replayed := ss_total_state_bytes_replayed st + replayed,
                    ss_total_state_bytes_saved := ss_total_state_bytes_saved st + saved \<rparr>;
          st2 = (if acc = 0 then st1\<lparr> ss_total_rounds_discarded := ss_total_rounds_discarded st1 + 1 \<rparr>
                 else if acc = k then st1\<lparr> ss_total_rounds_committed := ss_total_rounds_committed st1 + 1 \<rparr>
                 else st1\<lparr> ss_total_rounds_partial := ss_total_rounds_partial st1 + 1 \<rparr>)
      in s\<lparr> sr_stats := st2, sr_resident_bytes := release_bytes (sr_resident_bytes s) reserved,
           sr_active_requests := (sr_active_requests s)(rid := None) \<rparr>)"

definition abort_request :: "ssrc \<Rightarrow> u32 \<Rightarrow> ssrc" where
  "abort_request s rid =
     (if \<not> sc_enable (sr_cfg s) then s else
      case sr_active_requests s rid of None \<Rightarrow> s | Some it \<Rightarrow>
      s\<lparr> sr_resident_bytes := release_bytes (sr_resident_bytes s) (rr_reserved_bytes it),
        sr_active_requests := (sr_active_requests s)(rid := None) \<rparr>)"

definition is_active_request :: "ssrc \<Rightarrow> u32 \<Rightarrow> bool" where
  "is_active_request s rid =
     (if \<not> sc_enable (sr_cfg s) then False else sr_active_requests s rid \<noteq> None)"

definition note_bypassed_write :: "ssrc \<Rightarrow> u32 \<Rightarrow> u64 \<Rightarrow> ssrc" where
  "note_bypassed_write s rid bytes =
     (if \<not> sc_enable (sr_cfg s) then s else
      if sr_active_requests s rid = None then s else
      let st = sr_stats s in
      s\<lparr> sr_stats := st\<lparr> ss_total_bypassed_writes := ss_total_bypassed_writes st + 1,
                        ss_total_bypassed_write_bytes := ss_total_bypassed_write_bytes st + bytes \<rparr> \<rparr>)"

section \<open>Reserved and resident bytes\<close>

datatype ssrc_op =
  Defer u32 u32 u32 fp | Verified u32 u32 u32 u32 | Abort u32 | Note u32 u64

fun ssrc_exec :: "ssrc_op \<Rightarrow> ssrc \<Rightarrow> ssrc" where
  "ssrc_exec (Defer rid sr pl e) s = snd (should_defer_round s rid sr pl e)"
| "ssrc_exec (Verified rid sr a k) s = on_round_verified s rid sr a k"
| "ssrc_exec (Abort rid) s = abort_request s rid"
| "ssrc_exec (Note rid b) s = note_bypassed_write s rid b"

abbreviation reserved_total :: "ssrc \<Rightarrow> nat" where
  "reserved_total s \<equiv> map_total (\<lambda>r. unat (rr_reserved_bytes r)) (sr_active_requests s)"

text \<open>With a limit of at most 4 GiB the sum that is compared with the limit cannot wrap.\<close>

definition ssrc_inv :: "ssrc_config \<Rightarrow> ssrc \<Rightarrow> bool" where
  "ssrc_inv cfg s \<longleftrightarrow> sr_cfg s = cfg \<and> finite (dom (sr_active_requests s)) \<and>
     reserved_total s \<le> unat (sr_resident_bytes s) \<and>
     sr_resident_bytes s \<le> sc_resident_limit_bytes cfg \<and>
     (\<forall>i. sr_active_requests s i \<noteq> None \<longrightarrow> sc_enable cfg)"

text \<open>With the additional discipline that no request is deferred twice without being retired in
  between, the reserved bytes are exactly the resident ones.\<close>

definition ssrc_exact :: "ssrc \<Rightarrow> bool" where
  "ssrc_exact s \<longleftrightarrow> unat (sr_resident_bytes s) = reserved_total s"

lemma small_limit_no_wrap:
  assumes "(r :: u64) \<le> limit" "limit \<le> 2 ^ 32"
  shows "unat (r + ucast (p :: u32) * ucast (b :: u32)) = unat r + unat p * unat b"
    "unat (ucast p * ucast b :: u64) = unat p * unat b"
proof -
  have r: "unat r \<le> 2 ^ 32" using assms by (simp add: word_le_nat_alt)
  have p: "unat p \<le> 2 ^ 32 - 1" and b: "unat b \<le> 2 ^ 32 - 1"
    using unsigned_less [of p, where 'a = nat] unsigned_less [of b, where 'a = nat] by simp_all
  have "unat p * unat b \<le> (2 ^ 32 - 1) * (2 ^ 32 - 1)" by (intro mult_le_mono p b)
  then have pb: "unat p * unat b + 2 ^ 32 < 2 ^ 64" by simp
  have up: "unat (ucast p :: u64) = unat p" "unat (ucast b :: u64) = unat b"
    by (simp_all add: unat_ucast_wider)
  show u: "unat (ucast p * ucast b :: u64) = unat p * unat b"
    using pb by (simp add: unat_word_ariths up)
  show "unat (r + ucast p * ucast b) = unat r + unat p * unat b"
    using pb r u by (simp add: unat_plus_if')
qed

text \<open>The two ways the map of active requests changes.\<close>

lemma ssrc_defer_inv [inv_intros]:
  assumes inv: "ssrc_inv cfg s" and small: "sc_resident_limit_bytes cfg \<le> 2 ^ 32"
  shows "ssrc_inv cfg (snd (should_defer_round s rid sr pl e))"
    and "ssrc_exact s \<Longrightarrow> sr_active_requests s rid = None \<Longrightarrow>
       ssrc_exact (snd (should_defer_round s rid sr pl e))"
proof -
  let ?f = "\<lambda>r. unat (rr_reserved_bytes r)"
  let ?b = "ucast pl * ucast (sc_state_bytes_per_token cfg) :: u64"
  let ?r = "\<lparr> rr_spec_round = sr, rr_planned_draft_length = pl, rr_reserved_bytes = ?b \<rparr>"
  have fin: "finite (dom (sr_active_requests s))" and cfg: "sr_cfg s = cfg"
    and lim: "sr_resident_bytes s \<le> sc_resident_limit_bytes cfg"
    using inv by (auto simp: ssrc_inv_def)
  have sum: "unat (sr_resident_bytes s + ?b) = unat (sr_resident_bytes s) + unat ?b"
    using small_limit_no_wrap [OF lim small] by simp
  have total: "map_total ?f ((sr_active_requests s)(rid \<mapsto> ?r)) + at_key ?f (sr_active_requests s) rid
      = reserved_total s + unat ?b"
    using map_total_upd [OF fin, of ?f rid ?r] by simp
  show "ssrc_inv cfg (snd (should_defer_round s rid sr pl e))"
    using inv sum total
    by (auto simp: should_defer_round_def Let_def ssrc_inv_def cfg not_less)
  assume "ssrc_exact s" "sr_active_requests s rid = None"
  then show "ssrc_exact (snd (should_defer_round s rid sr pl e))"
    using sum total by (auto simp: should_defer_round_def Let_def ssrc_exact_def cfg at_key_def)
qed

text \<open>Retiring a request, on verification or abort.\<close>

lemma ssrc_retire:
  assumes inv: "ssrc_inv cfg s" and act: "sr_active_requests s rid = Some it"
    and s': "sr_cfg s' = sr_cfg s" "sr_active_requests s' = (sr_active_requests s)(rid := None)"
      "sr_resident_bytes s' = release_bytes (sr_resident_bytes s) (rr_reserved_bytes it)"
  shows "ssrc_inv cfg s'" "ssrc_exact s \<Longrightarrow> ssrc_exact s'"
    "sr_resident_bytes s' = sr_resident_bytes s - rr_reserved_bytes it"
proof -
  let ?f = "\<lambda>r. unat (rr_reserved_bytes r)"
  have fin: "finite (dom (sr_active_requests s))"
    and tot: "reserved_total s \<le> unat (sr_resident_bytes s)"
    and lim: "sr_resident_bytes s \<le> sc_resident_limit_bytes cfg"
    using inv by (auto simp: ssrc_inv_def)
  have at: "at_key ?f (sr_active_requests s) rid = unat (rr_reserved_bytes it)"
    using act by (simp add: at_key_def)
  have le: "unat (rr_reserved_bytes it) \<le> unat (sr_resident_bytes s)"
    using at_key_le [OF fin, of ?f rid] tot at by linarith
  have del: "reserved_total s' + unat (rr_reserved_bytes it) = reserved_total s"
    using map_total_delete [OF fin, of ?f rid] at by (simp add: s')
  have rel: "sr_resident_bytes s' = sr_resident_bytes s - rr_reserved_bytes it"
    using le by (simp add: s' release_bytes_def word_le_nat_alt)
  then show "sr_resident_bytes s' = sr_resident_bytes s - rr_reserved_bytes it" .
  have u: "unat (sr_resident_bytes s') = unat (sr_resident_bytes s) - unat (rr_reserved_bytes it)"
    using le by (simp add: rel unat_minus_le word_le_nat_alt)
  show "ssrc_inv cfg s'"
    using inv del u lim tot by (auto simp: ssrc_inv_def s'(1,2) word_le_nat_alt)
  assume "ssrc_exact s"
  then show "ssrc_exact s'" using del u by (simp add: ssrc_exact_def)
qed

lemma ssrc_verified_cases:
  obtains (Same) "on_round_verified s rid sr a k = s"
  | (Retired) it where "sc_enable (sr_cfg s)" "sr_active_requests s rid = Some it"
      "rr_spec_round it = sr" "sr_cfg (on_round_verified s rid sr a k) = sr_cfg s"
      "sr_active_requests (on_round_verified s rid sr a k) = (sr_active_requests s)(rid := None)"
      "sr_resident_bytes (on_round_verified s rid sr a k) =
         release_bytes (sr_resident_bytes s) (rr_reserved_bytes it)"
proof (cases "sc_enable (sr_cfg s)")
  case enabled: True
  show thesis
  proof (cases "sr_active_requests s rid")
    case None
    then show ?thesis by (intro Same) (simp add: on_round_verified_def)
  next
    case (Some it)
    show ?thesis
    proof (cases "rr_spec_round it = sr")
      case True
      then show ?thesis
        using enabled Some by (intro Retired [of it]) (simp_all add: on_round_verified_def Let_def)
    next
      case False
      then show ?thesis using Some by (intro Same) (simp add: on_round_verified_def)
    qed
  qed
qed (simp add: on_round_verified_def Same)

lemma ssrc_verified_inv [inv_intros]:
  assumes "ssrc_inv cfg s"
  shows "ssrc_inv cfg (on_round_verified s rid sr a k)"
    "ssrc_exact s \<Longrightarrow> ssrc_exact (on_round_verified s rid sr a k)"
  using assms by (cases rule: ssrc_verified_cases [of s rid sr a k]; auto intro: ssrc_retire)+

lemma ssrc_abort_inv [inv_intros]:
  assumes "ssrc_inv cfg s"
  shows "ssrc_inv cfg (abort_request s rid)" "ssrc_exact s \<Longrightarrow> ssrc_exact (abort_request s rid)"
  using assms by (auto simp: abort_request_def split: option.split intro: ssrc_retire)

lemma ssrc_note_inv [inv_intros]:
  "ssrc_inv cfg s \<Longrightarrow> ssrc_inv cfg (note_bypassed_write s rid b)"
  "ssrc_exact s \<Longrightarrow> ssrc_exact (note_bypassed_write s rid b)"
  by (auto simp: note_bypassed_write_def ssrc_inv_def ssrc_exact_def Let_def)

lemma ssrc_init_inv [inv_intros]: "ssrc_inv cfg (ssrc_init cfg)" "ssrc_exact (ssrc_init cfg)"
  by (simp_all add: ssrc_inv_def ssrc_init_def ssrc_exact_def)


lemma ssrc_exec_inv:
  assumes "ssrc_inv cfg s" "sc_resident_limit_bytes cfg \<le> 2 ^ 32"
  shows "ssrc_inv cfg (ssrc_exec op s)"
  using assms by (cases op) (auto intro: inv_intros)

interpretation ssrc: invariant "\<lambda>op s. Some (ssrc_exec op s)"
  "\<lambda>s. ssrc_inv cfg s \<and> sc_resident_limit_bytes cfg \<le> 2 ^ 32" "\<lambda>_. True"
  by unfold_locales (simp add: ssrc_exec_inv)

text \<open>The scheduler's discipline: a request that is deferred holds no earlier reservation.\<close>

inductive ssrc_protocol :: "ssrc_config \<Rightarrow> ssrc \<Rightarrow> bool" for cfg where
  Init: "ssrc_protocol cfg (ssrc_init cfg)"
| Defer: "ssrc_protocol cfg s \<Longrightarrow> sr_active_requests s rid = None \<Longrightarrow>
    ssrc_protocol cfg (snd (should_defer_round s rid sr pl e))"
| Verified: "ssrc_protocol cfg s \<Longrightarrow> ssrc_protocol cfg (on_round_verified s rid sr a k)"
| Abort: "ssrc_protocol cfg s \<Longrightarrow> ssrc_protocol cfg (abort_request s rid)"
| Note: "ssrc_protocol cfg s \<Longrightarrow> ssrc_protocol cfg (note_bypassed_write s rid b)"

lemma ssrc_protocol_exact:
  assumes "ssrc_protocol cfg s" "sc_resident_limit_bytes cfg \<le> 2 ^ 32"
  shows "ssrc_inv cfg s \<and> ssrc_exact s"
  using assms
  by (induction rule: ssrc_protocol.induct)
     (simp add: ssrc_init_inv, (blast intro: ssrc_defer_inv ssrc_verified_inv ssrc_abort_inv ssrc_note_inv)+)

text \<open>Without the discipline a second deferral of the same request leaks the first one's bytes.\<close>

definition ssrc_sample_cfg :: ssrc_config where
  "ssrc_sample_cfg = ssrc_default_config\<lparr> sc_enable := True \<rparr>"

lemma ssrc_redefer_leaks:
  "sr_resident_bytes (on_round_verified (snd (should_defer_round (snd (should_defer_round
       (ssrc_init ssrc_sample_cfg) 7 1 4 (FFin 8))) 7 2 4 (FFin 8))) 7 2 4 4) = 512 \<and>
   reserved_total (on_round_verified (snd (should_defer_round (snd (should_defer_round
       (ssrc_init ssrc_sample_cfg) 7 1 4 (FFin 8))) 7 2 4 (FFin 8))) 7 2 4 4) = 0"
  by (simp add: should_defer_round_def on_round_verified_def ssrc_init_def ssrc_sample_cfg_def
      ssrc_default_config_def release_bytes_def Let_def word_less_nat_alt)

section \<open>Properties\<close>

text \<open>C22: whatever operations are executed, in whatever order, the resident bytes stay within the
  configured limit (at most 4 GiB) and cover the reservations of all active requests; nothing is
  active while the coordinator is disabled.\<close>

theorem ssrc_within_budget:
  assumes "sc_resident_limit_bytes cfg \<le> 2 ^ 32"
    "run_ops (\<lambda>op s. Some (ssrc_exec op s)) ops (ssrc_init cfg) = Some s"
  shows "sr_resident_bytes s \<le> sc_resident_limit_bytes cfg \<and>
    (\<Sum>i\<in>dom (sr_active_requests s). unat (rr_reserved_bytes (the (sr_active_requests s i))))
      \<le> unat (sr_resident_bytes s) \<and>
    (\<not> sc_enable cfg \<longrightarrow> sr_active_requests s = Map.empty)"
proof -
  have "ssrc_inv cfg s"
    using ssrc.run_invariant [where cfg = cfg and s = "ssrc_init cfg" and xs = ops] assms ssrc_init_inv
    by (auto simp: list_all_iff)
  then show ?thesis by (auto simp: ssrc_inv_def map_total_def)
qed

lemma ssrc_within_budget_witness:
  "sr_resident_bytes (ssrc_exec (Defer 7 1 4 (FFin 8)) (ssrc_init ssrc_sample_cfg)) \<le> 4194304"
  using ssrc_within_budget [of ssrc_sample_cfg "[Defer 7 1 4 (FFin 8)]"
    "ssrc_exec (Defer 7 1 4 (FFin 8)) (ssrc_init ssrc_sample_cfg)"]
  by (simp add: ssrc_sample_cfg_def ssrc_default_config_def)

text \<open>When no request is deferred again before it was verified or aborted, the resident
  bytes are exactly the sum of the active reservations: nothing leaks.\<close>

theorem ssrc_resident_exact:
  assumes "ssrc_protocol cfg s" "sc_resident_limit_bytes cfg \<le> 2 ^ 32"
  shows "unat (sr_resident_bytes s) =
    (\<Sum>i\<in>dom (sr_active_requests s). unat (rr_reserved_bytes (the (sr_active_requests s i))))"
  using ssrc_protocol_exact [OF assms] by (simp add: ssrc_exact_def map_total_def)

lemma ssrc_resident_exact_witness:
  "unat (sr_resident_bytes (snd (should_defer_round (ssrc_init ssrc_sample_cfg) 7 1 4 (FFin 8)))) =
    (\<Sum>i\<in>dom (sr_active_requests (snd (should_defer_round (ssrc_init ssrc_sample_cfg) 7 1 4 (FFin 8)))).
      unat (rr_reserved_bytes (the (sr_active_requests
        (snd (should_defer_round (ssrc_init ssrc_sample_cfg) 7 1 4 (FFin 8))) i))))"
  by (rule ssrc_resident_exact [OF ssrc_protocol.Defer [OF ssrc_protocol.Init]])
     (simp_all add: ssrc_init_def ssrc_sample_cfg_def ssrc_default_config_def)

text \<open>Verifying a deferred round retires it and splits its reservation without loss: the
  accepted share, rounded down, is replayed and the rest saved; everything is replayed when all
  tokens were accepted and everything saved when none was.\<close>

theorem ssrc_verified_split:
  assumes "ssrc_inv cfg s" "sc_resident_limit_bytes cfg \<le> 2 ^ 32" "sr_active_requests s rid = Some it"
    "rr_spec_round it = sr"
  shows "\<exists>replayed saved. let s' = on_round_verified s rid sr a k; k' = max 1 (unat k) in
    unat replayed = unat (rr_reserved_bytes it) * min (unat a) k' div k' \<and>
    unat replayed + unat saved = unat (rr_reserved_bytes it) \<and>
    (k' \<le> unat a \<longrightarrow> saved = 0) \<and> (a = 0 \<longrightarrow> replayed = 0) \<and>
    ss_total_state_bytes_replayed (sr_stats s') = ss_total_state_bytes_replayed (sr_stats s) + replayed \<and>
    ss_total_state_bytes_saved (sr_stats s') = ss_total_state_bytes_saved (sr_stats s) + saved \<and>
    sr_resident_bytes s' = sr_resident_bytes s - rr_reserved_bytes it \<and>
    \<not> is_active_request s' rid"
proof -
  let ?f = "\<lambda>r. unat (rr_reserved_bytes r)"
  let ?R = "rr_reserved_bytes it" and ?k = "max 1 k" and ?a = "min a (max 1 k)"
  define rep where "rep = (?R * ucast ?a) div ucast ?k"
  have en: "sc_enable (sr_cfg s)" and fin: "finite (dom (sr_active_requests s))"
    using assms(1,3) by (auto simp: ssrc_inv_def)
  have "unat ?R \<le> reserved_total s"
    using at_key_le [OF fin, of ?f rid] assms(3) by (simp add: at_key_def)
  also have "\<dots> \<le> 2 ^ 32" using assms(1,2) by (auto simp: ssrc_inv_def word_le_nat_alt)
  finally have R: "unat ?R \<le> 2 ^ 32" .
  have ak: "unat ?a = min (unat a) (max 1 (unat k))" "unat ?k = max 1 (unat k)"
    by (simp_all add: unat_min unat_max)
  have "unat ?a < 2 ^ 32" using unsigned_less [of ?a, where 'a = nat] by simp
  then have "unat ?R * unat ?a \<le> 2 ^ 32 * (2 ^ 32 - 1)" using R by (intro mult_le_mono) auto
  then have prod: "unat (?R * ucast ?a) = unat ?R * unat ?a"
    by (simp add: unat_word_ariths unat_ucast_wider)
  have rep: "unat rep = unat ?R * min (unat a) (max 1 (unat k)) div max 1 (unat k)"
    by (simp add: rep_def unat_div prod unat_ucast_wider ak)
  have "unat ?R * min (unat a) (max 1 (unat k)) \<le> unat ?R * max 1 (unat k)" by simp
  then have le: "unat rep \<le> unat ?R" unfolding rep
    by (metis div_le_mono max.cobounded1 nonzero_mult_div_cancel_right not_one_le_zero)
  then have sv: "unat (?R - rep) = unat ?R - unat rep" by (simp add: unat_minus_le word_le_nat_alt)
  have full: "max 1 (unat k) \<le> unat a \<Longrightarrow> ?R - rep = 0"
    using sv unfolding rep by (simp add: word_unat_eq_iff)
  have none: "a = 0 \<Longrightarrow> rep = 0" by (simp add: rep_def)
  define s' where "s' = on_round_verified s rid sr a k"
  have st: "ss_total_state_bytes_replayed (sr_stats s') = ss_total_state_bytes_replayed (sr_stats s) + rep"
    "ss_total_state_bytes_saved (sr_stats s') = ss_total_state_bytes_saved (sr_stats s) + (?R - rep)"
    using en assms(3,4) by (simp_all add: s'_def on_round_verified_def Let_def rep_def)
  have "sr_resident_bytes s' = sr_resident_bytes s - ?R"
    using en assms(3,4) unfolding s'_def
    by (intro ssrc_retire(3) [OF assms(1,3)]) (simp_all add: on_round_verified_def Let_def)
  moreover have "\<not> is_active_request s' rid"
    using en assms(3,4) by (simp add: s'_def on_round_verified_def Let_def is_active_request_def)
  ultimately show ?thesis
    using rep sv le full none st unfolding Let_def s'_def [symmetric]
    by (intro exI [of _ rep] exI [of _ "?R - rep"]) (simp del: unat_eq_zero)
qed

definition ssrc_sample :: ssrc where
  "ssrc_sample = snd (should_defer_round (ssrc_init ssrc_sample_cfg) 7 1 4 (FFin 8))"

lemma ssrc_sample:
  "ssrc_inv ssrc_sample_cfg ssrc_sample" "sc_resident_limit_bytes ssrc_sample_cfg \<le> 2 ^ 32"
  "sr_active_requests ssrc_sample 7 =
     Some \<lparr> rr_spec_round = 1, rr_planned_draft_length = 4, rr_reserved_bytes = 512 \<rparr>"
proof -
  show small: "sc_resident_limit_bytes ssrc_sample_cfg \<le> 2 ^ 32"
    by (simp add: ssrc_sample_cfg_def ssrc_default_config_def)
  show "ssrc_inv ssrc_sample_cfg ssrc_sample"
    unfolding ssrc_sample_def by (rule ssrc_defer_inv [OF ssrc_init_inv(1) small])
  show "sr_active_requests ssrc_sample 7 =
     Some \<lparr> rr_spec_round = 1, rr_planned_draft_length = 4, rr_reserved_bytes = 512 \<rparr>"
    by (simp add: ssrc_sample_def should_defer_round_def ssrc_init_def ssrc_sample_cfg_def
        ssrc_default_config_def Let_def word_less_nat_alt)
qed

lemma ssrc_verified_split_witness:
  "\<exists>replayed saved. let s' = on_round_verified ssrc_sample 7 1 3 4; k' = max 1 (unat (4 :: u32)) in
    unat replayed = 512 * min (unat (3 :: u32)) k' div k' \<and> unat replayed + unat saved = 512 \<and>
    (k' \<le> unat (3 :: u32) \<longrightarrow> saved = 0) \<and> ((3 :: u32) = 0 \<longrightarrow> replayed = 0) \<and>
    ss_total_state_bytes_replayed (sr_stats s') =
      ss_total_state_bytes_replayed (sr_stats ssrc_sample) + replayed \<and>
    ss_total_state_bytes_saved (sr_stats s') = ss_total_state_bytes_saved (sr_stats ssrc_sample) + saved \<and>
    sr_resident_bytes s' = sr_resident_bytes ssrc_sample - 512 \<and> \<not> is_active_request s' 7"
  using ssrc_verified_split [OF ssrc_sample refl, of 3 4] by simp

end
