(* ===== verification/AHASD.thy ===== *)
theory AHASD
  imports EDC TVC
begin

text \<open>
  The coordinator of \<^verbatim>\<open>ONNXim/src/AHASDIntegration.h\<close>: it owns the
  drafting control and the pre-verification control, turns their decisions
  into a draft length and a pre-verification length, and feeds them the
  measured results.  The drafting loop is proved against the interface of the
  control it polls (locale \<^verbatim>\<open>draft_gate\<close>), which the model of
  \<^verbatim>\<open>EDC\<close> provides.
\<close>

section \<open>State\<close>

record ahasd_config =
  ac_enable_edc :: bool
  ac_enable_tvc :: bool
  ac_enable_aau :: bool
  ac_pim_freq_mhz :: fp
  ac_npu_freq_mhz :: fp
  ac_max_draft_length :: u32
  ac_min_preverify_length :: u32
  ac_pre_verify_max :: u32
  ac_edc_h_max :: fp
  ac_edc_leht_size :: u32
  ac_edc_llr_bits :: u32
  ac_tvc_cycle_table_size :: u32

definition ahasd_default_config :: ahasd_config where
  "ahasd_default_config = \<lparr> ac_enable_edc = True, ac_enable_tvc = True, ac_enable_aau = True,
     ac_pim_freq_mhz = FFin 800, ac_npu_freq_mhz = FFin 1000, ac_max_draft_length = 16,
     ac_min_preverify_length = 2, ac_pre_verify_max = 8, ac_edc_h_max = DEFAULT_H_MAX,
     ac_edc_leht_size = DEFAULT_LEHT_SIZE, ac_edc_llr_bits = DEFAULT_LLR_BITS,
     ac_tvc_cycle_table_size = DEFAULT_CYCLE_TABLE_SIZE \<rparr>"

record ahasd =
  ah_config :: ahasd_config
  ah_edc :: "edc option"
  ah_tvc :: "tvc option"
  ah_total_draft_rounds :: u64
  ah_total_verifies :: u64
  ah_total_pre_verifies :: u64
  ah_total_accepted_tokens :: u64
  ah_total_verified_draft_tokens :: u64
  ah_total_rejected_draft_tokens :: u64
  ah_total_pim_draft_tokens :: u64
  ah_total_preverify_tokens :: u64

definition ahasd_init :: "ahasd_config \<Rightarrow> ahasd" where
  "ahasd_init cfg =
     \<lparr> ah_config = cfg,
       ah_edc = (if ac_enable_edc cfg
                 then Some (edc_init (ac_edc_h_max cfg) (ac_edc_leht_size cfg) (ac_edc_llr_bits cfg))
                 else None),
       ah_tvc = (if ac_enable_tvc cfg
                 then Some (tvc_init (ac_pim_freq_mhz cfg) (ac_npu_freq_mhz cfg)
                              (ac_tvc_cycle_table_size cfg))
                 else None),
       ah_total_draft_rounds = 0, ah_total_verifies = 0, ah_total_pre_verifies = 0,
       ah_total_accepted_tokens = 0, ah_total_verified_draft_tokens = 0,
       ah_total_rejected_draft_tokens = 0, ah_total_pim_draft_tokens = 0,
       ah_total_preverify_tokens = 0 \<rparr>"

section \<open>Operations\<close>

text \<open>The polling loop of \<^verbatim>\<open>decide_draft_length\<close>, over any gate.\<close>

function draft_loop :: "('g \<Rightarrow> (bool \<times> 'g) option) \<Rightarrow> u32 \<Rightarrow> u32 \<Rightarrow> 'g \<Rightarrow> (u32 \<times> 'g) option" where
  "draft_loop poll bounded k g =
     (if k < bounded then
        (case poll g of None \<Rightarrow> None
         | Some (go, g') \<Rightarrow> if \<not> go then Some (k, g') else draft_loop poll bounded (k + 1) g')
      else Some (k, g))"
  by auto
termination
  by (relation "measure (\<lambda>(poll, bounded, k, g). unat bounded - unat k)")
     (auto simp: unat_succ_of_less word_less_nat_alt)

declare draft_loop.simps [simp del]

definition decide_draft_length :: "ahasd \<Rightarrow> u32 \<Rightarrow> fp \<Rightarrow> (u32 \<times> ahasd) option" where
  "decide_draft_length a0 max_k entropy_hint =
     (let a = a0\<lparr> ah_total_draft_rounds := ah_total_draft_rounds a0 + 1 \<rparr>;
          bounded = max 1 max_k in
      case ah_edc a of
        None \<Rightarrow> Some (bounded, a)
      | Some e \<Rightarrow>
        if \<not> ac_enable_edc (ah_config a) then Some (bounded, a) else
        (case draft_loop (\<lambda>g. should_continue_drafting g entropy_hint) bounded 1 e of
           None \<Rightarrow> None
         | Some (k, e') \<Rightarrow> Some (k, a\<lparr> ah_edc := Some e' \<rparr>)))"

definition decide_pre_verify :: "ahasd \<Rightarrow> u32 \<Rightarrow> u32 \<Rightarrow> (u32 \<times> ahasd) option" where
  "decide_pre_verify a current_kv_length pending_draft_count =
     (case ah_tvc a of None \<Rightarrow> Some (0, a) | Some t \<Rightarrow>
      if \<not> ac_enable_tvc (ah_config a) then Some (0, a) else
      if pending_draft_count < ac_min_preverify_length (ah_config a) then Some (0, a) else
      case should_insert_preverification t current_kv_length pending_draft_count of None \<Rightarrow> None
      | Some ((yes, len), t') \<Rightarrow>
        if \<not> yes then Some (0, a\<lparr> ah_tvc := Some t' \<rparr>) else
        let b1 = min len (ac_pre_verify_max (ah_config a));
            b2 = min b1 pending_draft_count;
            b3 = (if pending_draft_count \<le> b2 \<and> 1 < pending_draft_count
                  then pending_draft_count - 1 else b2) in
        if b3 = 0 then Some (0, a\<lparr> ah_tvc := Some t' \<rparr>)
        else Some (b3, a\<lparr> ah_total_pre_verifies := ah_total_pre_verifies a + 1,
                          ah_tvc := Some (record_prevented_idle t') \<rparr>))"

definition on_edc :: "ahasd \<Rightarrow> (edc \<Rightarrow> edc option) \<Rightarrow> ahasd option" where
  "on_edc a f = (case ah_edc a of None \<Rightarrow> Some a
     | Some e \<Rightarrow> if \<not> ac_enable_edc (ah_config a) then Some a
                 else map_option (\<lambda>e'. a\<lparr> ah_edc := Some e' \<rparr>) (f e))"

definition on_tvc :: "ahasd \<Rightarrow> (tvc \<Rightarrow> tvc option) \<Rightarrow> ahasd option" where
  "on_tvc a f = (case ah_tvc a of None \<Rightarrow> Some a
     | Some t \<Rightarrow> if \<not> ac_enable_tvc (ah_config a) then Some a
                 else map_option (\<lambda>t'. a\<lparr> ah_tvc := Some t' \<rparr>) (f t))"

definition record_verify_result ::
  "ahasd \<Rightarrow> bool \<Rightarrow> u32 \<Rightarrow> u32 \<Rightarrow> u64 \<Rightarrow> u32 \<Rightarrow> bool \<Rightarrow> ahasd option" where
  "record_verify_result a fully_accepted draft_length accepted_length verify_npu_cycles kv_length
     count_as_final_verify =
     (let a1 = (if count_as_final_verify
                then a\<lparr> ah_total_verifies := ah_total_verifies a + 1,
                       ah_total_verified_draft_tokens :=
                         ah_total_verified_draft_tokens a + ucast draft_length,
                       ah_total_accepted_tokens := ah_total_accepted_tokens a + ucast accepted_length,
                       ah_total_rejected_draft_tokens := ah_total_rejected_draft_tokens a +
                         (if accepted_length < draft_length
                          then ucast (draft_length - accepted_length) else 0) \<rparr>
                else a) in
      case on_edc a1 (\<lambda>e. update_on_verification e fully_accepted accepted_length) of
        None \<Rightarrow> None
      | Some a2 \<Rightarrow> on_tvc a2 (\<lambda>t. record_npu_verification t verify_npu_cycles kv_length))"

definition record_draft_batch :: "ahasd \<Rightarrow> u64 \<Rightarrow> u32 \<Rightarrow> ahasd option" where
  "record_draft_batch a cycles len = on_tvc a (\<lambda>t. record_pim_drafting t cycles len)"

definition record_draft_tokens_generated :: "ahasd \<Rightarrow> u32 \<Rightarrow> ahasd" where
  "record_draft_tokens_generated a n =
     a\<lparr> ah_total_pim_draft_tokens := ah_total_pim_draft_tokens a + ucast n \<rparr>"

definition record_pre_verify :: "ahasd \<Rightarrow> u64 \<Rightarrow> u32 \<Rightarrow> ahasd option" where
  "record_pre_verify a cycles len =
     on_tvc (a\<lparr> ah_total_preverify_tokens := ah_total_preverify_tokens a + ucast len \<rparr>)
       (\<lambda>t. record_pim_preverification t cycles len)"

definition ahasd_start_npu_task :: "ahasd \<Rightarrow> u64 \<Rightarrow> ahasd option" where
  "ahasd_start_npu_task a c = on_tvc a (\<lambda>t. Some (start_npu_task t c))"

definition cycle_npu_with_progress :: "ahasd \<Rightarrow> u64 \<Rightarrow> ahasd option" where
  "cycle_npu_with_progress a c = on_tvc a (\<lambda>t. Some (update_npu_progress t c))"

definition ahasd_reset :: "ahasd \<Rightarrow> ahasd" where
  "ahasd_reset a =
     a\<lparr> ah_total_draft_rounds := 0, ah_total_verifies := 0, ah_total_pre_verifies := 0,
       ah_total_accepted_tokens := 0, ah_total_verified_draft_tokens := 0,
       ah_total_rejected_draft_tokens := 0, ah_total_pim_draft_tokens := 0,
       ah_total_preverify_tokens := 0,
       ah_edc := map_option edc_reset (ah_edc a), ah_tvc := map_option tvc_reset (ah_tvc a) \<rparr>"

definition acceptance_rate :: "ahasd \<Rightarrow> fp" where
  "acceptance_rate a =
     (if ah_total_verified_draft_tokens a = 0 then FFin 0
      else fdiv b64 (du64 (ah_total_accepted_tokens a)) (du64 (ah_total_verified_draft_tokens a)))"

definition rejected_draft_ratio :: "ahasd \<Rightarrow> fp" where
  "rejected_draft_ratio a =
     (if ah_total_verified_draft_tokens a = 0 then FFin 0
      else fdiv b64 (du64 (ah_total_rejected_draft_tokens a)) (du64 (ah_total_verified_draft_tokens a)))"

definition pim_useful_compute_ratio :: "ahasd \<Rightarrow> fp" where
  "pim_useful_compute_ratio a =
     (if ah_total_pim_draft_tokens a = 0 then FFin 0
      else let useful = min (ah_total_accepted_tokens a) (ah_total_pim_draft_tokens a) in
        fdiv b64 (du64 useful) (du64 (ah_total_pim_draft_tokens a)))"

section \<open>The drafting loop against the gate's interface\<close>

text \<open>What the loop relies on: polling a good gate succeeds and leaves it good; \<^verbatim>\<open>polls\<close>
  counts the polls.\<close>

locale draft_gate =
  fixes poll :: "'g \<Rightarrow> (bool \<times> 'g) option"
    and good :: "'g \<Rightarrow> bool"
    and polls :: "'g \<Rightarrow> u64"
  assumes poll_good: "good g \<Longrightarrow> \<exists>go g'. poll g = Some (go, g') \<and> good g' \<and> polls g' = polls g + 1"
begin

lemma loop_result:
  assumes "good g" "k \<le> bounded"
  shows "\<exists>n g'. draft_loop poll bounded k g = Some (n, g') \<and> good g' \<and> k \<le> n \<and> n \<le> bounded \<and>
    polls g' = polls g + of_nat (unat n - unat k) + (if n = bounded then 0 else 1)"
  using assms
proof (induction "unat bounded - unat k" arbitrary: k g rule: less_induct)
  case less
  show ?case
  proof (cases "k < bounded")
    case False
    then have "k = bounded" using less.prems(2) by simp
    then show ?thesis using less.prems(1) by (simp add: draft_loop.simps)
  next
    case True
    obtain go g1 where p: "poll g = Some (go, g1)" "good g1" "polls g1 = polls g + 1"
      using poll_good [OF less.prems(1)] by blast
    have step: "draft_loop poll bounded k g =
        (if \<not> go then Some (k, g1) else draft_loop poll bounded (k + 1) g1)"
      using True p(1) by (simp add: draft_loop.simps)
    show ?thesis
    proof (cases go)
      case False
      then show ?thesis using step p True by auto
    next
      case go: True
      have k1: "unat (k + 1) = unat k + 1" using True by (rule unat_succ_of_less)
      have "unat bounded - unat (k + 1) < unat bounded - unat k" "k + 1 \<le> bounded"
        using True k1 by (simp_all add: word_less_nat_alt word_le_nat_alt)
      from less.hyps [OF this(1) p(2) this(2)] obtain n g2 where
        IH: "draft_loop poll bounded (k + 1) g1 = Some (n, g2)" "good g2" "k + 1 \<le> n" "n \<le> bounded"
          "polls g2 = polls g1 + of_nat (unat n - unat (k + 1)) + (if n = bounded then 0 else 1)"
        by blast
      have kn: "Suc (unat k) \<le> unat n" using IH(3) k1 by (simp add: word_le_nat_alt)
      then have "unat n - unat k = Suc (unat n - unat (k + 1))" using k1 by simp
      then have "polls g2 = polls g + of_nat (unat n - unat k) + (if n = bounded then 0 else 1)"
        using IH(5) p(3) by simp
      moreover have "k \<le> n" using kn by (simp add: word_le_nat_alt)
      ultimately show ?thesis using go step IH(1,2,4) by auto
    qed
  qed
qed

end

interpretation edc_gate: draft_gate "\<lambda>e. should_continue_drafting e x"
  "\<lambda>e. edc_inv e \<and> x \<noteq> FNaN" edc_total_drafts
proof unfold_locales
  fix e :: edc
  assume g: "edc_inv e \<and> x \<noteq> FNaN"
  then obtain p e' where r: "should_continue_drafting e x = Some (p, e')" "edc_inv e'"
    using edc_draft_inv by blast
  moreover have "edc_total_drafts e' = edc_total_drafts e + 1"
    by (rule should_continue_draftingE [of e x]) (use g r(1) in auto)
  ultimately show "\<exists>go e'. should_continue_drafting e x = Some (go, e') \<and>
      (edc_inv e' \<and> x \<noteq> FNaN) \<and> edc_total_drafts e' = edc_total_drafts e + 1"
    using g by blast
qed

section \<open>Sequences of operations\<close>

datatype ahasd_op =
  DecideDraft u32 fp | DecidePre u32 u32 | VerifyDone bool u32 u32 u64 u32 bool
| DraftDone u64 u32 | DraftTokens u32 | PreVerifyDone u64 u32 | NpuStart u64 | NpuCycle u64
| AhasdReset

fun ahasd_step :: "ahasd_op \<Rightarrow> ahasd \<Rightarrow> ahasd option" where
  "ahasd_step (DecideDraft m x) a = map_option snd (decide_draft_length a m x)"
| "ahasd_step (DecidePre kv p) a = map_option snd (decide_pre_verify a kv p)"
| "ahasd_step (VerifyDone fa d ac c kv f) a = record_verify_result a fa d ac c kv f"
| "ahasd_step (DraftDone c l) a = record_draft_batch a c l"
| "ahasd_step (DraftTokens n) a = Some (record_draft_tokens_generated a n)"
| "ahasd_step (PreVerifyDone c l) a = record_pre_verify a c l"
| "ahasd_step (NpuStart c) a = ahasd_start_npu_task a c"
| "ahasd_step (NpuCycle c) a = cycle_npu_with_progress a c"
| "ahasd_step AhasdReset a = Some (ahasd_reset a)"

text \<open>The parts exist as configured and satisfy their own invariants.\<close>

definition ahasd_wf :: "ahasd \<Rightarrow> bool" where
  "ahasd_wf a \<longleftrightarrow>
     (ac_enable_edc (ah_config a) \<longleftrightarrow> ah_edc a \<noteq> None) \<and> pred_option edc_inv (ah_edc a) \<and>
     (ac_enable_tvc (ah_config a) \<longleftrightarrow> ah_tvc a \<noteq> None) \<and>
     pred_option (\<lambda>t. 1 \<le> unat (tvc_cycle_table_size t)) (ah_tvc a)"

lemma ahasd_wf_cong:
  "ah_config a' = ah_config a \<Longrightarrow> ah_edc a' = ah_edc a \<Longrightarrow> ah_tvc a' = ah_tvc a \<Longrightarrow>
   ahasd_wf a' = ahasd_wf a"
  by (simp add: ahasd_wf_def)

definition ahasd_ledger :: "ahasd \<Rightarrow> bool" where
  "ahasd_ledger a \<longleftrightarrow> ah_total_verified_draft_tokens a =
     ah_total_accepted_tokens a + ah_total_rejected_draft_tokens a"

fun ahasd_op_ok :: "ahasd_op \<Rightarrow> bool" where
  "ahasd_op_ok (DecideDraft m x) = (x \<noteq> FNaN)"
| "ahasd_op_ok (VerifyDone fa d ac c kv f) = (ac \<le> d)"
| "ahasd_op_ok _ = True"

lemma tvc_size_kept:
  "record_npu_verification t c l = Some t' \<Longrightarrow> tvc_cycle_table_size t' = tvc_cycle_table_size t"
  "record_pim_drafting t c l = Some t' \<Longrightarrow> tvc_cycle_table_size t' = tvc_cycle_table_size t"
  "record_pim_preverification t c l = Some t' \<Longrightarrow> tvc_cycle_table_size t' = tvc_cycle_table_size t"
  by (auto simp: record_npu_verification_def record_pim_drafting_def record_pim_preverification_def)

lemma should_insert_size:
  "should_insert_preverification t kv p = Some (d, t') \<Longrightarrow>
   tvc_cycle_table_size t' = tvc_cycle_table_size t"
  by (cases d; cases "fst d") (auto dest!: should_insert_True should_insert_False)

text \<open>What each operation leaves alone: the token counters of the ledger.\<close>

abbreviation counters :: "ahasd \<Rightarrow> u64 \<times> u64 \<times> u64" where
  "counters a \<equiv> (ah_total_verified_draft_tokens a, ah_total_accepted_tokens a,
                 ah_total_rejected_draft_tokens a)"

lemma on_tvc_wf:
  assumes "ahasd_wf a" "on_tvc a f = Some a'"
    "\<And>t t'. f t = Some t' \<Longrightarrow> tvc_cycle_table_size t' = tvc_cycle_table_size t"
  shows "ahasd_wf a'" "counters a' = counters a"
  using assms by (auto simp: on_tvc_def ahasd_wf_def split: option.split_asm if_split_asm)

lemma on_edc_wf:
  assumes "ahasd_wf a" "on_edc a f = Some a'" "\<And>e e'. edc_inv e \<Longrightarrow> f e = Some e' \<Longrightarrow> edc_inv e'"
  shows "ahasd_wf a'" "counters a' = counters a"
  using assms by (auto simp: on_edc_def ahasd_wf_def split: option.split_asm if_split_asm)

lemma decide_draft_length_result:
  assumes "ahasd_wf a" "x \<noteq> FNaN"
  shows "\<exists>n a'. decide_draft_length a m x = Some (n, a') \<and> 1 \<le> n \<and> n \<le> max 1 m \<and> ahasd_wf a' \<and>
    counters a' = counters a \<and> ah_total_draft_rounds a' = ah_total_draft_rounds a + 1 \<and>
    (case ah_edc a of None \<Rightarrow> n = max 1 m
     | Some e \<Rightarrow> \<exists>e'. ah_edc a' = Some e' \<and>
         edc_total_drafts e' = edc_total_drafts e + of_nat (unat n - 1) + (if n = max 1 m then 0 else 1))"
proof (cases "ah_edc a")
  case None
  then show ?thesis
    using assms by (auto simp: decide_draft_length_def Let_def intro: ahasd_wf_cong [THEN iffD2])
next
  case (Some e)
  then have e: "edc_inv e" "ac_enable_edc (ah_config a)" using assms(1) by (auto simp: ahasd_wf_def)
  obtain n e' where l: "draft_loop (\<lambda>g. should_continue_drafting g x) (max 1 m) 1 e = Some (n, e')"
    "edc_inv e'" "1 \<le> n" "n \<le> max 1 m"
    "edc_total_drafts e' = edc_total_drafts e + of_nat (unat n - unat (1 :: u32)) +
       (if n = max 1 m then 0 else 1)"
    using edc_gate.loop_result [of e x 1 "max 1 m"] e(1) assms(2) by auto
  show ?thesis
    using assms(1) Some e l by (auto simp: decide_draft_length_def ahasd_wf_def Let_def)
qed

lemma ahasd_step_wf:
  assumes "ahasd_wf a" "ahasd_op_ok op" "ahasd_step op a = Some a'"
  shows "ahasd_wf a'"
proof (cases op)
  case (DecideDraft m x)
  then show ?thesis using assms decide_draft_length_result [of a x m] by auto
next
  case (DecidePre kv p)
  then show ?thesis
    using assms by (auto simp: decide_pre_verify_def ahasd_wf_def Let_def record_prevented_idle_def
      dest!: should_insert_size split: option.split_asm if_split_asm)
next
  case (VerifyDone fa d ac c kv f)
  obtain a1 a2 where a1: "ahasd_wf a1"
    "on_edc a1 (\<lambda>e. update_on_verification e fa ac) = Some a2"
    "on_tvc a2 (\<lambda>t. record_npu_verification t c kv) = Some a'"
  proof -
    let ?a1 = "if f then a\<lparr> ah_total_verifies := ah_total_verifies a + 1,
       ah_total_verified_draft_tokens := ah_total_verified_draft_tokens a + ucast d,
       ah_total_accepted_tokens := ah_total_accepted_tokens a + ucast ac,
       ah_total_rejected_draft_tokens := ah_total_rejected_draft_tokens a +
         (if ac < d then ucast (d - ac) else 0) \<rparr> else a"
    have "ahasd_wf ?a1" by (rule ahasd_wf_cong [THEN iffD2, OF _ _ _ assms(1)]) simp_all
    moreover obtain a2 where "on_edc ?a1 (\<lambda>e. update_on_verification e fa ac) = Some a2"
      "on_tvc a2 (\<lambda>t. record_npu_verification t c kv) = Some a'"
      using assms(3) VerifyDone by (auto simp: record_verify_result_def Let_def split: option.split_asm)
    ultimately show ?thesis by (rule that)
  qed
  have "ahasd_wf a2"
    by (rule on_edc_wf(1) [OF a1(1,2)]) (metis edc_verify_inv option.inject)
  then show ?thesis by (rule on_tvc_wf(1) [OF _ a1(3)]) (rule tvc_size_kept)
next
  case (DraftDone c l)
  then show ?thesis using assms(3) by (auto simp: record_draft_batch_def tvc_size_kept intro: on_tvc_wf [OF assms(1)])
next
  case (DraftTokens n)
  then show ?thesis using assms by (auto simp: record_draft_tokens_generated_def ahasd_wf_def)
next
  case (PreVerifyDone c l)
  have "ahasd_wf (a\<lparr> ah_total_preverify_tokens := ah_total_preverify_tokens a + ucast l \<rparr>)"
    by (rule ahasd_wf_cong [THEN iffD2, OF _ _ _ assms(1)]) simp_all
  then show ?thesis
    using assms(3) PreVerifyDone by (auto simp: record_pre_verify_def tvc_size_kept intro: on_tvc_wf(1))
next
  case (NpuStart c)
  then show ?thesis using assms(3) by (auto simp: ahasd_start_npu_task_def start_npu_task_def intro: on_tvc_wf [OF assms(1)])
next
  case (NpuCycle c)
  then show ?thesis using assms(3) by (auto simp: cycle_npu_with_progress_def update_npu_progress_def intro: on_tvc_wf [OF assms(1)])
next
  case AhasdReset
  then show ?thesis
    using assms by (auto simp: ahasd_reset_def ahasd_wf_def edc_reset_inv tvc_reset_def split: option.split_asm)
qed

lemma on_tvc_counters: "on_tvc a f = Some a' \<Longrightarrow> counters a' = counters a"
  by (auto simp: on_tvc_def split: option.split_asm if_split_asm)

lemma on_edc_counters: "on_edc a f = Some a' \<Longrightarrow> counters a' = counters a"
  by (auto simp: on_edc_def split: option.split_asm if_split_asm)

text \<open>A final verification adds to the three counters; nothing else but the reset touches them.\<close>

lemma record_verify_counters:
  assumes "record_verify_result a fa d ac c kv f = Some a'"
  shows "counters a' = (if f then
     (ah_total_verified_draft_tokens a + ucast d, ah_total_accepted_tokens a + ucast ac,
      ah_total_rejected_draft_tokens a + (if ac < d then ucast (d - ac) else 0))
     else counters a)"
  using assms unfolding record_verify_result_def Let_def
  by (auto split: option.split_asm dest!: on_tvc_counters on_edc_counters)

lemma ucast_diff:
  assumes "(ac :: u32) \<le> d"
  shows "(ucast d :: u64) = ucast ac + ucast (d - ac)"
proof -
  have "unat d < 2 ^ 32" using unsigned_less [of d, where 'a = nat] by simp
  then show ?thesis
    using assms by (intro word_unat_eq_iff [THEN iffD2])
      (simp add: unat_ucast_wider unat_minus_le unat_plus_if' word_le_nat_alt)
qed

lemma ahasd_step_ledger:
  assumes "ahasd_ledger a" "ahasd_op_ok op" "ahasd_step op a = Some a'"
  shows "ahasd_ledger a'"
proof (cases op)
  case (DecideDraft m x)
  then show ?thesis
    using assms by (auto simp: decide_draft_length_def ahasd_ledger_def Let_def
        split: option.split_asm if_split_asm)
next
  case (DecidePre kv p)
  then show ?thesis
    using assms by (auto simp: decide_pre_verify_def ahasd_ledger_def Let_def
        split: option.split_asm if_split_asm)
next
  case (VerifyDone fa d ac c kv f)
  then have "ac \<le> d" "record_verify_result a fa d ac c kv f = Some a'" using assms(2,3) by auto
  then show ?thesis
    using assms(1) record_verify_counters [of a fa d ac c kv f a'] ucast_diff [of ac d]
    by (auto simp: ahasd_ledger_def split: if_split_asm)
next
  case (PreVerifyDone c l)
  then show ?thesis
    using assms(1,3) by (auto simp: record_pre_verify_def ahasd_ledger_def dest!: on_tvc_counters)
next
  case (DraftTokens n)
  then show ?thesis using assms by (auto simp: record_draft_tokens_generated_def ahasd_ledger_def)
next
  case AhasdReset
  then show ?thesis using assms by (auto simp: ahasd_reset_def ahasd_ledger_def)
qed (use assms in \<open>auto simp: record_draft_batch_def ahasd_start_npu_task_def
    cycle_npu_with_progress_def ahasd_ledger_def dest!: on_tvc_counters\<close>)

interpretation ahasd: partial_invariant ahasd_step "\<lambda>a. ahasd_wf a \<and> ahasd_ledger a" ahasd_op_ok
  by unfold_locales (blast intro: ahasd_step_wf ahasd_step_ledger)

lemma ahasd_init_wf:
  "ac_edc_h_max cfg = FFin h \<Longrightarrow> 0 < h \<Longrightarrow> ahasd_wf (ahasd_init cfg)"
  by (auto simp: ahasd_wf_def ahasd_init_def edc_init_inv tvc_init_def unat_max)

lemma ahasd_init_ledger: "ahasd_ledger (ahasd_init cfg)"
  by (simp add: ahasd_ledger_def ahasd_init_def)

section \<open>Pre-verification\<close>

lemma decide_pre_verify_result:
  assumes "decide_pre_verify a kv pending = Some (n, a')" "n \<noteq> 0"
  shows "ac_min_preverify_length (ah_config a) \<le> pending" "n \<le> ac_pre_verify_max (ah_config a)"
    "n \<le> 8" "n \<le> max 1 (pending - 1)" "ah_total_pre_verifies a' = ah_total_pre_verifies a + 1"
proof -
  obtain t len t' where t: "ah_tvc a = Some t"
    "should_insert_preverification t kv pending = Some ((True, len), t')"
    and n: "n = (let b2 = min (min len (ac_pre_verify_max (ah_config a))) pending in
       if pending \<le> b2 \<and> 1 < pending then pending - 1 else b2)"
    and r: "ac_min_preverify_length (ah_config a) \<le> pending"
      "ah_total_pre_verifies a' = ah_total_pre_verifies a + 1"
    using assms by (auto simp: decide_pre_verify_def Let_def split: option.split_asm if_split_asm)
  have len: "len \<le> 8" "len \<le> pending" using should_insert_True [OF t(2)] by auto
  define b2 where "b2 = min (min len (ac_pre_verify_max (ah_config a))) pending"
  have b2: "b2 \<le> ac_pre_verify_max (ah_config a)" "b2 \<le> 8" "b2 \<le> pending"
    using len by (auto simp: b2_def min_le_iff_disj)
  have n: "n = (if pending \<le> b2 \<and> 1 < pending then pending - 1 else b2)"
    using n by (simp add: b2_def Let_def)
  have nb: "n \<le> b2"
    by (auto simp: n word_le_nat_alt unat_minus_le word_less_nat_alt)
  show "ac_min_preverify_length (ah_config a) \<le> pending"
    "ah_total_pre_verifies a' = ah_total_pre_verifies a + 1" by (rule r)+
  show "n \<le> ac_pre_verify_max (ah_config a)" "n \<le> 8" using nb b2 by (blast intro: order_trans)+
  show "n \<le> max 1 (pending - 1)"
    using b2(3) by (auto simp: n word_le_nat_alt word_less_nat_alt unat_max unat_minus_le)
qed

section \<open>Properties\<close>

text \<open>The drafting control always yields a draft length between 1 and the larger of 1 and
  the requested maximum; it polls the entropy-history control once per extension decided (and
  once more when the control stopped it early); without the control the maximum is used.\<close>

theorem draft_length_bounds:
  assumes "ahasd_wf a" "x \<noteq> FNaN"
  shows "\<exists>n a'. decide_draft_length a m x = Some (n, a') \<and> 1 \<le> unat n \<and> unat n \<le> max 1 (unat m) \<and>
    ahasd_wf a' \<and> ah_total_draft_rounds a' = ah_total_draft_rounds a + 1 \<and>
    (case ah_edc a of None \<Rightarrow> n = max 1 m
     | Some e \<Rightarrow> \<exists>e'. ah_edc a' = Some e' \<and> edc_total_drafts e' =
         edc_total_drafts e + of_nat (unat n - 1) + (if n = max 1 m then 0 else 1))"
proof -
  obtain n a' where r: "decide_draft_length a m x = Some (n, a')" "1 \<le> n" "n \<le> max 1 m" "ahasd_wf a'"
    "ah_total_draft_rounds a' = ah_total_draft_rounds a + 1"
    "case ah_edc a of None \<Rightarrow> n = max 1 m
     | Some e \<Rightarrow> \<exists>e'. ah_edc a' = Some e' \<and> edc_total_drafts e' =
         edc_total_drafts e + of_nat (unat n - 1) + (if n = max 1 m then 0 else 1)"
    using decide_draft_length_result [OF assms, of m] by blast
  have "1 \<le> unat n" "unat n \<le> max 1 (unat m)" using r(2,3) by (simp_all add: word_le_nat_alt unat_max)
  then show ?thesis using r(1,4-6) by blast
qed

lemma draft_length_bounds_witness:
  "\<exists>n a'. decide_draft_length (ahasd_init ahasd_default_config) 8 (FFin 3) = Some (n, a') \<and>
    1 \<le> unat n \<and> unat n \<le> max 1 (unat (8 :: u32))"
  using draft_length_bounds [OF ahasd_init_wf [of ahasd_default_config 10], of "FFin 3" 8]
  by (auto simp: ahasd_default_config_def DEFAULT_H_MAX_def)

text \<open>C23: a pre-verification that is inserted leaves at least one pending draft token for the
  verification, unless only one token is pending, which it then takes; it respects the configured minimum of
  pending tokens and the maximum length, and is counted.\<close>

theorem pre_verify_leaves_work:
  assumes "decide_pre_verify a kv pending = Some (n, a')" "n \<noteq> 0"
  shows "1 \<le> unat n \<and> (n < pending \<or> pending = 1 \<and> n = 1) \<and>
    n \<le> ac_pre_verify_max (ah_config a) \<and> n \<le> 8 \<and>
    ac_min_preverify_length (ah_config a) \<le> pending \<and>
    ah_total_pre_verifies a' = ah_total_pre_verifies a + 1"
proof -
  note r = decide_pre_verify_result [OF assms]
  have "pending \<noteq> 0"
    using assms by (auto simp: decide_pre_verify_def Let_def split: option.split_asm if_split_asm)
  then have p: "0 < unat pending" "unat (pending - 1) = unat pending - 1"
    by (simp_all add: unat_gt_0 unat_minus_one)
  have "unat n \<le> max 1 (unat pending - 1)" using r p by (simp add: word_le_nat_alt unat_max)
  moreover have "0 < unat n" using assms(2) by (simp add: unat_gt_0)
  ultimately have "unat n < unat pending \<or> unat pending = 1 \<and> unat n = 1" using p(1) by linarith
  then have "n < pending \<or> pending = 1 \<and> n = 1" by (simp add: word_less_nat_alt word_unat_eq_iff)
  then show ?thesis using r \<open>0 < unat n\<close> by (simp add: Suc_le_eq)
qed

definition ahasd_ready :: ahasd where
  "ahasd_ready = (ahasd_init ahasd_default_config)\<lparr> ah_tvc := Some (tvc_ready 5) \<rparr>"

lemma ahasd_ready_decides: "\<exists>a'. decide_pre_verify ahasd_ready 100 4 = Some (3, a')"
  by (simp add: decide_pre_verify_def ahasd_ready_def ahasd_init_def ahasd_default_config_def
      tvc_ready_decides Let_def min_def)

lemma pre_verify_leaves_work_witness:
  "\<exists>a'. decide_pre_verify ahasd_ready 100 4 = Some (3, a') \<and> (3 :: u32) < 4"
proof -
  obtain a' where "decide_pre_verify ahasd_ready 100 4 = Some (3, a')"
    using ahasd_ready_decides by blast
  then show ?thesis using pre_verify_leaves_work [of ahasd_ready 100 4 3 a'] by simp
qed

text \<open>C24: over any sequence of operations in which no verification accepts more than was
  drafted, the verified tokens are exactly the accepted and the rejected ones, and every part
  keeps its invariant.\<close>

theorem token_ledger:
  assumes "ac_edc_h_max cfg = FFin h" "0 < h" "list_all ahasd_op_ok ops"
    "run_ops ahasd_step ops (ahasd_init cfg) = Some a"
  shows "ah_total_verified_draft_tokens a =
      ah_total_accepted_tokens a + ah_total_rejected_draft_tokens a \<and> ahasd_wf a"
  using ahasd.run_keeps [OF conjI [OF ahasd_init_wf [OF assms(1,2)] ahasd_init_ledger] assms(3,4)]
  by (simp add: ahasd_ledger_def)

lemma token_ledger_witness:
  "\<exists>a. run_ops ahasd_step [VerifyDone False 8 5 1000 100 True]
       (ahasd_init (ahasd_default_config\<lparr> ac_enable_edc := False \<rparr>)) = Some a \<and>
     ah_total_verified_draft_tokens a =
       ah_total_accepted_tokens a + ah_total_rejected_draft_tokens a"
proof -
  let ?cfg = "ahasd_default_config\<lparr> ac_enable_edc := False \<rparr>"
  obtain a where a: "run_ops ahasd_step [VerifyDone False 8 5 1000 100 True] (ahasd_init ?cfg) = Some a"
    by (simp add: record_verify_result_def on_edc_def on_tvc_def ahasd_init_def tvc_init_def
        ahasd_default_config_def record_npu_verification_def add_to_table_def unat_max
        DEFAULT_CYCLE_TABLE_SIZE_def Let_def)
  have "ac_edc_h_max ?cfg = FFin 10" by (simp add: ahasd_default_config_def DEFAULT_H_MAX_def)
  then show ?thesis using token_ledger [OF _ _ _ a, of 10] a by simp
qed

end
