(* ===== verification/NpuCommon.thy ===== *)
theory NpuCommon
  imports Prelude
begin

text \<open>
  The types shared by the NPU simulator's components, from
  \<^verbatim>\<open>ONNXim/src/Common.h\<close>: the memory access that cores, interconnect,
  DRAM and the PIM back end exchange, and the request and task constants.
\<close>

definition INVALID_REQUEST_ID :: u32 where "INVALID_REQUEST_ID = - 1"
definition SPEC_TASK_NONE :: u32 where "SPEC_TASK_NONE = 0"
definition SPEC_TASK_PROMPT :: u32 where "SPEC_TASK_PROMPT = 1"
definition SPEC_TASK_DRAFT :: u32 where "SPEC_TASK_DRAFT = 2"
definition SPEC_TASK_VERIFY :: u32 where "SPEC_TASK_VERIFY = 3"
definition SPEC_TASK_PRE_VERIFY :: u32 where "SPEC_TASK_PRE_VERIFY = 4"

record mem_access =
  ma_id :: u32
  ma_dram_address :: u64
  ma_spad_address :: u64
  ma_size :: u64
  ma_write :: bool
  ma_request :: bool
  ma_core_id :: u32
  ma_start_cycle :: u64
  ma_dram_enter_cycle :: u64
  ma_dram_finish_cycle :: u64
  ma_buffer_id :: int
  ma_request_id :: u32
  ma_operand_id :: u32
  ma_request_identity_tagged :: bool
  ma_spec_task_type :: u32

text \<open>Decimal numbers as \<^verbatim>\<open>std::stoul\<close> reads them: leading white space, an optional sign, at
  least one digit, anything after the digits ignored; a value above 64 bits is an error and a
  negative one wraps.\<close>

definition is_space :: "char \<Rightarrow> bool" where
  "is_space c \<longleftrightarrow> c = CHR '' '' \<or> (9 \<le> (of_char c :: nat) \<and> (of_char c :: nat) \<le> 13)"

definition is_digit :: "char \<Rightarrow> bool" where
  "is_digit c \<longleftrightarrow> 48 \<le> (of_char c :: nat) \<and> (of_char c :: nat) \<le> 57"

definition digit_val :: "char \<Rightarrow> nat" where
  "digit_val c = (of_char c :: nat) - 48"

definition digits_val :: "string \<Rightarrow> nat" where
  "digits_val ds = foldl (\<lambda>n c. 10 * n + digit_val c) 0 ds"

definition stoul :: "string \<Rightarrow> u64 option" where
  "stoul s =
     (let t = dropWhile is_space s;
          neg = (t \<noteq> [] \<and> hd t = CHR ''-'');
          u = (if t \<noteq> [] \<and> (hd t = CHR ''-'' \<or> hd t = CHR ''+'') then tl t else t);
          ds = takeWhile is_digit u in
      if ds = [] then None
      else if 2 ^ 64 \<le> digits_val ds then None
      else Some (if neg then - of_nat (digits_val ds) else of_nat (digits_val ds)))"

text \<open>\<^verbatim>\<open>std::getline\<close> with a separator; an empty rest yields no token.\<close>

fun split_on :: "char \<Rightarrow> string \<Rightarrow> string \<Rightarrow> string list" where
  "split_on sep acc [] = (if acc = [] then [] else [rev acc])"
| "split_on sep acc (c # cs) = (if c = sep then rev acc # split_on sep [] cs
                                else split_on sep (c # acc) cs)"

end
