(* ===== verification/PimBackend.thy ===== *)
theory PimBackend
  imports NpuCommon SSRC
begin

text \<open>
  The PIM overlay of the NPU simulator's DRAM, \<^verbatim>\<open>ONNXim/src/PIMBackend.cc\<close>
  and its facade \<^verbatim>\<open>ONNXim/src/CoSimDriver.cc\<close>: which channels are PIM
  ranks, the hold deadlines that rank-mode switches and pre-verification
  windows impose on them, and the two bypass paths by which a request never
  reaches DRAM.  The shared SSRC coordinator is threaded through as the
  attached state.
\<close>

section \<open>State\<close>

record pim_config =
  pc_dram_channels :: u32
  pc_core_freq :: u32
  pc_pim_enable :: bool
  pc_pim_channel_mask :: string
  pc_pim_channel_stride :: u32
  pc_pim_clock_mhz :: u32
  pc_pim_enable_aau_fusion :: bool
  pc_pim_aau_fusion_ratio :: fp
  pc_pim_gtsu_switch_ns :: u32
  pc_pim_aau_bypass_ns :: u32
  pc_ssrc_enable :: bool
  pc_ssrc_bypass_ns :: u32

record pim_stats =
  ps_total_pim_requests :: u64
  ps_total_pim_read_requests :: u64
  ps_total_pim_write_requests :: u64
  ps_total_pim_read_bytes :: u64
  ps_total_pim_write_bytes :: u64
  ps_total_attention_class_requests :: u64
  ps_total_aau_fused_events :: u64
  ps_total_aau_fusion_saved_bytes :: u64
  ps_total_gtsu_switches :: u64
  ps_total_gtsu_stall_npu_cycles :: u64
  ps_total_tvc_hold_npu_cycles :: u64
  ps_total_ssrc_bypassed_requests :: u64
  ps_total_ssrc_bypassed_bytes :: u64
  ps_ssrc_tagged_writes_total :: u64
  ps_ssrc_tagged_pim_writes_seen :: u64
  ps_ssrc_rejected_invalid_id :: u64
  ps_ssrc_rejected_not_active :: u64
  ps_pim_cycle :: u64
  ps_last_npu_cycle :: u64

definition pim_stats_init :: pim_stats where
  "pim_stats_init = \<lparr> ps_total_pim_requests = 0, ps_total_pim_read_requests = 0,
     ps_total_pim_write_requests = 0, ps_total_pim_read_bytes = 0, ps_total_pim_write_bytes = 0,
     ps_total_attention_class_requests = 0, ps_total_aau_fused_events = 0,
     ps_total_aau_fusion_saved_bytes = 0, ps_total_gtsu_switches = 0,
     ps_total_gtsu_stall_npu_cycles = 0, ps_total_tvc_hold_npu_cycles = 0,
     ps_total_ssrc_bypassed_requests = 0, ps_total_ssrc_bypassed_bytes = 0,
     ps_ssrc_tagged_writes_total = 0, ps_ssrc_tagged_pim_writes_seen = 0,
     ps_ssrc_rejected_invalid_id = 0, ps_ssrc_rejected_not_active = 0, ps_pim_cycle = 0,
     ps_last_npu_cycle = 0 \<rparr>"

record pim =
  pb_config :: pim_config
  pb_active :: bool
  pb_is_pim :: "bool list"
  pb_hold_until :: "u64 list"
  pb_rank_mode :: "u32 list"
  pb_num_pim_channels :: u32
  pb_npu_to_pim_ratio :: fp
  pb_gtsu_switch_npu_cycles :: u32
  pb_aau_bypass_npu_cycles :: u32
  pb_ssrc_bypass_npu_cycles :: u32
  pb_stats :: pim_stats

section \<open>Construction\<close>

text \<open>The channel mask: the listed channels, or every \<^verbatim>\<open>stride\<close>-th one.\<close>

definition mark_channel :: "bool list \<Rightarrow> string \<Rightarrow> bool list" where
  "mark_channel v tok =
     (if tok = [] then v else
      case stoul tok of None \<Rightarrow> v
      | Some n \<Rightarrow> let cid = unat (ucast n :: u32) in if cid < length v then v[cid := True] else v)"

definition parse_channel_mask :: "u32 \<Rightarrow> string \<Rightarrow> bool list \<Rightarrow> bool list" where
  "parse_channel_mask stride0 msk v =
     (if msk \<noteq> [] then foldl mark_channel v (split_on (CHR '','') [] msk)
      else let stride = max 1 (unat stride0) in
        map (\<lambda>i. if i mod stride = 0 then True else v ! i) [0..<length v])"

text \<open>The latency in NPU cycles of a duration in nanoseconds.\<close>

definition npu_cycles_of_ns :: "u32 \<Rightarrow> u32 \<Rightarrow> u32 option" where
  "npu_cycles_of_ns ns core_freq =
     cast_u32 (fmul b64 (fmul b64 (du64 ns) (flit b64 (1 / 1000000000)))
                        (fmul b64 (du64 core_freq) (FFin 1000000)))"

definition pim_inactive :: "pim_config \<Rightarrow> bool list \<Rightarrow> pim" where
  "pim_inactive cfg v =
     \<lparr> pb_config = cfg, pb_active = False, pb_is_pim = v,
       pb_hold_until = replicate (length v) 0, pb_rank_mode = replicate (length v) 0,
       pb_num_pim_channels = 0, pb_npu_to_pim_ratio = FFin 1, pb_gtsu_switch_npu_cycles = 0,
       pb_aau_bypass_npu_cycles = 0, pb_ssrc_bypass_npu_cycles = 0, pb_stats = pim_stats_init \<rparr>"

definition pim_init :: "pim_config \<Rightarrow> pim option" where
  "pim_init cfg =
     (if \<not> pc_pim_enable cfg then Some (pim_inactive cfg []) else
      let v = parse_channel_mask (pc_pim_channel_stride cfg) (pc_pim_channel_mask cfg)
                (replicate (unat (pc_dram_channels cfg)) False);
          n = length (filter id v) in
      if n = 0 then Some (pim_inactive cfg v) else
      let npu_mhz = fmaxi (FFin 1) (du64 (pc_core_freq cfg));
          pim_mhz = fmaxi (FFin 1) (du64 (pc_pim_clock_mhz cfg)) in
      case npu_cycles_of_ns (pc_pim_gtsu_switch_ns cfg) (pc_core_freq cfg) of None \<Rightarrow> None
      | Some gtsu0 \<Rightarrow>
      case npu_cycles_of_ns (pc_pim_aau_bypass_ns cfg) (pc_core_freq cfg) of None \<Rightarrow> None
      | Some aau \<Rightarrow>
      case npu_cycles_of_ns (pc_ssrc_bypass_ns cfg) (pc_core_freq cfg) of None \<Rightarrow> None
      | Some ssrc0 \<Rightarrow>
      Some ((pim_inactive cfg v)
        \<lparr> pb_active := True, pb_num_pim_channels := of_nat n,
          pb_npu_to_pim_ratio := fdiv b64 pim_mhz npu_mhz,
          pb_gtsu_switch_npu_cycles := (if gtsu0 = 0 then 1 else gtsu0),
          pb_aau_bypass_npu_cycles := aau,
          pb_ssrc_bypass_npu_cycles := (if pc_ssrc_enable cfg \<and> ssrc0 = 0 then 1 else ssrc0) \<rparr>))"

section \<open>Operations\<close>

definition is_pim_channel :: "pim \<Rightarrow> u32 \<Rightarrow> bool" where
  "is_pim_channel p cid \<longleftrightarrow> unat cid < length (pb_is_pim p) \<and> pb_is_pim p ! unat cid"

definition hold_of :: "pim \<Rightarrow> u32 \<Rightarrow> u64" where
  "hold_of p cid = pb_hold_until p ! unat cid"

abbreviation upd_stats :: "pim \<Rightarrow> (pim_stats \<Rightarrow> pim_stats) \<Rightarrow> pim" where
  "upd_stats p f \<equiv> p\<lparr> pb_stats := f (pb_stats p) \<rparr>"

text \<open>A request that a bypass path or the push path accounts for.\<close>

definition count_request :: "mem_access \<Rightarrow> pim_stats \<Rightarrow> pim_stats" where
  "count_request req st =
     (if ma_write req
      then st\<lparr> ps_total_pim_write_requests := ps_total_pim_write_requests st + 1,
              ps_total_pim_write_bytes := ps_total_pim_write_bytes st + ma_size req \<rparr>
      else st\<lparr> ps_total_pim_read_requests := ps_total_pim_read_requests st + 1,
              ps_total_pim_read_bytes := ps_total_pim_read_bytes st + ma_size req \<rparr>)"

definition bump_requests :: "pim_stats \<Rightarrow> pim_stats" where
  "bump_requests st = st\<lparr> ps_total_pim_requests := ps_total_pim_requests st + 1 \<rparr>"

definition bump_attention :: "pim_stats \<Rightarrow> pim_stats" where
  "bump_attention st =
     st\<lparr> ps_total_attention_class_requests := ps_total_attention_class_requests st + 1 \<rparr>"

definition on_dram_push :: "pim \<Rightarrow> u32 \<Rightarrow> mem_access option \<Rightarrow> u64 \<Rightarrow> u32 \<times> pim" where
  "on_dram_push p cid req npu_cycle =
     (if \<not> pb_active p \<or> \<not> is_pim_channel p cid then (0, p) else
      let st1 = bump_requests (pb_stats p);
          st2 = (case req of None \<Rightarrow> st1
                 | Some r \<Rightarrow> let st = count_request r st1 in
                     if ma_request_identity_tagged r then bump_attention st else st);
          hold_until = hold_of p cid in
      if npu_cycle < hold_until then
        let hold = hold_until - npu_cycle in
        (ucast (min hold (ucast (- 1 :: u32))),
         p\<lparr> pb_stats := st2\<lparr> ps_total_gtsu_stall_npu_cycles :=
                               ps_total_gtsu_stall_npu_cycles st2 + hold \<rparr> \<rparr>)
      else (0, p\<lparr> pb_stats := st2 \<rparr>))"

definition try_ssrc_bypass ::
  "pim \<Rightarrow> ssrc option \<Rightarrow> u32 \<Rightarrow> mem_access option \<Rightarrow> bool \<times> pim \<times> ssrc option" where
  "try_ssrc_bypass p dir cid req =
     (if \<not> pb_active p then (False, p, dir) else
      case dir of None \<Rightarrow> (False, p, dir) | Some s \<Rightarrow>
      if \<not> sc_enable (sr_cfg s) then (False, p, dir) else
      case req of None \<Rightarrow> (False, p, dir) | Some r \<Rightarrow>
      let st0 = pb_stats p;
          st = (if ma_write r \<and> ma_request_identity_tagged r
                then st0\<lparr> ps_ssrc_tagged_writes_total := ps_ssrc_tagged_writes_total st0 + 1,
                         ps_ssrc_tagged_pim_writes_seen := ps_ssrc_tagged_pim_writes_seen st0 +
                           (if is_pim_channel p cid then 1 else 0) \<rparr>
                else st0);
          p1 = p\<lparr> pb_stats := st \<rparr> in
      if \<not> is_pim_channel p cid then (False, p1, dir) else
      if \<not> ma_write r \<or> \<not> ma_request_identity_tagged r then (False, p1, dir) else
      if pb_ssrc_bypass_npu_cycles p = 0 then (False, p1, dir) else
      if ma_request_id r = INVALID_REQUEST_ID
      then (False, p\<lparr> pb_stats := st\<lparr> ps_ssrc_rejected_invalid_id :=
               ps_ssrc_rejected_invalid_id st + 1 \<rparr> \<rparr>, dir) else
      if \<not> is_active_request s (ma_request_id r)
      then (False, p\<lparr> pb_stats := st\<lparr> ps_ssrc_rejected_not_active :=
               ps_ssrc_rejected_not_active st + 1 \<rparr> \<rparr>, dir) else
      let st1 = bump_attention (count_request r (bump_requests st)) in
      (True,
       p\<lparr> pb_stats := st1\<lparr> ps_total_ssrc_bypassed_requests := ps_total_ssrc_bypassed_requests st1 + 1,
            ps_total_ssrc_bypassed_bytes := ps_total_ssrc_bypassed_bytes st1 + ma_size r \<rparr> \<rparr>,
       Some (note_bypassed_write s (ma_request_id r) (ma_size r))))"

definition should_apply_aau_fusion :: "pim \<Rightarrow> mem_access option \<Rightarrow> bool" where
  "should_apply_aau_fusion p req \<longleftrightarrow> pc_pim_enable_aau_fusion (pb_config p) \<and>
     (case req of None \<Rightarrow> False | Some r \<Rightarrow> ma_request_identity_tagged r)"

definition try_aau_bypass :: "pim \<Rightarrow> u32 \<Rightarrow> mem_access option \<Rightarrow> (bool \<times> pim) option" where
  "try_aau_bypass p cid req =
     (if \<not> pb_active p \<or> \<not> is_pim_channel p cid then Some (False, p) else
      if \<not> should_apply_aau_fusion p req then Some (False, p) else
      if pb_aau_bypass_npu_cycles p = 0 then Some (False, p) else
      case req of None \<Rightarrow> Some (False, p) | Some r \<Rightarrow>
      let st1 = bump_attention (count_request r (bump_requests (pb_stats p))) in
      case cast_u64 (fmul b64 (du64 (ma_size r))
                              (fcvt b64 (pc_pim_aau_fusion_ratio (pb_config p)))) of
        None \<Rightarrow> None
      | Some saved \<Rightarrow>
        Some (True, p\<lparr> pb_stats := st1\<lparr> ps_total_aau_fused_events := ps_total_aau_fused_events st1 + 1,
          ps_total_aau_fusion_saved_bytes := ps_total_aau_fusion_saved_bytes st1 + saved \<rparr> \<rparr>))"

definition pim_cycle :: "pim \<Rightarrow> u64 \<Rightarrow> pim option" where
  "pim_cycle p npu_cycle =
     (if \<not> pb_active p then Some p else
      case cast_u64 (fmul b64 (du64 npu_cycle) (pb_npu_to_pim_ratio p)) of None \<Rightarrow> None
      | Some c \<Rightarrow> Some (upd_stats p (\<lambda>st. st\<lparr> ps_last_npu_cycle := npu_cycle, ps_pim_cycle := c \<rparr>)))"

definition request_gtsu_switch :: "pim \<Rightarrow> u32 \<Rightarrow> u32 \<Rightarrow> u64 \<Rightarrow> u64 \<times> pim" where
  "request_gtsu_switch p cid new_mode npu_cycle =
     (if \<not> pb_active p \<or> \<not> is_pim_channel p cid then (npu_cycle, p) else
      if pb_rank_mode p ! unat cid = new_mode then (npu_cycle, p) else
      let switch_done = npu_cycle + ucast (pb_gtsu_switch_npu_cycles p) in
      (switch_done,
       p\<lparr> pb_hold_until := (if hold_of p cid < switch_done
            then (pb_hold_until p)[unat cid := switch_done] else pb_hold_until p),
          pb_rank_mode := (pb_rank_mode p)[unat cid := new_mode],
          pb_stats := (pb_stats p)\<lparr> ps_total_gtsu_switches :=
            ps_total_gtsu_switches (pb_stats p) + 1 \<rparr> \<rparr>))"

definition rank_mode :: "pim \<Rightarrow> u32 \<Rightarrow> u32" where
  "rank_mode p cid = (if length (pb_rank_mode p) \<le> unat cid then 0 else pb_rank_mode p ! unat cid)"

definition schedule_hold :: "pim \<Rightarrow> u32 \<Rightarrow> u64 \<Rightarrow> pim" where
  "schedule_hold p cid until =
     (if \<not> pb_active p \<or> \<not> is_pim_channel p cid then p else
      if hold_of p cid < until then
        p\<lparr> pb_hold_until := (pb_hold_until p)[unat cid := until],
          pb_stats := (pb_stats p)\<lparr> ps_total_tvc_hold_npu_cycles :=
            ps_total_tvc_hold_npu_cycles (pb_stats p) + (until - hold_of p cid) \<rparr> \<rparr>
      else p)"

text \<open>The loops over all channels.\<close>

fun hold_loop :: "u64 \<Rightarrow> nat list \<Rightarrow> pim \<Rightarrow> pim" where
  "hold_loop until [] p = p"
| "hold_loop until (cid # cids) p =
     (if \<not> pb_is_pim p ! cid then hold_loop until cids p
      else hold_loop until cids (schedule_hold p (of_nat cid) until))"

definition schedule_hold_all_pim :: "pim \<Rightarrow> u64 \<Rightarrow> pim" where
  "schedule_hold_all_pim p until =
     (if \<not> pb_active p then p else hold_loop until [0..<length (pb_is_pim p)] p)"

fun switch_loop :: "u32 \<Rightarrow> u64 \<Rightarrow> nat list \<Rightarrow> u64 \<Rightarrow> pim \<Rightarrow> u64 \<times> pim" where
  "switch_loop new_mode npu_cycle [] latest p = (latest, p)"
| "switch_loop new_mode npu_cycle (cid # cids) latest p =
     (if \<not> pb_is_pim p ! cid then switch_loop new_mode npu_cycle cids latest p
      else let (fin, p') = request_gtsu_switch p (of_nat cid) new_mode npu_cycle in
        switch_loop new_mode npu_cycle cids (if latest < fin then fin else latest) p')"

definition switch_all_pim_to :: "pim \<Rightarrow> u32 \<Rightarrow> u64 \<Rightarrow> u64 \<times> pim" where
  "switch_all_pim_to p new_mode npu_cycle =
     (if \<not> pb_active p then (npu_cycle, p)
      else switch_loop new_mode npu_cycle [0..<length (pb_is_pim p)] npu_cycle p)"

section \<open>Hold deadlines\<close>

text \<open>The interface of a table of hold deadlines: raising a channel's deadline takes the maximum
  and touches nothing else.\<close>

locale hold_table =
  fixes hold :: "'p \<Rightarrow> u32 \<Rightarrow> u64"
    and chan :: "'p \<Rightarrow> u32 \<Rightarrow> bool"
    and raise :: "'p \<Rightarrow> u32 \<Rightarrow> u64 \<Rightarrow> 'p"
  assumes raise_hold: "chan p c \<Longrightarrow> hold (raise p c u) c = max (hold p c) u"
    and raise_other: "c \<noteq> d \<Longrightarrow> hold (raise p c u) d = hold p d"
    and raise_chan: "chan (raise p c u) d = chan p d"
    and raise_none: "\<not> chan p c \<Longrightarrow> raise p c u = p"
begin

definition raise_all :: "u64 \<Rightarrow> u32 list \<Rightarrow> 'p \<Rightarrow> 'p" where
  "raise_all u cs p = fold (\<lambda>c p. raise p c u) cs p"

lemma raise_all_chan: "chan (raise_all u cs p) d = chan p d"
  by (induction cs arbitrary: p) (simp_all add: raise_all_def raise_chan)

lemma raise_all_hold:
  "hold (raise_all u cs p) d = (if d \<in> set cs \<and> chan p d then max (hold p d) u else hold p d)"
proof (induction cs arbitrary: p)
  case (Cons c cs)
  have "hold (raise p c u) d = (if c = d \<and> chan p d then max (hold p d) u else hold p d)"
    by (cases "c = d"; cases "chan p d") (simp_all add: raise_hold raise_other raise_none)
  then show ?case
    using Cons [of "raise p c u"] by (auto simp: raise_all_def raise_chan max_def)
qed (simp add: raise_all_def)

lemma raise_all_mono: "hold p d \<le> hold (raise_all u cs p) d"
  by (simp add: raise_all_hold)

end

definition pim_wf :: "pim \<Rightarrow> bool" where
  "pim_wf p \<longleftrightarrow> length (pb_hold_until p) = length (pb_is_pim p) \<and>
     length (pb_rank_mode p) = length (pb_is_pim p) \<and> length (pb_is_pim p) < 2 ^ 32"

text \<open>A channel whose deadline can be raised: the table entry exists.\<close>

definition hold_channel :: "pim \<Rightarrow> u32 \<Rightarrow> bool" where
  "hold_channel p cid \<longleftrightarrow> pb_active p \<and> is_pim_channel p cid \<and> unat cid < length (pb_hold_until p)"

definition raise_hold_of :: "pim \<Rightarrow> u32 \<Rightarrow> u64 \<Rightarrow> pim" where
  "raise_hold_of p cid until = (if hold_channel p cid then schedule_hold p cid until else p)"

interpretation holds: hold_table hold_of hold_channel raise_hold_of
  by unfold_locales
     (auto simp: raise_hold_of_def schedule_hold_def hold_of_def hold_channel_def is_pim_channel_def
       max_def nth_list_update word_unat_eq_iff)

lemma schedule_hold_raise: "pim_wf p \<Longrightarrow> schedule_hold p cid until = raise_hold_of p cid until"
  by (auto simp: raise_hold_of_def schedule_hold_def hold_channel_def is_pim_channel_def pim_wf_def)

lemma schedule_hold_keeps:
  "pb_is_pim (schedule_hold p c u) = pb_is_pim p" "pb_active (schedule_hold p c u) = pb_active p"
  "pim_wf p \<Longrightarrow> pim_wf (schedule_hold p c u)"
  by (simp_all add: schedule_hold_def pim_wf_def)

lemma hold_loop_raise_all:
  assumes "pim_wf p" "pb_active p" "\<forall>c\<in>set cids. c < length (pb_is_pim p)"
  shows "hold_loop until cids p = holds.raise_all until (map of_nat cids) p"
  using assms
proof (induction cids arbitrary: p)
  case (Cons c cids)
  have c: "c < 2 ^ 32" using Cons.prems by (simp add: pim_wf_def)
  then have u: "unat (of_nat c :: u32) = c" by simp
  show ?case
  proof (cases "pb_is_pim p ! c")
    case True
    then show ?thesis
      using Cons by (simp add: holds.raise_all_def schedule_hold_keeps flip: schedule_hold_raise)
  next
    case False
    then have "\<not> hold_channel p (of_nat c)" using u by (simp add: hold_channel_def is_pim_channel_def)
    then have "raise_hold_of p (of_nat c) until = p" by (simp add: raise_hold_of_def)
    then show ?thesis using False Cons by (simp add: holds.raise_all_def)
  qed
qed (simp add: holds.raise_all_def)

lemma all_channels: "pim_wf p \<Longrightarrow> is_pim_channel p d \<Longrightarrow>
   d \<in> set (map of_nat [0..<length (pb_is_pim p)] :: u32 list)"
  by (auto simp: is_pim_channel_def image_iff intro!: bexI [of _ "unat d"])

lemma schedule_hold_all_hold:
  assumes "pim_wf p" "pb_active p"
  shows "hold_of (schedule_hold_all_pim p until) d =
    (if is_pim_channel p d then max (hold_of p d) until else hold_of p d)"
proof -
  have "schedule_hold_all_pim p until =
      holds.raise_all until (map of_nat [0..<length (pb_is_pim p)]) p"
    using hold_loop_raise_all [OF assms] assms(2) by (simp add: schedule_hold_all_pim_def)
  moreover have "hold_channel p d = is_pim_channel p d"
    using assms by (auto simp: hold_channel_def is_pim_channel_def pim_wf_def)
  ultimately show ?thesis
    using all_channels [OF assms(1), of d] by (auto simp: holds.raise_all_hold)
qed

section \<open>Switching the rank mode\<close>

lemma request_gtsu_switch_keeps:
  assumes "request_gtsu_switch p c m t = (fin, p')"
  shows "pb_is_pim p' = pb_is_pim p" "pb_active p' = pb_active p"
    "pb_gtsu_switch_npu_cycles p' = pb_gtsu_switch_npu_cycles p" "pim_wf p \<Longrightarrow> pim_wf p'"
  using assms by (auto simp: request_gtsu_switch_def pim_wf_def Let_def split: if_split_asm)

lemma request_gtsu_switch_channel:
  assumes "pim_wf p" "pb_active p" "request_gtsu_switch p c m t = (fin, p')"
  shows "hold_of p' d = (if d = c \<and> is_pim_channel p c \<and> rank_mode p c \<noteq> m
      then max (hold_of p d) (t + ucast (pb_gtsu_switch_npu_cycles p)) else hold_of p d)"
    "rank_mode p' d = (if d = c \<and> is_pim_channel p c then m else rank_mode p d)"
    "fin = (if is_pim_channel p c \<and> rank_mode p c \<noteq> m
      then t + ucast (pb_gtsu_switch_npu_cycles p) else t)"
  using assms
  by (auto simp: request_gtsu_switch_def hold_of_def rank_mode_def is_pim_channel_def pim_wf_def
      Let_def max_def nth_list_update word_unat_eq_iff split: if_split_asm)

lemma switch_loop_result:
  assumes "pim_wf p" "pb_active p" "\<forall>c\<in>set cids. c < length (pb_is_pim p)"
    "switch_loop m t cids latest p = (fin, p')"
  shows "pim_wf p' \<and> pb_active p' \<and> pb_is_pim p' = pb_is_pim p \<and> latest \<le> fin \<and>
    (\<forall>d. rank_mode p' d = (if is_pim_channel p d \<and> unat d \<in> set cids then m else rank_mode p d)) \<and>
    (\<forall>d. hold_of p d \<le> hold_of p' d) \<and>
    (\<forall>d. is_pim_channel p d \<and> unat d \<in> set cids \<and> rank_mode p d \<noteq> m \<longrightarrow>
       t + ucast (pb_gtsu_switch_npu_cycles p) \<le> hold_of p' d \<and>
       t + ucast (pb_gtsu_switch_npu_cycles p) \<le> fin)"
  using assms
proof (induction cids arbitrary: p latest)
  case (Cons c cids)
  have "c < 2 ^ 32" using Cons.prems(1,3) by (simp add: pim_wf_def)
  then have u: "unat (of_nat c :: u32) = c" by simp
  show ?case
  proof (cases "pb_is_pim p ! c")
    case False
    then have "switch_loop m t cids latest p = (fin, p')" using Cons.prems(4) by simp
    moreover have "is_pim_channel p d \<Longrightarrow> unat d \<noteq> c" for d
      using False by (auto simp: is_pim_channel_def)
    ultimately show ?thesis using Cons.IH [of p latest] Cons.prems(1-3) by auto
  next
    case True
    obtain f1 p1 where r: "request_gtsu_switch p (of_nat c) m t = (f1, p1)"
      by (cases "request_gtsu_switch p (of_nat c) m t")
    note keep = request_gtsu_switch_keeps [OF r]
    note ch = request_gtsu_switch_channel [OF Cons.prems(1,2) r]
    have run: "switch_loop m t cids (if latest < f1 then f1 else latest) p1 = (fin, p')"
      using Cons.prems(4) True r by simp
    have pim: "is_pim_channel p1 d = is_pim_channel p d" for d
      by (simp add: is_pim_channel_def keep)
    have ceq: "unat d = c \<longleftrightarrow> d = of_nat c" for d :: u32
      using u by (auto simp: word_unat_eq_iff)
    note IH = Cons.IH [OF keep(4) _ _ run]
    have A: "pim_wf p' \<and> pb_active p' \<and> pb_is_pim p' = pb_is_pim p1 \<and>
       (if latest < f1 then f1 else latest) \<le> fin \<and>
      (\<forall>d. rank_mode p' d = (if is_pim_channel p1 d \<and> unat d \<in> set cids then m else rank_mode p1 d)) \<and>
      (\<forall>d. hold_of p1 d \<le> hold_of p' d) \<and>
      (\<forall>d. is_pim_channel p1 d \<and> unat d \<in> set cids \<and> rank_mode p1 d \<noteq> m \<longrightarrow>
         t + ucast (pb_gtsu_switch_npu_cycles p1) \<le> hold_of p' d \<and>
         t + ucast (pb_gtsu_switch_npu_cycles p1) \<le> fin)"
      using IH Cons.prems(1-3) keep by simp
    have mono: "hold_of p d \<le> hold_of p1 d" for d using ch(1) [of d] by auto
    have "latest \<le> fin" "f1 \<le> fin" using A by (auto split: if_split_asm)
    moreover have "rank_mode p' d =
        (if is_pim_channel p d \<and> unat d \<in> set (c # cids) then m else rank_mode p d)" for d
      using A ch(2) [of d] ceq [of d] by (auto simp: pim)
    moreover have "hold_of p d \<le> hold_of p' d" for d using A mono order_trans by blast
    moreover have "t + ucast (pb_gtsu_switch_npu_cycles p) \<le> hold_of p' d \<and>
        t + ucast (pb_gtsu_switch_npu_cycles p) \<le> fin"
      if d: "is_pim_channel p d" "unat d \<in> set (c # cids)" "rank_mode p d \<noteq> m" for d
    proof (cases "d = of_nat c")
      case True
      then have "t + ucast (pb_gtsu_switch_npu_cycles p) \<le> hold_of p1 d"
        "f1 = t + ucast (pb_gtsu_switch_npu_cycles p)"
        using d ch(1) [of d] ch(3) by auto
      then show ?thesis using A \<open>f1 \<le> fin\<close> order_trans by blast
    next
      case False
      then have "unat d \<in> set cids" "rank_mode p1 d \<noteq> m" using d ch(2) [of d] ceq by auto
      then show ?thesis using A d(1) keep(3) pim by auto
    qed
    ultimately show ?thesis using A keep by auto
  qed
qed simp

section \<open>The request counters\<close>

text \<open>Every counted request is a read or a write.\<close>

definition pim_balanced :: "pim \<Rightarrow> bool" where
  "pim_balanced p \<longleftrightarrow> ps_total_pim_requests (pb_stats p) =
     ps_total_pim_read_requests (pb_stats p) + ps_total_pim_write_requests (pb_stats p)"

text \<open>What the back end counts as bypassed is what the coordinator noted.\<close>

definition bypass_agrees :: "pim \<Rightarrow> ssrc \<Rightarrow> bool" where
  "bypass_agrees p s \<longleftrightarrow>
     ps_total_ssrc_bypassed_requests (pb_stats p) = ss_total_bypassed_writes (sr_stats s) \<and>
     ps_total_ssrc_bypassed_bytes (pb_stats p) = ss_total_bypassed_write_bytes (sr_stats s)"

lemma count_request_simps [simp]:
  "ps_total_pim_requests (count_request r st) = ps_total_pim_requests st"
  "ps_total_pim_read_requests (count_request r st) + ps_total_pim_write_requests (count_request r st)
    = ps_total_pim_read_requests st + ps_total_pim_write_requests st + 1"
  "ps_total_ssrc_bypassed_requests (count_request r st) = ps_total_ssrc_bypassed_requests st"
  "ps_total_ssrc_bypassed_bytes (count_request r st) = ps_total_ssrc_bypassed_bytes st"
  by (simp_all add: count_request_def)

lemma bump_simps [simp]:
  "ps_total_pim_requests (bump_requests st) = ps_total_pim_requests st + 1"
  "ps_total_pim_read_requests (bump_requests st) = ps_total_pim_read_requests st"
  "ps_total_pim_write_requests (bump_requests st) = ps_total_pim_write_requests st"
  "ps_total_ssrc_bypassed_requests (bump_requests st) = ps_total_ssrc_bypassed_requests st"
  "ps_total_ssrc_bypassed_bytes (bump_requests st) = ps_total_ssrc_bypassed_bytes st"
  "ps_total_pim_requests (bump_attention st) = ps_total_pim_requests st"
  "ps_total_pim_read_requests (bump_attention st) = ps_total_pim_read_requests st"
  "ps_total_pim_write_requests (bump_attention st) = ps_total_pim_write_requests st"
  "ps_total_ssrc_bypassed_requests (bump_attention st) = ps_total_ssrc_bypassed_requests st"
  "ps_total_ssrc_bypassed_bytes (bump_attention st) = ps_total_ssrc_bypassed_bytes st"
  by (simp_all add: bump_requests_def bump_attention_def)

lemma push_balanced:
  "pim_balanced p \<Longrightarrow> pim_balanced (snd (on_dram_push p cid (Some r) t))"
  by (auto simp: on_dram_push_def pim_balanced_def Let_def algebra_simps)

lemma ssrc_bypass_balanced:
  "pim_balanced p \<Longrightarrow> try_ssrc_bypass p dir cid req = (b, p', dir') \<Longrightarrow> pim_balanced p'"
  by (auto simp: try_ssrc_bypass_def pim_balanced_def Let_def algebra_simps
      split: option.split_asm if_split_asm)

lemma aau_bypass_balanced:
  "pim_balanced p \<Longrightarrow> try_aau_bypass p cid req = Some (b, p') \<Longrightarrow> pim_balanced p'"
  by (auto simp: try_aau_bypass_def pim_balanced_def Let_def algebra_simps
      split: option.split_asm if_split_asm)

section \<open>Sequences of operations\<close>

datatype pim_op =
  Push u32 mem_access u64 | SsrcBypass u32 mem_access | AauBypass u32 mem_access
| PimCycle u64 | Switch u32 u32 u64 | Hold u32 u64 | SsrcOp ssrc_op

fun pim_step :: "pim_op \<Rightarrow> pim \<times> ssrc \<Rightarrow> (pim \<times> ssrc) option" where
  "pim_step (Push c r t) (p, s) = Some (snd (on_dram_push p c (Some r) t), s)"
| "pim_step (SsrcBypass c r) (p, s) = (case try_ssrc_bypass p (Some s) c (Some r) of
     (b, p', dir) \<Rightarrow> map_option (\<lambda>s'. (p', s')) dir)"
| "pim_step (AauBypass c r) (p, s) = map_option (\<lambda>(b, p'). (p', s)) (try_aau_bypass p c (Some r))"
| "pim_step (PimCycle t) (p, s) = map_option (\<lambda>p'. (p', s)) (pim_cycle p t)"
| "pim_step (Switch c m t) (p, s) = Some (snd (request_gtsu_switch p c m t), s)"
| "pim_step (Hold c u) (p, s) = Some (schedule_hold p c u, s)"
| "pim_step (SsrcOp op) (p, s) = Some (p, ssrc_exec op s)"

fun pim_op_ok :: "pim_op \<Rightarrow> bool" where
  "pim_op_ok (SsrcOp (Note i b)) = False"
| "pim_op_ok _ = True"

lemma ssrc_exec_bypass_stats:
  assumes "\<And>i b. op \<noteq> Note i b"
  shows "ss_total_bypassed_writes (sr_stats (ssrc_exec op s)) = ss_total_bypassed_writes (sr_stats s)"
    "ss_total_bypassed_write_bytes (sr_stats (ssrc_exec op s)) = ss_total_bypassed_write_bytes (sr_stats s)"
  using assms
  by (cases op; simp add: should_defer_round_def on_round_verified_def abort_request_def Let_def
      split: option.split)+

lemma ssrc_bypass_agrees:
  assumes "bypass_agrees p s" "try_ssrc_bypass p (Some s) c (Some r) = (b, p', dir)"
  shows "\<exists>s'. dir = Some s' \<and> bypass_agrees p' s'"
  using assms
  by (auto simp: try_ssrc_bypass_def bypass_agrees_def note_bypassed_write_def is_active_request_def
      Let_def split: if_split_asm)

lemma pim_step_keeps:
  assumes "pim_balanced (fst ps) \<and> bypass_agrees (fst ps) (snd ps)" "pim_op_ok op"
    "pim_step op ps = Some ps'"
  shows "pim_balanced (fst ps') \<and> bypass_agrees (fst ps') (snd ps')"
proof -
  obtain p s where ps: "ps = (p, s)" by (cases ps)
  show ?thesis
  proof (cases op)
    case (Push c r t)
    then show ?thesis using assms push_balanced [of p c r t]
      by (auto simp: ps bypass_agrees_def on_dram_push_def Let_def)
  next
    case (SsrcBypass c r)
    then show ?thesis
      using assms ssrc_bypass_balanced ssrc_bypass_agrees
      by (fastforce simp: ps split: prod.split_asm)
  next
    case (AauBypass c r)
    then show ?thesis
      using assms aau_bypass_balanced
      by (auto simp: ps bypass_agrees_def)
         (auto simp: try_aau_bypass_def Let_def split: option.split_asm if_split_asm)
  next
    case (Switch c m t)
    then show ?thesis
      using assms by (auto simp: ps pim_balanced_def bypass_agrees_def request_gtsu_switch_def Let_def)
  next
    case (Hold c u)
    then show ?thesis
      using assms by (auto simp: ps pim_balanced_def bypass_agrees_def schedule_hold_def)
  next
    case (PimCycle t)
    then show ?thesis
      using assms by (auto simp: ps pim_cycle_def pim_balanced_def bypass_agrees_def
          split: option.split_asm if_split_asm)
  next
    case (SsrcOp o1)
    then have "\<And>i b. o1 \<noteq> Note i b" using assms(2) by auto
    then show ?thesis
      using assms SsrcOp by (auto simp: ps bypass_agrees_def ssrc_exec_bypass_stats)
  qed
qed

interpretation pim: partial_invariant pim_step
  "\<lambda>ps. pim_balanced (fst ps) \<and> bypass_agrees (fst ps) (snd ps)" pim_op_ok
  by unfold_locales (rule pim_step_keeps)

lemma unat_max_u32: "unat (- 1 :: u32) = 2 ^ 32 - 1"
  by (simp add: unsigned_minus_1_eq_mask mask_eq_exp_minus_1)

lemma switch_loop_same_mode:
  assumes "pb_active p" "\<forall>c\<in>set cids. c < length (pb_is_pim p) \<and> c < 2 ^ 32"
    "\<forall>d. is_pim_channel p d \<longrightarrow> rank_mode p d = m" "pim_wf p"
  shows "switch_loop m t cids latest p = (if cids \<noteq> [] \<and> latest < t \<and> (\<exists>c\<in>set cids. pb_is_pim p ! c)
    then t else latest, p)"
  using assms
proof (induction cids arbitrary: latest)
  case (Cons c cids)
  have u: "unat (of_nat c :: u32) = c" using Cons.prems(2) by simp
  show ?case
  proof (cases "pb_is_pim p ! c")
    case True
    then have ch: "is_pim_channel p (of_nat c)" using Cons.prems(2) u by (simp add: is_pim_channel_def)
    then have "pb_rank_mode p ! c = m"
      using Cons.prems(3)[rule_format, OF ch] ch Cons.prems(4) u
      by (simp add: rank_mode_def is_pim_channel_def pim_wf_def)
    then have "request_gtsu_switch p (of_nat c) m t = (t, p)" using u by (simp add: request_gtsu_switch_def)
    then show ?thesis using True Cons by auto
  next
    case False
    then show ?thesis using Cons by auto
  qed
qed simp

lemma pim_inactive_wf: "length v < 2 ^ 32 \<Longrightarrow> pim_wf (pim_inactive cfg v)"
  by (simp add: pim_wf_def pim_inactive_def)

lemma length_mark_channel [simp]: "length (mark_channel v tok) = length v"
  by (simp add: mark_channel_def Let_def split: option.split)

lemma length_foldl_mark: "length (foldl mark_channel v toks) = length v"
  by (induction toks arbitrary: v) simp_all

lemma length_parse_channel_mask: "length (parse_channel_mask st msk v) = length v"
  by (simp add: parse_channel_mask_def length_foldl_mark Let_def)

lemma pim_init_wf:
  assumes "pim_init cfg = Some p"
  shows "pim_wf p" "pb_stats p = pim_stats_init"
proof -
  let ?v = "parse_channel_mask (pc_pim_channel_stride cfg) (pc_pim_channel_mask cfg)
    (replicate (unat (pc_dram_channels cfg)) False)"
  have l: "length ?v < 2 ^ 32"
    using unsigned_less [of "pc_dram_channels cfg", where 'a = nat] by (simp add: length_parse_channel_mask)
  have nil: "length ([] :: bool list) < 2 ^ 32" by simp
  show "pim_wf p"
    using assms pim_inactive_wf [OF l, of cfg] pim_inactive_wf [OF nil, of cfg] unfolding pim_init_def Let_def
    by (auto simp: pim_wf_def split: option.split_asm if_split_asm)
  show "pb_stats p = pim_stats_init"
    using assms unfolding pim_init_def Let_def
    by (auto simp: pim_inactive_def split: option.split_asm if_split_asm)
qed

text \<open>The hold statistics add the distance from the previous deadline, not from the current
  cycle: the first hold of a channel counts everything since cycle 0.\<close>

definition pim_sample :: pim where
  "pim_sample = (pim_inactive \<lparr> pc_dram_channels = 2, pc_core_freq = 1000, pc_pim_enable = True,
      pc_pim_channel_mask = [], pc_pim_channel_stride = 2, pc_pim_clock_mhz = 800,
      pc_pim_enable_aau_fusion = True, pc_pim_aau_fusion_ratio = FFin (3 / 4),
      pc_pim_gtsu_switch_ns = 55, pc_pim_aau_bypass_ns = 18, pc_ssrc_enable = False,
      pc_ssrc_bypass_ns = 10 \<rparr> [True, False])
    \<lparr> pb_active := True, pb_num_pim_channels := 1, pb_gtsu_switch_npu_cycles := 55,
      pb_aau_bypass_npu_cycles := 18 \<rparr>"

lemma pim_sample_wf: "pim_wf pim_sample" "pb_active pim_sample" "is_pim_channel pim_sample 0"
  by (simp_all add: pim_wf_def pim_sample_def pim_inactive_def is_pim_channel_def)

lemma first_hold_counts_from_zero:
  "ps_total_tvc_hold_npu_cycles (pb_stats (schedule_hold pim_sample 0 1000100)) = 1000100"
  by (simp add: pim_sample_def pim_inactive_def schedule_hold_def is_pim_channel_def hold_of_def
      pim_stats_init_def word_less_nat_alt)

section \<open>Properties\<close>

text \<open>C25: from construction on, over any interleaving of DRAM pushes, bypasses, mode switches,
  holds and coordinator operations, every PIM request is counted as exactly one read or write, and
  the bypassed writes and bytes the back end reports are exactly those the coordinator noted.\<close>

theorem pim_counters_agree:
  assumes "pim_init cfg = Some p0" "list_all pim_op_ok ops"
    "run_ops pim_step ops (p0, ssrc_init scfg) = Some (p, s)"
  shows "ps_total_pim_requests (pb_stats p) =
      ps_total_pim_read_requests (pb_stats p) + ps_total_pim_write_requests (pb_stats p) \<and>
    ps_total_ssrc_bypassed_requests (pb_stats p) = ss_total_bypassed_writes (sr_stats s) \<and>
    ps_total_ssrc_bypassed_bytes (pb_stats p) = ss_total_bypassed_write_bytes (sr_stats s)"
proof -
  have "pim_balanced p0 \<and> bypass_agrees p0 (ssrc_init scfg)"
    by (simp add: pim_balanced_def bypass_agrees_def pim_init_wf(2) [OF assms(1)] pim_stats_init_def
        ssrc_init_def)
  then show ?thesis
    using pim.run_keeps [OF _ assms(2,3)] by (simp add: pim_balanced_def bypass_agrees_def)
qed

text \<open>A back end of two channels, the first of them PIM, with the bypass of deferred writes enabled; request 7 has
  deferred its round.  Of its two writes one is bypassed and one pushed.\<close>

definition pim_on_cfg :: pim_config where
  "pim_on_cfg = (pb_config pim_sample)\<lparr> pc_ssrc_enable := True, pc_core_freq := 0, pc_ssrc_bypass_ns := 0,
     pc_pim_gtsu_switch_ns := 0, pc_pim_aau_bypass_ns := 0 \<rparr>"

definition tagged_access :: "bool \<Rightarrow> mem_access" where
  "tagged_access w = \<lparr> ma_id = 0, ma_dram_address = 0, ma_spad_address = 0, ma_size = 32, ma_write = w,
     ma_request = True, ma_core_id = 0, ma_start_cycle = 0, ma_dram_enter_cycle = 0, ma_dram_finish_cycle = 0,
     ma_buffer_id = 0, ma_request_id = 7, ma_operand_id = 0, ma_request_identity_tagged = True, ma_spec_task_type = 0 \<rparr>"

definition mixed_ops :: "pim_op list" where
  "mixed_ops = [SsrcOp (Defer 7 1 4 (FFin 8)), Push 0 (tagged_access False) 10, SsrcBypass 0 (tagged_access True),
     Push 0 (tagged_access True) 20, Switch 0 1 50]"

lemma no_time_no_cycles: "npu_cycles_of_ns 0 0 = Some 0"
proof -
  obtain q where "flit b64 (1 / 1000000000) = FFin q"
    using to_fp_bounded [of "1 / 1000000000" 1 b64] by auto
  then show ?thesis by (simp add: npu_cycles_of_ns_def)
qed

lemma pim_on_init:
  "\<exists>p. pim_init pim_on_cfg = Some p \<and> pb_active p \<and> pb_ssrc_bypass_npu_cycles p = 1 \<and> pb_is_pim p = [True, False]
     \<and> pb_stats p = pim_stats_init \<and> pb_hold_until p = [0, 0] \<and> pb_rank_mode p = [0, 0]"
  by (simp add: pim_init_def pim_on_cfg_def pim_sample_def pim_inactive_def no_time_no_cycles parse_channel_mask_def
     upt_rec Let_def)

lemma mixed_run:
  assumes "pb_active p" "pb_ssrc_bypass_npu_cycles p = 1" "pb_is_pim p = [True, False]"
    "pb_stats p = pim_stats_init" "pb_hold_until p = [0, 0]" "pb_rank_mode p = [0, 0]"
  shows "\<exists>p' s. run_ops pim_step mixed_ops (p, ssrc_init ssrc_sample_cfg) = Some (p', s) \<and>
    ps_total_pim_requests (pb_stats p') = 3 \<and> ps_total_ssrc_bypassed_requests (pb_stats p') = 1 \<and>
    ps_total_ssrc_bypassed_bytes (pb_stats p') = 32"
proof -
  obtain q where d: "should_defer_round (ssrc_init ssrc_sample_cfg) 7 1 4 (FFin 8) = (True, q)" "is_active_request q 7"
     "sc_enable (sr_cfg q)"
    by (simp add: should_defer_round_def ssrc_init_def ssrc_sample_cfg_def ssrc_default_config_def is_active_request_def)
  show ?thesis using assms
    by (simp add: mixed_ops_def d on_dram_push_def try_ssrc_bypass_def is_pim_channel_def hold_of_def tagged_access_def
       request_gtsu_switch_def count_request_def bump_requests_def bump_attention_def Let_def pim_stats_init_def
       INVALID_REQUEST_ID_def)
qed

lemma pim_counters_agree_witness:
  "\<exists>p0 p s. pim_init pim_on_cfg = Some p0 \<and> run_ops pim_step mixed_ops (p0, ssrc_init ssrc_sample_cfg) = Some (p, s) \<and>
    ps_total_pim_read_requests (pb_stats p) + ps_total_pim_write_requests (pb_stats p) = 3 \<and>
    ss_total_bypassed_writes (sr_stats s) = 1 \<and> ss_total_bypassed_write_bytes (sr_stats s) = 32"
proof -
  obtain p0 where p0: "pim_init pim_on_cfg = Some p0" "pb_active p0" "pb_ssrc_bypass_npu_cycles p0 = 1"
    "pb_is_pim p0 = [True, False]" "pb_stats p0 = pim_stats_init" "pb_hold_until p0 = [0, 0]" "pb_rank_mode p0 = [0, 0]"
    using pim_on_init by blast
  obtain p s where r: "run_ops pim_step mixed_ops (p0, ssrc_init ssrc_sample_cfg) = Some (p, s)"
    "ps_total_pim_requests (pb_stats p) = 3" "ps_total_ssrc_bypassed_requests (pb_stats p) = 1"
    "ps_total_ssrc_bypassed_bytes (pb_stats p) = 32"
    using mixed_run [OF p0(2-7)] by blast
  have "list_all pim_op_ok mixed_ops" by (simp add: mixed_ops_def)
  from pim_counters_agree [OF p0(1) this r(1)] r p0(1) show ?thesis by (intro exI [of _ p0] exI [of _ p] exI [of _ s]) simp
qed

text \<open>C26: after a hold was scheduled on all PIM channels, a request pushed to any PIM channel
  before the deadline is held at least until the deadline (deadlines up to 32 bits ahead).\<close>

theorem hold_covers_pushes:
  assumes "pim_wf p" "pb_active p" "is_pim_channel p cid" "t < until" "until - t \<le> ucast (- 1 :: u32)"
    "on_dram_push (schedule_hold_all_pim p until) cid req t = (r, p')"
  shows "unat until \<le> unat t + unat r"
proof -
  let ?q = "schedule_hold_all_pim p until"
  define H where "H = max (hold_of p cid) until"
  have q: "hold_of ?q cid = H"
    using schedule_hold_all_hold [OF assms(1,2)] assms(3) by (simp add: H_def)
  have "holds.raise_all until (map of_nat [0..<length (pb_is_pim p)]) p = ?q"
    using hold_loop_raise_all [OF assms(1,2)] assms(2) by (simp add: schedule_hold_all_pim_def)
  then have "hold_channel ?q cid = hold_channel p cid" using holds.raise_all_chan by metis
  then have ch: "pb_active ?q" "is_pim_channel ?q cid"
    using assms(1-3) by (auto simp: hold_channel_def is_pim_channel_def pim_wf_def)
  have "until \<le> H" by (simp add: H_def)
  then have tH: "t < H" using assms(4) by simp
  then have r: "r = ucast (min (H - t) (ucast (- 1 :: u32)))"
    using assms(6) ch by (auto simp: on_dram_push_def q Let_def)
  let ?m = "min (H - t) (ucast (- 1 :: u32))"
  have "until - t \<le> H - t"
    using \<open>until \<le> H\<close> assms(4) tH by (simp add: word_le_nat_alt word_less_nat_alt unat_minus_le)
  then have m: "until - t \<le> ?m" using assms(5) by simp
  have "unat ?m \<le> unat (ucast (- 1 :: u32) :: u64)" by (simp add: unat_min)
  also have "\<dots> = 2 ^ 32 - 1" by (simp add: unat_ucast_wider unat_max_u32)
  finally have "unat r = unat ?m" unfolding r by (simp add: unsigned_ucast_eq take_bit_nat_eq_self)
  moreover have "unat (until - t) = unat until - unat t"
    using assms(4) by (simp add: unat_minus_le)
  ultimately show ?thesis using m by (simp add: word_le_nat_alt)
qed

lemma hold_covers_pushes_witness:
  "unat (100 :: u64) \<le> unat (40 :: u64) +
     unat (fst (on_dram_push (schedule_hold_all_pim pim_sample 100) 0 None 40))"
  by (rule hold_covers_pushes [OF pim_sample_wf, of 40 100 None _
        "snd (on_dram_push (schedule_hold_all_pim pim_sample 100) 0 None 40)"])
     (simp_all add: word_less_nat_alt word_le_nat_alt unat_ucast_wider unat_max_u32)

text \<open>Switching all PIM ranks puts every PIM channel in the new mode, keeps every other
  channel's, never shortens a hold, holds each switched channel until its switch is complete, and
  returns the time by which all are; repeating the switch changes nothing.\<close>

theorem switch_all_complete:
  assumes "pim_wf p" "pb_active p" "switch_all_pim_to p m t = (fin, p')"
  shows "t \<le> fin \<and> switch_all_pim_to p' m t' = (t', p') \<and>
    (\<forall>d. rank_mode p' d = (if is_pim_channel p d then m else rank_mode p d)) \<and>
    (\<forall>d. hold_of p d \<le> hold_of p' d) \<and>
    (\<forall>d. is_pim_channel p d \<and> rank_mode p d \<noteq> m \<longrightarrow>
       t + ucast (pb_gtsu_switch_npu_cycles p) \<le> hold_of p' d \<and>
       t + ucast (pb_gtsu_switch_npu_cycles p) \<le> fin)"
proof -
  let ?cids = "[0..<length (pb_is_pim p)]"
  have run: "switch_loop m t ?cids t p = (fin, p')" using assms(2,3) by (simp add: switch_all_pim_to_def)
  have "\<forall>c\<in>set ?cids. c < length (pb_is_pim p)" by simp
  note R = switch_loop_result [OF assms(1,2) this run]
  have mem: "is_pim_channel p d \<Longrightarrow> unat d \<in> set ?cids" for d by (simp add: is_pim_channel_def)
  have modes: "rank_mode p' d = (if is_pim_channel p d then m else rank_mode p d)" for d
    using R mem by auto
  have "is_pim_channel p' d = is_pim_channel p d" for d using R by (simp add: is_pim_channel_def)
  then have "switch_all_pim_to p' m t' = (t', p')"
  proof -
    assume pc: "\<And>d. is_pim_channel p' d = is_pim_channel p d"
    have md: "\<forall>d. is_pim_channel p' d \<longrightarrow> rank_mode p' d = m" by (simp add: modes pc)
    have "switch_loop m t' [0..<length (pb_is_pim p')] t' p' =
        (if [0..<length (pb_is_pim p')] \<noteq> [] \<and> t' < t' \<and> (\<exists>c\<in>set [0..<length (pb_is_pim p')]. pb_is_pim p' ! c)
         then t' else t', p')"
      using R by (intro switch_loop_same_mode md) (auto simp: pim_wf_def)
    then show ?thesis using R by (simp add: switch_all_pim_to_def)
  qed
  then show ?thesis using R mem modes by blast
qed

lemma switch_all_complete_witness:
  "let (fin, p') = switch_all_pim_to pim_sample 1 1000 in
     (1000 :: u64) \<le> fin \<and> switch_all_pim_to p' 1 2000 = (2000, p') \<and> rank_mode p' 0 = 1"
proof -
  obtain fin p' where r: "switch_all_pim_to pim_sample 1 1000 = (fin, p')"
    by (cases "switch_all_pim_to pim_sample 1 1000")
  show ?thesis
    using switch_all_complete [OF pim_sample_wf(1,2) r, of 2000] pim_sample_wf(3) r by auto
qed

end
