(* ===== verification/OrdMaps.thy ===== *)
theory OrdMaps
  imports Prelude
begin

text \<open>
  \<^verbatim>\<open>std::map\<close>: an association list kept sorted by key, so that iteration visits the keys
  in increasing order.  Lookup is \<^const>\<open>map_of\<close>.
\<close>

type_synonym ('k, 'v) smap = "('k \<times> 'v) list"

fun smap_put :: "'k::linorder \<Rightarrow> 'v \<Rightarrow> ('k, 'v) smap \<Rightarrow> ('k, 'v) smap" where
  "smap_put k v [] = [(k, v)]"
| "smap_put k v ((k', v') # m) =
     (if k = k' then (k, v) # m
      else if k < k' then (k, v) # (k', v') # m
      else (k', v') # smap_put k v m)"

definition smap_del :: "'k \<Rightarrow> ('k, 'v) smap \<Rightarrow> ('k, 'v) smap" where
  "smap_del k m = filter (\<lambda>kv. fst kv \<noteq> k) m"

abbreviation smap_keys :: "('k, 'v) smap \<Rightarrow> 'k list" where
  "smap_keys m \<equiv> map fst m"

definition smap_wf :: "('k::linorder, 'v) smap \<Rightarrow> bool" where
  "smap_wf m \<longleftrightarrow> sorted_wrt (<) (smap_keys m)"

lemma map_of_put [simp]: "map_of (smap_put k v m) = (map_of m)(k \<mapsto> v)"
  by (induction k v m rule: smap_put.induct) auto

lemma map_of_del [simp]: "map_of (smap_del k m) = (map_of m)(k := None)"
  by (induction m) (auto simp: smap_del_def)

lemma set_keys_put [simp]: "fst ` set (smap_put k v m) = insert k (fst ` set m)"
  by (induction k v m rule: smap_put.induct) auto

lemma set_put_subset: "set (smap_put k v m) \<subseteq> insert (k, v) (set m)"
  by (induction k v m rule: smap_put.induct) auto

lemma smap_put_wf [simp]: "smap_wf m \<Longrightarrow> smap_wf (smap_put k v m)"
  unfolding smap_wf_def by (induction k v m rule: smap_put.induct) auto

lemma smap_del_wf [simp]: "smap_wf m \<Longrightarrow> smap_wf (smap_del k m)"
  unfolding smap_wf_def smap_del_def by (induction m) auto

lemma smap_wf_distinct: "smap_wf m \<Longrightarrow> distinct (smap_keys m)"
  unfolding smap_wf_def by (induction m) auto

lemma smap_wf_Nil [simp]: "smap_wf []"
  by (simp add: smap_wf_def)

lemma length_smap_put: "length (smap_put k v m) \<le> Suc (length m)"
  by (induction k v m rule: smap_put.induct) auto

lemma length_smap_put_old: "smap_wf m \<Longrightarrow> map_of m k \<noteq> None \<Longrightarrow> length (smap_put k v m) = length m"
proof -
  assume wf: "smap_wf m" and k: "map_of m k \<noteq> None"
  have "set (smap_keys (smap_put k v m)) = set (smap_keys m)"
    using k by (auto simp: map_of_eq_None_iff)
  then show ?thesis
    using distinct_card [OF smap_wf_distinct [OF wf]]
      distinct_card [OF smap_wf_distinct [OF smap_put_wf [OF wf, of k v]]] by simp
qed

lemma length_smap_put_new: "smap_wf m \<Longrightarrow> map_of m k = None \<Longrightarrow> length (smap_put k v m) = Suc (length m)"
proof -
  assume wf: "smap_wf m" and k: "map_of m k = None"
  have "set (smap_keys (smap_put k v m)) = insert k (set (smap_keys m))" by simp
  moreover have "k \<notin> set (smap_keys m)" using k by (simp add: map_of_eq_None_iff)
  ultimately show ?thesis
    using distinct_card [OF smap_wf_distinct [OF wf]]
      distinct_card [OF smap_wf_distinct [OF smap_put_wf [OF wf, of k v]]] by simp
qed

lemma map_of_smap: "smap_wf m \<Longrightarrow> (k, v) \<in> set m \<longleftrightarrow> map_of m k = Some v"
  by (simp add: smap_wf_distinct)

end
