(* ===== verification/Tensors.thy ===== *)
theory Tensors
  imports Prelude
begin

text \<open>
  The NPU simulator's tensors (\<^verbatim>\<open>ONNXim/src/Tensor.cc\<close>) and the bump allocator that places
  them (\<^verbatim>\<open>allocate_address\<close> of \<^verbatim>\<open>ONNXim/src/Common.cc\<close>).  The allocator's static counter is the
  explicit state; sizes keep the widths of the code, so a 32-bit product wraps.
\<close>

section \<open>The allocator\<close>

text \<open>The result and the new value of the static base address.  The offset is an \<^verbatim>\<open>int\<close>, so that its sum with the
  size is one of 32 bits, which wraps.\<close>

definition allocate_address :: "u64 \<Rightarrow> u32 \<Rightarrow> u64 \<times> u64" where
  "allocate_address base_addr sz =
     (let offset = (if base_addr mod 256 \<noteq> 0 then ucast (256 - base_addr mod 256) else 0) :: u32;
          result = base_addr + ucast offset;
          base1 = base_addr + ucast (sz + offset);
          base2 = base1 + (256 - base1 mod 256)
      in (result, base2))"

text \<open>Allocating a list of sizes in order.\<close>

fun allocate_all :: "u64 \<Rightarrow> u32 list \<Rightarrow> u64 list \<times> u64" where
  "allocate_all base [] = ([], base)"
| "allocate_all base (n # ns) =
     (let (a, base1) = allocate_address base n; (as, base2) = allocate_all base1 ns
      in (a # as, base2))"

section \<open>Tensors\<close>

record tensor =
  tn_temporal :: bool
  tn_precision :: u32
  tn_produced :: bool
  tn_id :: u32
  tn_name :: string
  tn_dims :: "u32 list"
  tn_src_node :: u32
  tn_child_nodes :: "u32 list"
  tn_address :: u64
  tn_size :: u64

text \<open>The loop \<^verbatim>\<open>for (int dim : dims) _size *= dim\<close>: a dimension goes through a signed 32-bit
  integer.\<close>

definition dims_size :: "u32 \<Rightarrow> u32 list \<Rightarrow> u64" where
  "dims_size precision dims = foldl (\<lambda>sz dim. sz * scast dim) (ucast precision) dims"

definition alloc_size :: "u32 list \<Rightarrow> u32 \<Rightarrow> u32" where
  "alloc_size dims precision = foldl (\<lambda>sz dim. sz * dim) 1 dims * precision"

definition tensor_new :: "u32 \<Rightarrow> u32 \<Rightarrow> string \<Rightarrow> u32 list \<Rightarrow> u32 \<Rightarrow> bool \<Rightarrow> u64 \<Rightarrow> tensor \<times> u64" where
  "tensor_new fresh_id src_node name dims precision produced base =
     (let (address, base') = allocate_address base (alloc_size dims precision) in
      (\<lparr> tn_temporal = False, tn_precision = precision, tn_produced = produced, tn_id = fresh_id,
         tn_name = name, tn_dims = dims, tn_src_node = src_node, tn_child_nodes = [],
         tn_address = address, tn_size = ucast (alloc_size dims precision) \<rparr>, base'))"

definition tensor_temporal :: "u32 \<Rightarrow> u32 \<Rightarrow> string \<Rightarrow> u32 \<Rightarrow> tensor" where
  "tensor_temporal fresh_id src_node name precision =
     \<lparr> tn_temporal = True, tn_precision = precision, tn_produced = False, tn_id = fresh_id,
       tn_name = name, tn_dims = [], tn_src_node = src_node, tn_child_nodes = [],
       tn_address = 0, tn_size = 0 \<rparr>"

text \<open>The copy constructor keeps everything but marks the copy permanent.\<close>

definition tensor_copy :: "tensor \<Rightarrow> tensor" where
  "tensor_copy t = t\<lparr> tn_temporal := False \<rparr>"

text \<open>\<^const>\<open>None\<close> is the thrown error.\<close>

definition define_tensor :: "tensor \<Rightarrow> u64 \<Rightarrow> u32 list \<Rightarrow> tensor option" where
  "define_tensor t address dims =
     (if tn_dims t = []
      then Some (t\<lparr> tn_temporal := False, tn_address := address, tn_dims := dims,
                   tn_size := dims_size (tn_precision t) dims \<rparr>)
      else None)"

definition redefine_tensor :: "tensor \<Rightarrow> u32 \<Rightarrow> u32 list \<Rightarrow> tensor option" where
  "redefine_tensor t node dims =
     (if tn_dims t = []
      then Some (t\<lparr> tn_src_node := node, tn_dims := dims,
                   tn_size := dims_size (tn_precision t) dims \<rparr>)
      else if length (tn_dims t) = length dims \<and> node = tn_src_node t \<and> tn_dims t = dims
      then Some t else None)"

definition resize_tensor :: "tensor \<Rightarrow> u32 list \<Rightarrow> tensor" where
  "resize_tensor t dims = t\<lparr> tn_dims := dims, tn_size := dims_size (tn_precision t) dims \<rparr>"

definition add_child_node :: "tensor \<Rightarrow> u32 \<Rightarrow> tensor" where
  "add_child_node t op_id = t\<lparr> tn_child_nodes := tn_child_nodes t @ [op_id] \<rparr>"

section \<open>Allocations are aligned and disjoint\<close>

lemma unat_mod_256: "unat ((w :: u64) mod 256) = unat w mod 256"
  by (simp add: unat_mod)

text \<open>The counter starts at 0 and each call leaves it a multiple of 256, so the offset of the next one is 0.  While the
  address space is not exhausted one allocation starts at the old base, is aligned, and ends before the new base.\<close>

lemma allocate_address_spec:
  assumes al: "256 dvd unat base" and "unat base + unat sz + 1024 < 2 ^ 64" "allocate_address base sz = (a, base')"
  shows "a = base" "unat a + unat sz < unat base'" "unat base' \<le> unat base + unat sz + 256" "256 dvd unat base'"
proof -
  have "unat (base mod 256) = 0" using al by (simp add: unat_mod_256)
  then have z: "base mod 256 = 0" by (simp only: unat_eq_0)
  show a: "a = base" using assms(3) by (auto simp: allocate_address_def Let_def z)
  define b1 where "b1 = base + ucast sz"
  have ub1: "unat b1 = unat base + unat sz"
    using assms(2) by (simp add: b1_def unat_plus_if' unat_ucast_wider)
  have m: "unat (b1 mod 256) < 256" by (simp add: unat_mod_256)
  have "b1 mod 256 \<le> 256" using m by (simp add: word_le_nat_alt)
  then have um: "unat (256 - b1 mod 256) = 256 - unat (b1 mod 256)" by (simp add: unat_minus_le)
  have b: "base' = b1 + (256 - b1 mod 256)"
    using assms(3) by (auto simp: allocate_address_def Let_def b1_def z)
  have ub: "unat base' = unat b1 + (256 - unat (b1 mod 256))"
  proof -
    have "unat b1 + unat (256 - b1 mod 256) < 2 ^ 64" unfolding ub1 um using assms(2) by linarith
    then show ?thesis by (simp add: b unat_plus_if' um)
  qed
  show "unat a + unat sz < unat base'" unfolding ub ub1 a using m by linarith
  show "unat base' \<le> unat base + unat sz + 256" unfolding ub ub1 by linarith
  obtain q where q: "unat b1 = 256 * q + unat (b1 mod 256)" unfolding unat_mod_256 by (metis mult_div_mod_eq)
  moreover have "256 * q + t + (256 - t) = 256 * (q + 1)" if "t < 256" for t :: nat using that by simp
  ultimately have "unat base' = 256 * (q + 1)" using m ub by metis
  then show "256 dvd unat base'" by (metis dvd_triv_left)
qed

text \<open>From a base that is not a multiple of 256, which no run reaches, the 32-bit sum would wrap for the largest
  sizes and the next region would start inside the last one.\<close>

lemma allocate_unaligned_wraps: "allocate_address 1 (- 1) = (256, 256)"
  by (simp add: allocate_address_def Let_def unsigned_minus_1_eq_mask mask_eq_exp_minus_1)

text \<open>The regions of a run of allocations, in order.\<close>

lemma allocate_all_spec:
  assumes "256 dvd unat base" "unat base + sum_list (map (\<lambda>n. unat n + 256) szs) + 1024 < 2 ^ 64"
    "allocate_all base szs = (as, base')"
  shows "length as = length szs \<and> list_all (\<lambda>a. 256 dvd unat a \<and> unat base \<le> unat a) as \<and>
    sorted_wrt (\<lambda>x y. unat (fst x) + unat (snd x) < unat (fst y) + 1) (zip as szs)"
  using assms
proof (induction szs arbitrary: base as)
  case (Cons n ns)
  obtain a b1 where a: "allocate_address base n = (a, b1)" by (cases "allocate_address base n")
  obtain as' where r: "allocate_all b1 ns = (as', base')" "as = a # as'"
    using Cons.prems(3) a by (auto split: prod.split_asm)
  have small: "unat base + unat n + 1024 < 2 ^ 64" using Cons.prems(2) by simp
  note sp = allocate_address_spec [OF Cons.prems(1) small a]
  have "unat b1 + sum_list (map (\<lambda>n. unat n + 256) ns) + 1024 < 2 ^ 64"
    using sp(3) Cons.prems(2) by simp
  from Cons.IH [OF sp(4) this r(1)] have IH: "length as' = length ns"
    "list_all (\<lambda>a. 256 dvd unat a \<and> unat b1 \<le> unat a) as'"
    "sorted_wrt (\<lambda>x y. unat (fst x) + unat (snd x) < unat (fst y) + 1) (zip as' ns)" by auto
  have "\<forall>y\<in>set (zip as' ns). unat b1 \<le> unat (fst y)"
    using IH(2) by (auto simp: list_all_iff dest: set_zip_leftD)
  then have "\<forall>y\<in>set (zip as' ns). unat a + unat n < unat (fst y) + 1" using sp(2) by fastforce
  moreover have "list_all (\<lambda>a. 256 dvd unat a \<and> unat base \<le> unat a) as'"
    using IH(2) sp(1,2) by (fastforce simp: list_all_iff)
  ultimately show ?case using IH sp(1) Cons.prems(1) by (simp add: r(2))
qed auto

section \<open>Properties\<close>

text \<open>C30: from the initial counter 0, while the address space is not exhausted, the allocator places any sequence of
  tensors, whatever their 32-bit sizes, at 256-byte aligned addresses in increasing, pairwise disjoint regions.\<close>

theorem allocations_disjoint:
  assumes "sum_list (map (\<lambda>n. unat n + 256) szs) + 1024 < 2 ^ 64"
    "allocate_all 0 szs = (as, base')" "i < j" "j < length szs"
  shows "256 dvd unat (as ! i) \<and> 256 dvd unat (as ! j) \<and>
    unat (as ! i) + unat (szs ! i) \<le> unat (as ! j)"
proof -
  have "256 dvd unat (0 :: u64)" "unat (0 :: u64) + sum_list (map (\<lambda>n. unat n + 256) szs) + 1024 < 2 ^ 64"
    using assms(1) by simp_all
  note sp = allocate_all_spec [OF this assms(2)]
  have "unat (fst (zip as szs ! i)) + unat (snd (zip as szs ! i)) < unat (fst (zip as szs ! j)) + 1"
    using sp assms(3,4) by (intro sorted_wrt_nth_less [of "\<lambda>x y. unat (fst x) + unat (snd x) <
      unat (fst y) + 1"]) auto
  then show ?thesis using sp assms(3,4) by (auto simp: list_all_length)
qed

lemma allocations_disjoint_witness:
  "\<exists>as b. allocate_all 0 [4096, - 1, 300] = (as, b) \<and>
     unat (as ! 1) + unat ((- 1 :: u32)) \<le> unat (as ! 2)"
proof -
  obtain as b where r: "allocate_all 0 [4096, - 1, 300] = (as, b)"
    by (cases "allocate_all 0 [4096, - 1, 300]")
  have u: "unat (- 1 :: u32) = 2 ^ 32 - 1" by (simp add: unsigned_minus_1_eq_mask mask_eq_exp_minus_1)
  show ?thesis using allocations_disjoint [OF _ r, of 1 2] r by (simp add: u)
qed

end
