(* ===== verification/LangSched.thy ===== *)
theory LangSched
  imports NpuCommon OrdMaps Tensors Floats
begin

text \<open>
  The single-model language schedulers, \<^verbatim>\<open>ONNXim/src/scheduler/LanguageScheduler.cc\<close> and
  \<^verbatim>\<open>IterLevelScheduler.cc\<close>: requests arrive from a trace, are admitted into the active set,
  batched into models and advanced when a model finishes.  A scheduling step that builds a model
  takes the identifier of the generated model as an argument, since identifiers come from a
  counter the whole simulator shares.  A KV cache entry is the list of its tensor's dimensions
  (its size is \<^const>\<open>dims_size\<close> of them).  Results are \<^verbatim>\<open>lang_error + state\<close>: the memory check may end
  the program and a missing request is a null dereference.
\<close>

section \<open>Data\<close>

datatype lang_task = AUTOREG | PROMPT | DRAFT | VERIFY | PRE_VERIFY

fun task_code :: "lang_task \<Rightarrow> u32" where
  "task_code AUTOREG = 0"
| "task_code PROMPT = 1"
| "task_code DRAFT = 2"
| "task_code VERIFY = 3"
| "task_code PRE_VERIFY = 4"

fun lang_task_type_name :: "lang_task \<Rightarrow> string" where
  "lang_task_type_name AUTOREG = ''autoreg''"
| "lang_task_type_name PROMPT = ''prompt''"
| "lang_task_type_name DRAFT = ''draft''"
| "lang_task_type_name VERIFY = ''verify''"
| "lang_task_type_name PRE_VERIFY = ''pre_verify''"

datatype spec_phase = PROMPT_PENDING | DRAFT_ROUND_START | DRAFTING | AWAIT_VERIFY | DONE

record lang_request =
  lr_request_id :: u32
  lr_running :: bool
  lr_gen_phase :: bool
  lr_request_time :: u64
  lr_start_time :: u64
  lr_finish_time :: u64
  lr_prompt_length :: u32
  lr_current_length :: u32
  lr_target_length :: u32
  lr_key_cache :: "u32 list list"
  lr_value_cache :: "u32 list list"
  lr_spec_phase :: spec_phase
  lr_spec_round :: u32
  lr_planned_draft_length :: u32
  lr_drafted_in_round :: u32
  lr_verify_round_id :: u32
  lr_last_task_type :: lang_task

record lang_event =
  le_request_id :: u32
  le_prompt_length :: u32
  le_previous_length :: u32
  le_current_length :: u32
  le_target_length :: u32
  le_generated_tokens :: u32
  le_was_generation_phase :: bool
  le_task_type :: lang_task
  le_model_role :: string
  le_draft_length :: u32
  le_accepted_length :: u32
  le_spec_round :: u32
  le_avg_entropy :: fp

record lang_input =
  li_request_id :: u32
  li_seq_length :: u32
  li_context_length :: u32
  li_spec_task_type :: u32

record lang_model =
  lm_id :: u32
  lm_inputs :: "lang_input list"

record lang_sched =
  ls_dram_size :: u32
  ls_precision :: u32
  ls_scheduler_config :: "string \<Rightarrow> nat option"
  ls_weight_size :: u64
  ls_act_size :: u64
  ls_request_queue :: "lang_request list"
  ls_active :: "(u32, lang_request) smap"
  ls_in_model :: "(u32, u32 list) smap"
  ls_model_queue :: "lang_model list"
  ls_finished_events :: "lang_event list"
  ls_cycle :: u64
  ls_num_layers :: u32
  ls_num_sim_layers :: u32
  ls_num_attention_heads :: u32
  ls_num_kv_heads :: u32
  ls_hidden_size :: u32
  ls_cache_dim :: u32
  ls_max_seq_length :: u32
  ls_max_batch_size :: u32
  ls_run_single_layer :: bool
  ls_check_mem_size :: bool
  ls_max_dims :: "u32 list"

datatype lang_error = MemoryExceeded | Undefined

section \<open>Construction\<close>

record model_config =
  mc_num_hidden_layers :: u32
  mc_pipeline_parallel_size :: u32
  mc_num_attention_heads :: u32
  mc_num_kv_heads :: u32
  mc_hidden_size :: u32
  mc_max_seq_length :: u32
  mc_run_single_layer :: bool
  mc_weight_size :: u64
  mc_act_size :: u64

text \<open>A signed decimal as \<^verbatim>\<open>std::stoi\<close> reads it, and one field of a comma-separated line; a missing
  field is empty, which no number parses from.\<close>

definition stoi :: "string \<Rightarrow> int option" where
  "stoi s =
     (let t = dropWhile is_space s;
          neg = (t \<noteq> [] \<and> hd t = CHR ''-'');
          u = (if t \<noteq> [] \<and> (hd t = CHR ''-'' \<or> hd t = CHR ''+'') then tl t else t);
          ds = takeWhile is_digit u;
          v = (if neg then - int (digits_val ds) else int (digits_val ds)) in
      if ds = [] then None
      else if v < - (2 ^ 31) \<or> 2 ^ 31 \<le> v then None else Some v)"

definition field :: "string list \<Rightarrow> nat \<Rightarrow> string" where
  "field fs i = (if i < length fs then fs ! i else [])"

text \<open>Signed addition overflows into undefined behaviour.\<close>

definition int_add :: "int \<Rightarrow> int \<Rightarrow> int option" where
  "int_add a b = (if - (2 ^ 31) \<le> a + b \<and> a + b < 2 ^ 31 then Some (a + b) else None)"

definition parse_request :: "u32 \<Rightarrow> u64 \<Rightarrow> string \<Rightarrow> (lang_request \<times> u64) option" where
  "parse_request rid time_offset line =
     (let fs = split_on (CHR '','') [] line in
      case stoul (field fs 0) of None \<Rightarrow> None | Some t \<Rightarrow>
      case stoi (field fs 1) of None \<Rightarrow> None | Some prompt \<Rightarrow>
      case stoi (field fs 2) of None \<Rightarrow> None | Some target \<Rightarrow>
      case stoi (field fs 3) of None \<Rightarrow> None | Some cached \<Rightarrow>
      case int_add cached prompt of None \<Rightarrow> None | Some cp \<Rightarrow>
      case int_add cp target of None \<Rightarrow> None | Some tot_len \<Rightarrow>
      let offset = time_offset + t in
      Some (\<lparr> lr_request_id = rid, lr_running = False, lr_gen_phase = False,
              lr_request_time = offset, lr_start_time = 0, lr_finish_time = 0,
              lr_prompt_length = of_int prompt, lr_current_length = of_int cached,
              lr_target_length = of_int tot_len, lr_key_cache = [], lr_value_cache = [],
              lr_spec_phase = PROMPT_PENDING, lr_spec_round = 0, lr_planned_draft_length = 0,
              lr_drafted_in_round = 0, lr_verify_round_id = 0, lr_last_task_type = AUTOREG \<rparr>,
            offset))"

text \<open>The lines after the header; a malformed number ends the program.\<close>

fun parse_request_trace :: "u32 \<Rightarrow> u64 \<Rightarrow> string list \<Rightarrow> lang_request list option" where
  "parse_request_trace rid time_offset [] = Some []"
| "parse_request_trace rid time_offset (line # lines) =
     (case parse_request rid time_offset line of None \<Rightarrow> None
      | Some (r, offset) \<Rightarrow> map_option ((#) r) (parse_request_trace (rid + 1) offset lines))"

text \<open>The constructor's parameter \<^verbatim>\<open>_scheduler_config\<close> shadows the member of the same name, so the
  assignment \<^verbatim>\<open>_scheduler_config = _scheduler_config\<close> changes neither and the member stays null.
  \<^verbatim>\<open>lines\<close> is the trace file without its header, \<^const>\<open>None\<close> when it cannot be opened.\<close>

definition lang_sched_init ::
  "u32 \<Rightarrow> u32 \<Rightarrow> model_config \<Rightarrow> (string \<Rightarrow> nat option) \<Rightarrow> string list option \<Rightarrow> lang_sched option" where
  "lang_sched_init dram_size precision mc scheduler_config trace_lines =
     (if mc_pipeline_parallel_size mc = 0 \<or> mc_num_attention_heads mc = 0 then None else
      let num_layers = ucast ((ucast (mc_num_hidden_layers mc) :: u64) div
                              ucast (mc_pipeline_parallel_size mc));
          cache_dim = mc_hidden_size mc div mc_num_attention_heads mc * mc_num_kv_heads mc in
      case (case trace_lines of None \<Rightarrow> Some [] | Some ls \<Rightarrow> parse_request_trace 0 0 ls) of
        None \<Rightarrow> None
      | Some reqs \<Rightarrow>
        Some \<lparr> ls_dram_size = dram_size, ls_precision = precision,
          ls_scheduler_config = Map.empty,
          ls_weight_size = mc_weight_size mc, ls_act_size = mc_act_size mc,
          ls_request_queue = reqs, ls_active = [], ls_in_model = [], ls_model_queue = [],
          ls_finished_events = [], ls_cycle = 0, ls_num_layers = num_layers,
          ls_num_sim_layers = (if mc_run_single_layer mc then 1 else num_layers),
          ls_num_attention_heads = mc_num_attention_heads mc, ls_num_kv_heads = mc_num_kv_heads mc,
          ls_hidden_size = mc_hidden_size mc, ls_cache_dim = cache_dim,
          ls_max_seq_length = mc_max_seq_length mc,
          ls_max_batch_size = (case scheduler_config ''max_batch_size'' of
             Some n \<Rightarrow> of_nat n | None \<Rightarrow> 0),
          ls_run_single_layer = mc_run_single_layer mc,
          ls_check_mem_size = (case scheduler_config ''check_mem_size'' of
             Some n \<Rightarrow> n \<noteq> 0 | None \<Rightarrow> True),
          ls_max_dims = [mc_max_seq_length mc, cache_dim] \<rparr>)"

section \<open>Operations\<close>

definition can_schedule_model :: "'a lang_sched_scheme \<Rightarrow> bool" where
  "can_schedule_model s \<longleftrightarrow> ls_model_queue s \<noteq> []"

definition pop_model :: "'a lang_sched_scheme \<Rightarrow> (lang_model \<times> 'a lang_sched_scheme) option" where
  "pop_model s = (case ls_model_queue s of [] \<Rightarrow> None
     | m # ms \<Rightarrow> Some (m, s\<lparr> ls_model_queue := ms \<rparr>))"

definition consume_finished_events :: "'a lang_sched_scheme \<Rightarrow> lang_event list \<times> 'a lang_sched_scheme" where
  "consume_finished_events s = (ls_finished_events s, s\<lparr> ls_finished_events := [] \<rparr>)"

definition lang_busy :: "'a lang_sched_scheme \<Rightarrow> bool" where
  "lang_busy s \<longleftrightarrow> ls_model_queue s \<noteq> [] \<or> ls_active s \<noteq> [] \<or> ls_request_queue s \<noteq> []"

text \<open>Resizing the tensors of the simulated layers.\<close>

definition resize_caches :: "nat \<Rightarrow> u32 list \<Rightarrow> u32 list list \<Rightarrow> u32 list list option" where
  "resize_caches n dims caches =
     (if n \<le> length caches then Some (replicate n dims @ drop n caches) else None)"

definition resize_kv :: "'a lang_sched_scheme \<Rightarrow> u32 \<Rightarrow> lang_request \<Rightarrow> lang_request option" where
  "resize_kv s len r =
     (let n = unat (ls_num_sim_layers s); dims = [len, ls_cache_dim s] in
      case (resize_caches n dims (lr_key_cache r), resize_caches n dims (lr_value_cache r)) of
        (Some k, Some v) \<Rightarrow> Some (r\<lparr> lr_key_cache := k, lr_value_cache := v \<rparr>)
      | _ \<Rightarrow> None)"

definition init_request :: "'a lang_sched_scheme \<Rightarrow> lang_request \<Rightarrow> lang_request" where
  "init_request s r =
     (let n = unat (ls_num_sim_layers s); dims = [lr_current_length r, ls_cache_dim s] in
      r\<lparr> lr_start_time := ls_cycle s, lr_gen_phase := False, lr_running := False,
        lr_key_cache := replicate n dims, lr_value_cache := replicate n dims \<rparr>)"

text \<open>The admission loop: \<^verbatim>\<open>prep\<close> is what the scheduler does to a request besides
  \<^const>\<open>init_request\<close>.\<close>

definition admit_one :: "(lang_request \<Rightarrow> lang_request) \<Rightarrow> 'a lang_sched_scheme \<Rightarrow> 'a lang_sched_scheme" where
  "admit_one prep s =
     (let r = prep (init_request s (hd (ls_request_queue s))) in
      s\<lparr> ls_active := smap_put (lr_request_id r) r (ls_active s),
         ls_request_queue := tl (ls_request_queue s) \<rparr>)"

function admit :: "(lang_request \<Rightarrow> lang_request) \<Rightarrow> 'a lang_sched_scheme \<Rightarrow> 'a lang_sched_scheme" where
  "admit prep s =
     (if ls_request_queue s = [] \<or> \<not> lr_request_time (hd (ls_request_queue s)) \<le> ls_cycle s then s
      else let s' = admit_one prep s in
        if 0 < ls_max_batch_size s \<and> unat (ls_max_batch_size s) \<le> length (ls_active s')
        then s' else admit prep s')"
  by auto
termination
  by (relation "measure (\<lambda>(_, s). length (ls_request_queue s))") (auto simp: admit_one_def Let_def)

declare admit.simps [simp del]

text \<open>The KV memory of all active requests; a missing tensor is undefined.\<close>

definition layers_kv_size :: "u32 \<Rightarrow> nat \<Rightarrow> lang_request \<Rightarrow> u64 option" where
  "layers_kv_size precision n r =
     (if n \<le> length (lr_key_cache r) \<and> n \<le> length (lr_value_cache r)
      then Some (sum_list (map (\<lambda>i. dims_size precision (lr_key_cache r ! i) +
                                    dims_size precision (lr_value_cache r ! i)) [0..<n]))
      else None)"

fun requests_kv_size :: "u32 \<Rightarrow> nat \<Rightarrow> lang_request list \<Rightarrow> u64 \<Rightarrow> u64 option" where
  "requests_kv_size precision n [] acc = Some acc"
| "requests_kv_size precision n (r # rs) acc =
     (case layers_kv_size precision n r of None \<Rightarrow> None
      | Some b \<Rightarrow> requests_kv_size precision n rs (acc + b))"

definition get_kv_memory_size :: "'a lang_sched_scheme \<Rightarrow> u64 option" where
  "get_kv_memory_size s =
     map_option (\<lambda>kv. if ls_run_single_layer s then kv * ucast (ls_num_layers s) else kv)
       (requests_kv_size (ls_precision s) (unat (ls_num_sim_layers s))
          (map snd (ls_active s)) 0)"

text \<open>The memory check, in the floating-point types of the code.\<close>

definition gigabytes :: "u64 \<Rightarrow> fp" where
  "gigabytes bytes = fdiv b64 (du64 bytes) (FFin 1073741824)"

definition total_memory :: "'a lang_sched_scheme \<Rightarrow> u64 \<Rightarrow> u32 \<Rightarrow> fp" where
  "total_memory s kv num_tokens =
     (let weight_size = fcvt b32 (gigabytes (ls_weight_size s));
          kv_size = fcvt b32 (gigabytes kv);
          act_size = fcvt b32 (fmul b64 (gigabytes (ls_act_size s)) (du64 num_tokens))
      in fadd b32 (fadd b32 weight_size kv_size) act_size)"

definition memory_exceeded :: "'a lang_sched_scheme \<Rightarrow> fp \<Rightarrow> bool" where
  "memory_exceeded s tot_mem \<longleftrightarrow> flt (fu32 (ls_dram_size s)) tot_mem \<and> 0 < ls_dram_size s"

definition input_of :: "u32 \<Rightarrow> lang_request \<Rightarrow> lang_input" where
  "input_of rid r =
     \<lparr> li_request_id = rid,
       li_seq_length = (if lr_gen_phase r then 1 else lr_prompt_length r),
       li_context_length = lr_current_length r, li_spec_task_type = SPEC_TASK_NONE \<rparr>"

fun collect_inputs :: "u32 \<Rightarrow> (u32, lang_request) smap \<Rightarrow> lang_input list \<Rightarrow> lang_input list" where
  "collect_inputs max_batch [] acc = acc"
| "collect_inputs max_batch ((rid, r) # rest) acc =
     (let acc' = (if \<not> lr_running r then acc @ [input_of rid r] else acc) in
      if 0 < max_batch \<and> unat max_batch \<le> length acc' then acc'
      else collect_inputs max_batch rest acc')"

definition mark_running :: "u32 \<Rightarrow> (u32, lang_request) smap \<Rightarrow> (u32, lang_request) smap" where
  "mark_running rid m = (case map_of m rid of None \<Rightarrow> m
     | Some r \<Rightarrow> smap_put rid (r\<lparr> lr_running := True \<rparr>) m)"

definition push_in_model :: "u32 \<Rightarrow> u32 \<Rightarrow> (u32, u32 list) smap \<Rightarrow> (u32, u32 list) smap" where
  "push_in_model mid rid m = smap_put mid ((case map_of m mid of None \<Rightarrow> [] | Some l \<Rightarrow> l) @ [rid]) m"

definition init_inputs_and_model :: "u32 \<Rightarrow> 'a lang_sched_scheme \<Rightarrow> lang_error + 'a lang_sched_scheme" where
  "init_inputs_and_model mid s =
     (let inputs = collect_inputs (ls_max_batch_size s) (ls_active s) [];
          num_tokens = sum_list (map li_seq_length inputs) in
      if inputs = [] then Inr s else
      let s1 = s\<lparr> ls_active := fold (\<lambda>i. mark_running (li_request_id i)) inputs (ls_active s),
                 ls_in_model := fold (\<lambda>i. push_in_model mid (li_request_id i)) inputs (ls_in_model s),
                 ls_model_queue := ls_model_queue s @ [\<lparr> lm_id = mid, lm_inputs = inputs \<rparr>] \<rparr> in
      case get_kv_memory_size s1 of None \<Rightarrow> Inl Undefined
      | Some kv \<Rightarrow>
        if memory_exceeded s1 (total_memory s1 kv num_tokens) \<and> ls_check_mem_size s1
        then Inl MemoryExceeded else Inr s1)"

text \<open>The base scheduler admits only into an empty active set; the iteration-level one whenever
  the set is not larger than the batch.\<close>

definition lang_cycle :: "u32 \<Rightarrow> 'a lang_sched_scheme \<Rightarrow> lang_error + 'a lang_sched_scheme" where
  "lang_cycle mid s0 =
     (let s = s0\<lparr> ls_cycle := ls_cycle s0 + 1 \<rparr>;
          s1 = (if ls_active s = [] then admit (\<lambda>r. r) s else s) in
      if ls_model_queue s1 = [] \<and> ls_in_model s1 = [] then init_inputs_and_model mid s1 else Inr s1)"

definition iter_cycle :: "u32 \<Rightarrow> 'a lang_sched_scheme \<Rightarrow> lang_error + 'a lang_sched_scheme" where
  "iter_cycle mid s0 =
     (let s = s0\<lparr> ls_cycle := ls_cycle s0 + 1 \<rparr>;
          s1 = (if length (ls_active s) \<le> unat (ls_max_batch_size s) \<or> ls_max_batch_size s = 0
                then admit (\<lambda>r. r) s else s) in
      if ls_model_queue s1 = [] \<and> ls_in_model s1 = [] then init_inputs_and_model mid s1 else Inr s1)"

definition advance_length :: "lang_request \<Rightarrow> lang_request" where
  "advance_length r =
     (if \<not> lr_gen_phase r
      then r\<lparr> lr_gen_phase := True,
             lr_current_length := lr_current_length r + (lr_prompt_length r + 1) \<rparr>
      else r\<lparr> lr_current_length := lr_current_length r + 1 \<rparr>)"

definition finish_request :: "'a lang_sched_scheme \<Rightarrow> u32 \<Rightarrow> 'a lang_sched_scheme option" where
  "finish_request s rid =
     (case map_of (ls_active s) rid of None \<Rightarrow> None | Some r \<Rightarrow>
      let r1 = advance_length r;
          event = \<lparr> le_request_id = rid, le_prompt_length = lr_prompt_length r,
            le_previous_length = lr_current_length r, le_current_length = lr_current_length r1,
            le_target_length = lr_target_length r, le_generated_tokens = 1,
            le_was_generation_phase = lr_gen_phase r, le_task_type = AUTOREG,
            le_model_role = ''single'', le_draft_length = 0, le_accepted_length = 0,
            le_spec_round = 0, le_avg_entropy = FFin 0 \<rparr> in
      case resize_kv s (lr_current_length r1) r1 of None \<Rightarrow> None | Some r2 \<Rightarrow>
      let r3 = r2\<lparr> lr_running := False \<rparr>;
          s1 = s\<lparr> ls_finished_events := ls_finished_events s @ [event] \<rparr> in
      if lr_target_length r3 \<le> lr_current_length r3
      then Some (s1\<lparr> ls_active := smap_del rid (ls_active s1) \<rparr>)
      else Some (s1\<lparr> ls_active := smap_put rid r3 (ls_active s1) \<rparr>))"

fun finish_requests :: "'a lang_sched_scheme \<Rightarrow> u32 list \<Rightarrow> 'a lang_sched_scheme option" where
  "finish_requests s [] = Some s"
| "finish_requests s (rid # rids) =
     (case finish_request s rid of None \<Rightarrow> None | Some s' \<Rightarrow> finish_requests s' rids)"

definition lang_finish_model :: "u32 \<Rightarrow> 'a lang_sched_scheme \<Rightarrow> lang_error + 'a lang_sched_scheme" where
  "lang_finish_model mid s =
     (case finish_requests (s\<lparr> ls_finished_events := [] \<rparr>)
             (case map_of (ls_in_model s) mid of None \<Rightarrow> [] | Some l \<Rightarrow> l) of
        None \<Rightarrow> Inl Undefined
      | Some s1 \<Rightarrow> Inr (s1\<lparr> ls_in_model := smap_del mid (ls_in_model s1) \<rparr>))"

section \<open>What the operations keep\<close>

abbreviation requests_in_models :: "'a lang_sched_scheme \<Rightarrow> u32 list" where
  "requests_in_models s \<equiv> concat (map snd (ls_in_model s))"

abbreviation queued_ids :: "'a lang_sched_scheme \<Rightarrow> u32 list" where
  "queued_ids s \<equiv> map lr_request_id (ls_request_queue s)"

definition is_running :: "'a lang_sched_scheme \<Rightarrow> u32 \<Rightarrow> bool" where
  "is_running s rid \<longleftrightarrow> map_of (ls_active s) rid \<noteq> None \<and> pred_option lr_running (map_of (ls_active s) rid)"

definition has_caches :: "'a lang_sched_scheme \<Rightarrow> lang_request \<Rightarrow> bool" where
  "has_caches s r \<longleftrightarrow> length (lr_key_cache r) = unat (ls_num_sim_layers s) \<and>
     length (lr_value_cache r) = unat (ls_num_sim_layers s)"

definition active_wf :: "'a lang_sched_scheme \<Rightarrow> bool" where
  "active_wf s \<longleftrightarrow> smap_wf (ls_active s) \<and>
     (\<forall>rid r. map_of (ls_active s) rid = Some r \<longrightarrow> lr_request_id r = rid \<and> has_caches s r) \<and>
     distinct (queued_ids s) \<and> (\<forall>rid\<in>set (queued_ids s). map_of (ls_active s) rid = None)"

definition models_wf :: "'a lang_sched_scheme \<Rightarrow> bool" where
  "models_wf s \<longleftrightarrow> smap_wf (ls_in_model s) \<and> length (ls_in_model s) \<le> 1 \<and>
     distinct (requests_in_models s) \<and>
     (\<forall>rid. rid \<in> set (requests_in_models s) \<longleftrightarrow> is_running s rid)"

definition lang_inv :: "'a lang_sched_scheme \<Rightarrow> bool" where
  "lang_inv s \<longleftrightarrow> active_wf s \<and> models_wf s"

lemma is_running_Some:
  "is_running s rid \<longleftrightarrow> (\<exists>r. map_of (ls_active s) rid = Some r \<and> lr_running r)"
  by (auto simp: is_running_def)

text \<open>Admission.\<close>

definition keeps_admitted :: "(lang_request \<Rightarrow> lang_request) \<Rightarrow> bool" where
  "keeps_admitted prep \<longleftrightarrow> (\<forall>r. lr_request_id (prep r) = lr_request_id r \<and>
     lr_running (prep r) = lr_running r \<and> lr_key_cache (prep r) = lr_key_cache r \<and>
     lr_value_cache (prep r) = lr_value_cache r)"

lemma keeps_admitted_id [simp]: "keeps_admitted (\<lambda>r. r)"
  by (simp add: keeps_admitted_def)

lemma admit_preserves:
  assumes "P s" "\<And>s. P s \<Longrightarrow> ls_request_queue s \<noteq> [] \<Longrightarrow> P (admit_one prep s)"
  shows "P (admit prep s)"
  using assms
proof (induction prep s rule: admit.induct)
  case (1 prep s)
  then show ?case by (subst admit.simps) (auto simp: Let_def)
qed

lemma init_request_simps [simp]:
  "lr_request_id (init_request s r) = lr_request_id r" "\<not> lr_running (init_request s r)"
  "length (lr_key_cache (init_request s r)) = unat (ls_num_sim_layers s)"
  "length (lr_value_cache (init_request s r)) = unat (ls_num_sim_layers s)"
  by (simp_all add: init_request_def Let_def)

lemma admit_one_active_wf:
  assumes "keeps_admitted prep" "active_wf s" "ls_request_queue s \<noteq> []"
  shows "active_wf (admit_one prep s)"
proof -
  obtain r rs where q: "ls_request_queue s = r # rs" using assms(3) by (cases "ls_request_queue s") auto
  let ?r = "prep (init_request s r)"
  have s': "ls_active (admit_one prep s) = smap_put (lr_request_id ?r) ?r (ls_active s)"
    "ls_request_queue (admit_one prep s) = rs" "has_caches (admit_one prep s) = has_caches s"
    by (auto simp: admit_one_def Let_def q has_caches_def fun_eq_iff)
  have r: "lr_request_id ?r = lr_request_id r" "has_caches s ?r"
    using assms(1) by (simp_all add: keeps_admitted_def has_caches_def)
  have "\<forall>x\<in>set rs. lr_request_id x \<noteq> lr_request_id r"
    using assms(2) by (auto simp: active_wf_def q) (metis image_eqI)
  then show ?thesis
    unfolding active_wf_def s' r(1) using assms(2) r by (simp add: active_wf_def q)
qed

lemma admit_one_running:
  assumes "keeps_admitted prep" "active_wf s" "ls_request_queue s \<noteq> []"
  shows "is_running (admit_one prep s) = is_running s" "ls_in_model (admit_one prep s) = ls_in_model s"
proof -
  obtain r rs where q: "ls_request_queue s = r # rs" using assms(3) by (cases "ls_request_queue s") auto
  have "map_of (ls_active s) (lr_request_id r) = None" using assms(2) q by (auto simp: active_wf_def)
  then show "is_running (admit_one prep s) = is_running s"
    using assms(1) by (auto simp: fun_eq_iff is_running_Some admit_one_def Let_def q keeps_admitted_def)
qed (simp add: admit_one_def Let_def)

lemma admit_inv:
  assumes "keeps_admitted prep" "lang_inv s"
  shows "lang_inv (admit prep s)"
proof (rule admit_preserves [of lang_inv, OF assms(2)])
  fix s assume "lang_inv s" "ls_request_queue s \<noteq> []"
  then show "lang_inv (admit_one prep s)"
    by (simp add: lang_inv_def models_wf_def admit_one_active_wf [OF assms(1)]
        admit_one_running [OF assms(1)])
qed

lemma admit_bound:
  assumes "m = unat (ls_max_batch_size s)" "0 < m"
  shows "length (ls_active (admit prep s)) \<le> max (Suc (length (ls_active s))) m"
  using assms
proof (induction prep s rule: admit.induct)
  case (1 prep s)
  let ?s' = "admit_one prep s"
  have l: "length (ls_active ?s') \<le> Suc (length (ls_active s))"
    by (simp add: admit_one_def Let_def length_smap_put)
  have m: "ls_max_batch_size ?s' = ls_max_batch_size s" by (simp add: admit_one_def Let_def)
  have "0 < ls_max_batch_size s" using 1(2,3) by (simp add: word_less_nat_alt)
  then show ?case
    using 1(1) [OF _ refl] 1(2,3) l m by (subst admit.simps) (auto simp: Let_def)
qed

text \<open>Building a model.\<close>

lemma collect_inputs_ids:
  "smap_wf act \<Longrightarrow> \<exists>ids. map li_request_id (collect_inputs b act acc) = map li_request_id acc @ ids \<and>
     sorted_wrt (<) ids \<and> (\<forall>i\<in>set ids. \<exists>r. map_of act i = Some r \<and> \<not> lr_running r)"
proof (induction b act acc rule: collect_inputs.induct)
  case (2 b rid r rest acc)
  have wf: "smap_wf rest" "\<forall>k\<in>fst ` set rest. rid < k"
    using 2(2) by (auto simp: smap_wf_def)
  have mono: "map_of ((rid, r) # rest) i = Some r'" if "map_of rest i = Some r'" for i r'
    using that wf(2) by (metis imageI fst_conv map_of_SomeD map_of_Cons_code(2) order_less_irrefl)
  let ?acc = "if \<not> lr_running r then acc @ [input_of rid r] else acc"
  show ?case
  proof (cases "0 < b \<and> unat b \<le> length ?acc")
    case True
    then show ?thesis
      by (intro exI [of _ "if lr_running r then [] else [rid]"]) (auto simp: Let_def input_of_def)
  next
    case False
    obtain ids where ids: "map li_request_id (collect_inputs b rest ?acc) = map li_request_id ?acc @ ids"
      "sorted_wrt (<) ids" "\<forall>i\<in>set ids. \<exists>r. map_of rest i = Some r \<and> \<not> lr_running r"
      using 2(1) [OF refl False wf(1)] by blast
    have "set ids \<subseteq> fst ` set rest" using ids(3) by (metis imageI fst_conv map_of_SomeD subsetI)
    then show ?thesis
      using ids wf(2) mono False
      by (intro exI [of _ "(if lr_running r then [] else [rid]) @ ids"])
        (auto simp: Let_def input_of_def)
  qed
qed simp

lemma collect_inputs_batch:
  "0 < b \<Longrightarrow> length acc < unat b \<Longrightarrow> length (collect_inputs b act acc) \<le> unat b"
  by (induction b act acc rule: collect_inputs.induct) (auto simp: Let_def)

lemma collect_inputs_nonempty:
  "collect_inputs b act acc = [] \<Longrightarrow> acc = [] \<and> (\<forall>kv\<in>set act. lr_running (snd kv))"
  by (induction b act acc rule: collect_inputs.induct) (auto simp: Let_def word_less_nat_alt split: if_split_asm)

lemma map_of_mark_running [simp]:
  "map_of (mark_running rid m) i =
     (if i = rid then map_option (lr_running_update (\<lambda>_. True)) (map_of m i) else map_of m i)"
  by (simp add: mark_running_def split: option.split)

lemma mark_running_wf [simp]: "smap_wf m \<Longrightarrow> smap_wf (mark_running rid m)"
  by (simp add: mark_running_def split: option.split)

lemma mark_all_wf: "smap_wf m \<Longrightarrow> smap_wf (fold (\<lambda>i. mark_running (f i)) is m)"
  by (induction "is" arbitrary: m) auto

lemma map_of_mark_all:
  "map_of (fold (\<lambda>i. mark_running (f i)) is m) rid =
     (if rid \<in> f ` set is then map_option (lr_running_update (\<lambda>_. True)) (map_of m rid) else map_of m rid)"
  by (induction "is" arbitrary: m) (auto simp: option.map_comp o_def)

lemma push_all_in_model:
  "is \<noteq> [] \<Longrightarrow> fold (\<lambda>i. push_in_model mid (f i)) is [] = [(mid, map f is)]"
proof (induction "is" rule: rev_induct)
  case (snoc x xs)
  then show ?case by (cases xs) (auto simp: push_in_model_def)
qed simp

lemma requests_kv_size_defined:
  "\<forall>r\<in>set rs. n \<le> length (lr_key_cache r) \<and> n \<le> length (lr_value_cache r) \<Longrightarrow>
   requests_kv_size p n rs acc \<noteq> None"
  by (induction rs arbitrary: acc) (auto simp: layers_kv_size_def)

lemma init_inputs_inv:
  assumes "lang_inv s" "ls_in_model s = []"
  shows "\<exists>s1. lang_inv s1 \<and>
    (init_inputs_and_model mid s = Inr s1 \<or> init_inputs_and_model mid s = Inl MemoryExceeded)"
proof (cases "collect_inputs (ls_max_batch_size s) (ls_active s) [] = []")
  case True
  then show ?thesis using assms(1) by (auto simp: init_inputs_and_model_def Let_def)
next
  case False
  let ?is = "collect_inputs (ls_max_batch_size s) (ls_active s) []"
  define s1 where "s1 = s\<lparr> ls_active := fold (\<lambda>i. mark_running (li_request_id i)) ?is (ls_active s),
    ls_in_model := fold (\<lambda>i. push_in_model mid (li_request_id i)) ?is (ls_in_model s),
    ls_model_queue := ls_model_queue s @ [\<lparr> lm_id = mid, lm_inputs = ?is \<rparr>] \<rparr>"
  have a: "active_wf s" "models_wf s" using assms(1) by (simp_all add: lang_inv_def)
  obtain ids where ids: "map li_request_id ?is = ids" "sorted_wrt (<) ids"
    "\<forall>i\<in>set ids. \<exists>r. map_of (ls_active s) i = Some r \<and> \<not> lr_running r"
    using collect_inputs_ids [of "ls_active s" "ls_max_batch_size s" "[]"] a(1)
    by (auto simp: active_wf_def)
  have idset: "li_request_id ` set ?is = set ids" using ids(1) by (metis set_map)
  have act: "map_of (ls_active s1) rid = (if rid \<in> set ids
      then map_option (lr_running_update (\<lambda>_. True)) (map_of (ls_active s) rid)
      else map_of (ls_active s) rid)" for rid
    by (simp add: s1_def map_of_mark_all idset)
  have caches: "has_caches s1 r = has_caches s r" for r by (simp add: has_caches_def s1_def)
  have aw: "active_wf s1"
    unfolding active_wf_def act caches using a(1)
    by (auto simp: active_wf_def s1_def mark_all_wf has_caches_def split: if_splits)
  have none: "\<not> is_running s rid" for rid using a(2) assms(2) by (simp add: models_wf_def)
  have im: "ls_in_model s1 = [(mid, ids)]"
    using False ids(1) assms(2) by (simp add: s1_def push_all_in_model)
  have "is_running s1 rid \<longleftrightarrow> rid \<in> set ids" for rid
    using none [of rid] ids(3) by (auto simp: is_running_Some act)
  then have inv: "lang_inv s1"
    using aw ids(2) by (simp add: lang_inv_def models_wf_def im strict_sorted_iff smap_wf_def)
  have "\<forall>r\<in>set (map snd (ls_active s1)). has_caches s1 r"
    using aw by (auto simp: active_wf_def dest: map_of_smap [THEN iffD1])
  then have "get_kv_memory_size s1 \<noteq> None"
    unfolding get_kv_memory_size_def by (simp add: requests_kv_size_defined has_caches_def)
  then show ?thesis
    using inv False unfolding init_inputs_and_model_def Let_def s1_def [symmetric]
    by (intro exI [of _ s1]) auto
qed

section \<open>Finishing a model\<close>

text \<open>What a finished step does to one request.\<close>

definition next_length :: "lang_request \<Rightarrow> u32" where
  "next_length r = (if lr_gen_phase r then lr_current_length r + 1
                    else lr_current_length r + (lr_prompt_length r + 1))"

definition advanced :: "'a lang_sched_scheme \<Rightarrow> lang_request \<Rightarrow> lang_request" where
  "advanced s r =
     (let dims = replicate (unat (ls_num_sim_layers s)) [next_length r, ls_cache_dim s] in
      r\<lparr> lr_gen_phase := True, lr_current_length := next_length r, lr_running := False,
        lr_key_cache := dims, lr_value_cache := dims \<rparr>)"

definition finished_event :: "lang_request \<Rightarrow> lang_event" where
  "finished_event r = \<lparr> le_request_id = lr_request_id r, le_prompt_length = lr_prompt_length r,
     le_previous_length = lr_current_length r, le_current_length = next_length r,
     le_target_length = lr_target_length r, le_generated_tokens = 1,
     le_was_generation_phase = lr_gen_phase r, le_task_type = AUTOREG,
     le_model_role = ''single'', le_draft_length = 0, le_accepted_length = 0,
     le_spec_round = 0, le_avg_entropy = FFin 0 \<rparr>"

definition completes :: "lang_request \<Rightarrow> bool" where
  "completes r \<longleftrightarrow> lr_target_length r \<le> next_length r"

lemma finish_request_eq:
  assumes "map_of (ls_active s) rid = Some r" "has_caches s r" "lr_request_id r = rid"
  shows "finish_request s rid = Some (s\<lparr>
    ls_finished_events := ls_finished_events s @ [finished_event r],
    ls_active := (if completes r then smap_del rid (ls_active s)
                  else smap_put rid (advanced s r) (ls_active s)) \<rparr>)"
proof -
  let ?r1 = "advance_length r"
  have len: "lr_current_length ?r1 = next_length r" by (simp add: next_length_def advance_length_def)
  have r1: "lr_key_cache ?r1 = lr_key_cache r" "lr_value_cache ?r1 = lr_value_cache r" "lr_gen_phase ?r1"
    "?r1\<lparr> lr_gen_phase := True, lr_current_length := next_length r \<rparr> = ?r1"
    by (simp_all add: advance_length_def next_length_def)
  obtain r2 where r2: "resize_kv s (next_length r) ?r1 = Some r2" "r2\<lparr> lr_running := False \<rparr> = advanced s r"
    using assms(2) r1
    by (simp add: resize_kv_def resize_caches_def has_caches_def advanced_def Let_def)
      (simp add: advance_length_def next_length_def)
  have "lr_target_length (advanced s r) \<le> lr_current_length (advanced s r) \<longleftrightarrow> completes r"
    by (simp add: advanced_def completes_def Let_def)
  then show ?thesis
    using assms(1,3) r2 by (simp add: finish_request_def Let_def len finished_event_def)
qed

lemma finish_requests_eq:
  assumes "distinct ids" "active_wf s" "\<forall>i\<in>set ids. map_of (ls_active s) i \<noteq> None"
  shows "\<exists>s'. finish_requests s ids = Some s' \<and> active_wf s' \<and> ls_in_model s' = ls_in_model s \<and>
    ls_model_queue s' = ls_model_queue s \<and> ls_request_queue s' = ls_request_queue s \<and>
    ls_max_batch_size s' = ls_max_batch_size s \<and>
    ls_finished_events s' = ls_finished_events s @
      map (\<lambda>i. finished_event (the (map_of (ls_active s) i))) ids \<and>
    (\<forall>i. map_of (ls_active s') i =
      (if i \<in> set ids then
         (let r = the (map_of (ls_active s) i) in if completes r then None else Some (advanced s r))
       else map_of (ls_active s) i))"
  using assms
proof (induction ids arbitrary: s)
  case (Cons i ids)
  obtain r where r: "map_of (ls_active s) i = Some r" using Cons.prems(3) by auto
  then have c: "has_caches s r" "lr_request_id r = i" using Cons.prems(2) by (simp_all add: active_wf_def)
  define s1 where "s1 = s\<lparr> ls_finished_events := ls_finished_events s @ [finished_event r],
    ls_active := (if completes r then smap_del i (ls_active s)
                  else smap_put i (advanced s r) (ls_active s)) \<rparr>"
  have f: "finish_request s i = Some s1" unfolding s1_def by (rule finish_request_eq [OF r c])
  have act: "map_of (ls_active s1) j = (if j = i then if completes r then None else Some (advanced s r)
      else map_of (ls_active s) j)" for j
    by (simp add: s1_def)
  have s1: "ls_in_model s1 = ls_in_model s" "ls_model_queue s1 = ls_model_queue s"
    "ls_request_queue s1 = ls_request_queue s" "ls_max_batch_size s1 = ls_max_batch_size s"
    "ls_finished_events s1 = ls_finished_events s @ [finished_event r]"
    by (simp_all add: s1_def)
  have adv: "advanced s1 = advanced s" "has_caches s1 = has_caches s"
    by (simp_all add: fun_eq_iff advanced_def s1_def has_caches_def)
  have hc: "has_caches s (advanced s r)" "lr_request_id (advanced s r) = i"
    using c(2) by (simp_all add: has_caches_def advanced_def Let_def)
  have w: "active_wf s1"
    unfolding active_wf_def act adv(2) using Cons.prems(2) hc r
    by (auto simp: active_wf_def s1_def split: if_split_asm)
  have "\<forall>j\<in>set ids. map_of (ls_active s1) j \<noteq> None" using Cons.prems(1,3) by (auto simp: act)
  from Cons.IH [OF _ w this] Cons.prems(1) obtain s' where s':
    "finish_requests s1 ids = Some s'" "active_wf s'" "ls_in_model s' = ls_in_model s1"
    "ls_model_queue s' = ls_model_queue s1" "ls_request_queue s' = ls_request_queue s1"
    "ls_max_batch_size s' = ls_max_batch_size s1"
    "ls_finished_events s' = ls_finished_events s1 @
       map (\<lambda>i. finished_event (the (map_of (ls_active s1) i))) ids"
    "\<forall>j. map_of (ls_active s') j = (if j \<in> set ids then
       (let r = the (map_of (ls_active s1) j) in if completes r then None else Some (advanced s1 r))
       else map_of (ls_active s1) j)"
    by auto
  have ev: "map (\<lambda>i. finished_event (the (map_of (ls_active s1) i))) ids =
      map (\<lambda>i. finished_event (the (map_of (ls_active s) i))) ids"
    using Cons.prems(1) by (auto simp: act)
  show ?case
    using s' f r Cons.prems(1) by (intro exI [of _ s']) (auto simp: ev act adv s1 Let_def)
qed simp

lemma finish_model_eq:
  assumes "lang_inv s" and ids_def: "ids = (case map_of (ls_in_model s) mid of None \<Rightarrow> [] | Some l \<Rightarrow> l)"
  shows "\<exists>s'. lang_finish_model mid s = Inr s' \<and> lang_inv s' \<and>
    ls_model_queue s' = ls_model_queue s \<and> ls_request_queue s' = ls_request_queue s \<and>
    ls_max_batch_size s' = ls_max_batch_size s \<and> ls_in_model s' = smap_del mid (ls_in_model s) \<and>
    ls_finished_events s' = map (\<lambda>i. finished_event (the (map_of (ls_active s) i))) ids \<and>
    (\<forall>i. map_of (ls_active s') i =
      (if i \<in> set ids then
         (let r = the (map_of (ls_active s) i) in if completes r then None else Some (advanced s r))
       else map_of (ls_active s) i))"
proof -
  let ?s0 = "s\<lparr> ls_finished_events := [] \<rparr>"
  have a: "active_wf ?s0" and m: "models_wf s"
    using assms(1) by (auto simp: lang_inv_def active_wf_def has_caches_def)
  have im: "ls_in_model s = [] \<or> (\<exists>k l. ls_in_model s = [(k, l)])"
    using m by (cases "ls_in_model s") (auto simp: models_wf_def)
  have ids: "distinct ids" "set ids \<subseteq> set (requests_in_models s)"
    "requests_in_models s = [] \<or> ids = requests_in_models s \<or> ids = []"
    "mid \<in> fst ` set (ls_in_model s) \<Longrightarrow> ids = requests_in_models s"
    using m im by (auto simp: ids_def models_wf_def split: if_split_asm)
  then have act: "\<forall>i\<in>set ids. map_of (ls_active ?s0) i \<noteq> None"
    using m by (auto simp: models_wf_def is_running_Some)
  from finish_requests_eq [OF ids(1) a act] obtain s1 where
    s1: "finish_requests ?s0 ids = Some s1" "active_wf s1" "ls_in_model s1 = ls_in_model s"
      "ls_model_queue s1 = ls_model_queue s" "ls_request_queue s1 = ls_request_queue s"
      "ls_max_batch_size s1 = ls_max_batch_size s"
      "ls_finished_events s1 = map (\<lambda>i. finished_event (the (map_of (ls_active s) i))) ids"
    and ac: "\<forall>i. map_of (ls_active s1) i = (if i \<in> set ids then
         (let r = the (map_of (ls_active s) i) in if completes r then None else Some (advanced ?s0 r))
       else map_of (ls_active s) i)" by auto
  have adv: "advanced ?s0 = advanced s" by (simp add: fun_eq_iff advanced_def)
  let ?s' = "s1\<lparr> ls_in_model := smap_del mid (ls_in_model s1) \<rparr>"
  have caches: "has_caches ?s' = has_caches s1" by (simp add: fun_eq_iff has_caches_def)
  have aw: "active_wf ?s'" using s1(2) by (simp add: active_wf_def caches)
  have run: "is_running ?s' i \<longleftrightarrow> i \<notin> set ids \<and> is_running s i" for i
    by (auto simp: is_running_Some ac advanced_def Let_def split: if_split_asm)
  have "models_wf ?s'"
    using m im unfolding models_wf_def run
    by (auto simp: s1(3) ids_def smap_del_def smap_wf_def)
  then show ?thesis
    using s1 ac [unfolded adv] aw unfolding lang_finish_model_def ids_def [symmetric]
    by (intro exI [of _ ?s']) (simp add: lang_inv_def)
qed

lemma in_model_active:
  assumes "lang_inv s" "map_of (ls_in_model s) mid = Some ids" "i \<in> set ids"
  shows "\<exists>r. map_of (ls_active s) i = Some r \<and> lr_request_id r = i"
proof -
  have "i \<in> set (requests_in_models s)" using map_of_SomeD [OF assms(2)] assms(3) by (auto intro!: bexI)
  then have "is_running s i" using assms(1) unfolding lang_inv_def models_wf_def by blast
  then show ?thesis using assms(1) by (auto simp: is_running_Some lang_inv_def active_wf_def)
qed

section \<open>The running system\<close>

datatype lang_op = SimpleCycle u32 | IterCycle u32 | LangPop | LangFinish u32 | LangConsume

text \<open>The program ends where the memory check fails; the simulator asks
  \<^const>\<open>can_schedule_model\<close> before it takes a model.\<close>

definition not_undefined :: "lang_error + lang_sched \<Rightarrow> (lang_error + lang_sched) option" where
  "not_undefined x = (if x = Inl Undefined then None else Some x)"

fun lang_step :: "lang_op \<Rightarrow> lang_error + lang_sched \<Rightarrow> (lang_error + lang_sched) option" where
  "lang_step x (Inl e) = not_undefined (Inl e)"
| "lang_step (SimpleCycle mid) (Inr s) = not_undefined (lang_cycle mid s)"
| "lang_step (IterCycle mid) (Inr s) = not_undefined (iter_cycle mid s)"
| "lang_step LangPop (Inr s) =
     (if can_schedule_model s then map_option (Inr \<circ> snd) (pop_model s) else Some (Inr s))"
| "lang_step (LangFinish mid) (Inr s) = not_undefined (lang_finish_model mid s)"
| "lang_step LangConsume (Inr s) = Some (Inr (snd (consume_finished_events s)))"

definition lang_ok :: "lang_error + lang_sched \<Rightarrow> bool" where
  "lang_ok x = (case x of Inl e \<Rightarrow> e = MemoryExceeded | Inr s \<Rightarrow> lang_inv s)"

lemma lang_inv_frame:
  "lang_inv s \<Longrightarrow> ls_active s' = ls_active s \<Longrightarrow> ls_in_model s' = ls_in_model s \<Longrightarrow>
   ls_request_queue s' = ls_request_queue s \<Longrightarrow> ls_num_sim_layers s' = ls_num_sim_layers s \<Longrightarrow>
   lang_inv s'"
  by (simp add: lang_inv_def active_wf_def models_wf_def has_caches_def is_running_def)

lemma build_ok:
  assumes "lang_inv s"
  shows "\<exists>y. not_undefined (if ls_model_queue s = [] \<and> ls_in_model s = []
    then init_inputs_and_model mid s else Inr s) = Some y \<and> lang_ok y"
  using assms init_inputs_inv [OF assms, of mid]
  by (auto simp: not_undefined_def lang_ok_def)

lemma lang_step_ok:
  assumes "lang_ok x"
  shows "\<exists>y. lang_step op x = Some y \<and> lang_ok y"
proof (cases x)
  case (Inl e)
  then show ?thesis using assms by (simp add: lang_ok_def not_undefined_def)
next
  case (Inr s)
  have inv: "lang_inv s" using assms Inr by (simp add: lang_ok_def)
  have adm: "lang_inv (admit (\<lambda>r. r) (s\<lparr> ls_cycle := ls_cycle s + 1 \<rparr>))"
    "lang_inv (s\<lparr> ls_cycle := ls_cycle s + 1 \<rparr>)"
    by (auto intro!: admit_inv intro: lang_inv_frame [OF inv])
  show ?thesis
  proof (cases op)
    case (SimpleCycle mid)
    then show ?thesis
      unfolding Inr SimpleCycle lang_step.simps lang_cycle_def Let_def
      by (intro build_ok) (use adm in simp)
  next
    case (IterCycle mid)
    then show ?thesis
      unfolding Inr IterCycle lang_step.simps iter_cycle_def Let_def
      by (intro build_ok) (use adm in simp)
  next
    case LangPop
    then show ?thesis
      using inv by (auto simp: Inr can_schedule_model_def pop_model_def lang_ok_def
          intro: lang_inv_frame [OF inv] split: list.split)
  next
    case (LangFinish mid)
    then show ?thesis
      using finish_model_eq [OF inv refl, of mid] by (auto simp: Inr not_undefined_def lang_ok_def)
  next
    case LangConsume
    then show ?thesis
      by (auto simp: Inr consume_finished_events_def lang_ok_def intro: lang_inv_frame [OF inv])
  qed
qed

interpretation lang: invariant lang_step lang_ok "\<lambda>_. True"
  by unfold_locales (rule lang_step_ok)

section \<open>Construction\<close>

lemma parse_request_id: "parse_request rid off line = Some (r, off') \<Longrightarrow> lr_request_id r = rid"
  by (auto simp: parse_request_def Let_def split: option.split_asm)

lemma parse_trace_ids:
  "parse_request_trace rid off ls = Some rs \<Longrightarrow>
   map lr_request_id rs = map (\<lambda>i. rid + of_nat i) [0..<length ls]"
proof (induction rid off ls arbitrary: rs rule: parse_request_trace.induct)
  case (2 rid off line ls)
  then show ?case
    by (auto simp: parse_request_id map_upt_Suc add.assoc simp del: upt_Suc split: option.split_asm)
qed simp

lemma parse_trace_distinct:
  assumes "parse_request_trace rid off ls = Some rs" "length ls \<le> 2 ^ 32"
  shows "distinct (map lr_request_id rs)"
  unfolding parse_trace_ids [OF assms(1)] using assms(2)
  by (auto simp: distinct_map inj_on_def word_of_nat_eq_iff take_bit_nat_def)

definition trace_fits :: "string list option \<Rightarrow> bool" where
  "trace_fits ls = pred_option (\<lambda>ls. length ls \<le> 2 ^ 32) ls"

lemma lang_init_inv:
  assumes "lang_sched_init dram prec mc cfg ls = Some s" "trace_fits ls"
  shows "lang_inv s"
proof -
  have q: "distinct (queued_ids s)"
    using assms by (auto simp: lang_sched_init_def Let_def trace_fits_def
        split: if_split_asm option.split_asm dest!: parse_trace_distinct)
  have "ls_active s = []" "ls_in_model s = []"
    using assms(1) by (auto simp: lang_sched_init_def Let_def split: if_split_asm option.split_asm)
  then show ?thesis using q by (simp add: lang_inv_def active_wf_def models_wf_def is_running_def)
qed

section \<open>Properties\<close>

text \<open>C28: from the constructor, no sequence of cycles (of either scheduler), model hand-overs and
  completions reaches undefined behaviour; the program ends only through the memory check, and at
  every other time at most one model is outstanding, a request is marked running exactly when
  that model computes it, and requests still queued are not active.\<close>

theorem lang_running_iff_in_model:
  assumes "lang_sched_init dram prec mc cfg ls = Some s0" "trace_fits ls"
  shows "\<exists>x. run_ops lang_step ops (Inr s0) = Some x \<and>
    (case x of Inl e \<Rightarrow> e = MemoryExceeded
     | Inr s \<Rightarrow> length (ls_in_model s) \<le> 1 \<and> distinct (requests_in_models s) \<and>
        (\<forall>rid. rid \<in> set (requests_in_models s) \<longleftrightarrow> is_running s rid) \<and>
        (\<forall>rid\<in>set (queued_ids s). map_of (ls_active s) rid = None))"
proof -
  have "lang_ok (Inr s0)" using lang_init_inv [OF assms] by (simp add: lang_ok_def)
  then obtain x where "run_ops lang_step ops (Inr s0) = Some x" "lang_ok x"
    using lang.run_invariant [of "Inr s0" ops] by (auto simp: list_all_def)
  then show ?thesis
    by (auto simp: lang_ok_def lang_inv_def models_wf_def active_wf_def split: sum.splits)
qed

definition small_model :: model_config where
  "small_model = \<lparr> mc_num_hidden_layers = 2, mc_pipeline_parallel_size = 1,
     mc_num_attention_heads = 4, mc_num_kv_heads = 4, mc_hidden_size = 64,
     mc_max_seq_length = 128, mc_run_single_layer = False, mc_weight_size = 0, mc_act_size = 0 \<rparr>"

definition small_trace :: "string list" where
  "small_trace = [''0,4,2,0'', ''0,3,2,0'']"

lemmas decimal_simps = stoul_def stoi_def is_space_def is_digit_def digits_val_def digit_val_def

lemma decimal_samples:
  "stoul ''0'' = Some 0" "stoi ''0'' = Some 0" "stoi ''2'' = Some 2" "stoi ''3'' = Some 3"
  "stoi ''4'' = Some 4"
  by (simp_all add: decimal_simps Let_def)

lemma small_parse:
  "\<exists>r0 r1. parse_request_trace 0 0 small_trace = Some [r0, r1] \<and>
    lr_request_time r0 = 0 \<and> lr_request_time r1 = 0 \<and> lr_request_id r0 = 0 \<and> lr_request_id r1 = 1"
  by (simp add: small_trace_def parse_request_def decimal_samples int_add_def field_def Let_def)

lemma small_init:
  "\<exists>s. lang_sched_init 0 2 small_model [''max_batch_size'' \<mapsto> 1] (Some small_trace) = Some s \<and>
    ls_max_batch_size s = 1 \<and> ls_active s = [] \<and> ls_cycle s = 0 \<and>
    ls_model_queue s = [] \<and> ls_in_model s = [] \<and>
    map lr_request_time (ls_request_queue s) = [0, 0] \<and> queued_ids s = [0, 1]"
  using small_parse by (auto simp: lang_sched_init_def small_model_def Let_def)

lemma lang_running_iff_in_model_witness:
  "\<exists>s0. lang_sched_init 0 2 small_model [''max_batch_size'' \<mapsto> 1] (Some small_trace) = Some s0 \<and>
    run_ops lang_step [SimpleCycle 7, LangPop, LangFinish 7] (Inr s0) \<noteq> None"
proof -
  obtain s0 where s0: "lang_sched_init 0 2 small_model [''max_batch_size'' \<mapsto> 1] (Some small_trace) = Some s0"
    using small_init by blast
  have "trace_fits (Some small_trace)" by (simp add: trace_fits_def small_trace_def)
  from lang_running_iff_in_model [OF s0 this, of "[SimpleCycle 7, LangPop, LangFinish 7]"] s0
  show ?thesis by auto
qed

text \<open>C29: a finished model advances exactly its own requests, in order: the prompt step by the
  prompt length and one token, every other step by one token; a request that has reached its
  target leaves the active set, the others are free to be scheduled again, one event per request
  reports the step, and the model is forgotten.\<close>

theorem finish_model_advances:
  assumes "lang_inv s" "map_of (ls_in_model s) mid = Some ids"
  shows "\<exists>s'. lang_finish_model mid s = Inr s' \<and> map_of (ls_in_model s') mid = None \<and>
    (\<forall>rid. map_of (ls_active s') rid = (case map_of (ls_active s) rid of None \<Rightarrow> None | Some r \<Rightarrow>
       if rid \<notin> set ids then Some r
       else if lr_target_length r \<le> next_length r then None else Some (advanced s r))) \<and>
    map le_request_id (ls_finished_events s') = ids \<and>
    (\<forall>rid\<in>set ids. \<not> is_running s' rid)"
proof -
  have ids: "\<forall>i\<in>set ids. \<exists>r. map_of (ls_active s) i = Some r \<and> lr_request_id r = i"
    using in_model_active [OF assms] by blast
  obtain s' where s': "lang_finish_model mid s = Inr s'" "ls_in_model s' = smap_del mid (ls_in_model s)"
    "ls_finished_events s' = map (\<lambda>i. finished_event (the (map_of (ls_active s) i))) ids"
    "\<forall>i. map_of (ls_active s') i = (if i \<in> set ids then
       (let r = the (map_of (ls_active s) i) in if completes r then None else Some (advanced s r))
     else map_of (ls_active s) i)"
    using finish_model_eq [OF assms(1) refl, of mid] assms(2) by auto
  have "map le_request_id (ls_finished_events s') = ids"
    unfolding s'(3) map_map by (rule map_idI) (use ids in \<open>fastforce simp: finished_event_def\<close>)
  then show ?thesis
    using s' ids by (intro exI [of _ s'])
      (auto simp: completes_def is_running_Some advanced_def Let_def split: option.splits if_split_asm)
qed

definition one_running :: lang_sched where
  "one_running = \<lparr> ls_dram_size = 0, ls_precision = 2, ls_scheduler_config = Map.empty,
     ls_weight_size = 0, ls_act_size = 0, ls_request_queue = [],
     ls_active = [(0, \<lparr> lr_request_id = 0, lr_running = True, lr_gen_phase = False,
       lr_request_time = 0, lr_start_time = 1, lr_finish_time = 0, lr_prompt_length = 4,
       lr_current_length = 0, lr_target_length = 6, lr_key_cache = [[0, 64]],
       lr_value_cache = [[0, 64]], lr_spec_phase = PROMPT_PENDING, lr_spec_round = 0,
       lr_planned_draft_length = 0, lr_drafted_in_round = 0, lr_verify_round_id = 0,
       lr_last_task_type = AUTOREG \<rparr>)],
     ls_in_model = [(7, [0])], ls_model_queue = [], ls_finished_events = [], ls_cycle = 9,
     ls_num_layers = 1, ls_num_sim_layers = 1, ls_num_attention_heads = 4, ls_num_kv_heads = 4,
     ls_hidden_size = 64, ls_cache_dim = 64, ls_max_seq_length = 128, ls_max_batch_size = 1,
     ls_run_single_layer = False, ls_check_mem_size = True, ls_max_dims = [128, 64] \<rparr>"

lemma one_running_inv: "lang_inv one_running"
  by (simp add: one_running_def lang_inv_def active_wf_def models_wf_def has_caches_def
      is_running_def smap_wf_def)

lemma finish_model_advances_witness:
  "\<exists>s'. lang_finish_model 7 one_running = Inr s' \<and> map le_request_id (ls_finished_events s') = [0]"
proof -
  have "map_of (ls_in_model one_running) 7 = Some [0]" by (simp add: one_running_def)
  from finish_model_advances [OF one_running_inv this] show ?thesis by auto
qed

section \<open>Batch limits\<close>

text \<open>\<^verbatim>\<open>extra\<close> is how far the scheduler may exceed its limit: 0 for the base scheduler, 1 for the
  iteration-level one.\<close>

definition within_batch :: "nat \<Rightarrow> u32 \<Rightarrow> 'a lang_sched_scheme \<Rightarrow> bool" where
  "within_batch extra b s \<longleftrightarrow> ls_max_batch_size s = b \<and> lang_inv s \<and>
     length (ls_active s) \<le> unat b + extra \<and>
     (\<forall>m\<in>set (ls_model_queue s). length (lm_inputs m) \<le> unat b)"

definition within_batch_ok :: "nat \<Rightarrow> u32 \<Rightarrow> lang_error + lang_sched \<Rightarrow> bool" where
  "within_batch_ok extra b x = (case x of Inl _ \<Rightarrow> True | Inr s \<Rightarrow> within_batch extra b s)"

fun scheduler_op :: "nat \<Rightarrow> lang_op \<Rightarrow> bool" where
  "scheduler_op extra (SimpleCycle mid) = (extra = 0)"
| "scheduler_op extra (IterCycle mid) = (extra = 1)"
| "scheduler_op extra _ = True"

lemma admit_config [simp]:
  "ls_max_batch_size (admit prep s) = ls_max_batch_size s" "ls_model_queue (admit prep s) = ls_model_queue s"
  by (rule admit_preserves [where P = "\<lambda>s'. ls_max_batch_size s' = ls_max_batch_size s"];
      simp add: admit_one_def Let_def)
    (rule admit_preserves [where P = "\<lambda>s'. ls_model_queue s' = ls_model_queue s"];
      simp add: admit_one_def Let_def)

lemma mark_all_length:
  "smap_wf m \<Longrightarrow> length (fold (\<lambda>i. mark_running (f i)) is m) = length m"
proof (induction "is" arbitrary: m)
  case (Cons i "is")
  have "length (mark_running (f i) m) = length m"
    using Cons.prems by (auto simp: mark_running_def length_smap_put_old split: option.split)
  then show ?case using Cons by simp
qed simp

lemma init_inputs_within:
  assumes "within_batch extra b s" "ls_in_model s = []" "0 < b" "init_inputs_and_model mid s = Inr s1"
  shows "within_batch extra b s1"
proof -
  have inv: "lang_inv s1" using init_inputs_inv [of s mid] assms by (auto simp: within_batch_def)
  have wf: "smap_wf (ls_active s)" using assms(1) by (simp add: within_batch_def lang_inv_def active_wf_def)
  let ?is = "collect_inputs b (ls_active s) []"
  have "length ?is \<le> unat b"
    using assms(3) by (intro collect_inputs_batch) (auto simp: word_less_nat_alt)
  moreover have b: "ls_max_batch_size s = b" using assms(1) by (simp add: within_batch_def)
  moreover have "s1 = s \<or> (ls_max_batch_size s1 = b \<and>
      ls_model_queue s1 = ls_model_queue s @ [\<lparr> lm_id = mid, lm_inputs = ?is \<rparr>] \<and>
      ls_active s1 = fold (\<lambda>i. mark_running (li_request_id i)) ?is (ls_active s))"
    using assms(4) b by (auto simp: init_inputs_and_model_def Let_def split: if_split_asm option.split_asm)
  ultimately show ?thesis
    using assms(1) inv mark_all_length [OF wf, of li_request_id ?is]
    by (elim disjE conjE) (simp_all add: within_batch_def ball_Un)
qed

lemma build_within:
  assumes "within_batch extra b s" "0 < b"
    "not_undefined (if ls_model_queue s = [] \<and> ls_in_model s = []
       then init_inputs_and_model mid s else Inr s) = Some y"
  shows "within_batch_ok extra b y"
  using assms init_inputs_within [OF assms(1) _ assms(2)]
  by (auto simp: not_undefined_def within_batch_ok_def split: if_split_asm sum.splits)

lemma smap_dom_length:
  assumes "smap_wf m" "smap_wf m'" "dom (map_of m') \<subseteq> dom (map_of m)"
  shows "length m' \<le> length m"
proof -
  have "set (smap_keys m') \<subseteq> set (smap_keys m)" using assms(3) by (simp add: dom_map_of_conv_image_fst)
  then have "card (set (smap_keys m')) \<le> card (set (smap_keys m))" by (rule card_mono [OF finite_set])
  then show ?thesis
    using distinct_card [OF smap_wf_distinct [OF assms(1)]] distinct_card [OF smap_wf_distinct [OF assms(2)]]
    by simp
qed

lemma finish_model_within:
  assumes "within_batch extra b s" "lang_finish_model mid s = Inr s'"
  shows "within_batch extra b s'"
proof -
  have inv: "lang_inv s" using assms(1) by (simp add: within_batch_def)
  define ids where "ids = (case map_of (ls_in_model s) mid of None \<Rightarrow> [] | Some l \<Rightarrow> l)"
  have s': "lang_inv s'" "ls_model_queue s' = ls_model_queue s"
    "ls_max_batch_size s' = ls_max_batch_size s"
    "\<forall>i. map_of (ls_active s') i = (if i \<in> set ids then
       (let r = the (map_of (ls_active s) i) in if completes r then None else Some (advanced s r))
     else map_of (ls_active s) i)"
    using finish_model_eq [OF inv ids_def] assms(2) by auto
  have ids: "set ids \<subseteq> dom (map_of (ls_active s))"
    using in_model_active [OF inv, of mid]
    by (cases "map_of (ls_in_model s) mid") (fastforce simp: ids_def)+
  have "dom (map_of (ls_active s')) \<subseteq> dom (map_of (ls_active s))"
  proof
    fix i assume "i \<in> dom (map_of (ls_active s'))"
    then show "i \<in> dom (map_of (ls_active s))"
      using s'(4) ids by (cases "i \<in> set ids") (auto simp: dom_def)
  qed
  then have "length (ls_active s') \<le> length (ls_active s)"
    using inv s'(1) by (intro smap_dom_length) (simp_all add: lang_inv_def active_wf_def)
  then show ?thesis using assms(1) s' by (simp add: within_batch_def)
qed

lemma lang_step_within:
  assumes "within_batch_ok extra b x" "0 < b" "scheduler_op extra op" "lang_step op x = Some y"
  shows "within_batch_ok extra b y"
proof (cases x)
  case (Inl e)
  then show ?thesis using assms(4) by (auto simp: not_undefined_def within_batch_ok_def split: if_split_asm)
next
  case (Inr s)
  have w: "within_batch extra b s" using assms(1) Inr by (simp add: within_batch_ok_def)
  then have bs: "ls_max_batch_size s = b" and inv: "lang_inv s" by (simp_all add: within_batch_def)
  have b: "0 < unat b" using assms(2) by (simp add: word_less_nat_alt)
  let ?s = "s\<lparr> ls_cycle := ls_cycle s + 1 \<rparr>"
  have inv1: "lang_inv ?s" by (rule lang_inv_frame [OF inv]) simp_all
  have adm: "within_batch extra b (admit (\<lambda>r. r) ?s)" if "length (ls_active s) + 1 \<le> unat b + extra"
    using that w admit_bound [of "unat b" ?s "\<lambda>r. r"] b admit_inv [OF _ inv1]
    by (auto simp: within_batch_def bs)
  have w1: "within_batch extra b ?s" using w inv1 by (simp add: within_batch_def)
  show ?thesis
  proof (cases op)
    case (SimpleCycle mid)
    then have "within_batch extra b (if ls_active ?s = [] then admit (\<lambda>r. r) ?s else ?s)"
      using adm w1 b by auto
    from build_within [OF this assms(2)] show ?thesis
      using assms(4) by (simp add: Inr SimpleCycle lang_cycle_def Let_def)
  next
    case (IterCycle mid)
    then have "within_batch extra b (if length (ls_active ?s) \<le> unat (ls_max_batch_size ?s) \<or>
        ls_max_batch_size ?s = 0 then admit (\<lambda>r. r) ?s else ?s)"
      using adm w1 b assms(3) by (auto simp: bs)
    from build_within [OF this assms(2)] show ?thesis
      using assms(4) by (simp add: Inr IterCycle iter_cycle_def Let_def)
  next
    case LangPop
    have q: "lang_inv (s\<lparr> ls_model_queue := ms \<rparr>)" for ms by (rule lang_inv_frame [OF inv]) simp_all
    from LangPop show ?thesis
      using w assms(4)
      by (auto simp: Inr can_schedule_model_def pop_model_def within_batch_ok_def within_batch_def q
          split: list.split_asm if_split_asm)
  next
    case (LangFinish mid)
    then show ?thesis
      using finish_model_within [OF w] assms(4)
      by (auto simp: Inr not_undefined_def within_batch_ok_def split: sum.split if_split_asm)
  next
    case LangConsume
    have "lang_inv (s\<lparr> ls_finished_events := [] \<rparr>)" by (rule lang_inv_frame [OF inv]) simp_all
    then show ?thesis
      using w assms(4) LangConsume
      by (auto simp: Inr consume_finished_events_def within_batch_ok_def within_batch_def)
  qed
qed

interpretation lang_limits: partial_invariant lang_step
    "\<lambda>x. 0 < b \<and> within_batch_ok extra b x" "scheduler_op extra" for extra b
  by unfold_locales (blast intro: lang_step_within)

text \<open>The base scheduler never has more active requests than its batch limit, the
  iteration-level scheduler at most one more (its admission test is \<^verbatim>\<open><=\<close>), and no model ever
  computes more requests than the limit.\<close>

theorem admission_bounds:
  assumes "lang_sched_init dram prec mc cfg ls = Some s0" "trace_fits ls"
    "0 < ls_max_batch_size s0" "list_all (scheduler_op extra) ops"
    "run_ops lang_step ops (Inr s0) = Some (Inr s)"
  shows "length (ls_active s) \<le> unat (ls_max_batch_size s0) + extra \<and>
    (\<forall>m\<in>set (ls_model_queue s). length (lm_inputs m) \<le> unat (ls_max_batch_size s0))"
proof -
  have "ls_active s0 = []" "ls_model_queue s0 = []"
    using assms(1) by (auto simp: lang_sched_init_def Let_def split: if_split_asm option.split_asm)
  then have "within_batch_ok extra (ls_max_batch_size s0) (Inr s0)"
    using lang_init_inv [OF assms(1,2)] by (simp add: within_batch_ok_def within_batch_def)
  from lang_limits.run_keeps [OF conjI [OF assms(3) this] assms(4,5)] show ?thesis
    by (auto simp: within_batch_ok_def within_batch_def)
qed

lemma build_no_memory_limit:
  "ls_dram_size s = 0 \<Longrightarrow> init_inputs_and_model mid s \<noteq> Inl MemoryExceeded"
  by (auto simp: init_inputs_and_model_def memory_exceeded_def Let_def split: option.split)

lemma admission_bounds_witness:
  "\<exists>s0 s. lang_sched_init 0 2 small_model [''max_batch_size'' \<mapsto> 1] (Some small_trace) = Some s0 \<and>
    run_ops lang_step [SimpleCycle 7, LangPop] (Inr s0) = Some (Inr s) \<and> length (ls_active s) \<le> 1"
proof -
  obtain s0 where s0: "lang_sched_init 0 2 small_model [''max_batch_size'' \<mapsto> 1] (Some small_trace) = Some s0"
    "ls_max_batch_size s0 = 1" using small_init by blast
  have t: "trace_fits (Some small_trace)" by (simp add: trace_fits_def small_trace_def)
  have "ls_dram_size s0 = 0"
    using s0(1) by (auto simp: lang_sched_init_def Let_def split: if_split_asm option.split_asm)
  then have d: "ls_dram_size (admit (\<lambda>r. r) (s0\<lparr> ls_cycle := ls_cycle s0 + 1 \<rparr>)) = 0"
    by (intro admit_preserves [where P = "\<lambda>s. ls_dram_size s = 0"]) (simp_all add: admit_one_def Let_def)
  have "lang_cycle 7 s0 \<noteq> Inl MemoryExceeded"
    using d \<open>ls_dram_size s0 = 0\<close> by (simp add: lang_cycle_def Let_def build_no_memory_limit)
  moreover obtain x where "run_ops lang_step [SimpleCycle 7] (Inr s0) = Some x" "lang_ok x"
    using lang.run_invariant [of "Inr s0" "[SimpleCycle 7]"] lang_init_inv [OF s0(1) t]
    by (auto simp: lang_ok_def)
  ultimately obtain s1 where "lang_cycle 7 s0 = Inr s1"
    by (cases x) (auto simp: lang_ok_def not_undefined_def split: if_split_asm option.split_asm)
  then obtain s where s: "run_ops lang_step [SimpleCycle 7, LangPop] (Inr s0) = Some (Inr s)"
    by (cases "ls_model_queue s1")
      (auto simp: not_undefined_def can_schedule_model_def pop_model_def)
  from admission_bounds [OF s0(1) t _ _ s, of 0] s s0 show ?thesis by auto
qed

text \<open>The bound of the iteration-level scheduler is reached: with a limit of one request it makes
  a second one active.\<close>

lemma iter_exceeds_limit:
  "case iter_cycle 8 (one_running\<lparr> ls_request_queue := [(snd (hd (ls_active one_running)))
       \<lparr> lr_request_id := 1 \<rparr>] \<rparr>) of
     Inl _ \<Rightarrow> False
   | Inr s \<Rightarrow> ls_max_batch_size s = 1 \<and> map fst (ls_active s) = [0, 1]"
  by (simp add: iter_cycle_def one_running_def admit.simps admit_one_def init_request_def Let_def
      split: sum.split)

text \<open>One column of a line of the trace.\<close>

definition column :: "nat \<Rightarrow> string \<Rightarrow> string" where
  "column k l = field (split_on (CHR '','') [] l) k"

lemma stoi_range: "stoi s = Some v \<Longrightarrow> sint (of_int v :: u32) = v"
  by (auto simp: stoi_def Let_def signed_of_int signed_take_bit_int_eq_self split: if_split_asm)

lemma parse_request_columns:
  assumes "parse_request rid off l = Some (r, off')"
  shows "off' = off + the (stoul (column 0 l)) \<and> lr_request_time r = off' \<and>
    stoi (column 1 l) = Some (sint (lr_prompt_length r)) \<and>
    stoi (column 3 l) = Some (sint (lr_current_length r)) \<and>
    lr_target_length r = lr_current_length r + lr_prompt_length r + of_int (the (stoi (column 2 l)))"
proof -
  obtain p t c where v: "stoi (column 1 l) = Some p" "stoi (column 2 l) = Some t"
    "stoi (column 3 l) = Some c" "lr_prompt_length r = of_int p" "lr_current_length r = of_int c"
    "lr_target_length r = of_int (c + p + t)" "off' = off + the (stoul (column 0 l))"
    "lr_request_time r = off'"
    using assms by (auto simp: parse_request_def column_def int_add_def Let_def
        split: option.split_asm if_split_asm)
  then show ?thesis using stoi_range [OF v(1)] stoi_range [OF v(3)] by simp
qed

lemma parse_trace_columns:
  assumes "parse_request_trace rid off ls = Some rs" "i < length ls"
  shows "lr_request_time (rs ! i) = off + (\<Sum>l\<leftarrow>take (Suc i) ls. the (stoul (column 0 l))) \<and>
    (\<exists>o1 o2. parse_request (rid + of_nat i) o1 (ls ! i) = Some (rs ! i, o2))"
  using assms
proof (induction rid off ls arbitrary: rs i rule: parse_request_trace.induct)
  case (2 rid off l ls)
  obtain r off' rs' where r: "parse_request rid off l = Some (r, off')"
    "parse_request_trace (rid + 1) off' ls = Some rs'" "rs = r # rs'"
    using 2(2) by (auto split: option.split_asm)
  note c = parse_request_columns [OF r(1)]
  show ?case
  proof (cases i)
    case 0
    then show ?thesis using r c by auto
  next
    case (Suc j)
    from 2(1) [OF r(1) refl r(2), of j] 2(3) Suc show ?thesis
      using r(3) c by (auto simp: add.assoc)
  qed
qed simp

text \<open>A trace yields one request per line, numbered from 0 in order, queued at the sum of the
  time offsets of the lines up to its own; its lengths are the line's columns and its target the
  sum of the cached, prompt and generated lengths.\<close>

theorem trace_requests:
  assumes "parse_request_trace 0 0 ls = Some rs"
  shows "map lr_request_id rs = map of_nat [0..<length ls] \<and>
    (\<forall>i<length ls. let l = ls ! i; r = rs ! i in
       lr_request_time r = (\<Sum>l\<leftarrow>take (Suc i) ls. the (stoul (column 0 l))) \<and>
       stoi (column 1 l) = Some (sint (lr_prompt_length r)) \<and>
       stoi (column 3 l) = Some (sint (lr_current_length r)) \<and>
       lr_target_length r = lr_current_length r + lr_prompt_length r + of_int (the (stoi (column 2 l))))"
proof (intro conjI allI impI)
  show "map lr_request_id rs = map of_nat [0..<length ls]" using parse_trace_ids [OF assms] by simp
  fix i assume i: "i < length ls"
  from parse_trace_columns [OF assms i] obtain o1 o2 where
    t: "lr_request_time (rs ! i) = (\<Sum>l\<leftarrow>take (Suc i) ls. the (stoul (column 0 l)))"
    and p: "parse_request (of_nat i) o1 (ls ! i) = Some (rs ! i, o2)" by auto
  show "let l = ls ! i; r = rs ! i in
       lr_request_time r = (\<Sum>l\<leftarrow>take (Suc i) ls. the (stoul (column 0 l))) \<and>
       stoi (column 1 l) = Some (sint (lr_prompt_length r)) \<and>
       stoi (column 3 l) = Some (sint (lr_current_length r)) \<and>
       lr_target_length r = lr_current_length r + lr_prompt_length r + of_int (the (stoi (column 2 l)))"
    using parse_request_columns [OF p] t by (simp add: Let_def)
qed

lemma trace_requests_witness:
  "\<exists>rs. parse_request_trace 0 0 small_trace = Some rs \<and> map lr_request_id rs = [0, 1]"
proof -
  obtain r0 r1 where r: "parse_request_trace 0 0 small_trace = Some [r0, r1]" using small_parse by blast
  have "map lr_request_id [r0, r1] = map of_nat [0..<length small_trace]"
    by (rule conjunct1 [OF trace_requests [OF r]])
  then show ?thesis using r by (simp add: small_trace_def upt_rec)
qed

end
