(* ===== verification/Acceptance.thy ===== *)
theory Acceptance
  imports NpuCommon Floats
begin

text \<open>
  The synthetic acceptance model, \<^verbatim>\<open>ONNXim/src/SyntheticAcceptanceModel.{h,cc}\<close>: how many tokens
  of a draft a verification accepts, read from a trace or sampled from a parametric curve.  What
  the C++ library leaves to the implementation is a parameter: \<^verbatim>\<open>exp_libm\<close> (\<^verbatim>\<open>std::exp\<close>), \<^verbatim>\<open>u01\<close>
  (the \<^verbatim>\<open>n\<close>-th value of \<^verbatim>\<open>uniform_real_distribution\<close> over a \<^verbatim>\<open>mt19937_64\<close> with a given seed) and
  \<^verbatim>\<open>stof\<close> (whose value nothing reads; only its failure matters).
\<close>

section \<open>Data\<close>

record accept_coeffs =
  co_base :: fp
  co_alpha :: fp
  co_length_decay :: fp
  co_p_min :: fp

datatype accept_mode = PARAMETRIC | TRACE_REPLAY | TRACE_THEN_PARAMETRIC

record trace_row =
  tr_draft_length :: u32
  tr_avg_entropy :: fp
  tr_accepted_length :: u32

record accept_model =
  am_coeffs :: accept_coeffs
  am_mode :: accept_mode
  am_seed :: u64
  am_trace_rows :: "u32 \<times> u32 \<Rightarrow> trace_row option"

record accept_config =
  acc_mode :: string
  acc_coeffs :: accept_coeffs
  acc_rng_seed :: u64

section \<open>The trace file\<close>

definition is_blank :: "char \<Rightarrow> bool" where
  "is_blank c \<longleftrightarrow> c = CHR '' '' \<or> (of_char c :: nat) = 9 \<or> (of_char c :: nat) = 13 \<or> (of_char c :: nat) = 10"

definition trim :: "string \<Rightarrow> string" where
  "trim s = rev (dropWhile is_blank (rev (dropWhile is_blank s)))"

definition parse_mode :: "string \<Rightarrow> accept_mode" where
  "parse_mode s =
     (if s = ''trace_replay'' then TRACE_REPLAY
      else if s = ''trace_then_parametric'' then TRACE_THEN_PARAMETRIC
      else PARAMETRIC)"

fun contains :: "string \<Rightarrow> string \<Rightarrow> bool" where
  "contains pat [] = (pat = [])"
| "contains pat (c # cs) = (take (length pat) (c # cs) = pat \<or> contains pat cs)"

text \<open>One line of four or five columns; \<^const>\<open>None\<close> when it is skipped.\<close>

definition parse_row ::
  "(string \<Rightarrow> fp option) \<Rightarrow> string list \<Rightarrow> ((u32 \<times> u32) \<times> trace_row) option" where
  "parse_row stof cells =
     (let row = (\<lambda>rid rnd_no d e a.
        case (stoul rnd_no, stoul d, stof e, stoul a) of
          (Some r, Some d', Some e', Some a') \<Rightarrow>
            Some ((rid, ucast r), \<lparr> tr_draft_length = ucast d', tr_avg_entropy = e',
                                   tr_accepted_length = ucast a' \<rparr>)
        | _ \<Rightarrow> None) in
      case cells of
        [c0, c1, c2, c3] \<Rightarrow> row 0 c0 c1 c2 c3
      | [c0, c1, c2, c3, c4] \<Rightarrow>
          (case stoul c0 of None \<Rightarrow> None | Some rid \<Rightarrow> row (ucast rid) c1 c2 c3 c4)
      | _ \<Rightarrow> None)"

fun load_trace_lines ::
  "(string \<Rightarrow> fp option) \<Rightarrow> bool \<Rightarrow> string list \<Rightarrow> (u32 \<times> u32 \<Rightarrow> trace_row option) \<Rightarrow>
   u32 \<times> u32 \<Rightarrow> trace_row option" where
  "load_trace_lines stof header_seen [] rows = rows"
| "load_trace_lines stof header_seen (line # lines) rows =
     (let t = trim line in
      if t = [] \<or> hd t = CHR ''#'' then load_trace_lines stof header_seen lines rows
      else if \<not> header_seen \<and> contains ''draft_length'' t then load_trace_lines stof True lines rows
      else case parse_row stof (map trim (split_on (CHR '','') [] t)) of
        None \<Rightarrow> load_trace_lines stof True lines rows
      | Some (key, row) \<Rightarrow> load_trace_lines stof True lines (rows(key \<mapsto> row)))"

text \<open>\<^verbatim>\<open>file\<close> is \<^const>\<open>None\<close> when no trace is configured or it cannot be opened.\<close>

definition load_from_config ::
  "(string \<Rightarrow> fp option) \<Rightarrow> accept_config \<Rightarrow> string list option \<Rightarrow> accept_model" where
  "load_from_config stof cfg file =
     \<lparr> am_coeffs = acc_coeffs cfg, am_mode = parse_mode (acc_mode cfg), am_seed = acc_rng_seed cfg,
       am_trace_rows = (case file of None \<Rightarrow> Map.empty
         | Some lines \<Rightarrow> load_trace_lines stof False lines Map.empty) \<rparr>"

section \<open>Sampling\<close>

definition round_seed :: "u64 \<Rightarrow> u32 \<Rightarrow> u32 \<Rightarrow> u64" where
  "round_seed seed rid spec_round =
     xor (xor seed (ucast rid * 0x9E3779B97F4A7C15)) (ucast spec_round * 0xBF58476D1CE4E5B9)"

definition base_probability :: "(fp \<Rightarrow> fp) \<Rightarrow> accept_coeffs \<Rightarrow> fp \<Rightarrow> fp" where
  "base_probability exp_libm c entropy_hint =
     fmaxi (co_p_min c)
       (fmini (FFin 1) (fmul b64 (co_base c) (exp_libm (fmul b64 (fneg (co_alpha c)) entropy_hint))))"

definition token_probability :: "accept_coeffs \<Rightarrow> fp \<Rightarrow> u32 \<Rightarrow> u32 \<Rightarrow> fp" where
  "token_probability c base draft_length i =
     (let denom = fmaxi (FFin 1) (du64 (draft_length - 1));
          frac = fdiv b64 (du64 i) denom;
          p = fmul b64 base (fsub b64 (FFin 1) (fmul b64 (co_length_decay c) frac));
          p1 = (if flt p (co_p_min c) then co_p_min c else p)
      in (if flt (FFin 1) p1 then FFin 1 else p1))"

text \<open>The chain of acceptances from token \<^verbatim>\<open>i\<close> on.\<close>

function accept_chain :: "(nat \<Rightarrow> fp) \<Rightarrow> (u32 \<Rightarrow> fp) \<Rightarrow> u32 \<Rightarrow> u32 \<Rightarrow> u32" where
  "accept_chain draws p draft_length i =
     (if i < draft_length \<and> fle (draws (unat i)) (p i)
      then accept_chain draws p draft_length (i + 1) else i)"
  by auto
termination
  by (relation "measure (\<lambda>(draws, p, n, i). unat n - unat i)")
     (auto simp: unat_succ_of_less word_less_nat_alt)

declare accept_chain.simps [simp del]

definition sample_parametric ::
  "(fp \<Rightarrow> fp) \<Rightarrow> (u64 \<Rightarrow> nat \<Rightarrow> fp) \<Rightarrow> accept_model \<Rightarrow> u32 \<Rightarrow> u32 \<Rightarrow> u32 \<Rightarrow> fp \<Rightarrow> u32" where
  "sample_parametric exp_libm u01 m rid spec_round draft_length entropy_hint =
     (if draft_length = 0 then 0 else
      let base = base_probability exp_libm (am_coeffs m) entropy_hint in
      accept_chain (u01 (round_seed (am_seed m) rid spec_round))
        (token_probability (am_coeffs m) base draft_length) draft_length 0)"

definition lookup_trace :: "accept_model \<Rightarrow> u32 \<Rightarrow> u32 \<Rightarrow> trace_row option" where
  "lookup_trace m rid spec_round = am_trace_rows m (rid, spec_round)"

definition accept_sample ::
  "(fp \<Rightarrow> fp) \<Rightarrow> (u64 \<Rightarrow> nat \<Rightarrow> fp) \<Rightarrow> accept_model \<Rightarrow> u32 \<Rightarrow> u32 \<Rightarrow> u32 \<Rightarrow> fp \<Rightarrow> u32" where
  "accept_sample exp_libm u01 m rid spec_round draft_length entropy_hint =
     (case (if am_mode m = TRACE_REPLAY \<or> am_mode m = TRACE_THEN_PARAMETRIC
            then lookup_trace m rid spec_round else None) of
        Some row \<Rightarrow> min (tr_accepted_length row) draft_length
      | None \<Rightarrow> sample_parametric exp_libm u01 m rid spec_round draft_length entropy_hint)"

section \<open>What a sample is\<close>

lemma accept_chain_prefix:
  assumes "i \<le> n"
  shows "i \<le> accept_chain draws p n i \<and> accept_chain draws p n i \<le> n \<and>
    (\<forall>j. i \<le> j \<and> j < accept_chain draws p n i \<longrightarrow> fle (draws (unat j)) (p j)) \<and>
    (accept_chain draws p n i < n \<longrightarrow>
       \<not> fle (draws (unat (accept_chain draws p n i))) (p (accept_chain draws p n i)))"
  using assms
proof (induction draws p n i rule: accept_chain.induct)
  case (1 draws p n i)
  show ?case
  proof (cases "i < n \<and> fle (draws (unat i)) (p i)")
    case True
    then have lt: "i < n" by simp
    then have n: "unat (i + 1) = Suc (unat i)" by (simp add: unat_succ_of_less word_less_nat_alt)
    then have le: "i + 1 \<le> n" using lt by (simp add: word_le_nat_alt word_less_nat_alt)
    have split: "j = i \<or> i + 1 \<le> j" if "i \<le> j" for j
      using that n by (auto simp: word_le_nat_alt word_unat_eq_iff)
    have eq: "accept_chain draws p n i = accept_chain draws p n (i + 1)"
      using True by (subst accept_chain.simps) simp
    have "i \<le> i + 1" using n by (simp add: word_le_nat_alt)
    then show ?thesis
      using 1(1) [OF True le] True split unfolding eq by (blast intro: order_trans)
  next
    case False
    then have eq: "accept_chain draws p n i = i" by (subst accept_chain.simps) auto
    show ?thesis unfolding eq using 1(2) False by auto
  qed
qed

lemma accept_sample_le: "accept_sample ex u m rid r n h \<le> n"
  using accept_chain_prefix [of 0 n]
  by (auto simp: accept_sample_def sample_parametric_def Let_def split: option.split)

section \<open>Properties\<close>

text \<open>Whatever the random numbers, the model accepts a prefix of the draft: a traced round its
  recorded length clamped to the draft, any other round the longest prefix whose draws all stay
  within their acceptance probabilities.\<close>

theorem acceptance_is_prefix:
  shows "accept_sample ex u m rid r n h \<le> n \<and>
    (case (if am_mode m = PARAMETRIC then None else lookup_trace m rid r) of
       Some row \<Rightarrow> accept_sample ex u m rid r n h = min (tr_accepted_length row) n
     | None \<Rightarrow>
         (let k = accept_sample ex u m rid r n h;
              draw = (\<lambda>i. u (round_seed (am_seed m) rid r) (unat i));
              p = token_probability (am_coeffs m) (base_probability ex (am_coeffs m) h) n in
          {j. j < k} \<subseteq> {j. fle (draw j) (p j)} \<and> (k = n \<or> \<not> fle (draw k) (p k))))"
proof (cases "if am_mode m = PARAMETRIC then None else lookup_trace m rid r")
  case None
  then have eq: "accept_sample ex u m rid r n h = sample_parametric ex u m rid r n h"
    by (cases "am_mode m") (auto simp: accept_sample_def)
  show ?thesis
  proof (cases "n = 0")
    case True
    then have z: "accept_sample ex u m rid r n h = 0" unfolding eq using True by (simp add: sample_parametric_def)
    show ?thesis unfolding None z Let_def using True by simp
  next
    case False
    let ?d = "u (round_seed (am_seed m) rid r)"
    let ?p = "token_probability (am_coeffs m) (base_probability ex (am_coeffs m) h) n"
    have k: "accept_sample ex u m rid r n h = accept_chain ?d ?p n 0"
      using False by (simp add: eq sample_parametric_def)
    have pre: "accept_chain ?d ?p n 0 \<le> n"
      "\<forall>j. j < accept_chain ?d ?p n 0 \<longrightarrow> fle (?d (unat j)) (?p j)"
      "accept_chain ?d ?p n 0 = n \<or>
       \<not> fle (?d (unat (accept_chain ?d ?p n 0))) (?p (accept_chain ?d ?p n 0))"
      using accept_chain_prefix [of 0 n ?d ?p] by auto
    show ?thesis unfolding None k Let_def option.case using pre by blast
  qed
next
  case (Some row)
  then show ?thesis
    by (cases "am_mode m") (auto simp: accept_sample_def split: if_split_asm)
qed

definition traced_model :: accept_model where
  "traced_model = \<lparr> am_coeffs = \<lparr> co_base = FFin 0, co_alpha = FFin 0, co_length_decay = FFin 0,
       co_p_min = FFin 0 \<rparr>, am_mode = TRACE_REPLAY, am_seed = 0,
     am_trace_rows = [(0, 1) \<mapsto> \<lparr> tr_draft_length = 4, tr_avg_entropy = FFin 0,
       tr_accepted_length = 3 \<rparr>] \<rparr>"

lemma acceptance_is_prefix_witness:
  "accept_sample (\<lambda>x. x) (\<lambda>_ _. FFin 0) traced_model 0 1 2 (FFin 0) = 2"
  using acceptance_is_prefix [of "\<lambda>x. x" "\<lambda>_ _. FFin 0" traced_model 0 1 2 "FFin 0"]
  by (simp add: traced_model_def lookup_trace_def)

end
