(* ===== verification/SpecDecode.thy ===== *)
theory SpecDecode
  imports LangSched Acceptance AHASD SSRC VSKM PimBackend "HOL-Library.Monad_Syntax"
begin

text \<open>
  The speculative-decoding scheduler, \<^verbatim>\<open>ONNXim/src/scheduler/SpecDecodeScheduler.{h,cc}\<close>, on top
  of \<^verbatim>\<open>LangSched\<close>: per request a target prefill, then rounds of drafting and verification, with
  the draft length, the optional pre-verification, the rank switches, the deferred state writes
  and the KV cost taken from the attached components (\<^verbatim>\<open>AHASD\<close>, \<^verbatim>\<open>PimBackend\<close>, \<^verbatim>\<open>SSRC\<close>,
  \<^verbatim>\<open>VSKM\<close>).  The identifier of a generated model is an argument of the step that may generate it;
  \<^verbatim>\<open>exp_libm\<close> and \<^verbatim>\<open>u01\<close> are the parameters of the acceptance model.  \<^const>\<open>None\<close> is undefined
  behaviour (a null dereference, a missing tensor, an out-of-range conversion).
\<close>

section \<open>Data\<close>

record model_meta =
  mm_request_id :: u32
  mm_task_type :: lang_task
  mm_role :: string
  mm_draft_length_at_issue :: u32
  mm_verify_round :: u32
  mm_issue_cycle :: u64

record round_trace =
  rt_planned_draft_length :: u32
  rt_accepted_length :: u32
  rt_draft_issue_cycle :: u64
  rt_draft_finish_cycle :: u64
  rt_verify_issue_cycle :: u64
  rt_verify_finish_cycle :: u64
  rt_draft_tasks_finished :: u32
  rt_preverify_count :: u32
  rt_preverify_tokens :: u32
  rt_entropy :: fp

record spec_sched = lang_sched +
  sd_target_attached :: bool
  sd_model_meta :: "(u32, model_meta) smap"
  sd_max_draft_length :: u32
  sd_default_draft_length :: u32
  sd_ahasd :: "ahasd option"
  sd_pim :: "pim option"
  sd_ssrc :: "ssrc option"
  sd_ssrc_deferred_round :: "u32 \<Rightarrow> u32 option"
  sd_pre_verified_in_round :: "u32 \<Rightarrow> u32 option"
  sd_last_rank_mode :: "u32 \<Rightarrow> u32 option"
  sd_accept_model :: accept_model
  sd_vskm :: vskm
  sd_kv_state_stall_until :: "u32 \<Rightarrow> u64 option"
  sd_round_traces :: "u32 \<times> u32 \<Rightarrow> round_trace option"
  sd_accept_samples :: u64
  sd_accept_sum :: u64
  sd_accept_k_sum :: u64

section \<open>Construction\<close>

record spec_config =
  spc_max_draft_length :: u32
  spc_vskm :: vskm_config
  spc_accept :: accept_config

definition kv_bytes_per_token :: "'a lang_sched_scheme \<Rightarrow> u64" where
  "kv_bytes_per_token s =
     2 * ucast (ls_num_layers s) * ucast (ls_cache_dim s) * ucast (max 1 (ls_precision s))"

text \<open>The constructor body, given the base object and the lines of the acceptance trace.\<close>

definition spec_sched_of ::
  "(string \<Rightarrow> fp option) \<Rightarrow> spec_config \<Rightarrow> string list option \<Rightarrow> lang_sched \<Rightarrow> spec_sched" where
  "spec_sched_of stof cfg accept_file base =
     (let max_k = max 1 (spc_max_draft_length cfg);
          default_k = (case ls_scheduler_config base ''default_draft_length'' of
            None \<Rightarrow> max_k | Some n \<Rightarrow> max 1 (of_nat n))
      in lang_sched.extend base (spec_sched.fields False [] max_k default_k None None None
           Map.empty Map.empty Map.empty (load_from_config stof (spc_accept cfg) accept_file)
           (vskm_init (spc_vskm cfg) (kv_bytes_per_token base)) Map.empty Map.empty 0 0 0))"

text \<open>Late bindings; a second target model is refused.\<close>

definition attach_target_model :: "spec_sched \<Rightarrow> bool \<times> spec_sched" where
  "attach_target_model s =
     (if sd_target_attached s then (False, s) else (True, s\<lparr> sd_target_attached := True \<rparr>))"

definition attach_ahasd :: "ahasd option \<Rightarrow> pim option \<Rightarrow> spec_sched \<Rightarrow> spec_sched" where
  "attach_ahasd a p s = s\<lparr> sd_ahasd := a, sd_pim := p \<rparr>"

definition attach_ssrc :: "ssrc option \<Rightarrow> spec_sched \<Rightarrow> spec_sched" where
  "attach_ssrc c s = s\<lparr> sd_ssrc := c \<rparr>"

section \<open>Decisions\<close>

definition compute_entropy_hint :: "lang_request \<Rightarrow> fp" where
  "compute_entropy_hint r =
     (let progress = (if lr_prompt_length r < lr_current_length r
                      then lr_current_length r - lr_prompt_length r else 0);
          span = (if lr_prompt_length r < lr_target_length r
                  then lr_target_length r - lr_prompt_length r else 1);
          ratio = fmini (FFin 1) (fdiv b32 (fu32 progress) (fu32 (max 1 span)));
          base = fadd b32 (FFin (5/2)) (fmul b32 (FFin (5/2)) ratio);
          jitter = fmul b32 (FFin (1/2)) (fu32 (lr_spec_round r mod 4))
      in fmini (FFin (19/2)) (fmaxi (FFin (1/2)) (fadd b32 base jitter)))"

definition tokens_remaining :: "lang_request \<Rightarrow> u32" where
  "tokens_remaining r =
     (if lr_current_length r < lr_target_length r
      then lr_target_length r - lr_current_length r else 0)"

definition pick_draft_length :: "spec_sched \<Rightarrow> lang_request \<Rightarrow> (u32 \<times> spec_sched) option" where
  "pick_draft_length s r =
     (let cap = min (sd_max_draft_length s) (max 1 (tokens_remaining r)) in
      case sd_ahasd s of
        Some a \<Rightarrow>
          if ac_enable_edc (ah_config a)
          then map_option (\<lambda>(k, a'). (k, s\<lparr> sd_ahasd := Some a' \<rparr>))
                 (decide_draft_length a cap (compute_entropy_hint r))
          else Some (max 1 (min (sd_default_draft_length s) cap), s)
      | None \<Rightarrow> Some (max 1 (min (sd_default_draft_length s) cap), s))"

definition sample_accepted_length ::
  "(fp \<Rightarrow> fp) \<Rightarrow> (u64 \<Rightarrow> nat \<Rightarrow> fp) \<Rightarrow> spec_sched \<Rightarrow> lang_request \<Rightarrow> u32 \<Rightarrow> u32 \<times> spec_sched" where
  "sample_accepted_length exp_libm u01 s r draft_length =
     (if draft_length = 0 then (0, s) else
      let accepted = accept_sample exp_libm u01 (sd_accept_model s) (lr_request_id r)
                       (lr_spec_round r) draft_length (compute_entropy_hint r) in
      (accepted, s\<lparr> sd_accept_samples := sd_accept_samples s + 1,
                   sd_accept_sum := sd_accept_sum s + ucast accepted,
                   sd_accept_k_sum := sd_accept_k_sum s + ucast draft_length \<rparr>))"

section \<open>Bookkeeping\<close>

definition round_trace_init :: round_trace where
  "round_trace_init = \<lparr> rt_planned_draft_length = 0, rt_accepted_length = 0,
     rt_draft_issue_cycle = 0, rt_draft_finish_cycle = 0, rt_verify_issue_cycle = 0,
     rt_verify_finish_cycle = 0, rt_draft_tasks_finished = 0, rt_preverify_count = 0,
     rt_preverify_tokens = 0, rt_entropy = FFin 0 \<rparr>"

definition upd_round_trace ::
  "u32 \<Rightarrow> u32 \<Rightarrow> (round_trace \<Rightarrow> round_trace) \<Rightarrow> spec_sched \<Rightarrow> spec_sched" where
  "upd_round_trace rid rnd_no f s =
     s\<lparr> sd_round_traces := (sd_round_traces s)((rid, rnd_no) \<mapsto>
          f (case sd_round_traces s (rid, rnd_no) of None \<Rightarrow> round_trace_init | Some t \<Rightarrow> t)) \<rparr>"

definition put_active :: "u32 \<Rightarrow> lang_request \<Rightarrow> spec_sched \<Rightarrow> spec_sched" where
  "put_active rid r s = s\<lparr> ls_active := smap_put rid r (ls_active s) \<rparr>"

definition spec_busy :: "spec_sched \<Rightarrow> bool" where
  "spec_busy s \<longleftrightarrow> lang_busy s \<or> (\<exists>kv\<in>set (ls_active s). lr_spec_phase (snd kv) \<noteq> DONE)"

text \<open>\<^verbatim>\<open>build_model\<close> and what every issuing branch does with the model: record its meta data, mark
  the request running, tie it to the model and queue the model.\<close>

definition issue_model ::
  "u32 \<Rightarrow> lang_task \<Rightarrow> u32 \<Rightarrow> string \<Rightarrow> u32 \<Rightarrow> u32 \<Rightarrow> u32 \<Rightarrow> lang_request \<Rightarrow> spec_sched \<Rightarrow> spec_sched option" where
  "issue_model mid task seq_length role draft_length rnd_no rid r s =
     (if length (lr_key_cache r) < unat (ls_num_sim_layers s) \<or>
         length (lr_value_cache r) < unat (ls_num_sim_layers s) then None else
      let input = \<lparr> li_request_id = lr_request_id r, li_seq_length = seq_length,
                    li_context_length = lr_current_length r, li_spec_task_type = task_code task \<rparr>;
          meta = \<lparr> mm_request_id = lr_request_id r, mm_task_type = task, mm_role = role,
                   mm_draft_length_at_issue = draft_length, mm_verify_round = rnd_no,
                   mm_issue_cycle = ls_cycle s \<rparr>
      in Some (put_active rid (r\<lparr> lr_last_task_type := task, lr_running := True \<rparr>)
           (s\<lparr> sd_model_meta := smap_put mid meta (sd_model_meta s),
              ls_in_model := push_in_model mid (lr_request_id r) (ls_in_model s),
              ls_model_queue := ls_model_queue s @ [\<lparr> lm_id = mid, lm_inputs = [input] \<rparr>] \<rparr>)))"

definition request_rank_switch :: "u32 \<Rightarrow> u32 \<Rightarrow> spec_sched \<Rightarrow> spec_sched" where
  "request_rank_switch desired_mode rid s =
     (case sd_pim s of None \<Rightarrow> s | Some p \<Rightarrow>
      if \<not> pb_active p \<or> sd_ahasd s = None then s else
      let current = (case sd_last_rank_mode s rid of None \<Rightarrow> 0 | Some m \<Rightarrow> m) in
      if current = desired_mode then s
      else s\<lparr> sd_pim := Some (snd (switch_all_pim_to p desired_mode (ls_cycle s))),
             sd_last_rank_mode := (sd_last_rank_mode s)(rid \<mapsto> desired_mode) \<rparr>)"

definition target_role :: "spec_sched \<Rightarrow> string" where
  "target_role s = (if sd_target_attached s then ''target'' else ''single'')"

section \<open>Issuing the next task of a request\<close>

definition open_round :: "lang_request \<Rightarrow> spec_sched \<Rightarrow> spec_sched" where
  "open_round r s =
     (let k = lr_planned_draft_length r;
          s1 = upd_round_trace (lr_request_id r) (lr_spec_round r)
            (\<lambda>t. t\<lparr> rt_planned_draft_length := k, rt_entropy := compute_entropy_hint r \<rparr>) s
      in s1\<lparr> sd_vskm := vskm_begin_round (sd_vskm s1) (lr_request_id r) (lr_spec_round r)
                          (lr_current_length r) k \<rparr>)"

definition defer_round :: "lang_request \<Rightarrow> spec_sched \<Rightarrow> spec_sched" where
  "defer_round r s =
     (case sd_ssrc s of None \<Rightarrow> s | Some c \<Rightarrow>
      if \<not> sc_enable (sr_cfg c) then s else
      let (yes, c') = should_defer_round c (lr_request_id r) (lr_spec_round r)
                        (lr_planned_draft_length r) (compute_entropy_hint r);
          deferred = sd_ssrc_deferred_round s
      in s\<lparr> sd_ssrc := Some c',
           sd_ssrc_deferred_round :=
             (if yes then deferred(lr_request_id r \<mapsto> lr_spec_round r) else deferred) \<rparr>)"

definition start_round :: "lang_request \<Rightarrow> spec_sched \<Rightarrow> (lang_request \<times> spec_sched) option" where
  "start_round r0 s0 = do {
     (k, s1) \<leftarrow> pick_draft_length s0 r0;
     let r = r0\<lparr> lr_planned_draft_length := k, lr_drafted_in_round := 0,
                lr_spec_round := lr_spec_round r0 + 1 \<rparr>;
     Some (r\<lparr> lr_spec_phase := DRAFTING \<rparr>, defer_round r (open_round r s1)) }"

definition issue_draft :: "u32 \<Rightarrow> u32 \<Rightarrow> lang_request \<Rightarrow> spec_sched \<Rightarrow> spec_sched option" where
  "issue_draft mid rid r s0 =
     (let s = request_rank_switch 0 (lr_request_id r) s0;
          s' = upd_round_trace (lr_request_id r) (lr_spec_round r)
            (\<lambda>t. if rt_draft_issue_cycle t = 0 then t\<lparr> rt_draft_issue_cycle := ls_cycle s \<rparr> else t) s
      in issue_model mid DRAFT 1 ''draft'' (lr_planned_draft_length r) (lr_spec_round r) rid r s')"

text \<open>The pre-verification length, 0 for none: at most one per round.\<close>

definition gate_pre_verify :: "lang_request \<Rightarrow> spec_sched \<Rightarrow> (u32 \<times> spec_sched) option" where
  "gate_pre_verify r s =
     (case sd_ahasd s of None \<Rightarrow> Some (0, s) | Some a \<Rightarrow>
      if \<not> ac_enable_tvc (ah_config a) \<or>
         sd_pre_verified_in_round s (lr_request_id r) = Some (lr_spec_round r) then Some (0, s)
      else do {
        a1 \<leftarrow> ahasd_start_npu_task a (ls_cycle s);
        (len, a2) \<leftarrow> decide_pre_verify a1 (lr_current_length r) (lr_planned_draft_length r);
        Some (len, s\<lparr> sd_ahasd := Some a2 \<rparr>) })"

definition mark_verify_issue :: "bool \<Rightarrow> u32 \<Rightarrow> lang_request \<Rightarrow> spec_sched \<Rightarrow> spec_sched" where
  "mark_verify_issue pre task_k r s =
     (let rid = lr_request_id r; rnd_no = lr_spec_round r;
          s1 = (if pre
                then s\<lparr> sd_pre_verified_in_round := (sd_pre_verified_in_round s)(rid \<mapsto> rnd_no) \<rparr>
                else s);
          s2 = request_rank_switch 1 rid s1
      in upd_round_trace rid rnd_no
           (\<lambda>t. if pre then t\<lparr> rt_preverify_count := rt_preverify_count t + 1,
                              rt_preverify_tokens := rt_preverify_tokens t + task_k \<rparr>
                else t\<lparr> rt_verify_issue_cycle := ls_cycle s2 \<rparr>) s2)"

definition issue_verify :: "u32 \<Rightarrow> u32 \<Rightarrow> lang_request \<Rightarrow> spec_sched \<Rightarrow> spec_sched option" where
  "issue_verify mid rid r s0 = do {
     (pv_len, s1) \<leftarrow> gate_pre_verify r s0;
     let k = max 1 (lr_planned_draft_length r);
     let pre = (0 < pv_len \<and> pv_len < k);
     let task_k = (if pre then pv_len else k);
     let s2 = mark_verify_issue pre task_k r s1;
     issue_model mid (if pre then PRE_VERIFY else VERIFY) task_k (target_role s2) task_k
       (lr_spec_round r) rid (r\<lparr> lr_verify_round_id := lr_spec_round r \<rparr>) s2 }"

text \<open>\<^const>\<open>None\<close> within the pair: no model was issued.\<close>

definition kv_stalled :: "spec_sched \<Rightarrow> lang_request \<Rightarrow> bool" where
  "kv_stalled s r = (case sd_kv_state_stall_until s (lr_request_id r) of
     None \<Rightarrow> False | Some until \<Rightarrow> ls_cycle s < until)"

definition issue_for_phase :: "u32 \<Rightarrow> u32 \<Rightarrow> lang_request \<Rightarrow> spec_sched \<Rightarrow> (bool \<times> spec_sched) option" where
  "issue_for_phase mid rid r s =
     (case lr_spec_phase r of
        PROMPT_PENDING \<Rightarrow>
          map_option (Pair True)
            (issue_model mid PROMPT (lr_prompt_length r) (target_role s) 0 0 rid r
               (request_rank_switch 1 (lr_request_id r) s))
      | DRAFT_ROUND_START \<Rightarrow> do {
          (r', s') \<leftarrow> start_round r s;
          map_option (Pair True) (issue_draft mid rid r' s') }
      | DRAFTING \<Rightarrow> map_option (Pair True) (issue_draft mid rid r s)
      | AWAIT_VERIFY \<Rightarrow> map_option (Pair True) (issue_verify mid rid r s)
      | DONE \<Rightarrow> Some (False, s))"

definition try_issue_one_task :: "u32 \<Rightarrow> u32 \<Rightarrow> lang_request \<Rightarrow> spec_sched \<Rightarrow> (bool \<times> spec_sched) option" where
  "try_issue_one_task mid rid r s =
     (if lr_running r \<or> kv_stalled s r then Some (False, s)
      else issue_for_phase mid rid r
        (s\<lparr> sd_kv_state_stall_until := (sd_kv_state_stall_until s)(lr_request_id r := None) \<rparr>))"

section \<open>One cycle\<close>

definition prepare_request :: "bool \<Rightarrow> lang_request \<Rightarrow> lang_request" where
  "prepare_request target_attached r =
     r\<lparr> lr_spec_phase := (if target_attached then PROMPT_PENDING else DRAFT_ROUND_START),
       lr_spec_round := 0, lr_drafted_in_round := 0, lr_planned_draft_length := 0 \<rparr>"

text \<open>The loop over the active requests, which ends at the first one that issues a model.\<close>

fun issue_first :: "u32 \<Rightarrow> (u32 \<times> lang_request) list \<Rightarrow> spec_sched \<Rightarrow> spec_sched option" where
  "issue_first mid [] s = Some s"
| "issue_first mid ((rid, r) # rest) s =
     (case try_issue_one_task mid rid r s of None \<Rightarrow> None
      | Some (issued, s') \<Rightarrow> if issued then Some s' else issue_first mid rest s')"

definition spec_cycle :: "u32 \<Rightarrow> spec_sched \<Rightarrow> lang_error + spec_sched" where
  "spec_cycle mid s0 =
     (let s = s0\<lparr> ls_cycle := ls_cycle s0 + 1 \<rparr>;
          s1 = (if length (ls_active s) \<le> unat (ls_max_batch_size s) \<or> ls_max_batch_size s = 0
                then admit (prepare_request (sd_target_attached s)) s else s) in
      if \<not> sd_target_attached s1 then
        (if ls_model_queue s1 = [] \<and> ls_in_model s1 = [] then lang_cycle mid s1 else Inr s1)
      else (case issue_first mid (ls_active s1) s1 of None \<Rightarrow> Inl Undefined | Some s2 \<Rightarrow> Inr s2))"

section \<open>A finished model\<close>

definition elapsed_since :: "u64 \<Rightarrow> u64 \<Rightarrow> u64" where
  "elapsed_since now start = (if start < now then now - start else 0)"

text \<open>An operation of the attached coordinator, when there is one.\<close>

definition on_ahasd :: "(ahasd \<Rightarrow> ahasd option) \<Rightarrow> spec_sched \<Rightarrow> spec_sched option" where
  "on_ahasd f s = (case sd_ahasd s of None \<Rightarrow> Some s
     | Some a \<Rightarrow> map_option (\<lambda>a'. s\<lparr> sd_ahasd := Some a' \<rparr>) (f a))"

definition apply_verify_result :: "spec_sched \<Rightarrow> u32 \<Rightarrow> lang_request \<Rightarrow> lang_request option" where
  "apply_verify_result s accepted_length r =
     (let new_length = min (lr_target_length r) (lr_current_length r + accepted_length) in
      map_option
        (\<lambda>r'. if lr_target_length r' \<le> lr_current_length r'
              then r'\<lparr> lr_spec_phase := DONE, lr_finish_time := ls_cycle s \<rparr>
              else r'\<lparr> lr_spec_phase := DRAFT_ROUND_START \<rparr>)
        (resize_kv s new_length (r\<lparr> lr_current_length := new_length \<rparr>)))"

definition base_event :: "model_meta \<Rightarrow> lang_request \<Rightarrow> lang_event" where
  "base_event meta r =
     \<lparr> le_request_id = lr_request_id r, le_prompt_length = lr_prompt_length r,
       le_previous_length = lr_current_length r, le_current_length = lr_current_length r,
       le_target_length = lr_target_length r, le_generated_tokens = 0,
       le_was_generation_phase = True, le_task_type = mm_task_type meta,
       le_model_role = mm_role meta, le_draft_length = mm_draft_length_at_issue meta,
       le_accepted_length = 0, le_spec_round = mm_verify_round meta,
       le_avg_entropy = compute_entropy_hint r \<rparr>"

definition finish_prompt ::
  "model_meta \<Rightarrow> lang_request \<Rightarrow> spec_sched \<Rightarrow> (lang_event \<times> spec_sched) option" where
  "finish_prompt meta r s = do {
     let len = lr_current_length r + lr_prompt_length r;
     r1 \<leftarrow> resize_kv s len (r\<lparr> lr_current_length := len, lr_gen_phase := True \<rparr>);
     let s1 = s\<lparr> sd_vskm := vskm_reset_request (sd_vskm s) (lr_request_id r) len \<rparr>;
     Some ((base_event meta r)\<lparr> le_was_generation_phase := False, le_current_length := len \<rparr>,
       put_active (mm_request_id meta) (r1\<lparr> lr_spec_phase := DRAFT_ROUND_START \<rparr>) s1) }"

definition finish_draft ::
  "model_meta \<Rightarrow> lang_request \<Rightarrow> spec_sched \<Rightarrow> (lang_event \<times> spec_sched) option" where
  "finish_draft meta r s = do {
     r1 \<leftarrow> resize_kv s (lr_current_length r + lr_drafted_in_round r + 1) r;
     v \<leftarrow> vskm_draft_token (sd_vskm s) (lr_request_id r);
     let r2 = r1\<lparr> lr_drafted_in_round := lr_drafted_in_round r1 + 1 \<rparr>;
     let s1 = upd_round_trace (lr_request_id r) (mm_verify_round meta)
       (\<lambda>t. t\<lparr> rt_draft_tasks_finished := rt_draft_tasks_finished t + 1,
               rt_draft_finish_cycle := ls_cycle s \<rparr>) (s\<lparr> sd_vskm := v \<rparr>);
     s2 \<leftarrow> on_ahasd (\<lambda>a. Some (record_draft_tokens_generated a 1)) s1;
     let event = (base_event meta r)\<lparr> le_generated_tokens := 1 \<rparr>;
     if lr_planned_draft_length r2 \<le> lr_drafted_in_round r2
     then do {
       s3 \<leftarrow> on_ahasd (\<lambda>a. if ac_enable_tvc (ah_config a)
              then record_draft_batch a (max 1 (elapsed_since (ls_cycle s) (mm_issue_cycle meta))) 1
              else Some a) s2;
       Some (event, put_active (mm_request_id meta) (r2\<lparr> lr_spec_phase := AWAIT_VERIFY \<rparr>) s3) }
     else Some (event, put_active (mm_request_id meta) (r2\<lparr> lr_spec_phase := DRAFTING \<rparr>) s2) }"

text \<open>Retiring the round whose state writes were deferred.\<close>

definition retire_deferred :: "u32 \<Rightarrow> u32 \<Rightarrow> u32 \<Rightarrow> u32 \<Rightarrow> spec_sched \<Rightarrow> spec_sched" where
  "retire_deferred rid verify_round accepted k s =
     (case sd_ssrc s of None \<Rightarrow> s | Some c \<Rightarrow>
      if sc_enable (sr_cfg c) \<and> sd_ssrc_deferred_round s rid = Some verify_round
      then s\<lparr> sd_ssrc := Some (on_round_verified c rid verify_round accepted k),
             sd_ssrc_deferred_round := (sd_ssrc_deferred_round s)(rid := None) \<rparr>
      else s)"

definition forget_request :: "u32 \<Rightarrow> spec_sched \<Rightarrow> spec_sched" where
  "forget_request rid s =
     s\<lparr> sd_last_rank_mode := (sd_last_rank_mode s)(rid := None),
       sd_pre_verified_in_round := (sd_pre_verified_in_round s)(rid := None),
       sd_ssrc_deferred_round := (sd_ssrc_deferred_round s)(rid := None),
       sd_kv_state_stall_until := (sd_kv_state_stall_until s)(rid := None),
       ls_active := smap_del rid (ls_active s) \<rparr>"

definition finish_verify ::
  "(fp \<Rightarrow> fp) \<Rightarrow> (u64 \<Rightarrow> nat \<Rightarrow> fp) \<Rightarrow> model_meta \<Rightarrow> lang_request \<Rightarrow> spec_sched \<Rightarrow>
   (lang_event \<times> spec_sched) option" where
  "finish_verify exp_libm u01 meta r s = do {
     let rid = lr_request_id r;
     let k = max 1 (mm_draft_length_at_issue meta);
     let (sampled, s1) = sample_accepted_length exp_libm u01 s r k;
     let accepted = min k sampled;
     let s2 = upd_round_trace rid (mm_verify_round meta)
       (\<lambda>t. t\<lparr> rt_accepted_length := accepted, rt_verify_finish_cycle := ls_cycle s \<rparr>) s1;
     (rollback_cycles, v) \<leftarrow> vskm_complete_verify (sd_vskm s2) rid k accepted;
     r1 \<leftarrow> apply_verify_result s2 accepted r;
     let event = (base_event meta r)\<lparr> le_accepted_length := accepted, le_generated_tokens := accepted,
                                     le_current_length := lr_current_length r1 \<rparr>;
     let s3 = put_active (mm_request_id meta) r1 (s2\<lparr> sd_vskm := v \<rparr>);
     let s4 = (if 0 < rollback_cycles \<and> lr_spec_phase r1 \<noteq> DONE
       then s3\<lparr> sd_kv_state_stall_until :=
                  (sd_kv_state_stall_until s3)(rid \<mapsto> ls_cycle s + rollback_cycles) \<rparr>
       else s3);
     s5 \<leftarrow> on_ahasd (\<lambda>a. record_verify_result a (accepted = k) k accepted
             (max 1 (elapsed_since (ls_cycle s) (mm_issue_cycle meta))) (lr_current_length r1) True) s4;
     let s6 = retire_deferred rid (mm_verify_round meta) accepted k s5;
     Some (event, if lr_spec_phase r1 = DONE then forget_request rid s6 else s6) }"

definition finish_pre_verify ::
  "(fp \<Rightarrow> fp) \<Rightarrow> (u64 \<Rightarrow> nat \<Rightarrow> fp) \<Rightarrow> model_meta \<Rightarrow> lang_request \<Rightarrow> spec_sched \<Rightarrow>
   (lang_event \<times> spec_sched) option" where
  "finish_pre_verify exp_libm u01 meta r s = do {
     let pv_k = max 1 (mm_draft_length_at_issue meta);
     let (sampled, s1) = sample_accepted_length exp_libm u01 s r pv_k;
     let pv_accepted = min pv_k sampled;
     let event = (base_event meta r)\<lparr> le_accepted_length := pv_accepted,
                                     le_generated_tokens := pv_accepted \<rparr>;
     let s2 = s1\<lparr> sd_vskm := vskm_pre_verify (sd_vskm s1) (lr_request_id r) \<rparr>;
     let pv_cycles = max 1 (elapsed_since (ls_cycle s) (mm_issue_cycle meta));
     s3 \<leftarrow> on_ahasd (\<lambda>a. do {
            a1 \<leftarrow> record_pre_verify a pv_cycles pv_k;
            record_verify_result a1 (pv_accepted = pv_k) pv_k pv_accepted pv_cycles
              (lr_current_length r) False }) s2;
     Some (event, s3) }"

definition finish_task ::
  "(fp \<Rightarrow> fp) \<Rightarrow> (u64 \<Rightarrow> nat \<Rightarrow> fp) \<Rightarrow> model_meta \<Rightarrow> lang_request \<Rightarrow> spec_sched \<Rightarrow>
   (lang_event \<times> spec_sched) option" where
  "finish_task exp_libm u01 meta r s =
     (case mm_task_type meta of
        PROMPT \<Rightarrow> finish_prompt meta r s
      | DRAFT \<Rightarrow> finish_draft meta r s
      | VERIFY \<Rightarrow> finish_verify exp_libm u01 meta r s
      | PRE_VERIFY \<Rightarrow> finish_pre_verify exp_libm u01 meta r s
      | AUTOREG \<Rightarrow> Some (base_event meta r, s))"

definition spec_finish_model ::
  "(fp \<Rightarrow> fp) \<Rightarrow> (u64 \<Rightarrow> nat \<Rightarrow> fp) \<Rightarrow> u32 \<Rightarrow> spec_sched \<Rightarrow> lang_error + spec_sched" where
  "spec_finish_model exp_libm u01 mid s0 =
     (case map_of (sd_model_meta s0) mid of
        None \<Rightarrow> lang_finish_model mid s0
      | Some meta \<Rightarrow>
        let s = s0\<lparr> sd_model_meta := smap_del mid (sd_model_meta s0), ls_finished_events := [] \<rparr>;
            rid = mm_request_id meta in
        case map_of (ls_active s) rid of
          None \<Rightarrow> Inr (s\<lparr> ls_in_model := smap_del mid (ls_in_model s) \<rparr>)
        | Some r \<Rightarrow>
          (case finish_task exp_libm u01 meta r s of None \<Rightarrow> Inl Undefined
           | Some (event, s1) \<Rightarrow>
             Inr (s1\<lparr> ls_finished_events := ls_finished_events s1 @ [event],
                     ls_in_model := smap_del mid (ls_in_model s1),
                     ls_active := (case map_of (ls_active s1) rid of None \<Rightarrow> ls_active s1
                       | Some r1 \<Rightarrow> smap_put rid (r1\<lparr> lr_running := False \<rparr>) (ls_active s1)) \<rparr>)))"

section \<open>The running scheduler\<close>

text \<open>Identifiers of generated models are fresh: a cycle is never given that of an outstanding one.\<close>

datatype spec_op = SpecCycle u32 | SpecPop | SpecFinish u32 | SpecConsume

fun spec_step ::
  "(fp \<Rightarrow> fp) \<Rightarrow> (u64 \<Rightarrow> nat \<Rightarrow> fp) \<Rightarrow> spec_op \<Rightarrow> spec_sched \<Rightarrow> spec_sched option" where
  "spec_step ex u (SpecCycle mid) s =
     (if map_of (sd_model_meta s) mid \<noteq> None then None
      else case spec_cycle mid s of Inl _ \<Rightarrow> None | Inr s' \<Rightarrow> Some s')"
| "spec_step ex u SpecPop s =
     (if can_schedule_model s then map_option snd (pop_model s) else Some s)"
| "spec_step ex u (SpecFinish mid) s =
     (case spec_finish_model ex u mid s of Inl _ \<Rightarrow> None | Inr s' \<Rightarrow> Some s')"
| "spec_step ex u SpecConsume s = Some (snd (consume_finished_events s))"

end
