(* ===== verification/SpecInv.thy ===== *)
theory SpecInv
  imports SpecDecode
begin

text \<open>
  What the speculative-decoding scheduler keeps: the protocol of each request (one outstanding
  task, of the kind its phase allows), its lengths, and the discipline the attached components
  rely on (a round is deferred only when none is, a KV region is opened only when none is open).
\<close>

section \<open>The phases of a request\<close>

inductive phase_edge :: "spec_phase \<Rightarrow> spec_phase \<Rightarrow> bool" where
  Stay: "phase_edge p p"
| Prefilled: "phase_edge PROMPT_PENDING DRAFT_ROUND_START"
| Started: "phase_edge DRAFT_ROUND_START DRAFTING"
| Drafted: "phase_edge DRAFTING AWAIT_VERIFY"
| Verified: "phase_edge AWAIT_VERIFY DRAFT_ROUND_START"

inductive_simps phase_edge_simps [simp]:
  "phase_edge PROMPT_PENDING p" "phase_edge DRAFT_ROUND_START p" "phase_edge DRAFTING p"
  "phase_edge AWAIT_VERIFY p"

text \<open>How a step changes one request: it stays, along an edge, or leaves after a verification.\<close>

definition moves :: "lang_request \<Rightarrow> lang_request option \<Rightarrow> bool" where
  "moves r x = (case x of None \<Rightarrow> lr_spec_phase r = AWAIT_VERIFY
     | Some r' \<Rightarrow> phase_edge (lr_spec_phase r) (lr_spec_phase r'))"

section \<open>The invariant\<close>

definition mid_round :: "lang_request \<Rightarrow> bool" where
  "mid_round r \<longleftrightarrow> lr_spec_phase r = DRAFTING \<or> lr_spec_phase r = AWAIT_VERIFY"

text \<open>A request in the queue has at least one token to generate.\<close>

definition queue_ok :: "lang_request \<Rightarrow> bool" where
  "queue_ok r \<longleftrightarrow> unat (lr_current_length r) + unat (lr_prompt_length r) < unat (lr_target_length r)"

definition round_ok :: "lang_request \<Rightarrow> bool" where
  "round_ok r \<longleftrightarrow> lr_current_length r < lr_target_length r \<and> 1 \<le> lr_planned_draft_length r \<and>
     lr_planned_draft_length r \<le> lr_target_length r - lr_current_length r"

definition request_ok :: "lang_request \<Rightarrow> bool" where
  "request_ok r =
     (case lr_spec_phase r of
        PROMPT_PENDING \<Rightarrow> queue_ok r
      | DRAFT_ROUND_START \<Rightarrow> lr_current_length r < lr_target_length r
      | DRAFTING \<Rightarrow> round_ok r \<and> lr_drafted_in_round r < lr_planned_draft_length r
      | AWAIT_VERIFY \<Rightarrow> round_ok r \<and> lr_drafted_in_round r = lr_planned_draft_length r
      | DONE \<Rightarrow> False)"

definition task_fits :: "model_meta \<Rightarrow> lang_request \<Rightarrow> bool" where
  "task_fits m r =
     (case mm_task_type m of
        PROMPT \<Rightarrow> lr_spec_phase r = PROMPT_PENDING
      | DRAFT \<Rightarrow> lr_spec_phase r = DRAFTING \<and> mm_verify_round m = lr_spec_round r
      | VERIFY \<Rightarrow> lr_spec_phase r = AWAIT_VERIFY \<and> mm_verify_round m = lr_spec_round r \<and>
                 mm_draft_length_at_issue m = lr_planned_draft_length r
      | PRE_VERIFY \<Rightarrow> lr_spec_phase r = AWAIT_VERIFY \<and> mm_verify_round m = lr_spec_round r \<and>
                 0 < mm_draft_length_at_issue m \<and>
                 mm_draft_length_at_issue m < lr_planned_draft_length r
      | AUTOREG \<Rightarrow> False)"

definition requests_ok :: "spec_sched \<Rightarrow> bool" where
  "requests_ok s \<longleftrightarrow> (\<forall>rid r. map_of (ls_active s) rid = Some r \<longrightarrow> request_ok r) \<and>
     (\<forall>r\<in>set (ls_request_queue s). queue_ok r)"

text \<open>Each outstanding model computes one task of one running request, each running request has
  exactly one.\<close>

definition tasks_ok :: "(u32, model_meta) smap \<Rightarrow> (u32, u32 list) smap \<Rightarrow> (u32, lang_request) smap \<Rightarrow> bool" where
  "tasks_ok metas in_model active \<longleftrightarrow> smap_wf metas \<and> smap_wf in_model \<and>
     (\<forall>mid. map_of in_model mid = map_option (\<lambda>m. [mm_request_id m]) (map_of metas mid)) \<and>
     (\<forall>mid m. map_of metas mid = Some m \<longrightarrow>
        (\<exists>r. map_of active (mm_request_id m) = Some r \<and> lr_running r \<and> task_fits m r)) \<and>
     (\<forall>rid r. map_of active rid = Some r \<and> lr_running r \<longrightarrow>
        (\<exists>mid m. map_of metas mid = Some m \<and> mm_request_id m = rid)) \<and>
     (\<forall>mid m mid' m'. map_of metas mid = Some m \<and> map_of metas mid' = Some m' \<and>
        mm_request_id m = mm_request_id m' \<longrightarrow> mid = mid')"

abbreviation models_ok :: "spec_sched \<Rightarrow> bool" where
  "models_ok s \<equiv> tasks_ok (sd_model_meta s) (ls_in_model s) (ls_active s)"

text \<open>The round each active request is in the middle of.\<close>

definition round_of :: "lang_request \<Rightarrow> u32 option" where
  "round_of r = (if mid_round r then Some (lr_spec_round r) else None)"

definition open_rounds :: "(u32, lang_request) smap \<Rightarrow> u32 \<Rightarrow> u32 option" where
  "open_rounds active rid = Option.bind (map_of active rid) round_of"

definition deferral_ok :: "ssrc option \<Rightarrow> (u32 \<Rightarrow> u32 option) \<Rightarrow> (u32 \<Rightarrow> u32 option) \<Rightarrow> bool" where
  "deferral_ok co deferred opn =
     pred_option (\<lambda>c. sc_enable (sr_cfg c) \<longrightarrow>
       ssrc_inv (sr_cfg c) c \<and> ssrc_exact c \<and> sc_resident_limit_bytes (sr_cfg c) \<le> 2 ^ 32 \<and>
       (\<forall>rid. map_option rr_spec_round (sr_active_requests c rid) = deferred rid) \<and>
       deferred \<subseteq>\<^sub>m opn) co"

definition regions_ok :: "vskm \<Rightarrow> (u32 \<Rightarrow> u32 option) \<Rightarrow> bool" where
  "regions_ok v opn \<longleftrightarrow>
     (\<forall>rid. opn rid = None \<longrightarrow> vr_active_region_bytes (get_request v rid) = 0)"

definition spec_inv :: "spec_sched \<Rightarrow> bool" where
  "spec_inv s \<longleftrightarrow> sd_target_attached s \<and> active_wf s \<and> models_ok s \<and> requests_ok s \<and>
     deferral_ok (sd_ssrc s) (sd_ssrc_deferred_round s) (open_rounds (ls_active s)) \<and>
     regions_ok (sd_vskm s) (open_rounds (ls_active s))"

lemmas spec_inv_defs = spec_inv_def requests_ok_def

section \<open>What the helpers leave alone\<close>

lemma upd_round_trace_frame [simp]:
  "ls_active (upd_round_trace rid n f s) = ls_active s"
  "ls_in_model (upd_round_trace rid n f s) = ls_in_model s"
  "ls_request_queue (upd_round_trace rid n f s) = ls_request_queue s"
  "ls_num_sim_layers (upd_round_trace rid n f s) = ls_num_sim_layers s"
  "ls_cache_dim (upd_round_trace rid n f s) = ls_cache_dim s"
  "ls_cycle (upd_round_trace rid n f s) = ls_cycle s"
  "ls_finished_events (upd_round_trace rid n f s) = ls_finished_events s"
  "ls_model_queue (upd_round_trace rid n f s) = ls_model_queue s"
  "sd_model_meta (upd_round_trace rid n f s) = sd_model_meta s"
  "sd_target_attached (upd_round_trace rid n f s) = sd_target_attached s"
  "sd_ssrc (upd_round_trace rid n f s) = sd_ssrc s"
  "sd_ssrc_deferred_round (upd_round_trace rid n f s) = sd_ssrc_deferred_round s"
  "sd_vskm (upd_round_trace rid n f s) = sd_vskm s"
  by (simp_all add: upd_round_trace_def)

lemma request_rank_switch_frame [simp]:
  "ls_active (request_rank_switch m rid s) = ls_active s"
  "ls_in_model (request_rank_switch m rid s) = ls_in_model s"
  "ls_request_queue (request_rank_switch m rid s) = ls_request_queue s"
  "ls_num_sim_layers (request_rank_switch m rid s) = ls_num_sim_layers s"
  "ls_cycle (request_rank_switch m rid s) = ls_cycle s"
  "ls_model_queue (request_rank_switch m rid s) = ls_model_queue s"
  "sd_model_meta (request_rank_switch m rid s) = sd_model_meta s"
  "sd_target_attached (request_rank_switch m rid s) = sd_target_attached s"
  "sd_ssrc (request_rank_switch m rid s) = sd_ssrc s"
  "sd_ssrc_deferred_round (request_rank_switch m rid s) = sd_ssrc_deferred_round s"
  "sd_vskm (request_rank_switch m rid s) = sd_vskm s"
  by (simp_all add: request_rank_switch_def Let_def split: option.split)

lemma on_ahasd_frame: "on_ahasd f s = Some s' \<Longrightarrow> \<exists>x. s' = s\<lparr> sd_ahasd := x \<rparr>"
  by (cases s) (auto simp: on_ahasd_def split: option.split_asm)

lemma gate_pre_verify_frame: "gate_pre_verify r s = Some (n, s') \<Longrightarrow> \<exists>x. s' = s\<lparr> sd_ahasd := x \<rparr>"
  by (cases s) (auto simp: gate_pre_verify_def bind_eq_Some_conv split: option.split_asm if_split_asm)

lemma sample_accepted_frame:
  "sample_accepted_length ex u s r k = (n, s') \<Longrightarrow>
   \<exists>a b c. s' = s\<lparr> sd_accept_samples := a, sd_accept_sum := b, sd_accept_k_sum := c \<rparr>"
  by (cases s) (auto simp: sample_accepted_length_def Let_def split: if_split_asm)

lemma draft_loop_bounds:
  "draft_loop poll b k g = Some (n, g') \<Longrightarrow> k \<le> b \<Longrightarrow> k \<le> n \<and> n \<le> b"
proof (induction poll b k g rule: draft_loop.induct)
  case (1 poll b k g)
  show ?case
  proof (cases "k < b")
    case True
    then have n: "unat (k + 1) = Suc (unat k)" by (simp add: unat_succ_of_less)
    then have le: "k \<le> k + 1" "k + 1 \<le> b" using True by (auto simp: word_le_nat_alt word_less_nat_alt)
    have r: "draft_loop poll b k g = (case poll g of None \<Rightarrow> None
         | Some (go, g') \<Rightarrow> if \<not> go then Some (k, g') else draft_loop poll b (k + 1) g')"
      using True by (subst draft_loop.simps) simp
    obtain go g1 where p: "poll g = Some (go, g1)" using 1(2) r by (auto split: option.split_asm)
    show ?thesis
    proof (cases go)
      case True
      then show ?thesis
        using 1(1) [OF \<open>k < b\<close> p refl] 1(2) r p le by (auto intro: order_trans)
    next
      case False
      then show ?thesis using 1(2,3) r p by simp
    qed
  next
    case False
    then have "draft_loop poll b k g = Some (k, g)" by (subst draft_loop.simps) simp
    then show ?thesis using 1(2,3) by simp
  qed
qed

lemma pick_draft_length_bounds:
  assumes "pick_draft_length s r = Some (k, s')" "lr_current_length r < lr_target_length r"
  shows "1 \<le> k \<and> k \<le> lr_target_length r - lr_current_length r \<and> (\<exists>x. s' = s\<lparr> sd_ahasd := x \<rparr>)"
proof -
  define cap where "cap = min (sd_max_draft_length s) (max 1 (tokens_remaining r))"
  have one: "1 \<le> lr_target_length r - lr_current_length r"
    using assms(2) by (simp add: word_le_nat_alt word_less_nat_alt unat_minus_le)
  then have cap: "max 1 cap \<le> lr_target_length r - lr_current_length r"
    using assms(2) by (auto simp: cap_def tokens_remaining_def min_le_iff_disj)
  have fallback: "1 \<le> max 1 (min d cap)" "max 1 (min d cap) \<le> max 1 cap" for d
    by (auto simp: min_le_iff_disj le_max_iff_disj)
  have self: "s' = s \<Longrightarrow> \<exists>x. s' = s\<lparr> sd_ahasd := x \<rparr>" by (rule exI [of _ "sd_ahasd s"]) simp
  show ?thesis
  proof (cases "sd_ahasd s")
    case None
    then have "k = max 1 (min (sd_default_draft_length s) cap)" "s' = s"
      using assms(1) by (auto simp: pick_draft_length_def Let_def cap_def [symmetric])
    then show ?thesis using fallback cap self by (blast intro: order_trans)
  next
    case (Some a)
    show ?thesis
    proof (cases "ac_enable_edc (ah_config a)")
      case True
      then obtain a' where d: "decide_draft_length a cap (compute_entropy_hint r) = Some (k, a')"
        and s': "s' = s\<lparr> sd_ahasd := Some a' \<rparr>"
        using assms(1) Some by (auto simp: pick_draft_length_def Let_def cap_def [symmetric])
      have "1 \<le> k \<and> k \<le> max 1 cap"
        using d by (auto simp: decide_draft_length_def Let_def split: option.split_asm if_split_asm
            dest: draft_loop_bounds)
      then show ?thesis using cap s' by (auto intro: order_trans)
    next
      case False
      then have "k = max 1 (min (sd_default_draft_length s) cap)" "s' = s"
        using assms(1) Some by (auto simp: pick_draft_length_def Let_def cap_def [symmetric])
      then show ?thesis using fallback cap self by (blast intro: order_trans)
    qed
  qed
qed

section \<open>Issuing a task\<close>

lemma issue_modelE:
  assumes "issue_model mid task sl role k n rid r s = Some s'"
  obtains meta q where "mm_request_id meta = lr_request_id r" "mm_task_type meta = task"
    "mm_draft_length_at_issue meta = k" "mm_verify_round meta = n" "mm_issue_cycle meta = ls_cycle s"
    "s' = s\<lparr> sd_model_meta := smap_put mid meta (sd_model_meta s),
      ls_in_model := push_in_model mid (lr_request_id r) (ls_in_model s),
      ls_model_queue := ls_model_queue s @ [q],
      ls_active := smap_put rid (r\<lparr> lr_last_task_type := task, lr_running := True \<rparr>) (ls_active s) \<rparr>"
proof -
  show thesis
    by (rule that [of "\<lparr> mm_request_id = lr_request_id r, mm_task_type = task, mm_role = role,
          mm_draft_length_at_issue = k, mm_verify_round = n, mm_issue_cycle = ls_cycle s \<rparr>"])
      (use assms in \<open>auto simp: issue_model_def put_active_def Let_def split: if_split_asm\<close>)
qed

lemma tasks_ok_issue:
  assumes ok: "tasks_ok metas im act" and new: "map_of metas mid = None"
    and r: "map_of act rid = Some r0" "\<not> lr_running r0"
    and r': "lr_running r'" "task_fits meta r'" "mm_request_id meta = rid"
  shows "tasks_ok (smap_put mid meta metas) (push_in_model mid rid im) (smap_put rid r' act)"
proof -
  have im: "map_of im mid = None" using ok new by (simp add: tasks_ok_def)
  have fresh: "mm_request_id m \<noteq> rid" if "map_of metas k = Some m" for k m
    using ok r that unfolding tasks_ok_def by fastforce
  show ?thesis
    unfolding tasks_ok_def
  proof (intro conjI allI impI)
    show "smap_wf (smap_put mid meta metas)" "smap_wf (push_in_model mid rid im)"
      using ok by (simp_all add: tasks_ok_def push_in_model_def)
    show "map_of (push_in_model mid rid im) k = map_option (\<lambda>m. [mm_request_id m]) (map_of (smap_put mid meta metas) k)" for k
      using ok im r'(3) by (simp add: tasks_ok_def push_in_model_def)
    show "\<exists>r. map_of (smap_put rid r' act) (mm_request_id m) = Some r \<and> lr_running r \<and> task_fits m r"
      if "map_of (smap_put mid meta metas) k = Some m" for k m
    proof (cases "k = mid")
      case True
      then show ?thesis using that r' by auto
    next
      case False
      then have m: "map_of metas k = Some m" using that by simp
      then show ?thesis using ok fresh [OF m] unfolding tasks_ok_def by auto
    qed
    show "\<exists>k m. map_of (smap_put mid meta metas) k = Some m \<and> mm_request_id m = i"
      if "map_of (smap_put rid r' act) i = Some r1 \<and> lr_running r1" for i r1
    proof (cases "i = rid")
      case True
      then show ?thesis using r'(3) by (intro exI [of _ mid]) simp
    next
      case False
      then have "map_of act i = Some r1" "lr_running r1" using that by simp_all
      then obtain k m where "map_of metas k = Some m" "mm_request_id m = i"
        using ok unfolding tasks_ok_def by blast
      then show ?thesis using new by (intro exI [of _ k]) auto
    qed
    show "k = k'" if "map_of (smap_put mid meta metas) k = Some m \<and>
        map_of (smap_put mid meta metas) k' = Some m' \<and> mm_request_id m = mm_request_id m'" for k m k' m'
      using that ok fresh r'(3) unfolding tasks_ok_def
      by (auto split: if_split_asm)
  qed
qed

lemma active_wf_put:
  assumes "active_wf s" "map_of (ls_active s) rid \<noteq> None" "lr_request_id r = rid" "has_caches s r"
    "ls_active s' = smap_put rid r (ls_active s)" "ls_request_queue s' = ls_request_queue s"
    "ls_num_sim_layers s' = ls_num_sim_layers s"
  shows "active_wf s'"
  using assms by (auto simp: active_wf_def has_caches_def)

lemma requests_ok_put:
  assumes "requests_ok s" "request_ok r"
    "ls_active s' = smap_put rid r (ls_active s)" "ls_request_queue s' = ls_request_queue s"
  shows "requests_ok s'"
  using assms by (auto simp: requests_ok_def)

lemma open_rounds_put:
  "open_rounds (smap_put rid r act) =
     (open_rounds act)(rid := round_of r)"
  by (auto simp: open_rounds_def fun_eq_iff)

lemma open_rounds_Some:
  "map_of act rid = Some r \<Longrightarrow> open_rounds act rid = round_of r"
  by (simp add: open_rounds_def)

lemma request_ok_flags [simp]:
  "request_ok (r\<lparr> lr_last_task_type := t \<rparr>) = request_ok r"
  "mid_round (r\<lparr> lr_last_task_type := t \<rparr>) = mid_round r"
  "round_of (r\<lparr> lr_last_task_type := t \<rparr>) = round_of r"
  "task_fits m (r\<lparr> lr_last_task_type := t \<rparr>) = task_fits m r"
  "has_caches s (r\<lparr> lr_last_task_type := t \<rparr>) = has_caches s r"
  "request_ok (r\<lparr> lr_running := b \<rparr>) = request_ok r"
  "mid_round (r\<lparr> lr_running := b \<rparr>) = mid_round r"
  "round_of (r\<lparr> lr_running := b \<rparr>) = round_of r"
  "task_fits m (r\<lparr> lr_running := b \<rparr>) = task_fits m r"
  "has_caches s (r\<lparr> lr_running := b \<rparr>) = has_caches s r"
  "request_ok (r\<lparr> lr_verify_round_id := v \<rparr>) = request_ok r"
  "mid_round (r\<lparr> lr_verify_round_id := v \<rparr>) = mid_round r"
  "round_of (r\<lparr> lr_verify_round_id := v \<rparr>) = round_of r"
  "task_fits m (r\<lparr> lr_verify_round_id := v \<rparr>) = task_fits m r"
  "has_caches s (r\<lparr> lr_verify_round_id := v \<rparr>) = has_caches s r"
  by (simp_all add: request_ok_def queue_ok_def round_ok_def round_of_def mid_round_def task_fits_def has_caches_def
      split: spec_phase.split lang_task.split)

text \<open>The state just before a model is issued for request \<^verbatim>\<open>rid\<close>, whose new value \<^verbatim>\<open>r\<close> is not yet
  in the map.\<close>

definition ready_to_issue :: "u32 \<Rightarrow> lang_request \<Rightarrow> spec_sched \<Rightarrow> bool" where
  "ready_to_issue rid r s \<longleftrightarrow> sd_target_attached s \<and> active_wf s \<and> models_ok s \<and> requests_ok s \<and>
     (\<exists>r0. map_of (ls_active s) rid = Some r0 \<and> \<not> lr_running r0) \<and>
     lr_request_id r = rid \<and> has_caches s r \<and> request_ok r \<and>
     deferral_ok (sd_ssrc s) (sd_ssrc_deferred_round s)
       ((open_rounds (ls_active s))(rid := round_of r)) \<and>
     regions_ok (sd_vskm s)
       ((open_rounds (ls_active s))(rid := round_of r))"

lemma issue_model_inv:
  assumes "issue_model mid task sl role k n rid r s = Some s'" "ready_to_issue rid r s"
    "map_of (sd_model_meta s) mid = None"
    "\<And>m. mm_task_type m = task \<Longrightarrow> mm_draft_length_at_issue m = k \<Longrightarrow> mm_verify_round m = n \<Longrightarrow> task_fits m r"
  shows "spec_inv s'"
proof -
  obtain r0 where ready: "map_of (ls_active s) rid = Some r0" "\<not> lr_running r0" "lr_request_id r = rid"
    "active_wf s" "models_ok s" "requests_ok s" "has_caches s r" "request_ok r" "sd_target_attached s"
    using assms(2) by (auto simp: ready_to_issue_def)
  obtain meta q where m: "mm_request_id meta = rid" "task_fits meta r" and
    s': "s' = s\<lparr> sd_model_meta := smap_put mid meta (sd_model_meta s),
      ls_in_model := push_in_model mid rid (ls_in_model s),
      ls_model_queue := ls_model_queue s @ [q],
      ls_active := smap_put rid (r\<lparr> lr_last_task_type := task, lr_running := True \<rparr>) (ls_active s) \<rparr>"
    using assms(1,4) ready(3) by (elim issue_modelE) auto
  let ?r = "r\<lparr> lr_last_task_type := task, lr_running := True \<rparr>"
  have "active_wf s'"
    by (rule active_wf_put [OF ready(4), of rid ?r]) (use ready in \<open>simp_all add: s'\<close>)
  moreover have "requests_ok s'"
    by (rule requests_ok_put [OF ready(6), of ?r]) (use ready in \<open>simp_all add: s'\<close>)
  moreover have "models_ok s'"
    using tasks_ok_issue [OF ready(5) assms(3) ready(1,2) _ _ m(1), of ?r] m(2) by (simp add: s')
  ultimately show ?thesis
    using assms(2) by (simp add: spec_inv_def ready_to_issue_def s' open_rounds_put)
qed

lemma ready_frame:
  assumes "ready_to_issue rid r s" "ls_active s' = ls_active s" "sd_model_meta s' = sd_model_meta s"
    "ls_in_model s' = ls_in_model s" "ls_request_queue s' = ls_request_queue s"
    "ls_num_sim_layers s' = ls_num_sim_layers s" "sd_target_attached s' = sd_target_attached s"
    "sd_ssrc s' = sd_ssrc s" "sd_ssrc_deferred_round s' = sd_ssrc_deferred_round s"
    "sd_vskm s' = sd_vskm s"
  shows "ready_to_issue rid r s'"
  using assms by (simp add: ready_to_issue_def active_wf_def requests_ok_def has_caches_def)

lemma spec_inv_ready:
  assumes "spec_inv s" "map_of (ls_active s) rid = Some r" "\<not> lr_running r"
  shows "ready_to_issue rid r s"
proof -
  have "open_rounds (ls_active s) = (open_rounds (ls_active s))
      (rid := round_of r)"
    using open_rounds_Some [OF assms(2)] by (simp add: fun_upd_idem)
  then show ?thesis
    using assms by (auto simp: ready_to_issue_def spec_inv_def active_wf_def requests_ok_def)
qed

text \<open>Starting a round opens it for the deferral and the KV region, both closed before.\<close>

lemma deferral_ok_open:
  assumes "deferral_ok (Some c) d opn" "sc_enable (sr_cfg c)" "opn rid = None"
    "should_defer_round c rid n k h = (yes, c')"
  shows "deferral_ok (Some c') (if yes then d(rid \<mapsto> n) else d) (opn(rid \<mapsto> n))"
proof -
  have c: "ssrc_inv (sr_cfg c) c" "ssrc_exact c" "sc_resident_limit_bytes (sr_cfg c) \<le> 2 ^ 32"
    "\<forall>i. map_option rr_spec_round (sr_active_requests c i) = d i" "d \<subseteq>\<^sub>m opn"
    using assms(1,2) by (simp_all add: deferral_ok_def)
  have d: "d rid = None"
    using c(5) assms(3) by (metis domIff map_le_def option.exhaust)
  then have a: "sr_active_requests c rid = None" using c(4) by (metis option.map_disc_iff)
  have c': "c' = snd (should_defer_round c rid n k h)" using assms(4) by simp
  have inv: "ssrc_inv (sr_cfg c) c'" "ssrc_exact c'"
    unfolding c' using ssrc_defer_inv [OF c(1,3)] c(2) a by blast+
  have act: "sr_cfg c' = sr_cfg c" "map_option rr_spec_round (sr_active_requests c' i) =
      (if yes then d(rid \<mapsto> n) else d) i" for i
    using assms(4) c(4) by (auto simp: should_defer_round_def Let_def split: if_split_asm)
  have "d \<subseteq>\<^sub>m opn(rid \<mapsto> n)" "d(rid \<mapsto> n) \<subseteq>\<^sub>m opn(rid \<mapsto> n)"
    using c(5) d by (auto simp: map_le_def)
  then show ?thesis using inv act c(3) by (simp add: deferral_ok_def)
qed

lemma deferral_ok_frame:
  "deferral_ok co d opn \<Longrightarrow> opn rid = None \<Longrightarrow> deferral_ok co d (opn(rid \<mapsto> n))"
  by (cases co) (force simp: deferral_ok_def map_le_def)+

lemma regions_ok_begin:
  "regions_ok v opn \<Longrightarrow> regions_ok (vskm_begin_round v rid n len k) (opn(rid \<mapsto> n))"
  by (auto simp: regions_ok_def vskm_begin_round_def Let_def put_request_def get_request_def)

lemma open_round_frame [simp]:
  "ls_active (open_round r s) = ls_active s" "sd_model_meta (open_round r s) = sd_model_meta s"
  "ls_in_model (open_round r s) = ls_in_model s"
  "ls_request_queue (open_round r s) = ls_request_queue s"
  "ls_num_sim_layers (open_round r s) = ls_num_sim_layers s"
  "sd_target_attached (open_round r s) = sd_target_attached s"
  "sd_ssrc (open_round r s) = sd_ssrc s"
  "sd_ssrc_deferred_round (open_round r s) = sd_ssrc_deferred_round s"
  "sd_vskm (open_round r s) = vskm_begin_round (sd_vskm s) (lr_request_id r) (lr_spec_round r)
     (lr_current_length r) (lr_planned_draft_length r)"
  by (simp_all add: open_round_def Let_def)

lemma defer_round_frame [simp]:
  "ls_active (defer_round r s) = ls_active s" "sd_model_meta (defer_round r s) = sd_model_meta s"
  "ls_in_model (defer_round r s) = ls_in_model s"
  "ls_request_queue (defer_round r s) = ls_request_queue s"
  "ls_num_sim_layers (defer_round r s) = ls_num_sim_layers s"
  "sd_target_attached (defer_round r s) = sd_target_attached s"
  "sd_vskm (defer_round r s) = sd_vskm s"
  by (simp_all add: defer_round_def Let_def split: option.split prod.split)

lemma defer_round_deferral:
  assumes "deferral_ok (sd_ssrc s) (sd_ssrc_deferred_round s) opn" "opn (lr_request_id r) = None"
  shows "deferral_ok (sd_ssrc (defer_round r s)) (sd_ssrc_deferred_round (defer_round r s))
     (opn(lr_request_id r \<mapsto> lr_spec_round r))"
proof (cases "sd_ssrc s")
  case None
  then show ?thesis by (simp add: defer_round_def deferral_ok_def)
next
  case (Some c)
  show ?thesis
  proof (cases "sc_enable (sr_cfg c)")
    case True
    obtain yes c' where sd: "should_defer_round c (lr_request_id r) (lr_spec_round r)
        (lr_planned_draft_length r) (compute_entropy_hint r) = (yes, c')" by fastforce
    show ?thesis
      using deferral_ok_open [OF assms(1) [unfolded Some] True assms(2) sd]
      by (simp add: defer_round_def Some True sd Let_def)
  next
    case False
    then show ?thesis using deferral_ok_frame [OF assms] by (simp add: defer_round_def Some)
  qed
qed

lemma start_round_ready:
  assumes "ready_to_issue rid r s" "lr_spec_phase r = DRAFT_ROUND_START" "start_round r s = Some (r', s')"
  shows "ready_to_issue rid r' s' \<and> lr_spec_phase r' = DRAFTING \<and> sd_model_meta s' = sd_model_meta s"
proof -
  have r: "lr_request_id r = rid" "lr_current_length r < lr_target_length r" "round_of r = None"
    using assms(1,2) by (auto simp: ready_to_issue_def request_ok_def round_of_def mid_round_def)
  obtain k s1 where k: "pick_draft_length s r = Some (k, s1)"
    using assms(3) by (auto simp: start_round_def bind_eq_Some_conv)
  from pick_draft_length_bounds [OF k r(2)] obtain x where
    kb: "1 \<le> k" "k \<le> lr_target_length r - lr_current_length r" and s1: "s1 = s\<lparr> sd_ahasd := x \<rparr>" by blast
  define r1 where "r1 = r\<lparr> lr_planned_draft_length := k, lr_drafted_in_round := 0,
    lr_spec_round := lr_spec_round r + 1 \<rparr>"
  have r': "r' = r1\<lparr> lr_spec_phase := DRAFTING \<rparr>" and s': "s' = defer_round r1 (open_round r1 s1)"
    using assms(3) k by (auto simp: start_round_def r1_def Let_def)
  have id1: "lr_request_id r1 = rid" using r(1) by (simp add: r1_def)
  let ?opn = "(open_rounds (ls_active s))(rid := None)"
  have d: "deferral_ok (sd_ssrc s) (sd_ssrc_deferred_round s) ?opn" "regions_ok (sd_vskm s) ?opn"
    using assms(1) r(3) by (simp_all add: ready_to_issue_def)
  have "deferral_ok (sd_ssrc s') (sd_ssrc_deferred_round s') (?opn(rid \<mapsto> lr_spec_round r1))"
    using defer_round_deferral [of "open_round r1 s1" ?opn r1] d(1) by (simp add: s' s1 id1)
  moreover have "regions_ok (sd_vskm s') (?opn(rid \<mapsto> lr_spec_round r1))"
    using regions_ok_begin [OF d(2), of rid] by (simp add: s' s1 id1)
  moreover have "round_of r' = Some (lr_spec_round r1)" by (simp add: r' round_of_def mid_round_def)
  moreover have "request_ok r'"
    using kb r(2) by (simp add: r' r1_def request_ok_def round_ok_def word_le_nat_alt word_less_nat_alt)
  ultimately show ?thesis
    using assms(1) r(1)
    by (simp add: ready_to_issue_def active_wf_def requests_ok_def r' r1_def s' s1 has_caches_def)
qed

lemma issue_draft_inv:
  assumes "issue_draft mid rid r s = Some s'" "ready_to_issue rid r s" "lr_spec_phase r = DRAFTING"
    "map_of (sd_model_meta s) mid = None"
  shows "spec_inv s'"
  using assms(1) unfolding issue_draft_def Let_def
proof (rule issue_model_inv)
  show "ready_to_issue rid r (upd_round_trace (lr_request_id r) (lr_spec_round r)
     (\<lambda>t. if rt_draft_issue_cycle t = 0
          then t\<lparr> rt_draft_issue_cycle := ls_cycle (request_rank_switch 0 (lr_request_id r) s) \<rparr>
          else t) (request_rank_switch 0 (lr_request_id r) s))"
    by (rule ready_frame [OF assms(2)]) simp_all
qed (use assms(3,4) in \<open>simp_all add: task_fits_def\<close>)

lemma issue_verify_inv:
  assumes "issue_verify mid rid r s = Some s'" "ready_to_issue rid r s" "lr_spec_phase r = AWAIT_VERIFY"
    "map_of (sd_model_meta s) mid = None"
  shows "spec_inv s'"
proof -
  obtain pv s1 where g: "gate_pre_verify r s = Some (pv, s1)"
    using assms(1) by (auto simp: issue_verify_def bind_eq_Some_conv)
  obtain x where s1: "s1 = s\<lparr> sd_ahasd := x \<rparr>" using gate_pre_verify_frame [OF g] by blast
  let ?k = "max 1 (lr_planned_draft_length r)"
  have k: "?k = lr_planned_draft_length r"
    using assms(2,3) by (simp add: ready_to_issue_def request_ok_def round_ok_def max_def)
  define pre where "pre = (0 < pv \<and> pv < ?k)"
  define kk where "kk = (if pre then pv else ?k)"
  define s2 where "s2 = mark_verify_issue pre kk r s1"
  define r2 where "r2 = r\<lparr> lr_verify_round_id := lr_spec_round r \<rparr>"
  have frame: "ls_active s2 = ls_active s" "sd_model_meta s2 = sd_model_meta s"
    "ls_in_model s2 = ls_in_model s" "ls_request_queue s2 = ls_request_queue s"
    "ls_num_sim_layers s2 = ls_num_sim_layers s" "sd_target_attached s2 = sd_target_attached s"
    "sd_ssrc s2 = sd_ssrc s" "sd_ssrc_deferred_round s2 = sd_ssrc_deferred_round s"
    "sd_vskm s2 = sd_vskm s"
    by (simp_all add: s2_def s1 mark_verify_issue_def Let_def)
  have "issue_model mid (if pre then PRE_VERIFY else VERIFY) kk (target_role s2) kk (lr_spec_round r) rid r2 s2
      = Some s'"
    using assms(1) g by (simp add: issue_verify_def pre_def kk_def s2_def r2_def Let_def)
  moreover have "ready_to_issue rid r2 s2"
    by (rule ready_frame [OF _ frame]) (use assms(2) in \<open>simp add: ready_to_issue_def r2_def\<close>)
  ultimately show ?thesis
  proof (rule issue_model_inv)
    show "map_of (sd_model_meta s2) mid = None" using assms(4) frame by simp
    show "task_fits m r2" if "mm_task_type m = (if pre then PRE_VERIFY else VERIFY)"
      "mm_draft_length_at_issue m = kk" "mm_verify_round m = lr_spec_round r" for m
      using that assms(3) k
      by (cases pre) (simp_all add: task_fits_def r2_def kk_def, simp_all add: pre_def)
  qed
qed

lemma issue_for_phase_inv:
  assumes "issue_for_phase mid rid r s = Some (issued, s')" "ready_to_issue rid r s"
    "map_of (sd_model_meta s) mid = None"
  shows "if issued then spec_inv s' else s' = s"
proof (cases "lr_spec_phase r")
  case PROMPT_PENDING
  then have i: "issued" and m: "issue_model mid PROMPT (lr_prompt_length r) (target_role s) 0 0 rid r
      (request_rank_switch 1 (lr_request_id r) s) = Some s'"
    using assms(1) by (auto simp: issue_for_phase_def)
  have "ready_to_issue rid r (request_rank_switch 1 (lr_request_id r) s)"
    by (rule ready_frame [OF assms(2)]) simp_all
  from issue_model_inv [OF m this] i assms(3) PROMPT_PENDING show ?thesis by (simp add: task_fits_def)
next
  case DRAFT_ROUND_START
  then obtain r' s1 where st: "start_round r s = Some (r', s1)" and
    i: "issued" "issue_draft mid rid r' s1 = Some s'"
    using assms(1) by (auto simp: issue_for_phase_def bind_eq_Some_conv)
  note st' = start_round_ready [OF assms(2) DRAFT_ROUND_START st]
  show ?thesis using issue_draft_inv [OF i(2)] st' i(1) assms(3) by simp
next
  case DRAFTING
  then show ?thesis
    using assms(1) issue_draft_inv [OF _ assms(2) DRAFTING assms(3)] by (auto simp: issue_for_phase_def)
next
  case AWAIT_VERIFY
  then show ?thesis
    using assms(1) issue_verify_inv [OF _ assms(2) AWAIT_VERIFY assms(3)] by (auto simp: issue_for_phase_def)
next
  case DONE
  then show ?thesis using assms(1) by (simp add: issue_for_phase_def)
qed

lemma spec_inv_stall: "spec_inv (s\<lparr> sd_kv_state_stall_until := st \<rparr>) = spec_inv s"
  by (simp add: spec_inv_def active_wf_def requests_ok_def has_caches_def)

lemma try_issue_inv:
  assumes "try_issue_one_task mid rid r s = Some (issued, s')" "spec_inv s"
    "map_of (ls_active s) rid = Some r" "map_of (sd_model_meta s) mid = None"
  shows "spec_inv s' \<and>
    (\<not> issued \<longrightarrow> ls_active s' = ls_active s \<and> sd_model_meta s' = sd_model_meta s)"
proof (cases "lr_running r \<or> kv_stalled s r")
  case True
  then have "s' = s" "\<not> issued" using assms(1) by (auto simp: try_issue_one_task_def)
  then show ?thesis using assms(2) by simp
next
  case False
  define s0 where "s0 = s\<lparr> sd_kv_state_stall_until :=
    (sd_kv_state_stall_until s)(lr_request_id r := None) \<rparr>"
  have i: "issue_for_phase mid rid r s0 = Some (issued, s')"
    using assms(1) False by (simp add: try_issue_one_task_def s0_def)
  have s0: "ls_active s0 = ls_active s" "sd_model_meta s0 = sd_model_meta s" "spec_inv s0"
    using assms(2) by (simp_all add: s0_def spec_inv_stall)
  have "ready_to_issue rid r s0"
    using spec_inv_ready [OF s0(3), of rid r] False assms(3) s0(1) by simp
  from issue_for_phase_inv [OF i this] assms(4) s0 show ?thesis by (cases issued) auto
qed

lemma issue_first_inv:
  assumes "issue_first mid rs s = Some s'" "spec_inv s" "map_of (sd_model_meta s) mid = None"
    "\<forall>(rid, r)\<in>set rs. map_of (ls_active s) rid = Some r"
  shows "spec_inv s'"
  using assms
proof (induction mid rs s rule: issue_first.induct)
  case (2 mid rid r rest s)
  obtain issued s1 where t: "try_issue_one_task mid rid r s = Some (issued, s1)"
    using 2(2) by (auto split: option.split_asm)
  have r: "map_of (ls_active s) rid = Some r" using 2(5) by simp
  note inv = try_issue_inv [OF t 2(3) r 2(4)]
  show ?case
  proof (cases issued)
    case True
    then show ?thesis using 2(2) t inv by simp
  next
    case False
    then have "issue_first mid rest s1 = Some s'" using 2(2) t by simp
    from 2(1) [OF t refl False this] show ?thesis using inv False 2(4,5) by auto
  qed
qed simp

section \<open>Admission\<close>

lemma prepare_request_keeps [simp]: "keeps_admitted (prepare_request b)"
  by (simp add: keeps_admitted_def prepare_request_def)

lemma tasks_ok_admit:
  assumes "tasks_ok metas im act" "map_of act rid = None" "\<not> lr_running r"
  shows "tasks_ok metas im (smap_put rid r act)"
proof -
  have "mm_request_id m \<noteq> rid" if "map_of metas k = Some m" for k m
    using assms(1,2) that unfolding tasks_ok_def by fastforce
  then have upd: "map_of (smap_put rid r act) (mm_request_id m) = map_of act (mm_request_id m)"
    if "map_of metas k = Some m" for k m using that by simp
  have run: "map_of act i = Some r1" if "map_of (smap_put rid r act) i = Some r1" "lr_running r1" for i r1
    using that assms(3) by (auto split: if_split_asm)
  show ?thesis
    unfolding tasks_ok_def
  proof (intro conjI allI impI)
    show "\<exists>r'. map_of (smap_put rid r act) (mm_request_id m) = Some r' \<and> lr_running r' \<and> task_fits m r'"
      if "map_of metas k = Some m" for k m
      using assms(1) that unfolding tasks_ok_def upd [OF that] by blast
    show "\<exists>k m. map_of metas k = Some m \<and> mm_request_id m = i"
      if "map_of (smap_put rid r act) i = Some r1 \<and> lr_running r1" for i r1
      using assms(1) run [of i r1] that unfolding tasks_ok_def by blast
    show "k = k'" if "map_of metas k = Some m \<and> map_of metas k' = Some m' \<and>
        mm_request_id m = mm_request_id m'" for k m k' m'
      using assms(1) that unfolding tasks_ok_def by blast
  qed (use assms(1) in \<open>auto simp: tasks_ok_def\<close>)
qed

lemma admit_one_spec_inv:
  assumes "spec_inv s" "ls_request_queue s \<noteq> []"
  shows "spec_inv (admit_one (prepare_request True) s)"
proof -
  obtain q qs where q: "ls_request_queue s = q # qs" using assms(2) by (cases "ls_request_queue s") auto
  define r where "r = prepare_request True (init_request s q)"
  define rid where "rid = lr_request_id r"
  have s': "admit_one (prepare_request True) s =
      s\<lparr> ls_active := smap_put rid r (ls_active s), ls_request_queue := qs \<rparr>"
    by (simp add: admit_one_def q r_def rid_def Let_def)
  have aw: "active_wf s" using assms(1) by (simp add: spec_inv_def)
  have none: "map_of (ls_active s) rid = None"
    using aw q by (auto simp: active_wf_def rid_def r_def prepare_request_def)
  have r: "\<not> lr_running r" "request_ok r" "round_of r = None"
    using assms(1) q by (auto simp: r_def prepare_request_def init_request_def request_ok_def queue_ok_def
        round_of_def mid_round_def spec_inv_def requests_ok_def Let_def)
  have "open_rounds (smap_put rid r (ls_active s)) = open_rounds (ls_active s)"
    using none r(3) by (auto simp: open_rounds_put fun_eq_iff open_rounds_def)
  moreover have "active_wf (admit_one (prepare_request True) s)"
    using admit_one_active_wf [OF _ aw assms(2)] by simp
  moreover have "requests_ok (admit_one (prepare_request True) s)"
    using assms(1) r(2) q by (auto simp: s' spec_inv_def requests_ok_def)
  ultimately show ?thesis
    using assms(1) tasks_ok_admit [OF _ none r(1)] by (simp add: spec_inv_def s')
qed

lemma admit_spec_inv:
  assumes "spec_inv s"
  shows "spec_inv (admit (prepare_request True) s) \<and>
    sd_model_meta (admit (prepare_request True) s) = sd_model_meta s"
proof (rule admit_preserves [of "\<lambda>s'. spec_inv s' \<and> sd_model_meta s' = sd_model_meta s"])
  show "spec_inv (admit_one (prepare_request True) s') \<and>
      sd_model_meta (admit_one (prepare_request True) s') = sd_model_meta s"
    if "spec_inv s' \<and> sd_model_meta s' = sd_model_meta s" "ls_request_queue s' \<noteq> []" for s'
    using that admit_one_spec_inv [of s'] by (simp add: admit_one_def Let_def)
qed (use assms in simp)

lemma spec_cycle_inv:
  assumes "spec_inv s" "map_of (sd_model_meta s) mid = None" "spec_cycle mid s = Inr s'"
  shows "spec_inv s'"
proof -
  define s1 where "s1 = s\<lparr> ls_cycle := ls_cycle s + 1 \<rparr>"
  have att: "sd_target_attached s" using assms(1) by (simp add: spec_inv_def)
  have i1: "spec_inv s1"
    using assms(1) by (simp add: s1_def spec_inv_def active_wf_def requests_ok_def has_caches_def)
  define s2 where "s2 = (if length (ls_active s1) \<le> unat (ls_max_batch_size s1) \<or> ls_max_batch_size s1 = 0
    then admit (prepare_request (sd_target_attached s1)) s1 else s1)"
  have i2: "spec_inv s2" "sd_model_meta s2 = sd_model_meta s"
    using i1 admit_spec_inv [OF i1] att by (auto simp: s2_def s1_def)
  have "issue_first mid (ls_active s2) s2 = Some s'"
    using assms(3) i2(1) unfolding spec_cycle_def Let_def s1_def [symmetric] s2_def [symmetric]
    by (auto simp: spec_inv_def split: option.split_asm)
  then show ?thesis
  proof (rule issue_first_inv)
    have "smap_wf (ls_active s2)" using i2(1) by (simp add: spec_inv_def active_wf_def)
    then show "\<forall>(rid, r)\<in>set (ls_active s2). map_of (ls_active s2) rid = Some r"
      by (auto simp: map_of_smap)
  qed (use i2 assms(2) in simp_all)
qed

section \<open>Finishing a task\<close>

lemma tasks_ok_finish:
  assumes ok: "tasks_ok metas im act" and m: "map_of metas mid = Some m"
    and act': "map_of act' = (map_of act)(mm_request_id m := x)" "pred_option (\<lambda>r. \<not> lr_running r) x"
  shows "tasks_ok (smap_del mid metas) (smap_del mid im) act'"
proof -
  let ?rid = "mm_request_id m"
  have other: "mm_request_id m' \<noteq> ?rid" if "map_of metas k = Some m'" "k \<noteq> mid" for k m'
    using ok m that unfolding tasks_ok_def by metis
  show ?thesis
    unfolding tasks_ok_def
  proof (intro conjI allI impI)
    show "smap_wf (smap_del mid metas)" "smap_wf (smap_del mid im)"
      using ok by (simp_all add: tasks_ok_def)
    show "map_of (smap_del mid im) k = map_option (\<lambda>m. [mm_request_id m]) (map_of (smap_del mid metas) k)" for k
      using ok by (simp add: tasks_ok_def)
    show "\<exists>r. map_of act' (mm_request_id m') = Some r \<and> lr_running r \<and> task_fits m' r"
      if "map_of (smap_del mid metas) k = Some m'" for k m'
    proof -
      have k: "k \<noteq> mid" "map_of metas k = Some m'" using that by (auto split: if_split_asm)
      then have "map_of act' (mm_request_id m') = map_of act (mm_request_id m')"
        using other by (simp add: act'(1))
      then show ?thesis using ok k(2) unfolding tasks_ok_def by metis
    qed
    show "\<exists>k m'. map_of (smap_del mid metas) k = Some m' \<and> mm_request_id m' = i"
      if "map_of act' i = Some r \<and> lr_running r" for i r
    proof -
      have i: "i \<noteq> ?rid" using that act' by (auto split: if_split_asm)
      then have "map_of act i = Some r \<and> lr_running r" using that act'(1) by simp
      then obtain k m' where "map_of metas k = Some m'" "mm_request_id m' = i"
        using ok unfolding tasks_ok_def by blast
      then show ?thesis using i m by (intro exI [of _ k] exI [of _ m']) auto
    qed
    show "k = k'" if "map_of (smap_del mid metas) k = Some m1 \<and>
        map_of (smap_del mid metas) k' = Some m2 \<and> mm_request_id m1 = mm_request_id m2" for k m1 k' m2
      using that ok unfolding tasks_ok_def by (auto split: if_split_asm)
  qed
qed

lemma resize_kv_frame:
  assumes "resize_kv s len r = Some r'" "has_caches s r"
  obtains kc vc where "r' = r\<lparr> lr_key_cache := kc, lr_value_cache := vc \<rparr>"
    "length kc = unat (ls_num_sim_layers s)" "length vc = unat (ls_num_sim_layers s)"
  using assms by (auto simp: resize_kv_def resize_caches_def has_caches_def Let_def
      split: option.split_asm if_split_asm)

text \<open>What finishing the task of request \<^verbatim>\<open>rid\<close> may change.\<close>

definition task_finished :: "u32 \<Rightarrow> spec_sched \<Rightarrow> spec_sched \<Rightarrow> bool" where
  "task_finished rid s s1 \<longleftrightarrow>
     ls_in_model s1 = ls_in_model s \<and> sd_model_meta s1 = sd_model_meta s \<and>
     ls_request_queue s1 = ls_request_queue s \<and> ls_num_sim_layers s1 = ls_num_sim_layers s \<and>
     sd_target_attached s1 = sd_target_attached s \<and> smap_wf (ls_active s1) \<and>
     (\<exists>x. map_of (ls_active s1) = (map_of (ls_active s))(rid := x) \<and>
        (\<forall>r. map_of (ls_active s) rid = Some r \<longrightarrow> moves r x) \<and>
        pred_option (\<lambda>r. request_ok r \<and> lr_request_id r = rid \<and> has_caches s r) x \<and>
        deferral_ok (sd_ssrc s1) (sd_ssrc_deferred_round s1)
          ((open_rounds (ls_active s))(rid := Option.bind x round_of)) \<and>
        regions_ok (sd_vskm s1) ((open_rounds (ls_active s))(rid := Option.bind x round_of)))"

lemma task_finishedI:
  assumes "opn = (open_rounds (ls_active s))(rid := Option.bind x round_of)"
    "map_of (ls_active s1) = (map_of (ls_active s))(rid := x)" "smap_wf (ls_active s1)"
    "\<And>r. map_of (ls_active s) rid = Some r \<Longrightarrow> moves r x"
    "pred_option (\<lambda>r. request_ok r \<and> lr_request_id r = rid \<and> has_caches s r) x"
    "deferral_ok (sd_ssrc s1) (sd_ssrc_deferred_round s1) opn" "regions_ok (sd_vskm s1) opn"
    "ls_in_model s1 = ls_in_model s" "sd_model_meta s1 = sd_model_meta s"
    "ls_request_queue s1 = ls_request_queue s" "ls_num_sim_layers s1 = ls_num_sim_layers s"
    "sd_target_attached s1 = sd_target_attached s"
  shows "task_finished rid s s1"
  using assms unfolding task_finished_def by blast

text \<open>What holds of the request whose task is finished.\<close>

definition in_task :: "model_meta \<Rightarrow> lang_request \<Rightarrow> spec_sched \<Rightarrow> bool" where
  "in_task m r s \<longleftrightarrow> smap_wf (ls_active s) \<and> map_of (ls_active s) (mm_request_id m) = Some r \<and>
     lr_request_id r = mm_request_id m \<and> has_caches s r \<and> request_ok r \<and> task_fits m r \<and>
     deferral_ok (sd_ssrc s) (sd_ssrc_deferred_round s) (open_rounds (ls_active s)) \<and>
     regions_ok (sd_vskm s) (open_rounds (ls_active s))"

lemma in_task_rounds:
  "in_task m r s \<Longrightarrow> open_rounds (ls_active s) (mm_request_id m) = round_of r"
  by (simp add: in_task_def open_rounds_def)

lemma finish_prompt_ok:
  assumes "finish_prompt m r s = Some (ev, s1)" "in_task m r s" "mm_task_type m = PROMPT"
  shows "task_finished (mm_request_id m) s s1"
proof -
  let ?rid = "mm_request_id m" and ?len = "lr_current_length r + lr_prompt_length r"
  have r: "lr_spec_phase r = PROMPT_PENDING" "queue_ok r" "lr_request_id r = ?rid" "has_caches s r"
    using assms(2,3) by (auto simp: in_task_def task_fits_def request_ok_def)
  have len: "?len < lr_target_length r"
  proof -
    have "unat ?len = unat (lr_current_length r) + unat (lr_prompt_length r)"
      using r(2) unsigned_less [of "lr_target_length r", where 'a = nat]
      by (intro unat_add_lem [THEN iffD1]) (simp add: queue_ok_def)
    then show ?thesis using r(2) by (simp add: queue_ok_def word_less_nat_alt)
  qed
  let ?r0 = "r\<lparr> lr_current_length := ?len, lr_gen_phase := True \<rparr>"
  obtain r1 where r1: "resize_kv s ?len ?r0 = Some r1" and
    s1: "s1 = put_active ?rid (r1\<lparr> lr_spec_phase := DRAFT_ROUND_START \<rparr>)
      (s\<lparr> sd_vskm := vskm_reset_request (sd_vskm s) ?rid ?len \<rparr>)"
    using assms(1) r(3) by (auto simp: finish_prompt_def Let_def bind_eq_Some_conv)
  have "has_caches s ?r0" using r(4) by (simp add: has_caches_def)
  from resize_kv_frame [OF r1 this] obtain kc vc where kv: "r1 = ?r0\<lparr> lr_key_cache := kc, lr_value_cache := vc \<rparr>"
    "length kc = unat (ls_num_sim_layers s)" "length vc = unat (ls_num_sim_layers s)"
    by blast
  let ?r2 = "r1\<lparr> lr_spec_phase := DRAFT_ROUND_START \<rparr>"
  have opn: "(open_rounds (ls_active s))(?rid := round_of ?r2) = open_rounds (ls_active s)"
    using in_task_rounds [OF assms(2)] r(1) by (simp add: round_of_def mid_round_def fun_upd_idem)
  have "regions_ok (vskm_reset_request v ?rid ?len) opn" if "regions_ok v opn" for v opn
    using that by (simp add: regions_ok_def vskm_reset_request_def put_request_def get_request_def
        request_init_def)
  then show ?thesis
    using assms(2) len r(1,3) kv(2,3) opn
    by (intro task_finishedI [where x = "Some ?r2" and opn = "open_rounds (ls_active s)"])
      (simp_all add: s1 put_active_def in_task_def request_ok_def kv(1) has_caches_def moves_def)
qed

lemma record_frame [simp]:
  "ls_active (put_active rid r s) = smap_put rid r (ls_active s)"
  "ls_in_model (put_active rid r s) = ls_in_model s"
  "ls_finished_events (put_active rid r s) = ls_finished_events s"
  "sd_model_meta (put_active rid r s) = sd_model_meta s"
  "ls_request_queue (put_active rid r s) = ls_request_queue s"
  "ls_num_sim_layers (put_active rid r s) = ls_num_sim_layers s"
  "sd_target_attached (put_active rid r s) = sd_target_attached s"
  "sd_ssrc (put_active rid r s) = sd_ssrc s"
  "sd_ssrc_deferred_round (put_active rid r s) = sd_ssrc_deferred_round s"
  "sd_vskm (put_active rid r s) = sd_vskm s"
  by (simp_all add: put_active_def)

lemma draft_token_regions:
  assumes "vskm_draft_token v rid = Some v'" "regions_ok v opn" "opn rid \<noteq> None"
  shows "regions_ok v' opn"
proof -
  have "get_request v' i = get_request v i" if "i \<noteq> rid" for i
    using assms(1) that
    by (auto simp: vskm_draft_token_def Let_def put_request_def get_request_def split: option.split_asm)
  then show ?thesis using assms(2,3) unfolding regions_ok_def by metis
qed

lemma finish_draft_ok:
  assumes "finish_draft m r s = Some (ev, s1)" "in_task m r s" "mm_task_type m = DRAFT"
  shows "task_finished (mm_request_id m) s s1"
proof -
  let ?rid = "mm_request_id m"
  have r: "lr_spec_phase r = DRAFTING" "round_ok r" "lr_request_id r = ?rid" "has_caches s r"
    "lr_drafted_in_round r < lr_planned_draft_length r"
    using assms(2,3) by (auto simp: in_task_def task_fits_def request_ok_def)
  obtain r1 v s2 where r1: "resize_kv s (lr_current_length r + lr_drafted_in_round r + 1) r = Some r1"
    and v: "vskm_draft_token (sd_vskm s) ?rid = Some v"
    and s2: "on_ahasd (\<lambda>a. Some (record_draft_tokens_generated a 1))
      (upd_round_trace ?rid (mm_verify_round m)
       (\<lambda>t. t\<lparr> rt_draft_tasks_finished := rt_draft_tasks_finished t + 1,
               rt_draft_finish_cycle := ls_cycle s \<rparr>) (s\<lparr> sd_vskm := v \<rparr>)) = Some s2"
    using assms(1) r(3) by (auto simp: finish_draft_def Let_def bind_eq_Some_conv)
  obtain kc vc where kv: "r1 = r\<lparr> lr_key_cache := kc, lr_value_cache := vc \<rparr>"
    "length kc = unat (ls_num_sim_layers s)" "length vc = unat (ls_num_sim_layers s)"
    using resize_kv_frame [OF r1 r(4)] by blast
  define r2 where "r2 = r1\<lparr> lr_drafted_in_round := lr_drafted_in_round r1 + 1 \<rparr>"
  define ph where "ph = (if lr_planned_draft_length r2 \<le> lr_drafted_in_round r2 then AWAIT_VERIFY else DRAFTING)"
  have s1: "\<exists>x. s1 = put_active ?rid (r2\<lparr> lr_spec_phase := ph \<rparr>) (s2\<lparr> sd_ahasd := x \<rparr>)"
  proof (cases "lr_planned_draft_length r2 \<le> lr_drafted_in_round r2")
    case True
    then obtain s3 where "on_ahasd (\<lambda>a. if ac_enable_tvc (ah_config a)
              then record_draft_batch a (max 1 (elapsed_since (ls_cycle s) (mm_issue_cycle m))) 1
              else Some a) s2 = Some s3" "s1 = put_active ?rid (r2\<lparr> lr_spec_phase := ph \<rparr>) s3"
      using assms(1) r(3) r1 v s2
      by (auto simp: finish_draft_def Let_def bind_eq_Some_conv r2_def ph_def)
    then show ?thesis by (auto dest: on_ahasd_frame)
  next
    case False
    then have "s1 = put_active ?rid (r2\<lparr> lr_spec_phase := ph \<rparr>) s2"
      using assms(1) r(3) r1 v s2 by (auto simp: finish_draft_def Let_def r2_def ph_def)
    moreover have "s2 = s2\<lparr> sd_ahasd := sd_ahasd s2 \<rparr>" by simp
    ultimately show ?thesis by metis
  qed
  then obtain x where s1: "s1 = put_active ?rid (r2\<lparr> lr_spec_phase := ph \<rparr>) (s2\<lparr> sd_ahasd := x \<rparr>)" ..
  have s2f: "ls_active s2 = ls_active s" "sd_model_meta s2 = sd_model_meta s"
    "ls_in_model s2 = ls_in_model s" "ls_request_queue s2 = ls_request_queue s"
    "ls_num_sim_layers s2 = ls_num_sim_layers s" "sd_target_attached s2 = sd_target_attached s"
    "sd_ssrc s2 = sd_ssrc s" "sd_ssrc_deferred_round s2 = sd_ssrc_deferred_round s" "sd_vskm s2 = v"
    using on_ahasd_frame [OF s2] by auto
  have d: "unat (lr_drafted_in_round r + 1) = Suc (unat (lr_drafted_in_round r))"
    using unat_succ_of_less [OF r(5)] by simp
  let ?r3 = "r2\<lparr> lr_spec_phase := ph \<rparr>"
  have ok: "request_ok ?r3"
    using r(2,5) d by (auto simp: request_ok_def ph_def r2_def kv(1) round_ok_def word_le_nat_alt
        word_less_nat_alt word_unat_eq_iff)
  have ro: "round_of ?r3 = round_of r" "round_of r \<noteq> None"
    using r(1) by (auto simp: round_of_def mid_round_def ph_def r2_def kv(1))
  have opn: "(open_rounds (ls_active s))(?rid := round_of ?r3) = open_rounds (ls_active s)"
    using in_task_rounds [OF assms(2)] ro(1) by (simp add: fun_upd_idem)
  have "regions_ok v (open_rounds (ls_active s))"
    using draft_token_regions [OF v] assms(2) in_task_rounds [OF assms(2)] ro(2) by (simp add: in_task_def)
  moreover have mv: "moves r (Some ?r3)" using r(1) by (simp add: moves_def ph_def)
  moreover have "lr_request_id ?r3 = ?rid" "has_caches s ?r3"
    using r(3) kv(2,3) by (simp_all add: r2_def kv(1) has_caches_def)
  ultimately show ?thesis
    using assms(2) ok mv
    by (intro task_finishedI [where x = "Some ?r3" and opn = "open_rounds (ls_active s)"])
      (simp_all add: opn s1 s2f in_task_def)
qed

lemma finish_pre_verify_ok:
  assumes "finish_pre_verify ex u m r s = Some (ev, s1)" "in_task m r s"
  shows "task_finished (mm_request_id m) s s1"
proof -
  let ?k = "max 1 (mm_draft_length_at_issue m)"
  obtain n s2 where sa: "sample_accepted_length ex u s r ?k = (n, s2)" by fastforce
  obtain f where on: "on_ahasd f (s2\<lparr> sd_vskm := vskm_pre_verify (sd_vskm s2) (lr_request_id r) \<rparr>) = Some s1"
    using assms(1) sa by (auto simp: finish_pre_verify_def Let_def bind_eq_Some_conv)
  have reg: "regions_ok (vskm_pre_verify v rid) opn = regions_ok v opn" for v rid opn
    by (simp add: regions_ok_def vskm_pre_verify_def get_request_def Let_def split: option.split)
  have opn: "(open_rounds (ls_active s))(mm_request_id m := round_of r) = open_rounds (ls_active s)"
    using in_task_rounds [OF assms(2)] by (simp add: fun_upd_idem)
  have self: "(map_of (ls_active s))(mm_request_id m := Some r) = map_of (ls_active s)"
    using assms(2) by (simp add: in_task_def fun_upd_idem)
  obtain x a b c where s1: "s1 = s2\<lparr> sd_vskm := vskm_pre_verify (sd_vskm s2) (lr_request_id r), sd_ahasd := x \<rparr>"
    and s2: "s2 = s\<lparr> sd_accept_samples := a, sd_accept_sum := b, sd_accept_k_sum := c \<rparr>"
    using on_ahasd_frame [OF on] sample_accepted_frame [OF sa] by blast
  show ?thesis
    using assms(2)
    by (intro task_finishedI [where x = "Some r" and opn = "open_rounds (ls_active s)"])
      (simp_all add: opn self reg s1 s2 in_task_def moves_def phase_edge.Stay)
qed

lemma complete_verify_regions:
  assumes "vskm_complete_verify v rid k a = Some (c, v')" "regions_ok v opn"
  shows "regions_ok v' (opn(rid := None))"
proof -
  have "get_request v' i = get_request v i" if "i \<noteq> rid" for i
    using assms(1) that
    by (auto simp: vskm_complete_verify_def Let_def put_request_def get_request_def split: option.split_asm)
  moreover have "vr_active_region_bytes (get_request v' rid) = 0"
    using assms(1)
    by (auto simp: vskm_complete_verify_def Let_def put_request_def get_request_def request_init_def
        split: option.split_asm)
  ultimately show ?thesis using assms(2) by (simp add: regions_ok_def)
qed

lemma retire_deferred_frame [simp]:
  "ls_active (retire_deferred rid n a k s) = ls_active s"
  "ls_in_model (retire_deferred rid n a k s) = ls_in_model s"
  "sd_model_meta (retire_deferred rid n a k s) = sd_model_meta s"
  "ls_request_queue (retire_deferred rid n a k s) = ls_request_queue s"
  "ls_num_sim_layers (retire_deferred rid n a k s) = ls_num_sim_layers s"
  "sd_target_attached (retire_deferred rid n a k s) = sd_target_attached s"
  "sd_vskm (retire_deferred rid n a k s) = sd_vskm s"
  by (simp_all add: retire_deferred_def split: option.split)

text \<open>Retiring the request's only open round leaves nothing of it deferred.\<close>

lemma retire_deferred_ok:
  assumes "deferral_ok (sd_ssrc s) (sd_ssrc_deferred_round s) opn" "opn rid = Some n"
    and s'_def: "s' = retire_deferred rid n a k s"
  shows "deferral_ok (sd_ssrc s') (sd_ssrc_deferred_round s') (opn(rid := None)) \<and>
    deferral_ok (sd_ssrc s') ((sd_ssrc_deferred_round s')(rid := None)) (opn(rid := None))"
proof (cases "sd_ssrc s")
  case None
  then show ?thesis by (simp add: s'_def retire_deferred_def deferral_ok_def)
next
  case (Some c)
  show ?thesis
  proof (cases "sc_enable (sr_cfg c)")
    case False
    then show ?thesis using Some by (simp add: s'_def retire_deferred_def deferral_ok_def)
  next
    case True
    let ?d = "sd_ssrc_deferred_round s"
    have c: "ssrc_inv (sr_cfg c) c" "ssrc_exact c" "sc_resident_limit_bytes (sr_cfg c) \<le> 2 ^ 32"
      "\<forall>i. map_option rr_spec_round (sr_active_requests c i) = ?d i" "?d \<subseteq>\<^sub>m opn"
      using assms(1) Some True by (simp_all add: deferral_ok_def)
    have le: "?d(rid := None) \<subseteq>\<^sub>m opn(rid := None)" using c(5) by (auto simp: map_le_def)
    show ?thesis
    proof (cases "?d rid = Some n")
      case yes: True
      then obtain it where it: "sr_active_requests c rid = Some it" "rr_spec_round it = n"
        using c(4) by (metis map_option_eq_Some)
      let ?c' = "on_round_verified c rid n a k"
      have act: "sr_active_requests ?c' = (sr_active_requests c)(rid := None)" "sr_cfg ?c' = sr_cfg c"
        using it True by (simp_all add: on_round_verified_def Let_def)
      have "s' = s\<lparr> sd_ssrc := Some ?c', sd_ssrc_deferred_round := ?d(rid := None) \<rparr>"
        using yes True Some by (simp add: s'_def retire_deferred_def)
      then show ?thesis
        using ssrc_verified_inv [OF c(1), of rid n a k] c act le by (simp add: deferral_ok_def)
    next
      case no: False
      have none: "?d rid = None"
        using c(5) assms(2) no by (metis domIff map_le_def option.exhaust)
      then have "?d(rid := None) = ?d" by (simp add: fun_upd_idem)
      moreover have "s' = s" using no Some by (simp add: s'_def retire_deferred_def)
      ultimately show ?thesis using c le Some by (simp add: deferral_ok_def)
    qed
  qed
qed

lemma apply_verify_result_cases:
  assumes "apply_verify_result s a r = Some r1" "has_caches s r" "round_ok r"
    "a \<le> lr_planned_draft_length r"
  shows "lr_current_length r1 = lr_current_length r + a"
    "unat (lr_current_length r1) = unat (lr_current_length r) + unat a"
    "lr_request_id r1 = lr_request_id r" "has_caches s r1" "lr_target_length r1 = lr_target_length r"
    "lr_current_length r1 < lr_target_length r \<and> lr_spec_phase r1 = DRAFT_ROUND_START \<or>
     lr_current_length r1 = lr_target_length r \<and> lr_spec_phase r1 = DONE"
proof -
  have cur: "lr_current_length r < lr_target_length r" using assms(3) by (simp add: round_ok_def)
  have "a \<le> lr_target_length r - lr_current_length r"
    using assms(3,4) by (auto simp: round_ok_def intro: order_trans)
  then have "unat a \<le> unat (lr_target_length r) - unat (lr_current_length r)"
    using cur by (simp add: word_le_nat_alt unat_minus_le word_less_nat_alt)
  then have bound: "unat (lr_current_length r) + unat a \<le> unat (lr_target_length r)"
    using cur by (simp add: word_less_nat_alt)
  then have sum: "unat (lr_current_length r + a) = unat (lr_current_length r) + unat a"
    using unsigned_less [of "lr_target_length r", where 'a = nat]
    by (intro unat_add_lem [THEN iffD1]) simp
  then have le: "lr_current_length r + a \<le> lr_target_length r" using bound by (simp add: word_le_nat_alt)
  let ?n = "min (lr_target_length r) (lr_current_length r + a)"
  have n: "?n = lr_current_length r + a" using le by (simp add: min_def)
  obtain r0 where r0: "resize_kv s ?n (r\<lparr> lr_current_length := ?n \<rparr>) = Some r0"
    using assms(1) by (auto simp: apply_verify_result_def Let_def)
  have "has_caches s (r\<lparr> lr_current_length := ?n \<rparr>)" using assms(2) by (simp add: has_caches_def)
  from resize_kv_frame [OF r0 this] obtain kc vc where kv:
    "r0 = r\<lparr> lr_current_length := ?n, lr_key_cache := kc, lr_value_cache := vc \<rparr>"
    "length kc = unat (ls_num_sim_layers s)" "length vc = unat (ls_num_sim_layers s)" by blast
  have r1: "r1 = (if lr_target_length r \<le> lr_current_length r + a
      then r0\<lparr> lr_spec_phase := DONE, lr_finish_time := ls_cycle s \<rparr>
      else r0\<lparr> lr_spec_phase := DRAFT_ROUND_START \<rparr>)"
    using assms(1) r0 n kv(1) by (auto simp: apply_verify_result_def Let_def)
  show "lr_current_length r1 = lr_current_length r + a" "lr_request_id r1 = lr_request_id r"
    "has_caches s r1" "lr_target_length r1 = lr_target_length r"
    "unat (lr_current_length r1) = unat (lr_current_length r) + unat a"
    "lr_current_length r1 < lr_target_length r \<and> lr_spec_phase r1 = DRAFT_ROUND_START \<or>
     lr_current_length r1 = lr_target_length r \<and> lr_spec_phase r1 = DONE"
    using n sum kv le by (auto simp: r1 kv(1) has_caches_def)
qed

lemma forget_request_frame [simp]:
  "ls_active (forget_request rid s) = smap_del rid (ls_active s)"
  "ls_in_model (forget_request rid s) = ls_in_model s"
  "sd_model_meta (forget_request rid s) = sd_model_meta s"
  "ls_request_queue (forget_request rid s) = ls_request_queue s"
  "ls_num_sim_layers (forget_request rid s) = ls_num_sim_layers s"
  "sd_target_attached (forget_request rid s) = sd_target_attached s"
  "sd_ssrc (forget_request rid s) = sd_ssrc s"
  "sd_ssrc_deferred_round (forget_request rid s) = (sd_ssrc_deferred_round s)(rid := None)"
  "sd_vskm (forget_request rid s) = sd_vskm s"
  by (simp_all add: forget_request_def)

text \<open>The verification, taken apart.\<close>

lemma finish_verifyE:
  assumes "finish_verify ex u m r s = Some (ev, s1)" "in_task m r s" "mm_task_type m = VERIFY"
  obtains acc r1 c v s5 where
    "acc = min (lr_planned_draft_length r)
       (fst (sample_accepted_length ex u s r (lr_planned_draft_length r)))"
    "vskm_complete_verify (sd_vskm s) (mm_request_id m) (lr_planned_draft_length r) acc = Some (c, v)"
    "apply_verify_result s acc r = Some r1" "le_accepted_length ev = acc"
    "le_current_length ev = lr_current_length r1"
    "ls_active s5 = smap_put (mm_request_id m) r1 (ls_active s)" "ls_in_model s5 = ls_in_model s"
    "ls_finished_events s5 = ls_finished_events s" "sd_model_meta s5 = sd_model_meta s" "ls_request_queue s5 = ls_request_queue s"
    "ls_num_sim_layers s5 = ls_num_sim_layers s" "sd_target_attached s5 = sd_target_attached s"
    "sd_ssrc s5 = sd_ssrc s" "sd_ssrc_deferred_round s5 = sd_ssrc_deferred_round s" "sd_vskm s5 = v"
    "s1 = (if lr_spec_phase r1 = DONE
       then forget_request (mm_request_id m)
              (retire_deferred (mm_request_id m) (lr_spec_round r) acc (lr_planned_draft_length r) s5)
       else retire_deferred (mm_request_id m) (lr_spec_round r) acc (lr_planned_draft_length r) s5)"
proof -
  let ?rid = "mm_request_id m"
  have r: "lr_request_id r = ?rid" "mm_verify_round m = lr_spec_round r"
    "mm_draft_length_at_issue m = lr_planned_draft_length r" "round_ok r"
    using assms(2,3) by (auto simp: in_task_def task_fits_def request_ok_def)
  then have k: "max 1 (mm_draft_length_at_issue m) = lr_planned_draft_length r"
    by (simp add: round_ok_def max_def)
  let ?k = "lr_planned_draft_length r"
  have k': "max 1 ?k = ?k" using k r(3) by simp
  obtain n s2 where sa: "sample_accepted_length ex u s r ?k = (n, s2)" by fastforce
  from sample_accepted_frame [OF sa] obtain a b c where
    s2: "s2 = s\<lparr> sd_accept_samples := a, sd_accept_sum := b, sd_accept_k_sum := c \<rparr>" by blast
  let ?acc = "min ?k n"
  define s3 where "s3 = upd_round_trace ?rid (lr_spec_round r)
       (\<lambda>t. t\<lparr> rt_accepted_length := ?acc, rt_verify_finish_cycle := ls_cycle s \<rparr>) s2"
  obtain cyc v where cv: "vskm_complete_verify (sd_vskm s3) ?rid ?k ?acc = Some (cyc, v)"
    using assms(1) k r sa by (auto simp: finish_verify_def Let_def bind_eq_Some_conv s3_def)
  obtain r1 where ap: "apply_verify_result s3 ?acc r = Some r1"
    using assms(1) k r sa by (auto simp: finish_verify_def Let_def bind_eq_Some_conv s3_def)
  define s4 where "s4 = (let s4 = put_active ?rid r1 (s3\<lparr> sd_vskm := v \<rparr>) in
      if 0 < cyc \<and> lr_spec_phase r1 \<noteq> DONE
      then s4\<lparr> sd_kv_state_stall_until := (sd_kv_state_stall_until s4)(?rid \<mapsto> ls_cycle s + cyc) \<rparr>
      else s4)"
  obtain f s5 where on: "on_ahasd f s4 = Some s5"
    and s1: "s1 = (if lr_spec_phase r1 = DONE
       then forget_request ?rid (retire_deferred ?rid (lr_spec_round r) ?acc ?k s5)
       else retire_deferred ?rid (lr_spec_round r) ?acc ?k s5)"
    and ev: "le_accepted_length ev = ?acc" "le_current_length ev = lr_current_length r1"
    using assms(1) cv ap k' sa unfolding finish_verify_def r s3_def s4_def
    by (auto simp: Let_def bind_eq_Some_conv)
  obtain x where s5: "s5 = s4\<lparr> sd_ahasd := x \<rparr>" using on_ahasd_frame [OF on] by blast
  have "ls_cycle s3 = ls_cycle s" by (simp add: s3_def s2)
  moreover have "resize_kv s3 = resize_kv s" by (intro ext) (simp add: resize_kv_def s3_def s2)
  ultimately have "apply_verify_result s3 ?acc r = apply_verify_result s ?acc r"
    by (simp only: apply_verify_result_def)
  then show thesis
    using cv ap s1 ev sa
    by (intro that [of ?acc cyc v r1 s5]) (simp_all add: s5 s4_def s3_def s2 Let_def)
qed

lemma finish_verify_ok:
  assumes "finish_verify ex u m r s = Some (ev, s1)" "in_task m r s" "mm_task_type m = VERIFY"
  shows "task_finished (mm_request_id m) s s1"
proof -
  let ?rid = "mm_request_id m" and ?k = "lr_planned_draft_length r"
  have r: "lr_request_id r = ?rid" "lr_spec_phase r = AWAIT_VERIFY" "round_ok r" "has_caches s r"
    using assms(2,3) by (auto simp: in_task_def task_fits_def request_ok_def)
  obtain acc r1 c v s5 where
    acc: "acc = min ?k (fst (sample_accepted_length ex u s r ?k))"
    and cv: "vskm_complete_verify (sd_vskm s) ?rid ?k acc = Some (c, v)"
    and ap: "apply_verify_result s acc r = Some r1"
    and s5: "ls_active s5 = smap_put ?rid r1 (ls_active s)" "ls_in_model s5 = ls_in_model s"
      "sd_model_meta s5 = sd_model_meta s" "ls_request_queue s5 = ls_request_queue s"
      "ls_num_sim_layers s5 = ls_num_sim_layers s" "sd_target_attached s5 = sd_target_attached s"
      "sd_ssrc s5 = sd_ssrc s" "sd_ssrc_deferred_round s5 = sd_ssrc_deferred_round s" "sd_vskm s5 = v"
    and s1: "s1 = (if lr_spec_phase r1 = DONE
       then forget_request ?rid (retire_deferred ?rid (lr_spec_round r) acc ?k s5)
       else retire_deferred ?rid (lr_spec_round r) acc ?k s5)"
    by (rule finish_verifyE [OF assms]) blast
  let ?opn = "(open_rounds (ls_active s))(?rid := None)"
  have opn: "open_rounds (ls_active s) ?rid = Some (lr_spec_round r)"
    using in_task_rounds [OF assms(2)] r(2) by (simp add: round_of_def mid_round_def)
  have "deferral_ok (sd_ssrc s5) (sd_ssrc_deferred_round s5) (open_rounds (ls_active s))"
    using assms(2) s5 by (simp add: in_task_def)
  note d = retire_deferred_ok [OF this opn refl, of acc ?k]
  have reg: "regions_ok v ?opn" using complete_verify_regions [OF cv] assms(2) by (simp add: in_task_def)
  have "acc \<le> ?k" by (simp add: acc)
  note ap' = apply_verify_result_cases [OF ap r(4,3) this]
  show ?thesis
  proof (cases "lr_spec_phase r1 = DONE")
    case True
    have "map_of (ls_active s1) = (map_of (ls_active s))(?rid := None)"
      by (simp add: s1 True s5 fun_eq_iff)
    then show ?thesis
      using assms(2) d reg True r(2)
      by (intro task_finishedI [where x = None and opn = ?opn]) (simp_all add: s1 s5 in_task_def moves_def)
  next
    case False
    then have ok: "request_ok r1" "round_of r1 = None"
      using ap'(5,6) by (auto simp: request_ok_def round_of_def mid_round_def)
    show ?thesis
      using assms(2) d reg False ok ap' r(1,2)
      by (intro task_finishedI [where x = "Some r1" and opn = ?opn])
        (auto simp: s1 s5 in_task_def moves_def)
  qed
qed

lemma finish_task_ok:
  assumes "finish_task ex u m r s = Some (ev, s1)" "in_task m r s"
  shows "task_finished (mm_request_id m) s s1"
proof (cases "mm_task_type m")
  case AUTOREG
  then show ?thesis using assms(2) by (simp add: in_task_def task_fits_def)
qed (use assms in \<open>auto simp: finish_task_def
      intro: finish_prompt_ok finish_draft_ok finish_verify_ok finish_pre_verify_ok\<close>)

section \<open>Every step keeps the invariant\<close>

lemma spec_finish_parts:
  assumes inv: "spec_inv s" and fin: "spec_finish_model ex u mid s = Inr s'"
    and m: "map_of (sd_model_meta s) mid = Some m"
  obtains r ev s0 s1 where "map_of (ls_active s) (mm_request_id m) = Some r" "task_fits m r"
    "in_task m r s0" "finish_task ex u m r s0 = Some (ev, s1)"
    "s0 = s\<lparr> sd_model_meta := smap_del mid (sd_model_meta s), ls_finished_events := [] \<rparr>"
    "s' = s1\<lparr> ls_finished_events := ls_finished_events s1 @ [ev],
       ls_in_model := smap_del mid (ls_in_model s1),
       ls_active := (case map_of (ls_active s1) (mm_request_id m) of None \<Rightarrow> ls_active s1
         | Some r1 \<Rightarrow> smap_put (mm_request_id m) (r1\<lparr> lr_running := False \<rparr>) (ls_active s1)) \<rparr>"
proof -
  let ?rid = "mm_request_id m"
  have tasks: "models_ok s" and aw: "active_wf s" using inv by (simp_all add: spec_inv_def)
  from tasks m obtain r where r: "map_of (ls_active s) ?rid = Some r" "task_fits m r"
    unfolding tasks_ok_def by metis
  define s0 where "s0 = s\<lparr> sd_model_meta := smap_del mid (sd_model_meta s), ls_finished_events := [] \<rparr>"
  have it: "in_task m r s0"
    using inv r aw by (auto simp: in_task_def s0_def spec_inv_def requests_ok_def active_wf_def has_caches_def)
  obtain ev s1 where "finish_task ex u m r s0 = Some (ev, s1)"
    "s' = s1\<lparr> ls_finished_events := ls_finished_events s1 @ [ev],
                   ls_in_model := smap_del mid (ls_in_model s1),
                   ls_active := (case map_of (ls_active s1) ?rid of None \<Rightarrow> ls_active s1
                     | Some r1 \<Rightarrow> smap_put ?rid (r1\<lparr> lr_running := False \<rparr>) (ls_active s1)) \<rparr>"
    using fin m r(1) unfolding spec_finish_model_def
    by (auto simp: Let_def s0_def split: option.split_asm)
  then show thesis using that r it s0_def by blast
qed

lemma spec_finish_inv:
  assumes inv: "spec_inv s" and fin: "spec_finish_model ex u mid s = Inr s'"
    and m: "map_of (sd_model_meta s) mid = Some m"
  shows "spec_inv s' \<and> (\<exists>r x. map_of (ls_active s) (mm_request_id m) = Some r \<and> moves r x \<and>
    map_of (ls_active s') = (map_of (ls_active s))(mm_request_id m := x))"
proof -
  let ?rid = "mm_request_id m"
  have tasks: "models_ok s" and aw: "active_wf s" using inv by (simp_all add: spec_inv_def)
  obtain r ev s0 s1 where r: "map_of (ls_active s) ?rid = Some r"
    and it: "in_task m r s0" and f: "finish_task ex u m r s0 = Some (ev, s1)"
    and s0_def: "s0 = s\<lparr> sd_model_meta := smap_del mid (sd_model_meta s), ls_finished_events := [] \<rparr>"
    and s': "s' = s1\<lparr> ls_finished_events := ls_finished_events s1 @ [ev],
                   ls_in_model := smap_del mid (ls_in_model s1),
                   ls_active := (case map_of (ls_active s1) ?rid of None \<Rightarrow> ls_active s1
                     | Some r1 \<Rightarrow> smap_put ?rid (r1\<lparr> lr_running := False \<rparr>) (ls_active s1)) \<rparr>"
    by (rule spec_finish_parts [OF assms]) blast
  obtain x where
    fr: "ls_in_model s1 = ls_in_model s0" "sd_model_meta s1 = sd_model_meta s0"
      "ls_request_queue s1 = ls_request_queue s0" "ls_num_sim_layers s1 = ls_num_sim_layers s0"
      "sd_target_attached s1 = sd_target_attached s0" "smap_wf (ls_active s1)"
    and mv: "\<forall>r. map_of (ls_active s0) ?rid = Some r \<longrightarrow> moves r x"
    and x: "map_of (ls_active s1) = (map_of (ls_active s0))(?rid := x)"
      "pred_option (\<lambda>r. request_ok r \<and> lr_request_id r = ?rid \<and> has_caches s0 r) x"
    and d: "deferral_ok (sd_ssrc s1) (sd_ssrc_deferred_round s1)
          ((open_rounds (ls_active s0))(?rid := Option.bind x round_of))"
      "regions_ok (sd_vskm s1) ((open_rounds (ls_active s0))(?rid := Option.bind x round_of))"
    using finish_task_ok [OF f it] unfolding task_finished_def by blast
  let ?x = "map_option (lr_running_update (\<lambda>_. False)) x"
  have act: "map_of (ls_active s') = (map_of (ls_active s))(?rid := ?x)"
    by (cases x) (auto simp: s' x(1) s0_def fun_eq_iff)
  have rest: "sd_model_meta s' = smap_del mid (sd_model_meta s)" "ls_in_model s' = smap_del mid (ls_in_model s)"
    "ls_request_queue s' = ls_request_queue s" "ls_num_sim_layers s' = ls_num_sim_layers s"
    "sd_target_attached s' = sd_target_attached s" "sd_ssrc s' = sd_ssrc s1"
    "sd_ssrc_deferred_round s' = sd_ssrc_deferred_round s1" "sd_vskm s' = sd_vskm s1"
    using fr by (simp_all add: s' s0_def)
  have wf: "smap_wf (ls_active s')" using fr(6) by (simp add: s' split: option.split)
  have x': "pred_option (\<lambda>r. request_ok r \<and> lr_request_id r = ?rid \<and> has_caches s r \<and> \<not> lr_running r) ?x"
    using x(2) by (cases x) (auto simp: has_caches_def s0_def)
  have "models_ok s'"
    unfolding rest by (rule tasks_ok_finish [OF tasks m act]) (use x' in \<open>cases x; simp\<close>)
  moreover have "active_wf s'"
    using aw wf x' r by (cases x) (auto simp: active_wf_def act rest has_caches_def)
  moreover have "requests_ok s'"
    using inv x' by (cases x) (auto simp: requests_ok_def act rest spec_inv_def)
  moreover have "open_rounds (ls_active s') = (open_rounds (ls_active s0))(?rid := Option.bind x round_of)"
    by (cases x) (auto simp: open_rounds_def act s0_def fun_eq_iff)
  moreover have "sd_target_attached s'" using inv rest(5) by (simp add: spec_inv_def)
  ultimately have "spec_inv s'" using d by (simp add: spec_inv_def rest(6-8))
  moreover have "moves r ?x" using mv r by (cases x) (auto simp: moves_def s0_def)
  ultimately show ?thesis using act r by blast
qed

lemma finish_model_unknown:
  assumes "spec_inv s" "map_of (sd_model_meta s) mid = None"
  shows "\<exists>im. spec_finish_model ex u mid s = Inr (s\<lparr> ls_finished_events := [], ls_in_model := im \<rparr>) \<and>
    im = ls_in_model s"
proof -
  have none: "map_of (ls_in_model s) mid = None" using assms by (simp add: spec_inv_def tasks_ok_def)
  then have "smap_del mid (ls_in_model s) = ls_in_model s"
    by (auto simp: smap_del_def map_of_eq_None_iff intro!: filter_True)
  then show ?thesis
    using none by (simp add: spec_finish_model_def assms(2) lang_finish_model_def)
qed

lemma spec_step_inv:
  assumes "spec_inv s" "spec_step ex u x s = Some s'"
  shows "spec_inv s'"
proof (cases x)
  case (SpecCycle mid)
  then show ?thesis using assms spec_cycle_inv by (auto split: if_split_asm sum.split_asm)
next
  case SpecPop
  then show ?thesis
    using assms by (auto simp: can_schedule_model_def pop_model_def spec_inv_def active_wf_def
        requests_ok_def has_caches_def split: list.split_asm if_split_asm)
next
  case (SpecFinish mid)
  then have f: "spec_finish_model ex u mid s = Inr s'" using assms(2) by (auto split: sum.split_asm)
  show ?thesis
  proof (cases "map_of (sd_model_meta s) mid")
    case None
    then have "s' = s\<lparr> ls_finished_events := [], ls_in_model := ls_in_model s \<rparr>"
      using finish_model_unknown [OF assms(1), of mid ex u] f by auto
    then show ?thesis
      using assms(1) by (simp add: spec_inv_def active_wf_def requests_ok_def has_caches_def)
  qed (use spec_finish_inv [OF assms(1) f] in blast)
next
  case SpecConsume
  then show ?thesis
    using assms by (auto simp: consume_finished_events_def spec_inv_def active_wf_def
        requests_ok_def has_caches_def)
qed

interpretation spec: partial_invariant "spec_step ex u" spec_inv "\<lambda>_. True" for ex u
  by unfold_locales (rule spec_step_inv)

end
