(* ===== verification/SpecProps.thy ===== *)
theory SpecProps
  imports SpecInv
begin

text \<open>
  The properties of the speculative-decoding scheduler, for every state reachable from its
  construction: its task protocol, the phases a request moves through, what a verification
  commits, the deferral discipline, and that a cycle never leaves work idle.
\<close>

section \<open>Reachable states\<close>

definition trace_ok :: "lang_request list \<Rightarrow> bool" where
  "trace_ok rs \<longleftrightarrow> list_all queue_ok rs"

text \<open>A freshly built scheduler with the target model and the given components attached.\<close>

definition spec_start ::
  "(string \<Rightarrow> fp option) \<Rightarrow> spec_config \<Rightarrow> string list option \<Rightarrow> lang_sched \<Rightarrow>
   ahasd option \<Rightarrow> pim option \<Rightarrow> ssrc_config option \<Rightarrow> spec_sched" where
  "spec_start stof cfg file base a p c =
     attach_ssrc (map_option ssrc_init c)
       (attach_ahasd a p (snd (attach_target_model (spec_sched_of stof cfg file base))))"

inductive spec_reachable :: "(fp \<Rightarrow> fp) \<Rightarrow> (u64 \<Rightarrow> nat \<Rightarrow> fp) \<Rightarrow> spec_sched \<Rightarrow> bool" for ex u where
  Start: "lang_sched_init dram prec mc sconf lines = Some base \<Longrightarrow> trace_fits lines \<Longrightarrow>
    trace_ok (ls_request_queue base) \<Longrightarrow>
    pred_option (\<lambda>c. sc_resident_limit_bytes c \<le> 2 ^ 32) c \<Longrightarrow>
    spec_reachable ex u (spec_start stof cfg file base a p c)"
| Step: "spec_reachable ex u s \<Longrightarrow> spec_step ex u x s = Some s' \<Longrightarrow> spec_reachable ex u s'"

lemma spec_sched_of_fields:
  "ls_active (spec_sched_of stof cfg file base) = ls_active base"
  "ls_in_model (spec_sched_of stof cfg file base) = ls_in_model base"
  "ls_request_queue (spec_sched_of stof cfg file base) = ls_request_queue base"
  "ls_num_sim_layers (spec_sched_of stof cfg file base) = ls_num_sim_layers base"
  "\<not> sd_target_attached (spec_sched_of stof cfg file base)"
  "sd_model_meta (spec_sched_of stof cfg file base) = []"
  "sd_ssrc_deferred_round (spec_sched_of stof cfg file base) = Map.empty"
  "sd_vskm (spec_sched_of stof cfg file base) = vskm_init (spc_vskm cfg) (kv_bytes_per_token base)"
  by (simp_all add: spec_sched_of_def lang_sched.defs spec_sched.defs Let_def)

lemma spec_start_inv:
  assumes "lang_sched_init dram prec mc sconf lines = Some base" "trace_fits lines"
    "trace_ok (ls_request_queue base)" "pred_option (\<lambda>c. sc_resident_limit_bytes c \<le> 2 ^ 32) c"
  shows "spec_inv (spec_start stof cfg file base a p c)"
proof -
  let ?s = "spec_start stof cfg file base a p c"
  have base: "ls_active base = []" "ls_in_model base = []"
    using assms(1) by (auto simp: lang_sched_init_def Let_def split: if_split_asm option.split_asm)
  have s: "ls_active ?s = []" "ls_in_model ?s = []" "ls_request_queue ?s = ls_request_queue base"
    "sd_target_attached ?s" "sd_model_meta ?s = []" "sd_ssrc_deferred_round ?s = Map.empty"
    "sd_vskm ?s = vskm_init (spc_vskm cfg) (kv_bytes_per_token base)" "sd_ssrc ?s = map_option ssrc_init c"
    by (simp_all add: spec_start_def attach_ssrc_def attach_ahasd_def attach_target_model_def
        spec_sched_of_fields base)
  have "lang_inv base" using lang_init_inv [OF assms(1,2)] .
  then have "active_wf ?s" using s(1,3) by (simp add: lang_inv_def active_wf_def)
  moreover have "deferral_ok (sd_ssrc ?s) Map.empty (open_rounds [])"
    using assms(4) s(8)
    by (cases c) (auto simp: deferral_ok_def ssrc_init_inv ssrc_init_def map_le_def
        intro: ssrc_init_inv [unfolded ssrc_init_def])
  moreover have "regions_ok (sd_vskm ?s) (open_rounds [])"
    by (simp add: s(7) regions_ok_def vskm_init_def get_request_def request_init_def)
  ultimately show ?thesis
    using s assms(3) by (simp add: spec_inv_def requests_ok_def trace_ok_def tasks_ok_def list_all_iff)
qed

lemma spec_reachable_inv: "spec_reachable ex u s \<Longrightarrow> spec_inv s"
  by (induction rule: spec_reachable.induct) (auto intro: spec_start_inv spec_step_inv)

section \<open>How a step changes the active requests\<close>

lemma moves_flags [simp]: "moves r (Some (r'\<lparr> lr_running := b \<rparr>)) = moves r (Some r')"
  by (simp add: moves_def)

text \<open>A cycle that issues a model does so for one request that was neither running nor stalled.\<close>

lemma issue_model_effect:
  assumes "issue_model mid task sl role k n rid r s = Some s'"
  shows "\<exists>r'. lr_spec_phase r' = lr_spec_phase r \<and> ls_active s' = smap_put rid r' (ls_active s) \<and>
    map_of (sd_model_meta s') mid \<noteq> None"
proof -
  obtain meta q where "s' = s\<lparr> sd_model_meta := smap_put mid meta (sd_model_meta s),
      ls_in_model := push_in_model mid (lr_request_id r) (ls_in_model s),
      ls_model_queue := ls_model_queue s @ [q],
      ls_active := smap_put rid (r\<lparr> lr_last_task_type := task, lr_running := True \<rparr>) (ls_active s) \<rparr>"
    using assms by (rule issue_modelE)
  then show ?thesis by (intro exI [of _ "r\<lparr> lr_last_task_type := task, lr_running := True \<rparr>"]) simp
qed

lemma issue_draft_effect:
  "issue_draft mid rid r s = Some s' \<Longrightarrow>
   \<exists>r'. lr_spec_phase r' = lr_spec_phase r \<and> ls_active s' = smap_put rid r' (ls_active s) \<and>
    map_of (sd_model_meta s') mid \<noteq> None"
  unfolding issue_draft_def Let_def by (drule issue_model_effect) simp

lemma issue_verify_effect:
  assumes "issue_verify mid rid r s = Some s'"
  shows "\<exists>r'. lr_spec_phase r' = lr_spec_phase r \<and> ls_active s' = smap_put rid r' (ls_active s) \<and>
    map_of (sd_model_meta s') mid \<noteq> None"
proof -
  obtain pv s1 where g: "gate_pre_verify r s = Some (pv, s1)"
    using assms by (auto simp: issue_verify_def bind_eq_Some_conv)
  then have "ls_active s1 = ls_active s" using gate_pre_verify_frame [OF g] by auto
  then show ?thesis
    using assms g unfolding issue_verify_def Let_def
    by (auto dest!: issue_model_effect simp: mark_verify_issue_def Let_def)
qed

lemma issue_for_phase_effect:
  assumes "issue_for_phase mid rid r s = Some (issued, s')" "request_ok r"
  shows "issued \<and> (\<exists>r'. moves r (Some r') \<and> ls_active s' = smap_put rid r' (ls_active s) \<and>
    map_of (sd_model_meta s') mid \<noteq> None)"
proof (cases "lr_spec_phase r")
  case PROMPT_PENDING
  then show ?thesis
    using assms(1) by (auto simp: issue_for_phase_def moves_def dest!: issue_model_effect)
next
  case DRAFT_ROUND_START
  then obtain r1 s1 where st: "start_round r s = Some (r1, s1)" "issue_draft mid rid r1 s1 = Some s'"
    "issued" using assms(1) by (auto simp: issue_for_phase_def bind_eq_Some_conv)
  obtain k s2 where k: "pick_draft_length s r = Some (k, s2)"
    using st(1) by (auto simp: start_round_def bind_eq_Some_conv)
  have "lr_current_length r < lr_target_length r"
    using assms(2) DRAFT_ROUND_START by (simp add: request_ok_def)
  from pick_draft_length_bounds [OF k this] have "ls_active s2 = ls_active s" by auto
  then have "lr_spec_phase r1 = DRAFTING" "ls_active s1 = ls_active s"
    using st(1) k by (auto simp: start_round_def Let_def)
  then show ?thesis using issue_draft_effect [OF st(2)] st(3) DRAFT_ROUND_START by (auto simp: moves_def)
next
  case DRAFTING
  then show ?thesis
    using assms(1) by (auto simp: issue_for_phase_def moves_def dest!: issue_draft_effect)
next
  case AWAIT_VERIFY
  then show ?thesis
    using assms(1) by (auto simp: issue_for_phase_def moves_def dest!: issue_verify_effect)
next
  case DONE
  then show ?thesis using assms(2) by (simp add: request_ok_def)
qed

lemma issue_first_cases:
  assumes "issue_first mid rs s = Some s'" "\<forall>(rid, r)\<in>set rs. request_ok r"
  shows "s' = s \<and> (\<forall>(rid, r)\<in>set rs. lr_running r \<or> kv_stalled s r) \<or>
    (\<exists>(rid, r)\<in>set rs. \<not> lr_running r \<and> \<not> kv_stalled s r \<and>
       (\<exists>r'. moves r (Some r') \<and> ls_active s' = smap_put rid r' (ls_active s)) \<and>
       map_of (sd_model_meta s') mid \<noteq> None)"
  using assms
proof (induction mid rs s rule: issue_first.induct)
  case (2 mid rid r rest s)
  obtain issued s1 where t: "try_issue_one_task mid rid r s = Some (issued, s1)"
    using 2(2) by (auto split: option.split_asm)
  show ?case
  proof (cases "lr_running r \<or> kv_stalled s r")
    case True
    then have n: "\<not> issued" "s1 = s" using t by (auto simp: try_issue_one_task_def)
    then have i: "issue_first mid rest s1 = Some s'" using 2(2) t by simp
    have "\<forall>(rid, r)\<in>set rest. request_ok r" using 2(3) by simp
    from 2(1) [OF t refl n(1) i this] show ?thesis unfolding n(2) using True by auto
  next
    case False
    let ?s = "s\<lparr> sd_kv_state_stall_until := (sd_kv_state_stall_until s)(lr_request_id r := None) \<rparr>"
    have "issue_for_phase mid rid r ?s = Some (issued, s1)"
      using t False by (simp add: try_issue_one_task_def)
    from issue_for_phase_effect [OF this] 2(3) obtain r' where
      "issued" "moves r (Some r')" "ls_active s1 = smap_put rid r' (ls_active s)"
      "map_of (sd_model_meta s1) mid \<noteq> None" by auto
    then show ?thesis using 2(2) t False by (intro disjI2 bexI [of _ "(rid, r)"]) auto
  qed
qed simp

text \<open>A cycle, as admission followed by the search for a request to serve.\<close>

lemma spec_cycle_parts:
  assumes "spec_inv s" "spec_cycle mid s = Inr s'"
  obtains s2 where "spec_inv s2" "sd_model_meta s2 = sd_model_meta s"
    "issue_first mid (ls_active s2) s2 = Some s'"
    "\<And>rid r. map_of (ls_active s) rid = Some r \<Longrightarrow> map_of (ls_active s2) rid = Some r"
proof -
  define s1 where "s1 = s\<lparr> ls_cycle := ls_cycle s + 1 \<rparr>"
  have att: "sd_target_attached s" using assms(1) by (simp add: spec_inv_def)
  have i1: "spec_inv s1"
    using assms(1) by (simp add: s1_def spec_inv_def active_wf_def requests_ok_def has_caches_def)
  define s2 where "s2 = (if length (ls_active s1) \<le> unat (ls_max_batch_size s1) \<or> ls_max_batch_size s1 = 0
    then admit (prepare_request (sd_target_attached s1)) s1 else s1)"
  have i2: "spec_inv s2" "sd_model_meta s2 = sd_model_meta s"
    using i1 admit_spec_inv [OF i1] att by (auto simp: s2_def s1_def)
  let ?P = "\<lambda>s'. spec_inv s' \<and> (\<forall>rid r. map_of (ls_active s) rid = Some r \<longrightarrow> map_of (ls_active s') rid = Some r)"
  have "?P (admit (prepare_request True) s1)"
  proof (rule admit_preserves [of ?P])
    fix s' assume P: "?P s'" and ne: "ls_request_queue s' \<noteq> []"
    obtain q qs where q: "ls_request_queue s' = q # qs" using ne by (cases "ls_request_queue s'") auto
    have "map_of (ls_active s') (lr_request_id q) = None"
      using P q by (auto simp: spec_inv_def active_wf_def)
    then show "?P (admit_one (prepare_request True) s')"
      using P ne admit_one_spec_inv [of s']
      by (auto simp: admit_one_def Let_def q prepare_request_def)
  qed (use i1 in \<open>simp add: s1_def\<close>)
  then have "map_of (ls_active s2) rid = Some r" if "map_of (ls_active s) rid = Some r" for rid r
    using that att by (auto simp: s2_def s1_def)
  moreover have "issue_first mid (ls_active s2) s2 = Some s'"
    using assms(2) i2(1) unfolding spec_cycle_def Let_def s1_def [symmetric] s2_def [symmetric]
    by (auto simp: spec_inv_def split: option.split_asm)
  ultimately show thesis using that i2 by blast
qed

lemma spec_inv_entries:
  assumes "spec_inv s"
  shows "(rid, r) \<in> set (ls_active s) \<longleftrightarrow> map_of (ls_active s) rid = Some r"
    "\<forall>(rid, r)\<in>set (ls_active s). request_ok r"
proof -
  have "smap_wf (ls_active s)" using assms by (simp add: spec_inv_def active_wf_def)
  then show e: "(rid, r) \<in> set (ls_active s) \<longleftrightarrow> map_of (ls_active s) rid = Some r" for rid r
    by (rule map_of_smap)
  show "\<forall>(rid, r)\<in>set (ls_active s). request_ok r"
    using assms by (auto simp: e spec_inv_def requests_ok_def)
qed

section \<open>Concrete states\<close>

text \<open>One request in the middle of its first round, its draft of two tokens complete and its
  verification, model 7, running.\<close>

definition sample_request :: lang_request where
  "sample_request = \<lparr> lr_request_id = 0, lr_running = True, lr_gen_phase = True,
     lr_request_time = 0, lr_start_time = 1, lr_finish_time = 0, lr_prompt_length = 4,
     lr_current_length = 4, lr_target_length = 9, lr_key_cache = [[6, 64]],
     lr_value_cache = [[6, 64]], lr_spec_phase = AWAIT_VERIFY, lr_spec_round = 1,
     lr_planned_draft_length = 2, lr_drafted_in_round = 2, lr_verify_round_id = 1,
     lr_last_task_type = VERIFY \<rparr>"

definition sample_meta :: model_meta where
  "sample_meta = \<lparr> mm_request_id = 0, mm_task_type = VERIFY, mm_role = ''target'',
     mm_draft_length_at_issue = 2, mm_verify_round = 1, mm_issue_cycle = 5 \<rparr>"

definition sample_accept :: accept_model where
  "sample_accept = \<lparr> am_coeffs = \<lparr> co_base = FFin 0, co_alpha = FFin 0, co_length_decay = FFin 0,
       co_p_min = FFin 0 \<rparr>, am_mode = TRACE_REPLAY, am_seed = 0,
     am_trace_rows = [(0, 1) \<mapsto> \<lparr> tr_draft_length = 2, tr_avg_entropy = FFin 0,
       tr_accepted_length = 2 \<rparr>] \<rparr>"

definition spec_sample :: spec_sched where
  "spec_sample = lang_sched.extend
     (one_running\<lparr> ls_active := [(0, sample_request)] \<rparr>)
     (spec_sched.fields True [(7, sample_meta)] 4 4 None None None Map.empty Map.empty Map.empty
        sample_accept (vskm_init vskm_sample_cfg 256) Map.empty Map.empty 0 0 0)"

lemmas spec_sample_simps =
  spec_sample_def one_running_def sample_request_def sample_meta_def lang_sched.defs spec_sched.defs

lemma spec_sample_inv: "spec_inv spec_sample"
proof -
  have "models_ok spec_sample"
    by (auto simp: spec_sample_simps tasks_ok_def smap_wf_def task_fits_def)
  moreover have "active_wf spec_sample"
    by (simp add: spec_sample_simps active_wf_def smap_wf_def has_caches_def)
  moreover have "requests_ok spec_sample"
    by (simp add: spec_sample_simps requests_ok_def request_ok_def round_ok_def)
  moreover have "regions_ok (sd_vskm spec_sample) opn" for opn
    by (simp add: spec_sample_simps regions_ok_def vskm_init_def get_request_def request_init_def)
  moreover have "sd_target_attached spec_sample" "sd_ssrc spec_sample = None"
    by (simp_all add: spec_sample_simps)
  ultimately show ?thesis by (simp add: spec_inv_def deferral_ok_def)
qed

lemma spec_sample_finish: "\<exists>s'. spec_finish_model ex u 7 spec_sample = Inr s'"
  by (simp add: spec_finish_model_def spec_sample_simps finish_task_def finish_verify_def
      sample_accepted_length_def accept_sample_def sample_accept_def lookup_trace_def
      vskm_complete_verify_def vskm_init_def apply_verify_result_def resize_kv_def resize_caches_def
      on_ahasd_def retire_deferred_def upd_round_trace_def put_active_def Let_def)

section \<open>Properties\<close>

text \<open>C6: in every reachable state a request is running exactly when one outstanding model
  computes its task, each outstanding model computes one task of one running request, and the
  task is the one its phase calls for: a prefill before the first round, a draft while tokens of
  the round are missing, a full or a strictly shorter pre-verification once they are complete.\<close>

theorem spec_task_protocol:
  assumes "spec_reachable ex u s"
  shows "(\<forall>rid r. map_of (ls_active s) rid = Some r \<longrightarrow>
      (lr_running r \<longleftrightarrow> (\<exists>!mid. \<exists>m. map_of (sd_model_meta s) mid = Some m \<and> mm_request_id m = rid))) \<and>
    (\<forall>mid m. map_of (sd_model_meta s) mid = Some m \<longrightarrow>
      map_of (ls_in_model s) mid = Some [mm_request_id m] \<and>
      (\<exists>r. map_of (ls_active s) (mm_request_id m) = Some r \<and>
        (case mm_task_type m of
           PROMPT \<Rightarrow> lr_spec_phase r = PROMPT_PENDING
         | DRAFT \<Rightarrow> lr_spec_phase r = DRAFTING \<and> lr_drafted_in_round r < lr_planned_draft_length r
         | VERIFY \<Rightarrow> lr_spec_phase r = AWAIT_VERIFY \<and>
             lr_drafted_in_round r = lr_planned_draft_length r \<and>
             mm_draft_length_at_issue m = lr_planned_draft_length r
         | PRE_VERIFY \<Rightarrow> lr_spec_phase r = AWAIT_VERIFY \<and>
             lr_drafted_in_round r = lr_planned_draft_length r \<and>
             0 < mm_draft_length_at_issue m \<and>
             mm_draft_length_at_issue m < lr_planned_draft_length r
         | AUTOREG \<Rightarrow> False)))"
proof (intro conjI allI impI)
  have inv: "spec_inv s" using assms by (rule spec_reachable_inv)
  then have t: "models_ok s" and ok: "requests_ok s" by (simp_all add: spec_inv_def)
  show "lr_running r \<longleftrightarrow> (\<exists>!mid. \<exists>m. map_of (sd_model_meta s) mid = Some m \<and> mm_request_id m = rid)"
    if "map_of (ls_active s) rid = Some r" for rid r
    using t that unfolding tasks_ok_def by (metis option.inject)
  fix mid m assume m: "map_of (sd_model_meta s) mid = Some m"
  show "map_of (ls_in_model s) mid = Some [mm_request_id m]" using t m by (simp add: tasks_ok_def)
  obtain r where r: "map_of (ls_active s) (mm_request_id m) = Some r" "task_fits m r"
    using t m unfolding tasks_ok_def by blast
  then have "request_ok r" using ok by (auto simp: requests_ok_def)
  then show "\<exists>r. map_of (ls_active s) (mm_request_id m) = Some r \<and> (case mm_task_type m of
           PROMPT \<Rightarrow> lr_spec_phase r = PROMPT_PENDING
         | DRAFT \<Rightarrow> lr_spec_phase r = DRAFTING \<and> lr_drafted_in_round r < lr_planned_draft_length r
         | VERIFY \<Rightarrow> lr_spec_phase r = AWAIT_VERIFY \<and>
             lr_drafted_in_round r = lr_planned_draft_length r \<and>
             mm_draft_length_at_issue m = lr_planned_draft_length r
         | PRE_VERIFY \<Rightarrow> lr_spec_phase r = AWAIT_VERIFY \<and>
             lr_drafted_in_round r = lr_planned_draft_length r \<and>
             0 < mm_draft_length_at_issue m \<and>
             mm_draft_length_at_issue m < lr_planned_draft_length r
         | AUTOREG \<Rightarrow> False)"
    using r by (intro exI [of _ r]) (auto simp: task_fits_def request_ok_def split: lang_task.splits)
qed

lemma finish_pre_verify_active:
  assumes "finish_pre_verify ex u m r s = Some (ev, s1)"
  shows "ls_active s1 = ls_active s"
proof -
  obtain n s2 where sa: "sample_accepted_length ex u s r (max 1 (mm_draft_length_at_issue m)) = (n, s2)" by fastforce
  obtain f where on: "on_ahasd f (s2\<lparr> sd_vskm := vskm_pre_verify (sd_vskm s2) (lr_request_id r) \<rparr>) = Some s1"
    using assms sa by (auto simp: finish_pre_verify_def Let_def bind_eq_Some_conv)
  show ?thesis using on_ahasd_frame [OF on] sample_accepted_frame [OF sa] by auto
qed

text \<open>Only a finished verification removes a request.\<close>

lemma finish_leaves:
  assumes "spec_inv s" "spec_finish_model ex u mid s = Inr s'" "map_of (sd_model_meta s) mid = Some m"
    and gone: "map_of (ls_active s') (mm_request_id m) = None"
  shows "mm_task_type m = VERIFY"
proof -
  let ?rid = "mm_request_id m"
  obtain r ev s0 s1 where r: "map_of (ls_active s) ?rid = Some r" "task_fits m r"
    and it: "in_task m r s0" and f: "finish_task ex u m r s0 = Some (ev, s1)"
    and s0: "s0 = s\<lparr> sd_model_meta := smap_del mid (sd_model_meta s), ls_finished_events := [] \<rparr>"
    and s': "s' = s1\<lparr> ls_finished_events := ls_finished_events s1 @ [ev],
       ls_in_model := smap_del mid (ls_in_model s1),
       ls_active := (case map_of (ls_active s1) ?rid of None \<Rightarrow> ls_active s1
         | Some r1 \<Rightarrow> smap_put ?rid (r1\<lparr> lr_running := False \<rparr>) (ls_active s1)) \<rparr>"
    by (rule spec_finish_parts [OF assms(1-3)]) blast
  have g: "map_of (ls_active s1) ?rid = None"
    using gone unfolding s' by (cases "map_of (ls_active s1) ?rid") simp_all
  obtain r0 y where "map_of (ls_active s) ?rid = Some r0" "moves r0 y"
    "map_of (ls_active s') = (map_of (ls_active s))(?rid := y)"
    using spec_finish_inv [OF assms(1-3)] by blast
  then have "lr_spec_phase r = AWAIT_VERIFY" using gone r(1) by (simp add: moves_def)
  then have "mm_task_type m = VERIFY \<or> mm_task_type m = PRE_VERIFY"
    using r(2) by (auto simp: task_fits_def split: lang_task.splits)
  moreover have "mm_task_type m \<noteq> PRE_VERIFY"
  proof
    assume "mm_task_type m = PRE_VERIFY"
    then have "finish_pre_verify ex u m r s0 = Some (ev, s1)" using f by (simp add: finish_task_def)
    from finish_pre_verify_active [OF this] have "ls_active s1 = ls_active s" by (simp add: s0)
    with g r(1) show False by simp
  qed
  ultimately show ?thesis by blast
qed

text \<open>A cycle keeps every request and moves it along an edge.\<close>

lemma cycle_moves:
  assumes "spec_inv s" "spec_cycle mid s = Inr s'" "map_of (ls_active s) rid = Some r"
  shows "\<exists>r'. map_of (ls_active s') rid = Some r' \<and> moves r (Some r')"
proof -
  obtain s2 where s2: "spec_inv s2" "issue_first mid (ls_active s2) s2 = Some s'"
    "map_of (ls_active s2) rid = Some r"
    using spec_cycle_parts [OF assms(1,2)] assms(3) by metis
  from issue_first_cases [OF s2(2) spec_inv_entries(2) [OF s2(1)]] show ?thesis
  proof (elim disjE conjE bexE)
    assume "s' = s2" then show ?thesis using s2(3) by (simp add: moves_def phase_edge.Stay)
  next
    fix y assume y: "y \<in> set (ls_active s2)" "case y of (i, r) \<Rightarrow> \<not> lr_running r \<and> \<not> kv_stalled s2 r \<and>
       (\<exists>r'. moves r (Some r') \<and> ls_active s' = smap_put i r' (ls_active s2)) \<and>
       map_of (sd_model_meta s') mid \<noteq> None"
    obtain i ri where yi: "y = (i, ri)" by fastforce
    have "map_of (ls_active s2) i = Some ri"
      using y(1) spec_inv_entries(1) [OF s2(1)] unfolding yi by blast
    moreover obtain r' where "moves ri (Some r')" "ls_active s' = smap_put i r' (ls_active s2)"
      using y(2) yi by blast
    ultimately show ?thesis using s2(3) by (cases "i = rid") (auto simp: moves_def phase_edge.Stay)
  qed
qed

text \<open>C11: a step moves a request only along the edges of its phase machine (prefill, round start,
  drafting, awaiting verification, next round), and a request leaves only from awaiting verification, in the step
  in which a verification model of that very request finishes.\<close>

theorem spec_phases_legal:
  assumes "spec_inv s" "spec_step ex u x s = Some s'" "map_of (ls_active s) rid = Some r"
  shows "moves r (map_of (ls_active s') rid) \<and>
    (map_of (ls_active s') rid = None \<longrightarrow> lr_spec_phase r = AWAIT_VERIFY \<and>
      (\<exists>mid m. x = SpecFinish mid \<and> map_of (sd_model_meta s) mid = Some m \<and> mm_request_id m = rid \<and>
         mm_task_type m = VERIFY))"
proof -
  let ?left = "\<exists>mid m. x = SpecFinish mid \<and> map_of (sd_model_meta s) mid = Some m \<and> mm_request_id m = rid \<and>
         mm_task_type m = VERIFY"
  have same: ?thesis if "map_of (ls_active s') = map_of (ls_active s)"
    using that assms(3) by (simp add: moves_def phase_edge.Stay)
  have "moves r (map_of (ls_active s') rid) \<and> (map_of (ls_active s') rid = None \<longrightarrow> ?left)"
  proof (cases x)
    case (SpecCycle mid)
    then have c: "spec_cycle mid s = Inr s'" using assms(2) by (auto split: if_split_asm sum.split_asm)
    from cycle_moves [OF assms(1) c assms(3)] show ?thesis by auto
  next
    case (SpecFinish mid)
    then have f: "spec_finish_model ex u mid s = Inr s'" using assms(2) by (auto split: sum.split_asm)
    show ?thesis
    proof (cases "map_of (sd_model_meta s) mid")
      case None
      then show ?thesis using finish_model_unknown [OF assms(1), of mid ex u] f same by auto
    next
      case (Some m)
      have "mm_task_type m = VERIFY" if "map_of (ls_active s') (mm_request_id m) = None"
        using finish_leaves [OF assms(1) f Some that] .
      moreover from spec_finish_inv [OF assms(1) f Some] obtain r0 y where
        "map_of (ls_active s) (mm_request_id m) = Some r0" "moves r0 y"
        "map_of (ls_active s') = (map_of (ls_active s))(mm_request_id m := y)" by blast
      ultimately show ?thesis
        using assms(3) SpecFinish Some
        by (cases "rid = mm_request_id m") (auto simp: moves_def phase_edge.Stay)
    qed
  next
    case SpecPop
    then show ?thesis
      using assms(2) same by (auto simp: can_schedule_model_def pop_model_def
          split: list.split_asm if_split_asm)
  next
    case SpecConsume
    then show ?thesis using assms(2) same by (auto simp: consume_finished_events_def)
  qed
  then show ?thesis by (auto simp: moves_def)
qed

lemma spec_phases_legal_witness:
  "\<exists>s'. spec_step (\<lambda>x. x) (\<lambda>_ _. FFin 0) (SpecFinish 7) spec_sample = Some s' \<and>
    moves sample_request (map_of (ls_active s') 0)"
proof -
  obtain s' where "spec_finish_model (\<lambda>x. x) (\<lambda>_ _. FFin 0) 7 spec_sample = Inr s'" using spec_sample_finish by blast
  then have s: "spec_step (\<lambda>x. x) (\<lambda>_ _. FFin 0) (SpecFinish 7) spec_sample = Some s'" by simp
  have "map_of (ls_active spec_sample) 0 = Some sample_request" by (simp add: spec_sample_def lang_sched.defs)
  from spec_phases_legal [OF spec_sample_inv s this] s show ?thesis by blast
qed

text \<open>C1: a verification commits exactly the accepted prefix: at most the planned draft, never
  past the target; the request then either has reached its target and is gone with everything
  recorded about it, or starts its next round; every other request is untouched.\<close>

theorem spec_verify_commits:
  assumes "spec_inv s" "map_of (sd_model_meta s) mid = Some m" "mm_task_type m = VERIFY"
    "spec_finish_model ex u mid s = Inr s'"
  shows "\<exists>r acc. map_of (ls_active s) (mm_request_id m) = Some r \<and> acc \<le> lr_planned_draft_length r \<and>
    map le_accepted_length (ls_finished_events s') = [acc] \<and>
    unat (lr_current_length r) + unat acc \<le> unat (lr_target_length r) \<and>
    (if unat (lr_current_length r) + unat acc = unat (lr_target_length r)
     then map_of (ls_active s') (mm_request_id m) = None
     else \<exists>r'. map_of (ls_active s') (mm_request_id m) = Some r' \<and>
       unat (lr_current_length r') = unat (lr_current_length r) + unat acc \<and>
       lr_spec_phase r' = DRAFT_ROUND_START \<and> \<not> lr_running r') \<and>
    (\<forall>rid. rid \<noteq> mm_request_id m \<longrightarrow> map_of (ls_active s') rid = map_of (ls_active s) rid)"
proof -
  let ?rid = "mm_request_id m"
  obtain r ev s0 s1 where r: "map_of (ls_active s) ?rid = Some r"
    and it: "in_task m r s0" and f: "finish_task ex u m r s0 = Some (ev, s1)"
    and s0: "s0 = s\<lparr> sd_model_meta := smap_del mid (sd_model_meta s), ls_finished_events := [] \<rparr>"
    and s': "s' = s1\<lparr> ls_finished_events := ls_finished_events s1 @ [ev],
                   ls_in_model := smap_del mid (ls_in_model s1),
                   ls_active := (case map_of (ls_active s1) ?rid of None \<Rightarrow> ls_active s1
                     | Some r1 \<Rightarrow> smap_put ?rid (r1\<lparr> lr_running := False \<rparr>) (ls_active s1)) \<rparr>"
    by (rule spec_finish_parts [OF assms(1,4,2)]) blast
  let ?k = "lr_planned_draft_length r"
  have rr: "round_ok r" "has_caches s0 r"
    using it assms(3) by (auto simp: in_task_def task_fits_def request_ok_def)
  have fv: "finish_verify ex u m r s0 = Some (ev, s1)" using f assms(3) by (simp add: finish_task_def)
  obtain acc r1 s5 where
    acc: "acc = min ?k (fst (sample_accepted_length ex u s0 r ?k))"
    and ap: "apply_verify_result s0 acc r = Some r1" and ev: "le_accepted_length ev = acc"
    and s5: "ls_active s5 = smap_put ?rid r1 (ls_active s0)"
      "ls_finished_events s5 = ls_finished_events s0"
    and s1: "s1 = (if lr_spec_phase r1 = DONE
       then forget_request ?rid (retire_deferred ?rid (lr_spec_round r) acc ?k s5)
       else retire_deferred ?rid (lr_spec_round r) acc ?k s5)"
    by (rule finish_verifyE [OF fv it assms(3)]) blast
  have le: "acc \<le> ?k" by (simp add: acc)
  note ap' = apply_verify_result_cases [OF ap rr(2,1) le]
  have "ls_finished_events (forget_request rid t) = ls_finished_events t"
    "ls_finished_events (retire_deferred rid n a k t) = ls_finished_events t" for rid n a k t
    by (simp_all add: forget_request_def retire_deferred_def split: option.split)
  then have evs: "ls_finished_events s1 = []" using s5(2) by (simp add: s1 s0)
  have lt: "unat (lr_current_length r) + unat acc \<le> unat (lr_target_length r)"
    using ap'(2,6) by (auto simp: word_less_nat_alt)
  show ?thesis
  proof (cases "lr_spec_phase r1 = DONE")
    case True
    then have "unat (lr_current_length r) + unat acc = unat (lr_target_length r)" using ap'(2,6) by auto
    then show ?thesis
      using r le evs ev True by (intro exI [of _ r] exI [of _ acc]) (simp add: s' s1 s5(1) s0)
  next
    case False
    then have "unat (lr_current_length r) + unat acc < unat (lr_target_length r)"
      using ap'(2,6) by (auto simp: word_less_nat_alt)
    then show ?thesis
      using r le evs ev False ap' by (intro exI [of _ r] exI [of _ acc]) (auto simp: s' s1 s5(1) s0)
  qed
qed

lemma spec_verify_commits_witness:
  "\<exists>s' acc. spec_finish_model (\<lambda>x. x) (\<lambda>_ _. FFin 0) 7 spec_sample = Inr s' \<and>
    map le_accepted_length (ls_finished_events s') = [acc] \<and> acc \<le> 2"
proof -
  obtain s' where f: "spec_finish_model (\<lambda>x. x) (\<lambda>_ _. FFin 0) 7 spec_sample = Inr s'" using spec_sample_finish by blast
  have m: "map_of (sd_model_meta spec_sample) 7 = Some sample_meta" "mm_task_type sample_meta = VERIFY"
    "map_of (ls_active spec_sample) (mm_request_id sample_meta) = Some sample_request"
    by (simp_all add: spec_sample_def lang_sched.defs spec_sched.defs sample_meta_def)
  from spec_verify_commits [OF spec_sample_inv m(1,2) f] m(3) f show ?thesis
    by (auto simp: sample_request_def)
qed

text \<open>C12: the deferred state writes follow the rounds: a request holds a reservation exactly when
  it is in the middle of a round and this round is the one recorded as deferred; the reservation is for that round;
  and the resident bytes are exactly the reserved ones and within the limit, so the scheduler never causes the leak a
  second deferral would.\<close>

theorem spec_deferral_discipline:
  assumes "spec_reachable ex u s" "sd_ssrc s = Some c" "sc_enable (sr_cfg c)"
  shows "unat (sr_resident_bytes c) = reserved_total c \<and>
    sr_resident_bytes c \<le> sc_resident_limit_bytes (sr_cfg c) \<and>
    (\<forall>rid. sr_active_requests c rid \<noteq> None \<longleftrightarrow>
       (\<exists>r. map_of (ls_active s) rid = Some r \<and> mid_round r \<and> sd_ssrc_deferred_round s rid = Some (lr_spec_round r))) \<and>
    (\<forall>rid it. sr_active_requests c rid = Some it \<longrightarrow>
       sd_ssrc_deferred_round s rid = Some (rr_spec_round it) \<and>
       (\<exists>r. map_of (ls_active s) rid = Some r \<and> mid_round r \<and> lr_spec_round r = rr_spec_round it))"
proof -
  have "deferral_ok (Some c) (sd_ssrc_deferred_round s) (open_rounds (ls_active s))"
    using spec_reachable_inv [OF assms(1)] assms(2) by (simp add: spec_inv_def)
  then have c: "ssrc_inv (sr_cfg c) c" "ssrc_exact c"
    and d: "\<And>rid. map_option rr_spec_round (sr_active_requests c rid) = sd_ssrc_deferred_round s rid"
    and le: "sd_ssrc_deferred_round s \<subseteq>\<^sub>m open_rounds (ls_active s)"
    using assms(3) by (simp_all add: deferral_ok_def)
  have o: "\<exists>r. map_of (ls_active s) rid = Some r \<and> mid_round r \<and> lr_spec_round r = n"
    if "sd_ssrc_deferred_round s rid = Some n" for rid n
  proof -
    have "open_rounds (ls_active s) rid = Some n" using le that by (metis domI map_le_def)
    then show ?thesis
      by (auto simp: open_rounds_def round_of_def bind_eq_Some_conv split: if_split_asm)
  qed
  have res: "sd_ssrc_deferred_round s rid = Some (rr_spec_round it)"
    if "sr_active_requests c rid = Some it" for rid it using d [of rid] that by simp
  have "sr_active_requests c rid \<noteq> None" if "sd_ssrc_deferred_round s rid = Some n" for rid n
    using d [of rid] that by auto
  then have "sr_active_requests c rid \<noteq> None \<longleftrightarrow>
       (\<exists>r. map_of (ls_active s) rid = Some r \<and> mid_round r \<and> sd_ssrc_deferred_round s rid = Some (lr_spec_round r))" for rid
    using res o by fastforce
  with o res c show ?thesis by (auto simp: ssrc_inv_def ssrc_exact_def)
qed

text \<open>C27: no cycle idles: after it a model is outstanding, or every active request waits out the KV
  rollback it was charged for.\<close>

theorem spec_never_idles:
  assumes "spec_inv s" "map_of (sd_model_meta s) mid = None" "spec_cycle mid s = Inr s'"
  shows "sd_model_meta s' \<noteq> [] \<or>
    (\<forall>rid r. map_of (ls_active s') rid = Some r \<longrightarrow> kv_stalled s' r)"
proof -
  obtain s2 where s2: "spec_inv s2" "issue_first mid (ls_active s2) s2 = Some s'"
    using spec_cycle_parts [OF assms(1,3)] by metis
  from issue_first_cases [OF s2(2) spec_inv_entries(2) [OF s2(1)]] show ?thesis
  proof (elim disjE conjE bexE)
    assume s': "s' = s2" and all: "\<forall>(rid, r)\<in>set (ls_active s2). lr_running r \<or> kv_stalled s2 r"
    show ?thesis
    proof (rule ccontr)
      assume "\<not> ?thesis"
      then obtain rid r where r: "sd_model_meta s2 = []" "map_of (ls_active s2) rid = Some r"
        "\<not> kv_stalled s2 r" unfolding s' by blast
      then have "lr_running r" using all spec_inv_entries(1) [OF s2(1)] by fastforce
      then show False using s2(1) r(1,2) by (auto simp: spec_inv_def tasks_ok_def)
    qed
  next
    fix y assume "case y of (i, r) \<Rightarrow> \<not> lr_running r \<and> \<not> kv_stalled s2 r \<and>
         (\<exists>r'. moves r (Some r') \<and> ls_active s' = smap_put i r' (ls_active s2)) \<and>
         map_of (sd_model_meta s') mid \<noteq> None"
    then show ?thesis by (cases y) auto
  qed
qed

text \<open>The member configuration is never assigned, so the configured default draft length never
  takes effect: without the drafting control every round plans the largest allowed draft.\<close>

lemma default_draft_length_ignored:
  assumes "lang_sched_init dram prec mc sconf lines = Some base"
  shows "sd_default_draft_length (spec_sched_of stof cfg file base) =
    sd_max_draft_length (spec_sched_of stof cfg file base)"
  using assms
  by (auto simp: lang_sched_init_def spec_sched_of_def lang_sched.defs spec_sched.defs Let_def
      split: if_split_asm option.split_asm)

definition spec_small_config :: spec_config where
  "spec_small_config = \<lparr> spc_max_draft_length = 4, spc_vskm = vskm_sample_cfg,
     spc_accept = \<lparr> acc_mode = ''parametric'', acc_coeffs = am_coeffs sample_accept, acc_rng_seed = 0 \<rparr> \<rparr>"

lemma small_queue_ok:
  "\<exists>base r0 r1. lang_sched_init 0 2 small_model [''max_batch_size'' \<mapsto> 1] (Some small_trace) = Some base \<and>
    trace_ok (ls_request_queue base) \<and> ls_request_queue base = [r0, r1] \<and> lr_request_id r0 = 0 \<and>
    lr_request_time r0 = 0 \<and> ls_active base = [] \<and> ls_in_model base = [] \<and>
    ls_cycle base = 0 \<and> ls_max_batch_size base = 1"
  by (simp add: lang_sched_init_def small_model_def small_trace_def parse_request_def decimal_samples
      int_add_def field_def trace_ok_def queue_ok_def Let_def)

lemma small_first_cycle:
  "\<exists>s s'. spec_reachable ex u s \<and> spec_step ex u (SpecCycle 7) s = Some s' \<and>
    map_of (sd_model_meta s') 7 \<noteq> None"
proof -
  obtain base r0 r1 where b: "lang_sched_init 0 2 small_model [''max_batch_size'' \<mapsto> 1] (Some small_trace) = Some base"
    "trace_ok (ls_request_queue base)" "ls_request_queue base = [r0, r1]" "lr_request_id r0 = 0"
    "lr_request_time r0 = 0" "ls_active base = []" "ls_in_model base = []" "ls_cycle base = 0"
    "ls_max_batch_size base = 1" using small_queue_ok by blast
  have f: "trace_fits (Some small_trace)" by (simp add: trace_fits_def small_trace_def)
  let ?s = "spec_start (\<lambda>_. None) spec_small_config None base None None None"
  have "spec_reachable ex u ?s"
    by (rule spec_reachable.Start [OF b(1) f b(2)]) simp
  moreover have "\<exists>s'. spec_step ex u (SpecCycle 7) ?s = Some s' \<and> map_of (sd_model_meta s') 7 \<noteq> None"
    by (simp add: spec_start_def spec_sched_of_def attach_ssrc_def attach_ahasd_def attach_target_model_def
        lang_sched.defs spec_sched.defs Let_def b spec_cycle_def admit.simps admit_one_def init_request_def
        prepare_request_def try_issue_one_task_def kv_stalled_def issue_for_phase_def issue_model_def
        request_rank_switch_def put_active_def)
  ultimately show ?thesis by blast
qed

lemma spec_task_protocol_witness:
  "\<exists>s m r. spec_reachable (\<lambda>x. x) (\<lambda>_ _. FFin 0) s \<and> map_of (sd_model_meta s) 7 = Some m \<and>
    map_of (ls_in_model s) 7 = Some [mm_request_id m] \<and>
    map_of (ls_active s) (mm_request_id m) = Some r \<and> lr_running r"
proof -
  obtain s s' where s: "spec_reachable (\<lambda>x. x) (\<lambda>_ _. FFin 0) s" "spec_step (\<lambda>x. x) (\<lambda>_ _. FFin 0) (SpecCycle 7) s = Some s'"
    "map_of (sd_model_meta s') 7 \<noteq> None" using small_first_cycle by blast
  then obtain m where m: "map_of (sd_model_meta s') 7 = Some m" by blast
  have s': "spec_reachable (\<lambda>x. x) (\<lambda>_ _. FFin 0) s'" using s(1,2) by (rule spec_reachable.Step)
  note p = spec_task_protocol [OF s']
  obtain r where "map_of (ls_active s') (mm_request_id m) = Some r"
    and im: "map_of (ls_in_model s') 7 = Some [mm_request_id m]" using p m by blast
  moreover have "lr_running r"
  proof -
    have "models_ok s'" using spec_reachable_inv [OF s'] by (simp add: spec_inv_def)
    then show ?thesis using m calculation(1) unfolding tasks_ok_def by fastforce
  qed
  ultimately show ?thesis using s' m by blast
qed

lemma entropy_at_least: "\<exists>q. compute_entropy_hint r = FFin q \<and> 1 / 2 \<le> q"
proof -
  have "\<exists>q. fmini (FFin (19/2)) (fmaxi (FFin (1/2)) x) = FFin q \<and> 1 / 2 \<le> q" for x
    by (cases x) (auto simp: fmini_def fmaxi_def exI [of _ "1/2"] exI [of _ "19/2"])
  then show ?thesis by (simp add: compute_entropy_hint_def Let_def)
qed

definition eager_ssrc :: ssrc_config where
  "eager_ssrc = ssrc_default_config\<lparr> sc_enable := True, sc_confidence_threshold := FFin 0 \<rparr>"

lemma single_queue_ok:
  "\<exists>base r0. lang_sched_init 0 2 small_model [''max_batch_size'' \<mapsto> 1] (Some [''0,4,2,0'']) = Some base \<and>
    trace_ok (ls_request_queue base) \<and> ls_request_queue base = [r0] \<and> lr_request_id r0 = 0 \<and>
    lr_request_time r0 = 0 \<and> ls_active base = [] \<and> ls_in_model base = [] \<and>
    ls_cycle base = 0 \<and> ls_max_batch_size base = 1"
  by (simp add: lang_sched_init_def small_model_def small_trace_def parse_request_def decimal_samples
      int_add_def field_def trace_ok_def queue_ok_def Let_def)

lemma should_defer_eager:
  assumes "sr_cfg c = eager_ssrc" and "sr_resident_bytes c = 0" and "k \<le> 4"
  shows "\<exists>c' it. should_defer_round c i n k (compute_entropy_hint r) = (True, c') \<and> sr_cfg c' = eager_ssrc
    \<and> sr_active_requests c' i = Some it"
proof -
  obtain q where q: "compute_entropy_hint r = FFin q" "1 / 2 \<le> q" using entropy_at_least by blast
  have "unat (ucast k * 128 :: u64) = unat k * 128"
  proof -
    have "unat k \<le> 4" using assms(3) by (simp add: word_le_nat_alt)
    then show ?thesis by (simp add: unat_mult_lem [THEN iffD1] unat_ucast_wider unat_word_ariths)
  qed
  moreover have "unat k \<le> 4" using assms(3) by (simp add: word_le_nat_alt)
  ultimately have "\<not> (4 * 1024 * 1024 :: u64) < ucast k * 128" by (simp add: word_less_nat_alt)
  then show ?thesis
    using assms q by (simp add: should_defer_round_def eager_ssrc_def ssrc_default_config_def Let_def)
qed

lemma small_deferral:
  "\<exists>s c it. spec_reachable (\<lambda>x. x) (\<lambda>_ _. FFin 0) s \<and> sd_ssrc s = Some c \<and> sc_enable (sr_cfg c) \<and>
    sr_active_requests c 0 = Some it"
proof -
  let ?ex = "\<lambda>x :: fp. x" and ?u = "\<lambda>(_ :: u64) (_ :: nat). FFin 0"
  obtain base r0 where b: "lang_sched_init 0 2 small_model [''max_batch_size'' \<mapsto> 1] (Some [''0,4,2,0'']) = Some base"
    "trace_ok (ls_request_queue base)" "ls_request_queue base = [r0]" "lr_request_id r0 = 0"
    "lr_request_time r0 = 0" "ls_active base = []" "ls_in_model base = []" "ls_cycle base = 0"
    "ls_max_batch_size base = 1" using single_queue_ok by blast
  have f: "trace_fits (Some [''0,4,2,0''])" by (simp add: trace_fits_def)
  let ?s = "spec_start (\<lambda>_. None) spec_small_config None base None None (Some eager_ssrc)"
  have r: "spec_reachable ?ex ?u ?s"
    by (rule spec_reachable.Start [OF b(1) f b(2)]) (simp add: eager_ssrc_def ssrc_default_config_def)
  have "\<exists>s1 m1 r1. spec_step ?ex ?u (SpecCycle 7) ?s = Some s1
      \<and> sd_model_meta s1 = [(7, m1)]
      \<and> mm_request_id m1 = 0
      \<and> mm_task_type m1 = PROMPT
      \<and> ls_active s1 = [(0, r1)]
      \<and> lr_request_id r1 = 0
      \<and> length (lr_key_cache r1) = unat (ls_num_sim_layers s1)
      \<and> length (lr_value_cache r1) = unat (ls_num_sim_layers s1)
      \<and> sd_ssrc s1 = Some (ssrc_init eager_ssrc)
      \<and> sd_ahasd s1 = None
      \<and> sd_pim s1 = None
      \<and> sd_target_attached s1
      \<and> sd_kv_state_stall_until s1 = Map.empty
      \<and> sd_max_draft_length s1 = 4
      \<and> ls_request_queue s1 = []"
    by (simp add: spec_start_def spec_sched_of_def attach_ssrc_def attach_ahasd_def attach_target_model_def
        lang_sched.defs spec_sched.defs Let_def b spec_cycle_def admit.simps admit_one_def init_request_def
        prepare_request_def try_issue_one_task_def kv_stalled_def issue_for_phase_def issue_model_def
        request_rank_switch_def put_active_def spec_small_config_def)
  then obtain s1 m1 r1 where s1: "spec_step ?ex ?u (SpecCycle 7) ?s = Some s1" "sd_model_meta s1 = [(7, m1)]"
      "mm_request_id m1 = 0" "mm_task_type m1 = PROMPT" "ls_active s1 = [(0, r1)]" "lr_request_id r1 = 0"
      "length (lr_key_cache r1) = unat (ls_num_sim_layers s1)" "length (lr_value_cache r1) = unat (ls_num_sim_layers s1)"
      "sd_ssrc s1 = Some (ssrc_init eager_ssrc)" "sd_ahasd s1 = None" "sd_pim s1 = None" "sd_target_attached s1"
      "sd_kv_state_stall_until s1 = Map.empty" "sd_max_draft_length s1 = 4"
      "ls_request_queue s1 = []" by (elim exE conjE) (rule that)
  have "\<exists>s2 r2. spec_step ?ex ?u (SpecFinish 7) s1 = Some s2
      \<and> sd_model_meta s2 = []
      \<and> ls_active s2 = [(0, r2)]
      \<and> lr_request_id r2 = 0
      \<and> lr_spec_phase r2 = DRAFT_ROUND_START
      \<and> \<not> lr_running r2
      \<and> length (lr_key_cache r2) = unat (ls_num_sim_layers s2)
      \<and> length (lr_value_cache r2) = unat (ls_num_sim_layers s2)
      \<and> sd_ssrc s2 = Some (ssrc_init eager_ssrc)
      \<and> sd_ahasd s2 = None
      \<and> sd_pim s2 = None
      \<and> sd_target_attached s2
      \<and> sd_kv_state_stall_until s2 = Map.empty
      \<and> sd_max_draft_length s2 = 4
      \<and> ls_request_queue s2 = []"
    using s1 by (simp add: spec_finish_model_def finish_task_def finish_prompt_def resize_kv_def resize_caches_def Let_def
        put_active_def smap_del_def)
  then obtain s2 r2 where s2: "spec_step ?ex ?u (SpecFinish 7) s1 = Some s2" "sd_model_meta s2 = []"
      "ls_active s2 = [(0, r2)]" "lr_request_id r2 = 0" "lr_spec_phase r2 = DRAFT_ROUND_START" "\<not> lr_running r2"
      "length (lr_key_cache r2) = unat (ls_num_sim_layers s2)" "length (lr_value_cache r2) = unat (ls_num_sim_layers s2)"
      "sd_ssrc s2 = Some (ssrc_init eager_ssrc)" "sd_ahasd s2 = None" "sd_pim s2 = None" "sd_target_attached s2"
      "sd_kv_state_stall_until s2 = Map.empty" "sd_max_draft_length s2 = 4"
      "ls_request_queue s2 = []" by (elim exE conjE) (rule that)
  define k where "k = max 1 (min (sd_default_draft_length s2) (min 4 (max 1 (tokens_remaining r2))))"
  have "k \<le> 4" by (simp add: k_def min_le_iff_disj)
  have "\<exists>s3 c it. spec_step ?ex ?u (SpecCycle 8) s2 = Some s3 \<and> sd_ssrc s3 = Some c \<and> sr_cfg c = eager_ssrc
      \<and> sr_active_requests c 0 = Some it"
  proof -
    have init: "sr_cfg (ssrc_init eager_ssrc) = eager_ssrc" "sr_resident_bytes (ssrc_init eager_ssrc) = 0"
      by (simp_all add: ssrc_init_def)
    obtain c it where c: "should_defer_round (ssrc_init eager_ssrc) 0 (lr_spec_round r2 + 1) k
        (compute_entropy_hint (r2\<lparr>lr_planned_draft_length := k, lr_drafted_in_round := 0, lr_spec_round := lr_spec_round r2 + 1\<rparr>))
        = (True, c)" "sr_cfg c = eager_ssrc" "sr_active_requests c 0 = Some it"
      using should_defer_eager [of "ssrc_init eager_ssrc" k 0 "lr_spec_round r2 + 1", OF _ _ \<open>k \<le> 4\<close>] init
      by blast
    have e: "sc_enable (sr_cfg (ssrc_init eager_ssrc))" by (simp add: ssrc_init_def eager_ssrc_def)
    show ?thesis
      using s2 c e by (simp add: spec_cycle_def Let_def admit.simps try_issue_one_task_def kv_stalled_def issue_for_phase_def
        start_round_def pick_draft_length_def k_def [symmetric] open_round_def defer_round_def upd_round_trace_def
        issue_draft_def issue_model_def request_rank_switch_def put_active_def)
  qed
  then obtain s3 c it where s3: "spec_step ?ex ?u (SpecCycle 8) s2 = Some s3" "sd_ssrc s3 = Some c" "sr_cfg c = eager_ssrc"
      "sr_active_requests c 0 = Some it" by blast
  have "spec_reachable ?ex ?u s3"
    using r s1(1) s2(1) s3(1) by (blast intro: spec_reachable.Step)
  then show ?thesis using s3 by (auto simp: eager_ssrc_def)
qed

text \<open>A run in which the first round of the only request is deferred.\<close>

lemma spec_deferral_discipline_witness:
  "\<exists>s c it. spec_reachable (\<lambda>x. x) (\<lambda>_ _. FFin 0) s \<and> sd_ssrc s = Some c \<and> sr_active_requests c 0 = Some it \<and>
    unat (sr_resident_bytes c) = reserved_total c \<and>
    (\<exists>r. map_of (ls_active s) 0 = Some r \<and> mid_round r \<and> lr_spec_round r = rr_spec_round it)"
proof -
  obtain s c it where s: "spec_reachable (\<lambda>x. x) (\<lambda>_ _. FFin 0) s" "sd_ssrc s = Some c" "sc_enable (sr_cfg c)"
    "sr_active_requests c 0 = Some it" using small_deferral by blast
  from spec_deferral_discipline [OF s(1-3)] s show ?thesis by blast
qed

lemma spec_never_idles_witness:
  "\<exists>s'. spec_cycle 8 spec_sample = Inr s' \<and> (sd_model_meta s' \<noteq> [] \<or>
    (\<forall>rid r. map_of (ls_active s') rid = Some r \<longrightarrow> kv_stalled s' r))"
proof -
  have m: "map_of (sd_model_meta spec_sample) 8 = None" by (simp add: spec_sample_simps)
  obtain s' where c: "spec_cycle 8 spec_sample = Inr s'"
    by (simp add: spec_cycle_def spec_sample_simps admit.simps try_issue_one_task_def Let_def)
  from spec_never_idles [OF spec_sample_inv m c] c show ?thesis by blast
qed

end
