(* ===== verification/PimIsa.thy ===== *)
theory PimIsa
  imports Prelude "HOL-Library.Monad_Syntax"
begin

text \<open>
  The PIM instruction set: \<^verbatim>\<open>PIMCmd\<close> of \<^verbatim>\<open>PIMSimulator/src/PIMCmd.h\<close> and \<^verbatim>\<open>PIMCmd.cpp\<close>.

  A command is a record of its fields; the \<^verbatim>\<open>int\<close> fields are 32-bit words.  The constructors leave
  \<^verbatim>\<open>isRelu_\<close> uninitialised except the one of the moves, so each takes the value the memory held
  (\<^verbatim>\<open>junk\<close>).  \<^verbatim>\<open>exit(-1)\<close> of the validation is \<^verbatim>\<open>None\<close>.  The lemmas show that encoding and decoding
  are inverse on the fields an instruction has, that the comparison of two commands is the comparison of those
  fields, and which commands the encoder refuses.
\<close>

unbundle bit_operations_syntax

section \<open>Operations and operands\<close>

datatype pim_cmd_type = NOP | ADD | MUL | MAC | MAD | REV0 | REV1 | REV2 | MOV | FILL | REV3 | REV4 | REV5 | REV6
  | JUMP | EXIT

datatype pim_opd_type = A_OUT | M_OUT | EVEN_BANK | ODD_BANK | GRF_A | GRF_B | SRF_M | SRF_A

text \<open>The conversions between the enumerations and integers, in the order of declaration.\<close>

definition cmd_types :: "pim_cmd_type list" where
  "cmd_types = [NOP, ADD, MUL, MAC, MAD, REV0, REV1, REV2, MOV, FILL, REV3, REV4, REV5, REV6, JUMP, EXIT]"

definition opd_types :: "pim_opd_type list" where
  "opd_types = [A_OUT, M_OUT, EVEN_BANK, ODD_BANK, GRF_A, GRF_B, SRF_M, SRF_A]"

fun cmd_code :: "pim_cmd_type \<Rightarrow> 32 word" where
  "cmd_code NOP = 0" | "cmd_code ADD = 1" | "cmd_code MUL = 2" | "cmd_code MAC = 3" | "cmd_code MAD = 4"
| "cmd_code REV0 = 5" | "cmd_code REV1 = 6" | "cmd_code REV2 = 7" | "cmd_code MOV = 8" | "cmd_code FILL = 9"
| "cmd_code REV3 = 10" | "cmd_code REV4 = 11" | "cmd_code REV5 = 12" | "cmd_code REV6 = 13" | "cmd_code JUMP = 14"
| "cmd_code EXIT = 15"

fun opd_code :: "pim_opd_type \<Rightarrow> 32 word" where
  "opd_code A_OUT = 0" | "opd_code M_OUT = 1" | "opd_code EVEN_BANK = 2" | "opd_code ODD_BANK = 3"
| "opd_code GRF_A = 4" | "opd_code GRF_B = 5" | "opd_code SRF_M = 6" | "opd_code SRF_A = 7"

definition cmd_of_code :: "32 word \<Rightarrow> pim_cmd_type" where
  "cmd_of_code w = cmd_types ! unat (w AND 15)"

definition opd_of_code :: "32 word \<Rightarrow> pim_opd_type" where
  "opd_of_code w = opd_types ! unat (w AND 7)"

section \<open>Commands\<close>

record pim_cmd =
  cmd_type :: pim_cmd_type
  dst :: pim_opd_type
  src0 :: pim_opd_type
  src1 :: pim_opd_type
  src2 :: pim_opd_type
  loop_counter :: "32 word"
  loop_offset :: "32 word"
  is_auto :: "32 word"
  dst_idx :: "32 word"
  src0_idx :: "32 word"
  src1_idx :: "32 word"
  is_relu :: "32 word"

definition pim_cmd_default :: "32 word \<Rightarrow> pim_cmd" where
  "pim_cmd_default junk =
     \<lparr>cmd_type = NOP, dst = A_OUT, src0 = A_OUT, src1 = A_OUT, src2 = A_OUT, loop_counter = 0, loop_offset = 0,
      is_auto = 0, dst_idx = 0, src0_idx = 0, src1_idx = 0, is_relu = junk\<rparr>"

definition pim_cmd_ctrl :: "32 word \<Rightarrow> pim_cmd_type \<Rightarrow> 32 word \<Rightarrow> pim_cmd" where
  "pim_cmd_ctrl junk t counter =
     \<lparr>cmd_type = t, dst = A_OUT, src0 = A_OUT, src1 = A_OUT, src2 = A_OUT, loop_counter = counter, loop_offset = 0,
      is_auto = 0, dst_idx = 0, src0_idx = 0, src1_idx = 0, is_relu = junk\<rparr>"

definition pim_cmd_jump :: "32 word \<Rightarrow> pim_cmd_type \<Rightarrow> 32 word \<Rightarrow> 32 word \<Rightarrow> pim_cmd" where
  "pim_cmd_jump junk t counter offset =
     \<lparr>cmd_type = t, dst = A_OUT, src0 = A_OUT, src1 = A_OUT, src2 = A_OUT, loop_counter = counter,
      loop_offset = offset, is_auto = 0, dst_idx = 0, src0_idx = 0, src1_idx = 0, is_relu = junk\<rparr>"

definition pim_cmd_move ::
  "pim_cmd_type \<Rightarrow> pim_opd_type \<Rightarrow> pim_opd_type \<Rightarrow> 32 word \<Rightarrow> 32 word \<Rightarrow> 32 word \<Rightarrow> 32 word \<Rightarrow> 32 word
   \<Rightarrow> pim_cmd" where
  "pim_cmd_move t d s0 aut di s0i s1i relu =
     \<lparr>cmd_type = t, dst = d, src0 = s0, src1 = A_OUT, src2 = A_OUT, loop_counter = 0, loop_offset = 0,
      is_auto = aut, dst_idx = di, src0_idx = s0i, src1_idx = s1i, is_relu = relu\<rparr>"

definition pim_cmd_arith ::
  "32 word \<Rightarrow> pim_cmd_type \<Rightarrow> pim_opd_type \<Rightarrow> pim_opd_type \<Rightarrow> pim_opd_type \<Rightarrow> 32 word \<Rightarrow> 32 word \<Rightarrow> 32 word
   \<Rightarrow> 32 word \<Rightarrow> pim_cmd" where
  "pim_cmd_arith junk t d s0 s1 aut di s0i s1i =
     \<lparr>cmd_type = t, dst = d, src0 = s0, src1 = s1, src2 = A_OUT, loop_counter = 0, loop_offset = 0,
      is_auto = aut, dst_idx = di, src0_idx = s0i, src1_idx = s1i, is_relu = junk\<rparr>"

definition pim_cmd_mad ::
  "32 word \<Rightarrow> pim_cmd_type \<Rightarrow> pim_opd_type \<Rightarrow> pim_opd_type \<Rightarrow> pim_opd_type \<Rightarrow> pim_opd_type \<Rightarrow> 32 word \<Rightarrow> 32 word
   \<Rightarrow> 32 word \<Rightarrow> 32 word \<Rightarrow> pim_cmd" where
  "pim_cmd_mad junk t d s0 s1 s2 aut di s0i s1i =
     \<lparr>cmd_type = t, dst = d, src0 = s0, src1 = s1, src2 = s2, loop_counter = 0, loop_offset = 0,
      is_auto = aut, dst_idx = di, src0_idx = s0i, src1_idx = s1i, is_relu = junk\<rparr>"

section \<open>Encoding and decoding\<close>

definition bitmask :: "nat \<Rightarrow> 32 word" where
  "bitmask len = push_bit len 1 - 1"

definition to_bit :: "32 word \<Rightarrow> nat \<Rightarrow> nat \<Rightarrow> 32 word" where
  "to_bit v len pos = push_bit pos (v AND bitmask len)"

definition from_bit :: "32 word \<Rightarrow> nat \<Rightarrow> nat \<Rightarrow> 32 word" where
  "from_bit v len pos = drop_bit pos v AND bitmask len"

text \<open>\<^verbatim>\<open>fromInt\<close> overwrites the fields of the instruction it finds and keeps the others.\<close>

definition decode_arith :: "32 word \<Rightarrow> pim_cmd \<Rightarrow> pim_cmd" where
  "decode_arith w c =
     c\<lparr>dst := opd_of_code (from_bit w 3 25), src0 := opd_of_code (from_bit w 3 22),
       src1 := opd_of_code (from_bit w 3 19), is_auto := from_bit w 1 15, dst_idx := from_bit w 4 8,
       src0_idx := from_bit w 4 4, src1_idx := from_bit w 4 0\<rparr>"

definition decode_move :: "32 word \<Rightarrow> pim_cmd \<Rightarrow> pim_cmd" where
  "decode_move w c =
     c\<lparr>dst := opd_of_code (from_bit w 3 25), src0 := opd_of_code (from_bit w 3 22), dst_idx := from_bit w 4 8,
       src0_idx := from_bit w 4 4, src1_idx := from_bit w 4 0, is_relu := from_bit w 1 12\<rparr>"

definition from_int :: "32 word \<Rightarrow> pim_cmd \<Rightarrow> pim_cmd" where
  "from_int w c0 =
     (let c = c0\<lparr>cmd_type := cmd_of_code (from_bit w 4 28)\<rparr> in
      case cmd_type c of
        EXIT \<Rightarrow> c
      | NOP \<Rightarrow> c\<lparr>loop_counter := from_bit w 11 0\<rparr>
      | JUMP \<Rightarrow> c\<lparr>loop_counter := from_bit w 17 11, loop_offset := from_bit w 11 0\<rparr>
      | FILL \<Rightarrow> decode_move w c
      | MOV \<Rightarrow> decode_move w c
      | MAD \<Rightarrow> decode_arith w (c\<lparr>src2 := opd_of_code (from_bit w 3 16)\<rparr>)
      | ADD \<Rightarrow> decode_arith w c
      | MUL \<Rightarrow> decode_arith w c
      | MAC \<Rightarrow> decode_arith w c
      | _ \<Rightarrow> c)"

definition is_move :: "pim_cmd \<Rightarrow> bool" where
  "is_move c \<longleftrightarrow> cmd_type c = MOV \<or> cmd_type c = FILL"

definition is_grf :: "pim_opd_type \<Rightarrow> bool" where
  "is_grf t \<longleftrightarrow> t = GRF_A \<or> t = GRF_B"

definition validation_check :: "pim_cmd \<Rightarrow> unit option" where
  "validation_check c =
     (if is_move c \<and> (dst c = EVEN_BANK \<or> dst c = ODD_BANK)
         \<and> (is_grf (src0 c) \<or> is_grf (src1 c) \<or> is_grf (src2 c))
      then None else Some ())"

definition encode_arith :: "pim_cmd \<Rightarrow> 32 word" where
  "encode_arith c =
     to_bit (opd_code (dst c)) 3 25 OR to_bit (opd_code (src0 c)) 3 22 OR to_bit (opd_code (src1 c)) 3 19
     OR to_bit (is_auto c) 1 15 OR to_bit (dst_idx c) 4 8 OR to_bit (src0_idx c) 4 4 OR to_bit (src1_idx c) 4 0"

definition encode_move :: "pim_cmd \<Rightarrow> 32 word" where
  "encode_move c =
     to_bit (opd_code (dst c)) 3 25 OR to_bit (opd_code (src0 c)) 3 22 OR to_bit (dst_idx c) 4 8
     OR to_bit (src0_idx c) 4 4 OR to_bit (src1_idx c) 4 0 OR to_bit (is_relu c) 1 12"

definition encode_fields :: "pim_cmd \<Rightarrow> 32 word" where
  "encode_fields c =
     (case cmd_type c of
        EXIT \<Rightarrow> 0
      | NOP \<Rightarrow> to_bit (loop_counter c) 11 0
      | JUMP \<Rightarrow> to_bit (loop_counter c) 17 11 OR to_bit (loop_offset c) 11 0
      | FILL \<Rightarrow> encode_move c
      | MOV \<Rightarrow> encode_move c
      | MAD \<Rightarrow> to_bit (opd_code (src2 c)) 3 16 OR encode_arith c
      | ADD \<Rightarrow> encode_arith c
      | MUL \<Rightarrow> encode_arith c
      | MAC \<Rightarrow> encode_arith c
      | _ \<Rightarrow> 0)"

definition to_int :: "pim_cmd \<Rightarrow> 32 word option" where
  "to_int c =
     do { _ \<leftarrow> validation_check c;
          Some (to_bit (cmd_code (cmd_type c)) 4 28 OR encode_fields c) }"

definition cmd_eq :: "pim_cmd \<Rightarrow> pim_cmd \<Rightarrow> bool option" where
  "cmd_eq a b = do { x \<leftarrow> to_int a; y \<leftarrow> to_int b; Some (x = y) }"

definition cmd_neq :: "pim_cmd \<Rightarrow> pim_cmd \<Rightarrow> bool option" where
  "cmd_neq a b = do { x \<leftarrow> to_int a; y \<leftarrow> to_int b; Some (x \<noteq> y) }"


section \<open>Printing\<close>

fun show_nat :: "nat \<Rightarrow> string" where
  "show_nat n = (if n < 10 then [char_of (48 + n)] else show_nat (n div 10) @ [char_of (48 + n mod 10)])"

declare show_nat.simps [simp del]

definition show_int :: "32 word \<Rightarrow> string" where
  "show_int w = (if sint w < 0 then ''-'' @ show_nat (nat (- sint w)) else show_nat (nat (sint w)))"

fun opd_to_str :: "pim_opd_type \<Rightarrow> 32 word \<Rightarrow> string" where
  "opd_to_str A_OUT i = ''A_OUT''"
| "opd_to_str M_OUT i = ''M_OUT''"
| "opd_to_str EVEN_BANK i = ''EVEN_BANK''"
| "opd_to_str ODD_BANK i = ''ODD_BANK''"
| "opd_to_str GRF_A i = ''GRF_A['' @ show_int i @ '']''"
| "opd_to_str GRF_B i = ''GRF_B['' @ show_int i @ '']''"
| "opd_to_str SRF_M i = ''SRF_M['' @ show_int i @ '']''"
| "opd_to_str SRF_A i = ''SRF_A['' @ show_int i @ '']''"

fun cmd_to_str :: "pim_cmd_type \<Rightarrow> string" where
  "cmd_to_str EXIT = ''EXIT''"
| "cmd_to_str NOP = ''NOP''"
| "cmd_to_str JUMP = ''JUMP''"
| "cmd_to_str FILL = ''FILL''"
| "cmd_to_str MOV = ''MOV''"
| "cmd_to_str ADD = ''ADD''"
| "cmd_to_str MUL = ''MUL''"
| "cmd_to_str MAC = ''MAC''"
| "cmd_to_str MAD = ''MAD''"
| "cmd_to_str _ = ''NOT_DEFINED''"

definition arith_to_str :: "pim_cmd \<Rightarrow> string" where
  "arith_to_str c =
     opd_to_str (dst c) (dst_idx c) @ '', '' @ opd_to_str (src0 c) (src0_idx c) @ '', ''
     @ opd_to_str (src1 c) (src1_idx c)"

definition move_to_str :: "pim_cmd \<Rightarrow> string" where
  "move_to_str c =
     opd_to_str (dst c) (dst_idx c) @ '', '' @ opd_to_str (src0 c) (src0_idx c)
     @ (if is_relu c \<noteq> 0 then '', relu'' else [])"

definition to_str :: "pim_cmd \<Rightarrow> string" where
  "to_str c =
     cmd_to_str (cmd_type c) @ '' ''
     @ (case cmd_type c of
          EXIT \<Rightarrow> []
        | NOP \<Rightarrow> show_int (loop_counter c + 1) @ ''x''
        | JUMP \<Rightarrow> show_int (loop_counter c) @ ''x [PC - '' @ show_int (loop_offset c) @ '']''
        | FILL \<Rightarrow> move_to_str c
        | MOV \<Rightarrow> move_to_str c
        | ADD \<Rightarrow> arith_to_str c
        | MUL \<Rightarrow> arith_to_str c
        | MAC \<Rightarrow> arith_to_str c
        | MAD \<Rightarrow> arith_to_str c @ '', '' @ opd_to_str (src2 c) (src1_idx c)
        | _ \<Rightarrow> [])
     @ (if is_auto c \<noteq> 0 then '', auto'' else [])"

section \<open>Lemmas on bit fields\<close>

lemma bitmask_eq: "bitmask len = mask len"
  by (simp add: bitmask_def mask_eq_exp_minus_1 push_bit_of_1)

lemma bit_bitmask [simp]: "bit (bitmask len) n \<longleftrightarrow> n < len \<and> n < 32"
  by (auto simp: bitmask_eq bit_mask_iff)

lemma bit_to_bit: "bit (to_bit v len pos) n \<longleftrightarrow> pos \<le> n \<and> n < 32 \<and> n < pos + len \<and> bit v (n - pos)"
  by (auto simp: to_bit_def bit_push_bit_iff bit_and_iff)

lemma bit_from_bit: "bit (from_bit v len pos) n \<longleftrightarrow> n < len \<and> n < 32 \<and> bit v (pos + n)"
  by (auto simp: from_bit_def bit_drop_bit_eq bit_and_iff)

named_theorems fields \<open>reading the fields of an encoded word\<close>

lemma from_bit_or [fields]: "from_bit (a OR b) len pos = from_bit a len pos OR from_bit b len pos"
  by (rule bit_eqI) (auto simp: bit_from_bit bit_or_iff)

lemma from_bit_zero [fields]: "from_bit 0 len pos = 0"
  by (rule bit_eqI) (simp add: bit_from_bit)

lemma from_to_same [fields]: "pos + len \<le> 32 \<Longrightarrow> from_bit (to_bit v len pos) len pos = v AND bitmask len"
  by (rule bit_eqI) (auto simp: bit_from_bit bit_to_bit bit_and_iff)

lemma from_to_above [fields]: "pos' + len' \<le> pos \<Longrightarrow> from_bit (to_bit v len' pos') len pos = 0"
  by (rule bit_eqI) (auto simp: bit_from_bit bit_to_bit)

lemma from_to_below [fields]: "pos + len \<le> pos' \<Longrightarrow> from_bit (to_bit v len' pos') len pos = 0"
  by (rule bit_eqI) (auto simp: bit_from_bit bit_to_bit)

lemma cmd_of_code_code [simp]: "cmd_of_code (cmd_code t AND bitmask 4) = t"
  by (cases t) (simp_all add: cmd_of_code_def cmd_types_def bitmask_def)

declare cmd_code.simps [simp del]

lemma opd_of_code_code [simp]: "opd_of_code (opd_code t AND bitmask 3) = t"
  by (cases t) (simp_all add: opd_of_code_def opd_types_def bitmask_def)

lemma fits_bitmask: "v < 2 ^ len \<Longrightarrow> len < 32 \<Longrightarrow> v AND bitmask len = v"
  by (simp add: bitmask_eq take_bit_eq_mask [symmetric] word_less_nat_alt unat_pow2 word_unat_eq_iff
      unsigned_take_bit_eq take_bit_nat_eq_self)

section \<open>Round trip\<close>

text \<open>The fields an instruction carries, taken over from \<^verbatim>\<open>c\<close> into \<^verbatim>\<open>c0\<close>.\<close>

definition carry_move :: "pim_cmd \<Rightarrow> pim_cmd \<Rightarrow> pim_cmd" where
  "carry_move c c0 =
     c0\<lparr>dst := dst c, src0 := src0 c, dst_idx := dst_idx c, src0_idx := src0_idx c, src1_idx := src1_idx c,
        is_relu := is_relu c\<rparr>"

definition carry_arith :: "pim_cmd \<Rightarrow> pim_cmd \<Rightarrow> pim_cmd" where
  "carry_arith c c0 =
     c0\<lparr>dst := dst c, src0 := src0 c, src1 := src1 c, is_auto := is_auto c, dst_idx := dst_idx c,
        src0_idx := src0_idx c, src1_idx := src1_idx c\<rparr>"

definition carry :: "pim_cmd \<Rightarrow> pim_cmd \<Rightarrow> pim_cmd" where
  "carry c c0 =
     (let d = c0\<lparr>cmd_type := cmd_type c\<rparr> in
      case cmd_type c of
        NOP \<Rightarrow> d\<lparr>loop_counter := loop_counter c\<rparr>
      | JUMP \<Rightarrow> d\<lparr>loop_counter := loop_counter c, loop_offset := loop_offset c\<rparr>
      | FILL \<Rightarrow> carry_move c d
      | MOV \<Rightarrow> carry_move c d
      | MAD \<Rightarrow> carry_arith c (d\<lparr>src2 := src2 c\<rparr>)
      | ADD \<Rightarrow> carry_arith c d
      | MUL \<Rightarrow> carry_arith c d
      | MAC \<Rightarrow> carry_arith c d
      | _ \<Rightarrow> d)"

text \<open>The carried fields are within the width the encoding has for them.\<close>

definition indices_fit :: "pim_cmd \<Rightarrow> bool" where
  "indices_fit c \<longleftrightarrow> dst_idx c < 2 ^ 4 \<and> src0_idx c < 2 ^ 4 \<and> src1_idx c < 2 ^ 4"

definition cmd_fits :: "pim_cmd \<Rightarrow> bool" where
  "cmd_fits c =
     (case cmd_type c of
        NOP \<Rightarrow> loop_counter c < 2 ^ 11
      | JUMP \<Rightarrow> loop_counter c < 2 ^ 17 \<and> loop_offset c < 2 ^ 11
      | FILL \<Rightarrow> indices_fit c \<and> is_relu c < 2 ^ 1
      | MOV \<Rightarrow> indices_fit c \<and> is_relu c < 2 ^ 1
      | MAD \<Rightarrow> indices_fit c \<and> is_auto c < 2 ^ 1
      | ADD \<Rightarrow> indices_fit c \<and> is_auto c < 2 ^ 1
      | MUL \<Rightarrow> indices_fit c \<and> is_auto c < 2 ^ 1
      | MAC \<Rightarrow> indices_fit c \<and> is_auto c < 2 ^ 1
      | _ \<Rightarrow> True)"

definition encoded :: "pim_cmd \<Rightarrow> 32 word" where
  "encoded c = to_bit (cmd_code (cmd_type c)) 4 28 OR encode_fields c"

lemma to_int_encoded: "to_int c = map_option (\<lambda>_. encoded c) (validation_check c)"
  by (simp add: to_int_def encoded_def map_option_case split: option.splits)

lemma encode_fields_below [fields]: "from_bit (encode_fields c) 4 28 = 0"
  by (cases "cmd_type c") (simp_all add: encode_fields_def encode_move_def encode_arith_def fields)

lemma encoded_type [simp]: "cmd_of_code (from_bit (encoded c) 4 28) = cmd_type c"
  by (simp add: encoded_def fields)

lemma decode_encoded: "cmd_fits c \<Longrightarrow> from_int (encoded c) c0 = carry c c0"
  by (cases "cmd_type c")
    (simp_all add: from_int_def Let_def  carry_def cmd_fits_def indices_fit_def encoded_def encode_fields_def
      encode_move_def encode_arith_def decode_move_def decode_arith_def carry_move_def carry_arith_def fields
      fits_bitmask)


lemma opd_code_nth: "n < 8 \<Longrightarrow> opd_code (opd_types ! n) = of_nat n"
proof -
  assume n: "n < 8"
  have "map opd_code opd_types = map of_nat [0..<8]" by (simp add: opd_types_def upt_rec)
  then have "map opd_code opd_types ! n = map of_nat [0..<8] ! n" by simp
  moreover have "length opd_types = 8" by (simp add: opd_types_def)
  ultimately show ?thesis using n by (simp add: nth_map del: map_eq_conv)
qed

lemma cmd_code_nth: "n < 16 \<Longrightarrow> cmd_code (cmd_types ! n) = of_nat n"
proof -
  assume n: "n < 16"
  have "map cmd_code cmd_types = map of_nat [0..<16]" by (simp add: cmd_types_def upt_rec cmd_code.simps)
  then have "map cmd_code cmd_types ! n = map of_nat [0..<16] ! n" by simp
  moreover have "length cmd_types = 16" by (simp add: cmd_types_def)
  ultimately show ?thesis using n by (simp add: nth_map del: map_eq_conv)
qed

lemma opd_code_of_code: "opd_code (opd_of_code w) = w AND 7"
proof -
  have "unat (w AND 7) < 8" using word_and_le1 [of w 7] by (simp add: word_le_nat_alt)
  then show ?thesis by (simp add: opd_of_code_def opd_code_nth)
qed

lemma cmd_code_of_code: "cmd_code (cmd_of_code w) = w AND 15"
proof -
  have "unat (w AND 15) < 16" using word_and_le1 [of w 15] by (simp add: word_le_nat_alt)
  then show ?thesis by (simp add: cmd_of_code_def cmd_code_nth)
qed

lemma encoded_carry: "encoded (carry c z) = encoded c"
  by (cases "cmd_type c")
    (simp_all add: carry_def Let_def encoded_def encode_fields_def encode_move_def encode_arith_def
      carry_move_def carry_arith_def)

lemma encoded_inj: "cmd_fits a \<Longrightarrow> cmd_fits b \<Longrightarrow> encoded a = encoded b \<longleftrightarrow> carry a z = carry b z"
  using decode_encoded [of a z] decode_encoded [of b z] encoded_carry [of a z] encoded_carry [of b z] by metis

text \<open>The bits of an instruction word its decoder reads.\<close>

definition live_bits :: "pim_cmd_type \<Rightarrow> 32 word" where
  "live_bits t =
     (case t of
        NOP \<Rightarrow> 0xF00007FF
      | JUMP \<Rightarrow> 0xFFFFFFFF
      | FILL \<Rightarrow> 0xFFC01FFF
      | MOV \<Rightarrow> 0xFFC01FFF
      | MAD \<Rightarrow> 0xFFFF8FFF
      | ADD \<Rightarrow> 0xFFF88FFF
      | MUL \<Rightarrow> 0xFFF88FFF
      | MAC \<Rightarrow> 0xFFF88FFF
      | _ \<Rightarrow> 0xF0000000)"

lemma to_from_bit: "to_bit (from_bit w len pos) len pos = w AND push_bit pos (bitmask len)"
  by (rule bit_eqI) (auto simp: bit_to_bit bit_from_bit bit_and_iff bit_push_bit_iff)

lemma from_bit_live: "from_bit w len pos AND bitmask len = from_bit w len pos"
  by (simp add: from_bit_def)

lemma type_of_from_int: "cmd_type (from_int w c0) = cmd_of_code (from_bit w 4 28)"
  by (simp add: from_int_def Let_def decode_move_def decode_arith_def split: pim_cmd_type.split)

lemma masks: "bitmask 1 = 1" "bitmask (Suc 0) = 1" "bitmask 3 = 7" "bitmask 4 = 15" "bitmask 11 = 2047"
  "bitmask 17 = 131071"
  by (simp_all add: bitmask_def)

lemma opd_field: "to_bit (opd_code (opd_of_code (from_bit w 3 pos))) 3 pos = w AND push_bit pos 7"
  using to_from_bit [of w 3 pos] from_bit_live [of w 3 pos] by (simp add: opd_code_of_code masks)

lemma cmd_field: "to_bit (cmd_code (cmd_of_code (from_bit w 4 28))) 4 28 = w AND 0xF0000000"
  using to_from_bit [of w 4 28] from_bit_live [of w 4 28]
  by (simp add: cmd_code_of_code masks push_bit_eq_mult)

lemma encode_decoded_fields:
  "encode_fields (from_int w c0) = w AND (live_bits (cmd_of_code (from_bit w 4 28)) AND 0x0FFFFFFF)"
  by (cases "cmd_of_code (from_bit w 4 28)")
    (simp_all add: from_int_def Let_def encode_fields_def decode_move_def
        decode_arith_def encode_move_def encode_arith_def live_bits_def to_from_bit opd_field masks
        push_bit_eq_mult bit.conj_disj_distrib [symmetric])

lemma encode_decoded: "encoded (from_int w c0) = w AND live_bits (cmd_of_code (from_bit w 4 28))"
proof -
  have "live_bits t = 0xF0000000 OR (live_bits t AND 0x0FFFFFFF)" for t
    by (cases t) (simp_all add: live_bits_def)
  then show ?thesis
    by (simp add: encoded_def type_of_from_int cmd_field encode_decoded_fields bit.conj_disj_distrib [symmetric])
qed

section \<open>Properties\<close>

text \<open>C31: decoding is the inverse of encoding: a command whose fields fit their widths and that the encoder
  accepts is read back exactly in the fields its instruction carries, the others of the object read into being
  kept; and a word that is decoded and encoded again is the same word with its unused bits cleared, or is
  refused.\<close>

theorem pim_isa_roundtrip:
  assumes "cmd_fits c" and "to_int c = Some w"
  shows "from_int w c0 = carry c c0
    \<and> to_int (from_int v c0)
        = (case validation_check (from_int v c0) of
             None \<Rightarrow> None | Some _ \<Rightarrow> Some (v AND live_bits (cmd_of_code (from_bit v 4 28))))"
  using assms by (auto simp: to_int_encoded decode_encoded encode_decoded split: option.splits)

theorem pim_isa_roundtrip_witness:
  "let c = pim_cmd_mad 0 MAD GRF_A EVEN_BANK SRF_M SRF_A 1 2 3 4 in
     to_int c = Some 0x48B78234 \<and> from_int 0x48B78234 (pim_cmd_default 7) = carry c (pim_cmd_default 7)"
proof -
  define c where "c = pim_cmd_mad 0 MAD GRF_A EVEN_BANK SRF_M SRF_A 1 2 3 4"
  have "cmd_fits c" by (simp add: c_def pim_cmd_mad_def cmd_fits_def indices_fit_def)
  moreover have "to_int c = Some 0x48B78234" unfolding c_def by code_simp
  ultimately have "from_int 0x48B78234 (pim_cmd_default 7) = carry c (pim_cmd_default 7)"
    using pim_isa_roundtrip by blast
  with \<open>to_int c = Some 0x48B78234\<close> show ?thesis by (simp add: c_def [symmetric])
qed

text \<open>C32: two commands whose fields fit compare equal exactly when they are the same instruction with the same
  carried fields, whatever their other fields hold, and \<^verbatim>\<open>!=\<close> is the negation; either comparison ends the
  program exactly when one of the two moves a general register to a bank.\<close>

theorem pim_isa_equality:
  assumes "cmd_fits a" and "cmd_fits b"
  shows "cmd_eq a b
      = (if validation_check a = None \<or> validation_check b = None then None
         else Some (carry a (pim_cmd_default 0) = carry b (pim_cmd_default 0)))
    \<and> cmd_neq a b = map_option Not (cmd_eq a b)"
  using encoded_inj [OF assms]
  by (auto simp: cmd_eq_def cmd_neq_def to_int_encoded map_option_case split: option.splits)

theorem pim_isa_equality_witness:
  "let a = pim_cmd_arith 5 MAC GRF_B EVEN_BANK GRF_A 1 0 0 0;
       b = pim_cmd_mad 0 MAC GRF_B EVEN_BANK GRF_A SRF_A 1 0 0 0 in
     cmd_eq a b = Some True \<and> cmd_neq a b = Some False"
proof -
  define a b where "a = pim_cmd_arith 5 MAC GRF_B EVEN_BANK GRF_A 1 0 0 0"
    and "b = pim_cmd_mad 0 MAC GRF_B EVEN_BANK GRF_A SRF_A 1 0 0 0"
  have "cmd_fits a" "cmd_fits b"
    by (simp_all add: a_def b_def pim_cmd_arith_def pim_cmd_mad_def cmd_fits_def indices_fit_def)
  then show ?thesis
    using pim_isa_equality [of a b]
    by (simp add: a_def b_def pim_cmd_arith_def pim_cmd_mad_def validation_check_def is_move_def carry_def
        carry_arith_def pim_cmd_default_def)
qed

end
