(* ===== verification/PimStorage.thy ===== *)
theory PimStorage
  imports Prelude
begin

text \<open>
  Bursts, bus packets, banks and the arithmetic of the PIM blocks: \<^verbatim>\<open>PIMSimulator/src/Burst.h\<close>,
  \<^verbatim>\<open>BusPacket.h\<close>, \<^verbatim>\<open>Bank.cpp\<close> and \<^verbatim>\<open>PIMBlock.cpp\<close>.

  A burst is a union of arrays over the same 32 bytes: a 256-bit word whose little-endian lanes of 8, 16 or 32
  bits are the array elements.  The half-precision arithmetic (the bundled library \<^verbatim>\<open>lib/half.h\<close>) and the
  single-precision one act on the bit patterns of the lanes; they are the fields of a record \<^verbatim>\<open>fp_unit\<close>, of
  which nothing is assumed.  An operation that leaves C++ (an access out of range, a null pointer) ends in
  \<^verbatim>\<open>Undefined\<close>, one that calls \<^verbatim>\<open>exit\<close> in \<^verbatim>\<open>Exited\<close>, and a loop whose bound of steps is used up in
  \<^verbatim>\<open>NoFuel\<close>.
\<close>

section \<open>Errors\<close>

datatype pim_error = Undefined | Exited | NoFuel

type_synonym 'a result = "pim_error + 'a"

fun rbind :: "'a result \<Rightarrow> ('a \<Rightarrow> 'b result) \<Rightarrow> 'b result" where
  "rbind (Inl e) f = Inl e"
| "rbind (Inr a) f = f a"

lemma rbind_Inr: "rbind x f = Inr b \<longleftrightarrow> (\<exists>a. x = Inr a \<and> f a = Inr b)"
  by (cases x) auto

definition deref :: "'a option \<Rightarrow> 'a result" where
  "deref x = (case x of None \<Rightarrow> Inl Undefined | Some a \<Rightarrow> Inr a)"

lemma deref_simps [simp]: "deref (Some a) = Inr a" "deref None = Inl Undefined" "deref x = Inr a \<longleftrightarrow> x = Some a"
  by (simp_all add: deref_def split: option.splits)

section \<open>Bursts\<close>

type_synonym burst = "256 word"

definition lane :: "burst \<Rightarrow> nat \<Rightarrow> 'w::len word" where
  "lane b i = ucast (drop_bit (LENGTH('w) * i) b)"

fun of_lanes :: "nat \<Rightarrow> (nat \<Rightarrow> 'w::len word) \<Rightarrow> burst" where
  "of_lanes 0 f = 0"
| "of_lanes (Suc k) f = or (of_lanes k f) (push_bit (LENGTH('w) * k) (ucast (f k)))"

text \<open>Setting all lanes to one value.\<close>

definition burst_set16 :: "u16 \<Rightarrow> burst" where
  "burst_set16 x = of_lanes 16 (\<lambda>_. x)"

definition burst_set32 :: "u32 \<Rightarrow> burst" where
  "burst_set32 x = of_lanes 8 (\<lambda>_. x)"

text \<open>The default constructor converts \<^verbatim>\<open>0.0f\<close>, whose pattern is zero.\<close>

definition burst_init :: burst where
  "burst_init = burst_set16 0"

record fp_unit =
  h_add :: "u16 \<Rightarrow> u16 \<Rightarrow> u16"
  h_mul :: "u16 \<Rightarrow> u16 \<Rightarrow> u16"
  s_add :: "u32 \<Rightarrow> u32 \<Rightarrow> u32"
  s_mul :: "u32 \<Rightarrow> u32 \<Rightarrow> u32"

definition burst_plus :: "fp_unit \<Rightarrow> burst \<Rightarrow> burst \<Rightarrow> burst" where
  "burst_plus fu a b = of_lanes 16 (\<lambda>i. h_add fu (lane a i) (lane b i))"

definition burst_times :: "fp_unit \<Rightarrow> burst \<Rightarrow> burst \<Rightarrow> burst" where
  "burst_times fu a b = of_lanes 16 (\<lambda>i. h_mul fu (lane a i) (lane b i))"

definition fp16_reduce_sum :: "fp_unit \<Rightarrow> burst \<Rightarrow> u16" where
  "fp16_reduce_sum fu b = foldl (\<lambda>s i. h_add fu s (lane b i)) 0 [0..<16]"

definition fp32_reduce_sum :: "fp_unit \<Rightarrow> burst \<Rightarrow> u32" where
  "fp32_reduce_sum fu b = foldl (\<lambda>s i. s_add fu s (lane b i)) 0 [0..<8]"

text \<open>One level of the adder tree overwrites the array from the front.\<close>

definition adder_level :: "fp_unit \<Rightarrow> nat \<Rightarrow> u16 list \<Rightarrow> u16 list" where
  "adder_level fu n xs = foldl (\<lambda>ys j. ys[j := h_add fu (ys ! (j * 2)) (ys ! (j * 2 + 1))]) xs [0..<n]"

definition fp16_adder_tree :: "fp_unit \<Rightarrow> burst \<Rightarrow> u16" where
  "fp16_adder_tree fu b =
     hd (foldl (\<lambda>xs n. adder_level fu n xs) (map (lane b) [0..<16]) [8, 4, 2, 1])"

section \<open>PIM blocks\<close>

datatype pim_precision = FP16 | INT8 | FP32

record pim_block =
  srf :: burst
  grf_a :: "burst list"
  grf_b :: "burst list"
  m_out :: burst
  a_out :: burst

definition pim_block_init :: pim_block where
  "pim_block_init =
     \<lparr>srf = burst_init, grf_a = replicate 8 burst_init, grf_b = replicate 8 burst_init, m_out = burst_init,
      a_out = burst_init\<rparr>"

definition block_add :: "fp_unit \<Rightarrow> pim_precision \<Rightarrow> burst \<Rightarrow> burst \<Rightarrow> burst" where
  "block_add fu prec a b =
     (case prec of
        FP16 \<Rightarrow> of_lanes 16 (\<lambda>i. h_add fu (lane a i) (lane b i))
      | FP32 \<Rightarrow> of_lanes 8 (\<lambda>i. s_add fu (lane a i) (lane b i))
      | INT8 \<Rightarrow> burst_plus fu a b)"

definition block_mul :: "fp_unit \<Rightarrow> pim_precision \<Rightarrow> burst \<Rightarrow> burst \<Rightarrow> burst" where
  "block_mul fu prec a b =
     (case prec of
        FP16 \<Rightarrow> of_lanes 16 (\<lambda>i. h_mul fu (lane a i) (lane b i))
      | FP32 \<Rightarrow> of_lanes 8 (\<lambda>i. s_mul fu (lane a i) (lane b i))
      | INT8 \<Rightarrow> burst_times fu a b)"

definition block_mac :: "fp_unit \<Rightarrow> pim_precision \<Rightarrow> burst \<Rightarrow> burst \<Rightarrow> burst \<Rightarrow> burst" where
  "block_mac fu prec acc a b =
     (case prec of
        FP16 \<Rightarrow> of_lanes 16 (\<lambda>i. h_add fu (h_mul fu (lane a i) (lane b i)) (lane acc i))
      | FP32 \<Rightarrow> of_lanes 8 (\<lambda>i. s_add fu (s_mul fu (lane a i) (lane b i)) (lane acc i))
      | INT8 \<Rightarrow> burst_plus fu (burst_times fu a b) acc)"

definition block_mad :: "fp_unit \<Rightarrow> pim_precision \<Rightarrow> burst \<Rightarrow> burst \<Rightarrow> burst \<Rightarrow> burst" where
  "block_mad fu prec a b c =
     (case prec of
        FP16 \<Rightarrow> of_lanes 16 (\<lambda>i. h_add fu (h_mul fu (lane a i) (lane b i)) (lane c i))
      | FP32 \<Rightarrow> of_lanes 8 (\<lambda>i. s_add fu (s_mul fu (lane a i) (lane b i)) (lane c i))
      | INT8 \<Rightarrow> burst_plus fu (burst_times fu a b) c)"

section \<open>Bus packets and banks\<close>

datatype packet_type = READ | WRITE | ACTIVATE | PRECHARGE | REF | DATA | RFCSB

text \<open>A packet with the burst its \<^verbatim>\<open>data\<close> pointer refers to (\<^const>\<open>None\<close> for a null pointer); operations that
  write through the pointer return the changed packet.\<close>

record bus_packet =
  ptype :: packet_type
  pcolumn :: u32
  prow :: u32
  pbank :: u32
  pdata :: "burst option"
  prank :: u32
  paddr :: u64
  ptag :: string

text \<open>The constructors; an omitted tag is empty.\<close>

definition bus_packet_tagged ::
  "packet_type \<Rightarrow> u64 \<Rightarrow> u32 \<Rightarrow> u32 \<Rightarrow> u32 \<Rightarrow> u32 \<Rightarrow> burst option \<Rightarrow> string \<Rightarrow> bus_packet" where
  "bus_packet_tagged t a c rw r b d tg =
     \<lparr>ptype = t, pcolumn = c, prow = rw, pbank = b, pdata = d, prank = r, paddr = a, ptag = tg\<rparr>"

definition mk_packet ::
  "packet_type \<Rightarrow> u64 \<Rightarrow> u32 \<Rightarrow> u32 \<Rightarrow> u32 \<Rightarrow> u32 \<Rightarrow> burst option \<Rightarrow> bus_packet" where
  "mk_packet t a c rw r b d = bus_packet_tagged t a c rw r b d []"

lemma mk_packet_simps [simp]:
  "ptype (mk_packet t a c rw r b d) = t" "pcolumn (mk_packet t a c rw r b d) = c" "prow (mk_packet t a c rw r b d) = rw"
  "pbank (mk_packet t a c rw r b d) = b" "pdata (mk_packet t a c rw r b d) = d" "prank (mk_packet t a c rw r b d) = r"
  "paddr (mk_packet t a c rw r b d) = a" "ptag (mk_packet t a c rw r b d) = []"
  by (simp_all add: mk_packet_def bus_packet_tagged_def)

record bank =
  num_cols :: u32
  row_entries :: "(u32 \<times> burst) list list"

definition bank_init :: "u32 \<Rightarrow> bank" where
  "bank_init n = \<lparr>num_cols = n, row_entries = replicate (unat n) []\<rparr>"

fun search_for_row :: "u32 \<Rightarrow> (u32 \<times> burst) list \<Rightarrow> burst option" where
  "search_for_row r [] = None"
| "search_for_row r ((row, d) # rest) = (if row = r then Some d else search_for_row r rest)"

fun replace_row :: "u32 \<Rightarrow> burst \<Rightarrow> (u32 \<times> burst) list \<Rightarrow> (u32 \<times> burst) list" where
  "replace_row r x [] = []"
| "replace_row r x ((row, d) # rest) = (if row = r then (row, x) # rest else (row, d) # replace_row r x rest)"

definition bank_read :: "bus_packet \<Rightarrow> bank \<Rightarrow> bus_packet result" where
  "bank_read p b =
     rbind (deref (vec_get (row_entries b) (unat (pcolumn p)))) (\<lambda>rows.
       case search_for_row (prow p) rows of
         None \<Rightarrow> Inr p
       | Some d \<Rightarrow> rbind (deref (pdata p)) (\<lambda>_. Inr (p\<lparr>pdata := Some d\<rparr>)))"

text \<open>A new entry holds the packet's data, or zeros without data; overwriting an entry reads the data.\<close>

definition bank_write :: "bus_packet \<Rightarrow> bank \<Rightarrow> bank result" where
  "bank_write p b =
     (if num_cols b \<le> pcolumn p then Inl Exited
      else rbind (deref (vec_get (row_entries b) (unat (pcolumn p)))) (\<lambda>rows.
        case search_for_row (prow p) rows of
          None \<Rightarrow>
            let d = (case pdata p of None \<Rightarrow> burst_init | Some d \<Rightarrow> d) in
            Inr (b\<lparr>row_entries := (row_entries b)[unat (pcolumn p) := (prow p, d) # rows]\<rparr>)
        | Some _ \<Rightarrow>
            rbind (deref (pdata p)) (\<lambda>d.
              Inr (b\<lparr>row_entries := (row_entries b)[unat (pcolumn p) := replace_row (prow p) d rows]\<rparr>))))"

section \<open>Lanes\<close>

lemma bit_of_lanes:
  fixes f :: "nat \<Rightarrow> 'w::len word"
  shows "bit (of_lanes k f) n \<longleftrightarrow> n < 256 \<and> n < LENGTH('w) * k \<and> bit (f (n div LENGTH('w))) (n mod LENGTH('w))"
proof (induction k)
  case (Suc k)
  have w: "0 < LENGTH('w)" by simp
  have "LENGTH('w) * k \<le> n \<and> n < LENGTH('w) * Suc k \<longleftrightarrow> n div LENGTH('w) = k"
    using w by (metis div_nat_eqI dividend_less_times_div mult.commute mult_Suc_right times_div_less_eq_dividend
        add.commute)
  moreover have "bit (f k) (n - LENGTH('w) * k) \<Longrightarrow> n - LENGTH('w) * k < LENGTH('w)"
    by (rule bit_imp_le_length)
  moreover have "n div LENGTH('w) = k \<Longrightarrow> n - LENGTH('w) * k = n mod LENGTH('w)"
    by (metis minus_mult_div_eq_mod)
  ultimately show ?case
    using Suc by (auto simp: bit_or_iff bit_push_bit_iff bit_ucast_iff)
qed simp

lemma lane_of_lanes [simp]:
  fixes f :: "nat \<Rightarrow> 'w::len word"
  assumes "i < k" and "LENGTH('w) * k \<le> 256"
  shows "(lane (of_lanes k f) i :: 'w word) = f i"
proof (rule bit_eqI)
  fix n assume "possible_bit TYPE('w word) n"
  then have n: "n < LENGTH('w)" by simp
  have "LENGTH('w) * i + n < LENGTH('w) * k"
  proof -
    have "LENGTH('w) * i + n < LENGTH('w) * Suc i" using n by simp
    also have "\<dots> \<le> LENGTH('w) * k" using assms(1) by (intro mult_le_mono) auto
    finally show ?thesis .
  qed
  then show "bit (lane (of_lanes k f) i :: 'w word) n \<longleftrightarrow> bit (f i) n"
    using n assms by (auto simp: lane_def bit_ucast_iff bit_drop_bit_eq bit_of_lanes)
qed

text \<open>Every accumulating instruction is a sum of lane products: \<^verbatim>\<open>MAC\<close> is \<^verbatim>\<open>MUL\<close> followed by \<^verbatim>\<open>ADD\<close>, and
  \<^verbatim>\<open>MAD\<close> is \<^verbatim>\<open>MAC\<close> on the addend.\<close>

lemma block_mac_eq: "block_mac fu prec acc a b = block_add fu prec (block_mul fu prec a b) acc"
  by (cases prec)
    (auto simp: block_mac_def block_add_def block_mul_def burst_plus_def burst_times_def intro!: bit_eqI
      simp: bit_of_lanes)

lemma block_mad_eq: "block_mad fu prec a b c = block_mac fu prec c a b"
  by (simp add: block_mad_def block_mac_def split: pim_precision.split)

text \<open>The adder tree adds pairwise.\<close>

fun tree_sum :: "fp_unit \<Rightarrow> burst \<Rightarrow> nat \<Rightarrow> nat \<Rightarrow> u16" where
  "tree_sum fu b 0 i = lane b i"
| "tree_sum fu b (Suc d) i = h_add fu (tree_sum fu b d (2 * i)) (tree_sum fu b d (2 * i + 1))"

lemma fp16_adder_tree_eq: "fp16_adder_tree fu b = tree_sum fu b 4 0"
  by (simp add: fp16_adder_tree_def adder_level_def upt_rec numeral_eq_Suc)

section \<open>A bank is a map from rows and columns to bursts\<close>

definition bank_map :: "bank \<Rightarrow> u32 \<times> u32 \<Rightarrow> burst option" where
  "bank_map b = (\<lambda>(row, col). if unat col < length (row_entries b) then search_for_row row (row_entries b ! unat col)
                              else None)"

definition bank_ok :: "bank \<Rightarrow> bool" where
  "bank_ok b \<longleftrightarrow> length (row_entries b) = unat (num_cols b)"

lemma bank_init_ok [simp]: "bank_ok (bank_init n)"
  by (simp add: bank_ok_def bank_init_def)

lemma bank_init_map [simp]: "bank_map (bank_init n) = (\<lambda>_. None)"
  by (auto simp: bank_map_def bank_init_def)

lemma search_replace_row:
  "search_for_row r' (replace_row r x rows)
   = (if r' = r \<and> search_for_row r rows \<noteq> None then Some x else search_for_row r' rows)"
  by (induction r x rows rule: replace_row.induct) auto

lemma bank_read_eq:
  "bank_ok b \<Longrightarrow> pcolumn p < num_cols b \<Longrightarrow> pdata p \<noteq> None \<Longrightarrow>
   bank_read p b = Inr (case bank_map b (prow p, pcolumn p) of None \<Rightarrow> p | Some d \<Rightarrow> p\<lparr>pdata := Some d\<rparr>)"
  by (auto simp: bank_read_def bank_map_def bank_ok_def word_less_nat_alt split: option.split)

lemma bank_write_exits: "num_cols b \<le> pcolumn p \<Longrightarrow> bank_write p b = Inl Exited"
  by (simp add: bank_write_def)

lemma bank_write_eq:
  assumes "bank_ok b" and "pcolumn p < num_cols b" and "pdata p = Some d"
  shows "\<exists>b'. bank_write p b = Inr b' \<and> bank_ok b' \<and> num_cols b' = num_cols b
    \<and> bank_map b' = (bank_map b)((prow p, pcolumn p) \<mapsto> d)"
proof -
  have c: "unat (pcolumn p) < length (row_entries b)" using assms by (simp add: bank_ok_def word_less_nat_alt)
  define rows where "rows = row_entries b ! unat (pcolumn p)"
  define rows' where "rows' =
    (case search_for_row (prow p) rows of None \<Rightarrow> (prow p, d) # rows | Some _ \<Rightarrow> replace_row (prow p) d rows)"
  define b' where "b' = b\<lparr>row_entries := (row_entries b)[unat (pcolumn p) := rows']\<rparr>"
  have "bank_write p b = Inr b'"
    using assms c by (auto simp: bank_write_def rows_def rows'_def b'_def not_le split: option.split)
  moreover have "bank_ok b'" "num_cols b' = num_cols b" using assms(1) by (simp_all add: bank_ok_def b'_def)
  moreover have "bank_map b' = (bank_map b)((prow p, pcolumn p) \<mapsto> d)"
  proof (rule ext)
    fix k :: "u32 \<times> u32"
    obtain row col where k: "k = (row, col)" by (cases k)
    have "search_for_row row rows' = (if row = prow p then Some d else search_for_row row rows)"
      by (auto simp: rows'_def search_replace_row split: option.split)
    then show "bank_map b' k = ((bank_map b)((prow p, pcolumn p) \<mapsto> d)) k"
      using c by (auto simp: k bank_map_def b'_def nth_list_update rows_def word_unat_eq_iff)
  qed
  ultimately show ?thesis by blast
qed

datatype bank_op = BankRead bus_packet | BankWrite bus_packet

definition bank_step :: "bank_op \<Rightarrow> bank \<Rightarrow> bank option" where
  "bank_step x b =
     (case x of
        BankRead p \<Rightarrow> (case bank_read p b of Inl _ \<Rightarrow> None | Inr _ \<Rightarrow> Some b)
      | BankWrite p \<Rightarrow> (case bank_write p b of Inl _ \<Rightarrow> None | Inr b' \<Rightarrow> Some b'))"

text \<open>The specification: a map, written at one key.\<close>

definition map_step :: "bank_op \<Rightarrow> (u32 \<times> u32 \<Rightarrow> burst option) \<Rightarrow> (u32 \<times> u32 \<Rightarrow> burst option)" where
  "map_step x m = (case x of BankRead _ \<Rightarrow> m | BankWrite p \<Rightarrow> m((prow p, pcolumn p) := pdata p))"

definition bank_op_ok :: "u32 \<Rightarrow> bank_op \<Rightarrow> bool" where
  "bank_op_ok n x = (case x of BankRead p \<Rightarrow> pcolumn p < n \<and> pdata p \<noteq> None
                             | BankWrite p \<Rightarrow> pcolumn p < n \<and> pdata p \<noteq> None)"

definition bank_refines :: "u32 \<Rightarrow> bank \<Rightarrow> (u32 \<times> u32 \<Rightarrow> burst option) \<Rightarrow> bool" where
  "bank_refines n b m \<longleftrightarrow> bank_ok b \<and> num_cols b = n \<and> bank_map b = m"

interpretation bank: refinement bank_step map_step "bank_refines n" "bank_op_ok n" for n
proof unfold_locales
  fix b m x assume r: "bank_refines n b m" and ok: "bank_op_ok n x"
  show "\<exists>b'. bank_step x b = Some b' \<and> bank_refines n b' (map_step x m)"
  proof (cases x)
    case (BankRead p)
    with r ok show ?thesis
      by (auto simp: bank_step_def bank_op_ok_def bank_refines_def map_step_def bank_read_eq)
  next
    case (BankWrite p)
    then obtain d where d: "pdata p = Some d" "pcolumn p < n" using ok by (auto simp: bank_op_ok_def)
    with r bank_write_eq [of b p d] BankWrite show ?thesis
      by (auto simp: bank_step_def bank_refines_def map_step_def)
  qed
qed



end
