(* ===== verification/PimRank.thy ===== *)
theory PimRank
  imports Floats PimIsa PimStorage
begin

text \<open>
  The PIM side of a DRAM rank: \<^verbatim>\<open>PIMRank\<close> of \<^verbatim>\<open>PIMSimulator/src/PIMRank.h\<close> and \<^verbatim>\<open>PIMRank.cpp\<close>,
  with the fields of \<^verbatim>\<open>Rank\<close> it reaches through \<^verbatim>\<open>rank->\<close> (the banks and the mode).

  The program counter and the loop counters are \<^verbatim>\<open>int\<close>s that never leave the range of the type (they are
  loaded from fields of at most 17 bits and decremented only when positive), so they are mathematical integers.
  A fetch outside the 32 instruction slots is \<^verbatim>\<open>Undefined\<close>.  The loop of \<^verbatim>\<open>doPIM\<close> may run forever, so it
  takes a bound on its iterations; theory \<^verbatim>\<open>PimProgram\<close> shows which programs it is enough for.  The lemmas
  here show that every command succeeds on a rank of the right shape and keeps that shape.  Debug output is
  not modelled.
\<close>

section \<open>Configuration and state\<close>

record dram_config =
  NUM_BANKS :: u32
  NUM_PIM_BLOCKS :: u32
  NUM_COLS :: u32
  NUM_BANK_PER_BG :: u32
  AL :: u32
  BL :: u32
  RL :: u32
  WL :: u32
  tCCDL :: u32
  tCCDS :: u32
  tCKE :: u32
  tRAS :: u32
  tRC :: u32
  tRCDRD :: u32
  tRCDWR :: u32
  tRFC :: u32
  tRP :: u32
  tRRDL :: u32
  tRRDS :: u32
  tRTPL :: u32
  tRTRS :: u32
  tWR :: u32
  tWTRL :: u32
  tWTRS :: u32
  tXP :: u32
  NUM_RANKS :: u32
  CMD_QUEUE_DEPTH :: u32
  TRANS_QUEUE_DEPTH :: u32
  XAW :: u32
  TOTAL_ROW_ACCESSES :: u32
  tCMD :: u32
  tREFI :: u32
  tREFISB :: u32
  tCK :: fp

text \<open>The rows with a meaning of their own, fixed by the constructor of \<^verbatim>\<open>Configuration\<close>.\<close>

definition PIM_REG_RA :: u32 where "PIM_REG_RA = 0x3fff"
definition PIM_ABMR_RA :: u32 where "PIM_ABMR_RA = 0x27ff"
definition PIM_SBMR_RA :: u32 where "PIM_SBMR_RA = 0x2fff"

text \<open>What the operations share: the configuration, the arithmetic, the precision, and the content of the
  uninitialised field of a fresh command.\<close>

record pim_env =
  env_cfg :: dram_config
  env_fu :: fp_unit
  env_prec :: pim_precision
  env_junk :: u32

datatype dram_mode = SB | HAB | HAB_PIM

datatype current_bank_state = Idle | RowActive | Precharging | Refreshing | PowerDown

record bank_state =
  bs_state :: current_bank_state
  open_row :: u32
  next_read :: u64
  next_write :: u64
  next_activate :: u64
  next_precharge :: u64
  next_power_up :: u64

record dram_rank =
  mode :: dram_mode
  banks :: "bank list"
  pim_pc :: int
  last_jump :: int
  num_jumps :: int
  last_repeat :: int
  num_repeats :: int
  pim_op_mode :: bool
  toggle_even :: bool
  toggle_odd :: bool
  toggle_ra13h :: bool
  crf_exit :: bool
  crf :: "burst list"
  pim_blocks :: "pim_block list"

section \<open>Register indices and reserved rows\<close>

definition grf_idx :: "u32 \<Rightarrow> nat" where
  "grf_idx i = unat (i AND 7)"

definition grf_idx_high :: "u32 \<Rightarrow> u32 \<Rightarrow> nat" where
  "grf_idx_high r c = unat (push_bit 2 (r AND 1) OR (drop_bit 3 c AND 3))"

definition is_reserved_ra :: "u32 \<Rightarrow> bool" where
  "is_reserved_ra r \<longleftrightarrow> r AND push_bit 13 1 \<noteq> 0"

definition accessible_ra :: "u32 \<Rightarrow> u32" where
  "accessible_ra r = r AND (push_bit 13 1 - 1)"

section \<open>Blocks and banks\<close>

definition n_blocks :: "pim_env \<Rightarrow> nat" where
  "n_blocks e = unat (NUM_PIM_BLOCKS (env_cfg e))"

definition get_block :: "nat \<Rightarrow> dram_rank \<Rightarrow> pim_block result" where
  "get_block pb s = deref (vec_get (pim_blocks s) pb)"

definition upd_block :: "nat \<Rightarrow> (pim_block \<Rightarrow> pim_block) \<Rightarrow> dram_rank \<Rightarrow> dram_rank result" where
  "upd_block pb f s = rbind (get_block pb s) (\<lambda>b. Inr (s\<lparr>pim_blocks := (pim_blocks s)[pb := f b]\<rparr>))"

definition read_bank :: "nat \<Rightarrow> bus_packet \<Rightarrow> dram_rank \<Rightarrow> bus_packet result" where
  "read_bank i p s = rbind (deref (vec_get (banks s) i)) (bank_read p)"

definition write_bank :: "nat \<Rightarrow> bus_packet \<Rightarrow> dram_rank \<Rightarrow> dram_rank result" where
  "write_bank i p s =
     rbind (deref (vec_get (banks s) i)) (\<lambda>b. rbind (bank_write p b) (\<lambda>b'. Inr (s\<lparr>banks := (banks s)[i := b']\<rparr>)))"

text \<open>Storing through the data pointer.\<close>

definition set_data :: "burst \<Rightarrow> bus_packet \<Rightarrow> bus_packet result" where
  "set_data d p = rbind (deref (pdata p)) (\<lambda>_. Inr (p\<lparr>pdata := Some d\<rparr>))"

text \<open>The loop over the PIM blocks.\<close>

fun each_block :: "(nat \<Rightarrow> 'a \<Rightarrow> 'a result) \<Rightarrow> nat \<Rightarrow> 'a \<Rightarrow> 'a result" where
  "each_block f 0 x = Inr x"
| "each_block f (Suc n) x = rbind (each_block f n x) (f n)"

section \<open>Mode control\<close>

definition set_grf_a :: "nat \<Rightarrow> burst \<Rightarrow> pim_block \<Rightarrow> pim_block" where
  "set_grf_a i d b = b\<lparr>grf_a := (grf_a b)[i := d]\<rparr>"

definition set_grf_b :: "nat \<Rightarrow> burst \<Rightarrow> pim_block \<Rightarrow> pim_block" where
  "set_grf_b i d b = b\<lparr>grf_b := (grf_b b)[i := d]\<rparr>"

definition set_srf :: "burst \<Rightarrow> pim_block \<Rightarrow> pim_block" where
  "set_srf d b = b\<lparr>srf := d\<rparr>"

text \<open>Clearing a register file stores the zero burst into its eight registers.\<close>

definition zero_grf_a :: "pim_block \<Rightarrow> pim_block" where
  "zero_grf_a b = foldl (\<lambda>b i. set_grf_a i burst_init b) b [0..<8]"

definition zero_grf_b :: "pim_block \<Rightarrow> pim_block" where
  "zero_grf_b b = foldl (\<lambda>b i. set_grf_b i burst_init b) b [0..<8]"

definition set_mode :: "burst \<Rightarrow> dram_rank \<Rightarrow> dram_rank" where
  "set_mode d s0 =
     (let ctl = (lane d 0 :: u8); tog = (lane d 16 :: u8);
          s = s0\<lparr>pim_op_mode := ctl AND 1 \<noteq> 0, toggle_even := tog AND 1 = 0, toggle_odd := tog AND 2 = 0,
                 toggle_ra13h := tog AND 4 \<noteq> 0\<rparr> in
      if pim_op_mode s
      then s\<lparr>mode := HAB_PIM, pim_pc := 0, last_jump := - 1, num_jumps := - 1, last_repeat := - 1,
             num_repeats := - 1, crf_exit := False\<rparr>
      else s\<lparr>mode := HAB\<rparr>)"

definition control_pim :: "pim_env \<Rightarrow> burst \<Rightarrow> dram_rank \<Rightarrow> dram_rank result" where
  "control_pim e d s =
     rbind (if (lane d 20 :: u8) \<noteq> 0 then each_block (\<lambda>pb. upd_block pb zero_grf_a) (n_blocks e) s else Inr s)
     (\<lambda>s. rbind (if (lane d 21 :: u8) \<noteq> 0 then each_block (\<lambda>pb. upd_block pb zero_grf_b) (n_blocks e) s else Inr s)
     (\<lambda>s. Inr (set_mode d s)))"

definition toggle_bank :: "bus_packet \<Rightarrow> dram_rank \<Rightarrow> bool" where
  "toggle_bank p s \<longleftrightarrow> toggle_even s \<and> pbank p AND 1 = 0 \<or> toggle_odd s \<and> pbank p AND 1 = 1"

definition is_toggle_cond :: "bus_packet \<Rightarrow> dram_rank \<Rightarrow> bool" where
  "is_toggle_cond p s \<longleftrightarrow>
     (if pim_op_mode s \<and> \<not> crf_exit s
      then if toggle_ra13h s then toggle_bank p s
           else if \<not> is_reserved_ra (prow p) then toggle_bank p s
           else False
      else False)"

section \<open>All-bank accesses\<close>

definition read_hab :: "pim_env \<Rightarrow> bus_packet \<Rightarrow> dram_rank \<Rightarrow> (bus_packet \<times> dram_rank) result" where
  "read_hab e p s =
     (if is_reserved_ra (prow p) then Inr (p, s)
      else each_block (\<lambda>pb (p, s).
             rbind (read_bank (unat (of_nat (pb * 2) + pbank p)) p s) (\<lambda>p.
             rbind (deref (pdata p)) (\<lambda>d.
             rbind (upd_block pb (set_grf_b (grf_idx (pcolumn p)) d) s) (\<lambda>s. Inr (p, s)))))
           (n_blocks e) (p, s))"

text \<open>A write to the register row: the control register, a general register, the instructions or the scalar
  registers.\<close>

definition write_regs :: "pim_env \<Rightarrow> bus_packet \<Rightarrow> dram_rank \<Rightarrow> dram_rank result" where
  "write_regs e p s =
     (let c = pcolumn p in
      if c = 0 then rbind (deref (pdata p)) (\<lambda>d. control_pim e d s)
      else if 0x08 \<le> c \<and> c \<le> 0x0f \<or> 0x18 \<le> c \<and> c \<le> 0x1f
      then each_block (\<lambda>pb s. rbind (deref (pdata p)) (\<lambda>d. upd_block pb
             (if c - 8 < 8 then set_grf_a (unat (c - 8)) d else set_grf_b (unat (c - 0x18)) d) s)) (n_blocks e) s
      else if 0x04 \<le> c \<and> c \<le> 0x07
      then rbind (deref (pdata p)) (\<lambda>d. Inr (s\<lparr>crf := (crf s)[unat (c - 4) := d]\<rparr>))
      else if c = 1
      then each_block (\<lambda>pb s. rbind (deref (pdata p)) (\<lambda>d. upd_block pb (set_srf d) s)) (n_blocks e) s
      else Inr s)"

text \<open>Copying a general register of a block to the bank its packet selects.\<close>

definition block_to_bank :: "nat \<Rightarrow> bus_packet \<Rightarrow> dram_rank \<Rightarrow> (bus_packet \<times> dram_rank) result" where
  "block_to_bank pb p s =
     (if pbank p = 0
      then rbind (get_block pb s) (\<lambda>b.
           rbind (set_data (grf_a b ! grf_idx (pcolumn p)) p) (\<lambda>p.
           rbind (write_bank (pb * 2) p s) (\<lambda>s. Inr (p, s))))
      else if pbank p = 1
      then rbind (get_block pb s) (\<lambda>b.
           rbind (set_data (grf_b b ! grf_idx (pcolumn p)) p) (\<lambda>p.
           rbind (write_bank (pb * 2 + 1) p s) (\<lambda>s. Inr (p, s))))
      else Inr (p, s))"

definition write_hab :: "pim_env \<Rightarrow> bus_packet \<Rightarrow> dram_rank \<Rightarrow> (bus_packet \<times> dram_rank) result" where
  "write_hab e p s =
     (if prow p = PIM_REG_RA then rbind (write_regs e p s) (\<lambda>s. Inr (p, s))
      else if is_reserved_ra (prow p) then Inr (p, s)
      else each_block (\<lambda>pb (p, s). block_to_bank pb p s) (n_blocks e) (p, s))"

section \<open>Operands\<close>

definition grf_b_index :: "bool \<Rightarrow> bool \<Rightarrow> bus_packet \<Rightarrow> nat \<Rightarrow> nat" where
  "grf_b_index auto_idx mac p idx =
     (if auto_idx then (if mac then grf_idx_high (prow p) (pcolumn p) else grf_idx (pcolumn p)) else idx)"

definition read_opd ::
  "nat \<Rightarrow> pim_opd_type \<Rightarrow> bus_packet \<Rightarrow> u32 \<Rightarrow> bool \<Rightarrow> bool \<Rightarrow> dram_rank \<Rightarrow> (burst \<times> bus_packet) result" where
  "read_opd pb t p idx0 auto_idx mac s =
     (let idx = grf_idx idx0 in
      case t of
        EVEN_BANK \<Rightarrow> rbind (read_bank (pb * 2) p s) (\<lambda>p. rbind (deref (pdata p)) (\<lambda>d. Inr (d, p)))
      | ODD_BANK \<Rightarrow> rbind (read_bank (pb * 2 + 1) p s) (\<lambda>p. rbind (deref (pdata p)) (\<lambda>d. Inr (d, p)))
      | _ \<Rightarrow> rbind (get_block pb s) (\<lambda>b. Inr (case t of
            A_OUT \<Rightarrow> a_out b
          | M_OUT \<Rightarrow> m_out b
          | GRF_A \<Rightarrow> grf_a b ! (if auto_idx then grf_idx (pcolumn p) else idx)
          | GRF_B \<Rightarrow> grf_b b ! grf_b_index auto_idx mac p idx
          | SRF_M \<Rightarrow> burst_set16 (lane (srf b) idx)
          | SRF_A \<Rightarrow> burst_set16 (lane (srf b) (idx + 8)), p)))"

definition store_reg :: "pim_opd_type \<Rightarrow> bus_packet \<Rightarrow> nat \<Rightarrow> bool \<Rightarrow> bool \<Rightarrow> burst \<Rightarrow> pim_block \<Rightarrow> pim_block" where
  "store_reg t p idx auto_idx mac d b =
     (case t of
        A_OUT \<Rightarrow> b\<lparr>a_out := d\<rparr>
      | M_OUT \<Rightarrow> b\<lparr>m_out := d\<rparr>
      | GRF_A \<Rightarrow> set_grf_a (if auto_idx then grf_idx (pcolumn p) else idx) d b
      | GRF_B \<Rightarrow> set_grf_b (grf_b_index auto_idx mac p idx) d b
      | _ \<Rightarrow> set_srf d b)"

text \<open>A write to the odd bank ends the program when the packet addresses an even one; the converse is only
  reported.\<close>

definition write_opd ::
  "nat \<Rightarrow> burst \<Rightarrow> pim_opd_type \<Rightarrow> bus_packet \<Rightarrow> u32 \<Rightarrow> bool \<Rightarrow> bool \<Rightarrow> dram_rank \<Rightarrow> (bus_packet \<times> dram_rank) result" where
  "write_opd pb d t p idx0 auto_idx mac s =
     (let idx = grf_idx idx0 in
      case t of
        EVEN_BANK \<Rightarrow>
          rbind (set_data d p) (\<lambda>p. rbind (write_bank (pb * 2) p s) (\<lambda>s. Inr (p, s)))
      | ODD_BANK \<Rightarrow>
          if pbank p mod 2 = 0 then Inl Exited
          else rbind (set_data d p) (\<lambda>p. rbind (write_bank (pb * 2 + 1) p s) (\<lambda>s. Inr (p, s)))
      | _ \<Rightarrow> rbind (upd_block pb (store_reg t p idx auto_idx mac d) s) (\<lambda>s. Inr (p, s)))"

section \<open>Executing a command on a block\<close>

definition relu :: "burst \<Rightarrow> burst" where
  "relu d = of_lanes 16 (\<lambda>i. let x = (lane d i :: u16) in if x AND 0x8000 \<noteq> 0 then 0 else x)"

definition do_move :: "pim_cmd \<Rightarrow> nat \<Rightarrow> bus_packet \<Rightarrow> dram_rank \<Rightarrow> (bus_packet \<times> dram_rank) result" where
  "do_move c pb p s =
     (let au = cmd_type c = FILL in
      rbind (read_opd pb (src0 c) p (src0_idx c) au False s) (\<lambda>(d, p).
        write_opd pb (if is_relu c \<noteq> 0 then relu d else d) (dst c) p (dst_idx c) au False s))"

definition do_add_mul ::
  "pim_env \<Rightarrow> pim_cmd \<Rightarrow> nat \<Rightarrow> bus_packet \<Rightarrow> dram_rank \<Rightarrow> (bus_packet \<times> dram_rank) result" where
  "do_add_mul e c pb p s =
     (let au = is_auto c \<noteq> 0 in
      rbind (read_opd pb (src0 c) p (src0_idx c) au False s) (\<lambda>(a, p).
      rbind (read_opd pb (src1 c) p (src1_idx c) au False s) (\<lambda>(b, p).
        write_opd pb (if cmd_type c = ADD then block_add (env_fu e) (env_prec e) a b
                      else block_mul (env_fu e) (env_prec e) a b)
          (dst c) p (dst_idx c) au False s)))"

definition do_mac_mad ::
  "pim_env \<Rightarrow> pim_cmd \<Rightarrow> nat \<Rightarrow> bus_packet \<Rightarrow> dram_rank \<Rightarrow> (bus_packet \<times> dram_rank) result" where
  "do_mac_mad e c pb p s =
     (let au = is_auto c \<noteq> 0; mac = cmd_type c = MAC in
      rbind (read_opd pb (src0 c) p (src0_idx c) au mac s) (\<lambda>(a, p).
      rbind (read_opd pb (src1 c) p (src1_idx c) au mac s) (\<lambda>(b, p).
      rbind (if mac
             then rbind (read_opd pb (dst c) p (dst_idx c) au mac s) (\<lambda>(acc, p).
                    Inr (block_mac (env_fu e) (env_prec e) acc a b, p))
             else rbind (read_opd pb (src2 c) p (src1_idx c) au mac s) (\<lambda>(x, p).
                    Inr (block_mad (env_fu e) (env_prec e) a b x, p))) (\<lambda>(d, p).
        write_opd pb d (dst c) p (dst_idx c) au mac s))))"

definition do_pim_block ::
  "pim_env \<Rightarrow> pim_cmd \<Rightarrow> nat \<Rightarrow> bus_packet \<Rightarrow> dram_rank \<Rightarrow> (bus_packet \<times> dram_rank) result" where
  "do_pim_block e c pb p s =
     (let t = cmd_type c in
      if t = FILL \<or> t = MOV then do_move c pb p s
      else if t = ADD \<or> t = MUL then do_add_mul e c pb p s
      else if t = MAC \<or> t = MAD then do_mac_mad e c pb p s
      else if t = NOP \<and> ptype p = WRITE then block_to_bank pb p s
      else Inr (p, s))"

section \<open>The instruction loop\<close>

text \<open>\<^verbatim>\<open>crf.data[i]\<close>: the 32 instruction words are the lanes of the four bursts.\<close>

definition crf_word :: "dram_rank \<Rightarrow> int \<Rightarrow> u32 result" where
  "crf_word s i =
     (if 0 \<le> i \<and> i < 32 then Inr (lane (crf s ! (nat i div 8)) (nat i mod 8)) else Inl Undefined)"

definition jump_control :: "pim_cmd \<Rightarrow> dram_rank \<Rightarrow> dram_rank" where
  "jump_control c s0 =
     (let s = (if last_jump s0 \<noteq> pim_pc s0 \<and> 0 < sint (loop_counter c)
               then s0\<lparr>last_jump := pim_pc s0, num_jumps := sint (loop_counter c)\<rparr> else s0) in
      if 0 < num_jumps s
      then s\<lparr>pim_pc := pim_pc s - sint (loop_offset c), num_jumps := num_jumps s - 1\<rparr> else s)"

text \<open>Repeating the command at the program counter \<^verbatim>\<open>count\<close> more times.\<close>

definition repeat_control :: "int \<Rightarrow> dram_rank \<Rightarrow> dram_rank" where
  "repeat_control count s0 =
     (let s = (if last_repeat s0 \<noteq> pim_pc s0 then s0\<lparr>last_repeat := pim_pc s0, num_repeats := count\<rparr> else s0) in
      if 0 < num_repeats s then s\<lparr>pim_pc := pim_pc s - 1, num_repeats := num_repeats s - 1\<rparr>
      else s\<lparr>last_repeat := - 1\<rparr>)"

definition command_control :: "pim_cmd \<Rightarrow> dram_rank \<Rightarrow> dram_rank" where
  "command_control c s =
     (if cmd_type c = FILL \<or> is_auto c \<noteq> 0 then repeat_control (8 - 1) s
      else if cmd_type c = NOP then repeat_control (sint (loop_counter c)) s
      else s)"

text \<open>After a command: advance, and look whether the next one is \<^verbatim>\<open>EXIT\<close>.\<close>

definition advance_pc :: "pim_env \<Rightarrow> dram_rank \<Rightarrow> dram_rank result" where
  "advance_pc e s0 =
     (let s = s0\<lparr>pim_pc := pim_pc s0 + 1\<rparr> in
      rbind (crf_word s (pim_pc s)) (\<lambda>w.
        Inr (if cmd_type (from_int w (pim_cmd_default (env_junk e))) = EXIT then s\<lparr>crf_exit := True\<rparr> else s)))"

definition run_command ::
  "pim_env \<Rightarrow> pim_cmd \<Rightarrow> bus_packet \<Rightarrow> dram_rank \<Rightarrow> (bus_packet \<times> dram_rank) result" where
  "run_command e c p s =
     each_block (\<lambda>pb (p, s). do_pim_block e c pb p s) (n_blocks e) (p, command_control c s)"

fun do_pim_loop ::
  "nat \<Rightarrow> pim_env \<Rightarrow> pim_cmd \<Rightarrow> bus_packet \<Rightarrow> dram_rank \<Rightarrow> (bus_packet \<times> dram_rank) result" where
  "do_pim_loop 0 e c0 p s = Inl NoFuel"
| "do_pim_loop (Suc n) e c0 p s =
     rbind (crf_word s (pim_pc s)) (\<lambda>w.
       let c = from_int w c0 in
       if cmd_type c = EXIT then Inr (p, s\<lparr>crf_exit := True\<rparr>)
       else if cmd_type c = JUMP
       then rbind (advance_pc e (jump_control c s)) (\<lambda>s. do_pim_loop n e c p s)
       else rbind (run_command e c p s) (\<lambda>(p, s). rbind (advance_pc e s) (\<lambda>s. Inr (p, s))))"

definition do_pim :: "nat \<Rightarrow> pim_env \<Rightarrow> bus_packet \<Rightarrow> dram_rank \<Rightarrow> (bus_packet \<times> dram_rank) result" where
  "do_pim fuel e p s = do_pim_loop fuel e (pim_cmd_default (env_junk e)) (p\<lparr>prow := accessible_ra (prow p)\<rparr>) s"

section \<open>The shape of a rank\<close>

definition block_ok :: "pim_block \<Rightarrow> bool" where
  "block_ok b \<longleftrightarrow> length (grf_a b) = 8 \<and> length (grf_b b) = 8"

definition banks_ok :: "pim_env \<Rightarrow> bank list \<Rightarrow> bool" where
  "banks_ok e bs \<longleftrightarrow> 2 * n_blocks e \<le> length bs \<and> (\<forall>b \<in> set bs. bank_ok b \<and> num_cols b = NUM_COLS (env_cfg e))"

definition rank_shape :: "pim_env \<Rightarrow> dram_rank \<Rightarrow> bool" where
  "rank_shape e s \<longleftrightarrow> length (crf s) = 4 \<and> length (pim_blocks s) = n_blocks e \<and> (\<forall>b \<in> set (pim_blocks s). block_ok b)
     \<and> banks_ok e (banks s)"

definition packet_ok :: "pim_env \<Rightarrow> bus_packet \<Rightarrow> bool" where
  "packet_ok e p \<longleftrightarrow> pdata p \<noteq> None \<and> pcolumn p < NUM_COLS (env_cfg e)"

text \<open>The fields that are not storage, and the address of a packet.\<close>

definition ctl :: "dram_rank \<Rightarrow> dram_rank" where
  "ctl s = s\<lparr>banks := [], pim_blocks := []\<rparr>"

definition addr :: "bus_packet \<Rightarrow> bus_packet" where
  "addr p = p\<lparr>pdata := None\<rparr>"

lemma ctl_eqD:
  "ctl s = ctl t \<Longrightarrow> mode s = mode t \<and> pim_pc s = pim_pc t \<and> last_jump s = last_jump t \<and> num_jumps s = num_jumps t
     \<and> last_repeat s = last_repeat t \<and> num_repeats s = num_repeats t \<and> pim_op_mode s = pim_op_mode t
     \<and> crf_exit s = crf_exit t \<and> crf s = crf t"
  by (cases s; cases t) (simp add: ctl_def)

lemma addr_eqD: "addr p = addr q \<Longrightarrow> ptype p = ptype q \<and> pcolumn p = pcolumn q \<and> prow p = prow q \<and> pbank p = pbank q"
  by (cases p; cases q) (simp add: addr_def)

text \<open>A storage operation succeeds, and changes nothing else.\<close>

definition stores :: "pim_env \<Rightarrow> bus_packet \<Rightarrow> dram_rank \<Rightarrow> (bus_packet \<times> dram_rank) result \<Rightarrow> bool" where
  "stores e p s r \<longleftrightarrow> (\<exists>p' s'. r = Inr (p', s') \<and> packet_ok e p' \<and> rank_shape e s' \<and> ctl s' = ctl s \<and> addr p' = addr p)"

definition loads :: "pim_env \<Rightarrow> bus_packet \<Rightarrow> ('a \<times> bus_packet) result \<Rightarrow> bool" where
  "loads e p r \<longleftrightarrow> (\<exists>d p'. r = Inr (d, p') \<and> packet_ok e p' \<and> addr p' = addr p)"

lemma stores_bind:
  assumes "stores e p s r"
    and "\<And>p' s'. packet_ok e p' \<Longrightarrow> rank_shape e s' \<Longrightarrow> ctl s' = ctl s \<Longrightarrow> addr p' = addr p
           \<Longrightarrow> stores e p' s' (f (p', s'))"
  shows "stores e p s (rbind r f)"
proof -
  obtain p' s' where r: "r = Inr (p', s')" "packet_ok e p'" "rank_shape e s'" "ctl s' = ctl s" "addr p' = addr p"
    using assms(1) by (auto simp: stores_def)
  then have "stores e p' s' (f (p', s'))" using assms(2) by blast
  with r show ?thesis by (auto simp: stores_def)
qed

lemma stores_refl: "packet_ok e p \<Longrightarrow> rank_shape e s \<Longrightarrow> stores e p s (Inr (p, s))"
  by (simp add: stores_def)

lemma each_block_stores:
  assumes "\<And>pb p' s'. pb < n \<Longrightarrow> packet_ok e p' \<Longrightarrow> rank_shape e s' \<Longrightarrow> addr p' = addr p \<Longrightarrow> ctl s' = ctl s
             \<Longrightarrow> stores e p' s' (f pb (p', s'))"
    and "packet_ok e p" and "rank_shape e s"
  shows "stores e p s (each_block f n (p, s))"
  using assms(1)
proof (induction n)
  case 0
  then show ?case using assms(2,3) by (simp add: stores_refl)
next
  case (Suc n)
  then have "stores e p s (each_block f n (p, s))" by simp
  then show ?case unfolding each_block.simps by (rule stores_bind) (simp add: Suc(2))
qed

lemma read_bank_loads:
  assumes "rank_shape e s" and "packet_ok e p" and "i < length (banks s)"
  shows "\<exists>p'. read_bank i p s = Inr p' \<and> packet_ok e p' \<and> addr p' = addr p"
proof -
  have "bank_ok (banks s ! i)" "num_cols (banks s ! i) = NUM_COLS (env_cfg e)"
    using assms by (auto simp: rank_shape_def banks_ok_def)
  then show ?thesis
    using assms bank_read_eq [of "banks s ! i" p]
    by (auto simp: read_bank_def packet_ok_def addr_def split: option.split)
qed

lemma write_bank_stores:
  assumes "rank_shape e s" and "packet_ok e p" and "i < length (banks s)"
  shows "\<exists>s'. write_bank i p s = Inr s' \<and> rank_shape e s' \<and> ctl s' = ctl s"
proof -
  have "bank_ok (banks s ! i)" "num_cols (banks s ! i) = NUM_COLS (env_cfg e)"
    using assms by (auto simp: rank_shape_def banks_ok_def)
  moreover obtain d where "pdata p = Some d" using assms(2) by (auto simp: packet_ok_def)
  ultimately obtain b' where "bank_write p (banks s ! i) = Inr b'" "bank_ok b'" "num_cols b' = NUM_COLS (env_cfg e)"
    using assms(2) bank_write_eq [of "banks s ! i" p d] by (auto simp: packet_ok_def)
  then show ?thesis
    using assms by (auto simp: write_bank_def rank_shape_def banks_ok_def ctl_def dest!: subsetD [OF set_update_subset_insert])
qed

lemma get_block_ok:
  "rank_shape e s \<Longrightarrow> pb < n_blocks e \<Longrightarrow> get_block pb s = Inr (pim_blocks s ! pb) \<and> block_ok (pim_blocks s ! pb)"
  by (auto simp: get_block_def rank_shape_def)

lemma upd_block_ok:
  assumes "rank_shape e s" and "pb < n_blocks e" and "\<And>b. block_ok b \<Longrightarrow> block_ok (f b)"
  shows "\<exists>s'. upd_block pb f s = Inr s' \<and> rank_shape e s' \<and> ctl s' = ctl s"
  using assms get_block_ok [OF assms(1,2)]
  by (auto simp: upd_block_def rank_shape_def ctl_def dest!: subsetD [OF set_update_subset_insert])

lemma set_data_ok: "packet_ok e p \<Longrightarrow> \<exists>p'. set_data d p = Inr p' \<and> packet_ok e p' \<and> addr p' = addr p"
  by (auto simp: set_data_def packet_ok_def addr_def)

section \<open>Commands keep the shape\<close>

lemma read_opd_loads:
  assumes "rank_shape e s" and "packet_ok e p" and "pb < n_blocks e"
  shows "loads e p (read_opd pb t p i au mac s)"
proof -
  have "pb * 2 < length (banks s)" "pb * 2 + 1 < length (banks s)"
    using assms by (auto simp: rank_shape_def banks_ok_def)
  with read_bank_loads [OF assms(1,2), of "pb * 2"] read_bank_loads [OF assms(1,2), of "pb * 2 + 1"]
    get_block_ok [OF assms(1,3)] assms(2)
  show ?thesis
    by (cases t) (auto simp: read_opd_def loads_def packet_ok_def)
qed

lemma store_reg_ok: "block_ok b \<Longrightarrow> block_ok (store_reg t p i au mac d b)"
  by (auto simp: block_ok_def store_reg_def set_grf_a_def set_grf_b_def set_srf_def split: pim_opd_type.split)

lemma write_opd_stores:
  assumes "rank_shape e s" and "packet_ok e p" and "pb < n_blocks e"
    and odd: "t = ODD_BANK \<Longrightarrow> pbank p mod 2 \<noteq> 0"
  shows "stores e p s (write_opd pb d t p i au mac s)"
proof -
  have b: "pb * 2 < length (banks s)" "pb * 2 + 1 < length (banks s)"
    using assms by (auto simp: rank_shape_def banks_ok_def)
  obtain p' where p': "set_data d p = Inr p'" "packet_ok e p'" "addr p' = addr p"
    using set_data_ok [OF assms(2)] by blast
  show ?thesis
    using write_bank_stores [OF assms(1) p'(2) b(1)] write_bank_stores [OF assms(1) p'(2) b(2)]
      upd_block_ok [OF assms(1,3), of "store_reg t p (grf_idx i) au mac d"] store_reg_ok p' odd assms(2)
    by (cases t) (auto simp: write_opd_def stores_def Let_def)
qed

definition writes_ok :: "pim_cmd \<Rightarrow> bus_packet \<Rightarrow> bool" where
  "writes_ok c p \<longleftrightarrow> (dst c = ODD_BANK \<longrightarrow> pbank p mod 2 \<noteq> 0)"

lemma writes_ok_addr: "writes_ok c p \<Longrightarrow> addr p' = addr p \<Longrightarrow> writes_ok c p'"
  by (auto simp: writes_ok_def dest!: addr_eqD)

lemma block_to_bank_stores:
  assumes "rank_shape e s" and "packet_ok e p" and "pb < n_blocks e"
  shows "stores e p s (block_to_bank pb p s)"
proof -
  have b: "pb * 2 < length (banks s)" "pb * 2 + 1 < length (banks s)"
    using assms by (auto simp: rank_shape_def banks_ok_def)
  have "\<exists>p' s'. set_data d p = Inr p' \<and> packet_ok e p' \<and> addr p' = addr p
      \<and> write_bank i p' s = Inr s' \<and> rank_shape e s' \<and> ctl s' = ctl s" if "i < length (banks s)" for d i
    using set_data_ok [OF assms(2), of d] write_bank_stores [OF assms(1) _ that] by blast
  from this [OF b(1), of "grf_a (pim_blocks s ! pb) ! grf_idx (pcolumn p)"]
    this [OF b(2), of "grf_b (pim_blocks s ! pb) ! grf_idx (pcolumn p)"]
  show ?thesis
    using get_block_ok [OF assms(1,3)] assms(1,2)
    by (auto simp: block_to_bank_def stores_def)
qed

text \<open>A command with operands reads them and then writes its result.\<close>

lemma data_command_writes:
  assumes sh: "rank_shape e s" and p: "packet_ok e p" and pb: "pb < n_blocks e"
    and t: "cmd_type c \<in> {FILL, MOV, ADD, MUL, MAC, MAD}"
  shows "\<exists>d p' i au mac. packet_ok e p' \<and> addr p' = addr p
    \<and> do_pim_block e c pb p s = write_opd pb d (dst c) p' i au mac s"
proof -
  have rd: "\<exists>d q'. read_opd pb x q i au mac s = Inr (d, q') \<and> packet_ok e q' \<and> addr q' = addr p"
    if "packet_ok e q" "addr q = addr p" for x q i au mac
    using read_opd_loads [OF sh that(1) pb, of x i au mac] that(2) by (simp add: loads_def)
  from t consider (move) "cmd_type c = FILL \<or> cmd_type c = MOV" | (two) "cmd_type c = ADD \<or> cmd_type c = MUL"
    | (three) "cmd_type c = MAC \<or> cmd_type c = MAD" by blast
  then show ?thesis
  proof cases
    case move
    obtain d q where q: "read_opd pb (src0 c) p (src0_idx c) (cmd_type c = FILL) False s = Inr (d, q)"
      "packet_ok e q" "addr q = addr p" using rd [OF p refl] by blast
    have "do_pim_block e c pb p s
        = write_opd pb (if is_relu c \<noteq> 0 then relu d else d) (dst c) q (dst_idx c) (cmd_type c = FILL) False s"
      using move q(1) by (auto simp: do_pim_block_def do_move_def Let_def)
    with q(2,3) show ?thesis by blast
  next
    case two
    obtain d q where q: "read_opd pb (src0 c) p (src0_idx c) (is_auto c \<noteq> 0) False s = Inr (d, q)"
      "packet_ok e q" "addr q = addr p" using rd [OF p refl] by blast
    obtain d' r where r: "read_opd pb (src1 c) q (src1_idx c) (is_auto c \<noteq> 0) False s = Inr (d', r)"
      "packet_ok e r" "addr r = addr p" using rd [OF q(2,3)] by blast
    have "do_pim_block e c pb p s
        = write_opd pb (if cmd_type c = ADD then block_add (env_fu e) (env_prec e) d d'
                        else block_mul (env_fu e) (env_prec e) d d') (dst c) r (dst_idx c) (is_auto c \<noteq> 0) False s"
      using two q(1) r(1) by (auto simp: do_pim_block_def do_add_mul_def Let_def)
    with r(2,3) show ?thesis by blast
  next
    case three
    define mac where "mac = (cmd_type c = MAC)"
    obtain d q where q: "read_opd pb (src0 c) p (src0_idx c) (is_auto c \<noteq> 0) mac s = Inr (d, q)"
      "packet_ok e q" "addr q = addr p" using rd [OF p refl] by blast
    obtain d' r where r: "read_opd pb (src1 c) q (src1_idx c) (is_auto c \<noteq> 0) mac s = Inr (d', r)"
      "packet_ok e r" "addr r = addr p" using rd [OF q(2,3)] by blast
    obtain x u where u: "read_opd pb (dst c) r (dst_idx c) (is_auto c \<noteq> 0) mac s = Inr (x, u)"
      "packet_ok e u" "addr u = addr p" using rd [OF r(2,3)] by blast
    obtain y v where v: "read_opd pb (src2 c) r (src1_idx c) (is_auto c \<noteq> 0) mac s = Inr (y, v)"
      "packet_ok e v" "addr v = addr p" using rd [OF r(2,3)] by blast
    have "do_pim_block e c pb p s = do_mac_mad e c pb p s" using three by (auto simp: do_pim_block_def Let_def)
    also have "\<dots> = write_opd pb (if mac then block_mac (env_fu e) (env_prec e) x d d'
          else block_mad (env_fu e) (env_prec e) d d' y) (dst c) (if mac then u else v) (dst_idx c) (is_auto c \<noteq> 0) mac s"
      using q(1) r(1) u(1) v(1) unfolding do_mac_mad_def Let_def mac_def [symmetric] by (cases mac) simp_all
    finally have eq: "do_pim_block e c pb p s = write_opd pb (if mac then block_mac (env_fu e) (env_prec e) x d d'
          else block_mad (env_fu e) (env_prec e) d d' y) (dst c) (if mac then u else v) (dst_idx c) (is_auto c \<noteq> 0) mac s" .
    moreover have "packet_ok e (if mac then u else v)" "addr (if mac then u else v) = addr p"
      using u(2,3) v(2,3) by simp_all
    ultimately show ?thesis by blast
  qed
qed

lemma do_pim_block_stores:
  assumes sh: "rank_shape e s" and p: "packet_ok e p" and pb: "pb < n_blocks e" and w: "writes_ok c p"
  shows "stores e p s (do_pim_block e c pb p s)"
proof (cases "cmd_type c \<in> {FILL, MOV, ADD, MUL, MAC, MAD}")
  case True
  then obtain d p' i au mac where p': "packet_ok e p'" "addr p' = addr p"
    "do_pim_block e c pb p s = write_opd pb d (dst c) p' i au mac s"
    using data_command_writes [OF sh p pb] by blast
  then have "stores e p' s (write_opd pb d (dst c) p' i au mac s)"
    using write_opd_stores [OF sh p'(1) pb] writes_ok_addr [OF w p'(2)] by (simp add: writes_ok_def)
  with p' show ?thesis by (simp add: stores_def)
next
  case False
  then show ?thesis
    using block_to_bank_stores [OF sh p pb] stores_refl [OF p sh] by (simp add: do_pim_block_def Let_def)
qed

lemma ctl_shape: "rank_shape e s \<Longrightarrow> banks t = banks s \<Longrightarrow> pim_blocks t = pim_blocks s \<Longrightarrow> crf t = crf s \<Longrightarrow> rank_shape e t"
  by (simp add: rank_shape_def)

lemma control_keeps [simp]:
  "banks (command_control c s) = banks s" "pim_blocks (command_control c s) = pim_blocks s"
  "crf (command_control c s) = crf s" "crf_exit (command_control c s) = crf_exit s" "mode (command_control c s) = mode s"
  "banks (jump_control c s) = banks s" "pim_blocks (jump_control c s) = pim_blocks s"
  "crf (jump_control c s) = crf s" "crf_exit (jump_control c s) = crf_exit s" "mode (jump_control c s) = mode s"
  by (simp_all add: command_control_def repeat_control_def jump_control_def Let_def)

lemma run_command_stores:
  assumes "rank_shape e s" and "packet_ok e p" and "writes_ok c p"
  shows "stores e p (command_control c s) (run_command e c p s)"
  unfolding run_command_def
  by (rule each_block_stores)
    (use assms in \<open>auto intro: do_pim_block_stores writes_ok_addr ctl_shape\<close>)

end
