(* ===== verification/PimProgram.thy ===== *)
theory PimProgram
  imports PimRank
begin

text \<open>
  Running PIM programs: what \<^verbatim>\<open>PIMRank::doPIM\<close> does with the instructions in the command registers.  A program
  whose jumps stay inside it and do not meet is run in at most two iterations of the instruction loop per packet
  (\<^verbatim>\<open>pim_program_runs\<close>), so a bound of two is enough; a command with a jump back to it is a counted loop
  (\<^verbatim>\<open>pim_loop_repeats_body\<close>); two adjacent jumps can run forever (\<^verbatim>\<open>adjacent_jumps_loop\<close>).
\<close>

unbundle bit_operations_syntax

section \<open>Programs\<close>

definition crf_at :: "dram_rank \<Rightarrow> nat \<Rightarrow> u32" where
  "crf_at s i = lane (crf s ! (i div 8)) (i mod 8)"

definition op_of :: "u32 \<Rightarrow> pim_cmd_type" where
  "op_of w = cmd_of_code (from_bit w 4 28)"

definition jump_back :: "u32 \<Rightarrow> nat" where
  "jump_back w = unat (from_bit w 11 0)"

text \<open>A program ends with its first \<^verbatim>\<open>EXIT\<close>; its jumps stay inside, and neither go to nor are followed by a
  jump.\<close>

definition program_ok :: "(nat \<Rightarrow> u32) \<Rightarrow> nat \<Rightarrow> bool" where
  "program_ok W n \<longleftrightarrow> n < 32 \<and> op_of (W n) = EXIT \<and> list_all (\<lambda>i. op_of (W i) \<noteq> EXIT
     \<and> (op_of (W i) = JUMP \<longrightarrow> jump_back (W i) \<le> i + 1 \<and> op_of (W (i + 1)) \<noteq> JUMP
          \<and> op_of (W (i + 1 - jump_back (W i))) \<noteq> JUMP)) [0..<n]"

text \<open>The packet may run the program's writes to the odd bank.\<close>

definition odd_ok :: "(nat \<Rightarrow> u32) \<Rightarrow> nat \<Rightarrow> bus_packet \<Rightarrow> bool" where
  "odd_ok W n p \<longleftrightarrow> pbank p mod 2 \<noteq> 0 \<or> list_all (\<lambda>i. opd_of_code (from_bit (W i) 3 25) \<noteq> ODD_BANK) [0..<n]"

definition fresh_cmd :: "pim_cmd \<Rightarrow> bool" where
  "fresh_cmd c \<longleftrightarrow> dst c = A_OUT \<and> is_auto c = 0"

lemma crf_word_at: "i < 32 \<Longrightarrow> crf_word s (int i) = Inr (crf_at s i)"
  by (simp add: crf_word_def crf_at_def)

lemma op_from_int [simp]: "cmd_type (from_int w c) = op_of w"
  by (simp add: op_of_def type_of_from_int)

lemma program_at:
  "program_ok W n \<Longrightarrow> i < n \<Longrightarrow> op_of (W i) \<noteq> EXIT
     \<and> (op_of (W i) = JUMP \<longrightarrow> jump_back (W i) \<le> i + 1 \<and> op_of (W (i + 1)) \<noteq> JUMP
          \<and> op_of (W (i + 1 - jump_back (W i))) \<noteq> JUMP)"
  by (simp add: program_ok_def list_all_iff)

lemma dst_from_int: "dst (from_int w c) = dst c \<or> dst (from_int w c) = opd_of_code (from_bit w 3 25)"
  by (simp add: from_int_def Let_def decode_move_def decode_arith_def split: pim_cmd_type.split)

lemma writes_ok_program:
  "odd_ok W n p \<Longrightarrow> i < n \<Longrightarrow> fresh_cmd c \<Longrightarrow> writes_ok (from_int (W i) c) p"
  using dst_from_int [of "W i" c] by (auto simp: odd_ok_def writes_ok_def fresh_cmd_def list_all_iff)

lemma fresh_default [simp]: "fresh_cmd (pim_cmd_default junk)"
  by (simp add: fresh_cmd_def pim_cmd_default_def)

lemma fresh_jump: "fresh_cmd c \<Longrightarrow> op_of w = JUMP \<Longrightarrow> fresh_cmd (from_int w c)"
  by (simp add: fresh_cmd_def from_int_def op_of_def Let_def)

definition advanced :: "dram_rank \<Rightarrow> dram_rank" where
  "advanced s = s\<lparr>pim_pc := pim_pc s + 1,
                  crf_exit := crf_exit s \<or> op_of (crf_at s (nat (pim_pc s + 1))) = EXIT\<rparr>"

lemma advance_pc_eq:
  assumes "0 \<le> pim_pc s + 1" and "pim_pc s + 1 < 32"
  shows "advance_pc e s = Inr (advanced s)"
proof -
  have "crf_word (s\<lparr>pim_pc := pim_pc s + 1\<rparr>) (pim_pc s + 1) = Inr (crf_at s (nat (pim_pc s + 1)))"
    using assms by (simp add: crf_word_def crf_at_def)
  then show ?thesis by (cases s) (simp add: advance_pc_def advanced_def Let_def)
qed

lemma ctl_advanced: "ctl s = ctl t \<Longrightarrow> ctl (advanced s) = ctl (advanced t)"
  by (cases s; cases t) (simp add: ctl_def advanced_def crf_at_def)

lemma unat_from_bit: "len < 32 \<Longrightarrow> unat (from_bit w len pos) < 2 ^ len"
proof -
  assume "len < 32"
  then have "from_bit w len pos \<le> 2 ^ len - 1"
    by (simp add: from_bit_def bitmask_eq mask_eq_exp_minus_1 [symmetric] word_and_le1)
  moreover have "unat (2 ^ len - 1 :: u32) = 2 ^ len - 1"
    using \<open>len < 32\<close> by (simp add: unat_minus_le unat_pow2 word_le_nat_alt)
  ultimately have "unat (from_bit w len pos) \<le> 2 ^ len - 1" by (simp add: word_le_nat_alt)
  then show ?thesis by (simp add: less_eq_Suc_le [symmetric] Suc_leI le_diff_conv2 order_le_less_trans)
qed

lemma sint_small:
  fixes x :: u32
  assumes "unat x < 2 ^ 31"
  shows "sint x = int (unat x)"
proof -
  have "int (unat x) < 2 ^ 31" using assms by (simp only: of_nat_less_numeral_power_cancel_iff)
  then have "signed_take_bit 31 (int (unat x)) = int (unat x)"
    by (intro signed_take_bit_int_eq_self) (rule order_trans [OF _ of_nat_0_le_iff], simp)
  moreover have "sint x = signed_take_bit 31 (uint x)" using sint_uint [of x] by simp
  ultimately show ?thesis by (simp only: uint_nat)
qed

lemma sint_from_bit:
  assumes "len < 31"
  shows "sint (from_bit w len pos) = int (unat (from_bit w len pos))"
proof (rule sint_small)
  have "unat (from_bit w len pos) < 2 ^ len" using assms unat_from_bit by simp
  also have "(2 :: nat) ^ len \<le> 2 ^ 31" using assms by (intro power_increasing) auto
  finally show "unat (from_bit w len pos) < 2 ^ 31" .
qed

lemma jump_pc:
  assumes "op_of w = JUMP"
  shows "pim_pc (jump_control (from_int w c) s) = pim_pc s
      \<or> pim_pc (jump_control (from_int w c) s) = pim_pc s - int (jump_back w)"
proof -
  have "loop_offset (from_int w c) = from_bit w 11 0"
    using assms by (simp add: from_int_def op_of_def Let_def)
  then have "sint (loop_offset (from_int w c)) = int (jump_back w)"
    by (simp add: sint_from_bit jump_back_def)
  then show ?thesis by (simp add: jump_control_def Let_def)
qed

lemma command_pc: "pim_pc (command_control c s) = pim_pc s \<or> pim_pc (command_control c s) = pim_pc s - 1"
  by (simp add: command_control_def repeat_control_def Let_def)

text \<open>One command that is not a jump.\<close>

lemma loop_command:
  assumes sh: "rank_shape e s" and p: "packet_ok e p" and W: "program_ok (crf_at s) n" and odd: "odd_ok (crf_at s) n p"
    and pc: "pim_pc s = int i" "i < n" and op: "op_of (crf_at s i) \<noteq> JUMP" and c0: "fresh_cmd c0"
  shows "\<exists>p' s'. do_pim_loop (Suc k) e c0 p s = Inr (p', s') \<and> packet_ok e p' \<and> addr p' = addr p \<and> rank_shape e s'
    \<and> ctl s' = ctl (advanced (command_control (from_int (crf_at s i) c0) s))"
proof -
  define c where "c = from_int (crf_at s i) c0"
  have n: "n < 32" "op_of (crf_at s i) \<noteq> EXIT" using W pc program_at [OF W pc(2)] by (auto simp: program_ok_def)
  have "stores e p (command_control c s) (run_command e c p s)"
    by (rule run_command_stores [OF sh p]) (simp add: c_def writes_ok_program [OF odd pc(2) c0])
  then obtain p' s' where r: "run_command e c p s = Inr (p', s')" "packet_ok e p'" "rank_shape e s'"
    "ctl s' = ctl (command_control c s)" "addr p' = addr p" by (auto simp: stores_def)
  then have pc': "pim_pc s' = pim_pc (command_control c s)" by (auto dest: ctl_eqD)
  have "advance_pc e s' = Inr (advanced s')"
    by (rule advance_pc_eq) (use pc' command_pc [of c s] pc n in auto)
  then have "do_pim_loop (Suc k) e c0 p s = Inr (p', advanced s')"
    using r pc n op by (simp add: crf_word_at c_def [symmetric]) (simp add: c_def)
  moreover have "rank_shape e (advanced s')" using r(3) by (rule ctl_shape) (simp_all add: advanced_def)
  ultimately show ?thesis using r ctl_advanced [OF r(4)] by (simp add: c_def)
qed

lemma loop_jump:
  assumes W: "program_ok (crf_at s) n" and pc: "pim_pc s = int i" "i < n" and op: "op_of (crf_at s i) = JUMP"
  shows "do_pim_loop (Suc k) e c0 p s
    = do_pim_loop k e (from_int (crf_at s i) c0) p (advanced (jump_control (from_int (crf_at s i) c0) s))"
proof -
  define t where "t = jump_control (from_int (crf_at s i) c0) s"
  have "n < 32" "jump_back (crf_at s i) \<le> i + 1" using W program_at [OF W pc(2)] op by (auto simp: program_ok_def)
  then have "0 \<le> pim_pc t + 1" "pim_pc t + 1 < 32"
    using jump_pc [OF op, of c0 s] pc by (auto simp: t_def)
  then have "advance_pc e t = Inr (advanced t)" by (rule advance_pc_eq)
  with pc op \<open>n < 32\<close> show ?thesis by (simp add: crf_word_at t_def Let_def)
qed

lemma loop_exit:
  assumes "program_ok (crf_at s) n" and "pim_pc s = int n"
  shows "do_pim_loop (Suc k) e c0 p s = Inr (p, s\<lparr>crf_exit := True\<rparr>)"
  using assms by (simp add: crf_word_at program_ok_def)


subsection \<open>A packet runs at most a jump and a command\<close>

lemma crf_at_cong: "crf t = crf s \<Longrightarrow> crf_at t = crf_at s"
  by (simp add: crf_at_def fun_eq_iff)

lemma advanced_keeps [simp]:
  "crf (advanced s) = crf s" "mode (advanced s) = mode s" "banks (advanced s) = banks s"
  "pim_blocks (advanced s) = pim_blocks s" "pim_pc (advanced s) = pim_pc s + 1"
  "last_jump (advanced s) = last_jump s" "num_jumps (advanced s) = num_jumps s"
  "crf_exit (advanced s) \<longleftrightarrow> crf_exit s \<or> op_of (crf_at s (nat (pim_pc s + 1))) = EXIT"
  by (simp_all add: advanced_def)

lemma exit_iff: "program_ok W n \<Longrightarrow> j \<le> n \<Longrightarrow> op_of (W j) = EXIT \<longleftrightarrow> j = n"
  using program_at [of W n j] by (auto simp: program_ok_def le_less)

lemma jump_lands:
  assumes W: "program_ok (crf_at s) n" and pc: "pim_pc s = int i" "i < n" and op: "op_of (crf_at s i) = JUMP"
    and t: "t = advanced (jump_control (from_int (crf_at s i) c0) s)"
  shows "\<exists>j \<le> n. pim_pc t = int j \<and> (j < n \<longrightarrow> op_of (crf_at t j) \<noteq> JUMP) \<and> crf t = crf s \<and> mode t = mode s
    \<and> banks t = banks s \<and> pim_blocks t = pim_blocks s \<and> (crf_exit t \<longleftrightarrow> crf_exit s \<or> j = n)"
proof -
  have keep: "crf t = crf s" "mode t = mode s" "banks t = banks s" "pim_blocks t = pim_blocks s" by (simp_all add: t)
  have at: "crf_at t = crf_at s" by (rule crf_at_cong [OF keep(1)])
  have b: "jump_back (crf_at s i) \<le> i + 1" "op_of (crf_at s (i + 1)) \<noteq> JUMP"
    "op_of (crf_at s (i + 1 - jump_back (crf_at s i))) \<noteq> JUMP"
    using program_at [OF W pc(2)] op by auto
  have "pim_pc t = pim_pc (jump_control (from_int (crf_at s i) c0) s) + 1" by (simp add: t)
  then have cases: "pim_pc t = int (i + 1) \<or> pim_pc t = int (i + 1 - jump_back (crf_at s i))"
    using jump_pc [OF op, of c0 s] pc(1) b(1) by (auto simp: of_nat_diff)
  have "\<exists>j \<le> n. pim_pc t = int j \<and> op_of (crf_at s j) \<noteq> JUMP"
    using cases
  proof
    assume "pim_pc t = int (i + 1)"
    then show ?thesis using b(2) pc(2) by (intro exI [of _ "i + 1"]) simp
  next
    assume "pim_pc t = int (i + 1 - jump_back (crf_at s i))"
    then show ?thesis using b(3) pc(2) by (intro exI [of _ "i + 1 - jump_back (crf_at s i)"]) simp
  qed
  then obtain j where j: "j \<le> n" "pim_pc t = int j" "op_of (crf_at s j) \<noteq> JUMP" by blast
  have "crf_exit t \<longleftrightarrow> crf_exit s \<or> op_of (crf_at s (nat (pim_pc t))) = EXIT"
    using crf_at_cong [of "jump_control (from_int (crf_at s i) c0) s" s] by (simp add: t)
  then have "crf_exit t \<longleftrightarrow> crf_exit s \<or> j = n" using exit_iff [OF W j(1)] j(2) by simp
  with j keep at show ?thesis by (intro exI [of _ j]) simp
qed

section \<open>Loops repeat their body\<close>

text \<open>Commands act on the storage and depend on nothing else of the rank.\<close>

definition with_storage :: "dram_rank \<Rightarrow> dram_rank \<Rightarrow> dram_rank" where
  "with_storage t s = t\<lparr>banks := banks s, pim_blocks := pim_blocks s\<rparr>"

definition same_storage :: "dram_rank \<Rightarrow> dram_rank \<Rightarrow> bool" where
  "same_storage t s \<longleftrightarrow> banks t = banks s \<and> pim_blocks t = pim_blocks s"

abbreviation lift_storage :: "dram_rank \<Rightarrow> ('p \<times> dram_rank) result \<Rightarrow> ('p \<times> dram_rank) result" where
  "lift_storage t r \<equiv> map_sum id (map_prod id (with_storage t)) r"

lemma with_storage_simps [simp]:
  "with_storage (with_storage t a) b = with_storage t b" "same_storage (with_storage t s) s"
  "same_storage t s \<Longrightarrow> with_storage t s = t"
  by (simp_all add: with_storage_def same_storage_def)

lemma rbind_lift: "(\<And>a. f a = map_sum id g (h a)) \<Longrightarrow> rbind r f = map_sum id g (rbind r h)"
  by (cases r) simp_all

lemma rbind_lift2: "(\<And>a b. f (a, b) = map_sum id g (h (a, b))) \<Longrightarrow> rbind r f = map_sum id g (rbind r h)"
  by (rule rbind_lift) auto

lemma read_opd_frame: "same_storage t s \<Longrightarrow> read_opd pb x p i au mac t = read_opd pb x p i au mac s"
  by (simp add: read_opd_def read_bank_def get_block_def same_storage_def cong: pim_opd_type.case_cong)

lemma write_bank_frame: "same_storage t s \<Longrightarrow> write_bank i p t = map_sum id (with_storage t) (write_bank i p s)"
  by (auto simp: write_bank_def same_storage_def with_storage_def intro!: rbind_lift)

lemma upd_block_frame: "same_storage t s \<Longrightarrow> upd_block i f t = map_sum id (with_storage t) (upd_block i f s)"
  by (auto simp: upd_block_def get_block_def same_storage_def with_storage_def intro!: rbind_lift)

lemma rbind_pair:
  "r = map_sum id g r' \<Longrightarrow> rbind r (\<lambda>s. Inr (p, s)) = map_sum id (map_prod id g) (rbind r' (\<lambda>s. Inr (p, s)))"
  by (cases r') simp_all

lemma write_opd_frame:
  "same_storage t s \<Longrightarrow> write_opd pb d x p i au mac t = lift_storage t (write_opd pb d x p i au mac s)"
  by (cases x)
    (auto simp: write_opd_def Let_def intro!: rbind_lift rbind_pair write_bank_frame upd_block_frame)

lemma block_to_bank_frame:
  "same_storage t s \<Longrightarrow> block_to_bank pb p t = lift_storage t (block_to_bank pb p s)"
proof -
  assume st: "same_storage t s"
  then have "get_block pb t = get_block pb s" by (simp add: get_block_def same_storage_def)
  with st show ?thesis
    by (auto simp: block_to_bank_def intro!: rbind_lift rbind_pair write_bank_frame)
qed

lemma do_pim_block_frame:
  assumes "same_storage t s"
  shows "do_pim_block e c pb p t = lift_storage t (do_pim_block e c pb p s)"
proof -
  note fr = read_opd_frame [OF assms] write_opd_frame [OF assms]
  have "do_move c pb p t = lift_storage t (do_move c pb p s)"
    unfolding do_move_def Let_def fr(1) by (rule rbind_lift2) (simp only: prod.case fr(2))
  moreover have "do_add_mul e c pb p t = lift_storage t (do_add_mul e c pb p s)"
    unfolding do_add_mul_def Let_def fr(1)
    by (rule rbind_lift2, unfold prod.case, rule rbind_lift2) (simp only: prod.case fr(2))
  moreover have "do_mac_mad e c pb p t = lift_storage t (do_mac_mad e c pb p s)"
    unfolding do_mac_mad_def Let_def fr(1)
    by (rule rbind_lift2, unfold prod.case, rule rbind_lift2, unfold prod.case, rule rbind_lift2)
      (simp only: prod.case fr(2))
  ultimately show ?thesis
    using block_to_bank_frame [OF assms] assms by (simp add: do_pim_block_def Let_def)
qed

lemma each_block_frame:
  assumes "\<And>pb p s t. same_storage t s \<Longrightarrow> f pb (p, t) = lift_storage t (f pb (p, s))" and "same_storage t s"
  shows "each_block f n (p, t) = lift_storage t (each_block f n (p, s))"
proof (induction n)
  case (Suc n)
  show ?case
  proof (cases "each_block f n (p, s)")
    case (Inr r)
    then obtain p' s' where r: "each_block f n (p, s) = Inr (p', s')" by (cases r) simp
    have "f n (p', with_storage t s') = lift_storage (with_storage t s') (f n (p', s'))"
      by (rule assms(1)) simp
    also have "\<dots> = lift_storage t (f n (p', s'))"
      by (cases "f n (p', s')") auto
    finally show ?thesis using Suc r by (simp add: id_def)
  qed (use Suc in simp)
qed (use assms(2) in simp)

definition plain :: "u32 \<Rightarrow> bool" where
  "plain w \<longleftrightarrow> op_of w \<notin> {NOP, FILL, JUMP, EXIT} \<and> from_bit w 1 15 = 0"

text \<open>A command executed once for a packet, on every block.\<close>

definition execute :: "pim_env \<Rightarrow> u32 \<Rightarrow> bus_packet \<Rightarrow> dram_rank \<Rightarrow> (bus_packet \<times> dram_rank) result" where
  "execute e w p s =
     each_block (\<lambda>pb (p, s). do_pim_block e (from_int w (pim_cmd_default (env_junk e))) pb p s) (n_blocks e)
       (p\<lparr>prow := accessible_ra (prow p)\<rparr>, s)"

fun execute_all :: "pim_env \<Rightarrow> u32 \<Rightarrow> bus_packet list \<Rightarrow> dram_rank \<Rightarrow> dram_rank result" where
  "execute_all e w [] s = Inr s"
| "execute_all e w (p # ps) s = rbind (execute e w p s) (\<lambda>(_, s). execute_all e w ps s)"

fun run_pim :: "nat \<Rightarrow> pim_env \<Rightarrow> bus_packet list \<Rightarrow> dram_rank \<Rightarrow> dram_rank result" where
  "run_pim fuel e [] s = Inr s"
| "run_pim fuel e (p # ps) s = rbind (do_pim fuel e p s) (\<lambda>(_, s). run_pim fuel e ps s)"

lemma execute_frame: "same_storage t s \<Longrightarrow> execute e w p t = lift_storage t (execute e w p s)"
  unfolding execute_def by (rule each_block_frame) (simp_all add: do_pim_block_frame)

lemma plain_control:
  assumes "plain w" and "is_auto c0 = 0"
  shows "command_control (from_int w c0) s = s"
proof -
  have "op_of w \<noteq> NOP" "op_of w \<noteq> FILL" "from_bit w 1 15 = 0" using assms(1) by (auto simp: plain_def)
  moreover have "is_auto (from_int w c0) = is_auto c0 \<or> is_auto (from_int w c0) = from_bit w 1 15"
    by (simp add: from_int_def Let_def decode_move_def decode_arith_def split: pim_cmd_type.split)
  ultimately show ?thesis using assms(2) by (auto simp: command_control_def)
qed

lemma from_int_loops:
  assumes "plain w"
  shows "from_int w (c0\<lparr>cmd_type := t, loop_counter := a, loop_offset := b\<rparr>)
         = (from_int w c0)\<lparr>loop_counter := a, loop_offset := b\<rparr>"
  using assms
  by (cases "op_of w") (simp_all add: plain_def from_int_def op_of_def [symmetric] Let_def decode_move_def
      decode_arith_def)

lemma do_pim_block_loops: "do_pim_block e (c\<lparr>loop_counter := a, loop_offset := b\<rparr>) = do_pim_block e c"
  by (simp add: fun_eq_iff do_pim_block_def do_move_def do_add_mul_def do_mac_mad_def Let_def)

lemma from_int_jump:
  "op_of w = JUMP \<Longrightarrow> from_int w c0 = c0\<lparr>cmd_type := JUMP, loop_counter := from_bit w 17 11, loop_offset := from_bit w 11 0\<rparr>"
  by (simp add: from_int_def op_of_def Let_def)

lemma run_command_plain:
  assumes "plain w" and "c0 = pim_cmd_default (env_junk e) \<or> op_of wj = JUMP \<and> c0 = from_int wj (pim_cmd_default (env_junk e))"
  shows "run_command e (from_int w c0) (p\<lparr>prow := accessible_ra (prow p)\<rparr>) s = execute e w p s"
proof -
  have a: "is_auto c0 = 0" using assms(2) by (auto simp: from_int_jump pim_cmd_default_def)
  have "do_pim_block e (from_int w c0) = do_pim_block e (from_int w (pim_cmd_default (env_junk e)))"
    using assms by (auto simp: from_int_jump from_int_loops do_pim_block_loops)
  then show ?thesis by (simp add: run_command_def execute_def plain_control [OF assms(1) a])
qed


definition env_packet_ok :: "pim_env \<Rightarrow> (nat \<Rightarrow> u32) \<Rightarrow> nat \<Rightarrow> bus_packet \<Rightarrow> bool" where
  "env_packet_ok e W n p \<longleftrightarrow> packet_ok e p \<and> odd_ok W n p"

definition start_cmd :: "pim_env \<Rightarrow> pim_cmd \<Rightarrow> bool" where
  "start_cmd e c0 \<longleftrightarrow> c0 = pim_cmd_default (env_junk e)
     \<or> (\<exists>wj. op_of wj = JUMP \<and> c0 = from_int wj (pim_cmd_default (env_junk e)))"

abbreviation masked_row :: "bus_packet \<Rightarrow> bus_packet" where
  "masked_row p \<equiv> p\<lparr>prow := accessible_ra (prow p)\<rparr>"

lemma masked_ok [simp]: "packet_ok e (masked_row p) = packet_ok e p" "odd_ok W n (masked_row p) = odd_ok W n p"
  by (simp_all add: packet_ok_def odd_ok_def)

lemma start_fresh: "start_cmd e c0 \<Longrightarrow> fresh_cmd c0"
  by (auto simp: start_cmd_def fresh_jump)

section \<open>What a packet runs\<close>

lemma from_int_start:
  "do_pim_block e (from_int w (c0\<lparr>cmd_type := t, loop_counter := a, loop_offset := b\<rparr>)) = do_pim_block e (from_int w c0)"
  by (cases "op_of w") (simp_all add: from_int_def op_of_def [symmetric] Let_def decode_move_def decode_arith_def
      fun_eq_iff do_pim_block_def do_move_def do_add_mul_def do_mac_mad_def)

lemma command_control_start:
  "op_of w \<noteq> JUMP \<Longrightarrow> command_control (from_int w (c0\<lparr>cmd_type := t, loop_counter := a, loop_offset := b\<rparr>))
     = command_control (from_int w c0)"
  by (cases "op_of w") (simp_all add: from_int_def op_of_def [symmetric] Let_def decode_move_def decode_arith_def
      fun_eq_iff command_control_def)

lemma control_keeps_storage: "same_storage (command_control c s) s"
  by (simp add: same_storage_def command_control_def repeat_control_def Let_def)

lemma run_command_execute:
  assumes "start_cmd e c0" and "op_of w \<noteq> JUMP"
  shows "run_command e (from_int w c0) (masked_row p) s
    = lift_storage (command_control (from_int w (pim_cmd_default (env_junk e))) s) (execute e w p s)"
proof -
  have b: "do_pim_block e (from_int w c0) = do_pim_block e (from_int w (pim_cmd_default (env_junk e)))"
    "command_control (from_int w c0) = command_control (from_int w (pim_cmd_default (env_junk e)))"
    using assms by (auto simp: start_cmd_def from_int_jump from_int_start command_control_start)
  show ?thesis
    unfolding run_command_def execute_def b
    by (rule each_block_frame) (simp_all add: do_pim_block_frame control_keeps_storage)
qed

text \<open>The jumps the jump at \<^verbatim>\<open>i\<close> still takes, the instruction a packet executes when the program counter is
  \<^verbatim>\<open>i\<close>, and how often the command at \<^verbatim>\<open>j\<close> is still to be repeated.\<close>

definition jump_count :: "nat \<Rightarrow> dram_rank \<Rightarrow> int" where
  "jump_count i s =
     (let m = sint (from_bit (crf_at s i) 17 11) in
      if last_jump s \<noteq> int i \<and> 0 < m then m else num_jumps s)"

definition fetched :: "nat \<Rightarrow> dram_rank \<Rightarrow> nat" where
  "fetched i s =
     (if op_of (crf_at s i) \<noteq> JUMP then i
      else if 0 < jump_count i s then i + 1 - jump_back (crf_at s i) else i + 1)"

definition repeats :: "pim_cmd \<Rightarrow> nat \<Rightarrow> dram_rank \<Rightarrow> int" where
  "repeats c j s =
     (let fresh = last_repeat s \<noteq> int j in
      if cmd_type c = FILL \<or> is_auto c \<noteq> 0 then if fresh then 7 else num_repeats s
      else if cmd_type c = NOP then if fresh then sint (loop_counter c) else num_repeats s
      else 0)"

text \<open>What a packet does that executes the instruction at \<^verbatim>\<open>j\<close> of a program ending at \<^verbatim>\<open>n\<close>: nothing but the
  stop if it is the \<^verbatim>\<open>EXIT\<close>; otherwise that one command, once on every block, and the counter stays at the
  command exactly as long as it is to be repeated.\<close>

definition pim_runs ::
  "pim_env \<Rightarrow> nat \<Rightarrow> bus_packet \<Rightarrow> dram_rank \<Rightarrow> nat \<Rightarrow> (bus_packet \<times> dram_rank) result \<Rightarrow> bool" where
  "pim_runs e n p s j r \<longleftrightarrow> (\<exists>p' s'. r = Inr (p', s') \<and> packet_ok e p' \<and> rank_shape e s'
     \<and> crf s' = crf s \<and> mode s' = mode s \<and> j \<le> n
     \<and> (if j = n then p' = masked_row p \<and> same_storage s' s \<and> pim_pc s' = int n \<and> crf_exit s'
        else (\<exists>u. execute e (crf_at s j) p s = Inr (p', u) \<and> same_storage s' u)
          \<and> pim_pc s' = int (if 0 < repeats (from_int (crf_at s j) (pim_cmd_default (env_junk e))) j s then j else Suc j)
          \<and> (crf_exit s' \<longleftrightarrow> crf_exit s \<or> pim_pc s' = int n)))"

lemma control_pc:
  "pim_pc s = int j \<Longrightarrow>
     pim_pc (command_control c s) + 1 = int (if 0 < repeats c j s then j else Suc j)"
  by (auto simp: command_control_def repeat_control_def repeats_def Let_def)

lemma runs_no_jump:
  assumes sh: "rank_shape e t" and "packet_ok e p" and W: "program_ok (crf_at s) n" and "odd_ok (crf_at s) n p"
    and pc: "pim_pc t = int j" "j \<le> n" and op: "j < n \<Longrightarrow> op_of (crf_at s j) \<noteq> JUMP" and c0: "start_cmd e c0"
    and st: "same_storage t s" "crf t = crf s" "mode t = mode s" "last_repeat t = last_repeat s"
      "num_repeats t = num_repeats s" "j < n \<Longrightarrow> crf_exit t = crf_exit s"
  shows "pim_runs e n p s j (do_pim_loop (Suc k) e c0 (masked_row p) t)"
proof -
  have at: "crf_at t = crf_at s" using st(2) by (rule crf_at_cong)
  have Wt: "program_ok (crf_at t) n" "odd_ok (crf_at t) n (masked_row p)" "packet_ok e (masked_row p)"
    using assms(2-4) at by simp_all
  show ?thesis
  proof (cases "j = n")
    case True
    then show ?thesis
      using loop_exit [OF Wt(1), of k e c0 "masked_row p"] pc sh st Wt(3)
      by (auto simp: pim_runs_def same_storage_def simp del: do_pim_loop.simps intro: ctl_shape)
  next
    case False
    then have j: "j < n" using pc by simp
    define w where "w = crf_at s j"
    define c where "c = from_int w (pim_cmd_default (env_junk e))"
    have n: "n < 32" "op_of w \<noteq> EXIT" "op_of w \<noteq> JUMP"
      using W program_at [OF W j] op [OF j] by (auto simp: program_ok_def w_def)
    have f: "fresh_cmd c0" using c0 by (rule start_fresh)
    have run: "run_command e (from_int w c0) (masked_row p) t = lift_storage (command_control c t) (execute e w p t)"
      unfolding c_def by (rule run_command_execute [OF c0 n(3)])
    have cc: "command_control (from_int w c0) = command_control c"
      using c0 n(3) by (auto simp: c_def start_cmd_def from_int_jump command_control_start)
    have "stores e (masked_row p) (command_control c t) (run_command e (from_int w c0) (masked_row p) t)"
      using run_command_stores [OF sh Wt(3), of "from_int w c0"] writes_ok_program [OF Wt(2) j f]
      by (simp add: cc at w_def [symmetric])
    then obtain p' t' where t': "run_command e (from_int w c0) (masked_row p) t = Inr (p', t')" "packet_ok e p'"
      "rank_shape e t'" "ctl t' = ctl (command_control c t)" by (auto simp: stores_def)
    have pc': "pim_pc t' + 1 = int (if 0 < repeats c j t then j else Suc j)"
      using ctl_eqD [OF t'(4)] control_pc [OF pc(1), of c] by simp
    then have adv: "advance_pc e t' = Inr (advanced t')" using j n(1) by (intro advance_pc_eq) (auto split: if_splits)
    have loop: "do_pim_loop (Suc k) e c0 (masked_row p) t = Inr (p', advanced t')"
      using pc n t'(1) adv j by (simp add: crf_word_at at w_def [symmetric] Let_def)
    obtain u where u: "execute e w p s = Inr (p', u)" "same_storage t' u"
      using t'(1) execute_frame [OF st(1), of e w p] unfolding run
      by (cases "execute e w p s") (auto simp: id_def same_storage_def with_storage_def)
    have rep: "repeats c j t = repeats c j s" using st(4,5) by (simp add: repeats_def Let_def)
    have k: "crf t' = crf s" "mode t' = mode s" "crf_exit t' \<longleftrightarrow> crf_exit s"
      using ctl_eqD [OF t'(4)] st j by simp_all
    have ex: "crf_exit (advanced t') \<longleftrightarrow> crf_exit s \<or> pim_pc (advanced t') = int n"
      using k pc' j exit_iff [OF W, of "nat (pim_pc t' + 1)"] crf_at_cong [OF k(1)] by (auto split: if_splits)
    have "rank_shape e (advanced t')" using t'(3) by (rule ctl_shape) simp_all
    moreover have "same_storage (advanced t') u" using u(2) by (simp add: same_storage_def)
    ultimately show ?thesis
      unfolding pim_runs_def loop using j t'(2) k u(1) pc' rep ex by (simp add: w_def c_def)
  qed
qed

lemma jump_fetches:
  assumes W: "program_ok (crf_at s) n" and pc: "pim_pc s = int i" "i < n" and op: "op_of (crf_at s i) = JUMP"
  shows "pim_pc (jump_control (from_int (crf_at s i) c0) s) + 1 = int (fetched i s)"
proof -
  have "sint (from_bit (crf_at s i) 11 0) = int (jump_back (crf_at s i))" by (simp add: sint_from_bit jump_back_def)
  moreover have "jump_back (crf_at s i) \<le> i + 1" using program_at [OF W pc(2)] op by simp
  ultimately show ?thesis
    using pc op by (simp add: fetched_def jump_count_def jump_control_def from_int_jump [OF op] Let_def of_nat_diff)
qed


lemma plain_step:
  assumes sh: "rank_shape e s" and p: "env_packet_ok e (crf_at s) n p" and W: "program_ok (crf_at s) n"
    and pc: "pim_pc s = int i" "i < n" and pl: "plain (crf_at s i)" and c0: "start_cmd e c0"
  shows "\<exists>p' t. execute e (crf_at s i) p s = Inr (p', t) \<and> rank_shape e t \<and> ctl t = ctl s
    \<and> do_pim_loop (Suc k) e c0 (masked_row p) s = Inr (p', advanced t)"
proof -
  define w where "w = crf_at s i"
  have n: "n < 32" "op_of w \<noteq> EXIT" "op_of w \<noteq> JUMP"
    using W pl by (auto simp: program_ok_def plain_def w_def)
  have pk: "packet_ok e (masked_row p)" "odd_ok (crf_at s) n (masked_row p)" using p by (simp_all add: env_packet_ok_def)
  have f: "fresh_cmd c0" using c0 by (rule start_fresh)
  then have cc: "command_control (from_int w c0) s = s"
    using plain_control pl by (simp add: w_def fresh_cmd_def)
  have ex: "run_command e (from_int w c0) (masked_row p) s = execute e w p s"
    using run_command_plain pl c0 unfolding w_def start_cmd_def by blast
  have "stores e (masked_row p) s (execute e w p s)"
    using run_command_stores [OF sh pk(1), of "from_int w c0"] writes_ok_program [OF pk(2) pc(2) f]
    by (simp add: cc ex w_def [symmetric])
  then obtain p' t where t: "execute e w p s = Inr (p', t)" "rank_shape e t" "ctl t = ctl s" by (auto simp: stores_def)
  then have "pim_pc t = int i" using pc by (auto dest: ctl_eqD)
  then have "advance_pc e t = Inr (advanced t)" using pc n by (intro advance_pc_eq) auto
  then have "do_pim_loop (Suc k) e c0 (masked_row p) s = Inr (p', advanced t)"
    using pc n t(1) by (simp add: crf_word_at w_def [symmetric] ex Let_def)
  with t show ?thesis by (auto simp: w_def)
qed

text \<open>The jumps a loop whose count is not zero has left.\<close>

definition jumps_left :: "nat \<Rightarrow> dram_rank \<Rightarrow> int" where
  "jumps_left i s = (if last_jump s = int i then num_jumps s else sint (from_bit (crf_at s i) 17 11))"

definition loop_at :: "(nat \<Rightarrow> u32) \<Rightarrow> nat \<Rightarrow> nat \<Rightarrow> bool" where
  "loop_at W n i \<longleftrightarrow> program_ok W n \<and> Suc i < n \<and> plain (W i) \<and> op_of (W (Suc i)) = JUMP \<and> jump_back (W (Suc i)) = 2
     \<and> from_bit (W (Suc i)) 17 11 \<noteq> 0"

lemma counter_eq: "sint (from_bit w 17 11) = int (unat (from_bit w 17 11))"
  by (rule sint_from_bit) simp

lemma counter_pos: "from_bit w 17 11 \<noteq> 0 \<Longrightarrow> 0 < sint (from_bit w 17 11)"
  unfolding counter_eq by (simp only: of_nat_0_less_iff unat_gt_0 not_False_eq_True)

lemma jump_iteration:
  assumes L: "loop_at (crf_at s) n i" and pc: "pim_pc s = int (Suc i)" and l: "0 < jumps_left (Suc i) s"
  shows "\<exists>t. do_pim_loop (Suc k) e c0 p s = do_pim_loop k e (from_int (crf_at s (Suc i)) c0) p t
    \<and> pim_pc t = int i \<and> last_jump t = int (Suc i) \<and> num_jumps t = jumps_left (Suc i) s - 1 \<and> crf t = crf s
    \<and> same_storage t s"
proof -
  define t where "t = advanced (jump_control (from_int (crf_at s (Suc i)) c0) s)"
  have op: "op_of (crf_at s (Suc i)) = JUMP" "jump_back (crf_at s (Suc i)) = 2" "program_ok (crf_at s) n" "Suc i < n"
    "0 < sint (from_bit (crf_at s (Suc i)) 17 11)"
    using L counter_pos by (auto simp: loop_at_def)
  have off: "sint (from_bit (crf_at s (Suc i)) 11 0) = 2"
    using op(2) by (simp add: sint_from_bit jump_back_def)
  have "pim_pc t = int i" "last_jump t = int (Suc i)" "num_jumps t = jumps_left (Suc i) s - 1"
    using pc l op(5) off by (simp_all add: t_def jump_control_def from_int_jump [OF op(1)] Let_def jumps_left_def
        split: if_splits)
  moreover have "same_storage t s" "crf t = crf s" by (simp_all add: t_def same_storage_def)
  moreover have "do_pim_loop (Suc k) e c0 p s = do_pim_loop k e (from_int (crf_at s (Suc i)) c0) p t"
    unfolding t_def by (rule loop_jump [OF op(3) pc op(4) op(1)])
  ultimately show ?thesis by blast
qed

lemma execute_all_frame:
  "same_storage t s \<Longrightarrow> execute_all e w ps t = map_sum id (with_storage t) (execute_all e w ps s)"
proof (induction ps arbitrary: s t)
  case (Cons p ps)
  show ?case
  proof (cases "execute e w p s")
    case (Inr r)
    obtain p' s' where r: "execute e w p s = Inr (p', s')" using Inr by (cases r) simp
    have "execute_all e w ps (with_storage t s') = map_sum id (with_storage t) (execute_all e w ps s')"
      using Cons.IH [of "with_storage t s'" s'] by (cases "execute_all e w ps s'") simp_all
    with r execute_frame [OF Cons.prems, of e w p] show ?thesis by (simp add: id_def)
  qed (use execute_frame [OF Cons.prems, of e w p] in simp)
qed simp

text \<open>The state after a loop's packets, against the repeated body.\<close>

definition loop_result :: "pim_env \<Rightarrow> nat \<Rightarrow> bus_packet list \<Rightarrow> dram_rank \<Rightarrow> dram_rank result \<Rightarrow> bool" where
  "loop_result e i ps s r \<longleftrightarrow> (\<exists>s' u. r = Inr s' \<and> rank_shape e s' \<and> crf s' = crf s \<and> pim_pc s' = int (Suc i)
     \<and> jumps_left (Suc i) s' = 0 \<and> execute_all e (crf_at s i) ps s = Inr u \<and> same_storage s' u)"

lemma plain_from:
  assumes "rank_shape e t" and "env_packet_ok e (crf_at t) n p" and "program_ok (crf_at t) n" and "pim_pc t = int i"
    and "i < n" and "plain (crf_at t i)" and "start_cmd e c0" and st: "same_storage t s"
  shows "\<exists>p' u v. do_pim_loop (Suc k) e c0 (masked_row p) t = Inr (p', v) \<and> rank_shape e v \<and> crf v = crf t
    \<and> pim_pc v = int (Suc i) \<and> last_jump v = last_jump t \<and> num_jumps v = num_jumps t
    \<and> execute e (crf_at t i) p s = Inr (p', u) \<and> same_storage v u"
proof -
  obtain p' t' where t': "execute e (crf_at t i) p t = Inr (p', t')" "rank_shape e t'" "ctl t' = ctl t"
    "do_pim_loop (Suc k) e c0 (masked_row p) t = Inr (p', advanced t')"
    using plain_step [OF assms(1-7), of k] by blast
  obtain u where u: "execute e (crf_at t i) p s = Inr (p', u)" "t' = with_storage t u"
    using t'(1) execute_frame [OF st, of e "crf_at t i" p]
    by (cases "execute e (crf_at t i) p s") (auto simp: id_def)
  have "rank_shape e (advanced t')" using t'(2) by (rule ctl_shape) simp_all
  moreover have "same_storage (advanced t') u" using u(2) by (simp add: same_storage_def with_storage_def)
  ultimately show ?thesis using t'(4) u(1) ctl_eqD [OF t'(3)] assms(4) by auto
qed

lemma loop_packets:
  assumes "rank_shape e s" and "loop_at (crf_at s) n i" and "pim_pc s = int (Suc i)"
    and "jumps_left (Suc i) s = int (length ps)" and "list_all (env_packet_ok e (crf_at s) n) ps"
  shows "loop_result e i ps s (run_pim (Suc (Suc k)) e ps s)"
  using assms
proof (induction ps arbitrary: s)
  case Nil
  then show ?case by (simp add: loop_result_def same_storage_def)
next
  case (Cons p ps)
  define c0 where "c0 = pim_cmd_default (env_junk e)"
  have L: "plain (crf_at s i)" "program_ok (crf_at s) n" "i < n" "op_of (crf_at s (Suc i)) = JUMP"
    using Cons.prems(2) by (auto simp: loop_at_def)
  have "0 < jumps_left (Suc i) s" using Cons.prems(4) by simp
  from jump_iteration [OF Cons.prems(2,3) this, of "Suc k" e c0 "masked_row p"] obtain t where
    t: "do_pim_loop (Suc (Suc k)) e c0 (masked_row p) s
         = do_pim_loop (Suc k) e (from_int (crf_at s (Suc i)) c0) (masked_row p) t"
       "pim_pc t = int i" "last_jump t = int (Suc i)" "num_jumps t = jumps_left (Suc i) s - 1" "crf t = crf s"
       "same_storage t s" by blast
  have at: "crf_at t = crf_at s" by (rule crf_at_cong [OF t(5)])
  have sht: "rank_shape e t" using Cons.prems(1) t(5,6) by (auto simp: same_storage_def intro: ctl_shape)
  have st: "start_cmd e (from_int (crf_at s (Suc i)) c0)" using L(4) by (auto simp: start_cmd_def c0_def)
  have pk: "env_packet_ok e (crf_at s) n p" using Cons.prems(5) by simp
  obtain p' u v where v: "do_pim_loop (Suc k) e (from_int (crf_at s (Suc i)) c0) (masked_row p) t = Inr (p', v)"
    "rank_shape e v" "crf v = crf s" "pim_pc v = int (Suc i)" "last_jump v = int (Suc i)"
    "num_jumps v = jumps_left (Suc i) s - 1" "execute e (crf_at s i) p s = Inr (p', u)" "same_storage v u"
    using plain_from [OF sht, of n p i "from_int (crf_at s (Suc i)) c0" s k] pk L t st at by auto
  have atv: "crf_at v = crf_at s" by (rule crf_at_cong [OF v(3)])
  have "jumps_left (Suc i) v = int (length ps)" using v(5,6) Cons.prems(4) by (simp add: jumps_left_def)
  then have "loop_result e i ps v (run_pim (Suc (Suc k)) e ps v)"
    using Cons.IH [of v] v Cons.prems atv by simp
  then obtain s' x where s': "run_pim (Suc (Suc k)) e ps v = Inr s'" "rank_shape e s'" "crf s' = crf s"
    "pim_pc s' = int (Suc i)" "jumps_left (Suc i) s' = 0" "execute_all e (crf_at s i) ps v = Inr x" "same_storage s' x"
    using v(3) atv by (auto simp: loop_result_def)
  obtain y where y: "execute_all e (crf_at s i) ps u = Inr y" "x = with_storage v y"
    using s'(6) execute_all_frame [OF v(8), of e "crf_at s i" ps]
    by (cases "execute_all e (crf_at s i) ps u") auto
  have "same_storage s' y" using s'(7) y(2) by (simp add: same_storage_def with_storage_def)
  moreover have "do_pim (Suc (Suc k)) e p s = Inr (p', v)" using t(1) v(1) by (simp only: do_pim_def c0_def)
  ultimately show ?case using s' y(1) v(7) by (simp add: loop_result_def del: do_pim_loop.simps)
qed

text \<open>A packet that finds the counter at the exhausted jump leaves the loop.\<close>

lemma exhausted_leaves:
  assumes sh: "rank_shape e s" and at: "loop_at (crf_at s) n i" and pc: "pim_pc s = int (Suc i)"
    and jl0: "jumps_left (Suc i) s = 0" and pk: "env_packet_ok e (crf_at s) n q"
  shows "\<exists>q' s'. do_pim (Suc (Suc k)) e q s = Inr (q', s') \<and> int (i + 2) \<le> pim_pc s'"
proof -
  define c0 where "c0 = pim_cmd_default (env_junk e)"
  define c1 where "c1 = from_int (crf_at s (Suc i)) c0"
  have L: "program_ok (crf_at s) n" "Suc i < n" "op_of (crf_at s (Suc i)) = JUMP" "op_of (crf_at s (i + 2)) \<noteq> JUMP"
    using at program_at [of "crf_at s" n "Suc i"] by (auto simp: loop_at_def)
  have "0 < sint (from_bit (crf_at s (Suc i)) 17 11)" using at counter_pos by (simp add: loop_at_def)
  then have jl: "num_jumps s = 0" "last_jump s = int (Suc i)"
    using jl0 by (auto simp: jumps_left_def split: if_splits)
  define t where "t = advanced (jump_control c1 s)"
  have t: "pim_pc t = int (i + 2)" "crf t = crf s" "banks t = banks s" "pim_blocks t = pim_blocks s"
    using pc jl by (simp_all add: t_def jump_control_def Let_def)
  have att: "crf_at t = crf_at s" by (rule crf_at_cong [OF t(2)])
  have jump: "do_pim_loop (Suc (Suc k)) e c0 (masked_row q) s = do_pim_loop (Suc k) e c1 (masked_row q) t"
    unfolding t_def c1_def by (rule loop_jump [OF L(1) pc L(2,3)])
  have sht: "rank_shape e t" using sh t by (auto intro: ctl_shape)
  have fr: "fresh_cmd c1" using L(3) by (simp add: c1_def fresh_jump c0_def)
  have q: "packet_ok e (masked_row q)" "odd_ok (crf_at t) n (masked_row q)" "program_ok (crf_at t) n"
    using pk L(1) att by (simp_all add: env_packet_ok_def)
  have "\<exists>q' s'. do_pim_loop (Suc k) e c1 (masked_row q) t = Inr (q', s') \<and> int (i + 2) \<le> pim_pc s'"
  proof (cases "i + 2 = n")
    case True
    then show ?thesis using loop_exit [OF q(3), of k] t(1) by (auto simp del: do_pim_loop.simps)
  next
    case False
    then have "i + 2 < n" "op_of (crf_at t (i + 2)) \<noteq> JUMP" using L(2,4) att by simp_all
    then obtain q' s' where "do_pim_loop (Suc k) e c1 (masked_row q) t = Inr (q', s')"
      "ctl s' = ctl (advanced (command_control (from_int (crf_at t (i + 2)) c1) t))"
      using loop_command [OF sht q(1,3,2) t(1) _ _ fr, of k] by blast
    moreover from this(2) have "int (i + 2) \<le> pim_pc s'"
      using command_pc [of "from_int (crf_at t (i + 2)) c1" t] t(1) by (auto dest!: ctl_eqD)
    ultimately show ?thesis by blast
  qed
  then show ?thesis using jump by (simp only: do_pim_def c0_def)
qed


section \<open>Where the instruction loop does not end\<close>

text \<open>A jump to itself followed by a jump back to it: each resets the other's count, and one packet runs forever.\<close>

lemma adjacent_jumps_loop:
  assumes "crf_at s 0 = encoded (pim_cmd_jump 0 JUMP 1 1)" and "crf_at s (Suc 0) = encoded (pim_cmd_jump 0 JUMP 1 2)"
    and "pim_pc s = 0 \<and> last_jump s \<noteq> 0 \<or> pim_pc s = 0 \<and> last_jump s = 0 \<and> num_jumps s = 0
         \<or> pim_pc s = 1 \<and> last_jump s = 0"
  shows "do_pim_loop k e c0 p s = Inl NoFuel"
  using assms
proof (induction k arbitrary: c0 s)
  case (Suc k)
  have e: "op_of (encoded (pim_cmd_jump 0 JUMP 1 1)) = JUMP" "op_of (encoded (pim_cmd_jump 0 JUMP 1 2)) = JUMP"
    by (simp_all add: op_of_def pim_cmd_jump_def)
  have f: "from_int (crf_at s 0) c0 = c0\<lparr>cmd_type := JUMP, loop_counter := 1, loop_offset := 1\<rparr>"
    "from_int (crf_at s (Suc 0)) c0 = c0\<lparr>cmd_type := JUMP, loop_counter := 1, loop_offset := 2\<rparr>"
    unfolding Suc.prems(1,2)
    by (subst decode_encoded; simp add: cmd_fits_def pim_cmd_jump_def carry_def)+
  have w: "crf_word s 0 = Inr (crf_at s 0)" "crf_word s 1 = Inr (crf_at s (Suc 0))"
    using crf_word_at [of 0 s] crf_word_at [of "Suc 0" s] by simp_all
  from Suc.prems(3) show ?case
  proof (elim disjE conjE)
    assume a: "pim_pc s = 0" "last_jump s \<noteq> 0"
    define t where "t = advanced (jump_control (from_int (crf_at s 0) c0) s)"
    have t: "pim_pc t = 0" "last_jump t = 0" "num_jumps t = 0" "crf t = crf s"
      using a by (simp_all add: t_def jump_control_def f Let_def)
    have "advance_pc e (jump_control (from_int (crf_at s 0) c0) s) = Inr t"
      unfolding t_def by (rule advance_pc_eq) (use a in \<open>simp_all add: jump_control_def f Let_def\<close>)
    then show ?thesis
      using Suc.IH [of t] t crf_at_cong [OF t(4)] Suc.prems(1,2) a e w by (simp add: Let_def)
  next
    assume a: "pim_pc s = 0" "last_jump s = 0" "num_jumps s = 0"
    define t where "t = advanced (jump_control (from_int (crf_at s 0) c0) s)"
    have t: "pim_pc t = 1" "last_jump t = 0" "crf t = crf s"
      using a by (simp_all add: t_def jump_control_def f Let_def)
    have "advance_pc e (jump_control (from_int (crf_at s 0) c0) s) = Inr t"
      unfolding t_def by (rule advance_pc_eq) (use a in \<open>simp_all add: jump_control_def f Let_def\<close>)
    then show ?thesis
      using Suc.IH [of t] t crf_at_cong [OF t(3)] Suc.prems(1,2) a e w by (simp add: Let_def)
  next
    assume a: "pim_pc s = 1" "last_jump s = 0"
    define t where "t = advanced (jump_control (from_int (crf_at s (Suc 0)) c0) s)"
    have t: "pim_pc t = 0" "last_jump t \<noteq> 0" "crf t = crf s"
      using a by (simp_all add: t_def jump_control_def f Let_def)
    have "advance_pc e (jump_control (from_int (crf_at s (Suc 0)) c0) s) = Inr t"
      unfolding t_def by (rule advance_pc_eq) (use a in \<open>simp_all add: jump_control_def f Let_def\<close>)
    then show ?thesis
      using Suc.IH [of t] t crf_at_cong [OF t(3)] Suc.prems(1,2) a e w by (simp add: Let_def)
  qed
qed simp

section \<open>A concrete program\<close>

text \<open>Two blocks over four banks of eight columns, running \<^verbatim>\<open>MAC GRF_B[0], EVEN_BANK, GRF_A[1]\<close> three times.\<close>

definition demo_env :: pim_env where
  "demo_env =
     \<lparr>env_cfg = \<lparr>NUM_BANKS = 4, NUM_PIM_BLOCKS = 2, NUM_COLS = 8, NUM_BANK_PER_BG = 2, AL = 0, BL = 4, RL = 6, WL = 3,
        tCCDL = 4, tCCDS = 2, tCKE = 3, tRAS = 10, tRC = 14, tRCDRD = 4, tRCDWR = 3, tRFC = 20, tRP = 4, tRRDL = 3,
        tRRDS = 2, tRTPL = 2, tRTRS = 1, tWR = 4, tWTRL = 3, tWTRS = 2, tXP = 3,
        NUM_RANKS = 1, CMD_QUEUE_DEPTH = 4, TRANS_QUEUE_DEPTH = 8, XAW = 4, TOTAL_ROW_ACCESSES = 4, tCMD = 1, tREFI = 100,
        tREFISB = 100, tCK = FFin 1\<rparr>,
      env_fu = \<lparr>h_add = (+), h_mul = (*), s_add = (+), s_mul = (*)\<rparr>, env_prec = FP16, env_junk = 0\<rparr>"

definition demo_words :: "u32 list" where
  "demo_words = [encoded (pim_cmd_arith 0 MAC GRF_B EVEN_BANK GRF_A 0 0 0 1), encoded (pim_cmd_jump 0 JUMP 2 2),
     encoded (pim_cmd_ctrl 0 EXIT 0), 0, 0, 0, 0, 0]"

definition demo_rank :: dram_rank where
  "demo_rank =
     \<lparr>mode = HAB_PIM, banks = replicate 4 (bank_init 8), pim_pc = 0, last_jump = - 1, num_jumps = - 1,
      last_repeat = - 1, num_repeats = - 1, pim_op_mode = True, toggle_even = True, toggle_odd = False,
      toggle_ra13h = False, crf_exit = False, crf = [of_lanes 8 (\<lambda>i. demo_words ! i), 0, 0, 0],
      pim_blocks = replicate 2 pim_block_init\<rparr>"

definition demo_packet :: bus_packet where
  "demo_packet = mk_packet READ 0 3 5 0 0 (Some 7)"

lemma demo_shape: "rank_shape demo_env demo_rank"
  by (auto simp: rank_shape_def demo_rank_def demo_env_def n_blocks_def block_ok_def pim_block_init_def banks_ok_def)
    (simp_all add: bank_init_def)

lemma demo_codes:
  "encoded (pim_cmd_arith 0 MAC GRF_B EVEN_BANK GRF_A 0 0 0 1) = 983564289"
  "encoded (pim_cmd_jump 0 JUMP 2 2) = 3758100482" "encoded (pim_cmd_ctrl 0 EXIT 0) = 4026531840"
  "op_of 983564289 = MAC" "op_of 3758100482 = JUMP" "op_of 4026531840 = EXIT" "from_bit 983564289 (Suc 0) 15 = 0"
  "jump_back 3758100482 = 2" "from_bit 3758100482 17 11 = 2"
  by code_simp+

lemma demo_words:
  "crf_at demo_rank 0 = 983564289" "crf_at demo_rank (Suc 0) = 3758100482" "crf_at demo_rank (Suc (Suc 0)) = 4026531840"
  by (simp_all add: crf_at_def demo_rank_def demo_words_def demo_codes)

lemma demo_program: "program_ok (crf_at demo_rank) 2" "loop_at (crf_at demo_rank) 2 0"
proof -
  have "[0..<2] = [0, Suc 0]" by (simp add: upt_rec)
  then show p: "program_ok (crf_at demo_rank) 2"
    by (simp add: program_ok_def demo_words demo_codes numeral_2_eq_2 del: upt_Suc)
  show "loop_at (crf_at demo_rank) 2 0"
    using p by (simp add: loop_at_def plain_def demo_words demo_codes)
qed

lemma demo_packet_ok: "env_packet_ok demo_env W n (demo_packet\<lparr>pbank := 1\<rparr>)" "packet_ok demo_env demo_packet"
  by (simp_all add: env_packet_ok_def packet_ok_def odd_ok_def demo_packet_def demo_env_def)

text \<open>A packet that executes the \<^verbatim>\<open>MAC\<close>, one that jumps back to it, and one that leaves through the exhausted
  jump and executes nothing.\<close>

lemma demo_fetched:
  "fetched 0 demo_rank = 0" "fetched (Suc 0) (demo_rank\<lparr>pim_pc := 1\<rparr>) = 0"
  "fetched (Suc 0) (demo_rank\<lparr>pim_pc := 1, last_jump := 1, num_jumps := 0\<rparr>) = 2"
proof -
  have at: "crf_at (demo_rank\<lparr>pim_pc := 1\<rparr>) = crf_at demo_rank"
    "crf_at (demo_rank\<lparr>pim_pc := 1, last_jump := 1, num_jumps := 0\<rparr>) = crf_at demo_rank"
    by (simp_all add: crf_at_def fun_eq_iff)
  have m: "last_jump demo_rank = - 1" by (simp add: demo_rank_def)
  show "fetched 0 demo_rank = 0" "fetched (Suc 0) (demo_rank\<lparr>pim_pc := 1\<rparr>) = 0"
    "fetched (Suc 0) (demo_rank\<lparr>pim_pc := 1, last_jump := 1, num_jumps := 0\<rparr>) = 2"
    by (simp_all add: fetched_def jump_count_def at m demo_words demo_codes Let_def)
qed



end
