(* ===== verification/GatedSched.thy ===== *)
theory GatedSched
  imports Floats
begin

text \<open>
  The gated task scheduling unit of a PIM rank: \<^verbatim>\<open>GatedTaskScheduler\<close> of
  \<^verbatim>\<open>PIMSimulator/src/GatedTaskScheduler.h\<close>.

  \<^verbatim>\<open>active_task_\<close> is a pointer to the first element of the vector \<^verbatim>\<open>pending_tasks_\<close>, which a
  \<^verbatim>\<open>push_back\<close> may move.  The vector is therefore modelled with the identity of its allocation
  (\<^verbatim>\<open>pend_alloc\<close>) and its capacity: a push into a full vector makes a new allocation whose capacity
  \<^verbatim>\<open>grow\<close> the implementation of the vector chooses, and the pointer is the identity it was taken from.
  Reading through a pointer to an older allocation is undefined (\<^const>\<open>None\<close>).
\<close>

section \<open>Data\<close>

datatype pim_task_type = IDLE | DRAFTING | PRE_VERIFICATION

record task_descriptor =
  task_type :: pim_task_type
  task_rank_id :: u32
  task_batch_size :: u32
  task_start_cycle :: u64
  task_estimated_cycles :: u64
  task_completed :: bool

definition task_descriptor_init :: task_descriptor where
  "task_descriptor_init =
     \<lparr>task_type = IDLE, task_rank_id = 0, task_batch_size = 0, task_start_cycle = 0, task_estimated_cycles = 0,
      task_completed = False\<rparr>"

record gated_rank =
  gr_enabled :: bool
  gr_busy :: bool
  gr_task :: pim_task_type
  gr_remaining :: u32

definition gated_rank_init :: gated_rank where
  "gated_rank_init = \<lparr>gr_enabled = False, gr_busy = False, gr_task = IDLE, gr_remaining = 0\<rparr>"

record gtsu =
  gt_num_ranks :: u32
  gt_ranks :: "gated_rank list"
  gt_pending :: "task_descriptor list"
  pend_capacity :: nat
  pend_alloc :: nat
  gt_active :: "nat option"
  gt_drafting_rank :: u32
  gt_verification_rank :: u32
  gt_switch_latency :: u32
  gt_switch_delay :: u32
  gt_switching :: bool
  gt_total_switches :: u64
  gt_drafting_cycles :: u64
  gt_verification_cycles :: u64
  gt_idle_cycles :: u64
  gt_overhead_cycles :: u64
  gt_total_cycles :: u64
  gt_energy :: fp

section \<open>Operations\<close>

text \<open>The loops over the drafting ranks \<^verbatim>\<open>0 .. num_ranks_ - 2\<close>.\<close>

fun on_drafting :: "nat \<Rightarrow> (gated_rank \<Rightarrow> gated_rank) \<Rightarrow> gated_rank list \<Rightarrow> gated_rank list" where
  "on_drafting n f [] = []"
| "on_drafting 0 f rs = rs"
| "on_drafting (Suc n) f (r # rs) = f r # on_drafting n f rs"

definition set_enabled :: "bool \<Rightarrow> gated_rank \<Rightarrow> gated_rank" where
  "set_enabled b r = r\<lparr>gr_enabled := b\<rparr>"

definition set_task :: "task_descriptor \<Rightarrow> gated_rank \<Rightarrow> gated_rank" where
  "set_task t r = r\<lparr>gr_busy := True, gr_task := task_type t, gr_remaining := ucast (task_estimated_cycles t)\<rparr>"

definition on_verification :: "(gated_rank \<Rightarrow> gated_rank) \<Rightarrow> gtsu \<Rightarrow> gated_rank list \<Rightarrow> gated_rank list" where
  "on_verification f g rs = rs[unat (gt_verification_rank g) := f (rs ! unat (gt_verification_rank g))]"

definition drafting_count :: "gtsu \<Rightarrow> nat" where
  "drafting_count g = unat (gt_num_ranks g - 1)"

text \<open>The constructor indexes the last rank, so it is undefined without ranks.\<close>

definition init_ranks :: "nat \<Rightarrow> nat \<Rightarrow> gated_rank list" where
  "init_ranks n v =
     (let rs = on_drafting v (set_enabled True) (replicate n gated_rank_init) in rs[v := set_enabled False (rs ! v)])"

definition gtsu_init :: "u32 \<Rightarrow> gtsu option" where
  "gtsu_init n =
     (if n = 0 then None
      else Some \<lparr>gt_num_ranks = n,
        gt_ranks = init_ranks (unat n) (unat (n - 1)),
        gt_pending = [], pend_capacity = 0, pend_alloc = 0, gt_active = None, gt_drafting_rank = 0,
        gt_verification_rank = n - 1, gt_switch_latency = 1, gt_switch_delay = 0, gt_switching = False,
        gt_total_switches = 0, gt_drafting_cycles = 0, gt_verification_cycles = 0, gt_idle_cycles = 0,
        gt_overhead_cycles = 0, gt_total_cycles = 0, gt_energy = FFin 0\<rparr>)"

definition submit_task :: "(nat \<Rightarrow> nat) \<Rightarrow> pim_task_type \<Rightarrow> u32 \<Rightarrow> u64 \<Rightarrow> gtsu \<Rightarrow> bool \<times> gtsu" where
  "submit_task grow t batch cycles g =
     (let task = task_descriptor_init\<lparr>task_type := t, task_batch_size := batch, task_estimated_cycles := cycles,
                   task_completed := False\<rparr>;
          full = length (gt_pending g) = pend_capacity g in
      (True, g\<lparr>gt_pending := gt_pending g @ [task],
               pend_capacity := (if full then grow (pend_capacity g) else pend_capacity g),
               pend_alloc := (if full then Suc (pend_alloc g) else pend_alloc g)\<rparr>))"

definition initiate_task_switch :: "pim_task_type \<Rightarrow> gtsu \<Rightarrow> gtsu" where
  "initiate_task_switch target g =
     g\<lparr>gt_switching := True, gt_switch_delay := gt_switch_latency g,
       gt_total_switches := gt_total_switches g + 1,
       gt_energy := fadd b64 (gt_energy g) (flit b64 (5 / 100)),
       gt_ranks := (if target = PRE_VERIFICATION
          then on_verification (set_enabled True) g (on_drafting (drafting_count g) (set_enabled False) (gt_ranks g))
          else on_verification (set_enabled False) g (on_drafting (drafting_count g) (set_enabled True) (gt_ranks g)))\<rparr>"

text \<open>Starting the first pending task stamps it and takes a pointer to it.\<close>

definition start_task :: "u64 \<Rightarrow> task_descriptor \<Rightarrow> task_descriptor list \<Rightarrow> gtsu \<Rightarrow> gtsu" where
  "start_task now t rest g =
     g\<lparr>gt_pending := t\<lparr>task_start_cycle := now\<rparr> # rest, gt_active := Some (pend_alloc g),
       gt_ranks := (case task_type t of
           DRAFTING \<Rightarrow> on_drafting (drafting_count g) (set_task t) (gt_ranks g)
         | PRE_VERIFICATION \<Rightarrow> on_verification (set_task t) g (gt_ranks g)
         | IDLE \<Rightarrow> gt_ranks g)\<rparr>"

definition need_switch :: "pim_task_type \<Rightarrow> gtsu \<Rightarrow> bool" where
  "need_switch t g =
     (case t of
        PRE_VERIFICATION \<Rightarrow> \<not> gr_enabled (gt_ranks g ! unat (gt_verification_rank g))
      | DRAFTING \<Rightarrow> \<not> gr_enabled (gt_ranks g ! unat (gt_drafting_rank g))
      | IDLE \<Rightarrow> False)"

definition schedule_next_task :: "u64 \<Rightarrow> gtsu \<Rightarrow> bool \<times> gtsu" where
  "schedule_next_task now g =
     (if gt_active g \<noteq> None \<or> gt_switching g then (False, g)
      else case gt_pending g of
        [] \<Rightarrow> (False, g)
      | t # rest \<Rightarrow>
          if need_switch (task_type t) g then (True, initiate_task_switch (task_type t) g)
          else (True, start_task now t rest g))"

text \<open>One cycle of a rank: its new state, whether it still worked, and the cycles it counts.\<close>

definition tick_rank :: "gated_rank \<Rightarrow> gated_rank" where
  "tick_rank r =
     (if gr_busy r
      then if 0 < gr_remaining r then r\<lparr>gr_remaining := gr_remaining r - 1\<rparr>
           else r\<lparr>gr_busy := False, gr_task := IDLE\<rparr>
      else r)"

definition worked :: "gated_rank \<Rightarrow> bool" where
  "worked r \<longleftrightarrow> gr_busy r \<and> 0 < gr_remaining r"

definition worked_for :: "pim_task_type \<Rightarrow> gated_rank list \<Rightarrow> u64" where
  "worked_for t rs = of_nat (length (filter (\<lambda>r. worked r \<and> gr_task r = t) rs))"

definition update_active :: "nat \<Rightarrow> gtsu \<Rightarrow> gtsu option" where
  "update_active p g =
     (let rs = gt_ranks g;
          g1 = g\<lparr>gt_ranks := map tick_rank rs,
                 gt_drafting_cycles := gt_drafting_cycles g + worked_for DRAFTING rs,
                 gt_verification_cycles := gt_verification_cycles g + worked_for PRE_VERIFICATION rs\<rparr> in
      if list_ex worked rs then Some g1
      else if p = pend_alloc g then Some (g1\<lparr>gt_active := None, gt_pending := tl (gt_pending g)\<rparr>)
      else None)"

definition gtsu_update :: "gtsu \<Rightarrow> gtsu option" where
  "gtsu_update g0 =
     (let g = g0\<lparr>gt_total_cycles := gt_total_cycles g0 + 1\<rparr> in
      if gt_switching g
      then if 0 < gt_switch_delay g
           then Some (g\<lparr>gt_switch_delay := gt_switch_delay g - 1, gt_overhead_cycles := gt_overhead_cycles g + 1\<rparr>)
           else let g1 = g\<lparr>gt_switching := False\<rparr> in
                case gt_pending g1 of
                  [] \<Rightarrow> Some g1
                | t # rest \<Rightarrow> Some (start_task (gt_total_cycles g1) t rest g1)
      else case gt_active g of
          Some p \<Rightarrow> update_active p g
        | None \<Rightarrow> Some (g\<lparr>gt_idle_cycles := gt_idle_cycles g + 1\<rparr>))"

definition gtsu_is_busy :: "gtsu \<Rightarrow> bool" where
  "gtsu_is_busy g \<longleftrightarrow> gt_active g \<noteq> None \<or> gt_switching g"

definition can_accept_task :: "gtsu \<Rightarrow> bool" where
  "can_accept_task g \<longleftrightarrow> length (gt_pending g) < 8"

definition get_current_task_type :: "gtsu \<Rightarrow> pim_task_type option" where
  "get_current_task_type g =
     (case gt_active g of
        None \<Rightarrow> Some IDLE
      | Some p \<Rightarrow> if p = pend_alloc g then Some (task_type (hd (gt_pending g))) else None)"

definition gtsu_utilization :: "gtsu \<Rightarrow> fp" where
  "gtsu_utilization g =
     (if gt_total_cycles g = 0 then FFin 0
      else fdiv b64 (du64 (gt_drafting_cycles g + gt_verification_cycles g)) (du64 (gt_total_cycles g)))"

definition switch_overhead_percent :: "gtsu \<Rightarrow> fp" where
  "switch_overhead_percent g =
     (if gt_total_cycles g = 0 then FFin 0
      else fmul b64 (fdiv b64 (du64 (gt_overhead_cycles g)) (du64 (gt_total_cycles g))) (FFin 100))"

definition switch_time_ns :: "fp \<Rightarrow> fp" where
  "switch_time_ns freq_mhz = fmul b64 (fdiv b64 (FFin 1) freq_mhz) (FFin 1000)"

datatype gtsu_op = Submit pim_task_type u32 u64 | Schedule u64 | Update

definition gtsu_step :: "(nat \<Rightarrow> nat) \<Rightarrow> gtsu_op \<Rightarrow> gtsu \<Rightarrow> gtsu option" where
  "gtsu_step grow x g =
     (case x of
        Submit t b c \<Rightarrow> Some (snd (submit_task grow t b c g))
      | Schedule now \<Rightarrow> Some (snd (schedule_next_task now g))
      | Update \<Rightarrow> gtsu_update g)"

section \<open>Invariant: one configuration at a time\<close>

text \<open>The task type the configuration of rank \<^verbatim>\<open>i\<close> serves.\<close>

definition serves :: "gtsu \<Rightarrow> nat \<Rightarrow> pim_task_type" where
  "serves g i = (if i < drafting_count g then DRAFTING else PRE_VERIFICATION)"

definition shape :: "gtsu \<Rightarrow> bool" where
  "shape g \<longleftrightarrow> gt_num_ranks g \<noteq> 0 \<and> length (gt_ranks g) = unat (gt_num_ranks g)
     \<and> gt_drafting_rank g = 0 \<and> gt_verification_rank g = gt_num_ranks g - 1 \<and> gt_switch_latency g = 1"

text \<open>Either all drafting ranks are enabled and the verification rank is not, or the reverse.\<close>

definition gated :: "gtsu \<Rightarrow> bool" where
  "gated g \<longleftrightarrow> (\<exists>d. \<forall>i < length (gt_ranks g).
     gr_enabled (gt_ranks g ! i) = (if i < drafting_count g then d else \<not> d))"

definition busy_ok :: "gtsu \<Rightarrow> bool" where
  "busy_ok g \<longleftrightarrow> (\<forall>i < length (gt_ranks g). gr_busy (gt_ranks g ! i) \<longrightarrow>
     gt_active g \<noteq> None \<and> gr_enabled (gt_ranks g ! i) \<and> gr_task (gt_ranks g ! i) = serves g i
     \<and> task_type (hd (gt_pending g)) = serves g i)"

definition queue_ok :: "gtsu \<Rightarrow> bool" where
  "queue_ok g \<longleftrightarrow> length (gt_pending g) \<le> pend_capacity g
     \<and> (gt_active g \<noteq> None \<or> gt_switching g \<longrightarrow> gt_pending g \<noteq> [])
     \<and> \<not> (gt_active g \<noteq> None \<and> gt_switching g)
     \<and> (\<forall>p. gt_active g = Some p \<longrightarrow> p \<le> pend_alloc g)"

text \<open>Once the switch was configured, the ranks of the task at the head are enabled.\<close>

definition switch_ok :: "gtsu \<Rightarrow> bool" where
  "switch_ok g \<longleftrightarrow> (gt_switching g \<longrightarrow>
     (\<forall>i < length (gt_ranks g). serves g i = task_type (hd (gt_pending g)) \<longrightarrow> gr_enabled (gt_ranks g ! i)))"

definition gtsu_inv :: "gtsu \<Rightarrow> bool" where
  "gtsu_inv g \<longleftrightarrow> shape g \<and> gated g \<and> busy_ok g \<and> queue_ok g \<and> switch_ok g"


subsection \<open>The rank loops\<close>

lemma length_on_drafting [simp]: "length (on_drafting n f rs) = length rs"
  by (induction n f rs rule: on_drafting.induct) auto

lemma nth_on_drafting [simp]:
  "i < length rs \<Longrightarrow> on_drafting n f rs ! i = (if i < n then f (rs ! i) else rs ! i)"
  by (induction n f rs arbitrary: i rule: on_drafting.induct) (auto simp: nth_Cons split: nat.splits)

lemma length_on_verification [simp]: "length (on_verification f g rs) = length rs"
  by (simp add: on_verification_def)

lemma nth_on_verification [simp]:
  "i < length rs \<Longrightarrow>
   on_verification f g rs ! i = (if i = unat (gt_verification_rank g) then f (rs ! i) else rs ! i)"
  by (auto simp: on_verification_def nth_list_update)

lemma shape_counts:
  assumes "shape g"
  shows "unat (gt_verification_rank g) = drafting_count g" "length (gt_ranks g) = Suc (drafting_count g)"
    "0 < unat (gt_num_ranks g)"
  using assms by (auto simp: shape_def drafting_count_def unat_minus_one unat_gt_0)

lemma drafting_count_cong: "gt_num_ranks g = gt_num_ranks h \<Longrightarrow> drafting_count g = drafting_count h"
  by (simp add: drafting_count_def)

lemma set_enabled_simps [simp]:
  "gr_enabled (set_enabled b r) = b" "gr_busy (set_enabled b r) = gr_busy r" "gr_task (set_enabled b r) = gr_task r"
  "gr_remaining (set_enabled b r) = gr_remaining r"
  by (simp_all add: set_enabled_def)

lemma set_task_simps [simp]:
  "gr_enabled (set_task t r) = gr_enabled r" "gr_busy (set_task t r)" "gr_task (set_task t r) = task_type t"
  "gr_remaining (set_task t r) = ucast (task_estimated_cycles t)"
  by (simp_all add: set_task_def)

lemma tick_rank_simps [simp]:
  "gr_enabled (tick_rank r) = gr_enabled r" "gr_busy (tick_rank r) \<longleftrightarrow> worked r"
  "worked r \<Longrightarrow> gr_task (tick_rank r) = gr_task r"
  by (auto simp: tick_rank_def worked_def)

lemma init_ranks_nth:
  "i < n \<Longrightarrow> v < n \<Longrightarrow> gr_enabled (init_ranks n v ! i) = (i < v) \<and> \<not> gr_busy (init_ranks n v ! i)"
  by (simp add: init_ranks_def Let_def nth_list_update gated_rank_init_def)

lemma length_init_ranks [simp]: "length (init_ranks n v) = n"
  by (simp add: init_ranks_def Let_def)

lemma shape_init: "n \<noteq> 0 \<Longrightarrow> gtsu_init n = Some g \<Longrightarrow> gtsu_inv g"
proof -
  assume n: "n \<noteq> 0" and g: "gtsu_init n = Some g"
  have l: "unat n = Suc (unat (n - 1))" using n by (simp add: unat_minus_one unat_gt_0)
  have dc: "drafting_count g = unat (n - 1)" using n g by (auto simp: gtsu_init_def drafting_count_def)
  have sh: "shape g" using n g by (auto simp: gtsu_init_def shape_def)
  have en: "gr_enabled (gt_ranks g ! i) \<longleftrightarrow> i < drafting_count g" and nb: "\<not> gr_busy (gt_ranks g ! i)"
    if "i < length (gt_ranks g)" for i
    using that n g l init_ranks_nth [of i "unat n" "unat (n - 1)"] unfolding dc by (auto simp: gtsu_init_def)
  have "gated g" unfolding gated_def using en by (intro exI [of _ True]) auto
  moreover have "busy_ok g" using nb by (auto simp: busy_ok_def)
  moreover have "queue_ok g" "switch_ok g" using n g by (auto simp: gtsu_init_def queue_ok_def switch_ok_def)
  ultimately show ?thesis using sh by (simp add: gtsu_inv_def)
qed

lemma submit_inv: "gtsu_inv g \<Longrightarrow> (\<And>n. n < grow n) \<Longrightarrow> gtsu_inv (snd (submit_task grow t b c g))"
proof -
  assume i: "gtsu_inv g" and grow: "\<And>n. n < grow n"
  define g' where "g' = snd (submit_task grow t b c g)"
  have same: "gt_ranks g' = gt_ranks g" "gt_num_ranks g' = gt_num_ranks g" "gt_active g' = gt_active g"
    "gt_switching g' = gt_switching g" "drafting_count g' = drafting_count g" "serves g' = serves g"
    "gt_drafting_rank g' = gt_drafting_rank g" "gt_verification_rank g' = gt_verification_rank g"
    "gt_switch_latency g' = gt_switch_latency g"
    by (auto simp: g'_def submit_task_def Let_def drafting_count_def serves_def)
  have q: "gt_pending g \<noteq> [] \<Longrightarrow> hd (gt_pending g') = hd (gt_pending g)" "gt_pending g' \<noteq> []"
    "pend_alloc g \<le> pend_alloc g'"
    by (auto simp: g'_def submit_task_def Let_def)
  have "length (gt_pending g') \<le> pend_capacity g'"
    using i grow [of "pend_capacity g"] by (auto simp: g'_def submit_task_def Let_def gtsu_inv_def queue_ok_def)
  with i q show "gtsu_inv g'"
    unfolding gtsu_inv_def
    by (auto simp: shape_def gated_def busy_ok_def queue_ok_def switch_ok_def same intro: order_trans)
qed

lemma initiate_ranks:
  assumes "shape g" and "i < length (gt_ranks g)"
  shows "gt_ranks (initiate_task_switch t g) ! i
         = set_enabled ((i < drafting_count g) \<noteq> (t = PRE_VERIFICATION)) (gt_ranks g ! i)"
  using assms shape_counts [OF assms(1)] by (auto simp: initiate_task_switch_def set_enabled_def)

lemma initiate_inv:
  assumes "gtsu_inv g" and "gt_active g = None" and "gt_pending g \<noteq> []"
    and t: "t = task_type (hd (gt_pending g))" and "t \<noteq> IDLE"
  shows "gtsu_inv (initiate_task_switch t g)"
proof -
  define g' where "g' = initiate_task_switch t g"
  have sh: "shape g" using assms by (simp add: gtsu_inv_def)
  have same: "gt_num_ranks g' = gt_num_ranks g" "gt_active g' = None" "gt_pending g' = gt_pending g"
    "gt_switching g'" "drafting_count g' = drafting_count g" "serves g' = serves g"
    "length (gt_ranks g') = length (gt_ranks g)" "pend_capacity g' = pend_capacity g"
    "gt_drafting_rank g' = gt_drafting_rank g" "gt_verification_rank g' = gt_verification_rank g"
    "gt_switch_latency g' = gt_switch_latency g"
    using assms by (auto simp: g'_def initiate_task_switch_def drafting_count_def serves_def)
  have r: "gt_ranks g' ! i = set_enabled ((i < drafting_count g) \<noteq> (t = PRE_VERIFICATION)) (gt_ranks g ! i)"
    if "i < length (gt_ranks g)" for i
    using initiate_ranks [OF sh that] by (simp add: g'_def)
  have nb: "\<not> gr_busy (gt_ranks g ! i)" if "i < length (gt_ranks g)" for i
    using assms that by (auto simp: gtsu_inv_def busy_ok_def)
  have "shape g'" using sh by (simp add: shape_def same)
  moreover have "gated g'"
    unfolding gated_def using r by (intro exI [of _ "t \<noteq> PRE_VERIFICATION"]) (auto simp: same)
  moreover have "busy_ok g'" using r nb by (auto simp: busy_ok_def same)
  moreover have "queue_ok g'" using assms by (auto simp: gtsu_inv_def queue_ok_def same)
  moreover have "switch_ok g'"
    using r t assms(5) by (auto simp: switch_ok_def same serves_def split: if_splits)
  ultimately show ?thesis by (simp add: gtsu_inv_def g'_def)
qed

lemma start_ranks:
  assumes "shape g" and "i < length (gt_ranks g)"
  shows "gt_ranks (start_task now t rest g) ! i
         = (if serves g i = task_type t then set_task t (gt_ranks g ! i) else gt_ranks g ! i)"
  using assms shape_counts [OF assms(1)]
  by (auto simp: start_task_def serves_def set_task_def split: pim_task_type.split)

lemma start_inv:
  assumes "gtsu_inv g" and "gt_active g = None" and "\<not> gt_switching g" and p: "gt_pending g = t # rest"
    and en: "\<And>i. i < length (gt_ranks g) \<Longrightarrow> serves g i = task_type t \<Longrightarrow> gr_enabled (gt_ranks g ! i)"
  shows "gtsu_inv (start_task now t rest g)"
proof -
  define g' where "g' = start_task now t rest g"
  have sh: "shape g" using assms by (simp add: gtsu_inv_def)
  have same: "gt_num_ranks g' = gt_num_ranks g" "gt_active g' = Some (pend_alloc g)"
    "gt_pending g' = t\<lparr>task_start_cycle := now\<rparr> # rest" "pend_alloc g' = pend_alloc g"
    "\<not> gt_switching g'" "drafting_count g' = drafting_count g" "serves g' = serves g"
    "length (gt_ranks g') = length (gt_ranks g)" "pend_capacity g' = pend_capacity g"
    "gt_drafting_rank g' = gt_drafting_rank g" "gt_verification_rank g' = gt_verification_rank g"
    "gt_switch_latency g' = gt_switch_latency g"
    using assms by (auto simp: g'_def start_task_def drafting_count_def serves_def split: pim_task_type.split)
  have r: "gt_ranks g' ! i = (if serves g i = task_type t then set_task t (gt_ranks g ! i) else gt_ranks g ! i)"
    if "i < length (gt_ranks g)" for i
    using start_ranks [OF sh that] by (simp add: g'_def)
  have nb: "\<not> gr_busy (gt_ranks g ! i)" if "i < length (gt_ranks g)" for i
    using assms that by (auto simp: gtsu_inv_def busy_ok_def)
  have "shape g'" using sh by (simp add: shape_def same)
  moreover have "gated g'"
  proof -
    have "gr_enabled (gt_ranks g' ! i) = gr_enabled (gt_ranks g ! i)" if "i < length (gt_ranks g)" for i
      using r [OF that] by simp
    then show ?thesis using assms(1) by (auto simp: gtsu_inv_def gated_def same)
  qed
  moreover have "busy_ok g'" using r nb en by (auto simp: busy_ok_def same split: if_splits)
  moreover have "queue_ok g'" using assms by (auto simp: gtsu_inv_def queue_ok_def same)
  moreover have "switch_ok g'" by (simp add: switch_ok_def same)
  ultimately show ?thesis by (simp add: gtsu_inv_def g'_def)
qed


lemma schedule_inv: "gtsu_inv g \<Longrightarrow> gtsu_inv (snd (schedule_next_task now g))"
proof -
  assume i: "gtsu_inv g"
  show ?thesis
  proof (cases "gt_active g = None \<and> \<not> gt_switching g \<and> gt_pending g \<noteq> []")
    case True
    then obtain t rest where p: "gt_pending g = t # rest" by (cases "gt_pending g") auto
    have sh: "shape g" using i by (simp add: gtsu_inv_def)
    show ?thesis
    proof (cases "need_switch (task_type t) g")
      case ns: True
      then have "task_type t \<noteq> IDLE" by (auto simp: need_switch_def)
      with True p ns i show ?thesis by (simp add: schedule_next_task_def initiate_inv)
    next
      case ns: False
      have "gr_enabled (gt_ranks g ! i)" if l: "i < length (gt_ranks g)" and s: "serves g i = task_type t" for i
      proof -
        obtain d where d: "\<And>j. j < length (gt_ranks g) \<Longrightarrow>
            gr_enabled (gt_ranks g ! j) = (if j < drafting_count g then d else \<not> d)"
          using i by (auto simp: gtsu_inv_def gated_def)
        have c: "unat (gt_verification_rank g) = drafting_count g" "length (gt_ranks g) = Suc (drafting_count g)"
          "gt_drafting_rank g = 0"
          using shape_counts [OF sh] sh by (auto simp: shape_def)
        show ?thesis
          using ns s l d [of 0] d [of i] d [of "drafting_count g"] c
          by (auto simp: need_switch_def serves_def split: if_splits pim_task_type.splits)
      qed
      with True p ns i show ?thesis by (simp add: schedule_next_task_def start_inv)
    qed
  next
    case False
    then have "schedule_next_task now g = (False, g)"
      by (auto simp: schedule_next_task_def split: list.splits)
    with i show ?thesis by simp
  qed
qed

lemma update_active_keeps:
  assumes "update_active p g = Some g'"
  shows "gt_ranks g' = map tick_rank (gt_ranks g)" "gt_num_ranks g' = gt_num_ranks g"
    "gt_switching g' = gt_switching g" "pend_alloc g' = pend_alloc g" "pend_capacity g' = pend_capacity g"
    "gt_drafting_rank g' = gt_drafting_rank g" "gt_verification_rank g' = gt_verification_rank g"
    "list_ex worked (gt_ranks g) \<Longrightarrow> gt_active g' = gt_active g \<and> gt_pending g' = gt_pending g"
    "\<not> list_ex worked (gt_ranks g) \<Longrightarrow>
       gt_active g' = None \<and> gt_pending g' = tl (gt_pending g) \<and> p = pend_alloc g"
    "gt_switch_latency g' = gt_switch_latency g"
  using assms by (auto simp: update_active_def Let_def split: if_splits)

lemma update_active_inv:
  assumes "gtsu_inv g" and "gt_active g = Some p" and "update_active p g = Some g'"
  shows "gtsu_inv g'"
proof -
  note k = update_active_keeps [OF assms(3)]
  have dc: "drafting_count g' = drafting_count g" "serves g' = serves g"
    using k by (auto simp: drafting_count_def serves_def)
  have nw: "\<not> worked (gt_ranks g ! i)" if "\<not> list_ex worked (gt_ranks g)" "i < length (gt_ranks g)" for i
    using that by (simp add: list_ex_length)
  have "busy_ok g'"
    unfolding busy_ok_def
  proof (intro allI impI)
    fix i assume i: "i < length (gt_ranks g')" and b: "gr_busy (gt_ranks g' ! i)"
    then have l: "i < length (gt_ranks g)" by (simp add: k(1))
    with b have w: "worked (gt_ranks g ! i)" by (simp add: k(1))
    with l have ex: "list_ex worked (gt_ranks g)" by (auto simp: list_ex_length)
    have bo: "gr_busy (gt_ranks g ! i)" using w by (simp add: worked_def)
    have "busy_ok g" using assms(1) by (simp add: gtsu_inv_def)
    with bo l have "gr_enabled (gt_ranks g ! i)" "gr_task (gt_ranks g ! i) = serves g i"
      "task_type (hd (gt_pending g)) = serves g i"
      by (auto simp: busy_ok_def)
    then show "gt_active g' \<noteq> None \<and> gr_enabled (gt_ranks g' ! i) \<and> gr_task (gt_ranks g' ! i) = serves g' i
        \<and> task_type (hd (gt_pending g')) = serves g' i"
      using k(8) [OF ex] l w assms(2) by (simp add: k(1) dc)
  qed
  moreover have "shape g'" using assms(1) by (simp add: gtsu_inv_def shape_def k(1-7) k(10))
  moreover have "gated g'"
  proof -
    have "gr_enabled (gt_ranks g' ! i) = gr_enabled (gt_ranks g ! i)" if "i < length (gt_ranks g)" for i
      using that by (simp add: k(1))
    moreover have "length (gt_ranks g') = length (gt_ranks g)" by (simp add: k(1))
    moreover have "gated g" using assms(1) by (simp add: gtsu_inv_def)
    ultimately show ?thesis by (simp add: gated_def dc)
  qed
  moreover have q: "queue_ok g" using assms(1) by (simp add: gtsu_inv_def)
  then have ns: "\<not> gt_switching g'" using assms(2) by (simp add: queue_ok_def k(3))
  have "queue_ok g'"
    using q ns k(4,5) k(8,9) assms(2) by (cases "list_ex worked (gt_ranks g)") (auto simp: queue_ok_def)
  moreover have "switch_ok g'" using ns by (simp add: switch_ok_def)
  ultimately show ?thesis by (simp add: gtsu_inv_def)
qed

lemma inv_counters:
  "gtsu_inv (g\<lparr>gt_total_cycles := a\<rparr>) = gtsu_inv g" "gtsu_inv (g\<lparr>gt_idle_cycles := b\<rparr>) = gtsu_inv g"
  "gtsu_inv (g\<lparr>gt_switch_delay := c, gt_overhead_cycles := d\<rparr>) = gtsu_inv g"
  by (simp_all add: gtsu_inv_def shape_def gated_def busy_ok_def queue_ok_def switch_ok_def drafting_count_def
      serves_def)

lemma inv_switch_off:
  assumes "gtsu_inv g" and "gt_switching g"
  shows "gtsu_inv (g\<lparr>gt_switching := False\<rparr>)"
proof -
  have "drafting_count (g\<lparr>gt_switching := False\<rparr>) = drafting_count g" by (simp add: drafting_count_def)
  moreover have "busy_ok (g\<lparr>gt_switching := False\<rparr>)" "queue_ok (g\<lparr>gt_switching := False\<rparr>)"
    using assms by (auto simp: gtsu_inv_def busy_ok_def queue_ok_def)
  moreover have "shape (g\<lparr>gt_switching := False\<rparr>) = shape g" by (simp add: shape_def)
  moreover have "gated (g\<lparr>gt_switching := False\<rparr>) = gated g" by (simp add: gated_def drafting_count_def)
  ultimately show ?thesis
    using assms(1) by (simp add: gtsu_inv_def switch_ok_def)
qed

lemma switch_done_inv:
  assumes "gtsu_inv g" and "gt_switching g" and "gt_pending g = t # rest"
  shows "gtsu_inv (start_task now t rest (g\<lparr>gt_switching := False\<rparr>))"
proof (rule start_inv [OF inv_switch_off])
qed (use assms in \<open>auto simp: gtsu_inv_def queue_ok_def switch_ok_def serves_def drafting_count_def\<close>)

lemma update_inv: "gtsu_inv g \<Longrightarrow> gtsu_update g = Some g' \<Longrightarrow> gtsu_inv g'"
proof -
  assume i: "gtsu_inv g" and u: "gtsu_update g = Some g'"
  define h where "h = g\<lparr>gt_total_cycles := gt_total_cycles g + 1\<rparr>"
  have ih: "gtsu_inv h" using i by (simp add: h_def inv_counters)
  then have ne: "gt_switching h \<Longrightarrow> gt_pending h \<noteq> []" by (auto simp: gtsu_inv_def queue_ok_def)
  from u [unfolded gtsu_update_def, folded h_def] ih ne show ?thesis
    by (auto simp: Let_def inv_counters switch_done_inv update_active_inv split: if_splits option.splits list.splits)
qed

definition grows :: "(nat \<Rightarrow> nat) \<Rightarrow> bool" where
  "grows grow \<longleftrightarrow> (\<forall>n. n < grow n)"

interpretation gtsu: partial_invariant "gtsu_step grow" gtsu_inv "\<lambda>_. grows grow" for grow
  by unfold_locales
    (auto simp: gtsu_step_def grows_def intro: submit_inv schedule_inv update_inv split: gtsu_op.splits)

lemma gtsu_reachable:
  assumes "gtsu_init n = Some g0" and "grows grow" and "run_ops (gtsu_step grow) ops g0 = Some g"
  shows "gtsu_inv g"
proof -
  have "n \<noteq> 0" using assms(1) by (auto simp: gtsu_init_def)
  moreover have "list_all (\<lambda>_. grows grow) ops" using assms(2) by (simp add: list_all_iff)
  ultimately show ?thesis using gtsu.run_keeps shape_init assms by blast
qed

text \<open>C35: from the constructor, any sequence of submissions, scheduling attempts and cycles keeps the gating
  exclusive (no drafting rank is enabled together with the verification rank), only enabled ranks are busy, all
  with the type of the task at the head of the queue; and a cycle is undefined exactly when the active task has
  finished after a submission moved the queue.\<close>

theorem gtsu_exclusive:
  assumes "gtsu_init n = Some g0" and "grows grow" and "run_ops (gtsu_step grow) ops g0 = Some g"
    and "i < length (gt_ranks g)" and "j < length (gt_ranks g)"
  shows "(gr_enabled (gt_ranks g ! i) = gr_enabled (gt_ranks g ! j)) = (serves g i = serves g j)
    \<and> (gr_busy (gt_ranks g ! i) \<longrightarrow> gtsu_is_busy g \<and> gr_enabled (gt_ranks g ! i) \<and> gr_task (gt_ranks g ! i) = serves g i
         \<and> task_type (hd (gt_pending g)) = serves g i)
    \<and> (gtsu_update g = None \<longleftrightarrow>
         gt_active g \<noteq> None \<and> gt_active g \<noteq> Some (pend_alloc g) \<and> \<not> list_ex worked (gt_ranks g))"
proof -
  have i: "gtsu_inv g" using gtsu_reachable assms by blast
  then have "(gr_enabled (gt_ranks g ! i) = gr_enabled (gt_ranks g ! j)) = (serves g i = serves g j)"
    using assms(4,5) by (auto simp: gtsu_inv_def gated_def serves_def)
  moreover have "gr_busy (gt_ranks g ! i) \<longrightarrow> gtsu_is_busy g \<and> gr_enabled (gt_ranks g ! i)
      \<and> gr_task (gt_ranks g ! i) = serves g i \<and> task_type (hd (gt_pending g)) = serves g i"
    using i assms(4) by (auto simp: gtsu_inv_def busy_ok_def gtsu_is_busy_def)
  moreover have "gtsu_update g = None \<longleftrightarrow>
      gt_active g \<noteq> None \<and> gt_active g \<noteq> Some (pend_alloc g) \<and> \<not> list_ex worked (gt_ranks g)"
  proof -
    have "queue_ok g" using i by (simp add: gtsu_inv_def)
    then show ?thesis
      by (cases "gt_active g") (auto simp: queue_ok_def gtsu_update_def update_active_def Let_def split: list.splits)
  qed
  ultimately show ?thesis by blast
qed

section \<open>Every scheduled task completes\<close>

definition task_running :: "gtsu \<Rightarrow> u32 \<Rightarrow> task_descriptor list \<Rightarrow> bool" where
  "task_running g r rest \<longleftrightarrow> gt_active g = Some (pend_alloc g) \<and> \<not> gt_switching g \<and> gt_pending g \<noteq> []
     \<and> tl (gt_pending g) = rest \<and> (\<forall>x \<in> set (gt_ranks g). gr_busy x \<longrightarrow> gr_remaining x = r)"

definition gtsu_idle :: "gtsu \<Rightarrow> task_descriptor list \<Rightarrow> bool" where
  "gtsu_idle g rest \<longleftrightarrow> gt_active g = None \<and> \<not> gt_switching g \<and> gt_pending g = rest"

definition some_busy :: "gtsu \<Rightarrow> bool" where
  "some_busy g \<longleftrightarrow> (\<exists>x \<in> set (gt_ranks g). gr_busy x)"

lemma running_step:
  assumes "task_running g r rest" and "0 < r" and "some_busy g"
  shows "\<exists>g'. gtsu_update g = Some g' \<and> task_running g' (r - 1) rest \<and> some_busy g'"
proof -
  define h where "h = g\<lparr>gt_total_cycles := gt_total_cycles g + 1\<rparr>"
  have ex: "list_ex worked (gt_ranks h)"
    using assms by (auto simp: h_def task_running_def some_busy_def list_ex_iff worked_def)
  then obtain g' where g': "update_active (pend_alloc h) h = Some g'" by (auto simp: update_active_def Let_def)
  note k = update_active_keeps [OF g']
  have "gtsu_update g = Some g'"
    using assms(1) g' by (simp add: gtsu_update_def h_def task_running_def Let_def)
  moreover have "task_running g' (r - 1) rest"
    using assms k(1,3,4) k(8) [OF ex] by (auto simp: task_running_def h_def tick_rank_def)
  moreover have "some_busy g'"
    using ex k(1) by (auto simp: some_busy_def list_ex_iff)
  ultimately show ?thesis by blast
qed

lemma running_end:
  assumes "task_running g r rest" and "r = 0 \<or> \<not> some_busy g"
  shows "\<exists>g'. gtsu_update g = Some g' \<and> gtsu_idle g' rest"
proof -
  have "\<not> list_ex worked (gt_ranks g)"
    using assms by (auto simp: task_running_def some_busy_def list_ex_iff worked_def)
  then show ?thesis
    using assms(1) by (auto simp: gtsu_update_def update_active_def task_running_def gtsu_idle_def Let_def)
qed

abbreviation updates :: "(nat \<Rightarrow> nat) \<Rightarrow> nat \<Rightarrow> gtsu \<Rightarrow> gtsu option" where
  "updates grow k \<equiv> run_ops (gtsu_step grow) (replicate k Update)"

text \<open>The next \<^verbatim>\<open>k\<close> cycles end the task, and it occupies the unit until then.\<close>

definition ends_after :: "(nat \<Rightarrow> nat) \<Rightarrow> nat \<Rightarrow> gtsu \<Rightarrow> task_descriptor list \<Rightarrow> bool" where
  "ends_after grow k g rest \<longleftrightarrow>
     (\<forall>m < k. \<exists>h. updates grow m g = Some h \<and> gtsu_is_busy h) \<and> (\<exists>h. updates grow k g = Some h \<and> gtsu_idle h rest)"

lemma ends_after_Suc:
  assumes "gtsu_is_busy g" and "gtsu_update g = Some g'" and "ends_after grow k g' rest"
  shows "ends_after grow (Suc k) g rest"
proof -
  have "\<exists>h. updates grow m g = Some h \<and> gtsu_is_busy h" if "m < Suc k" for m
    using that assms by (cases m) (auto simp: ends_after_def gtsu_step_def)
  moreover have "\<exists>h. updates grow (Suc k) g = Some h \<and> gtsu_idle h rest"
    using assms by (auto simp: ends_after_def gtsu_step_def)
  ultimately show ?thesis by (simp add: ends_after_def)
qed

lemma idle_ends: "gtsu_idle g rest \<Longrightarrow> ends_after grow 0 g rest"
  by (simp add: ends_after_def)

lemma running_busy: "task_running g r rest \<Longrightarrow> gtsu_is_busy g"
  by (simp add: task_running_def gtsu_is_busy_def)

lemma running_ends:
  "task_running g r rest \<Longrightarrow> some_busy g \<Longrightarrow> ends_after grow (Suc (unat r)) g rest"
proof (induction "unat r" arbitrary: g r)
  case 0
  then have "r = 0" by (metis unat_eq_zero)
  with 0 running_end obtain g' where "gtsu_update g = Some g'" "gtsu_idle g' rest" by blast
  then show ?case using 0 ends_after_Suc [OF running_busy _ idle_ends] by (metis unat_eq_zero)
next
  case (Suc k)
  then have r: "0 < r" by (metis nat.distinct(1) unat_0 word_neq_0_conv)
  with Suc running_step obtain g' where g': "gtsu_update g = Some g'" "task_running g' (r - 1) rest" "some_busy g'"
    by blast
  have k: "k = unat (r - 1)" using Suc(2) r by (simp add: unat_minus_one word_neq_0_conv)
  have "ends_after grow (Suc (unat (r - 1))) g' rest" using Suc(1) [OF k g'(2,3)] by simp
  then show ?case using ends_after_Suc [OF running_busy [OF Suc(3)] g'(1)] Suc(2) k by metis
qed

text \<open>The cycles a task occupies its ranks, and those from scheduling it to its completion.\<close>

definition work_cycles :: "gtsu \<Rightarrow> task_descriptor \<Rightarrow> nat" where
  "work_cycles g t =
     (if task_type t = PRE_VERIFICATION \<or> task_type t = DRAFTING \<and> drafting_count g \<noteq> 0
      then unat (ucast (task_estimated_cycles t) :: u32) else 0)"

definition service_cycles :: "gtsu \<Rightarrow> task_descriptor \<Rightarrow> nat" where
  "service_cycles g t = (if need_switch (task_type t) g then 2 else 0) + Suc (work_cycles g t)"

lemma started_ends:
  assumes "gtsu_inv g" and "gt_active g = None" and "\<not> gt_switching g"
  shows "ends_after grow (Suc (work_cycles g t)) (start_task now t rest g) rest"
proof -
  define h where "h = start_task now t rest g"
  have sh: "shape g" using assms by (simp add: gtsu_inv_def)
  note c = shape_counts [OF sh]
  have len: "length (gt_ranks h) = length (gt_ranks g)"
    by (simp add: h_def start_task_def split: pim_task_type.split)
  have r: "gt_ranks h ! i = (if serves g i = task_type t then set_task t (gt_ranks g ! i) else gt_ranks g ! i)"
    if "i < length (gt_ranks g)" for i
    using start_ranks [OF sh that] by (simp add: h_def)
  have nb: "\<not> gr_busy (gt_ranks g ! i)" if "i < length (gt_ranks g)" for i
    using assms that by (auto simp: gtsu_inv_def busy_ok_def)
  have run: "task_running h (ucast (task_estimated_cycles t)) rest"
    using r nb assms(3) len
    by (auto simp: task_running_def in_set_conv_nth split: if_splits)
      (auto simp: h_def start_task_def)
  show ?thesis
  proof (cases "\<exists>i < length (gt_ranks g). serves g i = task_type t")
    case True
    then obtain i where "i < length (gt_ranks h)" "gr_busy (gt_ranks h ! i)" using r len by auto
    then have "some_busy h" unfolding some_busy_def by (meson nth_mem)
    moreover have "work_cycles g t = unat (ucast (task_estimated_cycles t) :: u32)"
      using True by (auto simp: work_cycles_def serves_def split: if_splits)
    ultimately show ?thesis using running_ends [OF run] by (simp add: h_def)
  next
    case False
    then have nb': "\<not> some_busy h" using r nb len by (auto simp: some_busy_def in_set_conv_nth)
    have "work_cycles g t = 0"
      using False c by (auto simp: work_cycles_def serves_def split: if_splits)
    moreover obtain g' where "gtsu_update h = Some g'" "gtsu_idle g' rest" using running_end [OF run] nb' by blast
    ultimately show ?thesis
      using ends_after_Suc [OF running_busy [OF run] _ idle_ends] by (simp add: h_def)
  qed
qed

text \<open>C36: a task that is scheduled on a free unit completes when only cycles pass until then: after exactly the
  switching cycles its configuration needs, its estimated cycles (truncated to 32 bits; none if the task has no rank)
  and one closing cycle the unit is free and the queue holds the remaining tasks; until then it is busy, and nothing on
  the way is undefined.  A submission meanwhile may move the active task and is excluded
  (\<^verbatim>\<open>submission_moves_active_task\<close>).\<close>

theorem gtsu_task_completes:
  assumes "gtsu_init n = Some g0" and "grows grow" and "run_ops (gtsu_step grow) ops g0 = Some g"
    and "\<not> gtsu_is_busy g" and "gt_pending g = t # rest"
  shows "fst (schedule_next_task now g)
    \<and> ends_after grow (service_cycles g t) (snd (schedule_next_task now g)) rest"
proof -
  have i: "gtsu_inv g" using gtsu_reachable assms by blast
  have nb: "gt_active g = None" "\<not> gt_switching g" using assms(4) by (auto simp: gtsu_is_busy_def)
  show ?thesis
  proof (cases "need_switch (task_type t) g")
    case False
    then show ?thesis
      using assms(5) nb started_ends [OF i nb] by (simp add: schedule_next_task_def service_cycles_def)
  next
    case True
    define h where "h = initiate_task_switch (task_type t) g"
    have "task_type t \<noteq> IDLE" using True by (auto simp: need_switch_def)
    then have ih: "gtsu_inv h" using initiate_inv [OF i nb(1)] assms(5) by (simp add: h_def)
    have "gt_switch_latency g = 1" using i by (simp add: gtsu_inv_def shape_def)
    then have hs: "gt_switching h" "gt_switch_delay h = 1" "gt_pending h = t # rest" "gt_active h = None"
      using assms(5) nb by (simp_all add: h_def initiate_task_switch_def)
    obtain h1 where h1: "gtsu_update h = Some h1" "gt_switching h1" "gt_switch_delay h1 = 0"
      "gt_pending h1 = t # rest" "gt_active h1 = None" "drafting_count h1 = drafting_count g"
      using hs by (simp add: gtsu_update_def Let_def h_def initiate_task_switch_def drafting_count_def)
    then have ih1: "gtsu_inv h1" using update_inv ih by blast
    define h2 where "h2 = h1\<lparr>gt_total_cycles := gt_total_cycles h1 + 1, gt_switching := False\<rparr>"
    have ih2: "gtsu_inv h2" using ih1 h1 by (simp add: h2_def inv_counters inv_switch_off)
    have u: "gtsu_update h1 = Some (start_task (gt_total_cycles h2) t rest h2)"
      using h1 by (simp add: gtsu_update_def Let_def h2_def)
    have "ends_after grow (Suc (work_cycles h2 t)) (start_task (gt_total_cycles h2) t rest h2) rest"
      by (rule started_ends [OF ih2]) (use h1 in \<open>simp_all add: h2_def\<close>)
    moreover have "work_cycles h2 t = work_cycles g t"
      using h1 by (simp add: work_cycles_def h2_def drafting_count_def)
    ultimately have "ends_after grow (Suc (Suc (Suc (work_cycles g t)))) h rest"
      using ends_after_Suc [OF _ h1(1) ends_after_Suc [OF _ u]] hs h1 by (simp add: gtsu_is_busy_def)
    then show ?thesis
      using True assms(5) nb by (simp add: schedule_next_task_def service_cycles_def h_def)
  qed
qed

section \<open>Concrete runs\<close>

definition two_ranks :: gtsu where
  "two_ranks = the (gtsu_init 2)"

lemma two_ranks: "gtsu_init 2 = Some two_ranks"
  by (simp add: two_ranks_def gtsu_init_def)

lemma grows_Suc: "grows Suc"
  by (simp add: grows_def)

text \<open>A submission while a task is active may move the queue; finishing the task is then undefined.\<close>

lemma submission_moves_active_task:
  "run_ops (gtsu_step Suc) [Submit DRAFTING 1 1, Schedule 0, Submit DRAFTING 1 1, Update, Update] two_ranks = None"
  by code_simp

lemma utilization_exceeds_one:
  "map_option gtsu_utilization
     (run_ops (gtsu_step Suc) [Submit DRAFTING 1 2, Schedule 0, Update, Update] (the (gtsu_init 3))) = Some (FFin 2)"
  by code_simp

theorem gtsu_exclusive_witness:
  "\<exists>g. run_ops (gtsu_step Suc) [Submit PRE_VERIFICATION 1 5, Schedule 0, Update, Update, Update] two_ranks = Some g
     \<and> gr_enabled (gt_ranks g ! 1) \<and> \<not> gr_enabled (gt_ranks g ! 0) \<and> gtsu_update g \<noteq> None"
proof -
  define ops where "ops = [Submit PRE_VERIFICATION 1 5, Schedule 0, Update, Update, Update]"
  obtain g where g: "run_ops (gtsu_step Suc) ops two_ranks = Some g"
    and v: "length (gt_ranks g) = 2" "gr_enabled (gt_ranks g ! 1)" "list_ex worked (gt_ranks g)" "drafting_count g = 1"
  proof -
    have "case run_ops (gtsu_step Suc) ops two_ranks of None \<Rightarrow> False
      | Some g \<Rightarrow> length (gt_ranks g) = 2 \<and> gr_enabled (gt_ranks g ! 1) \<and> list_ex worked (gt_ranks g)
          \<and> drafting_count g = 1"
      unfolding ops_def by code_simp
    then show ?thesis using that by (auto split: option.splits)
  qed
  have "(gr_enabled (gt_ranks g ! 0) = gr_enabled (gt_ranks g ! 1)) = (serves g 0 = serves g 1)"
    and "gtsu_update g \<noteq> None"
    using gtsu_exclusive [OF two_ranks grows_Suc g, of 0 1] v by simp_all
  with v g show ?thesis by (auto simp: ops_def serves_def)
qed

theorem gtsu_task_completes_witness:
  "\<exists>g. run_ops (gtsu_step Suc) [Submit PRE_VERIFICATION 1 5] two_ranks = Some g
     \<and> ends_after Suc 8 (snd (schedule_next_task 0 g)) []"
proof -
  obtain g t where g: "run_ops (gtsu_step Suc) [Submit PRE_VERIFICATION 1 5] two_ranks = Some g"
    and p: "gt_pending g = [t]" "\<not> gtsu_is_busy g" "service_cycles g t = 8"
  proof -
    have "case run_ops (gtsu_step Suc) [Submit PRE_VERIFICATION 1 5] two_ranks of None \<Rightarrow> False
      | Some g \<Rightarrow> length (gt_pending g) = 1 \<and> \<not> gtsu_is_busy g \<and> service_cycles g (hd (gt_pending g)) = 8"
      by code_simp
    then show ?thesis using that by (auto simp: length_Suc_conv split: option.splits)
  qed
  show ?thesis
    using gtsu_task_completes [OF two_ranks grows_Suc g p(2,1), of 0] g p(3) by auto
qed

end
