(* ===== verification/AAUnit.thy ===== *)
theory AAUnit
  imports Floats
begin

text \<open>
  The attention algorithm unit of a PIM rank: \<^verbatim>\<open>AAU\<close> of \<^verbatim>\<open>PIMSimulator/src/AAU.h\<close>, its timing and
  its functional interface.  The functions of the C mathematics library are the fields of a record \<^verbatim>\<open>libm\<close>, on
  which nothing is assumed except, for the timing of reductions, what \<^verbatim>\<open>log2\<close> returns on 32-bit integers.
  \<^verbatim>\<open>current_op_\<close> is \<^const>\<open>None\<close> until an operation starts.
\<close>

section \<open>Data\<close>

datatype aau_operation = GELU | SOFTMAX | LAYERNORM | ATTENTION_SCORE | REDUCTION_SUM | REDUCTION_MAX

record libm =
  m_expf :: "fp \<Rightarrow> fp"
  m_tanhf :: "fp \<Rightarrow> fp"
  m_sqrtf :: "fp \<Rightarrow> fp"
  m_log2 :: "fp \<Rightarrow> fp"

record aau_config =
  vector_width :: u32
  pipeline_stages :: u32
  throughput_gops :: fp
  latency_cycles :: u32

definition aau_config_default :: aau_config where
  "aau_config_default =
     \<lparr>vector_width = 16, pipeline_stages = 4, throughput_gops = flit b32 (25 / 10), latency_cycles = 8\<rparr>"

record aau =
  aau_cfg :: aau_config
  aau_total_operations :: u64
  aau_gelu_ops :: u64
  aau_softmax_ops :: u64
  aau_layernorm_ops :: u64
  aau_attention_ops :: u64
  aau_reduction_ops :: u64
  aau_total_cycles :: u64
  aau_busy :: bool
  aau_remaining :: u32
  aau_current_op :: "aau_operation option"
  aau_energy :: fp

definition aau_init :: "aau_config \<Rightarrow> aau" where
  "aau_init cfg =
     \<lparr>aau_cfg = cfg, aau_total_operations = 0, aau_gelu_ops = 0, aau_softmax_ops = 0, aau_layernorm_ops = 0,
      aau_attention_ops = 0, aau_reduction_ops = 0, aau_total_cycles = 0, aau_busy = False, aau_remaining = 0,
      aau_current_op = None, aau_energy = FFin 0\<rparr>"

section \<open>Timing\<close>

definition vector_cycles :: "aau_config \<Rightarrow> u32 \<Rightarrow> u32" where
  "vector_cycles cfg n = (n + vector_width cfg - 1) div vector_width cfg"

text \<open>Charging \<^verbatim>\<open>num_elements * c\<close>, computed in double precision.\<close>

definition add_energy :: "rat \<Rightarrow> u32 \<Rightarrow> aau \<Rightarrow> aau" where
  "add_energy c n a = a\<lparr>aau_energy := fadd b64 (aau_energy a) (fmul b64 (du64 n) (flit b64 c))\<rparr>"

text \<open>The cycles an operation takes; \<^const>\<open>None\<close> where the cast of the logarithm is undefined (and, for a zero
  vector width, the division).\<close>

definition operation_cycles :: "libm \<Rightarrow> aau_config \<Rightarrow> aau_operation \<Rightarrow> u32 \<Rightarrow> u32 option" where
  "operation_cycles lm cfg op n =
     (if vector_width cfg = 0 then None
      else case op of
        GELU \<Rightarrow> Some (latency_cycles cfg + vector_cycles cfg n * 2)
      | SOFTMAX \<Rightarrow> Some (latency_cycles cfg + vector_cycles cfg n * 3)
      | LAYERNORM \<Rightarrow> Some (latency_cycles cfg + vector_cycles cfg n * 3)
      | ATTENTION_SCORE \<Rightarrow> Some (latency_cycles cfg + vector_cycles cfg n * 4)
      | _ \<Rightarrow> (case fcast (2 ^ 32) (m_log2 lm (du64 n)) of
               None \<Rightarrow> None
             | Some k \<Rightarrow> Some (latency_cycles cfg + of_nat k + 1)))"

fun count_operation :: "aau_operation \<Rightarrow> u32 \<Rightarrow> aau \<Rightarrow> aau" where
  "count_operation GELU n a = add_energy (8 / 10) n (a\<lparr>aau_gelu_ops := aau_gelu_ops a + 1\<rparr>)"
| "count_operation SOFTMAX n a = add_energy (12 / 10) n (a\<lparr>aau_softmax_ops := aau_softmax_ops a + 1\<rparr>)"
| "count_operation LAYERNORM n a = add_energy 1 n (a\<lparr>aau_layernorm_ops := aau_layernorm_ops a + 1\<rparr>)"
| "count_operation ATTENTION_SCORE n a = add_energy (15 / 10) n (a\<lparr>aau_attention_ops := aau_attention_ops a + 1\<rparr>)"
| "count_operation REDUCTION_SUM n a = add_energy (3 / 10) n (a\<lparr>aau_reduction_ops := aau_reduction_ops a + 1\<rparr>)"
| "count_operation REDUCTION_MAX n a = add_energy (3 / 10) n (a\<lparr>aau_reduction_ops := aau_reduction_ops a + 1\<rparr>)"

definition start_operation :: "libm \<Rightarrow> aau_operation \<Rightarrow> u32 \<Rightarrow> aau \<Rightarrow> (u32 \<times> aau) option" where
  "start_operation lm op n a =
     (if aau_busy a then Some (0, a)
      else case operation_cycles lm (aau_cfg a) op n of
        None \<Rightarrow> None
      | Some c \<Rightarrow> Some (c, count_operation op n
          (a\<lparr>aau_total_operations := aau_total_operations a + 1, aau_busy := True, aau_remaining := c,
             aau_current_op := Some op\<rparr>)))"

definition aau_update :: "aau \<Rightarrow> aau" where
  "aau_update a =
     (if aau_busy a \<and> 0 < aau_remaining a
      then a\<lparr>aau_total_cycles := aau_total_cycles a + 1, aau_busy := aau_remaining a - 1 \<noteq> 0,
             aau_remaining := aau_remaining a - 1\<rparr>
      else a)"

definition aau_available :: "aau \<Rightarrow> bool" where
  "aau_available a \<longleftrightarrow> \<not> aau_busy a"

definition aau_utilization :: "u64 \<Rightarrow> aau \<Rightarrow> fp" where
  "aau_utilization cycles a =
     (if cycles = 0 then FFin 0 else fdiv b64 (du64 (aau_total_cycles a)) (du64 cycles))"

section \<open>Functional interface\<close>

definition compute_gelu :: "libm \<Rightarrow> fp \<Rightarrow> fp" where
  "compute_gelu lm x =
     (let c = flit b32 (797885 / 1000000); a = flit b32 (44715 / 1000000);
          x3 = fmul b32 (fmul b32 x x) x;
          inner = fmul b32 c (fadd b32 x (fmul b32 a x3)) in
      fmul b32 (fmul b32 (FFin (1 / 2)) x) (fadd b32 (FFin 1) (m_tanhf lm inner)))"

definition list_max :: "fp \<Rightarrow> fp list \<Rightarrow> fp" where
  "list_max m vs = foldl (\<lambda>m v. if flt m v then v else m) m vs"

definition list_sum :: "fp list \<Rightarrow> fp" where
  "list_sum vs = foldl (fadd b32) (FFin 0) vs"

text \<open>The softmax reads the first element before it loops.\<close>

definition compute_softmax :: "libm \<Rightarrow> fp list \<Rightarrow> fp list option" where
  "compute_softmax lm vs =
     (case vs of
        [] \<Rightarrow> None
      | v # _ \<Rightarrow>
          let max_val = list_max v vs;
              es = map (\<lambda>v. m_expf lm (fsub b32 v max_val)) vs in
          Some (map (\<lambda>e. fdiv b32 e (list_sum es)) es))"

definition compute_layernorm :: "libm \<Rightarrow> fp \<Rightarrow> fp list \<Rightarrow> fp list" where
  "compute_layernorm lm eps vs =
     (let n = flit b32 (of_nat (length vs));
          mean = fdiv b32 (list_sum vs) n;
          variance = fdiv b32 (foldl (\<lambda>s v. let d = fsub b32 v mean in fadd b32 s (fmul b32 d d)) (FFin 0) vs) n;
          std_dev = m_sqrtf lm (fadd b32 variance eps) in
      map (\<lambda>v. fdiv b32 (fsub b32 v mean) std_dev) vs)"

definition execute_gelu :: "libm \<Rightarrow> fp list \<Rightarrow> fp list" where
  "execute_gelu lm vs = map (compute_gelu lm) vs"

definition execute_layernorm :: "libm \<Rightarrow> fp list \<Rightarrow> fp list" where
  "execute_layernorm lm vs = compute_layernorm lm (flit b32 (1 / 100000)) vs"

definition execute_reduction_sum :: "fp list \<Rightarrow> fp" where
  "execute_reduction_sum vs = list_sum vs"

definition execute_reduction_max :: "fp list \<Rightarrow> fp" where
  "execute_reduction_max vs = (case vs of [] \<Rightarrow> FFin 0 | v # _ \<Rightarrow> list_max v vs)"


section \<open>An operation runs for exactly its latency\<close>

text \<open>The latency of an operation over the natural numbers: the base latency and a number of passes over the
  vectors the elements fill, or a tree of reductions.\<close>

fun latency :: "aau_config \<Rightarrow> aau_operation \<Rightarrow> nat \<Rightarrow> nat \<Rightarrow> nat" where
  "latency cfg GELU k n = unat (latency_cycles cfg) + (n + unat (vector_width cfg) - 1) div unat (vector_width cfg) * 2"
| "latency cfg SOFTMAX k n = unat (latency_cycles cfg) + (n + unat (vector_width cfg) - 1) div unat (vector_width cfg) * 3"
| "latency cfg LAYERNORM k n = unat (latency_cycles cfg) + (n + unat (vector_width cfg) - 1) div unat (vector_width cfg) * 3"
| "latency cfg ATTENTION_SCORE k n = unat (latency_cycles cfg) + (n + unat (vector_width cfg) - 1) div unat (vector_width cfg) * 4"
| "latency cfg REDUCTION_SUM k n = unat (latency_cycles cfg) + k + 1"
| "latency cfg REDUCTION_MAX k n = unat (latency_cycles cfg) + k + 1"

text \<open>The documented behaviour of \<^verbatim>\<open>log2\<close>: truncated, it is the exponent of the leading bit.\<close>

definition log2_ok :: "libm \<Rightarrow> bool" where
  "log2_ok lm \<longleftrightarrow> (\<forall>k n. 2 ^ k \<le> n \<and> n < 2 ^ Suc k \<and> n < 2 ^ 32 \<longrightarrow>
     fcast (2 ^ 32) (m_log2 lm (flit b64 (of_nat n))) = Some k)"

lemma unat_vector_cycles:
  assumes "0 < vector_width cfg" and "unat n + unat (vector_width cfg) \<le> 2 ^ 32"
  shows "unat (vector_cycles cfg n) = (unat n + unat (vector_width cfg) - 1) div unat (vector_width cfg)"
proof -
  have w: "0 < unat (vector_width cfg)" using assms(1) by (simp add: unat_gt_0 word_gt_0)
  have "n + vector_width cfg - 1 = of_nat (unat n + unat (vector_width cfg) - 1)"
    using w by (simp add: of_nat_diff)
  moreover have "unat n + unat (vector_width cfg) - 1 < 2 ^ 32" using assms(2) w by linarith
  ultimately have "unat (n + vector_width cfg - 1) = unat n + unat (vector_width cfg) - 1"
    by (simp add: unat_of_nat_small)
  then show ?thesis by (simp add: vector_cycles_def unat_div)
qed

lemma word_of_unat_eq: "unat (c :: u32) = m \<Longrightarrow> c = of_nat m"
  by auto

lemma operation_cycles_latency:
  assumes "log2_ok lm" and "0 < vector_width cfg" and "unat n + unat (vector_width cfg) \<le> 2 ^ 32"
    and k: "2 ^ k \<le> unat n" "unat n < 2 ^ Suc k" 
  shows "operation_cycles lm cfg op n = Some (of_nat (latency cfg op k (unat n)))"
proof -
  have "unat n < 2 ^ 32" using unsigned_less [of n, where 'a = nat] by simp
  then have l: "fcast (2 ^ 32) (m_log2 lm (du64 n)) = Some k" using assms(1) k unfolding log2_ok_def by blast
  have v: "vector_cycles cfg n = of_nat ((unat n + unat (vector_width cfg) - 1) div unat (vector_width cfg))"
    using unat_vector_cycles [OF assms(2,3)] by (rule word_of_unat_eq)
  have "vector_width cfg \<noteq> 0" using assms(2) by auto
  with l v show ?thesis by (cases op) (simp_all add: operation_cycles_def)
qed

definition working :: "u32 \<Rightarrow> aau \<Rightarrow> bool" where
  "working c a \<longleftrightarrow> aau_busy a \<and> aau_remaining a = c"

lemma working_updates:
  "working c a \<Longrightarrow> 0 < c \<Longrightarrow>
   (\<forall>m < unat c. aau_busy ((aau_update ^^ m) a)) \<and> aau_available ((aau_update ^^ unat c) a)
   \<and> aau_total_cycles ((aau_update ^^ unat c) a) = aau_total_cycles a + of_nat (unat c)"
proof (induction "unat c" arbitrary: c a)
  case 0
  then show ?case by (simp add: word_gt_0 unat_eq_zero)
next
  case (Suc k)
  then have k: "k = unat (c - 1)" by (simp add: unat_minus_one word_gt_0)
  have u: "aau_total_cycles (aau_update a) = aau_total_cycles a + 1" "aau_remaining (aau_update a) = c - 1"
    "aau_busy (aau_update a) \<longleftrightarrow> c - 1 \<noteq> 0"
    using Suc(3,4) by (simp_all add: aau_update_def working_def)
  have c: "unat c = Suc (unat (c - 1))" using Suc(2) k by simp
  show ?case
  proof (cases "c - 1 = 0")
    case True
    then have "c = 1" by simp
    with u Suc(3) show ?thesis by (simp add: working_def aau_available_def)
  next
    case False
    then have "working (c - 1) (aau_update a)" "0 < c - 1" using u by (simp_all add: working_def word_gt_0)
    then have ih: "(\<forall>m < unat (c - 1). aau_busy ((aau_update ^^ m) (aau_update a)))
        \<and> aau_available ((aau_update ^^ unat (c - 1)) (aau_update a))
        \<and> aau_total_cycles ((aau_update ^^ unat (c - 1)) (aau_update a))
          = aau_total_cycles (aau_update a) + of_nat (unat (c - 1))"
      using Suc(1) [OF k] by blast
    have "aau_busy ((aau_update ^^ m) a)" if "m < unat c" for m
      using that ih c Suc(3) by (cases m) (auto simp: funpow_Suc_right working_def simp del: funpow.simps)
    with ih u show ?thesis unfolding c by (simp add: funpow_Suc_right del: funpow.simps)
  qed
qed

lemma count_operation_keeps:
  "aau_busy (count_operation op n a) = aau_busy a" "aau_remaining (count_operation op n a) = aau_remaining a"
  "aau_total_cycles (count_operation op n a) = aau_total_cycles a"
  by (cases op; simp add: add_energy_def)+

text \<open>An operation on a free unit is defined, takes exactly the latency of its kind and size, is answered with
  that latency, keeps the unit busy (further operations are refused without effect) for exactly that many cycles
  and frees it afterwards.\<close>

theorem aau_operation_completes:
  assumes "log2_ok lm" and "aau_available a" and "0 < vector_width (aau_cfg a)"
    and "unat n + unat (vector_width (aau_cfg a)) \<le> 2 ^ 32" and "2 ^ k \<le> unat n" and "unat n < 2 ^ Suc k"
    and "latency (aau_cfg a) op k (unat n) < 2 ^ 32"
  shows "case start_operation lm op n a of None \<Rightarrow> False | Some (c, a') \<Rightarrow>
      unat c = latency (aau_cfg a) op k (unat n) \<and> 0 < c
      \<and> start_operation lm op' n' a' = Some (0, a')
      \<and> (\<forall>m < unat c. aau_busy ((aau_update ^^ m) a')) \<and> aau_available ((aau_update ^^ unat c) a')
      \<and> aau_total_cycles ((aau_update ^^ unat c) a') = aau_total_cycles a + of_nat (unat c)"
proof -
  define c where "c = (of_nat (latency (aau_cfg a) op k (unat n)) :: u32)"
  define a' where "a' = count_operation op n
    (a\<lparr>aau_total_operations := aau_total_operations a + 1, aau_busy := True, aau_remaining := c,
       aau_current_op := Some op\<rparr>)"
  have s: "start_operation lm op n a = Some (c, a')"
    using operation_cycles_latency [OF assms(1,3,4,5,6)] assms(2)
    by (simp add: start_operation_def aau_available_def c_def a'_def)
  have uc: "unat c = latency (aau_cfg a) op k (unat n)" using assms(7) by (simp add: c_def unat_of_nat_small)
  have w: "0 < unat (vector_width (aau_cfg a))" using assms(3) by (simp add: word_gt_0 unat_gt_0)
  have "0 < unat n" using assms(5) by (metis gr0I not_exp_less_eq_0_int less_le_trans zero_less_numeral zero_less_power)
  then have "1 \<le> (unat n + unat (vector_width (aau_cfg a)) - 1) div unat (vector_width (aau_cfg a))"
    using w by (simp add: div_greater_zero_iff Suc_leI)
  then have "0 < latency (aau_cfg a) op k (unat n)" by (cases op) auto
  then have c: "0 < c" using uc by (metis unat_gt_0 word_gt_0)
  have "working c a'" by (simp add: a'_def working_def count_operation_keeps)
  from working_updates [OF this c] have u: "(\<forall>m < unat c. aau_busy ((aau_update ^^ m) a'))"
    "aau_available ((aau_update ^^ unat c) a')"
    "aau_total_cycles ((aau_update ^^ unat c) a') = aau_total_cycles a' + of_nat (unat c)" by blast+
  have "aau_busy a'" "aau_total_cycles a' = aau_total_cycles a" by (simp_all add: a'_def count_operation_keeps)
  then have "start_operation lm op' n' a' = Some (0, a')" by (simp add: start_operation_def)
  with uc c u \<open>aau_total_cycles a' = aau_total_cycles a\<close> show ?thesis
    unfolding s option.case prod.case by metis
qed

text \<open>An implementation of \<^verbatim>\<open>log2\<close> that behaves as documented: integers below \<^verbatim>\<open>2^32\<close> are represented
  exactly.\<close>

lemma flit_exact:
  assumes "0 < n" and "n < 2 ^ 32"
  shows "flit b64 (of_nat n) = FFin (of_nat n)"
proof -
  define e where "e = fexp b64 (of_nat n)"
  have "pow2 (ilog2 (of_nat n)) \<le> of_nat n" using assms ilog2_bounds(1) [of "of_nat n"] by simp
  also have "(of_nat n :: rat) < pow2 32"
    using assms(2) by (simp add: pow2_def)
  finally have "ilog2 (of_nat n) < 32" by (rule pow2_strict)
  then have e: "e \<le> 0" by (simp add: e_def fexp_def)
  have "(of_nat n :: rat) = of_int (int n * 2 ^ nat (- e)) * pow2 e"
    using e by (auto simp: pow2_def)
  then have "representable b64 (of_nat n)" unfolding e_def by (rule representableI)
  then have "rnd b64 (of_nat n) = of_nat n" using assms(1) by (simp add: rnd_def rnd_pos_representable)
  moreover have "n \<le> 2 ^ 64" using assms(2) by simp
  ultimately show ?thesis using flit_nat by simp
qed

definition exact_log2 :: "fp \<Rightarrow> fp" where
  "exact_log2 x = (case x of FFin r \<Rightarrow> if 0 < r then FFin (of_int (ilog2 r)) else FInf True | _ \<Rightarrow> FNaN)"

definition exact_libm :: libm where
  "exact_libm = \<lparr>m_expf = id, m_tanhf = id, m_sqrtf = id, m_log2 = exact_log2\<rparr>"

lemma exact_libm: "log2_ok exact_libm"
  unfolding log2_ok_def
proof (intro allI impI)
  fix k n :: nat
  assume a: "2 ^ k \<le> n \<and> n < 2 ^ Suc k \<and> n < 2 ^ 32"
  then have n: "0 < n" by (metis gr0I not_less_zero le_zero_eq power_not_zero zero_neq_numeral)
  have b: "pow2 (ilog2 (of_nat n)) \<le> of_nat n" "of_nat n < pow2 (ilog2 (of_nat n) + 1)"
    using ilog2_bounds [of "of_nat n"] n by simp_all
  have p: "(pow2 (int j) :: rat) = of_nat (2 ^ j)" for j by (simp add: pow2_def)
  have "pow2 (int k) \<le> of_nat n" "of_nat n < pow2 (int (Suc k))"
    using a by (simp_all only: p of_nat_le_iff of_nat_less_iff)
  with b have "pow2 (ilog2 (of_nat n)) < pow2 (int (Suc k))" "pow2 (int k) < pow2 (ilog2 (of_nat n) + 1)"
    by linarith+
  then have l: "ilog2 (of_nat n) = int k" by (auto dest!: pow2_strict)
  have "k < 32"
  proof (rule ccontr)
    assume "\<not> k < 32"
    then have "2 ^ 32 \<le> (2 ^ k :: nat)" by (intro power_increasing) auto
    with a show False by linarith
  qed
  then show "fcast (2 ^ 32) (m_log2 exact_libm (flit b64 (of_nat n))) = Some k"
    using a n l by (simp add: exact_libm_def flit_exact exact_log2_def)
qed

theorem aau_operation_completes_witness:
  "case start_operation exact_libm SOFTMAX 100 (aau_init aau_config_default) of None \<Rightarrow> False
   | Some (c, a') \<Rightarrow> unat c = 29 \<and> aau_available ((aau_update ^^ 29) a')"
proof -
  have "case start_operation exact_libm SOFTMAX 100 (aau_init aau_config_default) of None \<Rightarrow> False
    | Some (c, a') \<Rightarrow> unat c = latency (aau_cfg (aau_init aau_config_default)) SOFTMAX 6 (unat (100 :: u32)) \<and> 0 < c
      \<and> start_operation exact_libm GELU 1 a' = Some (0, a')
      \<and> (\<forall>m < unat c. aau_busy ((aau_update ^^ m) a')) \<and> aau_available ((aau_update ^^ unat c) a')
      \<and> aau_total_cycles ((aau_update ^^ unat c) a')
        = aau_total_cycles (aau_init aau_config_default) + of_nat (unat c)"
    by (rule aau_operation_completes [OF exact_libm])
      (simp_all add: aau_init_def aau_config_default_def aau_available_def)
  then show ?thesis by (auto simp: aau_init_def aau_config_default_def split: option.splits)
qed

text \<open>A reduction of no elements casts the logarithm of zero, which is undefined; and a configuration without
  latency never frees the unit after an operation on no elements.\<close>

lemma empty_reduction_undefined:
  "start_operation exact_libm REDUCTION_SUM 0 (aau_init aau_config_default) = None"
  by (simp add: start_operation_def operation_cycles_def aau_init_def aau_config_default_def exact_libm_def
      exact_log2_def)

lemma zero_latency_busy_forever:
  assumes "latency_cycles cfg = 0" and "vector_width cfg = 16"
  shows "\<exists>a'. start_operation lm GELU 0 (aau_init cfg) = Some (0, a') \<and> (\<forall>m. aau_busy ((aau_update ^^ m) a'))"
proof -
  obtain a' where a': "start_operation lm GELU 0 (aau_init cfg) = Some (0, a')" "aau_busy a'" "aau_remaining a' = 0"
    using assms
    by (simp add: start_operation_def aau_init_def operation_cycles_def vector_cycles_def count_operation_keeps
        add_energy_def)
  have "aau_busy ((aau_update ^^ m) a') \<and> aau_remaining ((aau_update ^^ m) a') = 0" for m
    by (induction m) (simp_all add: a' aau_update_def)
  with a'(1) show ?thesis by blast
qed

text \<open>The maximum of a list of numbers is one of them and none is larger.\<close>

lemma foldl_max:
  "list_all (\<lambda>v. \<exists>r. v = FFin r) vs \<Longrightarrow>
   \<exists>r. list_max (FFin m) vs = FFin r \<and> FFin r \<in> insert (FFin m) (set vs) \<and> m \<le> r
     \<and> (\<forall>v \<in> set vs. fle v (FFin r))"
proof (induction vs arbitrary: m)
  case (Cons v vs)
  then obtain x where v: "v = FFin x" by auto
  have "\<exists>r. list_max (FFin (max m x)) vs = FFin r \<and> FFin r \<in> insert (FFin (max m x)) (set vs) \<and> max m x \<le> r
     \<and> (\<forall>v \<in> set vs. fle v (FFin r))"
    using Cons.IH [of "max m x"] Cons.prems by (simp del: max.bounded_iff)
  moreover have "list_max (FFin m) (v # vs) = list_max (FFin (max m x)) vs"
    by (simp add: list_max_def v max_def not_less)
  ultimately show ?case by (auto simp: v max_def split: if_splits)
qed (simp add: list_max_def)

lemma reduction_max:
  assumes "vs \<noteq> []" and "list_all (\<lambda>v. \<exists>r. v = FFin r) vs"
  shows "execute_reduction_max vs \<in> set vs \<and> (\<forall>v \<in> set vs. fle v (execute_reduction_max vs))"
proof -
  obtain x ws where vs: "vs = FFin x # ws" using assms by (cases vs) auto
  then show ?thesis using foldl_max [of vs x] assms(2) by (auto simp: execute_reduction_max_def)
qed

end
