(* ===== verification/PimAhasd.thy ===== *)
theory PimAhasd
  imports GatedSched AAUnit
begin

text \<open>
  The extensions of a PIM rank: the part of \<^verbatim>\<open>PIMRank\<close> (\<^verbatim>\<open>PIMSimulator/src/PIMRank.cpp\<close>) that owns an
  attention unit and a gated task scheduler.  The two pointers are null until \<^verbatim>\<open>initializeAHASD\<close>.
\<close>

record pim_ahasd =
  ah_aau :: "aau option"
  ah_gtsu :: "gtsu option"
  ah_drafting_ops :: u64
  ah_preverify_ops :: u64
  ah_aau_invocations :: u64
  ah_clock :: u64

definition ahasd_unit_init :: pim_ahasd where
  "ahasd_unit_init =
     \<lparr>ah_aau = None, ah_gtsu = None, ah_drafting_ops = 0, ah_preverify_ops = 0, ah_aau_invocations = 0, ah_clock = 0\<rparr>"

definition initialize_ahasd :: "u32 \<Rightarrow> pim_ahasd \<Rightarrow> pim_ahasd option" where
  "initialize_ahasd n h0 =
     (let h = (case ah_aau h0 of
                 None \<Rightarrow> h0\<lparr>ah_aau := Some (aau_init (aau_config_default\<lparr>vector_width := 16, pipeline_stages := 4,
                            throughput_gops := flit b32 (25 / 10), latency_cycles := 8\<rparr>))\<rparr>
               | Some _ \<Rightarrow> h0) in
      case ah_gtsu h of
        None \<Rightarrow> map_option (\<lambda>g. h\<lparr>ah_gtsu := Some g\<rparr>) (gtsu_init n)
      | Some _ \<Rightarrow> Some h)"

definition update_ahasd :: "pim_ahasd \<Rightarrow> pim_ahasd option" where
  "update_ahasd h0 =
     (let h = h0\<lparr>ah_aau := map_option aau_update (ah_aau h0)\<rparr> in
      case ah_gtsu h of
        None \<Rightarrow> Some h
      | Some g \<Rightarrow> map_option (\<lambda>g. h\<lparr>ah_gtsu := Some (if gtsu_is_busy g then g
                                                     else snd (schedule_next_task (ah_clock h) g))\<rparr>) (gtsu_update g))"

definition execute_aau_operation :: "libm \<Rightarrow> aau_operation \<Rightarrow> u32 \<Rightarrow> pim_ahasd \<Rightarrow> pim_ahasd option" where
  "execute_aau_operation lm op n h =
     (case ah_aau h of
        None \<Rightarrow> Some h
      | Some a \<Rightarrow>
          if aau_available a
          then map_option (\<lambda>(_, a'). h\<lparr>ah_aau := Some a', ah_aau_invocations := ah_aau_invocations h + 1\<rparr>)
                 (start_operation lm op n a)
          else Some h)"

text \<open>Submitting a task, if there is a scheduler and room in its queue.\<close>

definition start_drafting_task :: "(nat \<Rightarrow> nat) \<Rightarrow> u32 \<Rightarrow> u64 \<Rightarrow> pim_ahasd \<Rightarrow> bool \<times> pim_ahasd" where
  "start_drafting_task grow batch cycles h =
     (case ah_gtsu h of
        None \<Rightarrow> (False, h)
      | Some g \<Rightarrow>
          if can_accept_task g
          then let (ok, g') = submit_task grow DRAFTING batch cycles g in
               (ok, h\<lparr>ah_gtsu := Some g', ah_drafting_ops := (if ok then ah_drafting_ops h + 1 else ah_drafting_ops h)\<rparr>)
          else (False, h))"

definition start_preverification_task :: "(nat \<Rightarrow> nat) \<Rightarrow> u32 \<Rightarrow> u64 \<Rightarrow> pim_ahasd \<Rightarrow> bool \<times> pim_ahasd" where
  "start_preverification_task grow batch cycles h =
     (case ah_gtsu h of
        None \<Rightarrow> (False, h)
      | Some g \<Rightarrow>
          if can_accept_task g
          then let (ok, g') = submit_task grow PRE_VERIFICATION batch cycles g in
               (ok, h\<lparr>ah_gtsu := Some g', ah_preverify_ops := (if ok then ah_preverify_ops h + 1 else ah_preverify_ops h)\<rparr>)
          else (False, h))"

definition queue_bounded :: "pim_ahasd \<Rightarrow> bool" where
  "queue_bounded h \<longleftrightarrow> (case ah_gtsu h of None \<Rightarrow> True | Some g \<Rightarrow> gtsu_inv g \<and> length (gt_pending g) \<le> 8)"

text \<open>The tasks are submitted through the depth check only, so the queue never holds more than eight.\<close>

lemma submit_one: "length (gt_pending (snd (submit_task grow t b c g))) = Suc (length (gt_pending g))"
  by (simp add: submit_task_def Let_def)

lemma submit_bounded:
  assumes "queue_bounded h" and "grows grow"
  shows "queue_bounded (snd (start_drafting_task grow b c h))" "queue_bounded (snd (start_preverification_task grow b c h))"
  using assms submit_inv [of _ grow] submit_one [of grow]
  by (auto simp: queue_bounded_def start_drafting_task_def start_preverification_task_def can_accept_task_def
      grows_def case_prod_beta split: option.splits)

end
