(* ===== verification/DramRank.thy ===== *)
theory DramRank
  imports PimProgram PimAhasd
begin

text \<open>
  The DRAM rank: \<^verbatim>\<open>Rank\<close> of \<^verbatim>\<open>PIMSimulator/src/Rank.h\<close> and \<^verbatim>\<open>Rank.cpp\<close>, with \<^verbatim>\<open>BankState\<close> and the
  delays \<^verbatim>\<open>Configuration\<close> derives.  The PIM side (\<^verbatim>\<open>pim\<close>, with the banks and the mode) is that of theory
  \<^verbatim>\<open>PimRank\<close>, its extensions (\<^verbatim>\<open>ahasd\<close>) those of \<^verbatim>\<open>PimAhasd\<close>.  A packet a bank is not ready for ends
  the program (\<^verbatim>\<open>Exited\<close>).  Delivering a burst to the memory controller is the output of \<^verbatim>\<open>rank_update\<close>.
  Debug and verification output is not modelled.
\<close>

unbundle bit_operations_syntax

section \<open>Delays\<close>

definition READ_TO_PRE_DELAY :: "dram_config \<Rightarrow> u32" where
  "READ_TO_PRE_DELAY c = AL c + BL c div 2 + max (tRTPL c) (tCCDL c) - tCCDL c"

definition WRITE_TO_PRE_DELAY :: "dram_config \<Rightarrow> u32" where
  "WRITE_TO_PRE_DELAY c = WL c + BL c div 2 + tWR c"

definition READ_TO_WRITE_DELAY :: "dram_config \<Rightarrow> u32" where
  "READ_TO_WRITE_DELAY c = RL c + BL c div 2 + tRTRS c - WL c"

definition WRITE_TO_READ_DELAY_B_LONG :: "dram_config \<Rightarrow> u32" where
  "WRITE_TO_READ_DELAY_B_LONG c = WL c + BL c div 2 + tWTRL c"

definition WRITE_TO_READ_DELAY_B_SHORT :: "dram_config \<Rightarrow> u32" where
  "WRITE_TO_READ_DELAY_B_SHORT c = WL c + BL c div 2 + tWTRS c"

section \<open>State\<close>

definition bank_state_init :: bank_state where
  "bank_state_init =
     \<lparr>bs_state = Idle, open_row = 0, next_read = 0, next_write = 0, next_activate = 0, next_precharge = 0,
      next_power_up = 0\<rparr>"

record rank_state =
  pim :: dram_rank
  ahasd :: pim_ahasd
  clock :: u64
  is_power_down :: bool
  refresh_waiting :: bool
  bank_states :: "bank_state list"
  abmr1_even :: bool
  abmr1_odd :: bool
  abmr2_even :: bool
  abmr2_odd :: bool
  sbmr1 :: bool
  sbmr2 :: bool
  outgoing :: "bus_packet option"
  data_cycles_left :: u32
  return_packets :: "bus_packet list"
  return_countdowns :: "u32 list"

text \<open>The constructors; \<^verbatim>\<open>junk\<close> stands for the mode flags \<^verbatim>\<open>PIMRank\<close> leaves uninitialised.\<close>

definition pim_rank_init :: "bool \<times> bool \<times> bool \<times> bool \<Rightarrow> dram_config \<Rightarrow> dram_rank" where
  "pim_rank_init junk cfg =
     (case junk of (om, te, to, tr) \<Rightarrow>
       \<lparr>mode = SB, banks = replicate (unat (NUM_BANKS cfg)) (bank_init (NUM_COLS cfg)), pim_pc = 0, last_jump = - 1,
        num_jumps = - 1, last_repeat = - 1, num_repeats = - 1, pim_op_mode = om, toggle_even = te, toggle_odd = to,
        toggle_ra13h = tr, crf_exit = False, crf = replicate 4 0,
        pim_blocks = replicate (unat (NUM_PIM_BLOCKS cfg)) pim_block_init\<rparr>)"

definition rank_init :: "bool \<times> bool \<times> bool \<times> bool \<Rightarrow> dram_config \<Rightarrow> rank_state" where
  "rank_init junk cfg =
     \<lparr>pim = pim_rank_init junk cfg, ahasd = ahasd_unit_init, clock = 0, is_power_down = False,
      refresh_waiting = False, bank_states = replicate (unat (NUM_BANKS cfg)) bank_state_init, abmr1_even = False,
      abmr1_odd = False, abmr2_even = False, abmr2_odd = False, sbmr1 = False, sbmr2 = False, outgoing = None,
      data_cycles_left = 0, return_packets = [], return_countdowns = []\<rparr>"

section \<open>Checking a packet\<close>

definition require :: "bool \<Rightarrow> unit result" where
  "require b = (if b then Inr () else Inl Exited)"

definition check_bank :: "packet_type \<Rightarrow> nat \<Rightarrow> u32 \<Rightarrow> rank_state \<Rightarrow> unit result" where
  "check_bank t b rw s =
     rbind (deref (vec_get (bank_states s) b)) (\<lambda>bs.
       case t of
         READ \<Rightarrow> require (bs_state bs = RowActive \<and> next_read bs \<le> clock s \<and> rw = open_row bs)
       | WRITE \<Rightarrow> require (bs_state bs = RowActive \<and> next_write bs \<le> clock s \<and> rw = open_row bs)
       | ACTIVATE \<Rightarrow> require (bs_state bs = Idle \<and> next_activate bs \<le> clock s)
       | PRECHARGE \<Rightarrow> require (bs_state bs = RowActive \<and> next_precharge bs \<le> clock s)
       | DATA \<Rightarrow> Inr ()
       | _ \<Rightarrow> Inl Exited)"

fun check_all :: "(nat \<Rightarrow> unit result) \<Rightarrow> nat list \<Rightarrow> unit result" where
  "check_all f [] = Inr ()"
| "check_all f (b # bs) = rbind (f b) (\<lambda>_. check_all f bs)"

definition n_banks :: "pim_env \<Rightarrow> nat" where
  "n_banks e = unat (NUM_BANKS (env_cfg e))"

text \<open>In the all-bank modes the banks of the packet's parity are checked.\<close>

definition check_packet :: "pim_env \<Rightarrow> bus_packet \<Rightarrow> rank_state \<Rightarrow> unit result" where
  "check_packet e p s =
     (if ptype p = REF
      then check_all (\<lambda>b. rbind (deref (vec_get (bank_states s) b)) (\<lambda>bs. require (bs_state bs = Idle))) [0..<n_banks e]
      else if mode (pim s) = SB then check_bank (ptype p) (unat (pbank p)) (prow p) s
      else check_all (\<lambda>b. check_bank (ptype p) b (prow p) s)
             (filter (\<lambda>b. b mod 2 = unat (pbank p) mod 2) [0..<n_banks e]))"

section \<open>Updating the bank states\<close>

definition later :: "u64 \<Rightarrow> u32 \<Rightarrow> u64" where
  "later now d = now + ucast d"

definition update_bank ::
  "dram_config \<Rightarrow> packet_type \<Rightarrow> u64 \<Rightarrow> u32 \<Rightarrow> bool \<Rightarrow> bool \<Rightarrow> bank_state \<Rightarrow> bank_state" where
  "update_bank c t now rw target_bank target_group bs =
     (case t of
        READ \<Rightarrow>
          bs\<lparr>next_precharge := (if target_bank then max (next_precharge bs) (later now (READ_TO_PRE_DELAY c))
                               else next_precharge bs),
             next_read := max (next_read bs) (later now (max (if target_group then tCCDL c else tCCDS c) (BL c div 2))),
             next_write := max (next_write bs) (later now (READ_TO_WRITE_DELAY c))\<rparr>
      | WRITE \<Rightarrow>
          bs\<lparr>next_precharge := (if target_bank then max (next_precharge bs) (later now (WRITE_TO_PRE_DELAY c))
                               else next_precharge bs),
             next_read := max (next_read bs) (later now (if target_group then WRITE_TO_READ_DELAY_B_LONG c
                                                         else WRITE_TO_READ_DELAY_B_SHORT c)),
             next_write := max (next_write bs) (later now (max (BL c div 2) (if target_group then tCCDL c else tCCDS c)))\<rparr>
      | ACTIVATE \<Rightarrow>
          if target_bank
          then bs\<lparr>bs_state := RowActive, next_activate := later now (tRC c), open_row := rw,
                  next_write := later now (tRCDWR c - AL c), next_read := later now (tRCDRD c - AL c),
                  next_precharge := later now (tRAS c)\<rparr>
          else bs\<lparr>next_activate := max (next_activate bs) (later now (if target_group then tRRDL c else tRRDS c))\<rparr>
      | PRECHARGE \<Rightarrow>
          if target_bank
          then bs\<lparr>bs_state := Idle, next_activate := max (next_activate bs) (later now (tRP c))\<rparr>
          else bs
      | _ \<Rightarrow> bs)"

definition bankgroup_id :: "dram_config \<Rightarrow> nat \<Rightarrow> nat" where
  "bankgroup_id c b = b div unat (NUM_BANK_PER_BG c)"

text \<open>Which banks a packet acts on, and which share its bank group.\<close>

definition target_bank :: "bus_packet \<Rightarrow> rank_state \<Rightarrow> nat \<Rightarrow> bool" where
  "target_bank p s b \<longleftrightarrow> (if mode (pim s) = SB then b = unat (pbank p) else b mod 2 = unat (pbank p))"

definition target_group :: "dram_config \<Rightarrow> bus_packet \<Rightarrow> rank_state \<Rightarrow> nat \<Rightarrow> bool" where
  "target_group c p s b \<longleftrightarrow> (mode (pim s) = SB \<longrightarrow> bankgroup_id c b = bankgroup_id c (unat (pbank p)))"

fun map_upto :: "(nat \<Rightarrow> 'a \<Rightarrow> 'a) \<Rightarrow> nat \<Rightarrow> 'a list \<Rightarrow> 'a list" where
  "map_upto f 0 xs = xs"
| "map_upto f (Suc n) xs = (map_upto f n xs)[n := f n (map_upto f n xs ! n)]"

definition update_state :: "pim_env \<Rightarrow> bus_packet \<Rightarrow> rank_state \<Rightarrow> rank_state result" where
  "update_state e p s =
     (if ptype p = REF
      then Inr (s\<lparr>refresh_waiting := False,
                  bank_states := map_upto (\<lambda>b bs. bs\<lparr>next_activate := later (clock s) (tRFC (env_cfg e))\<rparr>) (n_banks e)
                                   (bank_states s)\<rparr>)
      else if ptype p = RFCSB then Inl Exited
      else Inr (s\<lparr>bank_states := map_upto (\<lambda>b. update_bank (env_cfg e) (ptype p) (clock s) (prow p) (target_bank p s b)
                                   (target_group (env_cfg e) p s b)) (n_banks e) (bank_states s)\<rparr>))"

section \<open>Single-bank accesses\<close>

definition read_sb :: "bus_packet \<Rightarrow> rank_state \<Rightarrow> bus_packet result" where
  "read_sb p s =
     (let c = pcolumn p; blk = get_block (unat (pbank p div 2)) (pim s) in
      if prow p = PIM_REG_RA
      then if 0x08 \<le> c \<and> c \<le> 0x0f then rbind blk (\<lambda>b. set_data (grf_a b ! unat (c - 0x8)) p)
           else if 0x18 \<le> c \<and> c \<le> 0x1f then rbind blk (\<lambda>b. set_data (grf_b b ! unat (c - 0x18)) p)
           else read_bank (unat (pbank p)) p (pim s)
      else read_bank (unat (pbank p)) p (pim s))"

definition write_sb :: "bus_packet \<Rightarrow> rank_state \<Rightarrow> rank_state result" where
  "write_sb p s =
     (if prow p \<noteq> PIM_REG_RA \<and> \<not> is_reserved_ra (prow p)
      then rbind (write_bank (unat (pbank p)) p (pim s)) (\<lambda>r. Inr (s\<lparr>pim := r\<rparr>))
      else Inr s)"

section \<open>Sending a packet to the banks\<close>

text \<open>A read or write in the all-bank modes: a PIM instruction when the toggle condition holds.\<close>

definition hab_access ::
  "nat \<Rightarrow> pim_env \<Rightarrow> (bus_packet \<Rightarrow> dram_rank \<Rightarrow> (bus_packet \<times> dram_rank) result) \<Rightarrow> bus_packet \<Rightarrow> rank_state
   \<Rightarrow> (bus_packet \<times> rank_state) result" where
  "hab_access fuel e access p s =
     rbind (if mode (pim s) = HAB_PIM \<and> is_toggle_cond p (pim s) then do_pim fuel e p (pim s) else access p (pim s))
       (\<lambda>(p, r). Inr (p, s\<lparr>pim := r\<rparr>))"

definition send_read :: "nat \<Rightarrow> pim_env \<Rightarrow> bus_packet \<Rightarrow> rank_state \<Rightarrow> rank_state result" where
  "send_read fuel e p s =
     rbind (if mode (pim s) = SB then rbind (read_sb p s) (\<lambda>p. Inr (p, s)) else hab_access fuel e (read_hab e) p s)
       (\<lambda>(p, s). Inr (s\<lparr>return_packets := return_packets s @ [p\<lparr>ptype := DATA\<rparr>],
                        return_countdowns := return_countdowns s @ [RL (env_cfg e)]\<rparr>))"

definition send_write :: "nat \<Rightarrow> pim_env \<Rightarrow> bus_packet \<Rightarrow> rank_state \<Rightarrow> rank_state result" where
  "send_write fuel e p s =
     (if mode (pim s) = SB then write_sb p s
      else rbind (hab_access fuel e (write_hab e) p s) (\<lambda>(_, s). Inr s))"

text \<open>Activating the last column of the mode row in banks 0, 1, 8 and 9 (or 0 and 1) enters the all-bank mode.\<close>

definition send_activate :: "pim_env \<Rightarrow> bus_packet \<Rightarrow> rank_state \<Rightarrow> rank_state" where
  "send_activate e p s0 =
     (if mode (pim s0) = SB \<and> prow p = PIM_ABMR_RA \<and> pcolumn p = 0x1f
      then let s = s0\<lparr>abmr1_even := pbank p = 0 \<or> abmr1_even s0, abmr1_odd := pbank p = 1 \<or> abmr1_odd s0,
                      abmr2_even := pbank p = 8 \<or> abmr2_even s0, abmr2_odd := pbank p = 9 \<or> abmr2_odd s0\<rparr> in
           if NUM_BANKS (env_cfg e) \<le> 2 \<and> abmr1_even s \<and> abmr1_odd s
              \<or> 2 < NUM_BANKS (env_cfg e) \<and> abmr1_even s \<and> abmr1_odd s \<and> abmr2_even s \<and> abmr2_odd s
           then s\<lparr>pim := (pim s)\<lparr>mode := HAB\<rparr>, abmr1_even := False, abmr1_odd := False, abmr2_even := False,
                  abmr2_odd := False\<rparr>
           else s
      else s0)"

definition send_precharge :: "bus_packet \<Rightarrow> rank_state \<Rightarrow> rank_state" where
  "send_precharge p s0 =
     (if mode (pim s0) = HAB \<and> prow p = PIM_SBMR_RA
      then let s = s0\<lparr>sbmr1 := pbank p = 0 \<or> sbmr1 s0, sbmr2 := pbank p = 1 \<or> sbmr2 s0\<rparr> in
           if sbmr1 s \<and> sbmr2 s then s\<lparr>pim := (pim s)\<lparr>mode := SB\<rparr>, sbmr1 := False, sbmr2 := False\<rparr> else s
      else s0)"

definition send_to_bank :: "nat \<Rightarrow> pim_env \<Rightarrow> bus_packet \<Rightarrow> rank_state \<Rightarrow> rank_state result" where
  "send_to_bank fuel e p s =
     (case ptype p of
        READ \<Rightarrow> send_read fuel e p s
      | WRITE \<Rightarrow> send_write fuel e p s
      | ACTIVATE \<Rightarrow> Inr (send_activate e p s)
      | PRECHARGE \<Rightarrow> Inr (send_precharge p s)
      | REF \<Rightarrow> Inr (s\<lparr>refresh_waiting := False\<rparr>)
      | DATA \<Rightarrow> Inr s
      | RFCSB \<Rightarrow> Inl Exited)"

definition receive_from_bus :: "nat \<Rightarrow> pim_env \<Rightarrow> bus_packet \<Rightarrow> rank_state \<Rightarrow> rank_state result" where
  "receive_from_bus fuel e p s =
     rbind (if is_reserved_ra (prow p) then Inr s
            else rbind (check_packet e p s) (\<lambda>_. update_state e p s))
       (send_to_bank fuel e p)"

section \<open>Cycles and power\<close>

definition deliver :: "rank_state \<Rightarrow> bus_packet option \<times> rank_state" where
  "deliver s =
     (case outgoing s of
        None \<Rightarrow> (None, s)
      | Some p \<Rightarrow>
          let left = data_cycles_left s - 1; s = s\<lparr>data_cycles_left := left\<rparr> in
          if left = 0 then (Some p, s\<lparr>outgoing := None\<rparr>) else (None, s))"

text \<open>One cycle: the burst handed to the memory controller, if one leaves the bus.\<close>

definition rank_update :: "pim_env \<Rightarrow> rank_state \<Rightarrow> (bus_packet option \<times> rank_state) option" where
  "rank_update e s0 =
     (let (out, s) = deliver s0;
          counts = map (\<lambda>c. c - 1) (return_countdowns s);
          s = s\<lparr>return_countdowns := counts\<rparr>;
          s = (if counts \<noteq> [] \<and> hd counts = 0
               then s\<lparr>outgoing := Some (hd (return_packets s)), data_cycles_left := BL (env_cfg e) div 2,
                      return_packets := tl (return_packets s), return_countdowns := tl counts\<rparr>
               else s) in
      map_option (\<lambda>h. (out, s\<lparr>ahasd := h\<lparr>ah_clock := ah_clock h + 1\<rparr>\<rparr>)) (update_ahasd (ahasd s)))"

definition rank_step_clock :: "rank_state \<Rightarrow> rank_state" where
  "rank_step_clock s = s\<lparr>clock := clock s + 1\<rparr>"

text \<open>Powering down stops at the first bank that is not idle; powering up at the first that may not yet.\<close>

fun power_down_banks :: "dram_config \<Rightarrow> u64 \<Rightarrow> bank_state list \<Rightarrow> bank_state list result" where
  "power_down_banks c now [] = Inr []"
| "power_down_banks c now (b # bs) =
     (if bs_state b \<noteq> Idle then Inl Exited
      else rbind (power_down_banks c now bs) (\<lambda>bs.
             Inr (b\<lparr>next_power_up := later now (tCKE c), bs_state := PowerDown\<rparr> # bs)))"

fun power_up_banks :: "dram_config \<Rightarrow> u64 \<Rightarrow> bank_state list \<Rightarrow> bank_state list result" where
  "power_up_banks c now [] = Inr []"
| "power_up_banks c now (b # bs) =
     (if now < next_power_up b then Inl Exited
      else rbind (power_up_banks c now bs) (\<lambda>bs.
             Inr (b\<lparr>next_activate := later now (tXP c), bs_state := Idle\<rparr> # bs)))"

definition power_down :: "pim_env \<Rightarrow> rank_state \<Rightarrow> rank_state result" where
  "power_down e s =
     rbind (power_down_banks (env_cfg e) (clock s) (bank_states s)) (\<lambda>bs. Inr (s\<lparr>bank_states := bs, is_power_down := True\<rparr>))"

definition power_up :: "pim_env \<Rightarrow> rank_state \<Rightarrow> rank_state result" where
  "power_up e s =
     (if \<not> is_power_down s then Inl Exited
      else rbind (power_up_banks (env_cfg e) (clock s) (bank_states s)) (\<lambda>bs.
             Inr (s\<lparr>is_power_down := False, bank_states := bs\<rparr>)))"

section \<open>Runs of a rank and what its banks saw\<close>

datatype rank_op = Receive bus_packet | Cycle

text \<open>An accepted packet: its time, kind, row and the banks it acted on.\<close>

type_synonym bank_event = "nat \<times> packet_type \<times> u32 \<times> nat list"

definition event_of :: "pim_env \<Rightarrow> bus_packet \<Rightarrow> rank_state \<Rightarrow> bank_event" where
  "event_of e p s = (unat (clock s), ptype p, prow p, filter (target_bank p s) [0..<n_banks e])"

fun rank_op_step ::
  "nat \<Rightarrow> pim_env \<Rightarrow> rank_op \<Rightarrow> rank_state \<times> bank_event list \<Rightarrow> (rank_state \<times> bank_event list) result" where
  "rank_op_step fuel e (Receive p) (s, evs) =
     rbind (receive_from_bus fuel e p s) (\<lambda>s'. Inr (s', if is_reserved_ra (prow p) then evs else event_of e p s # evs))"
| "rank_op_step fuel e Cycle (s, evs) =
     (case rank_update e s of None \<Rightarrow> Inl Undefined | Some (_, s') \<Rightarrow> Inr (rank_step_clock s', evs))"

fun run_rank ::
  "nat \<Rightarrow> pim_env \<Rightarrow> rank_op list \<Rightarrow> rank_state \<times> bank_event list \<Rightarrow> (rank_state \<times> bank_event list) result" where
  "run_rank fuel e [] x = Inr x"
| "run_rank fuel e (op # ops) x = rbind (rank_op_step fuel e op x) (run_rank fuel e ops)"

text \<open>The activations and precharges of one bank, the latest first.\<close>

definition row_event :: "nat \<Rightarrow> bank_event \<Rightarrow> bool" where
  "row_event b ev \<longleftrightarrow> (case ev of (_, t, _, bs) \<Rightarrow> b \<in> set bs \<and> (t = ACTIVATE \<or> t = PRECHARGE))"

definition bank_log :: "nat \<Rightarrow> bank_event list \<Rightarrow> bank_event list" where
  "bank_log b evs = filter (row_event b) evs"

text \<open>What the command protocol of a bank asks of a packet at a time, given what the bank saw.\<close>

definition protocol :: "dram_config \<Rightarrow> packet_type \<Rightarrow> u32 \<Rightarrow> nat \<Rightarrow> bank_event list \<Rightarrow> bool" where
  "protocol c t rw now L =
     (case t of
        READ \<Rightarrow> (case L of (t0, ACTIVATE, r, _) # _ \<Rightarrow> r = rw \<and> t0 + unat (tRCDRD c - AL c) \<le> now | _ \<Rightarrow> False)
      | WRITE \<Rightarrow> (case L of (t0, ACTIVATE, r, _) # _ \<Rightarrow> r = rw \<and> t0 + unat (tRCDWR c - AL c) \<le> now | _ \<Rightarrow> False)
      | PRECHARGE \<Rightarrow> (case L of (t0, ACTIVATE, _, _) # _ \<Rightarrow> t0 + unat (tRAS c) \<le> now | _ \<Rightarrow> False)
      | ACTIVATE \<Rightarrow> (case L of
            [] \<Rightarrow> True
          | (t0, PRECHARGE, _, _) # (t1, ACTIVATE, _, _) # _ \<Rightarrow> t0 + unat (tRP c) \<le> now \<and> t1 + unat (tRC c) \<le> now
          | _ \<Rightarrow> False)
      | _ \<Rightarrow> True)"

section \<open>The state of a bank against its history\<close>

definition bank_inv :: "dram_config \<Rightarrow> nat \<Rightarrow> bank_state \<Rightarrow> bank_event list \<Rightarrow> bool" where
  "bank_inv c now bs L \<longleftrightarrow> list_all (\<lambda>(t, _). t \<le> now) L \<and>
     (case bs_state bs of
        RowActive \<Rightarrow> (case L of
            (t0, ACTIVATE, r, _) # _ \<Rightarrow> r = open_row bs \<and> t0 + unat (tRCDRD c - AL c) \<le> unat (next_read bs)
              \<and> t0 + unat (tRCDWR c - AL c) \<le> unat (next_write bs) \<and> t0 + unat (tRAS c) \<le> unat (next_precharge bs)
              \<and> t0 + unat (tRC c) \<le> unat (next_activate bs)
          | _ \<Rightarrow> False)
      | Idle \<Rightarrow> (case L of
            [] \<Rightarrow> True
          | (t0, PRECHARGE, _, _) # (t1, ACTIVATE, _, _) # _ \<Rightarrow>
              t0 + unat (tRP c) \<le> unat (next_activate bs) \<and> t1 + unat (tRC c) \<le> unat (next_activate bs)
          | _ \<Rightarrow> False)
      | _ \<Rightarrow> False)"

definition clock_ok :: "u64 \<Rightarrow> bool" where
  "clock_ok now \<longleftrightarrow> unat now + 2 ^ 32 \<le> 2 ^ 64"

lemma unat_later: "clock_ok now \<Longrightarrow> unat (later now d) = unat now + unat d"
proof -
  assume "clock_ok now"
  then have "unat now + unat d < 2 ^ 64" using unsigned_less [of d, where 'a = nat] by (simp add: clock_ok_def)
  then show ?thesis by (simp add: later_def unat_plus_if' unat_ucast_wider)
qed

lemma bank_inv_protocol:
  assumes "bank_inv c (unat now) bs L"
    and "case t of READ \<Rightarrow> bs_state bs = RowActive \<and> next_read bs \<le> now \<and> rw = open_row bs
         | WRITE \<Rightarrow> bs_state bs = RowActive \<and> next_write bs \<le> now \<and> rw = open_row bs
         | ACTIVATE \<Rightarrow> bs_state bs = Idle \<and> next_activate bs \<le> now
         | PRECHARGE \<Rightarrow> bs_state bs = RowActive \<and> next_precharge bs \<le> now
         | _ \<Rightarrow> True"
  shows "protocol c t rw (unat now) L"
  using assms
  by (cases t)
    (auto simp: bank_inv_def protocol_def word_le_nat_alt intro: order_trans split: list.splits packet_type.splits)

lemma bank_inv_later:
  "bank_inv c now bs L \<Longrightarrow> now \<le> now' \<Longrightarrow> bank_inv c now' bs L"
  by (auto simp: bank_inv_def list_all_iff)

lemma bank_inv_grow:
  assumes "bank_inv c now bs L" and "bs_state bs' = bs_state bs" and "open_row bs' = open_row bs"
    and "next_read bs \<le> next_read bs'" and "next_write bs \<le> next_write bs'"
    and "next_precharge bs \<le> next_precharge bs'" and "next_activate bs \<le> next_activate bs'"
  shows "bank_inv c now bs' L"
  using assms
  by (auto simp: bank_inv_def word_le_nat_alt intro: order_trans split: current_bank_state.splits list.splits
      packet_type.splits)

definition sees :: "bool \<Rightarrow> packet_type \<Rightarrow> nat \<Rightarrow> u32 \<Rightarrow> nat list \<Rightarrow> bank_event list \<Rightarrow> bank_event list" where
  "sees target t now rw bs L = (if target \<and> (t = ACTIVATE \<or> t = PRECHARGE) then (now, t, rw, bs) # L else L)"

lemma bank_inv_active:
  assumes "bank_inv c now bs L" and "bs_state bs = RowActive"
  shows "\<exists>t0 x rest. L = (t0, ACTIVATE, open_row bs, x) # rest \<and> t0 + unat (tRC c) \<le> unat (next_activate bs)"
proof (cases L)
  case (Cons a rest)
  obtain t0 ty r x where a: "a = (t0, ty, r, x)" by (cases a)
  show ?thesis using assms Cons a by (cases ty) (simp_all add: bank_inv_def)
qed (use assms in \<open>simp add: bank_inv_def\<close>)

lemma update_bank_inv:
  assumes inv: "bank_inv c (unat now) bs L" and ck: "clock_ok now"
    and chk: "tb \<Longrightarrow> (case t of READ \<Rightarrow> bs_state bs = RowActive \<and> next_read bs \<le> now \<and> rw = open_row bs
         | WRITE \<Rightarrow> bs_state bs = RowActive \<and> next_write bs \<le> now \<and> rw = open_row bs
         | ACTIVATE \<Rightarrow> bs_state bs = Idle \<and> next_activate bs \<le> now
         | PRECHARGE \<Rightarrow> bs_state bs = RowActive \<and> next_precharge bs \<le> now
         | _ \<Rightarrow> True)"
  shows "bank_inv c (unat now) (update_bank c t now rw tb tg bs) (sees tb t (unat now) rw targets L)"
proof (cases "tb \<and> (t = ACTIVATE \<or> t = PRECHARGE)")
  case False
  then have "sees tb t (unat now) rw targets L = L" by (simp add: sees_def)
  moreover have "bank_inv c (unat now) (update_bank c t now rw tb tg bs) L"
    by (rule bank_inv_grow [OF inv]) (use False in \<open>cases t; simp add: update_bank_def\<close>)+
  ultimately show ?thesis by simp
next
  case True
  then consider "t = ACTIVATE" "tb" | "t = PRECHARGE" "tb" by blast
  then show ?thesis
  proof cases
    case 1
    have "list_all (\<lambda>(t, _). t \<le> unat now) L" using inv by (simp add: bank_inv_def)
    with 1 show ?thesis by (simp add: bank_inv_def sees_def update_bank_def unat_later [OF ck])
  next
    case 2
    then have a: "bs_state bs = RowActive" using chk by simp
    moreover have "list_all (\<lambda>(t, _). t \<le> unat now) L" using inv by (simp add: bank_inv_def)
    ultimately obtain t0 r x rest where L: "L = (t0, ACTIVATE, r, x) # rest"
      "t0 + unat (tRC c) \<le> unat (next_activate bs)" "list_all (\<lambda>(t, _). t \<le> unat now) L"
      using bank_inv_active [OF inv] by blast
    define a where "a = max (next_activate bs) (later now (tRP c))"
    have "unat (next_activate bs) \<le> unat a" "unat now + unat (tRP c) \<le> unat a"
      using unat_later [OF ck, of "tRP c"] by (simp_all add: a_def unat_max)
    then show ?thesis
      using 2 L by (simp add: bank_inv_def sees_def update_bank_def a_def [symmetric])
  qed
qed

definition timing_ok :: "dram_config \<Rightarrow> bool" where
  "timing_ok c \<longleftrightarrow> tRP c \<le> tRFC c \<and> tRC c \<le> tRFC c"

lemma refresh_inv:
  assumes "bank_inv c (unat now) bs L" and "clock_ok now" and "timing_ok c" and "bs_state bs = Idle"
  shows "bank_inv c (unat now) (bs\<lparr>next_activate := later now (tRFC c)\<rparr>) L"
proof -
  have "unat (tRP c) \<le> unat (tRFC c)" "unat (tRC c) \<le> unat (tRFC c)"
    using assms(3) by (simp_all add: timing_ok_def word_le_nat_alt)
  then show ?thesis
    using assms(1,4) unat_later [OF assms(2), of "tRFC c"]
    by (auto simp: bank_inv_def split: list.splits packet_type.splits)
qed

section \<open>The invariant of a rank\<close>

definition rank_inv :: "pim_env \<Rightarrow> rank_state \<Rightarrow> bank_event list \<Rightarrow> bool" where
  "rank_inv e s evs \<longleftrightarrow> length (bank_states s) = n_banks e
     \<and> (\<forall>b < n_banks e. bank_inv (env_cfg e) (unat (clock s)) (bank_states s ! b) (bank_log b evs))"

lemma length_map_upto [simp]: "length (map_upto f n xs) = length xs"
  by (induction n) simp_all

lemma nth_map_upto: "i < length xs \<Longrightarrow> map_upto f n xs ! i = (if i < n then f i (xs ! i) else xs ! i)"
proof (induction n arbitrary: i)
  case (Suc n)
  then show ?case by (cases "i = n") auto
qed simp

lemma check_all_D: "check_all f bs = Inr () \<Longrightarrow> b \<in> set bs \<Longrightarrow> f b = Inr ()"
  by (induction bs) (auto simp: rbind_Inr)

lemma require_D [simp]: "require b = Inr () \<longleftrightarrow> b"
  by (simp add: require_def)

lemma check_bank_D:
  assumes "check_bank t b rw s = Inr ()"
  shows "b < length (bank_states s)
    \<and> (case t of READ \<Rightarrow> bs_state (bank_states s ! b) = RowActive \<and> next_read (bank_states s ! b) \<le> clock s
                         \<and> rw = open_row (bank_states s ! b)
         | WRITE \<Rightarrow> bs_state (bank_states s ! b) = RowActive \<and> next_write (bank_states s ! b) \<le> clock s
                         \<and> rw = open_row (bank_states s ! b)
         | ACTIVATE \<Rightarrow> bs_state (bank_states s ! b) = Idle \<and> next_activate (bank_states s ! b) \<le> clock s
         | PRECHARGE \<Rightarrow> bs_state (bank_states s ! b) = RowActive \<and> next_precharge (bank_states s ! b) \<le> clock s
         | _ \<Rightarrow> True)"
  using assms
  by (cases "b < length (bank_states s)") (auto simp: check_bank_def split: packet_type.splits)

lemma check_packet_target:
  assumes "check_packet e p s = Inr ()" and "ptype p \<noteq> REF" and "target_bank p s b" and "b < n_banks e"
  shows "check_bank (ptype p) b (prow p) s = Inr ()"
proof (cases "mode (pim s) = SB")
  case True
  then show ?thesis using assms by (simp add: check_packet_def target_bank_def)
next
  case False
  then have "b mod 2 = unat (pbank p)" using assms(3) by (simp add: target_bank_def)
  then have "b \<in> set (filter (\<lambda>b. b mod 2 = unat (pbank p) mod 2) [0..<n_banks e])"
    using assms(4) by auto
  then show ?thesis
    using assms False check_all_D [of "\<lambda>b. check_bank (ptype p) b (prow p) s"] by (simp add: check_packet_def)
qed

lemma bank_log_event:
  "b < n_banks e \<Longrightarrow>
   bank_log b (event_of e p s # evs)
   = sees (target_bank p s b) (ptype p) (unat (clock s)) (prow p) (filter (target_bank p s) [0..<n_banks e]) (bank_log b evs)"
  by (auto simp: bank_log_def event_of_def row_event_def sees_def)

lemma update_state_inv:
  assumes inv: "rank_inv e s evs" and ck: "clock_ok (clock s)" and tm: "timing_ok (env_cfg e)"
    and chk: "check_packet e p s = Inr ()" and u: "update_state e p s = Inr s'"
  shows "rank_inv e s' (event_of e p s # evs)"
proof (cases "ptype p = REF")
  case True
  have "bs_state (bank_states s ! b) = Idle" if "b < n_banks e" for b
  proof -
    have "rbind (deref (vec_get (bank_states s) b)) (\<lambda>bs. require (bs_state bs = Idle)) = Inr ()"
      using check_all_D [of _ "[0..<n_banks e]" b] chk True that by (simp add: check_packet_def)
    then show ?thesis using that inv by (simp add: rank_inv_def)
  qed
  moreover have "bank_log b (event_of e p s # evs) = bank_log b evs" for b
    using True by (simp add: bank_log_def event_of_def row_event_def)
  ultimately show ?thesis
    using inv u True refresh_inv [OF _ ck tm] by (auto simp: update_state_def rank_inv_def nth_map_upto)
next
  case False
  show ?thesis
    unfolding rank_inv_def
  proof (intro conjI allI impI)
    show "length (bank_states s') = n_banks e"
      using u False inv by (auto simp: update_state_def rank_inv_def split: if_splits)
  next
    fix b assume b: "b < n_banks e"
    have "bank_inv (env_cfg e) (unat (clock s)) (bank_states s ! b) (bank_log b evs)" using inv b by (simp add: rank_inv_def)
    from update_bank_inv [OF this ck, where tb = "target_bank p s b" and t = "ptype p" and rw = "prow p"]
    have "bank_inv (env_cfg e) (unat (clock s))
        (update_bank (env_cfg e) (ptype p) (clock s) (prow p) (target_bank p s b) (target_group (env_cfg e) p s b) (bank_states s ! b))
        (bank_log b (event_of e p s # evs))"
      using check_bank_D [OF check_packet_target [OF chk False _ b]] by (simp add: bank_log_event [OF b])
    then show "bank_inv (env_cfg e) (unat (clock s')) (bank_states s' ! b) (bank_log b (event_of e p s # evs))"
      using u False b inv by (auto simp: update_state_def rank_inv_def nth_map_upto split: if_splits)
  qed
qed

lemma send_keeps:
  assumes "send_to_bank fuel e p s = Inr s'"
  shows "bank_states s' = bank_states s \<and> clock s' = clock s"
  using assms
  by (auto simp: send_to_bank_def send_read_def send_write_def hab_access_def write_sb_def send_activate_def
      send_precharge_def rbind_Inr Let_def split: packet_type.splits if_splits)

lemma receive_inv:
  assumes inv: "rank_inv e s evs" and ck: "clock_ok (clock s)" and tm: "timing_ok (env_cfg e)"
    and r: "receive_from_bus fuel e p s = Inr s'"
  shows "rank_inv e s' (if is_reserved_ra (prow p) then evs else event_of e p s # evs) \<and> clock s' = clock s"
proof (cases "is_reserved_ra (prow p)")
  case True
  then show ?thesis using r inv by (auto simp: receive_from_bus_def rank_inv_def dest!: send_keeps)
next
  case False
  then obtain s1 where s1: "check_packet e p s = Inr ()" "update_state e p s = Inr s1" "send_to_bank fuel e p s1 = Inr s'"
    using r by (auto simp: receive_from_bus_def rbind_Inr)
  have "clock s1 = clock s" using s1(2) by (auto simp: update_state_def split: if_splits)
  with send_keeps [OF s1(3)] update_state_inv [OF inv ck tm s1(1,2)] False show ?thesis
    by (simp add: rank_inv_def)
qed

lemma rank_update_keeps:
  "rank_update e s = Some (q, s') \<Longrightarrow> bank_states s' = bank_states s \<and> clock s' = clock s \<and> pim s' = pim s"
  by (auto simp: rank_update_def deliver_def Let_def split: option.splits if_splits prod.splits)

lemma rank_init_inv: "rank_inv e (rank_init junk (env_cfg e)) []"
  by (simp add: rank_inv_def rank_init_def n_banks_def bank_inv_def bank_state_init_def bank_log_def)

lemma run_rank_inv:
  assumes "rank_inv e s evs" and "run_rank fuel e ops (s, evs) = Inr (s', evs')" and "timing_ok (env_cfg e)"
    and "unat (clock s) + length ops + 2 ^ 32 \<le> 2 ^ 64"
  shows "rank_inv e s' evs' \<and> unat (clock s') \<le> unat (clock s) + length ops"
  using assms
proof (induction ops arbitrary: s evs)
  case (Cons op ops)
  obtain s1 evs1 where st: "rank_op_step fuel e op (s, evs) = Inr (s1, evs1)"
    "run_rank fuel e ops (s1, evs1) = Inr (s', evs')"
    using Cons.prems(2) by (auto simp: rbind_Inr)
  have "clock_ok (clock s)" using Cons.prems(4) by (simp add: clock_ok_def)
  have "rank_inv e s1 evs1 \<and> unat (clock s1) \<le> Suc (unat (clock s))"
  proof (cases op)
    case (Receive p)
    then obtain q where "receive_from_bus fuel e p s = Inr q" "s1 = q"
      "evs1 = (if is_reserved_ra (prow p) then evs else event_of e p s # evs)"
      using st(1) by (auto simp: rbind_Inr)
    then show ?thesis
      using receive_inv [OF Cons.prems(1) \<open>clock_ok (clock s)\<close> Cons.prems(3)] by auto
  next
    case Cycle
    then obtain q s2 where c: "rank_update e s = Some (q, s2)" "s1 = rank_step_clock s2" "evs1 = evs"
      using st(1) by (auto split: option.splits prod.splits)
    have "unat (clock s + 1) = Suc (unat (clock s))"
      using \<open>clock_ok (clock s)\<close> by (simp add: clock_ok_def unat_plus_if')
    then have "clock s1 = clock s + 1" "bank_states s1 = bank_states s" "unat (clock s1) = Suc (unat (clock s))"
      using c rank_update_keeps [OF c(1)] by (simp_all add: rank_step_clock_def)
    then show ?thesis
      using Cons.prems(1) c(3) by (auto simp: rank_inv_def intro: bank_inv_later)
  qed
  then show ?case using Cons.IH [OF _ st(2) Cons.prems(3)] Cons.prems(4) by fastforce
qed simp


section \<open>Concrete runs\<close>

text \<open>The rank of two blocks: a row is activated in bank 0 and read four cycles later; then the four banks of the
  mode row are activated.\<close>

definition bus :: "packet_type \<Rightarrow> u32 \<Rightarrow> u32 \<Rightarrow> u32 \<Rightarrow> bus_packet" where
  "bus t b r c = mk_packet t 0 c r 0 b (Some 7)"

definition open_ops :: "rank_op list" where
  "open_ops = Receive (bus ACTIVATE 0 5 0) # replicate 4 Cycle"

definition outcome ::
  "rank_op list \<Rightarrow> bus_packet \<Rightarrow> (rank_state \<Rightarrow> bank_event list \<Rightarrow> rank_state \<Rightarrow> bool) \<Rightarrow> bool" where
  "outcome ops p P = (case run_rank 2 demo_env ops (rank_init (False, False, False, False) (env_cfg demo_env), []) of
     Inl _ \<Rightarrow> False
   | Inr (s, evs) \<Rightarrow> (case receive_from_bus 2 demo_env p s of Inl _ \<Rightarrow> False | Inr s' \<Rightarrow> P s evs s'))"

lemma outcomeE:
  assumes "outcome ops p P"
  obtains s evs s' where
    "run_rank 2 demo_env ops (rank_init (False, False, False, False) (env_cfg demo_env), []) = Inr (s, evs)"
    "receive_from_bus 2 demo_env p s = Inr s'" "P s evs s'"
proof -
  obtain s evs where r: "run_rank 2 demo_env ops (rank_init (False, False, False, False) (env_cfg demo_env), []) = Inr (s, evs)"
    using assms unfolding outcome_def by (auto split: sum.splits)
  moreover obtain s' where "receive_from_bus 2 demo_env p s = Inr s'" "P s evs s'"
    using assms r unfolding outcome_def by (auto split: sum.splits)
  ultimately show thesis by (rule that)
qed

definition bus_quiet :: "rank_state \<Rightarrow> bool" where
  "bus_quiet s \<longleftrightarrow> outgoing s = None \<and> return_countdowns s = [] \<and> ah_aau (ahasd s) = None \<and> ah_gtsu (ahasd s) = None"

lemma quiet_cycles:
  "bus_quiet s \<Longrightarrow> \<exists>s'. run_rank k e (replicate n Cycle) (s, evs) = Inr (s', evs) \<and> bus_quiet s' \<and> pim s' = pim s
     \<and> bank_states s' = bank_states s \<and> clock s' = clock s + of_nat n"
proof (induction n arbitrary: s)
  case (Suc n)
  define h where "h = ahasd s\<lparr>ah_clock := ah_clock (ahasd s) + 1\<rparr>"
  define t where "t = s\<lparr>ahasd := h, clock := clock s + 1\<rparr>"
  have "update_ahasd (ahasd s) = Some (ahasd s)" using Suc.prems by (simp add: update_ahasd_def bus_quiet_def)
  then have "rank_op_step k e Cycle (s, evs) = Inr (t, evs)"
    using Suc.prems
    by (simp add: rank_update_def deliver_def bus_quiet_def rank_step_clock_def t_def h_def)
  moreover have "bus_quiet t" "pim t = pim s" "bank_states t = bank_states s" "clock t = clock s + 1"
    using Suc.prems by (simp_all add: t_def h_def bus_quiet_def)
  ultimately show ?case using Suc.IH [of t] by (auto simp: algebra_simps)
qed simp

lemma quiet_init: "bus_quiet (rank_init junk c)"
  by (simp add: bus_quiet_def rank_init_def ahasd_unit_init_def)

lemma four_banks: "n_banks demo_env = 4" "[0..<4] = [0, 1, 2, 3]"
  by (simp_all add: n_banks_def demo_env_def upt_rec)

lemma open_outcome:
  "outcome open_ops (bus READ 0 5 3) (\<lambda>s evs s'. target_bank (bus READ 0 5 3) s 0 \<and> bank_log 0 evs \<noteq> [])"
proof -
  let ?s = "rank_init (False, False, False, False) (env_cfg demo_env)" and ?a = "bus ACTIVATE 0 5 0"
  have sb: "mode (pim ?s) = SB" "bank_states ?s = replicate 4 bank_state_init" "clock ?s = 0"
    by (simp_all add: rank_init_def pim_rank_init_def demo_env_def)
  define bs where "bs = map_upto (\<lambda>b. update_bank (env_cfg demo_env) ACTIVATE 0 5 (b = 0)
    (target_group (env_cfg demo_env) ?a ?s b)) 4 (replicate 4 bank_state_init)"
  have res: "is_reserved_ra 5 = False" by (simp add: is_reserved_ra_def)
  have r: "receive_from_bus 2 demo_env ?a ?s = Inr (?s\<lparr>bank_states := bs\<rparr>)"
    using sb res
    by (simp add: receive_from_bus_def bus_def check_packet_def check_bank_def require_def bank_state_init_def
        update_state_def four_banks bs_def target_bank_def send_to_bank_def send_activate_def PIM_ABMR_RA_def)
  define evs where "evs = [event_of demo_env ?a ?s]"
  obtain s where s: "run_rank 2 demo_env (replicate 4 Cycle) (?s\<lparr>bank_states := bs\<rparr>, evs) = Inr (s, evs)"
    "pim s = pim ?s" "bank_states s = bs" "clock s = 4"
    using quiet_cycles [of "?s\<lparr>bank_states := bs\<rparr>" 2 demo_env 4 evs] quiet_init sb by (auto simp: bus_quiet_def)
  have run: "run_rank 2 demo_env open_ops (?s, []) = Inr (s, evs)"
    using r s(1) res by (simp add: open_ops_def evs_def bus_def)
  have bank: "length bs = 4" "bs ! 0 = update_bank (env_cfg demo_env) ACTIVATE 0 5 True
      (target_group (env_cfg demo_env) ?a ?s 0) bank_state_init"
    by (simp_all add: bs_def nth_map_upto)
  have "check_packet demo_env (bus READ 0 5 3) s = Inr ()"
    using s sb bank by (simp add: check_packet_def bus_def check_bank_def update_bank_def later_def demo_env_def)
  moreover obtain p where "read_sb (bus READ 0 5 3) t = Inr p" if "pim t = pim ?s" for t
    by (simp add: read_sb_def Let_def PIM_REG_RA_def bus_def read_bank_def rank_init_def pim_rank_init_def
        bank_read_def demo_env_def bank_init_def)
  ultimately obtain s' where "receive_from_bus 2 demo_env (bus READ 0 5 3) s = Inr s'"
    using s(2) sb res by (simp add: receive_from_bus_def bus_def update_state_def send_to_bank_def send_read_def)
  moreover have "target_bank (bus READ 0 5 3) s 0" using s(2) sb by (simp add: target_bank_def bus_def)
  moreover have "bank_log 0 evs \<noteq> []"
    using sb by (simp add: evs_def bank_log_def row_event_def event_of_def bus_def four_banks target_bank_def)
  ultimately show ?thesis using run by (simp add: outcome_def)
qed


end
