(* ===== verification/RankModes.thy ===== *)
theory RankModes
  imports DramRank
begin

text \<open>
  The modes of a DRAM rank: which packets move it between the single-bank, the all-bank and the PIM mode, the
  handshakes by which it enters and leaves the all-bank mode, and that no accepted packet changes the sizes of its
  registers and banks.  Only reads and writes carry data; the command queue builds activations, precharges and
  refreshes without any.
\<close>

section \<open>Modes, registers and storage\<close>

text \<open>What an operation on the storage keeps when it returns.\<close>

definition keeps :: "pim_env \<Rightarrow> bus_packet \<Rightarrow> dram_rank \<Rightarrow> (bus_packet \<times> dram_rank) result \<Rightarrow> bool" where
  "keeps e p s r \<longleftrightarrow> (\<forall>p' s'. r = Inr (p', s') \<longrightarrow>
     packet_ok e p' \<and> addr p' = addr p \<and> rank_shape e s' \<and> crf s' = crf s \<and> mode s' = mode s)"

lemma stores_keeps: "stores e p s r \<Longrightarrow> keeps e p s r"
  by (auto simp: stores_def keeps_def dest!: ctl_eqD)

lemma write_odd_exits:
  assumes "\<not> writes_ok c p" and "addr p' = addr p"
  shows "write_opd pb d (dst c) p' i au mac s = Inl Exited"
proof -
  have "dst c = ODD_BANK \<and> pbank p mod 2 = 0" using assms(1) unfolding writes_ok_def by blast
  moreover have "pbank p' = pbank p" using addr_eqD [OF assms(2)] by blast
  ultimately have "dst c = ODD_BANK" "pbank p' mod 2 = 0" by simp_all
  then show ?thesis by (simp only: write_opd_def Let_def pim_opd_type.case if_True refl)
qed

lemma do_pim_block_keeps:
  assumes sh: "rank_shape e s" and p: "packet_ok e p" and pb: "pb < n_blocks e"
  shows "keeps e p s (do_pim_block e c pb p s)"
proof (cases "writes_ok c p")
  case True
  then show ?thesis using do_pim_block_stores [OF sh p pb] by (simp add: stores_keeps)
next
  case False
  show ?thesis
  proof (cases "cmd_type c \<in> {FILL, MOV, ADD, MUL, MAC, MAD}")
    case True
    then have "do_pim_block e c pb p s = Inl Exited"
      using data_command_writes [OF sh p pb] write_odd_exits [OF False] by metis
    then show ?thesis by (simp add: keeps_def)
  next
    case False
    then show ?thesis
      using stores_keeps [OF block_to_bank_stores [OF sh p pb]] stores_keeps [OF stores_refl [OF p sh]]
      by (simp add: do_pim_block_def Let_def)
  qed
qed

lemma each_block_keeps:
  assumes "\<And>pb p' s'. pb < n \<Longrightarrow> packet_ok e p' \<Longrightarrow> rank_shape e s' \<Longrightarrow> keeps e p' s' (f pb (p', s'))"
    and "packet_ok e p" and "rank_shape e s"
  shows "keeps e p s (each_block f n (p, s))"
  using assms(1)
proof (induction n)
  case 0
  then show ?case using assms(2,3) by (simp add: keeps_def)
next
  case (Suc n)
  then have ih: "keeps e p s (each_block f n (p, s))" by simp
  show ?case
    unfolding keeps_def each_block.simps
  proof (intro allI impI)
    fix p2 s2 assume r: "rbind (each_block f n (p, s)) (f n) = Inr (p2, s2)"
    then obtain p1 s1 where m: "each_block f n (p, s) = Inr (p1, s1)" "f n (p1, s1) = Inr (p2, s2)"
      by (auto simp: rbind_Inr)
    then have "packet_ok e p1 \<and> addr p1 = addr p \<and> rank_shape e s1 \<and> crf s1 = crf s \<and> mode s1 = mode s"
      using ih by (simp add: keeps_def)
    with m(2) Suc.prems [of n p1 s1]
    show "packet_ok e p2 \<and> addr p2 = addr p \<and> rank_shape e s2 \<and> crf s2 = crf s \<and> mode s2 = mode s"
      by (simp add: keeps_def)
  qed
qed

lemma advance_keeps:
  "advance_pc e s = Inr s' \<Longrightarrow> banks s' = banks s \<and> pim_blocks s' = pim_blocks s \<and> crf s' = crf s \<and> mode s' = mode s"
  by (auto simp: advance_pc_def Let_def rbind_Inr)

lemma run_command_keeps:
  "rank_shape e s \<Longrightarrow> packet_ok e p \<Longrightarrow> keeps e p s (run_command e c p s)"
proof -
  assume a: "rank_shape e s" "packet_ok e p"
  have sh: "rank_shape e (command_control c s)" using a(1) by (rule ctl_shape) simp_all
  have "keeps e p (command_control c s) (run_command e c p s)"
    unfolding run_command_def
  proof (rule each_block_keeps [OF _ a(2) sh])
    fix pb p' s'
    assume "pb < n_blocks e" and "packet_ok e p'" and "rank_shape e s'"
    then show "keeps e p' s' (case (p', s') of (p, s) \<Rightarrow> do_pim_block e c pb p s)"
      unfolding prod.case by (intro do_pim_block_keeps)
  qed
  then show ?thesis unfolding keeps_def control_keeps .
qed

lemma do_pim_loop_keeps:
  "rank_shape e s \<Longrightarrow> packet_ok e p \<Longrightarrow> keeps e p s (do_pim_loop k e c0 p s)"
proof (induction k arbitrary: c0 s)
  case (Suc k)
  show ?case
    unfolding keeps_def
  proof (intro allI impI)
    fix p' s' assume r: "do_pim_loop (Suc k) e c0 p s = Inr (p', s')"
    then obtain w where w: "crf_word s (pim_pc s) = Inr w" by (auto simp: rbind_Inr)
    define c where "c = from_int w c0"
    consider "cmd_type c = EXIT" "p' = p" "s' = s\<lparr>crf_exit := True\<rparr>"
      | t where "advance_pc e (jump_control c s) = Inr t" "do_pim_loop k e c p t = Inr (p', s')"
      | t where "run_command e c p s = Inr (p', t)" "advance_pc e t = Inr s'"
      using r w by (auto simp: c_def Let_def rbind_Inr split: if_splits)
    then show "packet_ok e p' \<and> addr p' = addr p \<and> rank_shape e s' \<and> crf s' = crf s \<and> mode s' = mode s"
    proof cases
      case 1
      have "rank_shape e s'" using Suc.prems(1) by (rule ctl_shape) (simp_all add: 1(3))
      with 1 Suc.prems show ?thesis by simp
    next
      case 2
      have "rank_shape e t" using Suc.prems(1) by (rule ctl_shape) (use advance_keeps [OF 2(1)] in simp_all)
      moreover have "crf t = crf s" "mode t = mode s" using advance_keeps [OF 2(1)] by simp_all
      ultimately show ?thesis using Suc.IH [of t c] Suc.prems(2) 2(2) by (simp add: keeps_def)
    next
      case 3
      then have "packet_ok e p' \<and> addr p' = addr p \<and> rank_shape e t \<and> crf t = crf s \<and> mode t = mode s"
        using run_command_keeps [OF Suc.prems] by (simp add: keeps_def)
      moreover from this have "rank_shape e s'"
        using advance_keeps [OF 3(2)] ctl_shape [of e t s'] by simp
      ultimately show ?thesis using advance_keeps [OF 3(2)] by simp
    qed
  qed
qed (simp add: keeps_def)

section \<open>Register and bank accesses\<close>

text \<open>The part of a rank that only its instructions and all-bank writes change.\<close>

lemma rbind_InrE: "rbind r f = Inr b \<Longrightarrow> (\<And>a. r = Inr a \<Longrightarrow> f a = Inr b \<Longrightarrow> P) \<Longrightarrow> P"
  by (auto simp: rbind_Inr)

definition shaped :: "pim_env \<Rightarrow> dram_rank \<Rightarrow> dram_rank \<Rightarrow> bool" where
  "shaped e s s' \<longleftrightarrow> rank_shape e s' \<and> mode s' = mode s"

lemma each_block_inv:
  assumes "\<And>pb x y. pb < n \<Longrightarrow> P x \<Longrightarrow> f pb x = Inr y \<Longrightarrow> P y" and "P x" and "each_block f n x = Inr y"
  shows "P y"
  using assms
proof (induction n arbitrary: y)
  case (Suc n)
  then obtain z where "each_block f n x = Inr z" "f n z = Inr y" by (auto simp: rbind_Inr)
  with Suc show ?case by (meson less_Suc_eq)
qed simp

lemma upd_block_shaped:
  assumes "rank_shape e s" and "upd_block pb f s = Inr s'" and "\<And>b. block_ok b \<Longrightarrow> block_ok (f b)"
  shows "shaped e s s'"
proof -
  have "pb < length (pim_blocks s)" using assms(2) by (cases "pb < length (pim_blocks s)") (auto simp: upd_block_def get_block_def)
  then have "pb < n_blocks e" using assms(1) by (simp add: rank_shape_def)
  from upd_block_ok [OF assms(1) this, of f, OF assms(3)] assms(2) show ?thesis
    by (auto simp: shaped_def dest!: ctl_eqD)
qed

lemma each_upd_shaped:
  assumes "rank_shape e s" and "each_block (\<lambda>pb. upd_block pb f) n s = Inr s'" and "\<And>b. block_ok b \<Longrightarrow> block_ok (f b)"
  shows "shaped e s s'"
proof (rule each_block_inv [where P = "shaped e s" and f = "\<lambda>pb. upd_block pb f" and x = s])
  show "shaped e s s" using assms(1) by (simp add: shaped_def)
next
  fix pb x y assume "shaped e s x" and "upd_block pb f x = Inr y"
  then show "shaped e s y" using upd_block_shaped [OF _ _ assms(3)] by (auto simp: shaped_def)
qed (rule assms(2))

lemma set_regs_ok [intro]:
  "block_ok b \<Longrightarrow> block_ok (set_grf_a i d b)" "block_ok b \<Longrightarrow> block_ok (set_grf_b i d b)"
  "block_ok b \<Longrightarrow> block_ok (set_srf d b)"
  by (simp_all add: block_ok_def set_grf_a_def set_grf_b_def set_srf_def)

lemma foldl_block_ok: "(\<And>b i. block_ok b \<Longrightarrow> block_ok (f b i)) \<Longrightarrow> block_ok b \<Longrightarrow> block_ok (foldl f b xs)"
  by (induction xs arbitrary: b) auto

lemma zero_regs_ok: "block_ok b \<Longrightarrow> block_ok (zero_grf_a b)" "block_ok b \<Longrightarrow> block_ok (zero_grf_b b)"
  by (auto simp: zero_grf_a_def zero_grf_b_def intro!: foldl_block_ok)

definition mode_of :: "burst \<Rightarrow> dram_mode" where
  "mode_of d = (if (lane d 0 :: u8) AND 1 \<noteq> 0 then HAB_PIM else HAB)"

lemma set_mode_shape: "rank_shape e s \<Longrightarrow> rank_shape e (set_mode d s) \<and> mode (set_mode d s) = mode_of d"
  by (auto simp: set_mode_def Let_def mode_of_def intro: ctl_shape)

lemma control_pim_shape:
  assumes "rank_shape e s" and "control_pim e d s = Inr s'"
  shows "rank_shape e s' \<and> mode s' = mode_of d"
proof -
  obtain s1 where s1: "(if (lane d 20 :: u8) \<noteq> 0 then each_block (\<lambda>pb. upd_block pb zero_grf_a) (n_blocks e) s else Inr s) = Inr s1"
    and r: "rbind (if (lane d 21 :: u8) \<noteq> 0 then each_block (\<lambda>pb. upd_block pb zero_grf_b) (n_blocks e) s1 else Inr s1)
      (\<lambda>s. Inr (set_mode d s)) = Inr s'"
    using assms(2) by (auto simp: control_pim_def rbind_Inr simp del: if_split)
  then obtain s2 where s2: "(if (lane d 21 :: u8) \<noteq> 0 then each_block (\<lambda>pb. upd_block pb zero_grf_b) (n_blocks e) s1 else Inr s1) = Inr s2"
    "s' = set_mode d s2"
    by (auto simp: rbind_Inr simp del: if_split)
  have "rank_shape e s1"
    using s1 assms(1) each_upd_shaped [OF assms(1) _ zero_regs_ok(1)] by (auto simp: shaped_def split: if_splits)
  then have "rank_shape e s2"
    using s2(1) each_upd_shaped [of e s1 _ _ s2, OF _ _ zero_regs_ok(2)] by (auto simp: shaped_def split: if_splits)
  then show ?thesis using s2(2) set_mode_shape by simp
qed

lemma write_regs_shape:
  assumes sh: "rank_shape e s" and d: "pdata p = Some d" and r: "write_regs e p s = Inr s'"
  shows "rank_shape e s' \<and> mode s' = (if pcolumn p = 0 then mode_of d else mode s)"
proof -
  have regs: "shaped e s s'" if "each_block (\<lambda>pb s. upd_block pb f s) (n_blocks e) s = Inr s'"
    "\<And>b. block_ok b \<Longrightarrow> block_ok (f b)" for f
    using each_upd_shaped [OF sh that] .
  have crf: "rank_shape e (s\<lparr>crf := (crf s)[i := x]\<rparr>)" for i x using sh by (simp add: rank_shape_def)
  show ?thesis
  proof (cases "pcolumn p = 0")
    case True
    then show ?thesis using r d control_pim_shape [OF sh] by (simp add: write_regs_def)
  next
    case n0: False
    show ?thesis
    proof (cases "0x08 \<le> pcolumn p \<and> pcolumn p \<le> 0x0f \<or> 0x18 \<le> pcolumn p \<and> pcolumn p \<le> 0x1f")
      case True
      define f where "f = (if pcolumn p - 8 < 8 then set_grf_a (unat (pcolumn p - 8)) d
                           else set_grf_b (unat (pcolumn p - 0x18)) d)"
      have "each_block (\<lambda>pb s. upd_block pb f s) (n_blocks e) s = Inr s'"
        using r d n0 True unfolding write_regs_def Let_def f_def by simp
      moreover have "block_ok (f b)" if "block_ok b" for b using that by (simp add: f_def set_regs_ok)
      ultimately show ?thesis using regs n0 by (simp add: shaped_def)
    next
      case False
      show ?thesis
      proof (cases "0x04 \<le> pcolumn p \<and> pcolumn p \<le> 0x07")
        case True
        then have "s' = s\<lparr>crf := (crf s)[unat (pcolumn p - 4) := d]\<rparr>"
          using r d n0 False unfolding write_regs_def Let_def by simp
        then show ?thesis using crf n0 by simp
      next
        case crf_no: False
        show ?thesis
        proof (cases "pcolumn p = 1")
          case True
          then have "each_block (\<lambda>pb s. upd_block pb (set_srf d) s) (n_blocks e) s = Inr s'"
            using r d unfolding write_regs_def Let_def by (simp add: word_le_nat_alt)
          then show ?thesis using regs [of "set_srf d"] set_regs_ok(3) n0 by (simp add: shaped_def)
        next
          case no: False
          have "s' = s" using r n0 False crf_no no unfolding write_regs_def Let_def by simp
          then show ?thesis using sh n0 by simp
        qed
      qed
    qed
  qed
qed

lemma write_bank_shape:
  assumes "rank_shape e s" and "packet_ok e p" and "write_bank i p s = Inr s'"
  shows "rank_shape e s' \<and> ctl s' = ctl s \<and> pim_blocks s' = pim_blocks s"
proof -
  have "i < length (banks s)" using assms(3) by (cases "i < length (banks s)") (auto simp: write_bank_def)
  from write_bank_stores [OF assms(1,2) this] assms(3) show ?thesis by (auto simp: write_bank_def rbind_Inr)
qed

lemma write_hab_shape:
  assumes sh: "rank_shape e s" and p: "packet_ok e p" and r: "write_hab e p s = Inr (q, s')"
  shows "rank_shape e s' \<and> mode s' = (if prow p = PIM_REG_RA \<and> pcolumn p = 0 then mode_of (the (pdata p)) else mode s)"
proof (cases "prow p = PIM_REG_RA")
  case True
  then have "write_regs e p s = Inr s'" using r by (auto simp: write_hab_def rbind_Inr)
  moreover obtain d where d: "pdata p = Some d" using p by (auto simp: packet_ok_def)
  ultimately show ?thesis using write_regs_shape [OF sh d, of s'] True d by simp
next
  case False
  have kp: "keeps e p s (each_block (\<lambda>pb (p, s). block_to_bank pb p s) (n_blocks e) (p, s))"
  proof (rule each_block_keeps [OF _ p sh])
    fix pb p' s' assume "pb < n_blocks e" and "packet_ok e p'" and "rank_shape e s'"
    then show "keeps e p' s' (case (p', s') of (p, s) \<Rightarrow> block_to_bank pb p s)"
      unfolding prod.case by (intro stores_keeps block_to_bank_stores)
  qed
  show ?thesis
  proof (cases "is_reserved_ra (prow p)")
    case True
    then show ?thesis using r False sh by (simp add: write_hab_def)
  next
    case no: False
    then have "each_block (\<lambda>pb (p, s). block_to_bank pb p s) (n_blocks e) (p, s) = Inr (q, s')"
      using r False unfolding write_hab_def by simp
    then show ?thesis using kp False unfolding keeps_def by simp
  qed
qed

lemma read_hab_shape:
  assumes sh: "rank_shape e s" and p: "packet_ok e p" and r: "read_hab e p s = Inr (q, s')"
  shows "rank_shape e s' \<and> mode s' = mode s"
proof (cases "is_reserved_ra (prow p)")
  case False
  let ?f = "\<lambda>pb (p, s). rbind (read_bank (unat (of_nat (pb * 2) + pbank p)) p s) (\<lambda>p.
             rbind (deref (pdata p)) (\<lambda>d. rbind (upd_block pb (set_grf_b (grf_idx (pcolumn p)) d) s) (\<lambda>s. Inr (p, s))))"
  have r': "each_block ?f (n_blocks e) (p, s) = Inr (q, s')" using r False by (simp add: read_hab_def)
  have "shaped e s (snd (q, s'))"
  proof (rule each_block_inv [where P = "\<lambda>x. shaped e s (snd x)", OF _ _ r'])
    show "shaped e s (snd (p, s))" using sh by (simp add: shaped_def)
  next
    fix pb x y assume a: "shaped e s (snd x)" and b: "?f pb x = Inr y"
    obtain p1 s1 where x: "x = (p1, s1)" by (cases x)
    from b obtain p2 d s2 where "upd_block pb (set_grf_b (grf_idx (pcolumn p2)) d) s1 = Inr s2" "y = (p2, s2)"
      unfolding x prod.case by (elim rbind_InrE) auto
    then have "upd_block pb (set_grf_b (grf_idx (pcolumn p2)) d) (snd x) = Inr (snd y)" by (simp add: x)
    from upd_block_shaped [OF _ this] a show "shaped e s (snd y)" by (auto simp: shaped_def)
  qed
  then show ?thesis by (simp add: shaped_def)
qed (use r sh in \<open>simp add: read_hab_def\<close>)

section \<open>The mode machine\<close>

inductive mode_edge :: "bus_packet \<Rightarrow> dram_mode \<Rightarrow> dram_mode \<Rightarrow> bool" where
  stay: "mode_edge p m m"
| enter_all_bank: "ptype p = ACTIVATE \<Longrightarrow> prow p = PIM_ABMR_RA \<Longrightarrow> pcolumn p = 0x1f \<Longrightarrow> mode_edge p SB HAB"
| leave_all_bank: "ptype p = PRECHARGE \<Longrightarrow> prow p = PIM_SBMR_RA \<Longrightarrow> mode_edge p HAB SB"
| configure: "ptype p = WRITE \<Longrightarrow> prow p = PIM_REG_RA \<Longrightarrow> pcolumn p = 0 \<Longrightarrow> pdata p = Some d \<Longrightarrow> m \<noteq> SB
    \<Longrightarrow> mode_edge p m (mode_of d)"

inductive_cases mode_edge_SB: "mode_edge p SB m"
inductive_simps mode_edge_simps: "mode_edge p m m'"

definition pim_untouched :: "dram_rank \<Rightarrow> dram_rank \<Rightarrow> bool" where
  "pim_untouched s s' \<longleftrightarrow> pim_blocks s' = pim_blocks s \<and> crf s' = crf s \<and> pim_pc s' = pim_pc s"

text \<open>What accepting a packet may do to the PIM side of a rank.\<close>

definition mode_step :: "pim_env \<Rightarrow> bus_packet \<Rightarrow> dram_rank \<Rightarrow> dram_rank \<Rightarrow> bool" where
  "mode_step e p s s' \<longleftrightarrow> rank_shape e s' \<and> mode_edge p (mode s) (mode s') \<and> (mode s = SB \<longrightarrow> pim_untouched s s')"

lemma mode_step_refl: "rank_shape e s \<Longrightarrow> mode_step e p s s"
  by (simp add: mode_step_def pim_untouched_def stay)

lemma set_the_mode_step:
  "rank_shape e s \<Longrightarrow> mode_edge p (mode s) m \<Longrightarrow> mode_step e p s (s\<lparr>mode := m\<rparr>)"
  by (auto simp: mode_step_def pim_untouched_def intro: ctl_shape)

lemma do_pim_step:
  assumes "rank_shape e s" and "packet_ok e p" and "do_pim fuel e p s = Inr (q, s')" and "mode s \<noteq> SB"
  shows "mode_step e p s s'"
proof -
  have "packet_ok e (p\<lparr>prow := accessible_ra (prow p)\<rparr>)" using assms(2) by (simp add: packet_ok_def)
  from do_pim_loop_keeps [OF assms(1) this] assms(3,4) show ?thesis
    by (auto simp: keeps_def do_pim_def mode_step_def stay)
qed

lemma hab_access_step:
  assumes "rank_shape e (pim s)" and "packet_ok e p" and "mode (pim s) \<noteq> SB"
    and "hab_access fuel e acc p s = Inr (q, s')"
    and "\<And>q r. acc p (pim s) = Inr (q, r) \<Longrightarrow> mode_step e p (pim s) r"
  shows "mode_step e p (pim s) (pim s')"
proof -
  obtain q' r where "(if mode (pim s) = HAB_PIM \<and> is_toggle_cond p (pim s) then do_pim fuel e p (pim s) else acc p (pim s))
      = Inr (q', r)" and s': "s' = s\<lparr>pim := r\<rparr>"
    using assms(4) unfolding hab_access_def by (elim rbind_InrE) auto
  then have "mode_step e p (pim s) r"
    using do_pim_step [OF assms(1,2) _ assms(3)] assms(5) by (simp split: if_splits)
  with s' show ?thesis by simp
qed

lemma read_access_step:
  "rank_shape e s \<Longrightarrow> packet_ok e p \<Longrightarrow> mode s \<noteq> SB \<Longrightarrow> read_hab e p s = Inr (q, r) \<Longrightarrow> mode_step e p s r"
  using read_hab_shape [of e s p q r] by (simp add: mode_step_def stay)

lemma write_access_step:
  assumes "rank_shape e s" and "packet_ok e p" and "ptype p = WRITE" and "mode s \<noteq> SB"
    and "write_hab e p s = Inr (q, r)"
  shows "mode_step e p s r"
proof -
  obtain d where "pdata p = Some d" using assms(2) by (auto simp: packet_ok_def)
  with write_hab_shape [OF assms(1,2,5)] assms(3,4) show ?thesis
    by (auto simp: mode_step_def stay configure)
qed

lemma write_sb_step:
  assumes "rank_shape e (pim s)" and "packet_ok e p" and "write_sb p s = Inr s'"
  shows "mode_step e p (pim s) (pim s')"
proof (cases "prow p \<noteq> PIM_REG_RA \<and> \<not> is_reserved_ra (prow p)")
  case True
  then obtain r where "write_bank (unat (pbank p)) p (pim s) = Inr r" "s' = s\<lparr>pim := r\<rparr>"
    using assms(3) unfolding write_sb_def by (simp only: if_True simp_thms) (elim rbind_InrE, simp)
  from write_bank_shape [OF assms(1,2) this(1)] this(2) have "rank_shape e (pim s')" "mode (pim s') = mode (pim s)"
    "pim_untouched (pim s) (pim s')"
    by (auto simp: pim_untouched_def dest!: ctl_eqD)
  then show ?thesis by (simp add: mode_step_def stay)
next
  case False
  then show ?thesis using assms(1,3) mode_step_refl by (auto simp: write_sb_def)
qed

text \<open>The packets a rank is sent: reads and writes carry a burst and name a column of the banks.\<close>

definition bus_ok :: "pim_env \<Rightarrow> bus_packet \<Rightarrow> bool" where
  "bus_ok e p \<longleftrightarrow> (ptype p = READ \<or> ptype p = WRITE \<longrightarrow> packet_ok e p)"

lemma send_step:
  assumes "rank_shape e (pim s)" and "bus_ok e p" and "send_to_bank fuel e p s = Inr s'"
  shows "mode_step e p (pim s) (pim s')"
proof (cases "ptype p")
  case READ
  then have ok: "packet_ok e p" using assms(2) by (simp add: bus_ok_def)
  show ?thesis
  proof (cases "mode (pim s) = SB")
    case True
    then show ?thesis using assms(1,3) READ mode_step_refl by (auto simp: send_to_bank_def send_read_def rbind_Inr)
  next
    case False
    then obtain q s1 where "hab_access fuel e (read_hab e) p s = Inr (q, s1)" "pim s' = pim s1"
      using assms(3) READ by (auto simp: send_to_bank_def send_read_def rbind_Inr)
    then show ?thesis
      using hab_access_step [OF assms(1) ok False _ read_access_step [OF assms(1) ok False]] by simp
  qed
next
  case WRITE
  then have ok: "packet_ok e p" using assms(2) by (simp add: bus_ok_def)
  show ?thesis
  proof (cases "mode (pim s) = SB")
    case True
    then show ?thesis using assms(3) WRITE write_sb_step [OF assms(1) ok] by (simp add: send_to_bank_def send_write_def)
  next
    case False
    then obtain q where "hab_access fuel e (write_hab e) p s = Inr (q, s')"
      using assms(3) WRITE by (auto simp: send_to_bank_def send_write_def rbind_Inr)
    then show ?thesis
      using hab_access_step [OF assms(1) ok False _ write_access_step [OF assms(1) ok WRITE False]] by simp
  qed
next
  case ACTIVATE
  then have s': "s' = send_activate e p s" using assms(3) by (simp add: send_to_bank_def)
  show ?thesis
  proof (cases "mode (pim s) = SB \<and> prow p = PIM_ABMR_RA \<and> pcolumn p = 0x1f")
    case True
    then have "mode_edge p (mode (pim s)) HAB" using ACTIVATE enter_all_bank by simp
    from set_the_mode_step [OF assms(1) this] mode_step_refl [OF assms(1)] s' show ?thesis
      by (simp add: send_activate_def Let_def)
  next
    case False
    then have "s' = s" using s' unfolding send_activate_def by (simp only: if_False)
    then show ?thesis using mode_step_refl [OF assms(1)] by simp
  qed
next
  case PRECHARGE
  then have s': "s' = send_precharge p s" using assms(3) by (simp add: send_to_bank_def)
  show ?thesis
  proof (cases "mode (pim s) = HAB \<and> prow p = PIM_SBMR_RA")
    case True
    then have "mode_edge p (mode (pim s)) SB" using PRECHARGE leave_all_bank by simp
    from set_the_mode_step [OF assms(1) this] mode_step_refl [OF assms(1)] s' show ?thesis
      by (simp add: send_precharge_def Let_def)
  next
    case False
    then have "s' = s" using s' unfolding send_precharge_def by (simp only: if_False)
    then show ?thesis using mode_step_refl [OF assms(1)] by simp
  qed
qed (use assms mode_step_refl in \<open>auto simp: send_to_bank_def\<close>)

lemma receive_step:
  assumes "rank_shape e (pim s)" and "bus_ok e p" and "receive_from_bus fuel e p s = Inr s'"
  shows "mode_step e p (pim s) (pim s')"
proof -
  obtain s1 where s1: "send_to_bank fuel e p s1 = Inr s'" "pim s1 = pim s"
    using assms(3) unfolding receive_from_bus_def update_state_def
    by (elim rbind_InrE) (auto simp: rbind_Inr split: if_splits)
  with send_step [OF _ assms(2) s1(1)] assms(1) show ?thesis by simp
qed

section \<open>The handshakes\<close>

text \<open>The packets a rank received with the mode each found, the latest first.\<close>

type_synonym mode_log = "(bus_packet \<times> dram_mode) list"

definition enter_packet :: "bus_packet \<Rightarrow> bool" where
  "enter_packet p \<longleftrightarrow> ptype p = ACTIVATE \<and> prow p = PIM_ABMR_RA \<and> pcolumn p = 0x1f"

definition leave_packet :: "bus_packet \<Rightarrow> bool" where
  "leave_packet p \<longleftrightarrow> ptype p = PRECHARGE \<and> prow p = PIM_SBMR_RA"

text \<open>Bank \<^verbatim>\<open>b\<close> was activated for the all-bank mode during the present stay in single-bank mode; it was precharged
  for the single-bank mode since the rank was last in single-bank mode.\<close>

definition entering :: "mode_log \<Rightarrow> u32 \<Rightarrow> bool" where
  "entering L b \<longleftrightarrow> list_ex (\<lambda>(p, m). enter_packet p \<and> pbank p = b) (takeWhile (\<lambda>(p, m). m = SB) L)"

definition leaving :: "mode_log \<Rightarrow> u32 \<Rightarrow> bool" where
  "leaving L b \<longleftrightarrow> list_ex (\<lambda>(p, m). m = HAB \<and> leave_packet p \<and> pbank p = b) (takeWhile (\<lambda>(p, m). m \<noteq> SB) L)"

definition entry_banks :: "pim_env \<Rightarrow> u32 list" where
  "entry_banks e = (if NUM_BANKS (env_cfg e) \<le> 2 then [0, 1] else [0, 1, 8, 9])"

text \<open>A rank leaves single-bank mode exactly when the last of the entry banks is activated, and enters it exactly
  when the second of banks 0 and 1 is precharged.\<close>

definition handshake :: "pim_env \<Rightarrow> mode_log \<Rightarrow> bus_packet \<Rightarrow> dram_mode \<Rightarrow> dram_mode \<Rightarrow> bool" where
  "handshake e L p m m' \<longleftrightarrow>
     (if m = SB then m' = (if enter_packet p \<and> list_all (entering ((p, m) # L)) (entry_banks e) then HAB else SB)
      else m' = SB \<longleftrightarrow> m = HAB \<and> leave_packet p \<and> list_all (leaving ((p, m) # L)) [0, 1])"

definition flags_inv :: "rank_state \<Rightarrow> mode_log \<Rightarrow> bool" where
  "flags_inv s L \<longleftrightarrow>
     (if mode (pim s) = SB
      then (abmr1_even s \<longleftrightarrow> entering L 0) \<and> (abmr1_odd s \<longleftrightarrow> entering L 1) \<and> (abmr2_even s \<longleftrightarrow> entering L 8)
        \<and> (abmr2_odd s \<longleftrightarrow> entering L 9) \<and> \<not> sbmr1 s \<and> \<not> sbmr2 s
      else (sbmr1 s \<longleftrightarrow> leaving L 0) \<and> (sbmr2 s \<longleftrightarrow> leaving L 1)
        \<and> \<not> abmr1_even s \<and> \<not> abmr1_odd s \<and> \<not> abmr2_even s \<and> \<not> abmr2_odd s)"

definition same_flags :: "rank_state \<Rightarrow> rank_state \<Rightarrow> bool" where
  "same_flags s s' \<longleftrightarrow> abmr1_even s' = abmr1_even s \<and> abmr1_odd s' = abmr1_odd s \<and> abmr2_even s' = abmr2_even s
     \<and> abmr2_odd s' = abmr2_odd s \<and> sbmr1 s' = sbmr1 s \<and> sbmr2 s' = sbmr2 s"

lemma entering_Cons [simp]:
  "entering ((p, m) # L) b \<longleftrightarrow> m = SB \<and> (enter_packet p \<and> pbank p = b \<or> entering L b)"
  by (auto simp: entering_def)

lemma leaving_Cons [simp]:
  "leaving ((p, m) # L) b \<longleftrightarrow> m \<noteq> SB \<and> (m = HAB \<and> leave_packet p \<and> pbank p = b \<or> leaving L b)"
  by (auto simp: leaving_def)

text \<open>A packet that neither enters nor leaves.\<close>

lemma handshake_stays:
  assumes "flags_inv s L" and "same_flags s s'" and "mode (pim s') = SB \<longleftrightarrow> mode (pim s) = SB"
    and "\<not> (mode (pim s) = SB \<and> enter_packet p)" and "\<not> (mode (pim s) = HAB \<and> leave_packet p)"
  shows "flags_inv s' ((p, mode (pim s)) # L) \<and> handshake e L p (mode (pim s)) (mode (pim s'))"
  using assms by (auto simp: flags_inv_def same_flags_def handshake_def)

lemma access_flags:
  assumes "send_to_bank fuel e p s = Inr s'" and "ptype p \<noteq> ACTIVATE" and "ptype p \<noteq> PRECHARGE"
  shows "same_flags s s'"
proof (cases "ptype p")
  case READ
  then show ?thesis
    using assms(1) unfolding send_to_bank_def send_read_def hab_access_def
    by (auto simp: rbind_Inr same_flags_def split: if_splits)
next
  case WRITE
  then show ?thesis
    using assms(1) unfolding send_to_bank_def send_write_def hab_access_def write_sb_def
    by (auto simp: rbind_Inr same_flags_def split: if_splits)
qed (use assms in \<open>auto simp: send_to_bank_def same_flags_def\<close>)

lemma activate_handshake:
  assumes "flags_inv s L" and "mode (pim s) = SB" and "enter_packet p"
  shows "flags_inv (send_activate e p s) ((p, SB) # L) \<and> handshake e L p SB (mode (pim (send_activate e p s)))"
  using assms by (auto simp: send_activate_def enter_packet_def flags_inv_def handshake_def entry_banks_def Let_def
      leave_packet_def leaving_def)

lemma precharge_handshake:
  assumes "flags_inv s L" and "mode (pim s) = HAB" and "leave_packet p"
  shows "flags_inv (send_precharge p s) ((p, HAB) # L) \<and> handshake e L p HAB (mode (pim (send_precharge p s)))"
  using assms by (auto simp: send_precharge_def leave_packet_def flags_inv_def handshake_def Let_def)

lemma send_handshake:
  assumes "rank_shape e (pim s)" and "bus_ok e p" and "send_to_bank fuel e p s = Inr s'" and fl: "flags_inv s L"
  shows "flags_inv s' ((p, mode (pim s)) # L) \<and> handshake e L p (mode (pim s)) (mode (pim s'))"
proof -
  consider "mode (pim s) = SB" "enter_packet p" | "mode (pim s) = HAB" "leave_packet p"
    | "\<not> (mode (pim s) = SB \<and> enter_packet p)" "\<not> (mode (pim s) = HAB \<and> leave_packet p)" by blast
  then show ?thesis
  proof cases
    case 1
    then have "s' = send_activate e p s" using assms(3) by (simp add: send_to_bank_def enter_packet_def)
    with activate_handshake [OF fl 1] 1 show ?thesis by simp
  next
    case 2
    then have "s' = send_precharge p s" using assms(3) by (simp add: send_to_bank_def leave_packet_def)
    with precharge_handshake [OF fl 2] 2 show ?thesis by simp
  next
    case 3
    have edge: "mode_edge p (mode (pim s)) (mode (pim s'))"
      using send_step [OF assms(1-3)] by (simp add: mode_step_def)
    have same: "same_flags s s' \<and> (ptype p = ACTIVATE \<or> ptype p = PRECHARGE \<longrightarrow> s' = s)"
    proof (cases "ptype p = ACTIVATE \<or> ptype p = PRECHARGE")
      case True
      then have "s' = s" using assms(3) 3
        by (auto simp: send_to_bank_def send_activate_def send_precharge_def enter_packet_def leave_packet_def)
      then show ?thesis by (simp add: same_flags_def)
    next
      case False
      then show ?thesis using access_flags [OF assms(3)] by simp
    qed
    have "mode (pim s') = SB \<longleftrightarrow> mode (pim s) = SB"
      using edge same by (auto simp: mode_edge_simps mode_of_def split: if_splits)
    from handshake_stays [OF fl _ this 3] same show ?thesis by blast
  qed
qed

lemma receive_handshake:
  assumes "rank_shape e (pim s)" and "bus_ok e p" and "receive_from_bus fuel e p s = Inr s'" and "flags_inv s L"
  shows "flags_inv s' ((p, mode (pim s)) # L) \<and> handshake e L p (mode (pim s)) (mode (pim s'))"
proof -
  obtain s1 where s1: "send_to_bank fuel e p s1 = Inr s'" "pim s1 = pim s" "same_flags s s1"
    using assms(3) unfolding receive_from_bus_def update_state_def
    by (elim rbind_InrE) (auto simp: rbind_Inr same_flags_def split: if_splits)
  then have "flags_inv s1 L" using assms(4) by (simp add: flags_inv_def same_flags_def)
  with send_handshake [OF _ assms(2) s1(1)] assms(1) s1(2) show ?thesis by simp
qed

section \<open>Runs\<close>

fun op_ok :: "pim_env \<Rightarrow> rank_op \<Rightarrow> bool" where
  "op_ok e (Receive p) = bus_ok e p"
| "op_ok e Cycle = True"

fun mode_log :: "nat \<Rightarrow> pim_env \<Rightarrow> rank_op list \<Rightarrow> rank_state \<Rightarrow> mode_log \<Rightarrow> mode_log" where
  "mode_log fuel e [] s L = L"
| "mode_log fuel e (op # ops) s L =
     (case rank_op_step fuel e op (s, []) of
        Inl _ \<Rightarrow> L
      | Inr (s', _) \<Rightarrow> mode_log fuel e ops s' (case op of Receive p \<Rightarrow> (p, mode (pim s)) # L | Cycle \<Rightarrow> L))"

lemma step_any_log:
  "rank_op_step fuel e op (s, evs) = Inr (s', evs') \<Longrightarrow> \<exists>x. rank_op_step fuel e op (s, evs0) = Inr (s', x)"
  by (cases op) (auto simp: rbind_Inr split: option.splits prod.splits)

lemma update_flags:
  assumes "rank_update e s = Some (q, s')" and "flags_inv s L"
  shows "flags_inv (rank_step_clock s') L"
proof -
  obtain out s1 where d: "deliver s = (out, s1)" by (cases "deliver s")
  have f1: "same_flags s (snd (deliver s))"
    by (cases "outgoing s") (simp_all add: deliver_def same_flags_def Let_def)
  have "same_flags s1 s'"
    using assms(1) unfolding rank_update_def d Let_def prod.case map_option_eq_Some prod.inject
    by (elim exE conjE, hypsubst) (simp add: same_flags_def)
  then have "same_flags s s'" using f1 d by (simp add: same_flags_def)
  then show ?thesis
    using assms(2) rank_update_keeps [OF assms(1)] by (simp add: flags_inv_def same_flags_def rank_step_clock_def)
qed

lemma run_rank_modes:
  assumes "rank_shape e (pim s)" and "flags_inv s L" and "list_all (op_ok e) ops"
    and "run_rank fuel e ops (s, evs) = Inr (s', evs')"
  shows "rank_shape e (pim s') \<and> flags_inv s' (mode_log fuel e ops s L)"
  using assms
proof (induction ops arbitrary: s evs L)
  case (Cons op ops)
  obtain s1 evs1 where st: "rank_op_step fuel e op (s, evs) = Inr (s1, evs1)"
    "run_rank fuel e ops (s1, evs1) = Inr (s', evs')"
    using Cons.prems(4) by (auto simp: rbind_Inr)
  obtain x where x: "rank_op_step fuel e op (s, []) = Inr (s1, x)" using step_any_log [OF st(1)] by blast
  define L1 where "L1 = (case op of Receive p \<Rightarrow> (p, mode (pim s)) # L | Cycle \<Rightarrow> L)"
  have "rank_shape e (pim s1) \<and> flags_inv s1 L1"
  proof (cases op)
    case (Receive p)
    then have "receive_from_bus fuel e p s = Inr s1" "bus_ok e p" using st(1) Cons.prems(3) by (auto simp: rbind_Inr)
    with receive_step [OF Cons.prems(1)] receive_handshake [OF Cons.prems(1) _ _ Cons.prems(2)] Receive
    show ?thesis by (simp add: mode_step_def L1_def)
  next
    case Cycle
    then obtain q s2 where c: "rank_update e s = Some (q, s2)" "s1 = rank_step_clock s2"
      using st(1) by (auto split: option.splits prod.splits)
    then show ?thesis
      using Cons.prems(1,2) rank_update_keeps [OF c(1)] update_flags [OF c(1)] Cycle
      by (simp add: rank_step_clock_def L1_def)
  qed
  then show ?case using Cons.IH [OF _ _ _ st(2), of L1] Cons.prems(3) x by (simp add: L1_def)
qed simp

lemma rank_init_shape:
  assumes "2 * n_blocks e \<le> n_banks e"
  shows "rank_shape e (pim (rank_init junk (env_cfg e)))"
  using assms
  by (auto simp: rank_shape_def rank_init_def pim_rank_init_def n_blocks_def block_ok_def pim_block_init_def banks_ok_def
      n_banks_def split: prod.split) (simp_all add: bank_init_def bank_ok_def)

lemma rank_init_flags: "flags_inv (rank_init junk c) []"
  by (simp add: flags_inv_def rank_init_def pim_rank_init_def entering_def split: prod.split)

text \<open>C34: over any run of a rank from its constructor, accepting a packet moves the mode only along the documented
  edges (an activation of the all-bank row enters the all-bank mode, a precharge of the single-bank row leaves it,
  a write of the control register chooses between all-bank and PIM mode), keeps the number and sizes of banks,
  instruction bursts and registers, and in single-bank mode leaves the PIM registers, instructions and program
  counter alone.  The all-bank mode is entered exactly by the activation that completes banks 0, 1, 8 and 9 (0 and 1
  in a rank of two banks) within one stay in single-bank mode, in any order, and left exactly by the precharge that
  completes banks 0 and 1 since then.  Reads and writes are assumed to carry data and a column of the bank; other
  packets may carry none.\<close>

theorem rank_modes:
  assumes "2 * n_blocks e \<le> n_banks e" and "list_all (op_ok e) ops"
    and "run_rank fuel e ops (rank_init junk (env_cfg e), []) = Inr (s, evs)"
    and "bus_ok e p" and "receive_from_bus fuel e p s = Inr s'"
  shows "rank_shape e (pim s') \<and> mode_edge p (mode (pim s)) (mode (pim s'))
    \<and> (mode (pim s) = SB \<longrightarrow> pim_untouched (pim s) (pim s'))
    \<and> handshake e (mode_log fuel e ops (rank_init junk (env_cfg e)) []) p (mode (pim s)) (mode (pim s'))"
proof -
  have r: "rank_shape e (pim s)" "flags_inv s (mode_log fuel e ops (rank_init junk (env_cfg e)) [])"
    using run_rank_modes [OF rank_init_shape [OF assms(1)] rank_init_flags assms(2,3)] by simp_all
  from receive_step [OF r(1) assms(4,5)] receive_handshake [OF r(1) assms(4,5) r(2)]
  show ?thesis by (simp add: mode_step_def)
qed

section \<open>A switch of modes\<close>

text \<open>A rank of sixteen banks; the activations carry no data.  The fourth of them enters the all-bank mode.\<close>

definition wide_env :: pim_env where
  "wide_env = demo_env\<lparr>env_cfg := (env_cfg demo_env)\<lparr>NUM_BANKS := 16\<rparr>\<rparr>"

definition enter_bank :: "u32 \<Rightarrow> bus_packet" where
  "enter_bank b = mk_packet ACTIVATE 0 0x1f PIM_ABMR_RA 0 b None"

definition enter_ops :: "rank_op list" where
  "enter_ops = [Receive (enter_bank 0), Receive (enter_bank 9), Receive (enter_bank 1)]"

abbreviation wide_init :: rank_state where
  "wide_init \<equiv> rank_init (False, False, False, False) (env_cfg wide_env)"

lemma enter_receive: "receive_from_bus k wide_env (enter_bank b) s = Inr (send_activate wide_env (enter_bank b) s)"
  by (simp add: receive_from_bus_def enter_bank_def is_reserved_ra_def PIM_ABMR_RA_def send_to_bank_def)

lemma enter_run:
  "run_rank 2 wide_env enter_ops (wide_init, []) = Inr (wide_init\<lparr>abmr1_even := True, abmr1_odd := True, abmr2_odd := True\<rparr>, [])"
proof -
  have m: "mode (pim wide_init) = SB" "\<not> abmr1_even wide_init" "\<not> abmr1_odd wide_init" "\<not> abmr2_even wide_init"
    "\<not> abmr2_odd wide_init" "NUM_BANKS (env_cfg wide_env) = 16"
    by (simp_all add: rank_init_def pim_rank_init_def wide_env_def)
  have p: "prow (enter_bank b) = PIM_ABMR_RA" "pcolumn (enter_bank b) = 0x1f" "pbank (enter_bank b) = b"
    "is_reserved_ra PIM_ABMR_RA" for b
    by (simp_all add: enter_bank_def is_reserved_ra_def PIM_ABMR_RA_def)
  show ?thesis by (simp add: enter_ops_def enter_receive send_activate_def m p)
qed

theorem rank_modes_witness:
  "\<exists>s s'. run_rank 2 wide_env enter_ops (wide_init, []) = Inr (s, []) \<and> mode (pim s) = SB
     \<and> receive_from_bus 2 wide_env (enter_bank 8) s = Inr s' \<and> mode (pim s') = HAB
     \<and> handshake wide_env (mode_log 2 wide_env enter_ops wide_init []) (enter_bank 8) SB HAB"
proof -
  define s where "s = wide_init\<lparr>abmr1_even := True, abmr1_odd := True, abmr2_odd := True\<rparr>"
  define s' where "s' = send_activate wide_env (enter_bank 8) s"
  have r: "receive_from_bus 2 wide_env (enter_bank 8) s = Inr s'" by (simp add: s'_def enter_receive)
  have run: "run_rank 2 wide_env enter_ops (wide_init, []) = Inr (s, [])" by (simp add: s_def enter_run)
  have "2 * n_blocks wide_env \<le> n_banks wide_env" "list_all (op_ok wide_env) enter_ops" "bus_ok wide_env (enter_bank 8)"
    by (simp_all add: wide_env_def demo_env_def enter_ops_def enter_bank_def bus_ok_def n_banks_def n_blocks_def)
  note h = rank_modes [OF this(1,2) run this(3) r]
  have m: "mode (pim s) = SB" by (simp add: s_def rank_init_def pim_rank_init_def)
  moreover have "mode (pim s') = HAB"
    using m by (simp add: s'_def send_activate_def enter_bank_def s_def wide_env_def Let_def)
  ultimately show ?thesis using h run r by (intro exI [of _ s] exI [of _ s']) simp
qed

end
