(* ===== verification/CmdQueue.thy ===== *)
theory CmdQueue
  imports DramRank
begin

text \<open>
  The command queue of a memory controller: \<^verbatim>\<open>CommandQueue\<close> of \<^verbatim>\<open>PIMSimulator/src/CommandQueue.h\<close> and
  \<^verbatim>\<open>CommandQueue.cpp\<close>.  The bank states it reads belong to the controller, the modes to the ranks; both are
  arguments.  The two round-robin scans take a bound on their steps; \<^verbatim>\<open>command_scan_defined\<close> and
  \<^verbatim>\<open>precharge_scan_defined\<close> of theory \<^verbatim>\<open>CmdTotal\<close> show that one full round is enough.  Printing is not modelled.
\<close>

section \<open>State\<close>

text \<open>A bank state as the controller keeps it.\<close>

record mc_bank = bank_state +
  last_command :: packet_type
  state_countdown :: u32

definition mc_bank_init :: mc_bank where
  "mc_bank_init = bank_state.extend bank_state_init \<lparr>last_command = READ, state_countdown = 0\<rparr>"

datatype sched_policy = RankThenBankRoundRobin | BankThenRankRoundRobin

datatype queue_structure = PerRank | PerRankPerBank

record cmd_queue =
  cq_structure :: queue_structure
  cq_policy :: sched_policy
  queues :: "bus_packet list list list"
  cq_next_bank :: u32
  cq_next_rank :: u32
  cq_next_bank_pre :: u32
  cq_next_rank_pre :: u32
  cq_refresh_rank :: u32
  cq_refresh_waiting :: bool
  cq_xaw :: "u32 list list"
  row_access :: "u32 list list"
  cq_clock :: u64

text \<open>The list of bank queues is not cleared between ranks, so a rank gets the queues of the ranks before it again.\<close>

definition cmd_queue_init :: "queue_structure \<Rightarrow> sched_policy \<Rightarrow> dram_config \<Rightarrow> cmd_queue" where
  "cmd_queue_init st pol c =
     (let n = (case st of PerRank \<Rightarrow> 1 | PerRankPerBank \<Rightarrow> unat (NUM_BANKS c)) in
      \<lparr>cq_structure = st, cq_policy = pol, queues = map (\<lambda>r. replicate (Suc r * n) []) [0..<unat (NUM_RANKS c)],
       cq_next_bank = 0, cq_next_rank = 0, cq_next_bank_pre = 0, cq_next_rank_pre = 0, cq_refresh_rank = 0,
       cq_refresh_waiting = False, cq_xaw = replicate (unat (NUM_RANKS c)) [],
       row_access = replicate (unat (NUM_RANKS c)) (replicate (unat (NUM_BANKS c)) 0), cq_clock = 0\<rparr>)"

section \<open>The queues\<close>

definition queue_index :: "u32 \<Rightarrow> cmd_queue \<Rightarrow> nat" where
  "queue_index b q = (case cq_structure q of PerRankPerBank \<Rightarrow> unat b | PerRank \<Rightarrow> 0)"

definition table_at :: "'a list list \<Rightarrow> u32 \<Rightarrow> nat \<Rightarrow> 'a result" where
  "table_at t r i = rbind (deref (vec_get t (unat r))) (\<lambda>row. deref (vec_get row i))"

definition get_command_queue :: "u32 \<Rightarrow> u32 \<Rightarrow> cmd_queue \<Rightarrow> bus_packet list result" where
  "get_command_queue r b q = table_at (queues q) r (queue_index b q)"

definition put_command_queue :: "u32 \<Rightarrow> u32 \<Rightarrow> bus_packet list \<Rightarrow> cmd_queue \<Rightarrow> cmd_queue" where
  "put_command_queue r b xs q =
     q\<lparr>queues := (queues q)[unat r := (queues q ! unat r)[queue_index b q := xs]]\<rparr>"

definition enqueue :: "dram_config \<Rightarrow> bus_packet \<Rightarrow> cmd_queue \<Rightarrow> cmd_queue result" where
  "enqueue c p q =
     rbind (get_command_queue (prank p) (pbank p) q) (\<lambda>xs.
       if unat (CMD_QUEUE_DEPTH c) < length (xs @ [p]) then Inl Exited
       else Inr (put_command_queue (prank p) (pbank p) (xs @ [p]) q))"

definition has_room_for :: "dram_config \<Rightarrow> u32 \<Rightarrow> u32 \<Rightarrow> u32 \<Rightarrow> cmd_queue \<Rightarrow> bool result" where
  "has_room_for c n r b q =
     rbind (get_command_queue r b q) (\<lambda>xs. Inr (ucast n \<le> (ucast (CMD_QUEUE_DEPTH c) - of_nat (length xs) :: u64)))"

definition queue_is_empty :: "dram_config \<Rightarrow> u32 \<Rightarrow> cmd_queue \<Rightarrow> bool result" where
  "queue_is_empty c r q =
     rbind (deref (vec_get (queues q) (unat r))) (\<lambda>row.
       case cq_structure q of
         PerRank \<Rightarrow> rbind (deref (vec_get row 0)) (\<lambda>xs. Inr (xs = []))
       | PerRankPerBank \<Rightarrow> Inr (list_all (\<lambda>xs. xs = []) (take (unat (NUM_BANKS c)) row)))"

definition need_refresh :: "u32 \<Rightarrow> cmd_queue \<Rightarrow> cmd_queue" where
  "need_refresh r q = q\<lparr>cq_refresh_waiting := True, cq_refresh_rank := r\<rparr>"

section \<open>Issuing\<close>

definition column_issuable ::
  "dram_config \<Rightarrow> mc_bank \<Rightarrow> u64 \<Rightarrow> cmd_queue \<Rightarrow> bus_packet \<Rightarrow> bool result" where
  "column_issuable c m next q p =
     (if bs_state m = RowActive \<and> next \<le> cq_clock q \<and> prow p = open_row m
      then rbind (table_at (row_access q) (prank p) (unat (pbank p))) (\<lambda>n. Inr (n < TOTAL_ROW_ACCESSES c))
      else Inr False)"

definition is_issuable ::
  "dram_config \<Rightarrow> mc_bank list list \<Rightarrow> dram_mode list \<Rightarrow> cmd_queue \<Rightarrow> bus_packet \<Rightarrow> bool result" where
  "is_issuable c bst modes q p =
     (let bank = table_at bst (prank p) (unat (pbank p)) in
      case ptype p of
        REF \<Rightarrow> Inr True
      | RFCSB \<Rightarrow> Inr True
      | ACTIVATE \<Rightarrow>
          rbind (deref (vec_get modes (unat (prank p)))) (\<lambda>md.
            if md \<noteq> SB \<and> 2 \<le> pbank p then Inr False
            else rbind bank (\<lambda>m.
              if (bs_state m = Idle \<or> bs_state m = Refreshing) \<and> next_activate m \<le> cq_clock q
              then rbind (deref (vec_get (cq_xaw q) (unat (prank p)))) (\<lambda>l. Inr (length l < unat (XAW c)))
              else Inr False))
      | WRITE \<Rightarrow> rbind bank (\<lambda>m. column_issuable c m (next_write m) q p)
      | READ \<Rightarrow> rbind bank (\<lambda>m. column_issuable c m (next_read m) q p)
      | PRECHARGE \<Rightarrow> rbind bank (\<lambda>m. Inr (bs_state m = RowActive \<and> next_precharge m \<le> cq_clock q))
      | DATA \<Rightarrow> Inl Exited)"

text \<open>A packet the queue makes up, if it may be issued.\<close>

definition offer ::
  "dram_config \<Rightarrow> mc_bank list list \<Rightarrow> dram_mode list \<Rightarrow> cmd_queue \<Rightarrow> bus_packet \<Rightarrow> bus_packet option result" where
  "offer c bst modes q p = rbind (is_issuable c bst modes q p) (\<lambda>ok. Inr (if ok then Some p else None))"

fun or_else :: "'a option result \<Rightarrow> 'a option result \<Rightarrow> 'a option result" where
  "or_else r k = rbind r (\<lambda>x. case x of Some p \<Rightarrow> Inr (Some p) | None \<Rightarrow> k)"

subsection \<open>Refresh\<close>

text \<open>Closing the open rows of the rank to refresh; the flag tells whether one was found open.\<close>

fun close_rows ::
  "dram_config \<Rightarrow> mc_bank list list \<Rightarrow> dram_mode list \<Rightarrow> cmd_queue \<Rightarrow> nat list \<Rightarrow> bool \<Rightarrow> (bus_packet option \<times> bool) result"
where
  "close_rows c bst modes q [] found = Inr (None, found)"
| "close_rows c bst modes q (b # bs) found =
     rbind (table_at bst (cq_refresh_rank q) b) (\<lambda>m.
       if bs_state m = RowActive
       then rbind (offer c bst modes q (mk_packet PRECHARGE 0 0 (open_row m) (cq_refresh_rank q) (of_nat b) None)) (\<lambda>x.
              case x of Some p \<Rightarrow> Inr (Some p, True) | None \<Rightarrow> close_rows c bst modes q bs True)
       else close_rows c bst modes q bs found)"

definition process_refresh ::
  "dram_config \<Rightarrow> mc_bank list list \<Rightarrow> dram_mode list \<Rightarrow> cmd_queue \<Rightarrow> (bus_packet option \<times> cmd_queue) result" where
  "process_refresh c bst modes q =
     (if cq_refresh_waiting q
      then rbind (close_rows c bst modes q [0..<unat (NUM_BANKS c)] False) (\<lambda>(x, found).
             case x of
               Some p \<Rightarrow> Inr (Some p, q)
             | None \<Rightarrow>
                 if found then Inr (None, q)
                 else rbind (offer c bst modes q (mk_packet REF 0 0 0 (cq_refresh_rank q) 0 None)) (\<lambda>x.
                        case x of Some p \<Rightarrow> Inr (Some p, q\<lparr>cq_refresh_waiting := False\<rparr>) | None \<Rightarrow> Inr (None, q)))
      else Inr (None, q))"

subsection \<open>Commands\<close>

text \<open>A barrier is a tag that contains \<^verbatim>\<open>BAR\<close>.\<close>

fun has_bar :: "string \<Rightarrow> bool" where
  "has_bar [] = False"
| "has_bar (x # xs) \<longleftrightarrow> take 3 (x # xs) = ''BAR'' \<or> has_bar xs"

definition depends_on :: "bus_packet \<Rightarrow> bus_packet \<Rightarrow> bool" where
  "depends_on p x \<longleftrightarrow> pbank p = pbank x \<and> prow p = prow x \<and> pcolumn p = pcolumn x \<or> has_bar (ptag x)"

text \<open>The first packet that may be issued, with the queue without it; \<^verbatim>\<open>before\<close> are the packets passed over.\<close>

fun pick_command ::
  "dram_config \<Rightarrow> mc_bank list list \<Rightarrow> dram_mode list \<Rightarrow> cmd_queue \<Rightarrow> bus_packet list \<Rightarrow> bus_packet list
   \<Rightarrow> (bus_packet \<times> bus_packet list) option result" where
  "pick_command c bst modes q before [] = Inr None"
| "pick_command c bst modes q before (p # rest) =
     rbind (is_issuable c bst modes q p) (\<lambda>ok.
       if ok \<and> before \<noteq> [] \<and> has_bar (ptag p) then Inr None
       else if ok \<and> \<not> list_ex (depends_on p) before then Inr (Some (p, before @ rest))
       else pick_command c bst modes q (before @ [p]) rest)"

fun pick_activate ::
  "dram_config \<Rightarrow> mc_bank list list \<Rightarrow> dram_mode list \<Rightarrow> cmd_queue \<Rightarrow> bool \<Rightarrow> bus_packet list
   \<Rightarrow> bus_packet option result" where
  "pick_activate c bst modes q fst_one [] = Inr None"
| "pick_activate c bst modes q fst_one (p # rest) =
     (if \<not> fst_one \<and> has_bar (ptag p) then Inr None
      else rbind (table_at bst (prank p) (unat (pbank p))) (\<lambda>m.
        or_else
          (if bs_state m = Idle
           then offer c bst modes q (bus_packet_tagged ACTIVATE (paddr p) (pcolumn p) (prow p) (prank p) (pbank p) None (ptag p))
           else Inr None)
          (pick_activate c bst modes q False rest)))"

definition next_rank_and_bank :: "dram_config \<Rightarrow> cmd_queue \<Rightarrow> u32 \<times> u32 \<Rightarrow> u32 \<times> u32" where
  "next_rank_and_bank c q rb =
     (case rb of (r, b) \<Rightarrow>
        case cq_policy q of
          RankThenBankRoundRobin \<Rightarrow>
            if r + 1 = NUM_RANKS c then (0, if b + 1 = NUM_BANKS c then 0 else b + 1) else (r + 1, b)
        | BankThenRankRoundRobin \<Rightarrow>
            if b + 1 = NUM_BANKS c then (if r + 1 = NUM_RANKS c then 0 else r + 1, 0) else (r, b + 1))"

definition advance_command :: "dram_config \<Rightarrow> cmd_queue \<Rightarrow> cmd_queue result" where
  "advance_command c q =
     (case cq_structure q of
        PerRank \<Rightarrow> if NUM_RANKS c = 0 then Inl Undefined else Inr (q\<lparr>cq_next_rank := (cq_next_rank q + 1) mod NUM_RANKS c\<rparr>)
      | PerRankPerBank \<Rightarrow>
          (case next_rank_and_bank c q (cq_next_rank q, cq_next_bank q) of (r, b) \<Rightarrow>
             Inr (q\<lparr>cq_next_rank := r, cq_next_bank := b\<rparr>)))"

text \<open>One queue: a command of its own, or the activation of a row it needs.\<close>

definition try_queue ::
  "dram_config \<Rightarrow> mc_bank list list \<Rightarrow> dram_mode list \<Rightarrow> cmd_queue \<Rightarrow> (bus_packet \<times> cmd_queue) option result" where
  "try_queue c bst modes q =
     rbind (get_command_queue (cq_next_rank q) (cq_next_bank q) q) (\<lambda>xs.
     rbind (pick_command c bst modes q [] xs) (\<lambda>x.
       case x of
         Some (p, xs') \<Rightarrow> Inr (Some (p, put_command_queue (cq_next_rank q) (cq_next_bank q) xs' q))
       | None \<Rightarrow> rbind (pick_activate c bst modes q True xs) (\<lambda>y. Inr (map_option (\<lambda>p. (p, q)) y))))"

fun command_scan ::
  "nat \<Rightarrow> u32 \<times> u32 \<Rightarrow> dram_config \<Rightarrow> mc_bank list list \<Rightarrow> dram_mode list \<Rightarrow> cmd_queue
   \<Rightarrow> (bus_packet option \<times> cmd_queue) result" where
  "command_scan 0 start c bst modes q = Inl NoFuel"
| "command_scan (Suc n) start c bst modes q =
     rbind (try_queue c bst modes q) (\<lambda>x.
       case x of
         Some (p, q') \<Rightarrow> Inr (Some p, q')
       | None \<Rightarrow> rbind (advance_command c q) (\<lambda>q'.
           if (cq_next_rank q', cq_next_bank q') = start then Inr (None, q')
           else command_scan n start c bst modes q'))"

text \<open>The steps of a full round.\<close>

definition round_steps :: "dram_config \<Rightarrow> nat" where
  "round_steps c = unat (NUM_RANKS c) * unat (NUM_BANKS c)"

definition process_command ::
  "dram_config \<Rightarrow> mc_bank list list \<Rightarrow> dram_mode list \<Rightarrow> cmd_queue \<Rightarrow> (bus_packet option \<times> cmd_queue) result" where
  "process_command c bst modes q = command_scan (round_steps c) (cq_next_rank q, cq_next_bank q) c bst modes q"

subsection \<open>Precharges\<close>

text \<open>Whether the queue, up to its first barrier, still wants the open row of the bank.\<close>

fun row_wanted :: "mc_bank list list \<Rightarrow> u32 \<Rightarrow> u32 \<Rightarrow> bus_packet list \<Rightarrow> bool \<Rightarrow> bool result" where
  "row_wanted bst r b [] found = Inr found"
| "row_wanted bst r b (p # rest) found =
     rbind (if r = prank p \<and> b = pbank p
            then rbind (table_at bst (prank p) (unat (pbank p))) (\<lambda>m.
                   Inr (found \<or> bs_state m = RowActive \<and> prow p = open_row m))
            else Inr found)
       (\<lambda>found. if has_bar (ptag p) then Inr found else row_wanted bst r b rest found)"

definition try_precharge ::
  "dram_config \<Rightarrow> mc_bank list list \<Rightarrow> dram_mode list \<Rightarrow> cmd_queue \<Rightarrow> bus_packet option result" where
  "try_precharge c bst modes q =
     (let r = cq_next_rank_pre q; b = cq_next_bank_pre q in
      rbind (get_command_queue r b q) (\<lambda>xs.
      rbind (row_wanted bst r b xs False) (\<lambda>found.
        if found then Inr None
        else rbind (table_at bst r (unat b)) (\<lambda>m. offer c bst modes q (mk_packet PRECHARGE 0 0 (open_row m) r b None)))))"

fun precharge_scan ::
  "nat \<Rightarrow> u32 \<times> u32 \<Rightarrow> dram_config \<Rightarrow> mc_bank list list \<Rightarrow> dram_mode list \<Rightarrow> cmd_queue
   \<Rightarrow> (bus_packet option \<times> cmd_queue) result" where
  "precharge_scan 0 start c bst modes q = Inl NoFuel"
| "precharge_scan (Suc n) start c bst modes q =
     rbind (try_precharge c bst modes q) (\<lambda>x.
       case x of
         Some p \<Rightarrow> Inr (Some p, q)
       | None \<Rightarrow>
           (case next_rank_and_bank c q (cq_next_rank_pre q, cq_next_bank_pre q) of (r, b) \<Rightarrow>
              if (r, b) = start then Inr (None, q\<lparr>cq_next_rank_pre := r, cq_next_bank_pre := b\<rparr>)
              else precharge_scan n start c bst modes (q\<lparr>cq_next_rank_pre := r, cq_next_bank_pre := b\<rparr>)))"

definition process_precharge ::
  "dram_config \<Rightarrow> mc_bank list list \<Rightarrow> dram_mode list \<Rightarrow> cmd_queue \<Rightarrow> (bus_packet option \<times> cmd_queue) result" where
  "process_precharge c bst modes q =
     precharge_scan (round_steps c) (cq_next_rank_pre q, cq_next_bank_pre q) c bst modes q"

section \<open>Popping\<close>

definition tick_window :: "u32 list \<Rightarrow> u32 list" where
  "tick_window l = (let l = map (\<lambda>x. x - 1) l in if l \<noteq> [] \<and> hd l = 0 then tl l else l)"

text \<open>The activation windows count down, then a refresh, a command or a precharge is chosen, in that order.\<close>

definition pop ::
  "dram_config \<Rightarrow> mc_bank list list \<Rightarrow> dram_mode list \<Rightarrow> cmd_queue \<Rightarrow> (bus_packet option \<times> cmd_queue) result" where
  "pop c bst modes q0 =
     (if cq_structure q0 = PerRankPerBank then Inl Exited
      else let q = q0\<lparr>cq_xaw := map tick_window (cq_xaw q0)\<rparr> in
        rbind (process_refresh c bst modes q) (\<lambda>(x, q).
        if x \<noteq> None then Inr (x, q)
        else rbind (process_command c bst modes q) (\<lambda>(x, q).
        if x \<noteq> None then Inr (x, q)
        else process_precharge c bst modes q)))"

section \<open>What may be issued\<close>

text \<open>The parts of a queue that decide whether a packet may be issued.\<close>

definition same_issue :: "cmd_queue \<Rightarrow> cmd_queue \<Rightarrow> bool" where
  "same_issue q q' \<longleftrightarrow> cq_clock q' = cq_clock q \<and> cq_xaw q' = cq_xaw q \<and> row_access q' = row_access q
     \<and> cq_structure q' = cq_structure q \<and> cq_policy q' = cq_policy q"

lemma same_issue_refl [simp]: "same_issue q q"
  by (simp add: same_issue_def)

lemma same_issue_trans: "same_issue q q' \<Longrightarrow> same_issue q' q'' \<Longrightarrow> same_issue q q''"
  by (simp add: same_issue_def)

lemma is_issuable_cong: "same_issue q q' \<Longrightarrow> is_issuable c bst modes q' p = is_issuable c bst modes q p"
  by (cases "ptype p") (simp_all add: is_issuable_def column_issuable_def same_issue_def Let_def cong: if_cong)

lemma offer_Some: "offer c bst modes q p = Inr (Some p') \<longleftrightarrow> p' = p \<and> is_issuable c bst modes q p = Inr True"
  by (auto simp: offer_def rbind_Inr)

lemma or_else_Some:
  "or_else r k = Inr (Some p) \<longleftrightarrow> r = Inr (Some p) \<or> r = Inr None \<and> k = Inr (Some p)"
  by (cases r) (auto split: option.splits)

lemma pick_command_Some:
  assumes "pick_command c bst modes q before xs = Inr (Some (p, ys))"
  shows "is_issuable c bst modes q p = Inr True \<and> (\<exists>pre post. before @ xs = pre @ p # post \<and> ys = pre @ post
    \<and> (\<forall>x \<in> set pre. \<not> depends_on p x) \<and> (has_bar (ptag p) \<longrightarrow> pre = []))"
  using assms
proof (induction xs arbitrary: before)
  case (Cons x rest)
  obtain ok where ok: "is_issuable c bst modes q x = Inr ok" using Cons.prems by (auto simp: rbind_Inr)
  show ?case
  proof (cases "ok \<and> \<not> list_ex (depends_on x) before \<and> \<not> (before \<noteq> [] \<and> has_bar (ptag x))")
    case True
    then have "p = x" "ys = before @ rest" using Cons.prems ok by (auto split: if_splits)
    with True ok show ?thesis
      by (intro conjI exI [of _ before] exI [of _ rest]) (auto simp: list_ex_iff)
  next
    case False
    then have "pick_command c bst modes q (before @ [x]) rest = Inr (Some (p, ys))"
      using Cons.prems ok by (auto split: if_splits)
    from Cons.IH [OF this] show ?thesis by simp
  qed
qed simp

lemma pick_activate_Some:
  assumes "pick_activate c bst modes q first xs = Inr (Some a)"
  shows "is_issuable c bst modes q a = Inr True \<and> (\<exists>p \<in> set xs. a = bus_packet_tagged ACTIVATE (paddr p) (pcolumn p)
    (prow p) (prank p) (pbank p) None (ptag p))"
  using assms
proof (induction xs arbitrary: first)
  case (Cons p rest)
  then show ?case by (auto simp: rbind_Inr or_else_Some offer_Some split: if_splits simp del: or_else.simps)
qed simp

lemma close_rows_Some:
  assumes "close_rows c bst modes q bs found = Inr (Some p, f)"
  shows "is_issuable c bst modes q p = Inr True
    \<and> (\<exists>b \<in> set bs. \<exists>m. table_at bst (cq_refresh_rank q) b = Inr m \<and> bs_state m = RowActive
         \<and> p = mk_packet PRECHARGE 0 0 (open_row m) (cq_refresh_rank q) (of_nat b) None)"
  using assms
proof (induction bs arbitrary: found)
  case (Cons b bs)
  obtain m where m: "table_at bst (cq_refresh_rank q) b = Inr m" using Cons.prems by (auto simp: rbind_Inr)
  show ?case
  proof (cases "bs_state m = RowActive \<and> close_rows c bst modes q bs True \<noteq> Inr (Some p, f)")
    case True
    then have "offer c bst modes q (mk_packet PRECHARGE 0 0 (open_row m) (cq_refresh_rank q) (of_nat b) None) = Inr (Some p)"
      using Cons.prems m by (auto simp: rbind_Inr split: option.splits)
    then show ?thesis using True m by (auto simp: offer_Some)
  next
    case False
    then have "\<exists>f'. close_rows c bst modes q bs f' = Inr (Some p, f)" using Cons.prems m by (auto split: if_splits)
    then show ?thesis using Cons.IH by (metis list.set_intros(2))
  qed
qed simp

lemma close_rows_None:
  assumes "close_rows c bst modes q bs found = Inr (None, False)"
  shows "\<not> found \<and> (\<forall>b \<in> set bs. \<exists>m. table_at bst (cq_refresh_rank q) b = Inr m \<and> bs_state m \<noteq> RowActive)"
  using assms
proof (induction bs arbitrary: found)
  case (Cons b bs)
  obtain m where m: "table_at bst (cq_refresh_rank q) b = Inr m" using Cons.prems by (auto simp: rbind_Inr)
  have "bs_state m \<noteq> RowActive"
    using Cons.prems m Cons.IH [of True] by (auto simp: rbind_Inr split: option.splits)
  with m Cons.prems Cons.IH [of found] show ?case by auto
qed simp

section \<open>What is popped\<close>

text \<open>A command taken from a queue, past packets it does not depend on.\<close>

definition taken :: "bus_packet \<Rightarrow> cmd_queue \<Rightarrow> cmd_queue \<Rightarrow> bool" where
  "taken p q q' \<longleftrightarrow> (\<exists>r i pre post. table_at (queues q) r i = Inr (pre @ p # post)
     \<and> queues q' = (queues q)[unat r := (queues q ! unat r)[i := pre @ post]]
     \<and> (\<forall>x \<in> set pre. \<not> depends_on p x) \<and> (has_bar (ptag p) \<longrightarrow> pre = []))"

text \<open>A command made up from the queues and the bank states, which stay.\<close>

definition made_up :: "dram_config \<Rightarrow> mc_bank list list \<Rightarrow> bus_packet \<Rightarrow> cmd_queue \<Rightarrow> bool" where
  "made_up c bst p q \<longleftrightarrow>
     (ptype p = ACTIVATE \<and> (\<exists>r i xs x. table_at (queues q) r i = Inr xs \<and> x \<in> set xs \<and> p = bus_packet_tagged ACTIVATE
        (paddr x) (pcolumn x) (prow x) (prank x) (pbank x) None (ptag x)))
   \<or> (\<exists>r b m. table_at bst r b = Inr m \<and> bs_state m = RowActive \<and> p = mk_packet PRECHARGE 0 0 (open_row m) r (of_nat b) None
        \<and> b < 2 ^ 32)
   \<or> (\<exists>r. p = mk_packet REF 0 0 0 r 0 None \<and> r = cq_refresh_rank q
        \<and> (\<forall>b < unat (NUM_BANKS c). \<exists>m. table_at bst r b = Inr m \<and> bs_state m \<noteq> RowActive))"

definition popped :: "dram_config \<Rightarrow> mc_bank list list \<Rightarrow> dram_mode list \<Rightarrow> bus_packet \<Rightarrow> cmd_queue \<Rightarrow> cmd_queue \<Rightarrow> bool" where
  "popped c bst modes p q q' \<longleftrightarrow> is_issuable c bst modes q p = Inr True \<and> same_issue q q'
     \<and> (taken p q q' \<or> made_up c bst p q \<and> queues q' = queues q)"

lemma queues_kept:
  "queues q = queues q' \<Longrightarrow> taken p q = taken p q'"
  "queues q = queues q' \<Longrightarrow> cq_refresh_rank q = cq_refresh_rank q' \<Longrightarrow> made_up c bst p q = made_up c bst p q'"
  by (simp_all add: taken_def [abs_def] made_up_def)

lemma popped_trans:
  assumes "popped c bst modes p q1 q2" and "same_issue q q1" and "queues q1 = queues q"
    and "cq_refresh_rank q1 = cq_refresh_rank q"
  shows "popped c bst modes p q q2"
proof -
  have "same_issue q q2" using assms(1,2) same_issue_trans by (auto simp: popped_def)
  with assms show ?thesis using queues_kept [OF assms(3)] is_issuable_cong [OF assms(2), of c bst modes p]
    by (simp add: popped_def)
qed

lemma process_refresh_result:
  assumes "process_refresh c bst modes q = Inr (x, q')"
  shows "case x of None \<Rightarrow> q' = q | Some p \<Rightarrow> popped c bst modes p q q'"
proof (cases "cq_refresh_waiting q")
  case True
  then obtain y f where y: "close_rows c bst modes q [0..<unat (NUM_BANKS c)] False = Inr (y, f)"
    using assms by (auto simp: process_refresh_def rbind_Inr)
  show ?thesis
  proof (cases y)
    case (Some p)
    then have x: "x = Some p" "q' = q" using assms True y by (simp_all add: process_refresh_def)
    obtain b m where b: "b < unat (NUM_BANKS c)" "table_at bst (cq_refresh_rank q) b = Inr m" "bs_state m = RowActive"
      "p = mk_packet PRECHARGE 0 0 (open_row m) (cq_refresh_rank q) (of_nat b) None" "is_issuable c bst modes q p = Inr True"
      using close_rows_Some [OF y [unfolded Some]] by auto
    have "b < 2 ^ 32" using b(1) unsigned_less [of "NUM_BANKS c", where 'a = nat] by simp
    then have "made_up c bst p q" unfolding made_up_def using b by blast
    with b(5) x show ?thesis by (simp add: popped_def)
  next
    case None
    show ?thesis
    proof (cases f)
      case True
      then show ?thesis using assms \<open>cq_refresh_waiting q\<close> y None by (auto simp: process_refresh_def)
    next
      case False
      have "made_up c bst (mk_packet REF 0 0 0 (cq_refresh_rank q) 0 None) q"
        using close_rows_None [OF y [unfolded None, unfolded eq_False [THEN iffD2, OF False]]]
        by (auto simp: made_up_def)
      moreover have o: "offer c bst modes q (mk_packet REF 0 0 0 (cq_refresh_rank q) 0 None)
          = Inr (Some (mk_packet REF 0 0 0 (cq_refresh_rank q) 0 None))"
        by (simp add: offer_Some is_issuable_def)
      moreover have "x = Some (mk_packet REF 0 0 0 (cq_refresh_rank q) 0 None)" "q' = q\<lparr>cq_refresh_waiting := False\<rparr>"
        using assms \<open>cq_refresh_waiting q\<close> y None False unfolding process_refresh_def by (simp_all add: o)
      ultimately show ?thesis by (simp add: popped_def offer_Some same_issue_def)
    qed
  qed
qed (use assms in \<open>auto simp: process_refresh_def\<close>)

text \<open>The scan counters are all a scan changes until it finds something.\<close>

definition scanned :: "cmd_queue \<Rightarrow> cmd_queue \<Rightarrow> bool" where
  "scanned q q' \<longleftrightarrow> same_issue q q' \<and> queues q' = queues q \<and> cq_refresh_rank q' = cq_refresh_rank q
     \<and> cq_refresh_waiting q' = cq_refresh_waiting q"

lemma scanned_refl [simp]: "scanned q q"
  by (simp add: scanned_def)

lemma scanned_trans: "scanned q q' \<Longrightarrow> scanned q' q'' \<Longrightarrow> scanned q q''"
  by (auto simp: scanned_def intro: same_issue_trans)

lemma try_queue_result:
  assumes "try_queue c bst modes q = Inr (Some (p, q'))"
  shows "popped c bst modes p q q'"
proof -
  define r where "r = cq_next_rank q"
  define i where "i = queue_index (cq_next_bank q) q"
  obtain xs where xs: "table_at (queues q) r i = Inr xs" "get_command_queue r (cq_next_bank q) q = Inr xs"
    using assms by (auto simp: try_queue_def get_command_queue_def rbind_Inr r_def i_def)
  then obtain x where x: "pick_command c bst modes q [] xs = Inr x"
    using assms by (auto simp: try_queue_def rbind_Inr r_def)
  show ?thesis
  proof (cases x)
    case None
    then have "pick_activate c bst modes q True xs = Inr (Some p)" "q' = q"
      using assms xs x by (auto simp: try_queue_def rbind_Inr r_def)
    moreover obtain a where a: "a \<in> set xs" "p = bus_packet_tagged ACTIVATE (paddr a) (pcolumn a) (prow a) (prank a)
        (pbank a) None (ptag a)" "is_issuable c bst modes q p = Inr True"
      using pick_activate_Some [OF calculation(1)] by blast
    moreover have "made_up c bst p q"
      unfolding made_up_def using a(1,2) xs(1) by (intro disjI1) (simp add: bus_packet_tagged_def, blast)
    ultimately show ?thesis by (simp add: popped_def)
  next
    case (Some y)
    obtain ys where ys: "x = Some (p, ys)" "q' = put_command_queue r (cq_next_bank q) ys q"
      using assms xs x Some by (cases y) (auto simp: try_queue_def r_def)
    from pick_command_Some [OF x [unfolded ys(1)]] xs(1)
    have "is_issuable c bst modes q p = Inr True" "taken p q q'"
      unfolding taken_def ys(2) put_command_queue_def i_def by auto
    moreover have "same_issue q q'" by (simp add: ys(2) put_command_queue_def same_issue_def)
    ultimately show ?thesis by (simp add: popped_def)
  qed
qed

lemma command_scan_result:
  assumes "command_scan n start c bst modes q = Inr (x, q')"
  shows "case x of None \<Rightarrow> scanned q q' | Some p \<Rightarrow> popped c bst modes p q q'"
  using assms
proof (induction n arbitrary: q)
  case (Suc n)
  obtain y where y: "try_queue c bst modes q = Inr y" using Suc.prems by (auto simp: rbind_Inr)
  show ?case
  proof (cases y)
    case (Some z)
    then show ?thesis using Suc.prems y try_queue_result by (cases z) auto
  next
    case None
    obtain q1 where q1: "advance_command c q = Inr q1" using Suc.prems y None by (auto simp: rbind_Inr)
    then have s: "scanned q q1"
      by (auto simp: advance_command_def scanned_def same_issue_def split: queue_structure.splits if_splits prod.splits)
    show ?thesis
    proof (cases "(cq_next_rank q1, cq_next_bank q1) = start")
      case True
      then show ?thesis using Suc.prems y None q1 s by auto
    next
      case False
      then have "command_scan n start c bst modes q1 = Inr (x, q')" using Suc.prems y None q1 by simp
      from Suc.IH [OF this] s show ?thesis
        by (auto simp: scanned_def split: option.splits intro: scanned_trans popped_trans same_issue_trans)
    qed
  qed
qed simp

lemma try_precharge_result:
  assumes "try_precharge c bst modes q = Inr (Some p)"
  shows "popped c bst modes p q q"
proof -
  obtain m where m: "table_at bst (cq_next_rank_pre q) (unat (cq_next_bank_pre q)) = Inr m"
    "p = mk_packet PRECHARGE 0 0 (open_row m) (cq_next_rank_pre q) (cq_next_bank_pre q) None" "is_issuable c bst modes q p = Inr True"
    using assms by (auto simp: try_precharge_def Let_def rbind_Inr offer_Some split: if_splits)
  then have "bs_state m = RowActive" by (simp add: is_issuable_def)
  with m(1,2) have "made_up c bst p q"
    unfolding made_up_def
    using unsigned_less [of "cq_next_bank_pre q", where 'a = nat]
    by (intro disjI2 disjI1 exI [of _ "cq_next_rank_pre q"] exI [of _ "unat (cq_next_bank_pre q)"] exI [of _ m]) simp
  with m(3) show ?thesis by (simp add: popped_def)
qed

lemma precharge_scan_result:
  assumes "precharge_scan n start c bst modes q = Inr (x, q')"
  shows "case x of None \<Rightarrow> scanned q q' | Some p \<Rightarrow> popped c bst modes p q q'"
  using assms
proof (induction n arbitrary: q)
  case (Suc n)
  obtain y where y: "try_precharge c bst modes q = Inr y" using Suc.prems by (auto simp: rbind_Inr)
  show ?case
  proof (cases y)
    case (Some p)
    then show ?thesis using Suc.prems y try_precharge_result by auto
  next
    case None
    obtain r b where rb: "next_rank_and_bank c q (cq_next_rank_pre q, cq_next_bank_pre q) = (r, b)" by fastforce
    define q1 where "q1 = q\<lparr>cq_next_rank_pre := r, cq_next_bank_pre := b\<rparr>"
    have s: "scanned q q1" by (simp add: q1_def scanned_def same_issue_def)
    show ?thesis
    proof (cases "(r, b) = start")
      case True
      then show ?thesis using Suc.prems y None rb s by (auto simp: q1_def)
    next
      case False
      then have "precharge_scan n start c bst modes q1 = Inr (x, q')" using Suc.prems y None rb by (simp add: q1_def)
      from Suc.IH [OF this] s show ?thesis
        by (auto simp: scanned_def split: option.splits intro: scanned_trans popped_trans same_issue_trans)
    qed
  qed
qed simp

text \<open>The queue with its activation windows counted down.\<close>

definition windowed :: "cmd_queue \<Rightarrow> cmd_queue" where
  "windowed q = q\<lparr>cq_xaw := map tick_window (cq_xaw q)\<rparr>"

lemma pop_result:
  assumes "pop c bst modes q = Inr (x, q')"
  shows "case x of None \<Rightarrow> scanned (windowed q) q' | Some p \<Rightarrow> popped c bst modes p (windowed q) q'"
proof -
  let ?q = "windowed q"
  obtain x1 q1 where 1: "process_refresh c bst modes ?q = Inr (x1, q1)"
    using assms by (auto simp: pop_def windowed_def rbind_Inr Let_def split: if_splits)
  show ?thesis
  proof (cases x1)
    case (Some p)
    then show ?thesis using process_refresh_result [OF 1] assms 1
      by (auto simp: pop_def windowed_def Let_def split: if_splits)
  next
    case None
    then have q1: "q1 = ?q" using process_refresh_result [OF 1] by simp
    obtain x2 q2 where 2: "process_command c bst modes ?q = Inr (x2, q2)"
      using assms 1 None q1 by (auto simp: pop_def windowed_def rbind_Inr Let_def split: if_splits)
    note r2 = command_scan_result [OF 2 [unfolded process_command_def]]
    show ?thesis
    proof (cases x2)
      case (Some p)
      then show ?thesis using r2 assms 1 None q1 2 by (auto simp: pop_def windowed_def Let_def split: if_splits)
    next
      case n2: None
      then have "process_precharge c bst modes q2 = Inr (x, q')"
        using assms 1 None q1 2 by (auto simp: pop_def windowed_def Let_def split: if_splits)
      from precharge_scan_result [OF this [unfolded process_precharge_def]] r2 n2 show ?thesis
        by (auto simp: scanned_def split: option.splits intro: scanned_trans popped_trans same_issue_trans)
    qed
  qed
qed

text \<open>C38: a popped command may be issued by the bank states and clock; when it comes from a queue, that queue loses
  exactly this command, no earlier command of the queue addresses the same bank, row and column or is a barrier,
  and a barrier itself only leaves from the front; when it is made up (an activation some queued command needs, a
  precharge of an open row, a refresh of a rank without one), the queues are unchanged.\<close>

theorem pop_keeps_order:
  assumes "pop c bst modes q = Inr (Some p, q')"
  shows "is_issuable c bst modes (windowed q) p = Inr True
    \<and> (taken p q q' \<or> made_up c bst p q \<and> queues q' = queues q)"
  using pop_result [OF assms] queues_kept [of "windowed q" q]
  by (simp add: popped_def windowed_def)

section \<open>A concrete run\<close>

text \<open>Two reads wait, of rows in banks 0 and 1; only the row in bank 1 is open, so the later read goes first.\<close>

definition demo_read :: "u32 \<Rightarrow> bus_packet" where
  "demo_read b = mk_packet READ (ucast b) 3 7 0 b None"

definition demo_queue :: cmd_queue where
  "demo_queue = (cmd_queue_init PerRank RankThenBankRoundRobin (env_cfg demo_env))
     \<lparr>queues := [[[demo_read 0, demo_read 1]]], cq_clock := 9\<rparr>"

definition demo_banks :: "mc_bank list list" where
  "demo_banks = [[mc_bank_init, mc_bank_init\<lparr>bs_state := RowActive, open_row := 7\<rparr>, mc_bank_init, mc_bank_init]]"

lemma demo_pops:
  "pop (env_cfg demo_env) demo_banks [SB] demo_queue = Inr (Some (demo_read 1), demo_queue\<lparr>queues := [[[demo_read 0]]]\<rparr>)"
proof -
  have r: "round_steps (env_cfg demo_env) = Suc (Suc (Suc (Suc 0)))"
    by (simp add: round_steps_def demo_env_def)
  have "process_refresh (env_cfg demo_env) demo_banks [SB] demo_queue = Inr (None, demo_queue)"
    by (simp add: process_refresh_def demo_queue_def cmd_queue_init_def)
  moreover have "table_at (row_access demo_queue) 0 1 = Inr 0"
    by (simp add: table_at_def demo_queue_def cmd_queue_init_def demo_env_def)
  then have "try_queue (env_cfg demo_env) demo_banks [SB] demo_queue
      = Inr (Some (demo_read 1, demo_queue\<lparr>queues := [[[demo_read 0]]]\<rparr>))"
    by (simp add: try_queue_def get_command_queue_def put_command_queue_def queue_index_def table_at_def demo_queue_def
        cmd_queue_init_def demo_banks_def demo_read_def is_issuable_def column_issuable_def depends_on_def mc_bank_init_def
        bank_state_init_def bank_state.defs demo_env_def)
  moreover have "map tick_window (cq_xaw demo_queue) = cq_xaw demo_queue"
    by (simp add: demo_queue_def cmd_queue_init_def tick_window_def demo_env_def)
  moreover have "cq_structure demo_queue = PerRank" by (simp add: demo_queue_def cmd_queue_init_def)
  ultimately show ?thesis by (simp add: pop_def process_command_def r Let_def)
qed

theorem pop_keeps_order_witness:
  "is_issuable (env_cfg demo_env) demo_banks [SB] (windowed demo_queue) (demo_read 1) = Inr True
    \<and> (taken (demo_read 1) demo_queue (demo_queue\<lparr>queues := [[[demo_read 0]]]\<rparr>)
       \<or> made_up (env_cfg demo_env) demo_banks (demo_read 1) demo_queue
         \<and> queues (demo_queue\<lparr>queues := [[[demo_read 0]]]\<rparr>) = queues demo_queue)"
  by (rule pop_keeps_order [OF demo_pops])

end
