(* ===== verification/CmdTotal.thy ===== *)
theory CmdTotal
  imports CmdQueue "HOL-Library.Multiset"
begin

text \<open>
  The command queue in operation: on bank states and modes of the right size its scans end within a full round
  and no access is out of range, whatever the bank states are.
\<close>

section \<open>Well-formed queues\<close>

definition ranks_of :: "dram_config \<Rightarrow> nat" where "ranks_of c = unat (NUM_RANKS c)"
definition banks_of :: "dram_config \<Rightarrow> nat" where "banks_of c = unat (NUM_BANKS c)"

definition table_ok :: "dram_config \<Rightarrow> 'a list list \<Rightarrow> bool" where
  "table_ok c t \<longleftrightarrow> length t = ranks_of c \<and> (\<forall>row \<in> set t. length row = banks_of c)"

definition in_range :: "dram_config \<Rightarrow> bus_packet \<Rightarrow> bool" where
  "in_range c p \<longleftrightarrow> unat (prank p) < ranks_of c \<and> unat (pbank p) < banks_of c"

definition all_packets :: "cmd_queue \<Rightarrow> bus_packet list" where
  "all_packets q = concat (concat (queues q))"

definition cq_shape :: "dram_config \<Rightarrow> cmd_queue \<Rightarrow> bool" where
  "cq_shape c q \<longleftrightarrow> cq_structure q = PerRank \<and> length (queues q) = ranks_of c \<and> (\<forall>row \<in> set (queues q). row \<noteq> [])
     \<and> (\<forall>row \<in> set (queues q). \<forall>xs \<in> set row. length xs \<le> unat (CMD_QUEUE_DEPTH c))
     \<and> cq_xaw q = replicate (ranks_of c) [] \<and> table_ok c (row_access q)"

definition cq_counters :: "dram_config \<Rightarrow> cmd_queue \<Rightarrow> bool" where
  "cq_counters c q \<longleftrightarrow> unat (cq_next_rank q) < ranks_of c \<and> unat (cq_next_rank_pre q) < ranks_of c
     \<and> unat (cq_next_bank_pre q) < banks_of c \<and> unat (cq_refresh_rank q) < ranks_of c"

definition column_packet :: "dram_config \<Rightarrow> bus_packet \<Rightarrow> bool" where
  "column_packet c p \<longleftrightarrow> in_range c p \<and> (ptype p = READ \<or> ptype p = WRITE)"

definition cq_ok :: "dram_config \<Rightarrow> cmd_queue \<Rightarrow> bool" where
  "cq_ok c q \<longleftrightarrow> cq_shape c q \<and> cq_counters c q \<and> (\<forall>p \<in> set (all_packets q). column_packet c p)"

definition defined :: "'a result \<Rightarrow> bool" where
  "defined r \<longleftrightarrow> (\<exists>a. r = Inr a)"

lemma defined_simps [simp]: "defined (Inr a)" "\<not> defined (Inl e)"
  by (simp_all add: defined_def)

lemma defined_rbind: "defined r \<Longrightarrow> (\<And>a. r = Inr a \<Longrightarrow> defined (f a)) \<Longrightarrow> defined (rbind r f)"
  by (auto simp: defined_def)

lemma table_at_in: "unat r < length t \<Longrightarrow> i < length (t ! unat r) \<Longrightarrow> table_at t r i = Inr (t ! unat r ! i)"
  by (simp add: table_at_def)

lemma table_at_ok: "table_ok c t \<Longrightarrow> unat r < ranks_of c \<Longrightarrow> i < banks_of c \<Longrightarrow> table_at t r i = Inr (t ! unat r ! i)"
  by (auto simp: table_ok_def intro!: table_at_in)

lemma queue_at: "cq_shape c q \<Longrightarrow> unat r < ranks_of c \<Longrightarrow> get_command_queue r b q = Inr (queues q ! unat r ! 0)"
  by (auto simp: get_command_queue_def queue_index_def cq_shape_def intro!: table_at_in)

lemma queue_packets:
  assumes "table_at (queues q) r i = Inr xs" and "p \<in> set xs"
  shows "p \<in> set (all_packets q)"
proof -
  have "unat r < length (queues q)" "i < length (queues q ! unat r)" "xs = queues q ! unat r ! i"
    using assms(1) by (cases "unat r < length (queues q)"; cases "i < length (queues q ! unat r)"; simp add: table_at_def)+
  then have "queues q ! unat r \<in> set (queues q)" "xs \<in> set (queues q ! unat r)" by simp_all
  with assms(2) show ?thesis unfolding all_packets_def set_concat by blast
qed

section \<open>Every check is defined\<close>

lemma issuable_defined:
  assumes "cq_shape c q" and "table_ok c bst" and "length modes = ranks_of c" and "in_range c p" and "ptype p \<noteq> DATA"
  shows "defined (is_issuable c bst modes q p)"
proof -
  have "table_at bst (prank p) (unat (pbank p)) = Inr (bst ! unat (prank p) ! unat (pbank p))"
    "table_at (row_access q) (prank p) (unat (pbank p)) = Inr (row_access q ! unat (prank p) ! unat (pbank p))"
    using assms(1,2,4) by (auto simp: in_range_def cq_shape_def intro!: table_at_ok)
  moreover have "vec_get modes (unat (prank p)) = Some (modes ! unat (prank p))" "vec_get (cq_xaw q) (unat (prank p)) = Some []"
    using assms(1,3,4) by (simp_all add: in_range_def cq_shape_def)
  ultimately show ?thesis
    using assms(5) by (cases "ptype p") (simp_all add: is_issuable_def column_issuable_def)
qed

lemma offer_defined:
  "cq_shape c q \<Longrightarrow> table_ok c bst \<Longrightarrow> length modes = ranks_of c \<Longrightarrow> in_range c p \<Longrightarrow> ptype p \<noteq> DATA
   \<Longrightarrow> defined (offer c bst modes q p)"
  unfolding offer_def by (rule defined_rbind [OF issuable_defined]) simp_all

lemma pick_command_defined:
  "cq_shape c q \<Longrightarrow> table_ok c bst \<Longrightarrow> length modes = ranks_of c \<Longrightarrow> (\<forall>p \<in> set xs. column_packet c p)
   \<Longrightarrow> defined (pick_command c bst modes q before xs)"
proof (induction xs arbitrary: before)
  case (Cons p xs)
  then have "defined (is_issuable c bst modes q p)"
    by (intro issuable_defined) (auto simp: column_packet_def)
  then show ?case unfolding pick_command.simps by (rule defined_rbind) (use Cons in simp)
qed simp

lemma pick_activate_defined:
  "cq_shape c q \<Longrightarrow> table_ok c bst \<Longrightarrow> length modes = ranks_of c \<Longrightarrow> (\<forall>p \<in> set xs. column_packet c p)
   \<Longrightarrow> defined (pick_activate c bst modes q first xs)"
proof (induction xs arbitrary: first)
  case (Cons p xs)
  have r: "in_range c p" using Cons.prems(4) by (simp add: column_packet_def)
  then have "in_range c (bus_packet_tagged ACTIVATE (paddr p) (pcolumn p) (prow p) (prank p) (pbank p) None (ptag p))"
    by (simp add: in_range_def bus_packet_tagged_def)
  from offer_defined [OF Cons.prems(1-3) this]
  have o: "defined (offer c bst modes q (bus_packet_tagged ACTIVATE (paddr p) (pcolumn p) (prow p) (prank p) (pbank p) None (ptag p)))"
    by (simp add: bus_packet_tagged_def)
  have "table_at bst (prank p) (unat (pbank p)) = Inr (bst ! unat (prank p) ! unat (pbank p))"
    using r Cons.prems(2) by (simp add: in_range_def table_at_ok)
  then show ?case
    using o Cons by (auto simp: split: option.splits intro!: defined_rbind)
qed simp

lemma close_rows_defined:
  "cq_shape c q \<Longrightarrow> table_ok c bst \<Longrightarrow> length modes = ranks_of c \<Longrightarrow> unat (cq_refresh_rank q) < ranks_of c
   \<Longrightarrow> (\<forall>b \<in> set bs. b < banks_of c) \<Longrightarrow> defined (close_rows c bst modes q bs found)"
proof (induction bs arbitrary: found)
  case (Cons b bs)
  have "b < 2 ^ 32" using Cons.prems(5) unsigned_less [of "NUM_BANKS c", where 'a = nat] by (simp add: banks_of_def)
  then have "in_range c (mk_packet PRECHARGE 0 0 (open_row m) (cq_refresh_rank q) (of_nat b) None)" for m :: mc_bank
    using Cons.prems by (simp add: in_range_def)
  then have "defined (offer c bst modes q (mk_packet PRECHARGE 0 0 (open_row m) (cq_refresh_rank q) (of_nat b) None))" for m :: mc_bank
    using offer_defined [OF Cons.prems(1-3)] by simp
  moreover have "table_at bst (cq_refresh_rank q) b = Inr (bst ! unat (cq_refresh_rank q) ! b)"
    using Cons.prems by (simp add: table_at_ok)
  ultimately show ?case using Cons by (auto split: option.splits intro!: defined_rbind)
qed simp

lemma row_wanted_defined:
  "table_ok c bst \<Longrightarrow> (\<forall>p \<in> set xs. column_packet c p) \<Longrightarrow> defined (row_wanted bst r b xs found)"
proof (induction xs arbitrary: found)
  case (Cons p xs)
  then have "table_at bst (prank p) (unat (pbank p)) = Inr (bst ! unat (prank p) ! unat (pbank p))"
    by (simp add: column_packet_def in_range_def table_at_ok)
  with Cons show ?case by auto
qed simp

lemma try_queue_defined:
  assumes "cq_ok c q" and "table_ok c bst" and "length modes = ranks_of c"
  shows "defined (try_queue c bst modes q)"
proof -
  let ?xs = "queues q ! unat (cq_next_rank q) ! 0"
  have sh: "cq_shape c q" and r: "unat (cq_next_rank q) < ranks_of c" using assms(1) by (simp_all add: cq_ok_def cq_counters_def)
  have g: "get_command_queue (cq_next_rank q) (cq_next_bank q) q = Inr ?xs" using queue_at [OF sh r] .
  then have "\<forall>p \<in> set ?xs. column_packet c p"
    using assms(1) queue_packets [of q "cq_next_rank q" "queue_index (cq_next_bank q) q"]
    by (auto simp: cq_ok_def get_command_queue_def)
  with pick_command_defined [OF sh assms(2,3)] pick_activate_defined [OF sh assms(2,3)] show ?thesis
    unfolding try_queue_def g by (auto split: option.splits intro!: defined_rbind)
qed

lemma try_precharge_defined:
  assumes "cq_ok c q" and "table_ok c bst" and "length modes = ranks_of c"
  shows "defined (try_precharge c bst modes q)"
proof -
  let ?r = "cq_next_rank_pre q" and ?b = "cq_next_bank_pre q"
  let ?xs = "queues q ! unat ?r ! 0"
  have sh: "cq_shape c q" and r: "unat ?r < ranks_of c" "unat ?b < banks_of c"
    using assms(1) by (simp_all add: cq_ok_def cq_counters_def)
  have g: "get_command_queue ?r ?b q = Inr ?xs" using queue_at [OF sh r(1)] .
  then have "\<forall>p \<in> set ?xs. column_packet c p"
    using assms(1) queue_packets [of q ?r "queue_index ?b q"] by (auto simp: cq_ok_def get_command_queue_def)
  then have "defined (row_wanted bst ?r ?b ?xs False)" using row_wanted_defined [OF assms(2)] by blast
  moreover have "in_range c (mk_packet PRECHARGE 0 0 (open_row m) ?r ?b None)" for m :: mc_bank using r by (simp add: in_range_def)
  then have "defined (offer c bst modes q (mk_packet PRECHARGE 0 0 (open_row m) ?r ?b None))" for m :: mc_bank
    using offer_defined [OF sh assms(2,3)] by simp
  ultimately show ?thesis
    using table_at_ok [OF assms(2) r] unfolding try_precharge_def Let_def g by (auto intro!: defined_rbind)
qed

section \<open>The scans end\<close>

text \<open>The steps of a round from one position until the start is met again.\<close>

definition steps_left :: "nat \<Rightarrow> nat \<Rightarrow> nat \<Rightarrow> nat" where
  "steps_left n start i = (if i < start then start - i else start + n - i)"

lemma steps_left_next:
  assumes "start < n" and "i < n"
  defines "i' \<equiv> (if Suc i = n then 0 else Suc i)"
  shows "i' < n" and "i' \<noteq> start \<Longrightarrow> Suc (steps_left n start i') = steps_left n start i"
    and "0 < steps_left n start i" and "steps_left n start start = n"
  using assms by (auto simp: steps_left_def)

lemma advance_per_rank:
  assumes "cq_structure q = PerRank" and "unat (cq_next_rank q) < ranks_of c"
  shows "advance_command c q = Inr (q\<lparr>cq_next_rank := (cq_next_rank q + 1) mod NUM_RANKS c\<rparr>)
    \<and> unat ((cq_next_rank q + 1) mod NUM_RANKS c)
      = (if Suc (unat (cq_next_rank q)) = ranks_of c then 0 else Suc (unat (cq_next_rank q)))"
proof -
  have "NUM_RANKS c \<noteq> 0" using assms(2) by (auto simp: ranks_of_def)
  moreover have "unat (cq_next_rank q + 1) = Suc (unat (cq_next_rank q))"
    using assms(2) unsigned_less [of "NUM_RANKS c", where 'a = nat] by (simp add: ranks_of_def unat_plus_if')
  ultimately show ?thesis using assms by (auto simp: advance_command_def unat_mod ranks_of_def)
qed

lemma cq_ok_next_rank: "cq_ok c q \<Longrightarrow> unat r < ranks_of c \<Longrightarrow> cq_ok c (q\<lparr>cq_next_rank := r\<rparr>)"
  by (simp add: cq_ok_def cq_shape_def cq_counters_def all_packets_def)

lemma command_scan_defined:
  assumes "table_ok c bst" and "length modes = ranks_of c" and "unat s < ranks_of c"
  shows "cq_ok c q \<Longrightarrow> steps_left (ranks_of c) (unat s) (unat (cq_next_rank q)) \<le> n
    \<Longrightarrow> defined (command_scan n (s, cq_next_bank q) c bst modes q)"
proof (induction n arbitrary: q)
  case 0
  then show ?case using steps_left_next(3) [OF assms(3), of "unat (cq_next_rank q)"] by (simp add: cq_ok_def cq_counters_def)
next
  case (Suc n)
  have r: "unat (cq_next_rank q) < ranks_of c" "cq_structure q = PerRank"
    using Suc.prems by (simp_all add: cq_ok_def cq_counters_def cq_shape_def)
  define q1 where "q1 = q\<lparr>cq_next_rank := (cq_next_rank q + 1) mod NUM_RANKS c\<rparr>"
  note ad = advance_per_rank [OF r(2,1)]
  note sl = steps_left_next [OF assms(3) r(1)]
  have ok: "cq_ok c q1" unfolding q1_def using cq_ok_next_rank [OF Suc.prems(1)] ad sl(1) by simp
  have "defined (command_scan n (s, cq_next_bank q1) c bst modes q1)" if "cq_next_rank q1 \<noteq> s"
  proof (rule Suc.IH [OF ok])
    have "unat (cq_next_rank q1) \<noteq> unat s" using that by (simp add: word_unat_eq_iff)
    then show "steps_left (ranks_of c) (unat s) (unat (cq_next_rank q1)) \<le> n"
      using sl(2) ad Suc.prems(2) by (simp add: q1_def split: if_splits)
  qed
  then show ?case
    unfolding command_scan.simps
    by (intro defined_rbind [OF try_queue_defined [OF Suc.prems(1) assms(1,2)]])
      (auto simp: ad q1_def split: option.splits)
qed

text \<open>Positions of the precharge scan.\<close>

definition position :: "dram_config \<Rightarrow> sched_policy \<Rightarrow> u32 \<times> u32 \<Rightarrow> nat" where
  "position c pol rb = (case rb of (r, b) \<Rightarrow>
     case pol of RankThenBankRoundRobin \<Rightarrow> unat r + ranks_of c * unat b
               | BankThenRankRoundRobin \<Rightarrow> unat b + banks_of c * unat r)"

lemma mixed_radix:
  fixes a b :: nat
  assumes "a < m" and "b < n"
  shows "a + m * b < m * n" and "(a + m * b) mod m = a" and "(a + m * b) div m = b"
proof -
  have "a + m * b < m * Suc b" using assms by simp
  also have "\<dots> \<le> m * n" using assms by (intro mult_le_mono) simp_all
  finally show "a + m * b < m * n" .
qed (use assms in simp_all)

lemma position_inj:
  assumes "unat r < ranks_of c" and "unat b < banks_of c" and "unat r' < ranks_of c" and "unat b' < banks_of c"
    and "position c pol (r, b) = position c pol (r', b')"
  shows "(r, b) = (r', b')"
proof -
  have same: "a = a' \<and> d = d'" if "a < m" "d < n" "a' < m" "d' < n" "a + m * d = a' + m * d'" for a d a' d' m n :: nat
    using mixed_radix(2,3) [OF that(1,2)] mixed_radix(2,3) [OF that(3,4)] that(5) by simp
  have "unat r = unat r' \<and> unat b = unat b'"
    using assms same [of "unat r" "ranks_of c" "unat b" "banks_of c" "unat r'" "unat b'"]
      same [of "unat b" "banks_of c" "unat r" "ranks_of c" "unat b'" "unat r'"]
    by (cases pol) (simp_all add: position_def)
  then show ?thesis by (simp add: word_unat_eq_iff)
qed

lemma position_less:
  "unat r < ranks_of c \<Longrightarrow> unat b < banks_of c \<Longrightarrow> position c pol (r, b) < round_steps c"
  using mixed_radix(1) [of "unat r" "ranks_of c" "unat b" "banks_of c"]
    mixed_radix(1) [of "unat b" "banks_of c" "unat r" "ranks_of c"]
  by (cases pol) (simp_all add: position_def round_steps_def ranks_of_def banks_of_def mult.commute)

lemma unat_next:
  "unat x < unat n \<Longrightarrow> unat (x + 1) = Suc (unat x) \<and> (x + 1 = n \<longleftrightarrow> Suc (unat x) = unat n)" for x n :: u32
proof -
  assume a: "unat x < unat n"
  then have "unat (x + 1) = Suc (unat x)" using unsigned_less [of n, where 'a = nat] by (simp add: unat_plus_if')
  then show ?thesis by (simp add: word_unat_eq_iff)
qed

lemma position_next:
  assumes "unat r < ranks_of c" and "unat b < banks_of c" and "next_rank_and_bank c q (r, b) = (r', b')"
  shows "unat r' < ranks_of c \<and> unat b' < banks_of c
    \<and> position c (cq_policy q) (r', b')
      = (if Suc (position c (cq_policy q) (r, b)) = round_steps c then 0 else Suc (position c (cq_policy q) (r, b)))"
proof -
  note n = unat_next [OF assms(1) [unfolded ranks_of_def]] unat_next [OF assms(2) [unfolded banks_of_def]]
  have less: "Suc (a + m * d) \<noteq> m * n" if "Suc a < m" "d < n" for a d m n :: nat
    using mixed_radix(1) [of "Suc a" m d n] that by simp
  have wrap: "Suc (a + m * d) = m * Suc d" if "Suc a = m" for a d m :: nat using that by (cases m) simp_all
  have last: "Suc (a + m * d) = m * n \<longleftrightarrow> Suc d = n" if "Suc a = m" for a d m n :: nat
    using wrap [OF that] that by (metis Suc_neq_Zero mult_cancel1)
  show ?thesis
  proof (cases "cq_policy q")
    case RankThenBankRoundRobin
    show ?thesis
    proof (cases "Suc (unat r) = ranks_of c")
      case True
      then have "r' = 0" "b' = (if b + 1 = NUM_BANKS c then 0 else b + 1)"
        using assms(3) n RankThenBankRoundRobin by (simp_all add: next_rank_and_bank_def ranks_of_def)
      then show ?thesis
        using True assms(1,2) n last [OF True, of "unat b" "banks_of c"] wrap [OF True, of "unat b"] RankThenBankRoundRobin
        by (auto simp: position_def round_steps_def ranks_of_def banks_of_def)
    next
      case False
      then have "r' = r + 1" "b' = b"
        using assms(3) n RankThenBankRoundRobin by (simp_all add: next_rank_and_bank_def ranks_of_def)
      then show ?thesis
        using False assms(1,2) n less [of "unat r" "ranks_of c" "unat b" "banks_of c"] RankThenBankRoundRobin
        by (auto simp: position_def round_steps_def ranks_of_def banks_of_def)
    qed
  next
    case BankThenRankRoundRobin
    show ?thesis
    proof (cases "Suc (unat b) = banks_of c")
      case True
      then have "b' = 0" "r' = (if r + 1 = NUM_RANKS c then 0 else r + 1)"
        using assms(3) n BankThenRankRoundRobin by (simp_all add: next_rank_and_bank_def banks_of_def)
      then show ?thesis
        using True assms(1,2) n last [OF True, of "unat r" "ranks_of c"] wrap [OF True, of "unat r"] BankThenRankRoundRobin
        by (auto simp: position_def round_steps_def ranks_of_def banks_of_def mult.commute)
    next
      case False
      then have "b' = b + 1" "r' = r"
        using assms(3) n BankThenRankRoundRobin by (simp_all add: next_rank_and_bank_def banks_of_def)
      then show ?thesis
        using False assms(1,2) n less [of "unat b" "banks_of c" "unat r" "ranks_of c"] BankThenRankRoundRobin
        by (auto simp: position_def round_steps_def ranks_of_def banks_of_def mult.commute)
    qed
  qed
qed

lemma cq_ok_next_pre:
  "cq_ok c q \<Longrightarrow> unat r < ranks_of c \<Longrightarrow> unat b < banks_of c \<Longrightarrow> cq_ok c (q\<lparr>cq_next_rank_pre := r, cq_next_bank_pre := b\<rparr>)"
  by (simp add: cq_ok_def cq_shape_def cq_counters_def all_packets_def)

lemma precharge_scan_defined:
  assumes "table_ok c bst" and "length modes = ranks_of c" and "unat sr < ranks_of c" and "unat sb < banks_of c"
  shows "cq_ok c q \<Longrightarrow> steps_left (round_steps c) (position c (cq_policy q) (sr, sb))
      (position c (cq_policy q) (cq_next_rank_pre q, cq_next_bank_pre q)) \<le> n
    \<Longrightarrow> defined (precharge_scan n (sr, sb) c bst modes q)"
proof (induction n arbitrary: q)
  case 0
  then have "unat (cq_next_rank_pre q) < ranks_of c" "unat (cq_next_bank_pre q) < banks_of c"
    by (simp_all add: cq_ok_def cq_counters_def)
  from 0(2) steps_left_next(3) [OF position_less [OF assms(3,4)] position_less [OF this], of "cq_policy q" "cq_policy q"]
  show ?case by simp
next
  case (Suc n)
  have r: "unat (cq_next_rank_pre q) < ranks_of c" "unat (cq_next_bank_pre q) < banks_of c"
    using Suc.prems by (simp_all add: cq_ok_def cq_counters_def)
  obtain r' b' where nx: "next_rank_and_bank c q (cq_next_rank_pre q, cq_next_bank_pre q) = (r', b')" by fastforce
  note pn = position_next [OF r nx]
  note sl = steps_left_next(2) [OF position_less [OF assms(3,4)] position_less [OF r], of "cq_policy q" "cq_policy q"]
  define q1 where "q1 = q\<lparr>cq_next_rank_pre := r', cq_next_bank_pre := b'\<rparr>"
  have ok: "cq_ok c q1" unfolding q1_def using cq_ok_next_pre [OF Suc.prems(1)] pn by simp
  have "defined (precharge_scan n (sr, sb) c bst modes q1)" if "(r', b') \<noteq> (sr, sb)"
  proof (rule Suc.IH [OF ok])
    have "position c (cq_policy q) (r', b') \<noteq> position c (cq_policy q) (sr, sb)"
      using position_inj [of r' c b' sr sb "cq_policy q"] pn assms(3,4) that by blast
    then show "steps_left (round_steps c) (position c (cq_policy q1) (sr, sb))
        (position c (cq_policy q1) (cq_next_rank_pre q1, cq_next_bank_pre q1)) \<le> n"
      using sl pn Suc.prems(2) by (simp add: q1_def split: if_splits)
  qed
  then show ?case
    unfolding precharge_scan.simps
    by (intro defined_rbind [OF try_precharge_defined [OF Suc.prems(1) assms(1,2)]])
      (auto simp: nx q1_def split: option.splits)
qed

section \<open>Popping keeps the queue well-formed\<close>

lemma mset_update:
  "i < length xs \<Longrightarrow> mset (concat (xs[i := x])) + mset (xs ! i) = mset (concat xs) + mset x"
  by (induction xs arbitrary: i) (auto split: nat.splits simp: algebra_simps)

lemma taken_at:
  assumes "table_at t r i = Inr xs"
  shows "unat r < length t \<and> i < length (t ! unat r) \<and> xs = t ! unat r ! i"
  using assms by (cases "unat r < length t"; cases "i < length (t ! unat r)"; simp add: table_at_def)

text \<open>A queue loses exactly the command that is taken.\<close>

lemma taken_mset:
  assumes "taken p q q'"
  shows "mset (all_packets q) = add_mset p (mset (all_packets q'))"
proof -
  obtain r i pre post where t: "table_at (queues q) r i = Inr (pre @ p # post)"
    "queues q' = (queues q)[unat r := (queues q ! unat r)[i := pre @ post]]"
    using assms by (auto simp: taken_def)
  let ?row = "queues q ! unat r"
  have at: "unat r < length (queues q)" "i < length ?row" "?row ! i = pre @ p # post"
    using taken_at [OF t(1)] by simp_all
  have "mset (concat (?row[i := pre @ post])) + mset (pre @ p # post) = mset (concat ?row) + mset (pre @ post)"
    using mset_update [OF at(2), of "pre @ post"] at(3) by simp
  then have row: "mset (concat ?row) = add_mset p (mset (concat (?row[i := pre @ post])))" by simp
  have "concat (concat q) = concat (map concat q)" for q :: "bus_packet list list list"
    by (induction q) simp_all
  moreover have "mset (concat (map concat (queues q'))) + mset (concat ?row)
      = mset (concat (map concat (queues q))) + mset (concat (?row[i := pre @ post]))"
    using mset_update [of "unat r" "map concat (queues q)" "concat (?row[i := pre @ post])"] at(1)
    by (simp add: t(2) map_update)
  ultimately show ?thesis using row by (simp add: all_packets_def)
qed

lemma taken_shape:
  assumes "taken p q q'" and "cq_shape c q" and "same_issue q q'"
  shows "cq_shape c q'"
proof -
  obtain r i pre post where t: "table_at (queues q) r i = Inr (pre @ p # post)"
    "queues q' = (queues q)[unat r := (queues q ! unat r)[i := pre @ post]]"
    using assms(1) by (auto simp: taken_def)
  let ?row = "queues q ! unat r"
  have at: "unat r < length (queues q)" "i < length ?row" "?row ! i = pre @ p # post"
    using taken_at [OF t(1)] by simp_all
  then have "?row \<in> set (queues q)" "pre @ p # post \<in> set ?row" by (simp, metis nth_mem)
  with assms(2) have d: "?row \<noteq> []" "\<forall>xs \<in> set ?row. length xs \<le> unat (CMD_QUEUE_DEPTH c)" "length (pre @ p # post) \<le> unat (CMD_QUEUE_DEPTH c)"
    unfolding cq_shape_def by blast+
  define new where "new = ?row[i := pre @ post]"
  have new: "new \<noteq> []" "length xs \<le> unat (CMD_QUEUE_DEPTH c)" if "xs \<in> set new" for xs
  proof -
    have "xs = pre @ post \<or> xs \<in> set ?row" using that by (auto simp: new_def dest!: set_update_subset_insert [THEN subsetD])
    then show "length xs \<le> unat (CMD_QUEUE_DEPTH c)" using d by auto
  qed (use that in auto)
  have rows: "row = new \<or> row \<in> set (queues q)" if "row \<in> set (queues q')" for row
    using that by (auto simp: t(2) new_def dest!: set_update_subset_insert [THEN subsetD])
  have "new \<noteq> []" using d(1) by (simp add: new_def)
  with assms(2) rows new(2) have "\<forall>row \<in> set (queues q'). row \<noteq> []"
    "\<forall>row \<in> set (queues q'). \<forall>xs \<in> set row. length xs \<le> unat (CMD_QUEUE_DEPTH c)"
    unfolding cq_shape_def by blast+
  then show ?thesis using assms(2,3) by (simp add: cq_shape_def same_issue_def t(2))
qed

lemma popped_ok:
  assumes "popped c bst modes p q q'" and "cq_ok c q" and "cq_counters c q'"
  shows "cq_ok c q'"
proof -
  have si: "same_issue q q'" using assms(1) by (simp add: popped_def)
  consider "taken p q q'" | "queues q' = queues q" using assms(1) by (auto simp: popped_def)
  then show ?thesis
  proof cases
    case 1
    then have "set (all_packets q') \<subseteq> set (all_packets q)"
      using taken_mset [OF 1] by (metis set_mset_mset set_mset_add_mset_insert subset_insertI)
    then show ?thesis using assms(2,3) taken_shape [OF 1 _ si] by (auto simp: cq_ok_def)
  next
    case 2
    then show ?thesis using assms(2,3) si by (simp add: cq_ok_def cq_shape_def same_issue_def all_packets_def)
  qed
qed

lemma scanned_ok: "scanned q q' \<Longrightarrow> cq_ok c q \<Longrightarrow> cq_counters c q' \<Longrightarrow> cq_ok c q'"
  by (simp add: scanned_def cq_ok_def cq_shape_def same_issue_def all_packets_def)

lemma try_queue_counters: "try_queue c bst modes q = Inr (Some (p, q')) \<Longrightarrow> cq_counters c q \<Longrightarrow> cq_counters c q'"
  by (auto simp: try_queue_def rbind_Inr put_command_queue_def cq_counters_def split: option.splits)

lemma command_scan_counters:
  assumes "command_scan n start c bst modes q = Inr (x, q')" and "cq_ok c q"
  shows "cq_counters c q'"
  using assms
proof (induction n arbitrary: q)
  case (Suc n)
  obtain y where y: "try_queue c bst modes q = Inr y" using Suc.prems by (auto simp: rbind_Inr)
  have ct: "cq_counters c q" "unat (cq_next_rank q) < ranks_of c" "cq_structure q = PerRank"
    using Suc.prems(2) by (simp_all add: cq_ok_def cq_counters_def cq_shape_def)
  show ?case
  proof (cases y)
    case (Some z)
    then show ?thesis using Suc.prems y try_queue_counters [OF _ ct(1)] by (cases z) auto
  next
    case None
    let ?q = "q\<lparr>cq_next_rank := (cq_next_rank q + 1) mod NUM_RANKS c\<rparr>"
    have "unat ((cq_next_rank q + 1) mod NUM_RANKS c) < ranks_of c"
      using advance_per_rank [OF ct(3,2)] ct(2) by (auto split: if_splits)
    then have ok: "cq_ok c ?q" using cq_ok_next_rank [OF Suc.prems(2)] by blast
    have "(x, q') = (None, ?q) \<or> command_scan n start c bst modes ?q = Inr (x, q')"
      using Suc.prems(1) y None advance_per_rank [OF ct(3,2)] by (auto split: if_splits)
    then show ?thesis using Suc.IH [OF _ ok] ok by (auto simp: cq_ok_def)
  qed
qed simp

lemma precharge_scan_counters:
  assumes "precharge_scan n start c bst modes q = Inr (x, q')" and "cq_ok c q"
  shows "cq_counters c q'"
  using assms
proof (induction n arbitrary: q)
  case (Suc n)
  obtain y where y: "try_precharge c bst modes q = Inr y" using Suc.prems by (auto simp: rbind_Inr)
  have ct: "cq_counters c q" "unat (cq_next_rank_pre q) < ranks_of c" "unat (cq_next_bank_pre q) < banks_of c"
    using Suc.prems(2) by (simp_all add: cq_ok_def cq_counters_def)
  obtain r b where nx: "next_rank_and_bank c q (cq_next_rank_pre q, cq_next_bank_pre q) = (r, b)" by fastforce
  let ?q = "q\<lparr>cq_next_rank_pre := r, cq_next_bank_pre := b\<rparr>"
  have ok: "cq_ok c ?q" using cq_ok_next_pre [OF Suc.prems(2)] position_next [OF ct(2,3) nx] by blast
  have "q' = q \<or> q' = ?q \<or> precharge_scan n start c bst modes ?q = Inr (x, q')"
    using Suc.prems(1) y nx by (auto split: option.splits if_splits)
  then show ?case using Suc.IH [OF _ ok] ok ct(1) by (auto simp: cq_ok_def)
qed simp

lemma windowed_ok: "cq_ok c q \<Longrightarrow> windowed q = q"
  by (simp add: windowed_def cq_ok_def cq_shape_def tick_window_def)

lemma pop_defined:
  assumes "cq_ok c q" and "table_ok c bst" and "length modes = ranks_of c"
  shows "\<exists>x q'. pop c bst modes q = Inr (x, q') \<and> cq_ok c q'"
proof -
  have w: "q\<lparr>cq_xaw := map tick_window (cq_xaw q)\<rparr> = q" using windowed_ok [OF assms(1)] by (simp add: windowed_def)
  have sh: "cq_shape c q" and cn: "cq_counters c q" using assms(1) by (simp_all add: cq_ok_def)
  have st: "cq_structure q = PerRank" using sh by (simp add: cq_shape_def)
  have refr: "unat (cq_refresh_rank q) < ranks_of c" using cn by (simp add: cq_counters_def)
  have "defined (offer c bst modes q (mk_packet REF 0 0 0 (cq_refresh_rank q) 0 None))"
    by (rule offer_defined [OF sh assms(2,3)]) (use cn in \<open>auto simp: in_range_def cq_counters_def\<close>)
  then have "defined (process_refresh c bst modes q)"
    using close_rows_defined [OF sh assms(2,3) refr, of "[0..<unat (NUM_BANKS c)]"] unfolding process_refresh_def
    by (auto simp: banks_of_def split: option.splits intro!: defined_rbind)
  then obtain x1 q1 where 1: "process_refresh c bst modes q = Inr (x1, q1)" by (auto simp: defined_def)
  have ct1: "cq_counters c q1"
    using 1 cn by (auto simp: process_refresh_def rbind_Inr cq_counters_def split: if_splits option.splits)
  show ?thesis
  proof (cases x1)
    case (Some p)
    then have "pop c bst modes q = Inr (Some p, q1)"
      using 1 st by (simp add: pop_def w)
    moreover have "cq_ok c q1" using process_refresh_result [OF 1] Some popped_ok [OF _ assms(1) ct1] by simp
    ultimately show ?thesis by blast
  next
    case None
    then have q1: "q1 = q" using process_refresh_result [OF 1] by simp
    have one: "1 \<le> banks_of c" using cn by (auto simp: cq_counters_def)
    have nr: "unat (cq_next_rank q) < ranks_of c" using cn by (simp add: cq_counters_def)
    have "steps_left (ranks_of c) (unat (cq_next_rank q)) (unat (cq_next_rank q)) \<le> round_steps c"
      using steps_left_next(4) [OF nr nr] one by (simp add: round_steps_def ranks_of_def banks_of_def)
    from command_scan_defined [OF assms(2,3) nr assms(1) this]
    obtain x2 q2 where 2: "process_command c bst modes q = Inr (x2, q2)" by (auto simp: defined_def process_command_def)
    have ct2: "cq_counters c q2" using command_scan_counters [OF 2 [unfolded process_command_def] assms(1)] .
    note r2 = command_scan_result [OF 2 [unfolded process_command_def]]
    show ?thesis
    proof (cases x2)
      case (Some p)
      then have "pop c bst modes q = Inr (Some p, q2)" using 1 2 None q1 st by (simp add: pop_def w)
      moreover have "cq_ok c q2" using r2 Some popped_ok [OF _ assms(1) ct2] by simp
      ultimately show ?thesis by blast
    next
      case n2: None
      have ok2: "cq_ok c q2" using scanned_ok [OF _ assms(1) ct2] r2 n2 by simp
      then have pr: "unat (cq_next_rank_pre q2) < ranks_of c" "unat (cq_next_bank_pre q2) < banks_of c"
        by (simp_all add: cq_ok_def cq_counters_def)
      have "steps_left (round_steps c) (position c (cq_policy q2) (cq_next_rank_pre q2, cq_next_bank_pre q2))
          (position c (cq_policy q2) (cq_next_rank_pre q2, cq_next_bank_pre q2)) \<le> round_steps c"
        using steps_left_next(4) [OF position_less [OF pr] position_less [OF pr]] by simp
      from precharge_scan_defined [OF assms(2,3) pr ok2 this]
      obtain x3 q3 where 3: "process_precharge c bst modes q2 = Inr (x3, q3)" by (auto simp: defined_def process_precharge_def)
      have ct3: "cq_counters c q3" using precharge_scan_counters [OF 3 [unfolded process_precharge_def] ok2] .
      have "cq_ok c q3"
        using precharge_scan_result [OF 3 [unfolded process_precharge_def]] popped_ok [OF _ ok2 ct3] scanned_ok [OF _ ok2 ct3]
        by (auto split: option.splits)
      moreover have "pop c bst modes q = Inr (x3, q3)" using 1 2 3 None q1 n2 st by (simp add: pop_def w)
      ultimately show ?thesis by blast
    qed
  qed
qed

end
