(* ===== verification/AddrMap.thy ===== *)
theory AddrMap
  imports PimStorage
begin

text \<open>
  The address mapping: \<^verbatim>\<open>AddrMapping\<close> of \<^verbatim>\<open>PIMSimulator/src/AddressMapping.h\<close> and \<^verbatim>\<open>AddressMapping.cpp\<close>,
  with \<^verbatim>\<open>uLog2\<close> of \<^verbatim>\<open>Utils.h\<close>.  Each scheme cuts the address into fields from the low end; a field is named by
  the coordinate it is assigned to, and the bank of the last scheme is assembled from two.  A shift by 64 or
  more is \<^verbatim>\<open>Undefined\<close>.
\<close>

unbundle bit_operations_syntax

section \<open>The definitions\<close>

function halvings :: "u32 \<Rightarrow> u32 \<Rightarrow> u32" where
  "halvings v n = (if 0 < v then halvings (drop_bit 1 v) (n + 1) else n)"
  by pat_completeness auto
termination
  by (relation "measure (\<lambda>(v, _). unat v)") (auto simp: unat_drop_bit_eq drop_bit_nat_def word_less_nat_alt)

declare halvings.simps [simp del]

definition u_log2 :: "u32 \<Rightarrow> u32" where
  "u_log2 orig =
     (let n = halvings (drop_bit 1 orig) 0 in if push_bit (unat n) 1 < orig then n + 1 else n)"

datatype address_scheme = Scheme1 | Scheme2 | Scheme3 | Scheme4 | Scheme5 | Scheme6 | Scheme7 | Scheme8

record addr_params =
  ap_bus_bits :: u32
  ap_bl :: u32
  ap_chans :: u32
  ap_ranks :: u32
  ap_banks :: u32
  ap_bank_groups :: u32
  ap_rows :: u32
  ap_cols :: u32
  ap_scheme :: address_scheme

record addr_map =
  am_transaction_size :: u64
  am_transaction_mask :: u64
  am_chan_w :: u64
  am_rank_w :: u64
  am_bank_w :: u64
  am_group_w :: u64
  am_row_w :: u64
  am_col_w :: u64
  am_offset_w :: u64
  am_col_low_w :: u64
  am_col_high_w :: u64
  am_banks_per_group :: u32
  am_scheme :: address_scheme

definition addr_map_init :: "addr_params \<Rightarrow> addr_map result" where
  "addr_map_init p =
     (if ap_bank_groups p = 0 then Inl Undefined
      else let size = ap_bus_bits p div 8 * ap_bl p; off = ucast (u_log2 (ap_bus_bits p div 8));
               low = ucast (u_log2 size) - off; col = ucast (u_log2 (ap_cols p)) in
        Inr \<lparr>am_transaction_size = ucast size, am_transaction_mask = ucast size - 1,
             am_chan_w = ucast (u_log2 (ap_chans p)), am_rank_w = ucast (u_log2 (ap_ranks p)),
             am_bank_w = ucast (u_log2 (ap_banks p)), am_group_w = ucast (u_log2 (ap_bank_groups p)),
             am_row_w = ucast (u_log2 (ap_rows p)), am_col_w = col, am_offset_w = off, am_col_low_w = low,
             am_col_high_w = col - low, am_banks_per_group = ap_banks p div ap_bank_groups p,
             am_scheme = ap_scheme p\<rparr>)"

text \<open>Cutting the low bits off: the bits and the rest.\<close>

definition diff_bit_width :: "u64 \<Rightarrow> u64 \<Rightarrow> (u64 \<times> u64) result" where
  "diff_bit_width a w =
     (if 64 \<le> w then Inl Undefined
      else let a' = drop_bit (unat w) a in Inr (a XOR push_bit (unat w) a', a'))"

record coords =
  co_chan :: u32
  co_rank :: u32
  co_bank :: u32
  co_row :: u32
  co_col :: u32

datatype coord_field = Chan | Rank | Bank | Group | Row | Col

fun assign :: "addr_map \<Rightarrow> coord_field \<Rightarrow> u64 \<Rightarrow> coords \<Rightarrow> coords" where
  "assign m Chan v c = c\<lparr>co_chan := ucast v\<rparr>"
| "assign m Rank v c = c\<lparr>co_rank := ucast v\<rparr>"
| "assign m Bank v c = c\<lparr>co_bank := ucast v\<rparr>"
| "assign m Group v c =
     c\<lparr>co_bank := co_bank c OR ucast (push_bit (unat (am_bank_w m - am_group_w m)) v)\<rparr>"
| "assign m Row v c = c\<lparr>co_row := ucast v\<rparr>"
| "assign m Col v c = c\<lparr>co_col := ucast v\<rparr>"

text \<open>The assignments of each scheme, the lowest bits first.\<close>

definition scheme_fields :: "addr_map \<Rightarrow> (coord_field \<times> u64) list" where
  "scheme_fields m =
     (case am_scheme m of
        Scheme1 \<Rightarrow> [(Bank, am_bank_w m), (Col, am_col_high_w m), (Row, am_row_w m), (Rank, am_rank_w m), (Chan, am_chan_w m)]
      | Scheme2 \<Rightarrow> [(Rank, am_rank_w m), (Bank, am_bank_w m), (Col, am_col_high_w m), (Row, am_row_w m), (Chan, am_chan_w m)]
      | Scheme3 \<Rightarrow> [(Row, am_row_w m), (Col, am_col_high_w m), (Bank, am_bank_w m), (Rank, am_rank_w m), (Chan, am_chan_w m)]
      | Scheme4 \<Rightarrow> [(Col, am_col_high_w m), (Row, am_row_w m), (Bank, am_bank_w m), (Rank, am_rank_w m), (Chan, am_chan_w m)]
      | Scheme5 \<Rightarrow> [(Bank, am_bank_w m), (Rank, am_rank_w m), (Col, am_col_high_w m), (Row, am_row_w m), (Chan, am_chan_w m)]
      | Scheme6 \<Rightarrow> [(Col, am_col_high_w m), (Rank, am_rank_w m), (Bank, am_bank_w m), (Row, am_row_w m), (Chan, am_chan_w m)]
      | Scheme7 \<Rightarrow> [(Chan, am_chan_w m), (Bank, am_bank_w m), (Rank, am_rank_w m), (Col, am_col_high_w m), (Row, am_row_w m)]
      | Scheme8 \<Rightarrow> [(Chan, am_chan_w m), (Bank, am_bank_w m - am_group_w m), (Group, am_group_w m),
                    (Col, am_col_high_w m), (Row, am_row_w m), (Rank, am_rank_w m)])"

fun map_fields :: "addr_map \<Rightarrow> (coord_field \<times> u64) list \<Rightarrow> u64 \<Rightarrow> coords \<Rightarrow> coords result" where
  "map_fields m [] a c = Inr c"
| "map_fields m ((f, w) # fs) a c =
     rbind (diff_bit_width a w) (\<lambda>(v, a'). map_fields m fs a' (assign m f v c))"

definition coords_unset :: coords where
  "coords_unset = \<lparr>co_chan = 0, co_rank = 0, co_bank = 0, co_row = 0, co_col = 0\<rparr>"

definition address_mapping :: "addr_map \<Rightarrow> u64 \<Rightarrow> coords result" where
  "address_mapping m pa =
     (if 64 \<le> am_offset_w m \<or> 64 \<le> am_col_low_w m then Inl Undefined
      else map_fields m (scheme_fields m) (drop_bit (unat (am_col_low_w m)) (drop_bit (unat (am_offset_w m)) pa)) coords_unset)"

section \<open>Reading the fields as numbers\<close>

definition width_ok :: "u64 \<Rightarrow> bool" where
  "width_ok w \<longleftrightarrow> w \<le> 32"

lemma diff_bit_width_eq:
  assumes "width_ok w"
  shows "diff_bit_width a w = Inr (take_bit (unat w) a, drop_bit (unat w) a)"
proof -
  have "unat w < 64" using assms by (simp add: width_ok_def word_le_nat_alt)
  moreover have "a XOR push_bit n (drop_bit n a) = take_bit n a" for n
    by (rule bit_word_eqI) (auto simp: bit_simps)
  ultimately show ?thesis by (simp add: diff_bit_width_def Let_def word_le_nat_alt)
qed

lemma unat_take_field:
  assumes "width_ok w"
  shows "unat (ucast (take_bit (unat w) (a :: u64)) :: u32) = unat a mod 2 ^ unat w"
proof -
  have "unat (take_bit (unat w) a) = unat a mod 2 ^ unat w"
    by (simp add: take_bit_eq_mod unsigned_take_bit_eq flip: take_bit_eq_mod)
  moreover have "unat a mod 2 ^ unat w < 2 ^ 32"
    using assms
    by (intro order_less_le_trans [OF mod_less_divisor] power_increasing) (simp_all add: width_ok_def word_le_nat_alt)
  ultimately show ?thesis by (simp add: unsigned_ucast_eq take_bit_nat_eq_self)
qed

text \<open>Cutting a number into fields, and putting it together again.\<close>

fun split_fields :: "nat list \<Rightarrow> nat \<Rightarrow> nat list" where
  "split_fields [] n = []"
| "split_fields (w # ws) n = n mod 2 ^ w # split_fields ws (n div 2 ^ w)"

fun join_fields :: "nat list \<Rightarrow> nat list \<Rightarrow> nat" where
  "join_fields (w # ws) (v # vs) = v + 2 ^ w * join_fields ws vs"
| "join_fields _ _ = 0"

lemma join_split: "join_fields ws (split_fields ws n) = n mod 2 ^ sum_list ws"
proof (induction ws arbitrary: n)
  case (Cons w ws)
  then show ?case by (simp add: power_add mod_mult2_eq)
qed simp

lemma split_join:
  "length vs = length ws \<Longrightarrow> list_all2 (\<lambda>v w. v < 2 ^ w) vs ws \<Longrightarrow> split_fields ws (join_fields ws vs) = vs"
proof (induction ws vs rule: join_fields.induct)
  case (1 w ws v vs)
  then show ?case by (simp add: div_mult_self3)
qed auto

lemma join_less: "list_all2 (\<lambda>v w. v < 2 ^ w) vs ws \<Longrightarrow> join_fields ws vs < 2 ^ sum_list ws"
proof (induction ws vs rule: join_fields.induct)
  case (1 w ws v vs)
  then have "v < 2 ^ w" "Suc (join_fields ws vs) \<le> 2 ^ sum_list ws" by simp_all
  then have "v + 2 ^ w * join_fields ws vs < 2 ^ w * Suc (join_fields ws vs)" by simp
  also have "\<dots> \<le> 2 ^ w * 2 ^ sum_list ws" using \<open>Suc _ \<le> _\<close> by (intro mult_le_mono) simp_all
  finally show ?case by (simp add: power_add)
qed auto

text \<open>Field by field, the mapping assigns the pieces of the address.\<close>

fun assign_all :: "addr_map \<Rightarrow> coord_field list \<Rightarrow> nat list \<Rightarrow> coords \<Rightarrow> coords" where
  "assign_all m (f # fs) (v # vs) c = assign_all m fs vs (assign m f (of_nat v) c)"
| "assign_all m _ _ c = c"

lemma map_fields_eq:
  "\<forall>w \<in> set (map snd fs). width_ok w \<Longrightarrow>
   map_fields m fs a c = Inr (assign_all m (map fst fs) (split_fields (map (unat \<circ> snd) fs) (unat a)) c)"
proof (induction fs arbitrary: a c)
  case (Cons fw fs)
  obtain f w where fw: "fw = (f, w)" by (cases fw)
  have "unat (take_bit (unat w) a) = unat a mod 2 ^ unat w" unfolding unsigned_take_bit_eq by (simp add: take_bit_eq_mod)
  from this [symmetric] have "take_bit (unat w) a = of_nat (unat a mod 2 ^ unat w)" by simp
  moreover have "unat (drop_bit (unat w) a) = unat a div 2 ^ unat w" by (simp only: unat_drop_bit_eq) (simp add: drop_bit_nat_def)
  ultimately show ?case using Cons fw by (simp add: diff_bit_width_eq)
qed simp

section \<open>The mapping is a bijection\<close>

definition widths_ok :: "addr_map \<Rightarrow> bool" where
  "widths_ok m \<longleftrightarrow> width_ok (am_chan_w m) \<and> width_ok (am_rank_w m) \<and> width_ok (am_bank_w m) \<and> width_ok (am_row_w m)
     \<and> width_ok (am_col_high_w m) \<and> am_group_w m \<le> am_bank_w m \<and> am_offset_w m < 64 \<and> am_col_low_w m < 64"

definition coords_fit :: "addr_map \<Rightarrow> coords \<Rightarrow> bool" where
  "coords_fit m c \<longleftrightarrow> unat (co_chan c) < 2 ^ unat (am_chan_w m) \<and> unat (co_rank c) < 2 ^ unat (am_rank_w m)
     \<and> unat (co_bank c) < 2 ^ unat (am_bank_w m) \<and> unat (co_row c) < 2 ^ unat (am_row_w m)
     \<and> unat (co_col c) < 2 ^ unat (am_col_high_w m)"

text \<open>The bits below a mapped address, and those of the mapping itself.\<close>

definition low_bits :: "addr_map \<Rightarrow> nat" where
  "low_bits m = unat (am_offset_w m) + unat (am_col_low_w m)"

definition mapped_bits :: "addr_map \<Rightarrow> nat" where
  "mapped_bits m = sum_list (map (unat \<circ> snd) (scheme_fields m))"

definition bank_low :: "addr_map \<Rightarrow> nat" where
  "bank_low m = unat (am_bank_w m - am_group_w m)"

fun field_value :: "addr_map \<Rightarrow> coords \<Rightarrow> coord_field \<Rightarrow> nat" where
  "field_value m c Chan = unat (co_chan c)"
| "field_value m c Rank = unat (co_rank c)"
| "field_value m c Bank = (if am_scheme m = Scheme8 then unat (co_bank c) mod 2 ^ bank_low m else unat (co_bank c))"
| "field_value m c Group = unat (co_bank c) div 2 ^ bank_low m"
| "field_value m c Row = unat (co_row c)"
| "field_value m c Col = unat (co_col c)"

definition field_values :: "addr_map \<Rightarrow> coords \<Rightarrow> nat list" where
  "field_values m c = map (field_value m c) (map fst (scheme_fields m))"

definition values_fit :: "addr_map \<Rightarrow> nat list \<Rightarrow> bool" where
  "values_fit m vs \<longleftrightarrow> list_all2 (\<lambda>v w. v < 2 ^ w) vs (map (unat \<circ> snd) (scheme_fields m))"

lemma fields_widths:
  assumes "widths_ok m" shows "\<forall>w \<in> set (map snd (scheme_fields m)). width_ok w"
proof -
  have "width_ok (am_bank_w m - am_group_w m)" "width_ok (am_group_w m)"
    using assms by (auto simp: widths_ok_def width_ok_def word_le_nat_alt unat_sub)
  with assms show ?thesis
    by (cases "am_scheme m") (simp_all add: scheme_fields_def widths_ok_def)
qed

lemma group_bits: "widths_ok m \<Longrightarrow> bank_low m + unat (am_group_w m) = unat (am_bank_w m)"
  by (simp add: widths_ok_def bank_low_def word_le_nat_alt unat_sub)

lemma mapped_bits_eq:
  "widths_ok m \<Longrightarrow> mapped_bits m = unat (am_chan_w m) + unat (am_rank_w m) + unat (am_bank_w m) + unat (am_row_w m)
     + unat (am_col_high_w m)"
  using group_bits [of m] by (cases "am_scheme m") (simp_all add: mapped_bits_def scheme_fields_def bank_low_def)

lemma small_field:
  assumes "width_ok w" and "v < 2 ^ unat w"
  shows "unat (ucast (of_nat v :: u64) :: u32) = v"
proof -
  have "(2 :: nat) ^ unat w \<le> 2 ^ 32" using assms(1) by (intro power_increasing) (simp_all add: width_ok_def word_le_nat_alt)
  with assms(2) have "v < 2 ^ 32" by simp
  then show ?thesis by (simp add: unsigned_ucast_eq take_bit_nat_eq_self unat_of_nat_small)
qed

text \<open>The two parts of the bank.\<close>

lemma bank_parts:
  assumes "widths_ok m" and "l < 2 ^ bank_low m" and "h < 2 ^ unat (am_group_w m)"
  shows "unat ((ucast (of_nat l :: u64) :: u32) OR ucast (push_bit (unat (am_bank_w m - am_group_w m)) (of_nat h :: u64)))
    = l + 2 ^ bank_low m * h" (is "unat (?l OR ?h) = _")
proof -
  define k where "k = bank_low m"
  have k: "k + unat (am_group_w m) \<le> 32"
    using group_bits [OF assms(1)] assms(1) by (simp add: k_def widths_ok_def width_ok_def word_le_nat_alt)
  have "take_bit k l = l" using assms(2) by (simp add: k_def take_bit_nat_eq_self)
  then have "bit l n \<Longrightarrow> n < k" for n by (metis bit_take_bit_iff)
  then have "l AND push_bit k h = 0" by (intro bit_eqI) (auto simp: bit_simps dest: leD)
  then have sum: "l OR push_bit k h = l + 2 ^ k * h" by (simp add: disjunctive_add_eq_or push_bit_eq_mult mult.commute)
  have "l + 2 ^ k * h < 2 ^ 32"
  proof -
    have "l + 2 ^ k * h < 2 ^ k * Suc h" using assms(2) by (simp add: k_def)
    also have "\<dots> \<le> 2 ^ k * 2 ^ unat (am_group_w m)" using assms(3) by (intro mult_le_mono) simp_all
    also have "\<dots> \<le> 2 ^ 32" using k unfolding power_add [symmetric] by (intro power_increasing) simp_all
    finally show ?thesis .
  qed
  moreover have "?l OR ?h = of_nat (l OR push_bit k h)"
    by (rule bit_word_eqI) (auto simp: bit_simps k_def bank_low_def)
  moreover have "unat (of_nat (l OR push_bit k h) :: u32) = l OR push_bit k h"
    by (intro unat_of_nat_small) (use sum \<open>_ < 2 ^ 32\<close> in simp)
  ultimately show ?thesis using sum by (simp only: k_def)
qed

lemma ucast_unat [simp]: "(ucast (ucast (x :: u32) :: u64) :: u32) = x"
  by (rule bit_word_eqI) (simp add: bit_simps)

lemma bank_split:
  assumes "widths_ok m" and "unat b < 2 ^ unat (am_bank_w m)"
  shows "(ucast (of_nat (unat b mod 2 ^ bank_low m) :: u64) :: u32)
      OR ucast (push_bit (unat (am_bank_w m - am_group_w m)) (of_nat (unat b div 2 ^ bank_low m) :: u64)) = b"
    (is "?x = b")
proof -
  have "unat b < 2 ^ bank_low m * 2 ^ unat (am_group_w m)"
    using assms(2) group_bits [OF assms(1)] by (simp flip: power_add)
  then have "unat b div 2 ^ bank_low m < 2 ^ unat (am_group_w m)" by (simp add: less_mult_imp_div_less mult.commute)
  from bank_parts [OF assms(1) _ this, of "unat b mod 2 ^ bank_low m"] have "unat ?x = unat b"
    by (simp add: mult_div_mod_eq [symmetric])
  then show ?thesis by (simp add: word_unat_eq_iff)
qed

lemma assign_values:
  "widths_ok m \<Longrightarrow> coords_fit m c \<Longrightarrow>
   assign_all m (map fst (scheme_fields m)) (field_values m c) coords_unset = c"
  by (cases "am_scheme m"; cases c)
    (simp_all add: scheme_fields_def field_values_def coords_unset_def bank_split coords_fit_def)

lemma values_of_assign:
  assumes "widths_ok m" and "values_fit m vs"
  defines "c \<equiv> assign_all m (map fst (scheme_fields m)) vs coords_unset"
  shows "coords_fit m c \<and> field_values m c = vs"
proof -
  have w: "width_ok (am_bank_w m)" "width_ok (am_chan_w m)" "width_ok (am_rank_w m)" "width_ok (am_row_w m)"
    "width_ok (am_col_high_w m)"
    using assms(1) by (simp_all add: widths_ok_def)
  note sm = small_field [OF w(1)] small_field [OF w(2)] small_field [OF w(3)] small_field [OF w(4)] small_field [OF w(5)]
  show ?thesis
  proof (cases "am_scheme m = Scheme8")
    case True
    then obtain ch l h co ro ra where vs: "vs = [ch, l, h, co, ro, ra]" "ch < 2 ^ unat (am_chan_w m)" "l < 2 ^ bank_low m"
      "h < 2 ^ unat (am_group_w m)" "co < 2 ^ unat (am_col_high_w m)" "ro < 2 ^ unat (am_row_w m)" "ra < 2 ^ unat (am_rank_w m)"
      using assms(2) by (auto simp: values_fit_def scheme_fields_def list_all2_Cons2 bank_low_def)
    have "l + 2 ^ bank_low m * h < 2 ^ bank_low m * Suc h" using vs(3) by simp
    also have "\<dots> \<le> 2 ^ bank_low m * 2 ^ unat (am_group_w m)" using vs(4) by (intro mult_le_mono) simp_all
    also have "\<dots> = 2 ^ unat (am_bank_w m)" using group_bits [OF assms(1)] by (simp flip: power_add)
    finally have "l + 2 ^ bank_low m * h < 2 ^ unat (am_bank_w m)" .
    then show ?thesis
      using True vs sm bank_parts [OF assms(1) vs(3,4)]
      by (simp add: c_def scheme_fields_def coords_unset_def coords_fit_def field_values_def)
  next
    case False
    then show ?thesis
      using assms(2) sm
      by (cases "am_scheme m")
        (auto simp: c_def values_fit_def scheme_fields_def list_all2_Cons2 coords_unset_def coords_fit_def field_values_def)
  qed
qed

lemma fields_fit: "widths_ok m \<Longrightarrow> coords_fit m c \<Longrightarrow> values_fit m (field_values m c)"
proof -
  assume a: "widths_ok m" "coords_fit m c"
  have "unat (co_bank c) < 2 ^ bank_low m * 2 ^ unat (am_group_w m)"
    using a group_bits [OF a(1)] by (simp add: coords_fit_def flip: power_add)
  then have "unat (co_bank c) div 2 ^ bank_low m < 2 ^ unat (am_group_w m)"
    by (simp add: less_mult_imp_div_less mult.commute)
  then show ?thesis
    using a(2)
    by (cases "am_scheme m") (simp_all add: values_fit_def scheme_fields_def field_values_def coords_fit_def flip: bank_low_def)
qed

text \<open>The coordinates of the \<^verbatim>\<open>n\<close>-th transaction, and back.\<close>

definition coords_at :: "addr_map \<Rightarrow> nat \<Rightarrow> coords result" where
  "coords_at m n = address_mapping m (of_nat (n * 2 ^ low_bits m))"

definition address_index :: "addr_map \<Rightarrow> coords \<Rightarrow> nat" where
  "address_index m c = join_fields (map (unat \<circ> snd) (scheme_fields m)) (field_values m c)"

lemma address_mapping_eq:
  "widths_ok m \<Longrightarrow>
   address_mapping m a = Inr (assign_all m (map fst (scheme_fields m))
     (split_fields (map (unat \<circ> snd) (scheme_fields m)) (unat a div 2 ^ low_bits m)) coords_unset)"
proof -
  assume a: "widths_ok m"
  have "unat (drop_bit (unat (am_col_low_w m)) (drop_bit (unat (am_offset_w m)) a)) = unat a div 2 ^ low_bits m"
    by (simp only: unat_drop_bit_eq drop_bit_nat_def low_bits_def power_add div_mult2_eq)
  with a map_fields_eq [OF fields_widths [OF a]] show ?thesis
    by (simp add: address_mapping_def widths_ok_def not_le)
qed

lemma coords_at_eq:
  assumes "widths_ok m" and "low_bits m + mapped_bits m \<le> 64" and "n < 2 ^ mapped_bits m"
  shows "coords_at m n = Inr (assign_all m (map fst (scheme_fields m))
     (split_fields (map (unat \<circ> snd) (scheme_fields m)) n) coords_unset)"
proof -
  have "n * 2 ^ low_bits m < 2 ^ mapped_bits m * 2 ^ low_bits m" using assms(3) by simp
  also have "\<dots> \<le> 2 ^ 64" using assms(2) unfolding power_add [symmetric] by (intro power_increasing) simp_all
  finally have "unat (of_nat (n * 2 ^ low_bits m) :: u64) = n * 2 ^ low_bits m" by (intro unat_of_nat_small) simp
  then show ?thesis unfolding coords_at_def address_mapping_eq [OF assms(1)] by simp
qed

lemma split_fit: "list_all2 (\<lambda>v w. v < 2 ^ w) (split_fields ws n) ws"
  by (induction ws arbitrary: n) simp_all

text \<open>C37: the address mapping of every scheme is a bijection: within the capacity, two transactions never share
  channel, rank, bank, row and column, every coordinate stays below its size, and every combination of
  coordinates is the place of exactly one transaction.\<close>

theorem address_mapping_bijective:
  assumes "widths_ok m" and "low_bits m + mapped_bits m \<le> 64"
  shows "bij_betw (coords_at m) {..< 2 ^ mapped_bits m} (Inr ` {c. coords_fit m c})
    \<and> (\<forall>c. coords_fit m c \<longrightarrow> coords_at m (address_index m c) = Inr c)"
proof
  let ?ws = "map (unat \<circ> snd) (scheme_fields m)"
  have inverse: "coords_at m (address_index m c) = Inr c \<and> address_index m c < 2 ^ mapped_bits m" if "coords_fit m c" for c
  proof -
    have fit: "list_all2 (\<lambda>v w. v < 2 ^ w) (field_values m c) ?ws"
      using fields_fit [OF assms(1) that] by (simp add: values_fit_def)
    then have "address_index m c < 2 ^ mapped_bits m" using join_less by (simp add: address_index_def mapped_bits_def)
    moreover have "split_fields ?ws (address_index m c) = field_values m c"
      unfolding address_index_def by (rule split_join) (use fit in \<open>simp_all add: list_all2_lengthD\<close>)
    ultimately show ?thesis using coords_at_eq [OF assms] assign_values [OF assms(1) that] by simp
  qed
  have there: "\<exists>c. coords_at m n = Inr c \<and> coords_fit m c \<and> address_index m c = n" if "n < 2 ^ mapped_bits m" for n
  proof -
    have "values_fit m (split_fields ?ws n)" by (simp add: values_fit_def split_fit)
    from values_of_assign [OF assms(1) this] show ?thesis
      using coords_at_eq [OF assms that] that by (auto simp: address_index_def join_split mapped_bits_def)
  qed
  show "bij_betw (coords_at m) {..< 2 ^ mapped_bits m} (Inr ` {c. coords_fit m c})"
    unfolding bij_betw_def
  proof
    show "inj_on (coords_at m) {..< 2 ^ mapped_bits m}"
      by (rule inj_on_inverseI [where g = "\<lambda>r. address_index m (projr r)"]) (use there in fastforce)
    show "coords_at m ` {..< 2 ^ mapped_bits m} = Inr ` {c. coords_fit m c}"
    proof (intro set_eqI iffI)
      fix r :: "coords result" assume "r \<in> coords_at m ` {..< 2 ^ mapped_bits m}"
      then show "r \<in> Inr ` {c. coords_fit m c}" using there by fastforce
    next
      fix r :: "coords result" assume "r \<in> Inr ` {c. coords_fit m c}"
      then show "r \<in> coords_at m ` {..< 2 ^ mapped_bits m}" using inverse by (force simp: image_iff)
    qed
  qed
  show "\<forall>c. coords_fit m c \<longrightarrow> coords_at m (address_index m c) = Inr c" using inverse by blast
qed

text \<open>A small memory of two channels with two bank groups of two banks, under the last scheme.\<close>

definition demo_params :: addr_params where
  "demo_params = \<lparr>ap_bus_bits = 64, ap_bl = 4, ap_chans = 2, ap_ranks = 1, ap_banks = 4, ap_bank_groups = 2,
     ap_rows = 8, ap_cols = 16, ap_scheme = Scheme8\<rparr>"

definition demo_map :: addr_map where
  "demo_map = \<lparr>am_transaction_size = 32, am_transaction_mask = 31, am_chan_w = 1, am_rank_w = 0, am_bank_w = 2,
     am_group_w = 1, am_row_w = 3, am_col_w = 4, am_offset_w = 3, am_col_low_w = 2, am_col_high_w = 2,
     am_banks_per_group = 2, am_scheme = Scheme8\<rparr>"

lemma demo_map: "addr_map_init demo_params = Inr demo_map"
  by (simp add: addr_map_init_def demo_params_def demo_map_def u_log2_def halvings.simps drop_bit_eq_div Let_def)

theorem address_mapping_bijective_witness:
  "bij_betw (coords_at demo_map) {..< 256} (Inr ` {c. coords_fit demo_map c})
   \<and> coords_at demo_map (address_index demo_map \<lparr>co_chan = 1, co_rank = 0, co_bank = 3, co_row = 5, co_col = 2\<rparr>)
     = Inr \<lparr>co_chan = 1, co_rank = 0, co_bank = 3, co_row = 5, co_col = 2\<rparr>"
proof -
  have "widths_ok demo_map" "low_bits demo_map = 5" "mapped_bits demo_map = 8"
    by (simp_all add: widths_ok_def width_ok_def low_bits_def mapped_bits_def scheme_fields_def demo_map_def)
  moreover have "coords_fit demo_map \<lparr>co_chan = 1, co_rank = 0, co_bank = 3, co_row = 5, co_col = 2\<rparr>"
    by (simp add: coords_fit_def demo_map_def)
  ultimately show ?thesis using address_mapping_bijective [of demo_map] by simp
qed

end
