(* ===== verification/MemCtrl.thy ===== *)
theory MemCtrl
  imports CmdTotal AddrMap
begin

text \<open>
  The memory controller and its channel: \<^verbatim>\<open>MemoryController\<close> (\<^verbatim>\<open>MemoryController.h\<close>, \<^verbatim>\<open>MemoryController.cpp\<close>),
  \<^verbatim>\<open>Transaction\<close> and \<^verbatim>\<open>MemorySystem\<close> of \<^verbatim>\<open>PIMSimulator/src\<close>.  The controller calls its ranks and the ranks
  call it back, so both live in one state, \<^verbatim>\<open>mem_system\<close>, with the callbacks to the host as a list of events,
  the latest first.  The statistics that are only printed (\<^verbatim>\<open>printStats\<close>) and the debug output are not
  modelled, the latency histogram is.
\<close>

section \<open>Transactions\<close>

datatype trans_type = DATA_READ | DATA_WRITE | RETURN_DATA

datatype row_policy = OpenPage | ClosePage

record transaction =
  tr_type :: trans_type
  tr_addr :: u64
  tr_data :: "burst option"
  tr_added :: u64
  tr_tag :: string
  tr_policy :: row_policy

definition mk_transaction :: "row_policy \<Rightarrow> trans_type \<Rightarrow> u64 \<Rightarrow> string \<Rightarrow> burst option \<Rightarrow> transaction" where
  "mk_transaction pol ty a tg d =
     \<lparr>tr_type = ty, tr_addr = a, tr_data = d, tr_added = 0, tr_tag = tg, tr_policy = pol\<rparr>"

definition bus_packet_type :: "transaction \<Rightarrow> packet_type result" where
  "bus_packet_type t =
     (if tr_policy t \<noteq> OpenPage then Inl Exited
      else case tr_type t of DATA_READ \<Rightarrow> Inr READ | DATA_WRITE \<Rightarrow> Inr WRITE | RETURN_DATA \<Rightarrow> Inl Exited)"

section \<open>State\<close>

record mem_ctrl =
  mc_banks :: "mc_bank list list"
  mc_queue :: cmd_queue
  mc_transactions :: "transaction list"
  mc_cmd :: "bus_packet option"
  mc_cmd_left :: u32
  mc_data :: "bus_packet option"
  mc_data_left :: u32
  mc_write_data :: "bus_packet list"
  mc_write_left :: "u32 list"
  mc_return :: "transaction list"
  mc_pending :: "transaction list"
  mc_power_down :: "bool list"
  mc_refresh_rank :: u32
  mc_refresh_left :: "u32 list"
  mc_refresh_left_bank :: "u32 list"
  mc_total :: u64
  mc_reads :: u64
  mc_writes :: u64
  mc_latencies :: "u32 \<Rightarrow> u32"
  mc_epoch_latency :: "u64 list"
  mc_clock :: u64

datatype mem_event = ReadDone u64 u64 | WriteDone u64 u64

record mem_system =
  ms_ctrl :: mem_ctrl
  ms_ranks :: "rank_state list"
  ms_waiting :: "transaction list"
  ms_in_flight :: u64
  ms_clock :: u64
  ms_events :: "mem_event list"

record mem_env =
  me_pim :: pim_env
  me_map :: addr_map
  me_bin :: u32
  me_fuel :: nat

definition me_cfg :: "mem_env \<Rightarrow> dram_config" where
  "me_cfg e = env_cfg (me_pim e)"

text \<open>A quotient of a duration and the clock period, cast to an integer below a bound.\<close>

definition cycles_of :: "int \<Rightarrow> fp \<Rightarrow> u32 result" where
  "cycles_of n x = deref (map_option of_nat (fcast n x))"

definition refresh_interval :: "u32 \<Rightarrow> fp \<Rightarrow> fp" where
  "refresh_interval t ck = fdiv b32 (flit b32 (of_nat (unat t))) ck"

definition mem_ctrl_init :: "queue_structure \<Rightarrow> sched_policy \<Rightarrow> dram_config \<Rightarrow> mem_ctrl result" where
  "mem_ctrl_init st pol c =
     rbind (cycles_of (2 ^ 31) (fdiv b32 (refresh_interval (tREFI c) (tCK c)) (flit b32 (of_nat (ranks_of c))))) (\<lambda>per_rank.
     rbind (cycles_of (2 ^ 31) (refresh_interval (tREFISB c) (tCK c))) (\<lambda>per_bank.
       Inr \<lparr>mc_banks = replicate (ranks_of c) (replicate (banks_of c) mc_bank_init), mc_queue = cmd_queue_init st pol c,
            mc_transactions = [], mc_cmd = None, mc_cmd_left = 0, mc_data = None, mc_data_left = 0, mc_write_data = [],
            mc_write_left = [], mc_return = [], mc_pending = [], mc_power_down = replicate (ranks_of c) False,
            mc_refresh_rank = 0, mc_refresh_left = map (\<lambda>i. per_rank * of_nat (i + 1)) [0..<ranks_of c],
            mc_refresh_left_bank = map (\<lambda>i. per_bank * of_nat (i + 1)) [0..<banks_of c], mc_total = 0, mc_reads = 0,
            mc_writes = 0, mc_latencies = (\<lambda>_. 0), mc_epoch_latency = replicate (ranks_of c * banks_of c) 0,
            mc_clock = 0\<rparr>))"

text \<open>The ranks a channel gets for a size in megabytes (0 keeps the configured number).\<close>

definition rank_count :: "u64 \<Rightarrow> u32 \<Rightarrow> u32 \<Rightarrow> u32 \<Rightarrow> u64 \<Rightarrow> u32 \<Rightarrow> u32 result" where
  "rank_count rows cols width nbanks buswidth megs =
     (if width = 0 then Inl Undefined
      else let mb = drop_bit 20 (rows * ucast (cols * width) * ucast nbanks * (buswidth div ucast width) div 8) in
        if mb = 0 then Inl Undefined
        else let n = ucast (ucast megs div mb) in Inr (if megs \<noteq> 0 \<and> n = 0 then 1 else n))"

definition mem_system_init ::
  "(bool \<times> bool \<times> bool \<times> bool) list \<Rightarrow> queue_structure \<Rightarrow> sched_policy \<Rightarrow> dram_config \<Rightarrow> mem_system result" where
  "mem_system_init junks st pol c =
     rbind (mem_ctrl_init st pol c) (\<lambda>mc.
       Inr \<lparr>ms_ctrl = mc, ms_ranks = map (\<lambda>i. rank_init (junks ! i) c) [0..<ranks_of c], ms_waiting = [],
            ms_in_flight = 0, ms_clock = 0, ms_events = []\<rparr>)"

section \<open>Bank states\<close>

definition set_bank_states_rw :: "u64 \<Rightarrow> u32 \<Rightarrow> u32 \<Rightarrow> mc_bank \<Rightarrow> mc_bank" where
  "set_bank_states_rw now rd wr m =
     m\<lparr>next_read := max (next_read m) (later now rd), next_write := max (next_write m) (later now wr)\<rparr>"

definition set_bank_states :: "current_bank_state \<Rightarrow> packet_type \<Rightarrow> u32 \<Rightarrow> u64 \<Rightarrow> mc_bank \<Rightarrow> mc_bank" where
  "set_bank_states st cmd n act m =
     m\<lparr>bs_state := st, last_command := cmd, state_countdown := (if n \<noteq> 0 then n else state_countdown m),
       next_activate := act\<rparr>"

definition same_bank_group :: "dram_config \<Rightarrow> nat \<Rightarrow> nat \<Rightarrow> bool" where
  "same_bank_group c i j \<longleftrightarrow> bankgroup_id c i = bankgroup_id c j"

definition WRITE_TO_READ_DELAY_R :: "dram_config \<Rightarrow> u32" where
  "WRITE_TO_READ_DELAY_R c = of_int (max (sint (WL c + BL c div 2 + tRTRS c) - sint (RL c)) 0)"

definition ccd_delay :: "dram_config \<Rightarrow> nat \<Rightarrow> nat \<Rightarrow> u32" where
  "ccd_delay c i j = max (if same_bank_group c i j then tCCDL c else tCCDS c) (BL c div 2)"

text \<open>The effect of a command on the bank \<^verbatim>\<open>j\<close> of its own rank, and on the banks of another.\<close>

definition own_rank_effect :: "dram_config \<Rightarrow> u64 \<Rightarrow> bus_packet \<Rightarrow> nat \<Rightarrow> mc_bank \<Rightarrow> mc_bank" where
  "own_rank_effect c now p j m =
     (let b = unat (pbank p); target = (j = b) in
      case ptype p of
        READ \<Rightarrow> set_bank_states_rw now (ccd_delay c j b) (READ_TO_WRITE_DELAY c)
          (if target then m\<lparr>next_precharge := max (later now (READ_TO_PRE_DELAY c)) (next_precharge m), last_command := READ\<rparr>
           else m)
      | WRITE \<Rightarrow> set_bank_states_rw now (WRITE_TO_READ_DELAY_B_LONG c) (ccd_delay c j b)
          (if target then m\<lparr>next_precharge := max (later now (WRITE_TO_PRE_DELAY c)) (next_precharge m), last_command := WRITE\<rparr>
           else m)
      | ACTIVATE \<Rightarrow>
          if target
          then set_bank_states_rw now (tRCDRD c - AL c) (tRCDWR c - AL c)
                 ((set_bank_states RowActive ACTIVATE 0 (max (later now (tRC c)) (next_activate m)) m)
                    \<lparr>open_row := prow p, next_precharge := max (later now (tRAS c)) (next_precharge m)\<rparr>)
          else m\<lparr>next_activate := max (later now (if same_bank_group c j b then tRRDL c else tRRDS c)) (next_activate m)\<rparr>
      | PRECHARGE \<Rightarrow>
          if target then set_bank_states Precharging PRECHARGE (tRP c) (max (later now (tRP c)) (next_activate m)) m else m
      | REF \<Rightarrow> set_bank_states Refreshing REF (tRFC c) (later now (tRFC c)) m
      | _ \<Rightarrow> m)"

definition other_rank_effect :: "dram_config \<Rightarrow> u64 \<Rightarrow> bus_packet \<Rightarrow> mc_bank \<Rightarrow> mc_bank" where
  "other_rank_effect c now p m =
     (if bs_state m = RowActive
      then case ptype p of
             READ \<Rightarrow> set_bank_states_rw now (BL c div 2 + tRTRS c) (READ_TO_WRITE_DELAY c) m
           | WRITE \<Rightarrow> set_bank_states_rw now (WRITE_TO_READ_DELAY_R c) (BL c div 2 + tRTRS c) m
           | _ \<Rightarrow> m
      else m)"

text \<open>The loops over the table of bank states.\<close>

definition map_banks :: "(nat \<Rightarrow> nat \<Rightarrow> 'a \<Rightarrow> 'a) \<Rightarrow> 'a list list \<Rightarrow> 'a list list" where
  "map_banks f t = map (\<lambda>i. map (\<lambda>j. f i j (t ! i ! j)) [0..<length (t ! i)]) [0..<length t]"

definition command_effect :: "dram_config \<Rightarrow> u64 \<Rightarrow> bus_packet \<Rightarrow> mc_bank list list \<Rightarrow> mc_bank list list result" where
  "command_effect c now p t =
     (if ptype p = DATA \<or> ptype p = RFCSB then Inl Exited
      else rbind (table_at t (prank p) (unat (pbank p))) (\<lambda>_.
        Inr (map_banks (\<lambda>i j m. if i = unat (prank p) then own_rank_effect c now p j m else other_rank_effect c now p m) t)))"

definition data_packet :: "bus_packet \<Rightarrow> bus_packet" where
  "data_packet p = mk_packet DATA (paddr p) (pcolumn p) (prow p) (prank p) (pbank p) (pdata p)"

definition update_command_queue :: "dram_config \<Rightarrow> bus_packet \<Rightarrow> mem_ctrl \<Rightarrow> mem_ctrl result" where
  "update_command_queue c p s0 =
     (let s = (if ptype p = WRITE then s0\<lparr>mc_write_data := mc_write_data s0 @ [data_packet p], mc_write_left := mc_write_left s0 @ [WL c]\<rparr>
               else s0) in
      rbind (command_effect c (mc_clock s) p (mc_banks s)) (\<lambda>t.
        if mc_cmd s \<noteq> None then Inl Exited
        else Inr (s\<lparr>mc_banks := t, mc_reads := (if ptype p = READ then mc_reads s + 1 else mc_reads s),
                    mc_writes := (if ptype p = WRITE then mc_writes s + 1 else mc_writes s), mc_cmd := Some p,
                    mc_cmd_left := tCMD c\<rparr>)))"

text \<open>The countdown of a bank's state.\<close>

definition tick_bank :: "mc_bank \<Rightarrow> mc_bank" where
  "tick_bank m =
     (if 0 < state_countdown m
      then let m1 = m\<lparr>state_countdown := state_countdown m - 1\<rparr> in
        if state_countdown m1 = 0 \<and> (last_command m = REF \<or> last_command m = RFCSB \<or> last_command m = PRECHARGE)
        then m1\<lparr>bs_state := Idle\<rparr> else m1
      else m)"

definition update_bank_state :: "mem_ctrl \<Rightarrow> mem_ctrl" where
  "update_bank_state s = s\<lparr>mc_banks := map_banks (\<lambda>_ _. tick_bank) (mc_banks s)\<rparr>"

section \<open>Transactions into commands\<close>

definition will_accept :: "dram_config \<Rightarrow> mem_ctrl \<Rightarrow> bool" where
  "will_accept c s \<longleftrightarrow> length (mc_transactions s) < unat (TRANS_QUEUE_DEPTH c)"

definition packet_of :: "transaction \<Rightarrow> packet_type \<Rightarrow> coords \<Rightarrow> bus_packet" where
  "packet_of t ty co =
     (mk_packet ty (tr_addr t) (co_col co) (co_row co) (co_rank co) (co_bank co) (tr_data t))\<lparr>ptag := tr_tag t\<rparr>"

text \<open>The first transaction with room in its queue becomes a command; a read waits for its data.\<close>

fun schedule_transaction ::
  "mem_env \<Rightarrow> transaction list \<Rightarrow> transaction list \<Rightarrow> mem_ctrl \<Rightarrow> mem_ctrl result" where
  "schedule_transaction e before [] s = Inr s"
| "schedule_transaction e before (t # rest) s =
     rbind (address_mapping (me_map e) (tr_addr t)) (\<lambda>co.
     rbind (has_room_for (me_cfg e) 1 (co_rank co) (co_bank co) (mc_queue s)) (\<lambda>room.
       if room
       then rbind (bus_packet_type t) (\<lambda>ty.
            rbind (enqueue (me_cfg e) (packet_of t ty co) (mc_queue s)) (\<lambda>q.
              Inr (s\<lparr>mc_transactions := before @ rest, mc_queue := q,
                     mc_pending := (if tr_type t = DATA_READ then mc_pending s @ [t] else mc_pending s)\<rparr>)))
       else schedule_transaction e (before @ [t]) rest s))"

definition update_transaction_queue :: "mem_env \<Rightarrow> mem_ctrl \<Rightarrow> mem_ctrl result" where
  "update_transaction_queue e s = schedule_transaction e [] (mc_transactions s) s"

section \<open>The cycle of the controller\<close>

definition on_rank ::
  "u32 \<Rightarrow> (rank_state \<Rightarrow> rank_state result) \<Rightarrow> mem_system \<Rightarrow> mem_system result" where
  "on_rank r f s =
     rbind (deref (vec_get (ms_ranks s) (unat r))) (\<lambda>k. rbind (f k) (\<lambda>k. Inr (s\<lparr>ms_ranks := (ms_ranks s)[unat r := k]\<rparr>)))"

definition upd_ctrl :: "(mem_ctrl \<Rightarrow> mem_ctrl) \<Rightarrow> mem_system \<Rightarrow> mem_system" where
  "upd_ctrl f s = s\<lparr>ms_ctrl := f (ms_ctrl s)\<rparr>"

text \<open>A command leaves the command bus after its cycles, a written burst the data bus.\<close>

definition deliver_command :: "mem_env \<Rightarrow> mem_system \<Rightarrow> mem_system result" where
  "deliver_command e s0 =
     (case mc_cmd (ms_ctrl s0) of
        None \<Rightarrow> Inr s0
      | Some p \<Rightarrow>
          let s = upd_ctrl (\<lambda>m. m\<lparr>mc_cmd_left := mc_cmd_left m - 1\<rparr>) s0 in
          if mc_cmd_left (ms_ctrl s) = 0
          then rbind (on_rank (prank p) (receive_from_bus (me_fuel e) (me_pim e) p) s) (\<lambda>s.
                 Inr (upd_ctrl (\<lambda>m. m\<lparr>mc_cmd := None\<rparr>) s))
          else Inr s)"

definition deliver_data :: "mem_env \<Rightarrow> mem_system \<Rightarrow> mem_system result" where
  "deliver_data e s0 =
     (case mc_data (ms_ctrl s0) of
        None \<Rightarrow> Inr s0
      | Some p \<Rightarrow>
          let s = upd_ctrl (\<lambda>m. m\<lparr>mc_data_left := mc_data_left m - 1\<rparr>) s0 in
          if mc_data_left (ms_ctrl s) = 0
          then rbind (on_rank (prank p) (receive_from_bus (me_fuel e) (me_pim e) p)
                 (s\<lparr>ms_events := WriteDone (paddr p) (mc_clock (ms_ctrl s)) # ms_events s, ms_in_flight := ms_in_flight s - 1\<rparr>)) (\<lambda>s.
                 Inr (upd_ctrl (\<lambda>m. m\<lparr>mc_data := None\<rparr>) s))
          else Inr s)"

text \<open>Written data goes on the data bus when its latency has passed; a busy bus ends the program.\<close>

definition send_write_data :: "dram_config \<Rightarrow> mem_ctrl \<Rightarrow> mem_ctrl result" where
  "send_write_data c s0 =
     (if mc_write_left s0 = [] then Inr s0
      else let s = s0\<lparr>mc_write_left := map (\<lambda>n. n - 1) (mc_write_left s0)\<rparr> in
        if hd (mc_write_left s) = 0
        then if mc_data s \<noteq> None then Inl Exited
             else rbind (deref (vec_get (mc_write_data s) 0)) (\<lambda>p.
               Inr (s\<lparr>mc_data := Some p, mc_data_left := BL c div 2, mc_total := mc_total s + 1,
                      mc_write_left := tl (mc_write_left s), mc_write_data := tl (mc_write_data s)\<rparr>))
        else Inr s)"

definition update_refresh :: "dram_config \<Rightarrow> mem_system \<Rightarrow> mem_system result" where
  "update_refresh c s =
     (let m = ms_ctrl s; r = mc_refresh_rank m; wait = (\<lambda>k. Inr (k\<lparr>refresh_waiting := True\<rparr>)) in
      rbind (deref (vec_get (mc_refresh_left m) (unat r))) (\<lambda>n.
        if n = 0
        then rbind (on_rank r wait s) (\<lambda>s.
             rbind (cycles_of (2 ^ 32) (refresh_interval (tREFI c) (tCK c))) (\<lambda>k.
               Inr (upd_ctrl (\<lambda>m. m\<lparr>mc_queue := need_refresh r (mc_queue m),
                 mc_refresh_left := (mc_refresh_left m)[unat r := k],
                 mc_refresh_rank := (if r + 1 = NUM_RANKS c then 0 else r + 1)\<rparr>) s)))
        else rbind (deref (vec_get (mc_power_down m) (unat r))) (\<lambda>pd.
               if pd \<and> n \<le> tXP c then on_rank r wait s else Inr s)))"

definition rank_modes_of :: "mem_system \<Rightarrow> dram_mode list" where
  "rank_modes_of s = map (\<lambda>k. mode (pim k)) (ms_ranks s)"

definition issue_command :: "dram_config \<Rightarrow> mem_system \<Rightarrow> mem_system result" where
  "issue_command c s =
     rbind (pop c (mc_banks (ms_ctrl s)) (rank_modes_of s) (mc_queue (ms_ctrl s))) (\<lambda>(x, q).
       let s = upd_ctrl (\<lambda>m. m\<lparr>mc_queue := q\<rparr>) s in
       case x of
         None \<Rightarrow> Inr s
       | Some p \<Rightarrow> rbind (update_command_queue c p (ms_ctrl s)) (\<lambda>m. Inr (s\<lparr>ms_ctrl := m\<rparr>)))"

text \<open>Returning the oldest read burst: its transaction is the first waiting one of the same address.\<close>

fun take_pending :: "u64 \<Rightarrow> transaction list \<Rightarrow> (transaction \<times> transaction list) option" where
  "take_pending a [] = None"
| "take_pending a (t # ts) =
     (if tr_addr t = a then Some (t, ts) else map_option (\<lambda>(x, xs). (x, t # xs)) (take_pending a ts))"

definition insert_histogram :: "mem_env \<Rightarrow> u32 \<Rightarrow> u32 \<Rightarrow> u32 \<Rightarrow> mem_ctrl \<Rightarrow> mem_ctrl result" where
  "insert_histogram e lat r b m =
     rbind (deref (vec_get (mc_epoch_latency m) (unat (r * NUM_BANKS (me_cfg e) + b)))) (\<lambda>n.
       if me_bin e = 0 then Inl Undefined
       else let k = lat div me_bin e * me_bin e in
         Inr (m\<lparr>mc_epoch_latency := (mc_epoch_latency m)[unat (r * NUM_BANKS (me_cfg e) + b) := n + ucast lat],
                mc_latencies := (mc_latencies m)(k := mc_latencies m k + 1)\<rparr>))"

definition return_data :: "mem_env \<Rightarrow> mem_system \<Rightarrow> mem_system result" where
  "return_data e s0 =
     (case mc_return (ms_ctrl s0) of
        [] \<Rightarrow> Inr s0
      | r # rest \<Rightarrow>
          let s = upd_ctrl (\<lambda>m. m\<lparr>mc_total := mc_total m + 1\<rparr>) s0 in
          case take_pending (tr_addr r) (mc_pending (ms_ctrl s)) of
            None \<Rightarrow> Inl Exited
          | Some (t, ts) \<Rightarrow>
              rbind (address_mapping (me_map e) (tr_addr r)) (\<lambda>co.
              rbind (insert_histogram e (ucast (mc_clock (ms_ctrl s) - tr_added t)) (co_rank co) (co_bank co) (ms_ctrl s)) (\<lambda>m.
                Inr (s\<lparr>ms_ctrl := m\<lparr>mc_pending := ts, mc_return := rest\<rparr>,
                       ms_events := ReadDone (tr_addr t) (mc_clock m) # ms_events s, ms_in_flight := ms_in_flight s - 1\<rparr>))))"

definition count_down :: "mem_ctrl \<Rightarrow> mem_ctrl" where
  "count_down m =
     m\<lparr>mc_refresh_left := map (\<lambda>n. n - 1) (mc_refresh_left m),
       mc_refresh_left_bank := map (\<lambda>n. n - 1) (mc_refresh_left_bank m),
       mc_queue := (mc_queue m)\<lparr>cq_clock := cq_clock (mc_queue m) + 1\<rparr>\<rparr>"

definition lift_ctrl :: "(mem_ctrl \<Rightarrow> mem_ctrl result) \<Rightarrow> mem_system \<Rightarrow> mem_system result" where
  "lift_ctrl f s = rbind (f (ms_ctrl s)) (\<lambda>m. Inr (s\<lparr>ms_ctrl := m\<rparr>))"

definition mem_ctrl_update :: "mem_env \<Rightarrow> mem_system \<Rightarrow> mem_system result" where
  "mem_ctrl_update e s =
     rbind (deliver_command e (upd_ctrl update_bank_state s)) (\<lambda>s.
     rbind (deliver_data e s) (\<lambda>s.
     rbind (lift_ctrl (send_write_data (me_cfg e)) s) (\<lambda>s.
     rbind (update_refresh (me_cfg e) s) (\<lambda>s.
     rbind (issue_command (me_cfg e) s) (\<lambda>s.
     rbind (lift_ctrl (update_transaction_queue e) s) (\<lambda>s.
     rbind (return_data e s) (\<lambda>s. Inr (upd_ctrl count_down s))))))))"

section \<open>The channel\<close>

text \<open>A burst a rank returns.\<close>

definition mc_receive :: "bus_packet \<Rightarrow> mem_ctrl \<Rightarrow> mem_ctrl result" where
  "mc_receive p m =
     (if ptype p \<noteq> DATA then Inl Exited
      else Inr (m\<lparr>mc_return := mc_return m @ [mk_transaction OpenPage RETURN_DATA (paddr p) [] (pdata p)]\<rparr>))"

definition update_one_rank :: "mem_env \<Rightarrow> nat \<Rightarrow> mem_system \<Rightarrow> mem_system result" where
  "update_one_rank e i s =
     rbind (deref (vec_get (ms_ranks s) i)) (\<lambda>k.
     rbind (deref (rank_update (me_pim e) k)) (\<lambda>(out, k).
     rbind (case out of None \<Rightarrow> Inr (ms_ctrl s) | Some p \<Rightarrow> mc_receive p (ms_ctrl s)) (\<lambda>m.
       Inr (s\<lparr>ms_ranks := (ms_ranks s)[i := k], ms_ctrl := m\<rparr>))))"

fun update_ranks :: "mem_env \<Rightarrow> nat \<Rightarrow> mem_system \<Rightarrow> mem_system result" where
  "update_ranks e 0 s = Inr s"
| "update_ranks e (Suc n) s = rbind (update_ranks e n s) (update_one_rank e n)"

definition mc_add_transaction :: "dram_config \<Rightarrow> transaction \<Rightarrow> mem_system \<Rightarrow> bool \<times> mem_system" where
  "mc_add_transaction c t s =
     (if will_accept c (ms_ctrl s)
      then (True, upd_ctrl (\<lambda>m. m\<lparr>mc_transactions := mc_transactions m @ [t\<lparr>tr_added := mc_clock m\<rparr>]\<rparr>)
                    (s\<lparr>ms_in_flight := ms_in_flight s + 1\<rparr>))
      else (False, s))"

definition mc_add_barrier :: "mem_ctrl \<Rightarrow> bool \<times> mem_ctrl" where
  "mc_add_barrier m =
     (if mc_transactions m \<noteq> []
      then (True, m\<lparr>mc_transactions := butlast (mc_transactions m)
                      @ [(last (mc_transactions m))\<lparr>tr_tag := tr_tag (last (mc_transactions m)) @ ''BAR''\<rparr>]\<rparr>)
      else (False, m))"

definition ms_add_transaction :: "dram_config \<Rightarrow> transaction \<Rightarrow> mem_system \<Rightarrow> bool \<times> mem_system" where
  "ms_add_transaction c t s =
     (if will_accept c (ms_ctrl s) then mc_add_transaction c t s else (True, s\<lparr>ms_waiting := ms_waiting s @ [t]\<rparr>))"

definition ms_add_barrier :: "dram_config \<Rightarrow> mem_system \<Rightarrow> bool \<times> mem_system" where
  "ms_add_barrier c s =
     (if will_accept c (ms_ctrl s)
      then (case mc_add_barrier (ms_ctrl s) of (ok, m) \<Rightarrow> (ok, s\<lparr>ms_ctrl := m\<rparr>))
      else if ms_waiting s \<noteq> []
      then (True, s\<lparr>ms_waiting := butlast (ms_waiting s)
                      @ [(last (ms_waiting s))\<lparr>tr_tag := tr_tag (last (ms_waiting s)) @ ''BAR''\<rparr>]\<rparr>)
      else (False, s))"

definition accept_waiting :: "dram_config \<Rightarrow> mem_system \<Rightarrow> mem_system" where
  "accept_waiting c s =
     (if ms_waiting s \<noteq> [] \<and> will_accept c (ms_ctrl s)
      then (snd (mc_add_transaction c (hd (ms_waiting s)) s))\<lparr>ms_waiting := tl (ms_waiting s)\<rparr>
      else s)"

definition step_clocks :: "mem_system \<Rightarrow> mem_system" where
  "step_clocks s =
     s\<lparr>ms_ranks := map rank_step_clock (ms_ranks s), ms_ctrl := (ms_ctrl s)\<lparr>mc_clock := mc_clock (ms_ctrl s) + 1\<rparr>,
       ms_clock := ms_clock s + 1\<rparr>"

definition mem_system_update :: "mem_env \<Rightarrow> mem_system \<Rightarrow> mem_system result" where
  "mem_system_update e s =
     rbind (update_ranks e (ranks_of (me_cfg e)) s) (\<lambda>s.
     rbind (mem_ctrl_update e (accept_waiting (me_cfg e) s)) (\<lambda>s. Inr (step_clocks s)))"

end
