(* ===== verification/MemBank.thy ===== *)
theory MemBank
  imports MemCtrl
begin

text \<open>
  What the memory controller believes of a bank against what the rank knows.  A command the controller issues in
  one cycle reaches the rank in the next, so a bank is ready at most one cycle later than the controller says.
\<close>

section \<open>One bank\<close>

definition tracks :: "mc_bank \<Rightarrow> bank_state \<Rightarrow> bool" where
  "tracks m b \<longleftrightarrow> unat (next_read b) \<le> Suc (unat (next_read m)) \<and> unat (next_write b) \<le> Suc (unat (next_write m))
     \<and> unat (next_activate b) \<le> Suc (unat (next_activate m)) \<and> unat (next_precharge b) \<le> Suc (unat (next_precharge m))
     \<and> (if bs_state m = RowActive
        then bs_state b = RowActive \<and> open_row b = open_row m \<and> \<not> is_reserved_ra (open_row m)
          \<and> last_command m \<in> {ACTIVATE, READ, WRITE}
        else bs_state b = Idle)"

lemma tracks_tick: "tracks m b \<Longrightarrow> tracks (tick_bank m) b"
  by (auto simp: tracks_def tick_bank_def Let_def split: if_splits)

definition cycle_ok :: "u64 \<Rightarrow> bool" where
  "cycle_ok now \<longleftrightarrow> Suc (unat now) + 2 ^ 32 \<le> 2 ^ 64"

lemma cycle_okD:
  assumes "cycle_ok now"
  shows "clock_ok now" and "clock_ok (now + 1)" and "unat (now + 1) = Suc (unat now)"
proof -
  show n: "unat (now + 1) = Suc (unat now)" using assms by (simp add: cycle_ok_def unat_plus_if')
  show "clock_ok now" "clock_ok (now + 1)" using assms by (simp_all add: cycle_ok_def clock_ok_def n)
qed

text \<open>The delays of a configuration that the two sides read differently.\<close>

definition delays_ok :: "dram_config \<Rightarrow> bool" where
  "delays_ok c \<longleftrightarrow> WRITE_TO_READ_DELAY_B_SHORT c \<le> WRITE_TO_READ_DELAY_B_LONG c"

lemma own_rank_tracks:
  assumes "tracks m b" and "cycle_ok now" and "delays_ok c"
    and "ptype p \<in> {READ, WRITE, ACTIVATE, PRECHARGE}" and "ptype p = ACTIVATE \<Longrightarrow> \<not> is_reserved_ra (prow p)"
  shows "tracks (own_rank_effect c now p j m)
    (update_bank c (ptype p) (now + 1) (prow p) (j = unat (pbank p)) (bankgroup_id c j = bankgroup_id c (unat (pbank p))) b)"
proof -
  note ld = cycle_okD(1,2) [OF assms(2), THEN unat_later] cycle_okD(3) [OF assms(2)] unat_max
  from assms(4) consider "ptype p = READ" | "ptype p = WRITE" | "ptype p = ACTIVATE" | "ptype p = PRECHARGE" by blast
  then show ?thesis
  proof cases
    case 2
    have "unat (WRITE_TO_READ_DELAY_B_SHORT c) \<le> unat (WRITE_TO_READ_DELAY_B_LONG c)"
      using assms(3) by (simp add: delays_ok_def word_le_nat_alt)
    with 2 assms(1) show ?thesis
      by (auto simp: tracks_def own_rank_effect_def update_bank_def set_bank_states_rw_def ccd_delay_def same_bank_group_def
          Let_def ld)
  qed (use assms(1,5) in \<open>auto simp: tracks_def own_rank_effect_def update_bank_def set_bank_states_rw_def set_bank_states_def
      ccd_delay_def same_bank_group_def Let_def ld\<close>)
qed

lemma other_rank_tracks: "tracks m b \<Longrightarrow> tracks (other_rank_effect c now p m) b"
  by (auto simp: tracks_def other_rank_effect_def set_bank_states_rw_def unat_max split: packet_type.splits)

lemma ref_tracks:
  assumes "tracks m b" and "cycle_ok now" and "ptype p = REF" and "bs_state m \<noteq> RowActive"
  shows "tracks (own_rank_effect c now p j m) (b\<lparr>next_activate := later (now + 1) (tRFC c)\<rparr>)"
  using assms cycle_okD [OF assms(2)]
  by (auto simp: tracks_def own_rank_effect_def set_bank_states_def Let_def unat_later)

section \<open>The command reaches a bank that is ready\<close>

definition bank_ready :: "packet_type \<Rightarrow> u32 \<Rightarrow> u64 \<Rightarrow> bank_state \<Rightarrow> bool" where
  "bank_ready t rw now bs \<longleftrightarrow> (case t of
     READ \<Rightarrow> bs_state bs = RowActive \<and> next_read bs \<le> now \<and> rw = open_row bs
   | WRITE \<Rightarrow> bs_state bs = RowActive \<and> next_write bs \<le> now \<and> rw = open_row bs
   | ACTIVATE \<Rightarrow> bs_state bs = Idle \<and> next_activate bs \<le> now
   | PRECHARGE \<Rightarrow> bs_state bs = RowActive \<and> next_precharge bs \<le> now
   | DATA \<Rightarrow> True
   | _ \<Rightarrow> False)"

lemma check_bank_ready:
  "b < length (bank_states s) \<Longrightarrow> bank_ready t rw (clock s) (bank_states s ! b) \<Longrightarrow> check_bank t b rw s = Inr ()"
  by (cases t) (simp_all add: check_bank_def bank_ready_def require_def)

text \<open>What the queue asks of the controller's bank state.\<close>

definition may_issue :: "packet_type \<Rightarrow> u32 \<Rightarrow> u64 \<Rightarrow> mc_bank \<Rightarrow> bool" where
  "may_issue t rw now m \<longleftrightarrow> (case t of
     READ \<Rightarrow> bs_state m = RowActive \<and> next_read m \<le> now \<and> rw = open_row m
   | WRITE \<Rightarrow> bs_state m = RowActive \<and> next_write m \<le> now \<and> rw = open_row m
   | ACTIVATE \<Rightarrow> (bs_state m = Idle \<or> bs_state m = Refreshing) \<and> next_activate m \<le> now
   | PRECHARGE \<Rightarrow> bs_state m = RowActive \<and> next_precharge m \<le> now
   | _ \<Rightarrow> False)"

lemma issuable_may_issue:
  assumes "is_issuable c t modes q p = Inr True" and "ptype p \<in> {READ, WRITE, ACTIVATE, PRECHARGE}"
  shows "\<exists>m. table_at t (prank p) (unat (pbank p)) = Inr m \<and> may_issue (ptype p) (prow p) (cq_clock q) m"
  using assms
  by (auto simp: is_issuable_def column_issuable_def may_issue_def Let_def rbind_Inr split: if_splits)

lemma may_issue_ready:
  assumes "tracks m b" and "may_issue t rw now m" and "unat (now + 1) = Suc (unat now)"
  shows "bank_ready t rw (now + 1) b"
  using assms by (cases t) (auto simp: tracks_def may_issue_def bank_ready_def word_le_nat_alt)

section \<open>All banks of a rank\<close>

definition all_track :: "mc_bank list \<Rightarrow> bank_state list \<Rightarrow> bool" where
  "all_track ms bs \<longleftrightarrow> list_all2 tracks ms bs"

lemma map_upto_nth:
  "n \<le> length xs \<Longrightarrow> length (map_upto f n xs) = length xs
   \<and> (\<forall>i < length xs. map_upto f n xs ! i = (if i < n then f i (xs ! i) else xs ! i))"
  by (induction n) (auto simp: nth_list_update less_Suc_eq)

text \<open>The rank as it will be when a command arrives, and what it makes of the command.\<close>

definition expects :: "pim_env \<Rightarrow> u64 \<Rightarrow> bus_packet \<Rightarrow> mc_bank list \<Rightarrow> rank_state \<Rightarrow> bool" where
  "expects e now p ms s \<longleftrightarrow> check_packet e p (s\<lparr>clock := now\<rparr>) = Inr ()
     \<and> (\<exists>s'. update_state e p (s\<lparr>clock := now\<rparr>) = Inr s' \<and> all_track ms (bank_states s'))"

lemma expects_issued:
  assumes tr: "all_track ms (bank_states s)" and len: "length ms = n_banks e" and md: "mode (pim s) = SB"
    and now: "cycle_ok now" and c: "delays_ok (env_cfg e)"
    and p: "ptype p \<in> {READ, WRITE, ACTIVATE, PRECHARGE}" "unat (pbank p) < n_banks e" "\<not> is_reserved_ra (prow p)"
    and iss: "may_issue (ptype p) (prow p) now (ms ! unat (pbank p))"
  shows "expects e (now + 1) p (map (\<lambda>j. own_rank_effect (env_cfg e) now p j (ms ! j)) [0..<length ms]) s"
proof -
  let ?s = "s\<lparr>clock := now + 1\<rparr>" and ?c = "env_cfg e"
  have bl: "length (bank_states s) = n_banks e" using tr len by (auto simp: all_track_def dest: list_all2_lengthD)
  have t: "tracks (ms ! j) (bank_states s ! j)" if "j < n_banks e" for j
    using tr len that by (simp add: all_track_def list_all2_nthD)
  have "check_bank (ptype p) (unat (pbank p)) (prow p) ?s = Inr ()"
    by (rule check_bank_ready) (use bl p may_issue_ready [OF t iss cycle_okD(3) [OF now]] in simp_all)
  then have "check_packet e p ?s = Inr ()" using p(1) md by (auto simp: check_packet_def)
  moreover have "update_state e p ?s = Inr (?s\<lparr>bank_states := map_upto (\<lambda>b. update_bank ?c (ptype p) (now + 1) (prow p)
      (target_bank p ?s b) (target_group ?c p ?s b)) (n_banks e) (bank_states s)\<rparr>)"
    using p(1) by (auto simp: update_state_def)
  moreover have "target_bank p ?s j \<longleftrightarrow> j = unat (pbank p)"
    "target_group ?c p ?s j \<longleftrightarrow> bankgroup_id ?c j = bankgroup_id ?c (unat (pbank p))" for j
    using md by (simp_all add: target_bank_def target_group_def)
  ultimately show ?thesis
    using map_upto_nth [of "n_banks e" "bank_states s"] bl len own_rank_tracks [OF t now c p(1)] p(3)
    by (auto simp: expects_def all_track_def list_all2_conv_all_nth)
qed

lemma check_all_ok: "(\<And>b. b \<in> set bs \<Longrightarrow> f b = Inr ()) \<Longrightarrow> check_all f bs = Inr ()"
  by (induction bs) simp_all

lemma expects_refresh:
  assumes tr: "all_track ms (bank_states s)" and len: "length ms = n_banks e"
    and now: "cycle_ok now"
    and p: "ptype p = REF" and idle: "\<forall>m \<in> set ms. bs_state m \<noteq> RowActive"
  shows "expects e (now + 1) p (map (\<lambda>j. own_rank_effect (env_cfg e) now p j (ms ! j)) [0..<length ms]) s"
proof -
  let ?s = "s\<lparr>clock := now + 1\<rparr>" and ?c = "env_cfg e"
  have bl: "length (bank_states s) = n_banks e" using tr len by (auto simp: all_track_def dest: list_all2_lengthD)
  have t: "tracks (ms ! j) (bank_states s ! j)" "bs_state (ms ! j) \<noteq> RowActive" if "j < n_banks e" for j
    using tr len idle that by (simp_all add: all_track_def list_all2_nthD)
  then have "bs_state (bank_states s ! j) = Idle" if "j < n_banks e" for j using that by (simp add: tracks_def)
  then have "check_packet e p ?s = Inr ()" using bl p by (auto simp: check_packet_def require_def intro!: check_all_ok)
  then show ?thesis
    using map_upto_nth [of "n_banks e" "bank_states s"] bl len ref_tracks [OF t(1) now p t(2)] p
    by (auto simp: expects_def update_state_def all_track_def list_all2_conv_all_nth)
qed

end
