(* ===== verification/MemBus.thy ===== *)
theory MemBus
  imports MemBank
begin

text \<open>
  A data bus and the bursts that wait for it: \<^verbatim>\<open>free\<close> is the number of cycles the bus is still busy, the list
  holds the cycles until each burst starts, and a burst lasts \<^verbatim>\<open>h\<close> cycles.  No burst starts on a busy bus when
  the starts are \<^verbatim>\<open>h\<close> apart.
\<close>

section \<open>Waiting bursts\<close>

fun waits :: "nat \<Rightarrow> nat \<Rightarrow> nat list \<Rightarrow> bool" where
  "waits h free [] \<longleftrightarrow> True"
| "waits h free (x # xs) \<longleftrightarrow> free \<le> x \<and> 0 < x \<and> waits h (x + h) xs"

text \<open>When the bus is free again.\<close>

fun free_at :: "nat \<Rightarrow> nat \<Rightarrow> nat list \<Rightarrow> nat" where
  "free_at h free [] = free"
| "free_at h free (x # xs) = free_at h (x + h) xs"

lemma waits_append: "waits h free (xs @ [x]) \<longleftrightarrow> waits h free xs \<and> free_at h free xs \<le> x \<and> 0 < x"
  by (induction xs arbitrary: free) auto

lemma free_at_append: "free_at h free (xs @ ys) = free_at h (free_at h free xs) ys"
  by (induction xs arbitrary: free) auto

lemma waits_pos: "waits h free xs \<Longrightarrow> x \<in> set xs \<Longrightarrow> 0 < x"
  by (induction xs arbitrary: free) auto

lemma waits_dec: "waits h (Suc f) xs \<Longrightarrow> 0 < f \<Longrightarrow> 0 < h
  \<Longrightarrow> waits h f (map (\<lambda>n. n - 1) xs) \<and> Suc (free_at h f (map (\<lambda>n. n - 1) xs)) = free_at h (Suc f) xs"
proof (induction xs arbitrary: f)
  case (Cons x xs)
  obtain y where y: "x = Suc y" "0 < y" using Cons.prems by (cases x) auto
  then show ?case using Cons.IH [of "y + h"] Cons.prems by simp
qed simp

text \<open>One cycle, without and with a burst that starts.\<close>

lemma waits_tick:
  assumes "waits h f xs" and "0 < h" and "\<not> (xs \<noteq> [] \<and> hd xs = 1)"
  shows "waits h (f - 1) (map (\<lambda>n. n - 1) xs) \<and> free_at h (f - 1) (map (\<lambda>n. n - 1) xs) = free_at h f xs - 1"
proof (cases xs)
  case (Cons x ys)
  then obtain y where y: "x = Suc y" "0 < y" using assms by (cases x) auto
  then show ?thesis using waits_dec [of h "y + h" ys] assms Cons by auto
qed simp

lemma waits_start:
  assumes "waits h f (1 # xs)" and "0 < h"
  shows "f \<le> 1 \<and> waits h h (map (\<lambda>n. n - 1) xs) \<and> free_at h h (map (\<lambda>n. n - 1) xs) = free_at h f (1 # xs) - 1"
  using assms waits_dec [of h h xs] by auto

text \<open>The countdowns as the code keeps them.\<close>

lemma map_unat_dec: "\<forall>n \<in> set ns. 0 < unat n \<Longrightarrow> map unat (map (\<lambda>n. n - 1) ns) = map (\<lambda>n. n - 1) (map unat ns)"
  for ns :: "'a::len word list"
proof -
  have "unat (n - 1) = unat n - 1" if "0 < unat n" for n :: "'a word"
    using that unat_minus_one [of n] by (cases "n = 0") auto
  then show "\<forall>n \<in> set ns. 0 < unat n \<Longrightarrow> ?thesis" by simp
qed

section \<open>Room for the next burst\<close>

text \<open>A bus that is busy for \<^verbatim>\<open>l\<close> more cycles leaves room for a command whose burst starts \<^verbatim>\<open>lat\<close> cycles later,
  not before \<^verbatim>\<open>next\<close>.\<close>

definition room :: "nat \<Rightarrow> nat \<Rightarrow> nat \<Rightarrow> u64 \<Rightarrow> bool" where
  "room k l lat nxt \<longleftrightarrow> l = 0 \<or> k + l \<le> unat nxt + lat + 1"

lemma room_tick: "room k l lat n \<Longrightarrow> room (Suc k) (l - 1) lat n"
  by (auto simp: room_def)

lemma room_mono: "room k l lat n \<Longrightarrow> n \<le> n' \<Longrightarrow> room k l lat n'"
  by (auto simp: room_def word_le_nat_alt)

lemma room_now: "room (Suc (unat now)) l lat n \<Longrightarrow> n \<le> now \<Longrightarrow> l \<le> lat"
  by (auto simp: room_def word_le_nat_alt)

lemma room_later:
  "clock_ok now \<Longrightarrow> h \<le> unat d \<Longrightarrow> later now d \<le> n \<Longrightarrow> room (Suc (unat now)) (lat + h) lat n"
  by (auto simp: room_def word_le_nat_alt unat_later)

text \<open>What a command does to the times of the controller's banks.\<close>

lemma own_rank_mono:
  "next_read m \<le> next_read (own_rank_effect c now p j m)" "next_write m \<le> next_write (own_rank_effect c now p j m)"
  by (cases "ptype p"; simp add: own_rank_effect_def set_bank_states_rw_def set_bank_states_def Let_def)+

lemma other_rank_mono:
  "next_read m \<le> next_read (other_rank_effect c now p m)" "next_write m \<le> next_write (other_rank_effect c now p m)"
  by (cases "ptype p"; simp add: other_rank_effect_def set_bank_states_rw_def)+

lemma read_delays:
  assumes "ptype p = READ"
  shows "\<exists>d. BL c div 2 \<le> d \<and> later now d \<le> next_read (own_rank_effect c now p j m)"
proof -
  have "later now (ccd_delay c j (unat (pbank p))) \<le> next_read (own_rank_effect c now p j m)"
    using assms by (simp add: own_rank_effect_def set_bank_states_rw_def Let_def)
  moreover have "BL c div 2 \<le> ccd_delay c j (unat (pbank p))" by (simp add: ccd_delay_def)
  ultimately show ?thesis by blast
qed

lemma write_delays:
  assumes "ptype p = WRITE"
  shows "\<exists>d. BL c div 2 \<le> d \<and> later now d \<le> next_write (own_rank_effect c now p j m)"
    and "bs_state m = RowActive \<Longrightarrow> later now (BL c div 2 + tRTRS c) \<le> next_write (other_rank_effect c now p m)"
proof -
  have "later now (ccd_delay c j (unat (pbank p))) \<le> next_write (own_rank_effect c now p j m)"
    using assms by (simp add: own_rank_effect_def set_bank_states_rw_def Let_def)
  moreover have "BL c div 2 \<le> ccd_delay c j (unat (pbank p))" by (simp add: ccd_delay_def)
  ultimately show "\<exists>d. BL c div 2 \<le> d \<and> later now d \<le> next_write (own_rank_effect c now p j m)" by blast
qed (use assms in \<open>simp add: other_rank_effect_def set_bank_states_rw_def\<close>)

text \<open>A row opened by the command.\<close>

lemma opens_row:
  assumes "bs_state (own_rank_effect c now p j m) = RowActive" and "bs_state m \<noteq> RowActive"
  shows "later now (tRCDWR c - AL c) \<le> next_write (own_rank_effect c now p j m)"
  using assms
  by (cases "ptype p")
    (auto simp: own_rank_effect_def set_bank_states_rw_def set_bank_states_def Let_def split: if_splits)

lemma other_rank_state [simp]: "bs_state (other_rank_effect c now p m) = bs_state m"
  by (cases "ptype p") (simp_all add: other_rank_effect_def set_bank_states_rw_def)

end
