(* ===== verification/MemInv.thy ===== *)
theory MemInv
  imports MemBus
begin

text \<open>
  What a channel keeps: the sizes of its tables, that the controller and the ranks agree on every bank, that the
  bursts on each data bus keep their distance, and that every pending read is on its way.
\<close>

section \<open>Configurations, transactions and packets\<close>

definition burst_cycles :: "mem_env \<Rightarrow> nat" where
  "burst_cycles e = unat (BL (me_cfg e) div 2)"

definition channel_ok :: "mem_env \<Rightarrow> bool" where
  "channel_ok e \<longleftrightarrow> (let c = me_cfg e; h = burst_cycles e in
     0 < ranks_of c \<and> 0 < banks_of c \<and> ranks_of c * banks_of c < 2 ^ 32 \<and> tCMD c = 1 \<and> 0 < h \<and> 0 < unat (RL c)
     \<and> 0 < unat (WL c) \<and> delays_ok c \<and> h + unat (tRTRS c) < 2 ^ 32 \<and> h \<le> Suc (unat (tRCDWR c - AL c))
     \<and> defined (cycles_of (2 ^ 32) (refresh_interval (tREFI c) (tCK c))) \<and> me_bin e \<noteq> 0)"

definition plain_trans :: "mem_env \<Rightarrow> transaction \<Rightarrow> bool" where
  "plain_trans e t \<longleftrightarrow> (tr_type t = DATA_READ \<or> tr_type t = DATA_WRITE) \<and> tr_policy t = OpenPage \<and> tr_data t \<noteq> None
     \<and> (\<exists>co. address_mapping (me_map e) (tr_addr t) = Inr co \<and> unat (co_rank co) < ranks_of (me_cfg e)
          \<and> unat (co_bank co) < banks_of (me_cfg e) \<and> \<not> is_reserved_ra (co_row co) \<and> co_col co < NUM_COLS (me_cfg e))"

definition plain_packet :: "mem_env \<Rightarrow> bus_packet \<Rightarrow> bool" where
  "plain_packet e p \<longleftrightarrow> in_range (me_cfg e) p \<and> \<not> is_reserved_ra (prow p) \<and> packet_ok (me_pim e) p"

section \<open>Ranks\<close>

fun opt_list :: "'a option \<Rightarrow> 'a list" where
  "opt_list None = []"
| "opt_list (Some a) = [a]"

definition rank_ok :: "mem_env \<Rightarrow> u64 \<Rightarrow> rank_state \<Rightarrow> bool" where
  "rank_ok e now k \<longleftrightarrow> clock k = now \<and> mode (pim k) = SB \<and> length (bank_states k) = banks_of (me_cfg e)
     \<and> length (banks (pim k)) = banks_of (me_cfg e)
     \<and> (\<forall>b \<in> set (banks (pim k)). bank_ok b \<and> num_cols b = NUM_COLS (me_cfg e))
     \<and> ah_aau (ahasd k) = None \<and> ah_gtsu (ahasd k) = None
     \<and> length (return_packets k) = length (return_countdowns k)
     \<and> (\<forall>p \<in> set (opt_list (outgoing k) @ return_packets k). ptype p = DATA)
     \<and> (outgoing k \<noteq> None \<longrightarrow> 0 < unat (data_cycles_left k))"

definition rank_free :: "rank_state \<Rightarrow> nat" where
  "rank_free k = (if outgoing k = None then 0 else unat (data_cycles_left k))"

definition rank_reads :: "rank_state \<Rightarrow> u64 list" where
  "rank_reads k = map paddr (opt_list (outgoing k) @ return_packets k)"

lemma me_cfg_eq: "env_cfg (me_pim e) = me_cfg e" and n_banks_eq: "n_banks (me_pim e) = banks_of (me_cfg e)"
  by (simp_all add: me_cfg_def n_banks_def banks_of_def)

lemma update_ahasd_idle: "ah_aau h = None \<Longrightarrow> ah_gtsu h = None \<Longrightarrow> update_ahasd h = Some h"
  by (simp add: update_ahasd_def Let_def)

lemma u32_dec: "0 < unat n \<Longrightarrow> unat (n - 1) = unat n - 1 \<and> (n - 1 = 0 \<longleftrightarrow> unat n = 1)" for n :: u32
  using unat_minus_one [of n] by (cases "n = 0") (auto simp: word_unat_eq_iff)

lemma unat_eq_1: "unat n = Suc 0 \<longleftrightarrow> n = 1" for n :: u32
  by (simp add: word_unat_eq_iff)

lemma deliver_ok:
  assumes "rank_ok e now k"
  shows "\<exists>out k'. deliver k = (out, k') \<and> rank_ok e now k' \<and> bank_states k' = bank_states k \<and> pim k' = pim k \<and> ahasd k' = ahasd k
    \<and> return_packets k' = return_packets k \<and> return_countdowns k' = return_countdowns k
    \<and> (\<forall>p. out = Some p \<longrightarrow> ptype p = DATA) \<and> rank_free k' = rank_free k - 1
    \<and> mset (rank_reads k) = mset (map paddr (opt_list out)) + mset (rank_reads k')"
proof (cases "outgoing k")
  case (Some p)
  then have "0 < unat (data_cycles_left k)" using assms by (simp add: rank_ok_def)
  from u32_dec [OF this] show ?thesis
    using assms Some by (cases "data_cycles_left k = 1") (auto simp: deliver_def Let_def rank_ok_def rank_free_def rank_reads_def)
qed (use assms in \<open>simp add: deliver_def rank_free_def\<close>)

lemma rank_update_ok:
  assumes k: "rank_ok e now k" and w: "waits (burst_cycles e) (rank_free k) (map unat (return_countdowns k) @ ts)"
    and ts: "\<forall>t \<in> set ts. 1 < t" and h: "0 < burst_cycles e"
  shows "\<exists>out k'. rank_update (me_pim e) k = Some (out, k') \<and> rank_ok e now k' \<and> bank_states k' = bank_states k
    \<and> (\<forall>p. out = Some p \<longrightarrow> ptype p = DATA)
    \<and> mset (rank_reads k) = mset (map paddr (opt_list out)) + mset (rank_reads k')
    \<and> waits (burst_cycles e) (rank_free k') (map unat (return_countdowns k') @ map (\<lambda>n. n - 1) ts)
    \<and> free_at (burst_cycles e) (rank_free k') (map unat (return_countdowns k') @ map (\<lambda>n. n - 1) ts)
      = free_at (burst_cycles e) (rank_free k) (map unat (return_countdowns k) @ ts) - 1"
proof -
  let ?h = "burst_cycles e" and ?rc = "return_countdowns k"
  obtain out d where d: "deliver k = (out, d)" and dk: "rank_ok e now d" "bank_states d = bank_states k" "pim d = pim k"
    "ahasd d = ahasd k" "return_packets d = return_packets k" "return_countdowns d = ?rc"
    "\<forall>p. out = Some p \<longrightarrow> ptype p = DATA" "rank_free d = rank_free k - 1"
    "mset (rank_reads k) = mset (map paddr (opt_list out)) + mset (rank_reads d)"
    using deliver_ok [OF k] by blast
  define rc where "rc = map (\<lambda>n. n - 1) ?rc"
  have pos: "\<forall>n \<in> set ?rc. 0 < unat n" using waits_pos [OF w] by auto
  then have rc: "map unat rc = map (\<lambda>n. n - 1) (map unat ?rc)" unfolding rc_def by (rule map_unat_dec)
  have idle: "update_ahasd (ahasd k) = Some (ahasd k)" using k by (simp add: rank_ok_def update_ahasd_idle)
  define d1 where "d1 = d\<lparr>return_countdowns := rc\<rparr>"
  define fin where "fin = (\<lambda>s :: rank_state. s\<lparr>ahasd := (ahasd k)\<lparr>ah_clock := ah_clock (ahasd k) + 1\<rparr>\<rparr>)"
  show ?thesis
  proof (cases "?rc \<noteq> [] \<and> hd ?rc = 1")
    case False
    then have ns: "\<not> (?rc \<noteq> [] \<and> hd rc = 0)" using pos unfolding rc_def by (cases ?rc) (auto simp: u32_dec)
    have "\<not> (map unat ?rc @ ts \<noteq> [] \<and> hd (map unat ?rc @ ts) = 1)"
      using False ts by (cases ?rc; cases ts) (auto simp: unat_eq_1)
    note t = waits_tick [OF w h this]
    have "rank_update (me_pim e) k = Some (out, fin d1)"
      using ns by (auto simp: rank_update_def d dk(4,6) rc_def [symmetric] d1_def fin_def idle Let_def)
    moreover have "rank_free (fin d1) = rank_free k - 1"
      unfolding dk(8) [symmetric] by (simp add: d1_def fin_def rank_free_def)
    moreover have "rank_ok e now (fin d1)" "rank_reads (fin d1) = rank_reads d"
      "return_countdowns (fin d1) = rc" "bank_states (fin d1) = bank_states k"
      using dk(1-6) by (simp_all add: d1_def fin_def rank_ok_def rank_reads_def rc_def)
    ultimately show ?thesis using t rc dk(7,9) by (intro exI [of _ out] exI [of _ "fin d1"]) simp
  next
    case True
    then obtain rs where r: "?rc = 1 # rs" by (cases ?rc) auto
    then obtain p ps where p: "return_packets k = p # ps" using k by (cases "return_packets k") (auto simp: rank_ok_def)
    have hd1: "map unat ?rc @ ts = 1 # (map unat rs @ ts)" by (simp add: r)
    note t = waits_start [OF w [unfolded hd1] h, folded hd1]
    have "outgoing d = None" using dk(1,8) t unfolding rank_ok_def rank_free_def by (cases "outgoing d") auto
    define d2 where "d2 = d1\<lparr>outgoing := Some p, data_cycles_left := BL (me_cfg e) div 2, return_packets := ps,
      return_countdowns := tl rc\<rparr>"
    have rc0: "?rc \<noteq> []" "hd rc = 0" "map unat (tl rc) = map (\<lambda>n. n - 1) (map unat rs)"
      using r rc by (simp_all add: rc_def)
    have "rank_update (me_pim e) k = Some (out, fin d2)"
      using rc0(1,2) p dk(5) by (auto simp: rank_update_def d dk(4,6) rc_def [symmetric] d1_def d2_def fin_def idle Let_def me_cfg_eq)
    moreover have "rank_ok e now (fin d2)"
      using dk k r p h by (auto simp: d1_def d2_def fin_def rank_ok_def rc_def burst_cycles_def)
    moreover have "rank_free (fin d2) = burst_cycles e" "return_countdowns (fin d2) = tl rc" "bank_states (fin d2) = bank_states k"
      "rank_reads (fin d2) = rank_reads d"
      using dk(2,5) p \<open>outgoing d = None\<close>
      by (simp_all add: rank_free_def fin_def d2_def d1_def burst_cycles_def rank_reads_def)
    ultimately show ?thesis
      using t rc0(3) dk(7,9) by (intro exI [of _ out] exI [of _ "fin d2"]) (simp add: r)
  qed
qed

subsection \<open>Packets from the controller\<close>

lemma reg_row_reserved: "is_reserved_ra PIM_REG_RA" "is_reserved_ra PIM_ABMR_RA" "\<not> is_reserved_ra 0"
  by (simp_all add: is_reserved_ra_def PIM_REG_RA_def PIM_ABMR_RA_def)

lemma not_reg_row: "\<not> is_reserved_ra r \<Longrightarrow> r \<noteq> PIM_REG_RA \<and> r \<noteq> PIM_ABMR_RA"
  using reg_row_reserved by metis

lemma expects_cong:
  assumes "expects e now p ms k" and "bank_states k' = bank_states k" and "mode (pim k') = mode (pim k)"
  shows "expects e now p ms k'"
proof -
  have cb: "check_bank t b rw (k'\<lparr>clock := now\<rparr>) = check_bank t b rw (k\<lparr>clock := now\<rparr>)" for t b rw
    using assms(2) by (simp add: check_bank_def cong: packet_type.case_cong)
  have "check_packet e p (k'\<lparr>clock := now\<rparr>) = check_packet e p (k\<lparr>clock := now\<rparr>)"
    unfolding check_packet_def cb using assms(2,3) by simp
  moreover have "target_bank p (k'\<lparr>clock := now\<rparr>) = target_bank p (k\<lparr>clock := now\<rparr>)"
    "target_group c p (k'\<lparr>clock := now\<rparr>) = target_group c p (k\<lparr>clock := now\<rparr>)" for c
    using assms(3) by (auto simp: target_bank_def target_group_def fun_eq_iff)
  ultimately show ?thesis using assms(1,2) by (auto simp: expects_def update_state_def split: if_splits)
qed

definition issued :: "mem_env \<Rightarrow> bus_packet \<Rightarrow> bool" where
  "issued e p \<longleftrightarrow> in_range (me_cfg e) p \<and> \<not> is_reserved_ra (prow p) \<and> ptype p \<in> {READ, WRITE, ACTIVATE, PRECHARGE, REF}
     \<and> (ptype p = READ \<or> ptype p = WRITE \<longrightarrow> packet_ok (me_pim e) p)"

lemma storage_access:
  assumes k: "rank_ok e now k" and p: "issued e p" "ptype p = READ \<or> ptype p = WRITE"
  shows "\<exists>p'. read_bank (unat (pbank p)) p (pim k) = Inr p' \<and> paddr p' = paddr p"
    and "\<exists>r. write_bank (unat (pbank p)) p (pim k) = Inr r \<and> mode r = mode (pim k) \<and> length (banks r) = length (banks (pim k))
      \<and> (\<forall>b \<in> set (banks r). bank_ok b \<and> num_cols b = NUM_COLS (me_cfg e))"
proof -
  define b where "b = banks (pim k) ! unat (pbank p)"
  have i: "unat (pbank p) < length (banks (pim k))" using k p(1) by (simp add: rank_ok_def issued_def in_range_def)
  then have b: "bank_ok b" "num_cols b = NUM_COLS (me_cfg e)" using k by (simp_all add: rank_ok_def b_def)
  obtain d where d: "pdata p = Some d" "pcolumn p < num_cols b" using p b(2) by (auto simp: issued_def packet_ok_def me_cfg_eq)
  show "\<exists>p'. read_bank (unat (pbank p)) p (pim k) = Inr p' \<and> paddr p' = paddr p"
    using bank_read_eq [OF b(1) d(2)] d(1) i by (auto simp: read_bank_def b_def [symmetric] split: option.split)
  from bank_write_eq [OF b(1) d(2,1)] obtain b' where "bank_write p b = Inr b'" "bank_ok b'" "num_cols b' = num_cols b" by blast
  with i b(2) k show "\<exists>r. write_bank (unat (pbank p)) p (pim k) = Inr r \<and> mode r = mode (pim k) \<and> length (banks r) = length (banks (pim k))
      \<and> (\<forall>b \<in> set (banks r). bank_ok b \<and> num_cols b = NUM_COLS (me_cfg e))"
    by (auto simp: write_bank_def b_def [symmetric] rank_ok_def dest!: subsetD [OF set_update_subset_insert])
qed

lemma send_ok:
  assumes k: "rank_ok e now k" and p: "issued e p"
  shows "\<exists>k'. send_to_bank f (me_pim e) p k = Inr k' \<and> rank_ok e now k' \<and> bank_states k' = bank_states k
    \<and> rank_free k' = rank_free k
    \<and> return_countdowns k' = return_countdowns k @ (if ptype p = READ then [RL (me_cfg e)] else [])
    \<and> rank_reads k' = rank_reads k @ (if ptype p = READ then [paddr p] else [])"
proof -
  have sb: "mode (pim k) = SB" using k by (simp add: rank_ok_def)
  have row: "prow p \<noteq> PIM_REG_RA" "prow p \<noteq> PIM_ABMR_RA" "\<not> is_reserved_ra (prow p)"
    using p not_reg_row by (auto simp: issued_def)
  from p consider "ptype p = READ" | "ptype p = WRITE" | "ptype p = ACTIVATE \<or> ptype p = PRECHARGE" | "ptype p = REF"
    unfolding issued_def by blast
  then show ?thesis
  proof cases
    case 1
    obtain p' where "read_bank (unat (pbank p)) p (pim k) = Inr p'" "paddr p' = paddr p" using storage_access(1) [OF k p] 1 by blast
    with 1 sb row k show ?thesis
      by (simp add: send_to_bank_def send_read_def read_sb_def Let_def rank_ok_def rank_free_def rank_reads_def me_cfg_eq)
  next
    case 2
    obtain r where "write_bank (unat (pbank p)) p (pim k) = Inr r" "mode r = mode (pim k)" "length (banks r) = length (banks (pim k))"
      "\<forall>b \<in> set (banks r). bank_ok b \<and> num_cols b = NUM_COLS (me_cfg e)"
      using storage_access(2) [OF k p] 2 by blast
    with 2 sb row k show ?thesis
      by (simp add: send_to_bank_def send_write_def write_sb_def rank_ok_def rank_free_def rank_reads_def)
  next
    case 3
    then have "send_to_bank f (me_pim e) p k = Inr k"
      using sb row by (auto simp: send_to_bank_def send_activate_def send_precharge_def)
    with 3 k show ?thesis by auto
  next
    case 4
    with k show ?thesis by (simp add: send_to_bank_def rank_ok_def rank_free_def rank_reads_def)
  qed
qed

lemma receive_command:
  assumes k: "rank_ok e now k" and p: "issued e p" and x: "expects (me_pim e) now p ms k"
  shows "\<exists>k'. receive_from_bus f (me_pim e) p k = Inr k' \<and> rank_ok e now k' \<and> all_track ms (bank_states k')
    \<and> rank_free k' = rank_free k
    \<and> return_countdowns k' = return_countdowns k @ (if ptype p = READ then [RL (me_cfg e)] else [])
    \<and> rank_reads k' = rank_reads k @ (if ptype p = READ then [paddr p] else [])"
proof -
  have now: "k\<lparr>clock := now\<rparr> = k" using k by (simp add: rank_ok_def)
  obtain k1 where c: "check_packet (me_pim e) p k = Inr ()" "update_state (me_pim e) p k = Inr k1" "all_track ms (bank_states k1)"
    using x by (auto simp: expects_def now)
  have "\<exists>bs rw. k1 = k\<lparr>bank_states := bs, refresh_waiting := rw\<rparr> \<and> length bs = length (bank_states k)"
    using c(2) k map_upto_nth [of "n_banks (me_pim e)" "bank_states k"]
    by (cases k) (auto simp: update_state_def rank_ok_def n_banks_eq split: if_splits)
  then have "rank_ok e now k1" "rank_free k1 = rank_free k" "return_countdowns k1 = return_countdowns k" "rank_reads k1 = rank_reads k"
    using k by (auto simp: rank_ok_def rank_free_def rank_reads_def)
  with send_ok [OF this(1) p, of f] c p show ?thesis by (auto simp: receive_from_bus_def issued_def)
qed

lemma update_bank_data: "update_bank c DATA now rw tb tg = (\<lambda>b. b)"
  by (simp add: update_bank_def fun_eq_iff)

lemma map_upto_same: "n \<le> length xs \<Longrightarrow> map_upto (\<lambda>_ x. x) n xs = xs"
  by (induction n) simp_all

lemma receive_data:
  assumes k: "rank_ok e now k" and p: "ptype p = DATA" "unat (pbank p) < banks_of (me_cfg e)"
  shows "receive_from_bus f (me_pim e) p k = Inr k"
proof -
  have "check_packet (me_pim e) p k = Inr ()"
    using k p by (simp add: check_packet_def rank_ok_def check_bank_ready bank_ready_def)
  moreover have "update_state (me_pim e) p k = Inr k"
    using k p(1) by (simp add: update_state_def update_bank_data map_upto_same rank_ok_def n_banks_eq)
  ultimately show ?thesis using p(1) by (simp add: receive_from_bus_def send_to_bank_def)
qed

end
