(* ===== verification/MemRun.thy ===== *)
theory MemRun
  imports MemInv
begin

text \<open>
  The invariant of a channel and how the parts of a cycle keep it: the ranks' bursts, the command and the data
  bus, and refresh.  Issuing commands and the transactions follow in theories \<^verbatim>\<open>MemIssue\<close> and \<^verbatim>\<open>MemSystem\<close>.
\<close>

section \<open>What is on its way\<close>

definition packet_addrs :: "packet_type \<Rightarrow> bus_packet list \<Rightarrow> u64 multiset" where
  "packet_addrs ty ps = mset (map paddr (filter (\<lambda>p. ptype p = ty) ps))"

definition trans_addrs :: "trans_type \<Rightarrow> transaction list \<Rightarrow> u64 multiset" where
  "trans_addrs ty ts = mset (map tr_addr (filter (\<lambda>t. tr_type t = ty) ts))"

lemma packet_addrs_simps [simp]:
  "packet_addrs ty [] = {#}" "packet_addrs ty (ps @ qs) = packet_addrs ty ps + packet_addrs ty qs"
  "packet_addrs ty (p # ps) = (if ptype p = ty then {#paddr p#} else {#}) + packet_addrs ty ps"
  by (simp_all add: packet_addrs_def)

lemma trans_addrs_simps [simp]:
  "trans_addrs ty [] = {#}" "trans_addrs ty (ts @ us) = trans_addrs ty ts + trans_addrs ty us"
  "trans_addrs ty (t # ts) = (if tr_type t = ty then {#tr_addr t#} else {#}) + trans_addrs ty ts"
  by (simp_all add: trans_addrs_def)

lemma packet_addrs_mset: "packet_addrs ty ps = image_mset paddr (filter_mset (\<lambda>p. ptype p = ty) (mset ps))"
  by (simp add: packet_addrs_def)

text \<open>The reads that were turned into commands and not returned, and the writes whose data has not arrived.\<close>

definition rank_load :: "rank_state list \<Rightarrow> u64 multiset" where
  "rank_load rs = mset (concat (map rank_reads rs))"

definition reads_in :: "mem_ctrl \<Rightarrow> rank_state list \<Rightarrow> u64 multiset" where
  "reads_in m rs = packet_addrs READ (all_packets (mc_queue m) @ opt_list (mc_cmd m)) + rank_load rs
     + mset (map tr_addr (mc_return m))"

definition writes_in :: "mem_ctrl \<Rightarrow> u64 multiset" where
  "writes_in m = packet_addrs WRITE (all_packets (mc_queue m)) + mset (map paddr (opt_list (mc_data m) @ mc_write_data m))"

fun read_done :: "mem_event \<Rightarrow> u64 option" where
  "read_done (ReadDone a _) = Some a"
| "read_done (WriteDone a _) = None"

fun write_done :: "mem_event \<Rightarrow> u64 option" where
  "write_done (ReadDone a _) = None"
| "write_done (WriteDone a _) = Some a"

definition done_addrs :: "(mem_event \<Rightarrow> u64 option) \<Rightarrow> mem_event list \<Rightarrow> u64 multiset" where
  "done_addrs f evs = mset (concat (map (opt_list \<circ> f) evs))"

definition reads_of :: "mem_system \<Rightarrow> u64 multiset" where
  "reads_of s = done_addrs read_done (ms_events s) + mset (map tr_addr (mc_pending (ms_ctrl s)))
     + trans_addrs DATA_READ (mc_transactions (ms_ctrl s) @ ms_waiting s)"

definition writes_of :: "mem_system \<Rightarrow> u64 multiset" where
  "writes_of s = done_addrs write_done (ms_events s) + writes_in (ms_ctrl s)
     + trans_addrs DATA_WRITE (mc_transactions (ms_ctrl s) @ ms_waiting s)"

lemma done_addrs_Cons [simp]:
  "done_addrs f (ev # evs) = mset (opt_list (f ev)) + done_addrs f evs"
  by (simp add: done_addrs_def)

section \<open>The invariant\<close>

definition ctrl_sizes :: "mem_env \<Rightarrow> u64 \<Rightarrow> mem_ctrl \<Rightarrow> bool" where
  "ctrl_sizes e now m \<longleftrightarrow> (let c = me_cfg e in
     table_ok c (mc_banks m) \<and> length (mc_refresh_left m) = ranks_of c \<and> unat (mc_refresh_rank m) < ranks_of c
     \<and> mc_power_down m = replicate (ranks_of c) False \<and> length (mc_epoch_latency m) = ranks_of c * banks_of c
     \<and> mc_clock m = now)"

definition cmds_ok :: "mem_env \<Rightarrow> u64 \<Rightarrow> mem_ctrl \<Rightarrow> bool" where
  "cmds_ok e now m \<longleftrightarrow> cq_ok (me_cfg e) (mc_queue m) \<and> cq_clock (mc_queue m) = now
     \<and> (\<forall>p \<in> set (all_packets (mc_queue m)). plain_packet e p)
     \<and> (\<forall>p. mc_cmd m = Some p \<longrightarrow> issued e p \<and> mc_cmd_left m = 1)"

text \<open>The data bus of the controller.\<close>

definition bus_free :: "mem_ctrl \<Rightarrow> nat" where
  "bus_free m = (if mc_data m = None then 0 else unat (mc_data_left m))"

definition write_lag :: "mem_env \<Rightarrow> mem_ctrl \<Rightarrow> nat" where
  "write_lag e m = free_at (burst_cycles e) (bus_free m) (map unat (mc_write_left m))"

definition data_ok :: "mem_env \<Rightarrow> mem_ctrl \<Rightarrow> bool" where
  "data_ok e m \<longleftrightarrow> length (mc_write_data m) = length (mc_write_left m)
     \<and> (\<forall>p \<in> set (opt_list (mc_data m) @ mc_write_data m). ptype p = DATA \<and> in_range (me_cfg e) p)
     \<and> (mc_data m \<noteq> None \<longrightarrow> 0 < unat (mc_data_left m))"

definition open_room :: "nat \<Rightarrow> nat \<Rightarrow> nat \<Rightarrow> mc_bank list list \<Rightarrow> bool" where
  "open_room n l lat t \<longleftrightarrow>
     (\<forall>i < length t. \<forall>j < length (t ! i). bs_state (t ! i ! j) = RowActive \<longrightarrow> room n l lat (next_write (t ! i ! j)))"

definition data_bus_ok :: "mem_env \<Rightarrow> nat \<Rightarrow> nat \<Rightarrow> mem_ctrl \<Rightarrow> bool" where
  "data_bus_ok e n y m \<longleftrightarrow> data_ok e m \<and> waits (burst_cycles e) (bus_free m) (map unat (mc_write_left m))
     \<and> write_lag e m + y \<le> unat (WL (me_cfg e)) + burst_cycles e
     \<and> open_room n (write_lag e m) (unat (WL (me_cfg e))) (mc_banks m)"

text \<open>The data buses of the ranks; a read on its way to a rank counts as waiting there, \<^verbatim>\<open>x\<close> cycles longer.\<close>

definition read_line :: "mem_env \<Rightarrow> nat \<Rightarrow> bus_packet option \<Rightarrow> nat \<Rightarrow> rank_state \<Rightarrow> nat list" where
  "read_line e x cmd i k = map unat (return_countdowns k)
     @ (case cmd of None \<Rightarrow> [] | Some p \<Rightarrow> if ptype p = READ \<and> unat (prank p) = i then [unat (RL (me_cfg e)) + x] else [])"

definition read_lag :: "mem_env \<Rightarrow> nat \<Rightarrow> bus_packet option \<Rightarrow> nat \<Rightarrow> rank_state \<Rightarrow> nat" where
  "read_lag e x cmd i k = free_at (burst_cycles e) (rank_free k) (read_line e x cmd i k)"

definition read_bus_ok :: "mem_env \<Rightarrow> nat \<Rightarrow> nat \<Rightarrow> bus_packet option \<Rightarrow> nat \<Rightarrow> mc_bank list \<Rightarrow> rank_state \<Rightarrow> bool" where
  "read_bus_ok e n x cmd i row k \<longleftrightarrow> waits (burst_cycles e) (rank_free k) (read_line e x cmd i k)
     \<and> (\<forall>b \<in> set row. room n (read_lag e x cmd i k) (Suc (unat (RL (me_cfg e)))) (next_read b))"

text \<open>Agreement of the controller and a rank, at the time \<^verbatim>\<open>a\<close> the command on the bus arrives.\<close>

definition agrees :: "mem_env \<Rightarrow> u64 \<Rightarrow> bus_packet option \<Rightarrow> nat \<Rightarrow> mc_bank list \<Rightarrow> rank_state \<Rightarrow> bool" where
  "agrees e a cmd i row k \<longleftrightarrow> (case cmd of
     None \<Rightarrow> all_track row (bank_states k)
   | Some p \<Rightarrow> if unat (prank p) = i then expects (me_pim e) a p row k else all_track row (bank_states k))"

definition ranks_ok ::
  "mem_env \<Rightarrow> u64 \<Rightarrow> u64 \<Rightarrow> nat \<Rightarrow> nat \<Rightarrow> bus_packet option \<Rightarrow> mc_bank list list \<Rightarrow> rank_state list \<Rightarrow> bool" where
  "ranks_ok e now a n x cmd t rs \<longleftrightarrow> length rs = ranks_of (me_cfg e)
     \<and> (\<forall>i < length rs. rank_ok e now (rs ! i) \<and> read_bus_ok e n x cmd i (t ! i) (rs ! i) \<and> agrees e a cmd i (t ! i) (rs ! i))"

definition trans_ok :: "mem_env \<Rightarrow> mem_system \<Rightarrow> bool" where
  "trans_ok e s \<longleftrightarrow>
     (\<forall>t \<in> set (mc_transactions (ms_ctrl s) @ ms_waiting s @ mc_pending (ms_ctrl s)). plain_trans e t)
     \<and> mset (map tr_addr (mc_pending (ms_ctrl s))) = reads_in (ms_ctrl s) (ms_ranks s)
     \<and> ms_in_flight s = of_nat (length (mc_pending (ms_ctrl s)) + size (writes_in (ms_ctrl s)) + length (mc_transactions (ms_ctrl s)))"

definition chan_inv :: "mem_env \<Rightarrow> u64 \<Rightarrow> u64 \<Rightarrow> nat \<Rightarrow> nat \<Rightarrow> nat \<Rightarrow> nat \<Rightarrow> mem_system \<Rightarrow> bool" where
  "chan_inv e now a n x w y s \<longleftrightarrow> ctrl_sizes e now (ms_ctrl s) \<and> cmds_ok e now (ms_ctrl s) \<and> data_bus_ok e w y (ms_ctrl s)
     \<and> ranks_ok e now a n x (mc_cmd (ms_ctrl s)) (mc_banks (ms_ctrl s)) (ms_ranks s) \<and> trans_ok e s"

text \<open>What a part of a cycle does not change: the reads and writes accepted so far.\<close>

definition same_work :: "mem_system \<Rightarrow> mem_system \<Rightarrow> bool" where
  "same_work s s' \<longleftrightarrow> reads_of s' = reads_of s \<and> writes_of s' = writes_of s"

lemma same_work_refl: "same_work s s" and same_work_trans: "same_work s s' \<Longrightarrow> same_work s' s'' \<Longrightarrow> same_work s s''"
  by (simp_all add: same_work_def)

text \<open>The fields each part does not read.\<close>

lemma ctrl_sizes_frame [simp]:
  "ctrl_sizes e now (m\<lparr>mc_queue := v1\<rparr>) = ctrl_sizes e now m"
  "ctrl_sizes e now (m\<lparr>mc_transactions := v2\<rparr>) = ctrl_sizes e now m"
  "ctrl_sizes e now (m\<lparr>mc_cmd := v3\<rparr>) = ctrl_sizes e now m" "ctrl_sizes e now (m\<lparr>mc_cmd_left := v4\<rparr>) = ctrl_sizes e now m"
  "ctrl_sizes e now (m\<lparr>mc_data := v5\<rparr>) = ctrl_sizes e now m" "ctrl_sizes e now (m\<lparr>mc_data_left := v6\<rparr>) = ctrl_sizes e now m"
  "ctrl_sizes e now (m\<lparr>mc_write_data := v7\<rparr>) = ctrl_sizes e now m"
  "ctrl_sizes e now (m\<lparr>mc_write_left := v8\<rparr>) = ctrl_sizes e now m"
  "ctrl_sizes e now (m\<lparr>mc_return := v9\<rparr>) = ctrl_sizes e now m" "ctrl_sizes e now (m\<lparr>mc_pending := v10\<rparr>) = ctrl_sizes e now m"
  "ctrl_sizes e now (m\<lparr>mc_refresh_left_bank := v11\<rparr>) = ctrl_sizes e now m"
  "ctrl_sizes e now (m\<lparr>mc_total := v12\<rparr>) = ctrl_sizes e now m" "ctrl_sizes e now (m\<lparr>mc_reads := v13\<rparr>) = ctrl_sizes e now m"
  "ctrl_sizes e now (m\<lparr>mc_writes := v14\<rparr>) = ctrl_sizes e now m"
  "ctrl_sizes e now (m\<lparr>mc_latencies := v15\<rparr>) = ctrl_sizes e now m"
  by (simp_all add: ctrl_sizes_def)

lemma cmds_ok_frame [simp]:
  "cmds_ok e now (m\<lparr>mc_banks := v16\<rparr>) = cmds_ok e now m" "cmds_ok e now (m\<lparr>mc_transactions := v17\<rparr>) = cmds_ok e now m"
  "cmds_ok e now (m\<lparr>mc_data := v18\<rparr>) = cmds_ok e now m" "cmds_ok e now (m\<lparr>mc_data_left := v19\<rparr>) = cmds_ok e now m"
  "cmds_ok e now (m\<lparr>mc_write_data := v20\<rparr>) = cmds_ok e now m" "cmds_ok e now (m\<lparr>mc_write_left := v21\<rparr>) = cmds_ok e now m"
  "cmds_ok e now (m\<lparr>mc_return := v22\<rparr>) = cmds_ok e now m" "cmds_ok e now (m\<lparr>mc_pending := v23\<rparr>) = cmds_ok e now m"
  "cmds_ok e now (m\<lparr>mc_refresh_rank := v24\<rparr>) = cmds_ok e now m" "cmds_ok e now (m\<lparr>mc_refresh_left := v25\<rparr>) = cmds_ok e now m"
  "cmds_ok e now (m\<lparr>mc_refresh_left_bank := v26\<rparr>) = cmds_ok e now m" "cmds_ok e now (m\<lparr>mc_total := v27\<rparr>) = cmds_ok e now m"
  "cmds_ok e now (m\<lparr>mc_reads := v28\<rparr>) = cmds_ok e now m" "cmds_ok e now (m\<lparr>mc_writes := v29\<rparr>) = cmds_ok e now m"
  "cmds_ok e now (m\<lparr>mc_latencies := v30\<rparr>) = cmds_ok e now m" "cmds_ok e now (m\<lparr>mc_epoch_latency := v31\<rparr>) = cmds_ok e now m"
  "cmds_ok e now (m\<lparr>mc_clock := v32\<rparr>) = cmds_ok e now m"
  by (simp_all add: cmds_ok_def)

lemma data_bus_ok_frame [simp]:
  "data_bus_ok e w y (m\<lparr>mc_queue := v33\<rparr>) = data_bus_ok e w y m"
  "data_bus_ok e w y (m\<lparr>mc_transactions := v34\<rparr>) = data_bus_ok e w y m"
  "data_bus_ok e w y (m\<lparr>mc_cmd := v35\<rparr>) = data_bus_ok e w y m"
  "data_bus_ok e w y (m\<lparr>mc_cmd_left := v36\<rparr>) = data_bus_ok e w y m"
  "data_bus_ok e w y (m\<lparr>mc_return := v37\<rparr>) = data_bus_ok e w y m"
  "data_bus_ok e w y (m\<lparr>mc_pending := v38\<rparr>) = data_bus_ok e w y m"
  "data_bus_ok e w y (m\<lparr>mc_refresh_rank := v39\<rparr>) = data_bus_ok e w y m"
  "data_bus_ok e w y (m\<lparr>mc_refresh_left := v40\<rparr>) = data_bus_ok e w y m"
  "data_bus_ok e w y (m\<lparr>mc_refresh_left_bank := v41\<rparr>) = data_bus_ok e w y m"
  "data_bus_ok e w y (m\<lparr>mc_total := v42\<rparr>) = data_bus_ok e w y m"
  "data_bus_ok e w y (m\<lparr>mc_reads := v43\<rparr>) = data_bus_ok e w y m"
  "data_bus_ok e w y (m\<lparr>mc_writes := v44\<rparr>) = data_bus_ok e w y m"
  "data_bus_ok e w y (m\<lparr>mc_latencies := v45\<rparr>) = data_bus_ok e w y m"
  "data_bus_ok e w y (m\<lparr>mc_epoch_latency := v46\<rparr>) = data_bus_ok e w y m"
  "data_bus_ok e w y (m\<lparr>mc_clock := v47\<rparr>) = data_bus_ok e w y m"
  by (simp_all add: data_bus_ok_def data_ok_def write_lag_def bus_free_def open_room_def)

lemma writes_in_frame [simp]:
  "writes_in (m\<lparr>mc_banks := v48\<rparr>) = writes_in m" "writes_in (m\<lparr>mc_transactions := v49\<rparr>) = writes_in m"
  "writes_in (m\<lparr>mc_cmd := v50\<rparr>) = writes_in m" "writes_in (m\<lparr>mc_cmd_left := v51\<rparr>) = writes_in m"
  "writes_in (m\<lparr>mc_data_left := v52\<rparr>) = writes_in m" "writes_in (m\<lparr>mc_write_left := v53\<rparr>) = writes_in m"
  "writes_in (m\<lparr>mc_return := v54\<rparr>) = writes_in m" "writes_in (m\<lparr>mc_pending := v55\<rparr>) = writes_in m"
  "writes_in (m\<lparr>mc_refresh_rank := v56\<rparr>) = writes_in m" "writes_in (m\<lparr>mc_refresh_left := v57\<rparr>) = writes_in m"
  "writes_in (m\<lparr>mc_refresh_left_bank := v58\<rparr>) = writes_in m" "writes_in (m\<lparr>mc_total := v59\<rparr>) = writes_in m"
  "writes_in (m\<lparr>mc_reads := v60\<rparr>) = writes_in m" "writes_in (m\<lparr>mc_writes := v61\<rparr>) = writes_in m"
  "writes_in (m\<lparr>mc_latencies := v62\<rparr>) = writes_in m" "writes_in (m\<lparr>mc_epoch_latency := v63\<rparr>) = writes_in m"
  "writes_in (m\<lparr>mc_clock := v64\<rparr>) = writes_in m"
  by (simp_all add: writes_in_def)

lemma reads_in_frame [simp]:
  "reads_in (m\<lparr>mc_banks := v65\<rparr>) rs = reads_in m rs" "reads_in (m\<lparr>mc_transactions := v66\<rparr>) rs = reads_in m rs"
  "reads_in (m\<lparr>mc_cmd_left := v67\<rparr>) rs = reads_in m rs" "reads_in (m\<lparr>mc_data := v68\<rparr>) rs = reads_in m rs"
  "reads_in (m\<lparr>mc_data_left := v69\<rparr>) rs = reads_in m rs" "reads_in (m\<lparr>mc_write_data := v70\<rparr>) rs = reads_in m rs"
  "reads_in (m\<lparr>mc_write_left := v71\<rparr>) rs = reads_in m rs" "reads_in (m\<lparr>mc_pending := v72\<rparr>) rs = reads_in m rs"
  "reads_in (m\<lparr>mc_refresh_rank := v73\<rparr>) rs = reads_in m rs" "reads_in (m\<lparr>mc_refresh_left := v74\<rparr>) rs = reads_in m rs"
  "reads_in (m\<lparr>mc_refresh_left_bank := v75\<rparr>) rs = reads_in m rs" "reads_in (m\<lparr>mc_total := v76\<rparr>) rs = reads_in m rs"
  "reads_in (m\<lparr>mc_reads := v77\<rparr>) rs = reads_in m rs" "reads_in (m\<lparr>mc_writes := v78\<rparr>) rs = reads_in m rs"
  "reads_in (m\<lparr>mc_latencies := v79\<rparr>) rs = reads_in m rs" "reads_in (m\<lparr>mc_epoch_latency := v80\<rparr>) rs = reads_in m rs"
  "reads_in (m\<lparr>mc_clock := v81\<rparr>) rs = reads_in m rs"
  by (simp_all add: reads_in_def)

section \<open>The ranks move on\<close>

definition rank_ticked :: "mem_env \<Rightarrow> u64 \<Rightarrow> bus_packet option \<Rightarrow> nat \<Rightarrow> rank_state \<Rightarrow> rank_state \<Rightarrow> bool" where
  "rank_ticked e now cmd i k k' \<longleftrightarrow> rank_ok e now k' \<and> bank_states k' = bank_states k
     \<and> waits (burst_cycles e) (rank_free k') (read_line e 0 cmd i k') \<and> read_lag e 0 cmd i k' = read_lag e 1 cmd i k - 1"

lemma rank_update_ticked:
  assumes c: "channel_ok e" and k: "rank_ok e now k" and w: "waits (burst_cycles e) (rank_free k) (read_line e 1 cmd i k)"
  shows "\<exists>out k'. rank_update (me_pim e) k = Some (out, k') \<and> rank_ticked e now cmd i k k' \<and> (\<forall>p. out = Some p \<longrightarrow> ptype p = DATA)
    \<and> mset (rank_reads k) = mset (map paddr (opt_list out)) + mset (rank_reads k')"
proof -
  define ts where "ts = (case cmd of None \<Rightarrow> [] | Some p \<Rightarrow>
    if ptype p = READ \<and> unat (prank p) = i then [unat (RL (me_cfg e)) + 1] else [])"
  have l: "read_line e 1 cmd i k = map unat (return_countdowns k) @ ts"
    "read_line e 0 cmd i k' = map unat (return_countdowns k') @ map (\<lambda>n. n - 1) ts" for k'
    by (simp_all add: read_line_def ts_def split: option.split)
  have h: "0 < burst_cycles e" and "\<forall>t \<in> set ts. 1 < t"
    using c by (auto simp: channel_ok_def Let_def ts_def split: option.splits)
  from rank_update_ok [OF k w [unfolded l] this(2) h] show ?thesis
    unfolding rank_ticked_def read_lag_def l by blast
qed

definition returned :: "bus_packet option \<Rightarrow> transaction list" where
  "returned out = map (\<lambda>p. mk_transaction OpenPage RETURN_DATA (paddr p) [] (pdata p)) (opt_list out)"

lemma returned_addrs [simp]: "map tr_addr (returned out) = map paddr (opt_list out)"
  by (cases out) (simp_all add: returned_def mk_transaction_def)

lemma rank_load_update:
  "i < length rs \<Longrightarrow> rank_load (rs[i := k]) + mset (rank_reads (rs ! i)) = rank_load rs + mset (rank_reads k)"
  using mset_update [of i "map rank_reads rs" "rank_reads k"] by (simp add: rank_load_def map_update)

lemma update_ranks_ok:
  assumes c: "channel_ok e"
    and r: "\<forall>i < length (ms_ranks s). rank_ok e now (ms_ranks s ! i)
      \<and> waits (burst_cycles e) (rank_free (ms_ranks s ! i)) (read_line e 1 cmd i (ms_ranks s ! i))"
  shows "n \<le> length (ms_ranks s) \<Longrightarrow> \<exists>rs ts. update_ranks e n s = Inr (s\<lparr>ms_ranks := rs,
      ms_ctrl := (ms_ctrl s)\<lparr>mc_return := mc_return (ms_ctrl s) @ ts\<rparr>\<rparr>)
    \<and> length rs = length (ms_ranks s) \<and> (\<forall>i < n. rank_ticked e now cmd i (ms_ranks s ! i) (rs ! i))
    \<and> (\<forall>i. n \<le> i \<and> i < length rs \<longrightarrow> rs ! i = ms_ranks s ! i)
    \<and> rank_load (ms_ranks s) = mset (map tr_addr ts) + rank_load rs"
proof (induction n)
  case 0
  show ?case by (intro exI [of _ "ms_ranks s"] exI [of _ "[]"]) simp
next
  case (Suc n)
  then obtain rs ts where ih: "update_ranks e n s = Inr (s\<lparr>ms_ranks := rs,
      ms_ctrl := (ms_ctrl s)\<lparr>mc_return := mc_return (ms_ctrl s) @ ts\<rparr>\<rparr>)"
    "length rs = length (ms_ranks s)" "\<forall>i < n. rank_ticked e now cmd i (ms_ranks s ! i) (rs ! i)"
    "\<forall>i. n \<le> i \<and> i < length rs \<longrightarrow> rs ! i = ms_ranks s ! i" "rank_load (ms_ranks s) = mset (map tr_addr ts) + rank_load rs"
    by auto
  have n: "n < length rs" "rs ! n = ms_ranks s ! n" using Suc.prems ih(2,4) by auto
  obtain out k' where u: "rank_update (me_pim e) (rs ! n) = Some (out, k')" "rank_ticked e now cmd n (rs ! n) k'"
    "\<forall>p. out = Some p \<longrightarrow> ptype p = DATA" "mset (rank_reads (rs ! n)) = mset (map paddr (opt_list out)) + mset (rank_reads k')"
    using rank_update_ticked [OF c, of now "rs ! n" cmd n] r n ih(2) by force
  define s' where "s' = s\<lparr>ms_ranks := rs[n := k'],
    ms_ctrl := (ms_ctrl s)\<lparr>mc_return := mc_return (ms_ctrl s) @ (ts @ returned out)\<rparr>\<rparr>"
  have "update_ranks e (Suc n) s = Inr s'"
    using ih(1) u(1,3) n(1)
    by (cases out) (auto simp: update_one_rank_def vec_get_def mc_receive_def returned_def s'_def)
  moreover have "rank_load (ms_ranks s) = mset (map tr_addr (ts @ returned out)) + rank_load (rs[n := k'])"
    using rank_load_update [OF n(1), of k'] ih(5) u(4) by (simp add: ac_simps)
  ultimately show ?case
    unfolding s'_def using ih u(2) n by (intro exI [of _ "rs[n := k']"] exI [of _ "ts @ returned out"])
      (auto simp: nth_list_update less_Suc_eq)
qed

lemma ranks_stage:
  assumes c: "channel_ok e" and inv: "chan_inv e now now (unat now) 1 (unat now) 0 s"
  shows "\<exists>s'. update_ranks e (ranks_of (me_cfg e)) s = Inr s' \<and> chan_inv e now now (Suc (unat now)) 0 (unat now) 0 s'
    \<and> same_work s s'"
proof -
  let ?m = "ms_ctrl s"
  have r: "ranks_ok e now now (unat now) 1 (mc_cmd ?m) (mc_banks ?m) (ms_ranks s)" using inv by (simp add: chan_inv_def)
  then obtain rs ts where u: "update_ranks e (ranks_of (me_cfg e)) s = Inr (s\<lparr>ms_ranks := rs,
      ms_ctrl := ?m\<lparr>mc_return := mc_return ?m @ ts\<rparr>\<rparr>)" "length rs = length (ms_ranks s)"
    "\<forall>i < length rs. rank_ticked e now (mc_cmd ?m) i (ms_ranks s ! i) (rs ! i)"
    "rank_load (ms_ranks s) = mset (map tr_addr ts) + rank_load rs"
    using update_ranks_ok [OF c, of s now "mc_cmd ?m" "ranks_of (me_cfg e)"]
    by (auto simp: ranks_ok_def read_bus_ok_def)
  have "ranks_ok e now now (Suc (unat now)) 0 (mc_cmd ?m) (mc_banks ?m) rs"
    unfolding ranks_ok_def
  proof (intro conjI allI impI)
    show "length rs = ranks_of (me_cfg e)" using r u(2) by (simp add: ranks_ok_def)
    fix i assume i: "i < length rs"
    have t: "rank_ticked e now (mc_cmd ?m) i (ms_ranks s ! i) (rs ! i)" using u(3) i by blast
    have o: "rank_ok e now (ms_ranks s ! i)" "read_bus_ok e (unat now) 1 (mc_cmd ?m) i (mc_banks ?m ! i) (ms_ranks s ! i)"
      "agrees e now (mc_cmd ?m) i (mc_banks ?m ! i) (ms_ranks s ! i)" using r i u(2) by (auto simp: ranks_ok_def)
    show "rank_ok e now (rs ! i)" using t by (simp add: rank_ticked_def)
    show "read_bus_ok e (Suc (unat now)) 0 (mc_cmd ?m) i (mc_banks ?m ! i) (rs ! i)"
      using t o(2) room_tick by (simp add: read_bus_ok_def rank_ticked_def)
    show "agrees e now (mc_cmd ?m) i (mc_banks ?m ! i) (rs ! i)"
      using t o(1,3) expects_cong [of "me_pim e" now _ "mc_banks ?m ! i" "ms_ranks s ! i" "rs ! i"]
      by (auto simp: agrees_def rank_ticked_def rank_ok_def split: option.splits)
  qed
  moreover have "reads_in (?m\<lparr>mc_return := mc_return ?m @ ts\<rparr>) rs = reads_in ?m (ms_ranks s)"
    using u(4) by (simp add: reads_in_def)
  ultimately show ?thesis
    using inv u(1) by (simp add: chan_inv_def trans_ok_def same_work_def reads_of_def writes_of_def)
qed

section \<open>Waiting transactions\<close>

lemma plain_added [simp]: "plain_trans e (t\<lparr>tr_added := n\<rparr>) = plain_trans e t" "plain_trans e (t\<lparr>tr_tag := g\<rparr>) = plain_trans e t"
  by (simp_all add: plain_trans_def)

lemma add_transaction_inv:
  assumes "chan_inv e now a n x w y s" and "plain_trans e t" and "mc_add_transaction (me_cfg e) t s = (ok, s')"
  shows "chan_inv e now a n x w y s'"
  using assms by (auto simp: mc_add_transaction_def upd_ctrl_def chan_inv_def trans_ok_def split: if_splits)

lemma accept_stage:
  assumes inv: "chan_inv e now a n x w y s"
  shows "chan_inv e now a n x w y (accept_waiting (me_cfg e) s) \<and> same_work s (accept_waiting (me_cfg e) s)"
proof (cases "ms_waiting s \<noteq> [] \<and> will_accept (me_cfg e) (ms_ctrl s)")
  case True
  then obtain t ts where t: "ms_waiting s = t # ts" by (cases "ms_waiting s") auto
  obtain ok s1 where s1: "mc_add_transaction (me_cfg e) t s = (ok, s1)" by fastforce
  have "plain_trans e t" using inv t by (simp add: chan_inv_def trans_ok_def)
  from add_transaction_inv [OF inv this s1] have i1: "chan_inv e now a n x w y s1" .
  have s1: "s1 = upd_ctrl (\<lambda>m. m\<lparr>mc_transactions := mc_transactions m @ [t\<lparr>tr_added := mc_clock m\<rparr>]\<rparr>)
      (s\<lparr>ms_in_flight := ms_in_flight s + 1\<rparr>)"
    using s1 True by (simp add: mc_add_transaction_def)
  have "accept_waiting (me_cfg e) s = s1\<lparr>ms_waiting := ts\<rparr>" using True t s1 by (simp add: accept_waiting_def mc_add_transaction_def)
  moreover have "chan_inv e now a n x w y (s1\<lparr>ms_waiting := ts\<rparr>)"
    using i1 t by (simp add: chan_inv_def trans_ok_def s1 upd_ctrl_def)
  moreover have "same_work s (s1\<lparr>ms_waiting := ts\<rparr>)"
    by (simp add: same_work_def reads_of_def writes_of_def s1 upd_ctrl_def t ac_simps)
  ultimately show ?thesis by simp
qed (use inv in \<open>auto simp: accept_waiting_def same_work_refl\<close>)

section \<open>The countdowns of the bank states\<close>

lemma length_map_banks [simp]: "length (map_banks f t) = length t"
  by (simp add: map_banks_def)

lemma map_banks_nth: "i < length t \<Longrightarrow> map_banks f t ! i = map (\<lambda>j. f i j (t ! i ! j)) [0..<length (t ! i)]"
  by (simp add: map_banks_def)

lemma map_banks_ok: "table_ok c t \<Longrightarrow> table_ok c (map_banks f t)"
  by (fastforce simp: table_ok_def in_set_conv_nth map_banks_nth)

lemma tick_bank_kept [simp]:
  "next_read (tick_bank m) = next_read m" "next_write (tick_bank m) = next_write m"
  "bs_state (tick_bank m) = RowActive \<Longrightarrow> bs_state m = RowActive"
  by (auto simp: tick_bank_def Let_def split: if_splits)

lemma all_track_map:
  assumes "all_track row bs" and "\<And>m b. tracks m b \<Longrightarrow> tracks (f m) b"
  shows "all_track (map f row) bs"
  using assms by (auto simp: all_track_def list_all2_conv_all_nth)

lemma map_upt_nth: "map (\<lambda>j. f (xs ! j)) [0..<length xs] = map f xs"
  by (rule nth_equalityI) simp_all

lemma agrees_tick: "agrees e a cmd i row k \<Longrightarrow> agrees e a cmd i (map tick_bank row) k"
  by (auto simp: agrees_def expects_def all_track_map tracks_tick split: option.splits)

lemma tick_stage:
  assumes inv: "chan_inv e now a n x w y s"
  shows "chan_inv e now a n x w y (upd_ctrl update_bank_state s) \<and> same_work s (upd_ctrl update_bank_state s)"
proof -
  let ?m = "ms_ctrl s"
  define t where "t = map_banks (\<lambda>_ _. tick_bank) (mc_banks ?m)"
  have ti: "t ! i = map tick_bank (mc_banks ?m ! i)" if "i < length (mc_banks ?m)" for i
    using that map_upt_nth [of tick_bank "mc_banks ?m ! i"] by (simp add: t_def map_banks_nth)
  have "ctrl_sizes e now (?m\<lparr>mc_banks := t\<rparr>)" using inv by (simp add: chan_inv_def ctrl_sizes_def Let_def t_def map_banks_ok)
  moreover have lt: "length (mc_banks ?m) = ranks_of (me_cfg e)" using inv by (simp add: chan_inv_def ctrl_sizes_def table_ok_def Let_def)
  have "data_bus_ok e w y (?m\<lparr>mc_banks := t\<rparr>)"
  proof -
    have "length t = length (mc_banks ?m)" by (simp add: t_def)
    then show ?thesis
      using inv ti by (auto simp: chan_inv_def data_bus_ok_def data_ok_def write_lag_def bus_free_def open_room_def)
  qed
  moreover have "ranks_ok e now a n x (mc_cmd ?m) t (ms_ranks s)"
    using inv ti lt agrees_tick by (auto simp: chan_inv_def ranks_ok_def read_bus_ok_def)
  ultimately show ?thesis
    using inv by (simp add: upd_ctrl_def update_bank_state_def t_def chan_inv_def trans_ok_def same_work_def reads_of_def
        writes_of_def)
qed

section \<open>The command bus\<close>

lemma on_rank_ok: "unat r < length (ms_ranks s) \<Longrightarrow> f (ms_ranks s ! unat r) = Inr k
  \<Longrightarrow> on_rank r f s = Inr (s\<lparr>ms_ranks := (ms_ranks s)[unat r := k]\<rparr>)"
  by (simp add: on_rank_def vec_get_def)

lemma read_line_None [simp]: "read_line e x None i k = map unat (return_countdowns k)"
  by (simp add: read_line_def)

text \<open>A command on the bus is nothing to the other ranks.\<close>

lemma elsewhere:
  assumes "unat (prank p) \<noteq> i"
  shows "read_bus_ok e n x (Some p) i row k = read_bus_ok e n x' None i row k" "agrees e a (Some p) i row k = agrees e a' None i row k"
  using assms by (simp_all add: read_bus_ok_def read_lag_def read_line_def agrees_def)

lemma deliver_stage:
  assumes inv: "chan_inv e now now n 0 w y s"
  shows "\<exists>s'. deliver_command e s = Inr s' \<and> chan_inv e now a n x w y s' \<and> mc_cmd (ms_ctrl s') = None \<and> same_work s s'"
proof (cases "mc_cmd (ms_ctrl s)")
  case None
  have "ranks_ok e now a n x None t rs" if "ranks_ok e now now n 0 None t rs" for t rs
    using that by (simp add: ranks_ok_def read_bus_ok_def read_lag_def agrees_def)
  then show ?thesis using inv None by (auto simp: deliver_command_def chan_inv_def same_work_refl)
next
  case (Some p)
  let ?m = "ms_ctrl s" and ?rs = "ms_ranks s"
  let ?t = "mc_banks ?m" and ?i = "unat (prank p)"
  have p: "issued e p" "mc_cmd_left ?m = 1" using inv Some by (simp_all add: chan_inv_def cmds_ok_def)
  have ro: "ranks_ok e now now n 0 (Some p) ?t ?rs" using inv Some by (simp add: chan_inv_def)
  have i: "?i < length ?rs" using p(1) ro by (simp add: ranks_ok_def issued_def in_range_def)
  have old: "rank_ok e now (?rs ! ?i)" "read_bus_ok e n 0 (Some p) ?i (?t ! ?i) (?rs ! ?i)" "expects (me_pim e) now p (?t ! ?i) (?rs ! ?i)"
    using ro i by (auto simp: ranks_ok_def agrees_def)
  from receive_command [OF old(1) p(1) old(3)] obtain k where k: "receive_from_bus (me_fuel e) (me_pim e) p (?rs ! ?i) = Inr k"
    "rank_ok e now k" "all_track (?t ! ?i) (bank_states k)" "rank_free k = rank_free (?rs ! ?i)"
    "return_countdowns k = return_countdowns (?rs ! ?i) @ (if ptype p = READ then [RL (me_cfg e)] else [])"
    "rank_reads k = rank_reads (?rs ! ?i) @ (if ptype p = READ then [paddr p] else [])" by blast
  have line: "read_line e x None ?i k = read_line e 0 (Some p) ?i (?rs ! ?i)" for x
    using k(5) by (simp add: read_line_def)
  have bus: "read_bus_ok e n x None ?i (?t ! ?i) k"
    using old(2) by (simp add: read_bus_ok_def read_lag_def line k(4) del: read_line_None)
  have "ranks_ok e now a n x None ?t (?rs[?i := k])"
    unfolding ranks_ok_def
  proof (intro conjI allI impI)
    show "length (?rs[?i := k]) = ranks_of (me_cfg e)" using ro by (simp add: ranks_ok_def)
    fix j assume j: "j < length (?rs[?i := k])"
    have "rank_ok e now (?rs[?i := k] ! j) \<and> read_bus_ok e n x None j (?t ! j) (?rs[?i := k] ! j)
        \<and> agrees e a None j (?t ! j) (?rs[?i := k] ! j)"
    proof (cases "j = ?i")
      case True
      then show ?thesis using k(2,3) bus i by (simp add: agrees_def)
    next
      case False
      then show ?thesis
        using ro j elsewhere(1) [of p j e n 0 "?t ! j" "?rs ! j" x] elsewhere(2) [of p j e now "?t ! j" "?rs ! j" a]
        by (simp add: ranks_ok_def)
    qed
    then show "rank_ok e now (?rs[?i := k] ! j)" "read_bus_ok e n x None j (?t ! j) (?rs[?i := k] ! j)"
      "agrees e a None j (?t ! j) (?rs[?i := k] ! j)" by simp_all
  qed
  moreover define s' where "s' = s\<lparr>ms_ctrl := ?m\<lparr>mc_cmd_left := 0, mc_cmd := None\<rparr>, ms_ranks := ?rs[?i := k]\<rparr>"
  have "deliver_command e s = Inr s'"
    using Some p(2) on_rank_ok [of "prank p" "s\<lparr>ms_ctrl := ?m\<lparr>mc_cmd_left := 0\<rparr>\<rparr>" "receive_from_bus (me_fuel e) (me_pim e) p" k] k(1) i
    by (simp add: deliver_command_def upd_ctrl_def Let_def s'_def)
  moreover have "cmds_ok e now (?m\<lparr>mc_cmd_left := 0, mc_cmd := None\<rparr>)"
    using inv by (simp add: chan_inv_def cmds_ok_def)
  moreover have "reads_in (?m\<lparr>mc_cmd_left := 0, mc_cmd := None\<rparr>) (?rs[?i := k]) = reads_in ?m ?rs"
    using rank_load_update [OF i, of k] k(6) by (simp add: reads_in_def Some ac_simps)
  ultimately show ?thesis
    using inv by (intro exI [of _ s']) (simp add: s'_def chan_inv_def trans_ok_def same_work_def reads_of_def writes_of_def)
qed

section \<open>The data bus\<close>

definition chan_core :: "mem_env \<Rightarrow> u64 \<Rightarrow> u64 \<Rightarrow> nat \<Rightarrow> nat \<Rightarrow> mem_system \<Rightarrow> bool" where
  "chan_core e now a n x s \<longleftrightarrow> ctrl_sizes e now (ms_ctrl s) \<and> cmds_ok e now (ms_ctrl s) \<and> data_ok e (ms_ctrl s)
     \<and> ranks_ok e now a n x (mc_cmd (ms_ctrl s)) (mc_banks (ms_ctrl s)) (ms_ranks s) \<and> trans_ok e s"

lemma chan_inv_core: "chan_inv e now a n x w y s \<longleftrightarrow> chan_core e now a n x s \<and> data_bus_ok e w y (ms_ctrl s)"
  by (auto simp: chan_inv_def chan_core_def data_bus_ok_def)

lemma deliver_data_ok:
  assumes core: "chan_core e now a n x s"
  shows "\<exists>s'. deliver_data e s = Inr s' \<and> chan_core e now a n x s' \<and> same_work s s'
    \<and> bus_free (ms_ctrl s') = bus_free (ms_ctrl s) - 1 \<and> mc_write_left (ms_ctrl s') = mc_write_left (ms_ctrl s)
    \<and> mc_banks (ms_ctrl s') = mc_banks (ms_ctrl s) \<and> mc_cmd (ms_ctrl s') = mc_cmd (ms_ctrl s)"
proof (cases "mc_data (ms_ctrl s)")
  case None
  with core show ?thesis by (simp add: deliver_data_def bus_free_def same_work_refl)
next
  case (Some p)
  let ?m = "ms_ctrl s" and ?i = "unat (prank p)"
  have d: "0 < unat (mc_data_left ?m)" "ptype p = DATA" "in_range (me_cfg e) p" "data_ok e ?m"
    using core Some by (auto simp: chan_core_def data_ok_def)
  note left = u32_dec [OF d(1)]
  have i: "?i < length (ms_ranks s)" "rank_ok e now (ms_ranks s ! ?i)"
    using core d(3) by (simp_all add: chan_core_def ranks_ok_def in_range_def)
  show ?thesis
  proof (cases "mc_data_left ?m = 1")
    case False
    define s' where "s' = s\<lparr>ms_ctrl := ?m\<lparr>mc_data_left := mc_data_left ?m - 1\<rparr>\<rparr>"
    have nz: "unat (mc_data_left ?m) \<noteq> 1" using False by (simp add: word_unat_eq_iff)
    then have "deliver_data e s = Inr s'" using Some left by (simp add: deliver_data_def upd_ctrl_def Let_def s'_def)
    moreover have "data_ok e (?m\<lparr>mc_data_left := mc_data_left ?m - 1\<rparr>)" using d(1,4) left nz by (auto simp: data_ok_def)
    ultimately show ?thesis
      using core left Some by (intro exI [of _ s']) (simp add: s'_def chan_core_def trans_ok_def same_work_def reads_of_def
          writes_of_def bus_free_def)
  next
    case True
    define s' where "s' = s\<lparr>ms_events := WriteDone (paddr p) (mc_clock ?m) # ms_events s, ms_in_flight := ms_in_flight s - 1,
      ms_ctrl := ?m\<lparr>mc_data_left := 0, mc_data := None\<rparr>\<rparr>"
    have "receive_from_bus (me_fuel e) (me_pim e) p (ms_ranks s ! ?i) = Inr (ms_ranks s ! ?i)"
      using receive_data [OF i(2) d(2)] d(3) by (simp add: in_range_def)
    then have "deliver_data e s = Inr s'"
      using Some True i(1) on_rank_ok [of "prank p" "s\<lparr>ms_ctrl := ?m\<lparr>mc_data_left := 0\<rparr>,
        ms_events := WriteDone (paddr p) (mc_clock ?m) # ms_events s, ms_in_flight := ms_in_flight s - 1\<rparr>"
        "receive_from_bus (me_fuel e) (me_pim e) p" "ms_ranks s ! ?i"]
      by (simp add: deliver_data_def upd_ctrl_def Let_def s'_def)
    moreover have w: "writes_in ?m = add_mset (paddr p) (writes_in (?m\<lparr>mc_data_left := 0, mc_data := None\<rparr>))"
      by (simp add: writes_in_def Some)
    moreover have "data_ok e (?m\<lparr>mc_data_left := 0, mc_data := None\<rparr>)" using d(4) by (simp add: data_ok_def)
    moreover have "ctrl_sizes e now (?m\<lparr>mc_data_left := 0, mc_data := None\<rparr>)" "cmds_ok e now (?m\<lparr>mc_data_left := 0, mc_data := None\<rparr>)"
      using core by (simp_all add: chan_core_def)
    ultimately show ?thesis
      using core True by (intro exI [of _ s']) (simp add: s'_def chan_core_def trans_ok_def same_work_def reads_of_def
          writes_of_def bus_free_def ac_simps)
  qed
qed

lemma bus_free_frame [simp]: "bus_free (m\<lparr>mc_write_left := v\<rparr>) = bus_free m"
  by (simp add: bus_free_def)

lemma data_bus_tick:
  assumes "channel_ok e" and d: "data_bus_ok e w 0 m" and "data_ok e m'"
    and "waits (burst_cycles e) (bus_free m') (map unat (mc_write_left m'))" and l: "write_lag e m' = write_lag e m - 1"
    and b: "mc_banks m' = mc_banks m"
  shows "data_bus_ok e (Suc w) 1 m'"
proof -
  have "0 < burst_cycles e" using assms(1) by (auto simp: channel_ok_def Let_def)
  moreover have "open_room (Suc w) (write_lag e m') (unat (WL (me_cfg e))) (mc_banks m')"
    using d room_tick by (simp add: data_bus_ok_def open_room_def l b)
  ultimately show ?thesis using assms by (auto simp: data_bus_ok_def)
qed

lemma send_write_data_ok:
  assumes c: "channel_ok e" and core: "chan_core e now a n x s" and d: "data_bus_ok e w 0 m"
    and m: "bus_free (ms_ctrl s) = bus_free m - 1" "mc_write_left (ms_ctrl s) = mc_write_left m" "mc_banks (ms_ctrl s) = mc_banks m"
  shows "\<exists>s'. lift_ctrl (send_write_data (me_cfg e)) s = Inr s' \<and> chan_inv e now a n x (Suc w) 1 s' \<and> same_work s s'
    \<and> mc_cmd (ms_ctrl s') = mc_cmd (ms_ctrl s)"
proof -
  let ?h = "burst_cycles e" and ?m = "ms_ctrl s" and ?xs = "mc_write_left m"
  have h: "0 < ?h" using c by (auto simp: channel_ok_def Let_def)
  have wt: "waits ?h (bus_free m) (map unat ?xs)" using d by (simp add: data_bus_ok_def)
  define ys where "ys = map (\<lambda>n. n - 1) ?xs"
  have pos: "\<forall>n \<in> set ?xs. 0 < unat n" using wt waits_pos by fastforce
  have ys: "map unat ys = map (\<lambda>n. n - 1) (map unat ?xs)" using map_unat_dec [OF pos] by (simp add: ys_def)
  have dok: "data_ok e ?m" using core by (simp add: chan_core_def)
  show ?thesis
  proof (cases "?xs \<noteq> [] \<and> hd ?xs = 1")
    case False
    define m' where "m' = (if ?xs = [] then ?m else ?m\<lparr>mc_write_left := ys\<rparr>)"
    have "\<not> (map unat ?xs \<noteq> [] \<and> hd (map unat ?xs) = 1)" using False by (cases ?xs) (auto simp: unat_eq_1)
    note t = waits_tick [OF wt h this]
    have "mc_write_left m' = ys" "bus_free m' = bus_free m - 1" "mc_banks m' = mc_banks m"
      using m by (simp_all add: m'_def ys_def)
    moreover have "data_ok e m'" using dok m(2) by (simp add: data_ok_def m'_def ys_def)
    ultimately have "data_bus_ok e (Suc w) 1 m'"
      using t ys by (intro data_bus_tick [OF c d]) (simp_all add: write_lag_def)
    moreover have "send_write_data (me_cfg e) ?m = Inr m'"
      using m(2) False by (cases ?xs) (auto simp: send_write_data_def Let_def m'_def ys_def)
    ultimately show ?thesis
      using core by (intro exI [of _ "s\<lparr>ms_ctrl := m'\<rparr>"]) (simp add: lift_ctrl_def chan_inv_def chan_core_def m'_def
          trans_ok_def same_work_def reads_of_def writes_of_def)
  next
    case True
    then obtain ns where xs: "?xs = 1 # ns" by (cases ?xs) auto
    then obtain p ps where p: "mc_write_data ?m = p # ps" using dok m(2) by (cases "mc_write_data ?m") (auto simp: data_ok_def)
    have hd1: "map unat ?xs = 1 # map unat ns" by (simp add: xs)
    note t = waits_start [OF wt [unfolded hd1] h]
    have n: "mc_data ?m = None" using dok t m(1) by (auto simp: data_ok_def bus_free_def split: if_splits)
    define m' where "m' = ?m\<lparr>mc_write_left := tl ys, mc_data := Some p, mc_data_left := BL (me_cfg e) div 2,
      mc_total := mc_total ?m + 1, mc_write_data := ps\<rparr>"
    have tl: "map unat (tl ys) = map (\<lambda>n. n - 1) (map unat ns)" using ys by (simp add: ys_def xs)
    have bf: "bus_free m' = ?h" by (simp add: m'_def bus_free_def burst_cycles_def)
    have "write_lag e m' = write_lag e m - 1" using t tl bf by (simp add: write_lag_def hd1 m'_def)
    moreover have "waits ?h (bus_free m') (map unat (mc_write_left m'))" using t tl bf by (simp add: m'_def)
    moreover have "data_ok e m'"
      using dok m(2) h by (auto simp: data_ok_def m'_def ys_def xs p burst_cycles_def)
    ultimately have "data_bus_ok e (Suc w) 1 m'"
      using m(3) by (intro data_bus_tick [OF c d]) (simp_all add: m'_def)
    moreover have "send_write_data (me_cfg e) ?m = Inr m'"
      using m(2) n p by (simp add: send_write_data_def Let_def m'_def ys_def xs vec_get_def)
    moreover have "writes_in m' = writes_in ?m" by (simp add: writes_in_def m'_def n p)
    moreover have "ctrl_sizes e now m'" "cmds_ok e now m'" "reads_in m' rs = reads_in ?m rs" for rs
      using core by (simp_all add: m'_def chan_core_def)
    ultimately show ?thesis
      using core by (intro exI [of _ "s\<lparr>ms_ctrl := m'\<rparr>"]) (simp add: lift_ctrl_def chan_inv_def chan_core_def
          trans_ok_def same_work_def reads_of_def writes_of_def, simp add: m'_def)
  qed
qed

lemma data_stage:
  assumes c: "channel_ok e" and inv: "chan_inv e now a n x w 0 s"
  shows "\<exists>s1 s2. deliver_data e s = Inr s1 \<and> lift_ctrl (send_write_data (me_cfg e)) s1 = Inr s2
    \<and> chan_inv e now a n x (Suc w) 1 s2 \<and> same_work s s2 \<and> mc_cmd (ms_ctrl s2) = mc_cmd (ms_ctrl s)"
proof -
  have i: "chan_core e now a n x s" "data_bus_ok e w 0 (ms_ctrl s)" using inv by (simp_all add: chan_inv_core)
  obtain s1 where s1: "deliver_data e s = Inr s1" "chan_core e now a n x s1" "same_work s s1"
    "bus_free (ms_ctrl s1) = bus_free (ms_ctrl s) - 1" "mc_write_left (ms_ctrl s1) = mc_write_left (ms_ctrl s)"
    "mc_banks (ms_ctrl s1) = mc_banks (ms_ctrl s)" "mc_cmd (ms_ctrl s1) = mc_cmd (ms_ctrl s)"
    using deliver_data_ok [OF i(1)] by blast
  from send_write_data_ok [OF c s1(2) i(2) s1(4-6)] s1 show ?thesis using same_work_trans by metis
qed

section \<open>Refresh\<close>

lemma need_refresh_ok: "cq_ok c q \<Longrightarrow> unat r < ranks_of c \<Longrightarrow> cq_ok c (need_refresh r q)"
  by (simp add: cq_ok_def cq_shape_def cq_counters_def all_packets_def need_refresh_def)

lemma rank_waiting [simp]:
  "rank_ok e now (k\<lparr>refresh_waiting := v\<rparr>) = rank_ok e now k" "rank_free (k\<lparr>refresh_waiting := v\<rparr>) = rank_free k"
  "rank_reads (k\<lparr>refresh_waiting := v\<rparr>) = rank_reads k" "read_line e x cmd i (k\<lparr>refresh_waiting := v\<rparr>) = read_line e x cmd i k"
  by (simp_all add: rank_ok_def rank_free_def rank_reads_def read_line_def)

lemma rank_load_same: "i < length rs \<Longrightarrow> rank_reads k = rank_reads (rs ! i) \<Longrightarrow> rank_load (rs[i := k]) = rank_load rs"
  using rank_load_update [of i rs k] by simp

lemma ranks_ok_waiting:
  assumes "ranks_ok e now a n x cmd t rs" and "i < length rs"
  shows "ranks_ok e now a n x cmd t (rs[i := (rs ! i)\<lparr>refresh_waiting := True\<rparr>])"
  unfolding ranks_ok_def
proof (intro conjI allI impI)
  fix j assume "j < length (rs[i := (rs ! i)\<lparr>refresh_waiting := True\<rparr>])"
  then have "rank_ok e now (rs ! j) \<and> read_bus_ok e n x cmd j (t ! j) (rs ! j) \<and> agrees e a cmd j (t ! j) (rs ! j)"
    using assms(1) by (simp add: ranks_ok_def)
  moreover from this have "agrees e a cmd j (t ! j) ((rs ! j)\<lparr>refresh_waiting := True\<rparr>)"
    using expects_cong [of "me_pim e" a _ "t ! j" "rs ! j" "(rs ! j)\<lparr>refresh_waiting := True\<rparr>"]
    by (auto simp: agrees_def split: option.splits)
  ultimately have "rank_ok e now (rs[i := (rs ! i)\<lparr>refresh_waiting := True\<rparr>] ! j)
      \<and> read_bus_ok e n x cmd j (t ! j) (rs[i := (rs ! i)\<lparr>refresh_waiting := True\<rparr>] ! j)
      \<and> agrees e a cmd j (t ! j) (rs[i := (rs ! i)\<lparr>refresh_waiting := True\<rparr>] ! j)"
    using assms(2) by (cases "j = i") (simp_all add: read_bus_ok_def read_lag_def)
  then show "rank_ok e now (rs[i := (rs ! i)\<lparr>refresh_waiting := True\<rparr>] ! j)"
    "read_bus_ok e n x cmd j (t ! j) (rs[i := (rs ! i)\<lparr>refresh_waiting := True\<rparr>] ! j)"
    "agrees e a cmd j (t ! j) (rs[i := (rs ! i)\<lparr>refresh_waiting := True\<rparr>] ! j)" by simp_all
qed (use assms in \<open>simp add: ranks_ok_def\<close>)

lemma refresh_stage:
  assumes c: "channel_ok e" and inv: "chan_inv e now a n x w y s"
  shows "\<exists>s'. update_refresh (me_cfg e) s = Inr s' \<and> chan_inv e now a n x w y s' \<and> same_work s s'
    \<and> mc_cmd (ms_ctrl s') = mc_cmd (ms_ctrl s)"
proof -
  let ?m = "ms_ctrl s" and ?rs = "ms_ranks s" and ?c = "me_cfg e"
  let ?r = "mc_refresh_rank ?m"
  have i: "unat ?r < length ?rs" "unat ?r < length (mc_refresh_left ?m)" "unat ?r < ranks_of ?c"
    "mc_power_down ?m = replicate (ranks_of ?c) False"
    using inv by (simp_all add: chan_inv_def ctrl_sizes_def ranks_ok_def Let_def)
  define rs where "rs = ?rs[unat ?r := (?rs ! unat ?r)\<lparr>refresh_waiting := True\<rparr>]"
  show ?thesis
  proof (cases "mc_refresh_left ?m ! unat ?r = 0")
    case True
    obtain k where k: "cycles_of (2 ^ 32) (refresh_interval (tREFI ?c) (tCK ?c)) = Inr k"
      using c by (auto simp: channel_ok_def Let_def defined_def)
    define r' where "r' = (if ?r + 1 = NUM_RANKS ?c then 0 else ?r + 1)"
    have "unat r' < ranks_of ?c"
      using unat_next [of ?r "NUM_RANKS ?c"] i(3) by (auto simp: r'_def ranks_of_def)
    define m' where "m' = ?m\<lparr>mc_queue := need_refresh ?r (mc_queue ?m), mc_refresh_left := (mc_refresh_left ?m)[unat ?r := k],
      mc_refresh_rank := r'\<rparr>"
    have "update_refresh ?c s = Inr (s\<lparr>ms_ranks := rs, ms_ctrl := m'\<rparr>)"
      using True k i by (simp add: update_refresh_def Let_def vec_get_def on_rank_def upd_ctrl_def rs_def m'_def r'_def)
    moreover have "ctrl_sizes e now m'" "cmds_ok e now m'"
      using inv \<open>unat r' < ranks_of ?c\<close> need_refresh_ok [OF _ i(3)]
      by (auto simp: chan_inv_def ctrl_sizes_def cmds_ok_def Let_def m'_def need_refresh_def all_packets_def)
    moreover have "reads_in m' rs = reads_in ?m ?rs" "writes_in m' = writes_in ?m"
      using i(1) by (simp_all add: reads_in_def writes_in_def rs_def m'_def rank_load_same need_refresh_def all_packets_def)
    moreover have "ranks_ok e now a n x (mc_cmd m') (mc_banks m') rs"
      using ranks_ok_waiting inv i(1) by (simp add: chan_inv_def rs_def m'_def)
    moreover have "data_bus_ok e w y m'" using inv by (simp add: chan_inv_def m'_def)
    ultimately show ?thesis
      using inv by (intro exI [of _ "s\<lparr>ms_ranks := rs, ms_ctrl := m'\<rparr>"])
        (simp add: chan_inv_def trans_ok_def same_work_def reads_of_def writes_of_def, simp add: m'_def)
  next
    case False
    then have "update_refresh ?c s = Inr s" using i by (simp add: update_refresh_def Let_def vec_get_def)
    with inv show ?thesis by (simp add: same_work_refl)
  qed
qed

end
