(* ===== verification/MemIssue.thy ===== *)
theory MemIssue
  imports MemRun
begin

text \<open>
  Issuing a command keeps the invariant of theory \<^verbatim>\<open>MemRun\<close>: the rank is ready for the command when it arrives, and
  its data, read or written, finds the bus free.
\<close>

section \<open>The command that is issued\<close>

lemma row_tracks:
  "ranks_ok e now a n x None t rs \<Longrightarrow> i < length rs \<Longrightarrow> all_track (t ! i) (bank_states (rs ! i))"
  by (simp add: ranks_ok_def agrees_def)

lemma open_row_plain:
  assumes "ranks_ok e now a n x None t rs" and "table_ok (me_cfg e) t" and "unat r < length t" and "b < length (t ! unat r)"
    and "bs_state (t ! unat r ! b) = RowActive"
  shows "\<not> is_reserved_ra (open_row (t ! unat r ! b))"
proof -
  have "unat r < length rs" using assms(1-3) by (simp add: ranks_ok_def table_ok_def)
  from row_tracks [OF assms(1) this] have "tracks (t ! unat r ! b) (bank_states (rs ! unat r) ! b)"
    using assms(4) by (simp add: all_track_def list_all2_nthD)
  then show ?thesis using assms(5) by (simp add: tracks_def)
qed

lemma table_size: "table_ok c t \<Longrightarrow> unat r < length t \<and> i < length (t ! unat r) \<longleftrightarrow> unat r < ranks_of c \<and> i < banks_of c"
  by (auto simp: table_ok_def)

text \<open>A packet that is popped is a plain one the bank state allows, and the queue loses it if it is a column command.\<close>

definition issue_facts :: "mem_env \<Rightarrow> u64 \<Rightarrow> mc_bank list list \<Rightarrow> bus_packet \<Rightarrow> cmd_queue \<Rightarrow> cmd_queue \<Rightarrow> bool" where
  "issue_facts e now t p q q' \<longleftrightarrow> issued e p
     \<and> (ptype p \<noteq> REF \<longrightarrow> may_issue (ptype p) (prow p) now (t ! unat (prank p) ! unat (pbank p)))
     \<and> (ptype p = REF \<longrightarrow> (\<forall>m \<in> set (t ! unat (prank p)). bs_state m \<noteq> RowActive))
     \<and> mset (all_packets q) = (if ptype p = READ \<or> ptype p = WRITE then {#p#} else {#}) + mset (all_packets q')"

lemma popped_facts:
  assumes c: "channel_ok e" and pop: "popped (me_cfg e) t modes p q q'" and q: "cq_ok (me_cfg e) q" "cq_clock q = now"
    "\<forall>p \<in> set (all_packets q). plain_packet e p" and t: "table_ok (me_cfg e) t" and r: "ranks_ok e now a n x None t rs"
  shows "issue_facts e now t p q q'"
proof -
  let ?c = "me_cfg e"
  have iss: "is_issuable ?c t modes q p = Inr True" using pop by (simp add: popped_def)
  have may: "may_issue (ptype p) (prow p) now (t ! unat (prank p) ! unat (pbank p))"
    "in_range ?c p" if "ptype p \<in> {READ, WRITE, ACTIVATE, PRECHARGE}"
    using issuable_may_issue [OF iss that] q(2) taken_at [of t "prank p"] table_size [OF t] by (auto simp: in_range_def)
  have plain: "plain_packet e y \<and> column_packet ?c y" if "table_at (queues q) r i = Inr xs" "y \<in> set xs" for r i xs y
    using queue_packets [OF that] q by (auto simp: cq_ok_def)
  have "taken p q q' \<or> made_up ?c t p q \<and> queues q' = queues q" using pop by (simp add: popped_def)
  then show ?thesis
  proof
    assume tk: "taken p q q'"
    then obtain r i pre post where "table_at (queues q) r i = Inr (pre @ p # post)" by (auto simp: taken_def)
    then have "plain_packet e p" "ptype p = READ \<or> ptype p = WRITE"
      using plain [of r i "pre @ p # post" p] by (auto simp: column_packet_def)
    with may taken_mset [OF tk] show ?thesis by (auto simp: issue_facts_def issued_def plain_packet_def)
  next
    assume mk: "made_up ?c t p q \<and> queues q' = queues q"
    then have same: "all_packets q' = all_packets q" by (simp add: all_packets_def)
    from mk consider y r i xs where "ptype p = ACTIVATE" "table_at (queues q) r i = Inr xs" "y \<in> set xs" "prow p = prow y"
      | r b m where "table_at t r b = Inr m" "bs_state m = RowActive"
          "p = mk_packet PRECHARGE 0 0 (open_row m) r (of_nat b) None" "b < 2 ^ 32"
      | r where "p = mk_packet REF 0 0 0 r 0 None" "r = cq_refresh_rank q"
          "\<forall>b < unat (NUM_BANKS ?c). \<exists>m. table_at t r b = Inr m \<and> bs_state m \<noteq> RowActive"
      unfolding made_up_def by (auto simp: bus_packet_tagged_def)
    then show ?thesis
    proof cases
      case 1
      then have "\<not> is_reserved_ra (prow p)" using plain by (auto simp: plain_packet_def)
      with 1 may same show ?thesis by (auto simp: issue_facts_def issued_def)
    next
      case (2 r b m)
      then have "unat r < length t" "b < length (t ! unat r)" "m = t ! unat r ! b" using taken_at [OF 2(1)] by simp_all
      with open_row_plain [OF r t] 2(2,3) have "\<not> is_reserved_ra (prow p)" by simp
      with 2 may same show ?thesis by (auto simp: issue_facts_def issued_def)
    next
      case (3 r)
      have rr: "unat r < ranks_of ?c" using 3(2) q(1) by (simp add: cq_ok_def cq_counters_def)
      have "bs_state m \<noteq> RowActive" if m: "m \<in> set (t ! unat r)" for m
      proof -
        obtain b where b: "b < length (t ! unat r)" "m = t ! unat r ! b" using m by (auto simp: in_set_conv_nth)
        then have "b < unat (NUM_BANKS ?c)" using t rr by (simp add: table_ok_def banks_of_def)
        with 3(3) obtain m' where "table_at t r b = Inr m'" "bs_state m' \<noteq> RowActive" by blast
        with b taken_at [of t r b m'] show ?thesis by simp
      qed
      moreover have "0 < banks_of ?c" using c by (simp add: channel_ok_def Let_def)
      ultimately show ?thesis using 3(1) rr same reg_row_reserved(3) by (simp add: issue_facts_def issued_def in_range_def)
    qed
  qed
qed

section \<open>Its effect on the bank states\<close>

definition own_row :: "dram_config \<Rightarrow> u64 \<Rightarrow> bus_packet \<Rightarrow> mc_bank list \<Rightarrow> mc_bank list" where
  "own_row c now p row = map (\<lambda>j. own_rank_effect c now p j (row ! j)) [0..<length row]"

lemma burst_word: "unat (BL (me_cfg e) div 2) = burst_cycles e"
  by (simp add: burst_cycles_def)

lemma read_bus_own:
  assumes c: "channel_ok e" and now: "cycle_ok now" and old: "read_bus_ok e (Suc (unat now)) x None i row k"
    and p: "unat (prank p) = i" and rd: "ptype p = READ \<Longrightarrow> \<exists>m \<in> set row. next_read m \<le> now"
  shows "read_bus_ok e (Suc (unat now)) 1 (Some p) i (own_row (me_cfg e) now p row) k"
proof -
  let ?c = "me_cfg e" and ?h = "burst_cycles e" and ?n = "Suc (unat now)"
  let ?l = "read_lag e x None i k" and ?R = "Suc (unat (RL (me_cfg e)))"
  have old: "waits ?h (rank_free k) (map unat (return_countdowns k))" "\<forall>m \<in> set row. room ?n ?l ?R (next_read m)"
    using old by (simp_all add: read_bus_ok_def)
  show ?thesis
  proof (cases "ptype p = READ")
    case True
    have line: "read_line e 1 (Some p) i k = map unat (return_countdowns k) @ [?R]" using True p by (simp add: read_line_def)
    have "?l \<le> ?R" using rd [OF True] old(2) room_now by blast
    then have "waits ?h (rank_free k) (read_line e 1 (Some p) i k)" "read_lag e 1 (Some p) i k = ?R + ?h"
      unfolding line read_lag_def using old(1) by (simp_all add: waits_append free_at_append read_lag_def)
    moreover have "room ?n (?R + ?h) ?R (next_read m)" if m: "m \<in> set (own_row ?c now p row)" for m
    proof -
      obtain j where "m = own_rank_effect ?c now p j (row ! j)" using m by (auto simp: own_row_def)
      with read_delays [OF True, of ?c now j "row ! j"] obtain d where d: "BL ?c div 2 \<le> d" "later now d \<le> next_read m" by blast
      from d(1) have "?h \<le> unat d" by (simp add: burst_word [symmetric] word_le_nat_alt)
      from room_later [OF cycle_okD(1) [OF now] this d(2)] show ?thesis .
    qed
    ultimately show ?thesis by (simp add: read_bus_ok_def)
  next
    case False
    then have line: "read_line e 1 (Some p) i k = read_line e x None i k" by (simp add: read_line_def)
    have "room ?n ?l ?R (next_read m)" if m: "m \<in> set (own_row ?c now p row)" for m
    proof -
      obtain j where "j < length row" "m = own_rank_effect ?c now p j (row ! j)" using m by (auto simp: own_row_def)
      with old(2) room_mono own_rank_mono(1) show ?thesis by (metis nth_mem)
    qed
    then show ?thesis unfolding read_bus_ok_def read_lag_def line using old(1) by (simp add: read_lag_def)
  qed
qed

lemma read_bus_other:
  "read_bus_ok e n x None i row k \<Longrightarrow> read_bus_ok e n x' None i (map (other_rank_effect c now p) row) k"
  using room_mono [OF _ other_rank_mono(1)] by (auto simp: read_bus_ok_def read_lag_def)

lemma rank_issued:
  assumes c: "channel_ok e" and now: "cycle_ok now" and old: "read_bus_ok e (Suc (unat now)) x None i row k"
    "all_track row (bank_states k)" "rank_ok e now k" and p: "issued e p" "unat (prank p) = i"
    and iss: "ptype p \<noteq> REF \<Longrightarrow> may_issue (ptype p) (prow p) now (row ! unat (pbank p))"
    and idle: "ptype p = REF \<Longrightarrow> \<forall>m \<in> set row. bs_state m \<noteq> RowActive"
  shows "read_bus_ok e (Suc (unat now)) 1 (Some p) i (own_row (me_cfg e) now p row) k
    \<and> agrees e (now + 1) (Some p) i (own_row (me_cfg e) now p row) k"
proof -
  let ?b = "unat (pbank p)"
  have len: "length row = n_banks (me_pim e)"
    using old(2,3) by (auto simp: all_track_def rank_ok_def n_banks_eq dest: list_all2_lengthD)
  have b: "?b < length row" using p(1) len by (simp add: issued_def in_range_def n_banks_eq)
  have "\<exists>m \<in> set row. next_read m \<le> now" if "ptype p = READ"
    using iss that b by (intro bexI [of _ "row ! ?b"]) (simp_all add: may_issue_def)
  then have "read_bus_ok e (Suc (unat now)) 1 (Some p) i (own_row (me_cfg e) now p row) k"
    using read_bus_own [OF c now old(1) p(2)] by blast
  moreover have md: "mode (pim k) = SB" using old(3) by (simp add: rank_ok_def)
  have "expects (me_pim e) (now + 1) p (own_row (me_cfg e) now p row) k"
  proof (cases "ptype p = REF")
    case True
    from expects_refresh [OF old(2) len now True idle [OF True]] show ?thesis by (simp add: own_row_def me_cfg_eq)
  next
    case False
    have "delays_ok (env_cfg (me_pim e))" using c by (simp add: channel_ok_def Let_def me_cfg_eq)
    moreover have "ptype p \<in> {READ, WRITE, ACTIVATE, PRECHARGE}" "\<not> is_reserved_ra (prow p)" using p(1) False by (auto simp: issued_def)
    moreover have "?b < n_banks (me_pim e)" using b len by simp
    ultimately show ?thesis
      using expects_issued [OF old(2) len md now _ _ _ _ iss [OF False]] by (simp add: own_row_def me_cfg_eq)
  qed
  ultimately show ?thesis using p(2) by (simp add: agrees_def)
qed

definition effect_table :: "dram_config \<Rightarrow> u64 \<Rightarrow> bus_packet \<Rightarrow> mc_bank list list \<Rightarrow> mc_bank list list" where
  "effect_table c now p t =
     map_banks (\<lambda>i j m. if i = unat (prank p) then own_rank_effect c now p j m else other_rank_effect c now p m) t"

lemma effect_table_nth:
  "i < length t \<Longrightarrow> effect_table c now p t ! i
     = (if i = unat (prank p) then own_row c now p (t ! i) else map (other_rank_effect c now p) (t ! i))"
  using map_upt_nth [of "other_rank_effect c now p" "t ! i"] by (simp add: effect_table_def map_banks_nth own_row_def)

lemma ranks_issued:
  assumes c: "channel_ok e" and now: "cycle_ok now" and r: "ranks_ok e now a (Suc (unat now)) x None t rs"
    and t: "table_ok (me_cfg e) t" and f: "issue_facts e now t p q q'"
  shows "ranks_ok e now (now + 1) (Suc (unat now)) 1 (Some p) (effect_table (me_cfg e) now p t) rs"
  unfolding ranks_ok_def
proof (intro conjI allI impI)
  show "length rs = ranks_of (me_cfg e)" using r by (simp add: ranks_ok_def)
  fix i assume i: "i < length rs"
  have it: "i < length t" using i r t by (simp add: ranks_ok_def table_ok_def)
  let ?row = "effect_table (me_cfg e) now p t ! i"
  have old: "rank_ok e now (rs ! i)" "read_bus_ok e (Suc (unat now)) x None i (t ! i) (rs ! i)" "all_track (t ! i) (bank_states (rs ! i))"
    using r i by (auto simp: ranks_ok_def agrees_def)
  have "read_bus_ok e (Suc (unat now)) 1 (Some p) i ?row (rs ! i) \<and> agrees e (now + 1) (Some p) i ?row (rs ! i)"
  proof (cases "unat (prank p) = i")
    case True
    then have "?row = own_row (me_cfg e) now p (t ! i)" using effect_table_nth [OF it] by simp
    with rank_issued [OF c now old(2,3,1) _ True] f True show ?thesis by (auto simp: issue_facts_def)
  next
    case False
    then have "?row = map (other_rank_effect (me_cfg e) now p) (t ! i)" using effect_table_nth [OF it] by auto
    moreover have "all_track (map (other_rank_effect (me_cfg e) now p) (t ! i)) (bank_states (rs ! i))"
      using all_track_map [OF old(3)] other_rank_tracks by blast
    moreover have "read_bus_ok e (Suc (unat now)) 1 (Some p) i row k = read_bus_ok e (Suc (unat now)) x None i row k" for row k
      by (rule elsewhere(1) [OF False])
    ultimately show ?thesis
      using elsewhere(2) [OF False] read_bus_other [OF old(2), of x] False by (simp add: agrees_def del: One_nat_def)
  qed
  then show "rank_ok e now (rs ! i)" "read_bus_ok e (Suc (unat now)) 1 (Some p) i ?row (rs ! i)"
    "agrees e (now + 1) (Some p) i ?row (rs ! i)" using old(1) by simp_all
qed

section \<open>Issuing\<close>

lemma row_delay:
  assumes c: "channel_ok e" and now: "cycle_ok now" and l: "l + 1 \<le> unat (WL (me_cfg e)) + burst_cycles e"
    and n: "later now (tRCDWR (me_cfg e) - AL (me_cfg e)) \<le> n"
  shows "room (Suc (unat now)) l (unat (WL (me_cfg e))) n"
proof -
  have "burst_cycles e \<le> Suc (unat (tRCDWR (me_cfg e) - AL (me_cfg e)))" using c by (simp add: channel_ok_def Let_def)
  with l n show ?thesis by (simp add: room_def word_le_nat_alt unat_later [OF cycle_okD(1) [OF now]])
qed

lemma bank_room_kept:
  assumes "channel_ok e" and "cycle_ok now" and "l + 1 \<le> unat (WL (me_cfg e)) + burst_cycles e"
    and "bs_state m = RowActive \<Longrightarrow> room (Suc (unat now)) l (unat (WL (me_cfg e))) (next_write m)"
  shows "bs_state (own_rank_effect (me_cfg e) now p j m) = RowActive
      \<Longrightarrow> room (Suc (unat now)) l (unat (WL (me_cfg e))) (next_write (own_rank_effect (me_cfg e) now p j m))"
    and "bs_state m = RowActive
      \<Longrightarrow> room (Suc (unat now)) l (unat (WL (me_cfg e))) (next_write (other_rank_effect (me_cfg e) now p m))"
  using assms row_delay [OF assms(1-3) opens_row] room_mono [OF assms(4) own_rank_mono(2)]
    room_mono [OF assms(4) other_rank_mono(2)] by blast+

lemma bank_room_write:
  assumes c: "channel_ok e" and now: "cycle_ok now" and w: "ptype p = WRITE"
  shows "room (Suc (unat now)) (lat + burst_cycles e) lat (next_write (own_rank_effect (me_cfg e) now p j m))"
    and "bs_state m = RowActive \<Longrightarrow> room (Suc (unat now)) (lat + burst_cycles e) lat (next_write (other_rank_effect (me_cfg e) now p m))"
proof -
  note later = room_later [OF cycle_okD(1) [OF now]]
  obtain d where d: "BL (me_cfg e) div 2 \<le> d" "later now d \<le> next_write (own_rank_effect (me_cfg e) now p j m)"
    using write_delays(1) [OF w] by blast
  then show "room (Suc (unat now)) (lat + burst_cycles e) lat (next_write (own_rank_effect (me_cfg e) now p j m))"
    using later by (simp add: burst_word [symmetric] word_le_nat_alt)
  assume "bs_state m = RowActive"
  from write_delays(2) [OF w this] have "later now (BL (me_cfg e) div 2 + tRTRS (me_cfg e)) \<le> next_write (other_rank_effect (me_cfg e) now p m)" .
  moreover have "unat (BL (me_cfg e) div 2) + unat (tRTRS (me_cfg e)) < 2 ^ 32" using c by (simp add: channel_ok_def Let_def burst_word)
  then have "burst_cycles e \<le> unat (BL (me_cfg e) div 2 + tRTRS (me_cfg e))" by (simp add: unat_plus_if' burst_word)
  ultimately show "room (Suc (unat now)) (lat + burst_cycles e) lat (next_write (other_rank_effect (me_cfg e) now p m))"
    using later by blast
qed

lemma open_room_effect:
  assumes "\<And>m j. (bs_state m = RowActive \<longrightarrow> room n l lat (next_write m))
      \<Longrightarrow> bs_state (own_rank_effect c now p j m) = RowActive \<Longrightarrow> room n l' lat (next_write (own_rank_effect c now p j m))"
    and "\<And>m. room n l lat (next_write m) \<Longrightarrow> bs_state m = RowActive \<Longrightarrow> room n l' lat (next_write (other_rank_effect c now p m))"
    and "open_room n l lat t"
  shows "open_room n l' lat (effect_table c now p t)"
  unfolding open_room_def
proof (intro allI impI)
  fix i j assume i: "i < length (effect_table c now p t)" and j: "j < length (effect_table c now p t ! i)"
    and a: "bs_state (effect_table c now p t ! i ! j) = RowActive"
  have it: "i < length t" using i by (simp add: effect_table_def)
  then have jt: "j < length (t ! i)" using j effect_table_nth [OF it, of c now p] by (auto simp: own_row_def split: if_splits)
  have old: "bs_state (t ! i ! j) = RowActive \<longrightarrow> room n l lat (next_write (t ! i ! j))"
    using assms(3) it jt by (simp add: open_room_def)
  show "room n l' lat (next_write (effect_table c now p t ! i ! j))"
  proof (cases "i = unat (prank p)")
    case True
    then have "effect_table c now p t ! i = own_row c now p (t ! i)" using effect_table_nth [OF it] by simp
    then show ?thesis using assms(1) [OF old, of j] a jt by (simp add: own_row_def)
  next
    case False
    then show ?thesis using assms(2) [of "t ! i ! j"] old a jt by (simp add: effect_table_nth [OF it])
  qed
qed

text \<open>The controller after the command.\<close>

definition after_issue :: "dram_config \<Rightarrow> bus_packet \<Rightarrow> cmd_queue \<Rightarrow> mem_ctrl \<Rightarrow> mem_ctrl" where
  "after_issue c p q m =
     (let m1 = (if ptype p = WRITE
                then m\<lparr>mc_write_data := mc_write_data m @ [data_packet p], mc_write_left := mc_write_left m @ [WL c]\<rparr> else m) in
      m1\<lparr>mc_queue := q, mc_banks := effect_table c (mc_clock m) p (mc_banks m),
        mc_reads := (if ptype p = READ then mc_reads m + 1 else mc_reads m),
        mc_writes := (if ptype p = WRITE then mc_writes m + 1 else mc_writes m), mc_cmd := Some p, mc_cmd_left := tCMD c\<rparr>)"

lemma issue_command_eq:
  assumes "pop c (mc_banks (ms_ctrl s)) (rank_modes_of s) (mc_queue (ms_ctrl s)) = Inr (Some p, q)"
    and "mc_cmd (ms_ctrl s) = None" and "ptype p \<noteq> DATA" "ptype p \<noteq> RFCSB" and "table_ok c (mc_banks (ms_ctrl s))" and "in_range c p"
  shows "issue_command c s = Inr (s\<lparr>ms_ctrl := after_issue c p q (ms_ctrl s)\<rparr>)"
  using assms table_at_ok [OF assms(5), of "prank p" "unat (pbank p)"]
  by (simp add: issue_command_def upd_ctrl_def update_command_queue_def command_effect_def after_issue_def Let_def
      effect_table_def in_range_def cong: if_cong)

lemma data_bus_issued:
  assumes c: "channel_ok e" and now: "cycle_ok now" "mc_clock m = now" and d: "data_bus_ok e (Suc (unat now)) 1 m"
    and t: "table_ok (me_cfg e) (mc_banks m)" and f: "issue_facts e now (mc_banks m) p (mc_queue m) q"
  shows "data_bus_ok e (Suc (unat now)) 0 (after_issue (me_cfg e) p q m)"
proof -
  let ?c = "me_cfg e" and ?h = "burst_cycles e" and ?n = "Suc (unat now)" and ?W = "unat (WL (me_cfg e))"
  let ?m = "after_issue ?c p q m" and ?l = "write_lag e m"
  have bf: "bus_free ?m = bus_free m" by (auto simp: after_issue_def bus_free_def Let_def)
  have bk: "mc_banks ?m = effect_table ?c now p (mc_banks m)" by (simp add: after_issue_def Let_def now(2))
  have d: "data_ok e m" "waits ?h (bus_free m) (map unat (mc_write_left m))" "?l + 1 \<le> ?W + ?h" "open_room ?n ?l ?W (mc_banks m)"
    using d by (simp_all add: data_bus_ok_def)
  have p: "issued e p" using f by (simp add: issue_facts_def)
  have dok: "data_ok e ?m"
    using d(1) p by (auto simp: data_ok_def after_issue_def Let_def data_packet_def issued_def in_range_def)
  show ?thesis
  proof (cases "ptype p = WRITE")
    case True
    then have wl: "map unat (mc_write_left ?m) = map unat (mc_write_left m) @ [?W]" by (simp add: after_issue_def Let_def)
    have "may_issue WRITE (prow p) now (mc_banks m ! unat (prank p) ! unat (pbank p))" using f True by (auto simp: issue_facts_def)
    moreover have "unat (prank p) < length (mc_banks m)" "unat (pbank p) < length (mc_banks m ! unat (prank p))"
      using p t by (simp_all add: issued_def in_range_def table_ok_def)
    ultimately have "room ?n ?l ?W (next_write (mc_banks m ! unat (prank p) ! unat (pbank p)))"
      "next_write (mc_banks m ! unat (prank p) ! unat (pbank p)) \<le> now" using d(4) by (auto simp: open_room_def may_issue_def)
    then have "?l \<le> ?W" by (rule room_now)
    moreover have "0 < ?W" using c by (simp add: channel_ok_def Let_def)
    ultimately have "waits ?h (bus_free ?m) (map unat (mc_write_left ?m))" "write_lag e ?m = ?W + ?h"
      using d(2) unfolding write_lag_def bf wl by (simp_all add: waits_append free_at_append)
    moreover have "open_room ?n (?W + ?h) ?W (mc_banks ?m)"
      unfolding bk by (rule open_room_effect [OF _ _ d(4)]) (use bank_room_write [OF c now(1) True] in blast)+
    ultimately show ?thesis using dok by (simp add: data_bus_ok_def)
  next
    case False
    then have wl: "mc_write_left ?m = mc_write_left m" by (simp add: after_issue_def Let_def)
    have "open_room ?n ?l ?W (mc_banks ?m)"
      unfolding bk by (rule open_room_effect [OF _ _ d(4)]) (use bank_room_kept [OF c now(1) d(3)] in blast)+
    then show ?thesis using dok d(2,3) by (simp add: data_bus_ok_def write_lag_def bf wl)
  qed
qed

lemma data_bus_weaken: "data_bus_ok e n 1 m \<Longrightarrow> data_bus_ok e n 0 m"
  by (simp add: data_bus_ok_def)

lemma map_banks_table: "table_ok c t \<Longrightarrow> table_ok c (effect_table c' now p t)"
  by (simp add: effect_table_def map_banks_ok)

lemma issue_stage:
  assumes c: "channel_ok e" and now: "cycle_ok now" and inv: "chan_inv e now a (Suc (unat now)) x (Suc (unat now)) 1 s"
    and none: "mc_cmd (ms_ctrl s) = None"
  shows "\<exists>s'. issue_command (me_cfg e) s = Inr s' \<and> chan_inv e now (now + 1) (Suc (unat now)) 1 (Suc (unat now)) 0 s' \<and> same_work s s'"
proof -
  let ?c = "me_cfg e" and ?m = "ms_ctrl s" and ?n = "Suc (unat now)"
  let ?q = "mc_queue ?m" and ?t = "mc_banks ?m"
  have q: "cq_ok ?c ?q" "cq_clock ?q = now" "\<forall>p \<in> set (all_packets ?q). plain_packet e p" and t: "table_ok ?c ?t"
    and clk: "mc_clock ?m = now" and r: "ranks_ok e now a ?n x None ?t (ms_ranks s)" and d: "data_bus_ok e ?n 1 ?m"
    using inv none by (simp_all add: chan_inv_def cmds_ok_def ctrl_sizes_def Let_def)
  have "length (rank_modes_of s) = ranks_of ?c" using r by (simp add: rank_modes_of_def ranks_ok_def)
  from pop_defined [OF q(1) t this] obtain y q' where pop: "pop ?c ?t (rank_modes_of s) ?q = Inr (y, q')" "cq_ok ?c q'" by blast
  note res = pop_result [OF pop(1), unfolded windowed_ok [OF q(1)]]
  show ?thesis
  proof (cases y)
    case None
    then have same: "all_packets q' = all_packets ?q" "cq_clock q' = now"
      using res q(2) by (simp_all add: scanned_def same_issue_def all_packets_def)
    have "ranks_ok e now (now + 1) ?n 1 None ?t (ms_ranks s)"
      using r by (simp add: ranks_ok_def read_bus_ok_def read_lag_def agrees_def)
    moreover have "data_bus_ok e ?n 0 (?m\<lparr>mc_queue := q'\<rparr>)" by (rule data_bus_weaken) (use d in simp)
    moreover have "issue_command ?c s = Inr (s\<lparr>ms_ctrl := ?m\<lparr>mc_queue := q'\<rparr>\<rparr>)"
      using pop(1) None by (simp add: issue_command_def upd_ctrl_def)
    moreover have "reads_in (?m\<lparr>mc_queue := q'\<rparr>) rs = reads_in ?m rs" "writes_in (?m\<lparr>mc_queue := q'\<rparr>) = writes_in ?m" for rs
      by (simp_all add: reads_in_def writes_in_def same)
    moreover have "cmds_ok e now (?m\<lparr>mc_queue := q'\<rparr>)" using q pop(2) same none by (simp add: cmds_ok_def)
    ultimately show ?thesis
      using inv none by (simp add: chan_inv_def trans_ok_def same_work_def reads_of_def writes_of_def)
  next
    case (Some p)
    have pp: "popped ?c ?t (rank_modes_of s) p ?q q'" using res Some by simp
    have f: "issue_facts e now ?t p ?q q'" by (rule popped_facts [OF c pp q t r])
    have p: "issued e p" "in_range ?c p" "ptype p \<noteq> DATA" "ptype p \<noteq> RFCSB" using f by (auto simp: issue_facts_def issued_def)
    define m' where "m' = after_issue ?c p q' ?m"
    have eq: "issue_command ?c s = Inr (s\<lparr>ms_ctrl := m'\<rparr>)"
      unfolding m'_def by (rule issue_command_eq [OF _ none p(3,4) t p(2)]) (use pop(1) Some in simp)
    have ms: "mset (all_packets ?q) = (if ptype p = READ \<or> ptype p = WRITE then {#p#} else {#}) + mset (all_packets q')"
      using f by (simp add: issue_facts_def)
    have sub: "set (all_packets q') \<subseteq> set (all_packets ?q)" using arg_cong [OF ms, of set_mset] by (auto split: if_splits)
    have ck: "cq_clock q' = now" using pp q(2) by (simp add: popped_def same_issue_def)
    have tc: "tCMD ?c = 1" using c by (simp add: channel_ok_def Let_def)
    have "cmds_ok e now m'" using pop(2) ck sub q(3) p(1) tc by (auto simp: m'_def cmds_ok_def after_issue_def Let_def)
    moreover have "ctrl_sizes e now m'"
      using inv map_banks_table [OF t] by (simp add: chan_inv_def ctrl_sizes_def Let_def m'_def after_issue_def)
    moreover have "ranks_ok e now (now + 1) ?n 1 (mc_cmd m') (mc_banks m') (ms_ranks s)"
      using ranks_issued [OF c now r t f] by (simp add: m'_def after_issue_def Let_def clk)
    moreover have "data_bus_ok e ?n 0 m'" unfolding m'_def by (rule data_bus_issued [OF c now clk d t f])
    moreover have "reads_in m' rs = reads_in ?m rs" "writes_in m' = writes_in ?m" for rs
      using ms none by (simp_all add: reads_in_def writes_in_def packet_addrs_mset m'_def after_issue_def Let_def data_packet_def ac_simps)
    moreover have "mc_transactions m' = mc_transactions ?m" "mc_pending m' = mc_pending ?m"
      by (simp_all add: m'_def after_issue_def Let_def)
    ultimately show ?thesis
      using inv eq by (intro exI [of _ "s\<lparr>ms_ctrl := m'\<rparr>"]) (simp add: chan_inv_def trans_ok_def same_work_def reads_of_def writes_of_def)
  qed
qed

end
