(* ===== verification/MemSystem.thy ===== *)
theory MemSystem
  imports MemIssue
begin

text \<open>
  The channel in operation: turning transactions into commands and returning data keep the invariant of theory
  \<^verbatim>\<open>MemRun\<close> as well, so no cycle ends in an error, and every read and write accepted is either done or on its way.
\<close>

section \<open>Transactions become commands\<close>

lemma queue_room:
  assumes "cq_shape c q" and "unat r < ranks_of c" and "has_room_for c 1 r b q = Inr True"
  shows "get_command_queue r b q = Inr (queues q ! unat r ! 0)" and "length (queues q ! unat r ! 0) < unat (CMD_QUEUE_DEPTH c)"
    and "unat r < length (queues q)" and "0 < length (queues q ! unat r)"
proof -
  let ?xs = "queues q ! unat r ! 0"
  show g: "get_command_queue r b q = Inr ?xs" using queue_at [OF assms(1,2)] .
  show r: "unat r < length (queues q)" using assms(1,2) by (simp add: cq_shape_def)
  then have "queues q ! unat r \<in> set (queues q)" by simp
  then have ne: "queues q ! unat r \<noteq> []" using assms(1) by (simp add: cq_shape_def)
  then show "0 < length (queues q ! unat r)" by simp
  then have "?xs \<in> set (queues q ! unat r)" by simp
  then have len: "length ?xs \<le> unat (CMD_QUEUE_DEPTH c)"
    using assms(1) \<open>queues q ! unat r \<in> set (queues q)\<close> unfolding cq_shape_def by blast
  have "length ?xs \<noteq> unat (CMD_QUEUE_DEPTH c)"
  proof
    assume "length ?xs = unat (CMD_QUEUE_DEPTH c)"
    then have "(of_nat (length ?xs) :: u64) = ucast (CMD_QUEUE_DEPTH c)" by (simp add: unsigned_ucast_eq)
    then show False using assms(3) g by (simp add: has_room_for_def)
  qed
  with len show "length ?xs < unat (CMD_QUEUE_DEPTH c)" by simp
qed

lemma enqueue_ok:
  assumes q: "cq_ok c q" and p: "column_packet c p" and room: "has_room_for c 1 (prank p) (pbank p) q = Inr True"
  shows "\<exists>q'. enqueue c p q = Inr q' \<and> cq_ok c q' \<and> mset (all_packets q') = add_mset p (mset (all_packets q)) \<and> cq_clock q' = cq_clock q"
proof -
  let ?r = "unat (prank p)"
  let ?row = "queues q ! ?r" and ?xs = "queues q ! ?r ! 0"
  have sh: "cq_shape c q" and r: "?r < ranks_of c" using q p by (simp_all add: cq_ok_def column_packet_def in_range_def)
  note rm = queue_room [OF sh r room]
  have st: "queue_index (pbank p) q = 0" using sh by (simp add: queue_index_def cq_shape_def)
  define q' where "q' = put_command_queue (prank p) (pbank p) (?xs @ [p]) q"
  have eq: "queues q' = (queues q)[?r := ?row[0 := ?xs @ [p]]]" by (simp add: q'_def put_command_queue_def st)
  have "enqueue c p q = Inr q'" using rm(1,2) by (simp add: enqueue_def q'_def)
  moreover have "mset (all_packets q') = add_mset p (mset (all_packets q))"
  proof -
    have "concat (concat xs) = concat (map concat xs)" for xs :: "bus_packet list list list" by (induction xs) simp_all
    moreover have "mset (concat (?row[0 := ?xs @ [p]])) = add_mset p (mset (concat ?row))"
      using mset_update [OF rm(4), of "?xs @ [p]"] by simp
    moreover have "mset (concat ((map concat (queues q))[?r := concat (?row[0 := ?xs @ [p]])])) + mset (concat ?row)
        = mset (concat (map concat (queues q))) + mset (concat (?row[0 := ?xs @ [p]]))"
      using mset_update [of ?r "map concat (queues q)"] rm(3) by simp
    ultimately show ?thesis by (simp add: all_packets_def eq map_update)
  qed
  moreover have "cq_shape c q'"
  proof -
    have "?row \<in> set (queues q)" using rm(3) by simp
    moreover have "row = ?row[0 := ?xs @ [p]] \<or> row \<in> set (queues q)" if "row \<in> set (queues q')" for row
      using that by (auto simp: eq dest!: set_update_subset_insert [THEN subsetD])
    moreover have "xs = ?xs @ [p] \<or> xs \<in> set ?row" if "xs \<in> set (?row[0 := ?xs @ [p]])" for xs
      using that by (auto dest!: set_update_subset_insert [THEN subsetD])
    moreover have "?row[0 := ?xs @ [p]] \<noteq> []" "length (?xs @ [p]) \<le> unat (CMD_QUEUE_DEPTH c)" using rm(2,4) by auto
    ultimately have "\<forall>row \<in> set (queues q'). row \<noteq> [] \<and> (\<forall>xs \<in> set row. length xs \<le> unat (CMD_QUEUE_DEPTH c))"
      using sh unfolding cq_shape_def by metis
    then show ?thesis using sh by (simp add: cq_shape_def eq) (simp add: q'_def put_command_queue_def)
  qed
  moreover have "set (all_packets q') = insert p (set (all_packets q))" using arg_cong [OF calculation(2), of set_mset] by simp
  ultimately show ?thesis
    using q p by (intro exI [of _ q']) (auto simp: cq_ok_def cq_counters_def q'_def put_command_queue_def)
qed

text \<open>A transaction is scheduled, or nothing changes.\<close>

definition scheduled :: "mem_env \<Rightarrow> transaction list \<Rightarrow> mem_ctrl \<Rightarrow> mem_ctrl \<Rightarrow> bool" where
  "scheduled e ts m m' \<longleftrightarrow> m' = m \<or> (\<exists>pre t post ty co q'. ts = pre @ t # post \<and> plain_packet e (packet_of t ty co)
     \<and> (tr_type t = DATA_READ \<and> ty = READ \<or> tr_type t = DATA_WRITE \<and> ty = WRITE)
     \<and> cq_ok (me_cfg e) q' \<and> mset (all_packets q') = add_mset (packet_of t ty co) (mset (all_packets (mc_queue m)))
     \<and> cq_clock q' = cq_clock (mc_queue m) \<and> m' = m\<lparr>mc_transactions := pre @ post, mc_queue := q',
         mc_pending := (if tr_type t = DATA_READ then mc_pending m @ [t] else mc_pending m)\<rparr>)"

lemma packet_of_plain:
  assumes t: "plain_trans e t" and co: "address_mapping (me_map e) (tr_addr t) = Inr co"
  shows "plain_packet e (packet_of t ty co)" "prank (packet_of t ty co) = co_rank co" "pbank (packet_of t ty co) = co_bank co"
    "unat (co_rank co) < ranks_of (me_cfg e)"
  using assms by (auto simp: plain_trans_def plain_packet_def packet_of_def in_range_def packet_ok_def me_cfg_eq)

lemma schedule_ok:
  "cq_ok (me_cfg e) (mc_queue m) \<Longrightarrow> (\<forall>t \<in> set ts. plain_trans e t)
   \<Longrightarrow> \<exists>m'. schedule_transaction e before ts m = Inr m' \<and> scheduled e (before @ ts) m m'"
proof (induction ts arbitrary: before)
  case Nil
  then show ?case by (simp add: scheduled_def)
next
  case (Cons t ts)
  let ?c = "me_cfg e" and ?q = "mc_queue m"
  have t: "plain_trans e t" using Cons.prems by simp
  then obtain co where co: "address_mapping (me_map e) (tr_addr t) = Inr co" by (auto simp: plain_trans_def)
  note pk = packet_of_plain [OF t co]
  have sh: "cq_shape ?c ?q" using Cons.prems(1) by (simp add: cq_ok_def)
  then obtain ok where ok: "has_room_for ?c 1 (co_rank co) (co_bank co) ?q = Inr ok"
    using queue_at [OF sh pk(4)] by (simp add: has_room_for_def)
  show ?case
  proof (cases ok)
    case False
    then show ?thesis using Cons.IH [of "before @ [t]"] Cons.prems co ok by simp
  next
    case True
    obtain ty where ty: "bus_packet_type t = Inr ty" "tr_type t = DATA_READ \<and> ty = READ \<or> tr_type t = DATA_WRITE \<and> ty = WRITE"
      using t by (auto simp: plain_trans_def bus_packet_type_def)
    let ?p = "packet_of t ty co"
    have "ptype ?p = ty" by (simp add: packet_of_def)
    then have "column_packet ?c ?p" using pk(1) [of ty] ty(2) by (auto simp: column_packet_def plain_packet_def)
    from enqueue_ok [OF Cons.prems(1) this] obtain q' where q': "enqueue ?c ?p ?q = Inr q'" "cq_ok ?c q'"
      "mset (all_packets q') = add_mset ?p (mset (all_packets ?q))" "cq_clock q' = cq_clock ?q"
      using ok True pk(2,3) by auto
    define m' where "m' = m\<lparr>mc_transactions := before @ ts, mc_queue := q',
      mc_pending := (if tr_type t = DATA_READ then mc_pending m @ [t] else mc_pending m)\<rparr>"
    have "schedule_transaction e before (t # ts) m = Inr m'" using co ok True ty(1) q'(1) by (simp add: m'_def)
    moreover have "scheduled e (before @ t # ts) m m'"
      unfolding scheduled_def using pk(1) ty(2) q'(2-4) m'_def by blast
    ultimately show ?thesis by blast
  qed
qed

lemma packet_of_simps [simp]:
  "ptype (packet_of t ty co) = ty" "paddr (packet_of t ty co) = tr_addr t"
  by (simp_all add: packet_of_def mk_packet_def bus_packet_tagged_def)

lemma transaction_stage:
  assumes inv: "chan_inv e now a n x w y s"
  shows "\<exists>s'. lift_ctrl (update_transaction_queue e) s = Inr s' \<and> chan_inv e now a n x w y s' \<and> same_work s s'"
proof -
  let ?m = "ms_ctrl s"
  have pre: "cq_ok (me_cfg e) (mc_queue ?m)" "\<forall>t \<in> set (mc_transactions ?m). plain_trans e t"
    using inv by (simp_all add: chan_inv_def cmds_ok_def trans_ok_def)
  obtain m' where m': "update_transaction_queue e ?m = Inr m'" "scheduled e (mc_transactions ?m) ?m m'"
    using schedule_ok [OF pre, of "[]"] by (auto simp: update_transaction_queue_def)
  then have eq: "lift_ctrl (update_transaction_queue e) s = Inr (s\<lparr>ms_ctrl := m'\<rparr>)" by (simp add: lift_ctrl_def)
  show ?thesis
  proof (cases "m' = ?m")
    case True
    then show ?thesis using eq inv by (simp add: same_work_refl)
  next
    case False
    then obtain before t after ty co q' where f: "mc_transactions ?m = before @ t # after" "plain_packet e (packet_of t ty co)"
      "tr_type t = DATA_READ \<and> ty = READ \<or> tr_type t = DATA_WRITE \<and> ty = WRITE" "cq_ok (me_cfg e) q'"
      "mset (all_packets q') = add_mset (packet_of t ty co) (mset (all_packets (mc_queue ?m)))" "cq_clock q' = cq_clock (mc_queue ?m)"
      "m' = ?m\<lparr>mc_transactions := before @ after, mc_queue := q',
         mc_pending := (if tr_type t = DATA_READ then mc_pending ?m @ [t] else mc_pending ?m)\<rparr>"
      using m'(2) unfolding scheduled_def by blast
    have "set (all_packets q') = insert (packet_of t ty co) (set (all_packets (mc_queue ?m)))" using arg_cong [OF f(5), of set_mset] by simp
    then have "cmds_ok e now m'" using inv f(2,4,6) by (auto simp: chan_inv_def cmds_ok_def f(7))
    moreover have rd: "reads_in m' rs = (if ty = READ then {#tr_addr t#} else {#}) + reads_in ?m rs"
      and wr: "writes_in m' = (if ty = WRITE then {#tr_addr t#} else {#}) + writes_in ?m" for rs
      by (simp_all add: reads_in_def writes_in_def packet_addrs_mset f(5,7))
    have "plain_trans e t" using inv f(1) by (simp add: chan_inv_def trans_ok_def)
    moreover have "trans_ok e (s\<lparr>ms_ctrl := m'\<rparr>)"
      using inv f(1,3) by (auto simp: chan_inv_def trans_ok_def rd wr) (auto simp: f(7))
    moreover have "same_work s (s\<lparr>ms_ctrl := m'\<rparr>)"
      using f(1,3) by (auto simp: same_work_def reads_of_def writes_of_def wr) (auto simp: f(7) ac_simps)
    ultimately show ?thesis using inv eq by (intro exI [of _ "s\<lparr>ms_ctrl := m'\<rparr>"]) (simp add: chan_inv_def f(7))
  qed
qed

section \<open>Returning data\<close>

lemma take_pending_ok:
  "a \<in> tr_addr ` set ts \<Longrightarrow> \<exists>t us. take_pending a ts = Some (t, us) \<and> tr_addr t = a \<and> mset ts = add_mset t (mset us)"
  by (induction ts) auto

lemma histogram_index:
  assumes "channel_ok e" and "unat r < ranks_of (me_cfg e)" and "unat b < banks_of (me_cfg e)"
  shows "unat (r * NUM_BANKS (me_cfg e) + b) < ranks_of (me_cfg e) * banks_of (me_cfg e)"
proof -
  let ?R = "ranks_of (me_cfg e)" and ?B = "banks_of (me_cfg e)"
  have "unat r * ?B + unat b < Suc (unat r) * ?B" using assms(3) by simp
  also have "\<dots> \<le> ?R * ?B" using assms(2) by (intro mult_le_mono) simp_all
  finally have l: "unat r * ?B + unat b < ?R * ?B" .
  moreover have "?R * ?B < 2 ^ 32" using assms(1) by (simp add: channel_ok_def Let_def)
  moreover have "unat (r * NUM_BANKS (me_cfg e) + b) \<le> unat r * ?B + unat b"
    by (simp add: unat_word_ariths banks_of_def mod_add_left_eq)
  ultimately show ?thesis by simp
qed

lemma insert_histogram_ok:
  assumes "channel_ok e" and "unat r < ranks_of (me_cfg e)" and "unat b < banks_of (me_cfg e)" and "ctrl_sizes e now m"
  shows "\<exists>h l. insert_histogram e lat r b m = Inr (m\<lparr>mc_epoch_latency := h, mc_latencies := l\<rparr>) \<and> length h = length (mc_epoch_latency m)"
  using histogram_index [OF assms(1-3)] assms(1,4)
  by (auto simp: insert_histogram_def Let_def ctrl_sizes_def channel_ok_def vec_get_def)

lemma return_stage:
  assumes c: "channel_ok e" and inv: "chan_inv e now a n x w y s"
  shows "\<exists>s'. return_data e s = Inr s' \<and> chan_inv e now a n x w y s' \<and> same_work s s'"
proof (cases "mc_return (ms_ctrl s)")
  case Nil
  with inv show ?thesis by (simp add: return_data_def same_work_refl)
next
  case (Cons r rest)
  let ?m = "ms_ctrl s"
  let ?m1 = "?m\<lparr>mc_total := mc_total ?m + 1\<rparr>"
  have "mset (map tr_addr (mc_pending ?m)) = reads_in ?m (ms_ranks s)" using inv by (simp add: chan_inv_def trans_ok_def)
  then have "tr_addr r \<in># mset (map tr_addr (mc_pending ?m))" unfolding reads_in_def Cons by simp
  then have "tr_addr r \<in> tr_addr ` set (mc_pending ?m)" by auto
  from take_pending_ok [OF this] obtain t ts where t: "take_pending (tr_addr r) (mc_pending ?m) = Some (t, ts)" "tr_addr t = tr_addr r"
    "mset (mc_pending ?m) = add_mset t (mset ts)" by blast
  have st: "set (mc_pending ?m) = insert t (set ts)" using arg_cong [OF t(3), of set_mset] by simp
  then have "plain_trans e t" using inv by (simp add: chan_inv_def trans_ok_def)
  then obtain co where co: "address_mapping (me_map e) (tr_addr r) = Inr co" "unat (co_rank co) < ranks_of (me_cfg e)"
    "unat (co_bank co) < banks_of (me_cfg e)" using t(2) by (auto simp: plain_trans_def)
  have "ctrl_sizes e now ?m1" using inv by (simp add: chan_inv_def)
  from insert_histogram_ok [OF c co(2,3) this, of "ucast (mc_clock ?m - tr_added t)"] obtain h l where
    h: "insert_histogram e (ucast (mc_clock ?m - tr_added t)) (co_rank co) (co_bank co) ?m1
        = Inr (?m1\<lparr>mc_epoch_latency := h, mc_latencies := l\<rparr>)" "length h = length (mc_epoch_latency ?m)" by auto
  define m' where "m' = ?m1\<lparr>mc_epoch_latency := h, mc_latencies := l, mc_pending := ts, mc_return := rest\<rparr>"
  define s' where "s' = s\<lparr>ms_ctrl := m', ms_events := ReadDone (tr_addr t) (mc_clock ?m) # ms_events s, ms_in_flight := ms_in_flight s - 1\<rparr>"
  have "return_data e s = Inr s'"
    using Cons t(1) co(1) h(1) by (simp add: return_data_def upd_ctrl_def Let_def s'_def m'_def)
  moreover have "ctrl_sizes e now m'" using inv h(2) by (simp add: chan_inv_def ctrl_sizes_def Let_def m'_def)
  moreover have rd: "reads_in ?m rs = add_mset (tr_addr r) (reads_in m' rs)" for rs by (simp add: reads_in_def Cons m'_def)
  have tr: "mset (map tr_addr ts) = reads_in m' (ms_ranks s)"
    using inv rd t(2,3) by (simp add: chan_inv_def trans_ok_def)
  have "length (mc_pending ?m) = Suc (length ts)" using arg_cong [OF t(3), of size] by simp
  then have "trans_ok e s'"
    using inv st tr by (auto simp: chan_inv_def trans_ok_def s'_def m'_def)
  moreover have "same_work s s'"
    using t(2,3) by (simp add: same_work_def reads_of_def writes_of_def s'_def m'_def)
  ultimately show ?thesis using inv by (intro exI [of _ s']) (simp add: chan_inv_def s'_def m'_def)
qed

section \<open>A cycle\<close>

lemma rank_clock [simp]:
  "rank_free (k\<lparr>clock := n\<rparr>) = rank_free k" "read_line e x cmd i (k\<lparr>clock := n\<rparr>) = read_line e x cmd i k"
  by (simp_all add: rank_free_def read_line_def)

lemma queue_clock [simp]:
  "all_packets (q\<lparr>cq_clock := n\<rparr>) = all_packets q" "cq_ok c (q\<lparr>cq_clock := n\<rparr>) = cq_ok c q"
  by (simp_all add: all_packets_def cq_ok_def cq_shape_def cq_counters_def)

lemma clock_stage:
  assumes now: "cycle_ok now" and inv: "chan_inv e now (now + 1) (Suc (unat now)) 1 (Suc (unat now)) 0 s"
  shows "chan_inv e (now + 1) (now + 1) (unat (now + 1)) 1 (unat (now + 1)) 0 (step_clocks (upd_ctrl count_down s))
    \<and> same_work s (step_clocks (upd_ctrl count_down s))"
proof -
  let ?m = "ms_ctrl s" and ?rs = "ms_ranks s"
  define m' where "m' = (count_down ?m)\<lparr>mc_clock := now + 1\<rparr>"
  have clk: "mc_clock ?m = now" "cq_clock (mc_queue ?m) = now"
    using inv by (simp_all add: chan_inv_def ctrl_sizes_def cmds_ok_def Let_def)
  have "ranks_ok e (now + 1) (now + 1) (Suc (unat now)) 1 (mc_cmd ?m) (mc_banks ?m) (map rank_step_clock ?rs)"
    unfolding ranks_ok_def
  proof (intro conjI allI impI)
    show "length (map rank_step_clock ?rs) = ranks_of (me_cfg e)" using inv by (simp add: chan_inv_def ranks_ok_def)
    fix i assume i: "i < length (map rank_step_clock ?rs)"
    let ?k = "?rs ! i"
    have old: "rank_ok e now ?k" "read_bus_ok e (Suc (unat now)) 1 (mc_cmd ?m) i (mc_banks ?m ! i) ?k"
      "agrees e (now + 1) (mc_cmd ?m) i (mc_banks ?m ! i) ?k" using inv i by (simp_all add: chan_inv_def ranks_ok_def)
    have k': "map rank_step_clock ?rs ! i = ?k\<lparr>clock := now + 1\<rparr>" using i old(1) by (simp add: rank_step_clock_def rank_ok_def)
    show "rank_ok e (now + 1) (map rank_step_clock ?rs ! i)" unfolding k' using old(1) by (simp add: rank_ok_def)
    show "read_bus_ok e (Suc (unat now)) 1 (mc_cmd ?m) i (mc_banks ?m ! i) (map rank_step_clock ?rs ! i)"
      unfolding k' using old(2) by (simp add: read_bus_ok_def read_lag_def)
    show "agrees e (now + 1) (mc_cmd ?m) i (mc_banks ?m ! i) (map rank_step_clock ?rs ! i)"
      unfolding k' using old(3) expects_cong [of "me_pim e" "now + 1" _ "mc_banks ?m ! i" ?k "?k\<lparr>clock := now + 1\<rparr>"]
      by (auto simp: agrees_def split: option.splits)
  qed
  moreover have "ctrl_sizes e (now + 1) m'"
    using inv by (simp add: chan_inv_def m'_def count_down_def ctrl_sizes_def Let_def)
  moreover have "cmds_ok e (now + 1) m'"
    using inv clk(2) by (simp add: chan_inv_def m'_def count_down_def cmds_ok_def)
  moreover have "data_bus_ok e (Suc (unat now)) 0 m'"
    using inv by (simp add: chan_inv_def m'_def count_down_def)
  moreover have "reads_in m' rs = reads_in ?m rs" "writes_in m' = writes_in ?m" for rs
    by (simp_all add: m'_def count_down_def reads_in_def writes_in_def)
  moreover have "rank_reads \<circ> rank_step_clock = rank_reads" by (simp add: fun_eq_iff rank_reads_def rank_step_clock_def)
  then have "rank_load (map rank_step_clock ?rs) = rank_load ?rs" by (simp add: rank_load_def)
  then have "reads_in ?m (map rank_step_clock ?rs) = reads_in ?m ?rs" by (simp add: reads_in_def)
  moreover have "step_clocks (upd_ctrl count_down s)
      = s\<lparr>ms_ranks := map rank_step_clock ?rs, ms_ctrl := m', ms_clock := ms_clock s + 1\<rparr>"
    using clk by (simp add: step_clocks_def upd_ctrl_def m'_def count_down_def)
  moreover have "mc_cmd m' = mc_cmd ?m" "mc_banks m' = mc_banks ?m" "mc_transactions m' = mc_transactions ?m"
    "mc_pending m' = mc_pending ?m" by (simp_all add: m'_def count_down_def)
  ultimately show ?thesis
    using inv cycle_okD(3) [OF now]
    by (simp add: chan_inv_def trans_ok_def same_work_def reads_of_def writes_of_def)
qed

text \<open>The invariant between two cycles.\<close>

definition channel_inv :: "mem_env \<Rightarrow> u64 \<Rightarrow> mem_system \<Rightarrow> bool" where
  "channel_inv e now s \<longleftrightarrow> chan_inv e now now (unat now) 1 (unat now) 0 s"

lemma update_ok:
  assumes c: "channel_ok e" and now: "cycle_ok now" and inv: "channel_inv e now s"
  shows "\<exists>s'. mem_system_update e s = Inr s' \<and> channel_inv e (now + 1) s' \<and> same_work s s'"
proof -
  let ?n = "Suc (unat now)"
  obtain s1 where 1: "update_ranks e (ranks_of (me_cfg e)) s = Inr s1" "chan_inv e now now ?n 0 (unat now) 0 s1" "same_work s s1"
    using ranks_stage [OF c inv [unfolded channel_inv_def]] by blast
  define s2 where "s2 = accept_waiting (me_cfg e) s1"
  have 2: "chan_inv e now now ?n 0 (unat now) 0 s2" "same_work s1 s2" using accept_stage [OF 1(2)] by (simp_all add: s2_def)
  define t2 where "t2 = upd_ctrl update_bank_state s2"
  have t2: "chan_inv e now now ?n 0 (unat now) 0 t2" "same_work s2 t2" using tick_stage [OF 2(1)] by (simp_all add: t2_def)
  obtain s3 where 3: "deliver_command e t2 = Inr s3" "chan_inv e now now ?n 1 (unat now) 0 s3" "mc_cmd (ms_ctrl s3) = None"
    "same_work t2 s3"
    using deliver_stage [OF t2(1), of now 1] by blast
  obtain s4 s5 where 5: "deliver_data e s3 = Inr s4" "lift_ctrl (send_write_data (me_cfg e)) s4 = Inr s5"
    "chan_inv e now now ?n 1 ?n 1 s5" "same_work s3 s5" "mc_cmd (ms_ctrl s5) = mc_cmd (ms_ctrl s3)"
    using data_stage [OF c 3(2)] by blast
  obtain s6 where 6: "update_refresh (me_cfg e) s5 = Inr s6" "chan_inv e now now ?n 1 ?n 1 s6" "same_work s5 s6"
    "mc_cmd (ms_ctrl s6) = mc_cmd (ms_ctrl s5)"
    using refresh_stage [OF c 5(3)] by blast
  have none: "mc_cmd (ms_ctrl s6) = None" using 3(3) 5(5) 6(4) by simp
  obtain s7 where 7: "issue_command (me_cfg e) s6 = Inr s7" "chan_inv e now (now + 1) ?n 1 ?n 0 s7" "same_work s6 s7"
    using issue_stage [OF c now 6(2) none] by blast
  obtain s8 where 8: "lift_ctrl (update_transaction_queue e) s7 = Inr s8" "chan_inv e now (now + 1) ?n 1 ?n 0 s8" "same_work s7 s8"
    using transaction_stage [OF 7(2)] by blast
  obtain s9 where 9: "return_data e s8 = Inr s9" "chan_inv e now (now + 1) ?n 1 ?n 0 s9" "same_work s8 s9"
    using return_stage [OF c 8(2)] by blast
  define s10 where "s10 = step_clocks (upd_ctrl count_down s9)"
  have 10: "channel_inv e (now + 1) s10" "same_work s9 s10" using clock_stage [OF now 9(2)] by (simp_all add: s10_def channel_inv_def)
  have "mem_system_update e s = Inr s10"
    using 1(1) 3(1) 5(1,2) 6(1) 7(1) 8(1) 9(1) by (simp add: mem_system_update_def mem_ctrl_update_def s2_def t2_def s10_def)
  moreover have "same_work s s10"
    using 1(3) 2(2) t2(2) 3(4) 5(4) 6(3) 7(3) 8(3) 9(3) 10(2) by (simp add: same_work_def)
  ultimately show ?thesis using 10(1) by blast
qed

section \<open>Runs of a channel\<close>

datatype mem_op = AddTransaction transaction | AddBarrier | Update

fun mem_op_step :: "mem_env \<Rightarrow> mem_op \<Rightarrow> mem_system \<Rightarrow> mem_system result" where
  "mem_op_step e (AddTransaction t) s = Inr (snd (ms_add_transaction (me_cfg e) t s))"
| "mem_op_step e AddBarrier s = Inr (snd (ms_add_barrier (me_cfg e) s))"
| "mem_op_step e Update s = mem_system_update e s"

fun run_mem :: "mem_env \<Rightarrow> mem_op list \<Rightarrow> mem_system \<Rightarrow> mem_system result" where
  "run_mem e [] s = Inr s"
| "run_mem e (op # ops) s = rbind (mem_op_step e op s) (run_mem e ops)"

fun mem_op_ok :: "mem_env \<Rightarrow> mem_op \<Rightarrow> bool" where
  "mem_op_ok e (AddTransaction t) = plain_trans e t"
| "mem_op_ok e _ = True"

text \<open>The addresses of the transactions of a type that were handed in.\<close>

fun op_addrs :: "trans_type \<Rightarrow> mem_op list \<Rightarrow> u64 multiset" where
  "op_addrs ty [] = {#}"
| "op_addrs ty (AddTransaction t # ops) = (if tr_type t = ty then {#tr_addr t#} else {#}) + op_addrs ty ops"
| "op_addrs ty (_ # ops) = op_addrs ty ops"

lemma add_ok:
  assumes "channel_inv e now s" and "plain_trans e t"
  shows "channel_inv e now (snd (ms_add_transaction (me_cfg e) t s))"
    and "reads_of (snd (ms_add_transaction (me_cfg e) t s)) = op_addrs DATA_READ [AddTransaction t] + reads_of s"
    and "writes_of (snd (ms_add_transaction (me_cfg e) t s)) = op_addrs DATA_WRITE [AddTransaction t] + writes_of s"
proof -
  obtain ok s' where a: "mc_add_transaction (me_cfg e) t s = (ok, s')" by fastforce
  from add_transaction_inv [OF assms(1) [unfolded channel_inv_def] assms(2) a]
  show "channel_inv e now (snd (ms_add_transaction (me_cfg e) t s))"
    using assms a by (auto simp: ms_add_transaction_def channel_inv_def chan_inv_def trans_ok_def)
  show "reads_of (snd (ms_add_transaction (me_cfg e) t s)) = op_addrs DATA_READ [AddTransaction t] + reads_of s"
    "writes_of (snd (ms_add_transaction (me_cfg e) t s)) = op_addrs DATA_WRITE [AddTransaction t] + writes_of s"
    by (auto simp: ms_add_transaction_def mc_add_transaction_def upd_ctrl_def reads_of_def writes_of_def ac_simps)
qed

lemma tagged_last:
  fixes ts :: "transaction list" and g :: string
  assumes "ts \<noteq> []"
  defines "us \<equiv> butlast ts @ [(last ts)\<lparr>tr_tag := g\<rparr>]"
  shows "trans_addrs ty us = trans_addrs ty ts" and "length us = length ts" and "(\<forall>t \<in> set us. plain_trans e t) = (\<forall>t \<in> set ts. plain_trans e t)"
proof -
  obtain t vs where ts: "ts = vs @ [t]" using assms(1) by (cases ts rule: rev_cases) auto
  show "trans_addrs ty us = trans_addrs ty ts" "length us = length ts" "(\<forall>t \<in> set us. plain_trans e t) = (\<forall>t \<in> set ts. plain_trans e t)"
    by (simp_all add: us_def ts)
qed

lemma retagged_inv:
  assumes "channel_inv e now s" and "length us = length (mc_transactions (ms_ctrl s))"
    and "(\<forall>t \<in> set us. plain_trans e t) = (\<forall>t \<in> set (mc_transactions (ms_ctrl s)). plain_trans e t)"
    and "(\<forall>t \<in> set vs. plain_trans e t) = (\<forall>t \<in> set (ms_waiting s). plain_trans e t)"
    and "\<And>ty. trans_addrs ty us = trans_addrs ty (mc_transactions (ms_ctrl s))" "\<And>ty. trans_addrs ty vs = trans_addrs ty (ms_waiting s)"
  shows "channel_inv e now (s\<lparr>ms_ctrl := (ms_ctrl s)\<lparr>mc_transactions := us\<rparr>, ms_waiting := vs\<rparr>)
    \<and> same_work s (s\<lparr>ms_ctrl := (ms_ctrl s)\<lparr>mc_transactions := us\<rparr>, ms_waiting := vs\<rparr>)"
  using assms by (simp add: channel_inv_def chan_inv_def trans_ok_def same_work_def reads_of_def writes_of_def ball_Un)

lemma barrier_ok:
  assumes "channel_inv e now s"
  shows "channel_inv e now (snd (ms_add_barrier (me_cfg e) s)) \<and> same_work s (snd (ms_add_barrier (me_cfg e) s))"
proof -
  let ?m = "ms_ctrl s"
  define us where "us = (if will_accept (me_cfg e) ?m \<and> mc_transactions ?m \<noteq> []
    then butlast (mc_transactions ?m) @ [(last (mc_transactions ?m))\<lparr>tr_tag := tr_tag (last (mc_transactions ?m)) @ ''BAR''\<rparr>]
    else mc_transactions ?m)"
  define vs where "vs = (if \<not> will_accept (me_cfg e) ?m \<and> ms_waiting s \<noteq> []
    then butlast (ms_waiting s) @ [(last (ms_waiting s))\<lparr>tr_tag := tr_tag (last (ms_waiting s)) @ ''BAR''\<rparr>] else ms_waiting s)"
  have "snd (ms_add_barrier (me_cfg e) s) = s\<lparr>ms_ctrl := ?m\<lparr>mc_transactions := us\<rparr>, ms_waiting := vs\<rparr>"
    by (simp add: ms_add_barrier_def mc_add_barrier_def us_def vs_def)
  moreover have "length us = length (mc_transactions ?m)" "trans_addrs ty us = trans_addrs ty (mc_transactions ?m)"
    "(\<forall>t \<in> set us. plain_trans e t) = (\<forall>t \<in> set (mc_transactions ?m). plain_trans e t)" for ty
    using tagged_last [of "mc_transactions ?m"] by (simp_all add: us_def)
  moreover have "trans_addrs ty vs = trans_addrs ty (ms_waiting s)"
    "(\<forall>t \<in> set vs. plain_trans e t) = (\<forall>t \<in> set (ms_waiting s). plain_trans e t)" for ty
    using tagged_last [of "ms_waiting s"] by (simp_all add: vs_def)
  ultimately show ?thesis using retagged_inv [OF assms] by simp
qed

lemma run_mem_ok:
  assumes c: "channel_ok e"
  shows "channel_inv e now s \<Longrightarrow> list_all (mem_op_ok e) ops \<Longrightarrow> unat now + length ops + 2 ^ 32 \<le> 2 ^ 64
    \<Longrightarrow> \<exists>s' now'. run_mem e ops s = Inr s' \<and> channel_inv e now' s' \<and> reads_of s' = op_addrs DATA_READ ops + reads_of s
      \<and> writes_of s' = op_addrs DATA_WRITE ops + writes_of s"
proof (induction ops arbitrary: now s)
  case (Cons op ops)
  have "\<exists>s1 now1. mem_op_step e op s = Inr s1 \<and> channel_inv e now1 s1 \<and> unat now1 \<le> Suc (unat now)
      \<and> reads_of s1 = op_addrs DATA_READ [op] + reads_of s \<and> writes_of s1 = op_addrs DATA_WRITE [op] + writes_of s"
  proof (cases op)
    case (AddTransaction t)
    then show ?thesis using add_ok [OF Cons.prems(1), of t] Cons.prems(2) by (intro exI conjI) auto
  next
    case AddBarrier
    then show ?thesis using barrier_ok [OF Cons.prems(1)]
      by (intro exI [of _ "snd (ms_add_barrier (me_cfg e) s)"] exI [of _ now]) (simp add: same_work_def)
  next
    case Update
    have now: "cycle_ok now" using Cons.prems(3) by (simp add: cycle_ok_def)
    from update_ok [OF c now Cons.prems(1)] cycle_okD(3) [OF now] Update show ?thesis
      by (auto simp: same_work_def intro!: exI [of _ "now + 1"])
  qed
  then obtain s1 now1 where s1: "mem_op_step e op s = Inr s1" "channel_inv e now1 s1" "unat now1 \<le> Suc (unat now)"
    "reads_of s1 = op_addrs DATA_READ [op] + reads_of s" "writes_of s1 = op_addrs DATA_WRITE [op] + writes_of s" by blast
  have "unat now1 + length ops + 2 ^ 32 \<le> 2 ^ 64" using s1(3) Cons.prems(3) by simp
  from Cons.IH [OF s1(2) _ this] Cons.prems(2) s1 show ?case by (cases op) (auto simp: ac_simps)
qed auto

section \<open>From the start\<close>

lemma concat_replicate_Nil: "concat (replicate n []) = []"
  by (induction n) simp_all

lemma init_queue_ok:
  assumes "channel_ok e"
  shows "cq_ok (me_cfg e) (cmd_queue_init PerRank pol (me_cfg e))" and "all_packets (cmd_queue_init PerRank pol (me_cfg e)) = []"
proof -
  let ?q = "cmd_queue_init PerRank pol (me_cfg e)"
  have "concat (queues ?q) = replicate (length (concat (queues ?q))) []"
    by (rule replicate_eqI) (auto simp: cmd_queue_init_def split: if_splits)
  then show em: "all_packets ?q = []" unfolding all_packets_def by (metis concat_replicate_Nil)
  have "0 < ranks_of (me_cfg e)" "0 < banks_of (me_cfg e)" using assms by (simp_all add: channel_ok_def Let_def)
  then show "cq_ok (me_cfg e) ?q"
    by (simp add: cq_ok_def cq_counters_def em)
      (auto simp: cq_shape_def cmd_queue_init_def table_ok_def ranks_of_def banks_of_def)
qed

lemma init_track: "tracks mc_bank_init bank_state_init"
  by (simp add: tracks_def mc_bank_init_def bank_state_init_def bank_state.defs)

lemma init_rank_ok: "rank_ok e 0 (rank_init junk (me_cfg e))"
  by (cases junk) (simp add: rank_ok_def rank_init_def pim_rank_init_def ahasd_unit_init_def banks_of_def bank_init_def bank_ok_def)

lemma init_inv:
  assumes c: "channel_ok e" and s: "mem_system_init junks PerRank pol (me_cfg e) = Inr s"
  shows "channel_inv e 0 s \<and> reads_of s = {#} \<and> writes_of s = {#}"
proof -
  let ?c = "me_cfg e" and ?m = "ms_ctrl s"
  have m: "ms_ranks s = map (\<lambda>i. rank_init (junks ! i) ?c) [0..<ranks_of ?c]" "ms_waiting s = []" "ms_in_flight s = 0" "ms_events s = []"
    "mc_banks ?m = replicate (ranks_of ?c) (replicate (banks_of ?c) mc_bank_init)" "mc_queue ?m = cmd_queue_init PerRank pol ?c"
    "mc_transactions ?m = []" "mc_cmd ?m = None" "mc_data ?m = None" "mc_write_data ?m = []" "mc_write_left ?m = []" "mc_return ?m = []"
    "mc_pending ?m = []" "mc_power_down ?m = replicate (ranks_of ?c) False" "mc_refresh_rank ?m = 0"
    "length (mc_refresh_left ?m) = ranks_of ?c" "mc_epoch_latency ?m = replicate (ranks_of ?c * banks_of ?c) 0" "mc_clock ?m = 0"
    using s by (auto simp: mem_system_init_def mem_ctrl_init_def rbind_Inr)
  have load: "rank_load (map (\<lambda>i. rank_init (junks ! i) ?c) [0..<ranks_of ?c]) = {#}"
    unfolding rank_load_def by (simp add: rank_reads_def rank_init_def comp_def concat_replicate_Nil map_replicate_const)
  have "0 < ranks_of ?c" using c by (simp add: channel_ok_def Let_def)
  then have "ctrl_sizes e 0 ?m" by (simp add: ctrl_sizes_def m table_ok_def)
  moreover have "cmds_ok e 0 ?m" using init_queue_ok [OF c] by (simp add: cmds_ok_def m) (simp add: cmd_queue_init_def)
  moreover have "data_bus_ok e 0 0 ?m"
    by (simp add: data_bus_ok_def data_ok_def write_lag_def bus_free_def open_room_def m mc_bank_init_def bank_state_init_def bank_state.defs)
  moreover have "ranks_ok e 0 0 0 1 (mc_cmd ?m) (mc_banks ?m) (ms_ranks s)"
    using init_rank_ok init_track
    by (simp add: ranks_ok_def m read_bus_ok_def read_lag_def rank_free_def room_def agrees_def)
      (simp add: rank_init_def all_track_def list_all2_conv_all_nth banks_of_def)
  moreover have "trans_ok e s" "reads_of s = {#}" "writes_of s = {#}"
    using init_queue_ok(2) [OF c]
    by (simp_all add: trans_ok_def m reads_in_def writes_in_def load reads_of_def writes_of_def done_addrs_def)
  ultimately show ?thesis by (simp add: channel_inv_def chan_inv_def)
qed

section \<open>Properties\<close>

text \<open>C2: from the constructor, with a per-rank command queue and a configuration whose delays fit, no sequence of plain
  transactions (reads and writes of in-range cells outside the mode rows), barriers and cycles ends in an error: every
  command reaches a rank that is ready for it, no burst meets a busy data bus, no command a busy command bus, no
  queue overflows, and every burst a rank returns has a transaction waiting for it.\<close>

theorem memory_system_safe:
  assumes "channel_ok e" and "mem_system_init junks PerRank pol (me_cfg e) = Inr s0"
    and "list_all (mem_op_ok e) ops" and "length ops + 2 ^ 32 \<le> 2 ^ 64"
  shows "\<exists>s. run_mem e ops s0 = Inr s"
  using run_mem_ok [OF assms(1), of 0 s0 ops] init_inv [OF assms(1,2)] assms(3,4) by auto

text \<open>C7: in every such run each read that was handed in is reported back exactly once, or is pending, or still waits as a
  transaction; the pending reads are exactly those in the command queue, on the command bus, in a rank or
  returned but not yet reported.  Likewise each write is reported done exactly once, or its command or data is still
  in the controller, or it waits.  The count of transactions on the fly is the number of the accepted ones not done.\<close>

theorem memory_system_conserves:
  assumes "channel_ok e" and "mem_system_init junks PerRank pol (me_cfg e) = Inr s0"
    and "list_all (mem_op_ok e) ops" and "length ops + 2 ^ 32 \<le> 2 ^ 64" and "run_mem e ops s0 = Inr s"
  shows "op_addrs DATA_READ ops = done_addrs read_done (ms_events s) + mset (map tr_addr (mc_pending (ms_ctrl s)))
      + trans_addrs DATA_READ (mc_transactions (ms_ctrl s) @ ms_waiting s)
    \<and> mset (map tr_addr (mc_pending (ms_ctrl s))) = reads_in (ms_ctrl s) (ms_ranks s)
    \<and> op_addrs DATA_WRITE ops = done_addrs write_done (ms_events s) + writes_in (ms_ctrl s)
      + trans_addrs DATA_WRITE (mc_transactions (ms_ctrl s) @ ms_waiting s)
    \<and> ms_in_flight s = of_nat (length (mc_pending (ms_ctrl s)) + size (writes_in (ms_ctrl s)) + length (mc_transactions (ms_ctrl s)))"
  using run_mem_ok [OF assms(1), of 0 s0 ops] init_inv [OF assms(1,2)] assms(3-5)
  by (auto simp: channel_inv_def chan_inv_def trans_ok_def reads_of_def writes_of_def)

text \<open>C10: between two cycles of such a run (of plain transactions: a mode or register row is excluded, since the
  controller records it as open while the rank skips its bank states) the controller and each rank agree, once the command on the bus, if it is for
  the rank, has been received, which it is without error: the controller holds a row of a bank open exactly when the
  rank does, and it is the same row; otherwise the bank is idle; and a bank is ready for a command at most one cycle
  after the controller's time for it.\<close>

definition tracked :: "mc_bank \<Rightarrow> bank_state \<Rightarrow> bool" where
  "tracked m b \<longleftrightarrow> (bs_state m = RowActive \<longleftrightarrow> bs_state b = RowActive) \<and> (bs_state m = RowActive \<longrightarrow> open_row b = open_row m)
     \<and> (bs_state m \<noteq> RowActive \<longrightarrow> bs_state b = Idle)
     \<and> unat (next_read b) \<le> Suc (unat (next_read m)) \<and> unat (next_write b) \<le> Suc (unat (next_write m))
     \<and> unat (next_activate b) \<le> Suc (unat (next_activate m)) \<and> unat (next_precharge b) \<le> Suc (unat (next_precharge m))"

theorem controller_tracks_ranks:
  assumes "channel_ok e" and "mem_system_init junks PerRank pol (me_cfg e) = Inr s0"
    and "list_all (mem_op_ok e) ops" and "length ops + 2 ^ 32 \<le> 2 ^ 64" and "run_mem e ops s0 = Inr s"
    and "i < ranks_of (me_cfg e)"
  shows "\<exists>k. (case mc_cmd (ms_ctrl s) of
        Some p \<Rightarrow> if unat (prank p) = i then receive_from_bus (me_fuel e) (me_pim e) p (ms_ranks s ! i) = Inr k else k = ms_ranks s ! i
      | None \<Rightarrow> k = ms_ranks s ! i)
    \<and> list_all2 tracked (mc_banks (ms_ctrl s) ! i) (bank_states k) \<and> length (bank_states k) = banks_of (me_cfg e)"
proof -
  let ?row = "mc_banks (ms_ctrl s) ! i" and ?k = "ms_ranks s ! i"
  obtain now where inv: "channel_inv e now s"
    using run_mem_ok [OF assms(1), of 0 s0 ops] init_inv [OF assms(1,2)] assms(3-5) by auto
  then have r: "rank_ok e now ?k" "agrees e now (mc_cmd (ms_ctrl s)) i ?row ?k" and p: "\<forall>p. mc_cmd (ms_ctrl s) = Some p \<longrightarrow> issued e p"
    using assms(6) by (auto simp: channel_inv_def chan_inv_def ranks_ok_def cmds_ok_def)
  have "\<exists>k. (case mc_cmd (ms_ctrl s) of
        Some p \<Rightarrow> if unat (prank p) = i then receive_from_bus (me_fuel e) (me_pim e) p ?k = Inr k else k = ?k
      | None \<Rightarrow> k = ?k) \<and> all_track ?row (bank_states k) \<and> rank_ok e now k"
  proof (cases "\<exists>p. mc_cmd (ms_ctrl s) = Some p \<and> unat (prank p) = i")
    case True
    then obtain p' where p': "mc_cmd (ms_ctrl s) = Some p'" "unat (prank p') = i" by blast
    with r p have "issued e p'" "expects (me_pim e) now p' ?row ?k" by (simp_all add: agrees_def)
    from receive_command [OF r(1) this, of "me_fuel e"] p' show ?thesis by auto
  next
    case False
    with r show ?thesis by (auto simp: agrees_def split: option.splits)
  qed
  then obtain k where k: "case mc_cmd (ms_ctrl s) of
        Some p \<Rightarrow> if unat (prank p) = i then receive_from_bus (me_fuel e) (me_pim e) p ?k = Inr k else k = ?k
      | None \<Rightarrow> k = ?k" "all_track ?row (bank_states k)" "rank_ok e now k" by blast
  have "tracked m b" if "tracks m b" for m b using that by (auto simp: tracks_def tracked_def split: if_splits)
  then have "list_all2 tracked ?row (bank_states k)" using k(2) by (auto simp: all_track_def elim: list_all2_mono)
  with k show ?thesis by (intro exI [of _ k]) (simp add: rank_ok_def)
qed

section \<open>What the code leaves out\<close>

text \<open>Nothing enters the activation window, so the limit \<^verbatim>\<open>XAW\<close> on activations in a window never bites.\<close>

lemma activation_window_empty:
  assumes "channel_inv e now s"
  shows "cq_xaw (mc_queue (ms_ctrl s)) = replicate (ranks_of (me_cfg e)) []"
proof -
  have "cq_shape (me_cfg e) (mc_queue (ms_ctrl s))" using assms by (simp add: channel_inv_def chan_inv_def cmds_ok_def cq_ok_def)
  then show ?thesis unfolding cq_shape_def by blast
qed

text \<open>A countdown of zero is not started, so with a precharge time of zero a precharged bank never becomes idle.\<close>

lemma tick_bank_sticks:
  assumes "bs_state m = Precharging" and "state_countdown m = 0"
  shows "bs_state ((tick_bank ^^ n) m) = Precharging \<and> state_countdown ((tick_bank ^^ n) m) = 0"
proof (induction n)
  case (Suc n)
  then show ?case unfolding funpow.simps comp_def tick_bank_def by simp
qed (simp add: assms)

lemma precharge_starts_no_countdown:
  assumes "tRP c = 0" and "state_countdown m = 0" and "ptype p = PRECHARGE" and "j = unat (pbank p)"
  shows "bs_state (own_rank_effect c now p j m) = Precharging" "state_countdown (own_rank_effect c now p j m) = 0"
  unfolding own_rank_effect_def assms(3) by (simp_all add: set_bank_states_def assms Let_def)

lemma zero_precharge_sticks:
  assumes "tRP c = 0" and "state_countdown m = 0" and "ptype p = PRECHARGE" and "j = unat (pbank p)"
  shows "bs_state ((tick_bank ^^ n) (own_rank_effect c now p j m)) = Precharging"
  using tick_bank_sticks [OF precharge_starts_no_countdown [OF assms]] by blast

section \<open>A concrete run\<close>

text \<open>One rank of four banks; two reads and a write of one cell, with a barrier before the write.\<close>

definition demo_mem :: mem_env where
  "demo_mem = \<lparr>me_pim = demo_env, me_map = demo_map, me_bin = 10, me_fuel = 2\<rparr>"

definition demo_ops :: "mem_op list" where
  "demo_ops =
     [AddTransaction (mk_transaction OpenPage DATA_READ 0 [] (Some 1)), Update, AddBarrier,
      AddTransaction (mk_transaction OpenPage DATA_WRITE 0 [] (Some 2)), Update, Update,
      AddTransaction (mk_transaction OpenPage DATA_READ 96 [] (Some 3)), Update, Update]"

lemma demo_cycles:
  "cycles_of 2147483648 (fdiv b32 (refresh_interval 100 (FFin 1)) (flit b32 1)) = Inr 100"
  "cycles_of 2147483648 (refresh_interval 100 (FFin 1)) = Inr 100" "cycles_of 4294967296 (refresh_interval 100 (FFin 1)) = Inr 100"
  by code_simp+

lemma demo_channel: "channel_ok demo_mem"
  by (simp add: channel_ok_def demo_mem_def demo_env_def me_cfg_def Let_def ranks_of_def banks_of_def burst_cycles_def delays_ok_def
      WRITE_TO_READ_DELAY_B_SHORT_def WRITE_TO_READ_DELAY_B_LONG_def demo_cycles)

lemma demo_start: "\<exists>s0. mem_system_init [(False, False, False, False)] PerRank RankThenBankRoundRobin (me_cfg demo_mem) = Inr s0"
  by (simp add: mem_system_init_def mem_ctrl_init_def demo_mem_def demo_env_def me_cfg_def ranks_of_def demo_cycles)

lemma demo_address:
  "address_mapping demo_map 0 = Inr \<lparr>co_chan = 0, co_rank = 0, co_bank = 0, co_row = 0, co_col = 0\<rparr>"
  "address_mapping demo_map 96 = Inr \<lparr>co_chan = 1, co_rank = 0, co_bank = 1, co_row = 0, co_col = 0\<rparr>"
  by (simp_all add: address_mapping_def demo_map_def scheme_fields_def diff_bit_width_def coords_unset_def Let_def drop_bit_eq_div
      push_bit_eq_mult word_le_nat_alt)

lemma demo_ops_ok: "list_all (mem_op_ok demo_mem) demo_ops"
  by (simp add: demo_ops_def plain_trans_def mk_transaction_def demo_mem_def demo_address demo_env_def me_cfg_def ranks_of_def
      banks_of_def is_reserved_ra_def)

theorem memory_system_safe_witness:
  "\<exists>s0 s. mem_system_init [(False, False, False, False)] PerRank RankThenBankRoundRobin (me_cfg demo_mem) = Inr s0
     \<and> run_mem demo_mem demo_ops s0 = Inr s"
proof -
  obtain s0 where s0: "mem_system_init [(False, False, False, False)] PerRank RankThenBankRoundRobin (me_cfg demo_mem) = Inr s0"
    using demo_start by blast
  have "length demo_ops + 2 ^ 32 \<le> 2 ^ 64" by (simp add: demo_ops_def)
  from memory_system_safe [OF demo_channel s0 demo_ops_ok this] s0 show ?thesis by blast
qed

lemma demo_run:
  "\<exists>s0 s. mem_system_init [(False, False, False, False)] PerRank RankThenBankRoundRobin (me_cfg demo_mem) = Inr s0
     \<and> run_mem demo_mem demo_ops s0 = Inr s"
proof -
  obtain s0 where s0: "mem_system_init [(False, False, False, False)] PerRank RankThenBankRoundRobin (me_cfg demo_mem) = Inr s0"
    using demo_start by blast
  have "unat 0 + length demo_ops + 2 ^ 32 \<le> 2 ^ 64" by (simp add: demo_ops_def)
  from run_mem_ok [OF demo_channel _ demo_ops_ok this] init_inv [OF demo_channel s0] s0 show ?thesis by blast
qed

theorem memory_system_conserves_witness:
  "\<exists>s0 s. mem_system_init [(False, False, False, False)] PerRank RankThenBankRoundRobin (me_cfg demo_mem) = Inr s0
     \<and> run_mem demo_mem demo_ops s0 = Inr s
     \<and> {#0, 96#} = done_addrs read_done (ms_events s) + reads_in (ms_ctrl s) (ms_ranks s)
         + trans_addrs DATA_READ (mc_transactions (ms_ctrl s) @ ms_waiting s)
     \<and> {#0#} = done_addrs write_done (ms_events s) + writes_in (ms_ctrl s)
         + trans_addrs DATA_WRITE (mc_transactions (ms_ctrl s) @ ms_waiting s)"
proof -
  obtain s0 s where s: "mem_system_init [(False, False, False, False)] PerRank RankThenBankRoundRobin (me_cfg demo_mem) = Inr s0"
    "run_mem demo_mem demo_ops s0 = Inr s" using demo_run by blast
  have "length demo_ops + 2 ^ 32 \<le> 2 ^ 64" by (simp add: demo_ops_def)
  moreover have "op_addrs DATA_READ demo_ops = {#0, 96#}" "op_addrs DATA_WRITE demo_ops = {#0#}"
    by (simp_all add: demo_ops_def mk_transaction_def)
  ultimately show ?thesis using memory_system_conserves [OF demo_channel s(1) demo_ops_ok _ s(2)] s by auto
qed

theorem controller_tracks_ranks_witness:
  "\<exists>s0 s. \<exists>k :: rank_state. mem_system_init [(False, False, False, False)] PerRank RankThenBankRoundRobin (me_cfg demo_mem) = Inr s0
     \<and> run_mem demo_mem demo_ops s0 = Inr s
     \<and> list_all2 tracked (mc_banks (ms_ctrl s) ! 0) (bank_states k) \<and> length (bank_states k) = 4"
proof -
  obtain s0 s where s: "mem_system_init [(False, False, False, False)] PerRank RankThenBankRoundRobin (me_cfg demo_mem) = Inr s0"
    "run_mem demo_mem demo_ops s0 = Inr s" using demo_run by blast
  have d: "length demo_ops + 2 ^ 32 \<le> 2 ^ 64" "0 < ranks_of (me_cfg demo_mem)" "banks_of (me_cfg demo_mem) = 4"
    by (simp_all add: demo_ops_def ranks_of_def banks_of_def me_cfg_def demo_mem_def demo_env_def)
  obtain k :: rank_state where "list_all2 tracked (mc_banks (ms_ctrl s) ! 0) (bank_states k)" "length (bank_states k) = 4"
    using controller_tracks_ranks [OF demo_channel s(1) demo_ops_ok d(1) s(2) d(2)] unfolding d(3) by blast
  with s show ?thesis by blast
qed

end
