(* ===== verification/ClockDomain.thy ===== *)
theory ClockDomain
  imports Floats PimStorage
begin

text \<open>
  The clock domain crosser: \<^verbatim>\<open>ClockDomainCrosser\<close> of \<^verbatim>\<open>PIMSimulator/src/ClockDomain.cpp\<close> and
  \<^verbatim>\<open>ClockDomain.h\<close>.  It calls a function back so that the memory runs at \<^verbatim>\<open>clock1\<close> while the caller runs
  at \<^verbatim>\<open>clock2\<close>.  The state the callback changes is a parameter.  The loop of \<^verbatim>\<open>update\<close> need not end (a
  counter may step over the other one for ever), so an update that does not return is \<^const>\<open>None\<close>.
\<close>

section \<open>The definitions\<close>

record clock_crosser =
  cx_clock1 :: u64
  cx_clock2 :: u64
  cx_counter1 :: u64
  cx_counter2 :: u64

definition crosser_init :: clock_crosser where
  "crosser_init = \<lparr>cx_clock1 = 1, cx_clock2 = 1, cx_counter1 = 0, cx_counter2 = 0\<rparr>"

partial_function (option) catch_up :: "('s \<Rightarrow> 's result) \<Rightarrow> u64 \<Rightarrow> u64 \<Rightarrow> u64 \<Rightarrow> 's \<Rightarrow> (u64 \<times> 's) result option" where
  "catch_up f counter1 clock2 counter2 s =
     (if counter2 < counter1
      then case f s of Inl err \<Rightarrow> Some (Inl err) | Inr s' \<Rightarrow> catch_up f counter1 clock2 (counter2 + clock2) s'
      else Some (Inr (counter2, s)))"

definition crosser_update :: "('s \<Rightarrow> 's result) \<Rightarrow> clock_crosser \<Rightarrow> 's \<Rightarrow> (clock_crosser \<times> 's) result option" where
  "crosser_update f x s =
     (if cx_clock1 x = cx_clock2 x then Some (rbind (f s) (\<lambda>s'. Inr (x, s')))
      else let c1 = cx_counter1 x + cx_clock1 x in
        map_option (\<lambda>r. rbind r (\<lambda>(c2, s').
          Inr (x\<lparr>cx_counter1 := if c1 = c2 then 0 else c1, cx_counter2 := if c1 = c2 then 0 else c2\<rparr>, s')))
        (catch_up f c1 (cx_clock2 x) (cx_counter2 x) s))"

text \<open>Setting the clocks: the memory's frequency is computed in double precision from the clock period in
  nanoseconds; a zero frequency of the caller stands for the memory's.\<close>

definition set_cpu_clock :: "fp \<Rightarrow> u64 \<Rightarrow> clock_crosser \<Rightarrow> clock_crosser result" where
  "set_cpu_clock tck hz x =
     rbind (deref (cast_u64 (fdiv b64 (flit b64 1) (fmul b64 tck (flit b64 (1 / 10 ^ 9)))))) (\<lambda>dram.
       Inr (x\<lparr>cx_clock1 := dram, cx_clock2 := if hz = 0 then dram else hz\<rparr>))"

text \<open>Repeated updates.\<close>

fun crosser_updates :: "('s \<Rightarrow> 's result) \<Rightarrow> nat \<Rightarrow> clock_crosser \<Rightarrow> 's \<Rightarrow> (clock_crosser \<times> 's) result option" where
  "crosser_updates f 0 x s = Some (Inr (x, s))"
| "crosser_updates f (Suc n) x s =
     (case crosser_update f x s of
        None \<Rightarrow> None
      | Some (Inl err) \<Rightarrow> Some (Inl err)
      | Some (Inr (x', s')) \<Rightarrow> crosser_updates f n x' s')"

section \<open>The counters\<close>

text \<open>The callbacks due after a number of updates: the quotient of the clocks, rounded up.\<close>

definition ticks_due :: "nat \<Rightarrow> u64 \<Rightarrow> u64 \<Rightarrow> nat" where
  "ticks_due n c1 c2 = (n * unat c1 + unat c2 - 1) div unat c2"

definition clocks_ok :: "clock_crosser \<Rightarrow> bool" where
  "clocks_ok x \<longleftrightarrow> 0 < cx_clock1 x \<and> 0 < cx_clock2 x \<and> lcm (unat (cx_clock1 x)) (unat (cx_clock2 x)) < 2 ^ 64"

text \<open>The state after \<^verbatim>\<open>n\<close> updates and \<^verbatim>\<open>k\<close> callbacks: both counters were reset \<^verbatim>\<open>q\<close> times.\<close>

definition crossed :: "nat \<Rightarrow> nat \<Rightarrow> clock_crosser \<Rightarrow> bool" where
  "crossed n k x \<longleftrightarrow>
     (let c1 = unat (cx_clock1 x); c2 = unat (cx_clock2 x); a = unat (cx_counter1 x); b = unat (cx_counter2 x); l = lcm c1 c2 in
      if c1 = c2 then k = n
      else a \<le> b \<and> b < a + c2 \<and> a < l \<and> b \<le> l \<and> (\<exists>q. n * c1 = q * l + a \<and> k * c2 = q * l + b))"

lemma ceil_bounds:
  assumes "0 < (d :: nat)"
  shows "x \<le> (x + d - 1) div d * d" and "(x + d - 1) div d * d < x + d"
proof -
  have "(x + d - 1) div d * d + (x + d - 1) mod d = x + d - 1" "(x + d - 1) mod d < d" using assms by simp_all
  then show "x \<le> (x + d - 1) div d * d" "(x + d - 1) div d * d < x + d" using assms by linarith+
qed

lemma ceil_unique:
  assumes "0 < (d :: nat)" and "x \<le> k * d" and "k * d < x + d"
  shows "(x + d - 1) div d = k"
proof (rule div_nat_eqI)
  show "d * k \<le> x + d - 1" "x + d - 1 < d * Suc k" using assms by (simp_all add: mult.commute)
qed

lemma crossed_due:
  assumes "clocks_ok x" and "crossed n k x"
  shows "k = ticks_due n (cx_clock1 x) (cx_clock2 x)"
proof -
  let ?c1 = "unat (cx_clock1 x)" and ?c2 = "unat (cx_clock2 x)"
  have p: "0 < ?c2" using assms(1) by (simp add: clocks_ok_def unat_gt_0 word_gt_0)
  have "n * ?c1 \<le> k * ?c2 \<and> k * ?c2 < n * ?c1 + ?c2"
    using assms(2) p by (auto simp: crossed_def Let_def split: if_splits)
  then show ?thesis using ceil_unique [OF p, of "n * ?c1" k] by (simp add: ticks_due_def)
qed

lemma ticks_due_mono: "m \<le> n \<Longrightarrow> ticks_due m c1 c2 \<le> ticks_due n c1 c2"
  unfolding ticks_due_def by (intro div_le_mono diff_le_mono add_le_mono1 mult_le_mono1)

lemma unat_fits: "n < 2 ^ 64 \<Longrightarrow> unat (of_nat n :: u64) = n"
  by (simp add: unat_of_nat)

lemma ticks_due_same:
  assumes "0 < c" and "d = c"
  shows "ticks_due n d c = n"
proof -
  have "0 < unat c" using assms by (simp add: unat_gt_0 word_gt_0)
  then show ?thesis unfolding ticks_due_def assms(2) by (intro ceil_unique) simp_all
qed

text \<open>The arithmetic of one update: the counters stay below the least common multiple of the clocks.\<close>

lemma multiple_below:
  assumes "(b :: nat) * d < l + d" and "d dvd l"
  shows "b * d \<le> l"
proof -
  obtain e where e: "l = e * d" using assms(2) by (auto simp: dvd_def mult.commute)
  with assms(1) have "b * d < Suc e * d" by simp
  then have "b < Suc e" by (simp only: mult_less_cancel2)
  then show ?thesis unfolding e by (intro mult_le_mono1) simp
qed

lemma counters_dvd:
  fixes c l :: nat
  assumes "c dvd l" and "n * c = q * l + a"
  shows "c dvd a + c"
proof -
  have "c dvd q * l + a" using assms(2) by (metis dvd_triv_right)
  then have "c dvd a" using assms(1) by (simp add: dvd_add_right_iff)
  then show ?thesis by simp
qed

lemma counters_step:
  fixes c1 c2 a b l n k q :: nat
  assumes "0 < c1" "0 < c2" "c1 dvd l" "c2 dvd l" "b < a + c2" "a < l" "n * c1 = q * l + a" "k * c2 = q * l + b"
  obtains bi m where "b = bi * c2" "a + c1 \<le> l" "a + c1 \<le> m * c2" "m * c2 < a + c1 + c2" "m * c2 \<le> l" "bi \<le> m"
    "(k + (m - bi)) * c2 = q * l + m * c2" "k + (m - bi) = (Suc n * c1 + c2 - 1) div c2"
proof -
  have "c1 dvd q * l + a" "c2 dvd q * l + b" using assms(7,8) by (metis dvd_triv_right)+
  then have "c1 dvd a" "c2 dvd b" using assms(3,4) by (simp_all add: dvd_add_right_iff)
  then obtain ai bi where ab: "a = ai * c1" "b = bi * c2" by (auto simp: dvd_def mult.commute)
  have al: "a + c1 \<le> l" using multiple_below [of "Suc ai" c1 l] assms(3,6) ab(1) by simp
  define m where "m = (a + c1 + c2 - 1) div c2"
  have m: "a + c1 \<le> m * c2" "m * c2 < a + c1 + c2" using ceil_bounds [OF assms(2)] by (simp_all add: m_def)
  then have ml: "m * c2 \<le> l" using multiple_below [OF _ assms(4)] al by simp
  have "bi * c2 < m * c2 + c2" using assms(5) ab(2) m(1) by linarith
  then have bm: "bi \<le> m" using multiple_below [of bi c2 "m * c2"] assms(2) by simp
  then have bmc: "bi * c2 \<le> m * c2" by (rule mult_le_mono1)
  have "(k + (m - bi)) * c2 = k * c2 + (m * c2 - bi * c2)" by (simp add: add_mult_distrib diff_mult_distrib)
  then have k: "(k + (m - bi)) * c2 = q * l + m * c2" using assms(8) ab(2) bmc by linarith
  have "(Suc n * c1 + c2 - 1) div c2 = k + (m - bi)" using k m assms(7) by (intro ceil_unique [OF assms(2)]) simp_all
  with k m ml al ab(2) bm show ?thesis by (intro that [of bi m]) simp_all
qed

section \<open>Callbacks that succeed\<close>

text \<open>What a callback promises: from a state reached after fewer calls than the limit it returns, and it counts.\<close>

locale ticking =
  fixes f :: "'s \<Rightarrow> 's result" and I :: "nat \<Rightarrow> 's \<Rightarrow> bool" and limit :: nat
  assumes tick: "I t s \<Longrightarrow> t < limit \<Longrightarrow> \<exists>s'. f s = Inr s' \<and> I (Suc t) s'"
begin

lemma catch_up_runs:
  assumes "I t s" and "c1 \<le> m * c2" and "b * c2 < c1 + c2" and "m * c2 < 2 ^ 64" and "b \<le> m" and "t + (m - b) \<le> limit"
    and "0 < c2"
  shows "\<exists>j s'. catch_up f (of_nat c1) (of_nat c2) (of_nat (b * c2)) s = Some (Inr (of_nat (j * c2), s')) \<and> I (t + (j - b)) s'
    \<and> b \<le> j \<and> j \<le> m \<and> c1 \<le> j * c2 \<and> j * c2 < c1 + c2"
  using assms
proof (induction "m - b" arbitrary: b t s)
  case 0
  then have "m = b" by simp
  have "\<not> of_nat (b * c2) < (of_nat c1 :: u64)"
    using 0 \<open>m = b\<close> by (simp add: word_less_nat_alt unat_fits del: of_nat_mult)
  then show ?case using 0 \<open>m = b\<close> by (subst catch_up.simps) (auto simp del: of_nat_mult)
next
  case (Suc d)
  have "b * c2 \<le> m * c2" using Suc.prems(5) by (rule mult_le_mono1)
  then have fits: "c1 < 2 ^ 64" "b * c2 < 2 ^ 64" using Suc.prems(2,4) by linarith+
  show ?case
  proof (cases "b * c2 < c1")
    case True
    then have less: "of_nat (b * c2) < (of_nat c1 :: u64)"
      using fits by (simp add: word_less_nat_alt unat_fits del: of_nat_mult)
    have "t < limit" using Suc.hyps(2) Suc.prems(6) by linarith
    then obtain s1 where s1: "f s = Inr s1" "I (Suc t) s1" using tick Suc.prems(1) by blast
    have "d = m - Suc b" "Suc b \<le> m" "Suc t + (m - Suc b) \<le> limit" "Suc b * c2 < c1 + c2"
      using Suc.hyps(2) Suc.prems(6) True by simp_all
    from Suc.hyps(1) [OF this(1) s1(2) Suc.prems(2) this(4) Suc.prems(4) this(2,3) Suc.prems(7)]
    obtain j s' where j: "catch_up f (of_nat c1) (of_nat c2) (of_nat (Suc b * c2)) s1 = Some (Inr (of_nat (j * c2), s'))"
      "I (Suc t + (j - Suc b)) s'" "Suc b \<le> j" "j \<le> m" "c1 \<le> j * c2" "j * c2 < c1 + c2" by blast
    have "of_nat (b * c2) + of_nat c2 = (of_nat (Suc b * c2) :: u64)" by simp
    with less s1(1) have "catch_up f (of_nat c1) (of_nat c2) (of_nat (b * c2)) s = Some (Inr (of_nat (j * c2), s'))"
      using j(1) by (subst catch_up.simps) (simp del: of_nat_mult of_nat_Suc mult_Suc)
    moreover have "Suc t + (j - Suc b) = t + (j - b)" using j(3) by simp
    ultimately show ?thesis using j by (metis Suc_leD)
  next
    case False
    then have "\<not> of_nat (b * c2) < (of_nat c1 :: u64)"
      using fits by (simp add: word_less_nat_alt unat_fits del: of_nat_mult)
    then have "catch_up f (of_nat c1) (of_nat c2) (of_nat (b * c2)) s = Some (Inr (of_nat (b * c2), s))"
      by (subst catch_up.simps) (simp del: of_nat_mult)
    with Suc.prems False show ?thesis by (intro exI [of _ b] exI [of _ s]) simp
  qed
qed

lemma update_crossed:
  assumes x: "clocks_ok x" "crossed n k x" and s: "I k s"
    and lim: "ticks_due (Suc n) (cx_clock1 x) (cx_clock2 x) \<le> limit"
  shows "\<exists>x' s' k'. crosser_update f x s = Some (Inr (x', s')) \<and> I k' s' \<and> crossed (Suc n) k' x'
    \<and> cx_clock1 x' = cx_clock1 x \<and> cx_clock2 x' = cx_clock2 x"
proof (cases "cx_clock1 x = cx_clock2 x")
  case True
  have "ticks_due (Suc n) (cx_clock1 x) (cx_clock2 x) = Suc n"
    using x(1) True by (intro ticks_due_same) (simp_all add: clocks_ok_def)
  moreover have "k = n" using x(2) True by (simp add: crossed_def)
  ultimately show ?thesis using tick [OF s] lim True by (auto simp: crosser_update_def crossed_def)
next
  case False
  define c1 c2 a b l where "c1 = unat (cx_clock1 x)" and "c2 = unat (cx_clock2 x)" and "a = unat (cx_counter1 x)"
    and "b = unat (cx_counter2 x)" and "l = lcm c1 c2"
  note defs = this
  have ne: "c1 \<noteq> c2" using False by (simp add: defs word_unat_eq_iff)
  have pos: "0 < c1" "0 < c2" "l < 2 ^ 64" using x(1) by (simp_all add: clocks_ok_def unat_gt_0 word_gt_0 defs)
  from x(2) ne obtain q where q: "a \<le> b" "b < a + c2" "a < l" "b \<le> l" "n * c1 = q * l + a" "k * c2 = q * l + b"
    unfolding crossed_def Let_def defs by auto
  have dvd: "c1 dvd l" "c2 dvd l" by (simp_all add: l_def)
  obtain bi m where m: "b = bi * c2" "a + c1 \<le> l" "a + c1 \<le> m * c2" "m * c2 < a + c1 + c2" "m * c2 \<le> l" "bi \<le> m"
    "(k + (m - bi)) * c2 = q * l + m * c2" "k + (m - bi) = (Suc n * c1 + c2 - 1) div c2"
    using counters_step [OF pos(1,2) dvd q(2,3,5,6)] by blast
  have "of_nat (a + c1) = cx_counter1 x + cx_clock1 x" "of_nat c2 = cx_clock2 x" "of_nat b = cx_counter2 x"
    by (simp_all add: defs(1-4))
  note w = this(1,2) this(3) [unfolded m(1)]
  have "k + (m - bi) \<le> limit" using lim m(8) by (simp add: ticks_due_def defs)
  moreover have "bi * c2 < a + c1 + c2" "m * c2 < 2 ^ 64" using q(2) m(1,5) pos(3) by linarith+
  ultimately obtain j s' where j: "catch_up f (of_nat (a + c1)) (of_nat c2) (of_nat (bi * c2)) s = Some (Inr (of_nat (j * c2), s'))"
    "I (k + (j - bi)) s'" "j \<le> m" "a + c1 \<le> j * c2"
    using catch_up_runs [OF s m(3), of bi] m(6) pos(2) by blast
  have "m * c2 < Suc j * c2" using m(4) j(4) by simp
  then have "m < Suc j" by (simp only: mult_less_cancel2)
  with j(3) have jm: "j = m" by simp
  define x' where "x' = x\<lparr>cx_counter1 := if a + c1 = m * c2 then 0 else of_nat (a + c1),
    cx_counter2 := if a + c1 = m * c2 then 0 else of_nat (m * c2)\<rparr>"
  have fits: "unat (of_nat (a + c1) :: u64) = a + c1" "unat (of_nat (m * c2) :: u64) = m * c2"
    using m(2,5) pos(3) by (simp_all only: unat_fits le_less_trans)
  then have "(of_nat (a + c1) = (of_nat (m * c2) :: u64)) = (a + c1 = m * c2)" by metis
  then have "crosser_update f x s = Some (Inr (x', s'))"
    using j(1) False unfolding crosser_update_def w [symmetric] jm x'_def
    by (simp add: w(2) Let_def del: of_nat_mult of_nat_add)
  moreover have "crossed (Suc n) (k + (m - bi)) x'"
  proof (cases "a + c1 = m * c2")
    case True
    have "c1 dvd m * c2" using counters_dvd [OF dvd(1) q(5)] True by simp
    then have "l dvd m * c2" by (simp add: l_def)
    moreover have "0 < m * c2" using True pos(1) by linarith
    ultimately have "m * c2 = l" using m(5) by (simp add: dvd_imp_le le_antisym)
    then show ?thesis using True ne pos q(5) m(7) unfolding crossed_def Let_def x'_def
      by (auto simp flip: defs intro!: exI [of _ "Suc q"])
  next
    case False
    then show ?thesis using ne m(2-5,7) q(5) fits unfolding crossed_def Let_def x'_def
      by (auto simp flip: defs simp del: of_nat_mult of_nat_add intro!: exI [of _ q])
  qed
  ultimately show ?thesis using j(2) jm by (auto simp: x'_def)
qed

lemma updates_crossed:
  assumes "clocks_ok x" "crossed n k x" "I k s" "ticks_due (n + d) (cx_clock1 x) (cx_clock2 x) \<le> limit"
  shows "\<exists>x' s' k'. crosser_updates f d x s = Some (Inr (x', s')) \<and> I k' s' \<and> crossed (n + d) k' x'
    \<and> cx_clock1 x' = cx_clock1 x \<and> cx_clock2 x' = cx_clock2 x"
  using assms
proof (induction d arbitrary: n k x s)
  case (Suc d)
  have "ticks_due (Suc n) (cx_clock1 x) (cx_clock2 x) \<le> ticks_due (n + Suc d) (cx_clock1 x) (cx_clock2 x)"
    by (rule ticks_due_mono) simp
  from update_crossed [OF Suc.prems(1-3) le_trans [OF this Suc.prems(4)]]
  obtain x1 s1 k1 where 1: "crosser_update f x s = Some (Inr (x1, s1))" "I k1 s1" "crossed (Suc n) k1 x1"
    "cx_clock1 x1 = cx_clock1 x" "cx_clock2 x1 = cx_clock2 x" by blast
  have "clocks_ok x1" "ticks_due (Suc n + d) (cx_clock1 x1) (cx_clock2 x1) \<le> limit"
    using Suc.prems(1,4) 1(4,5) by (simp_all add: clocks_ok_def)
  from Suc.IH [OF this(1) 1(3,2) this(2)] 1 show ?case by simp
qed auto

end

section \<open>Properties\<close>

text \<open>C39: with positive clocks whose least common multiple fits 64 bits, every update of the crosser returns, and after any
  number of updates the callback has run as often as the ratio of the clocks says, rounded up: the counters never
  drift or overflow.\<close>

theorem crosser_rate:
  assumes "clocks_ok x" and "cx_counter1 x = 0" and "cx_counter2 x = 0" and "\<And>s. f s = Inr (g s)"
  shows "\<exists>x'. crosser_updates f n x s = Some (Inr (x', (g ^^ ticks_due n (cx_clock1 x) (cx_clock2 x)) s))"
proof -
  let ?k = "ticks_due n (cx_clock1 x) (cx_clock2 x)"
  have t: "ticking f (\<lambda>t s'. s' = (g ^^ t) s) ?k" by unfold_locales (simp add: assms(4))
  have "crossed 0 0 x" using assms(1-3) by (auto simp: crossed_def Let_def clocks_ok_def unat_gt_0 word_gt_0 lcm_pos_nat)
  from ticking.updates_crossed [OF t assms(1) this, of s n] obtain x' s' k' where
    x': "crosser_updates f n x s = Some (Inr (x', s'))" "s' = (g ^^ k') s" "crossed n k' x'"
      "cx_clock1 x' = cx_clock1 x" "cx_clock2 x' = cx_clock2 x" by auto
  have "clocks_ok x'" using assms(1) x'(4,5) by (simp add: clocks_ok_def)
  from crossed_due [OF this x'(3)] x' show ?thesis by simp
qed

text \<open>A memory at 2 clocks for 3 of the caller: after 7 updates 5 callbacks.\<close>

theorem crosser_rate_witness:
  "\<exists>x'. crosser_updates (\<lambda>k. Inr (Suc k)) 7 \<lparr>cx_clock1 = 2, cx_clock2 = 3, cx_counter1 = 0, cx_counter2 = 0\<rparr> 0 = Some (Inr (x', 5))"
proof -
  have "lcm 2 3 = (6 :: nat)" by code_simp
  then have "clocks_ok \<lparr>cx_clock1 = 2, cx_clock2 = 3, cx_counter1 = 0, cx_counter2 = 0\<rparr>" by (simp add: clocks_ok_def)
  from crosser_rate [OF this, of "\<lambda>k. Inr (Suc k)" Suc 7 0] show ?thesis by (simp add: ticks_due_def)
qed

text \<open>The shipped clock period of one nanosecond gives a memory clock one hertz short of a gigahertz: the quotient of
  one and the double nearest to a nanosecond is just below, and the cast truncates.\<close>

lemma nanosecond_quotient:
  "flit b64 (1 / 10 ^ 9) = FFin (4835703278458517 / 4835703278458516698824704)"
  "fmul b64 (FFin 1) (FFin (4835703278458517 / 4835703278458516698824704)) = FFin (4835703278458517 / 4835703278458516698824704)"
  "flit b64 1 = FFin 1"
  "fdiv b64 (FFin 1) (FFin (4835703278458517 / 4835703278458516698824704)) = FFin (8388607999999999 / 8388608)"
  by code_simp+

lemma gigahertz_truncated:
  "set_cpu_clock (FFin 1) 1000000000 crosser_init = Inr (crosser_init\<lparr>cx_clock1 := 999999999, cx_clock2 := 1000000000\<rparr>)"
proof -
  have "\<lfloor>8388607999999999 / 8388608 :: rat\<rfloor> = 999999999" by (simp add: floor_eq_iff)
  then have "fcast (2 ^ 64) (FFin (8388607999999999 / 8388608)) = Some 999999999" by (simp add: Let_def)
  then show ?thesis by (simp only: set_cpu_clock_def nanosecond_quotient) simp
qed

end
