(* ===== verification/MultiChan.thy ===== *)
theory MultiChan
  imports MemSystem ClockDomain
begin

text \<open>
  The memory of several channels: \<^verbatim>\<open>MultiChannelMemorySystem\<close> of \<^verbatim>\<open>PIMSimulator/src\<close>.  It sends each access
  to the channel its address names and drives all channels from the clock domain crosser.  The output files, the
  printed figures and the destructor are not modelled; the callbacks to the host are the events of the channels.
\<close>

section \<open>State\<close>

record multi_env =
  mv_env :: mem_env
  mv_chans :: u32
  mv_epoch :: u32

record multi_system =
  mu_channels :: "mem_system list"
  mu_clock :: u64
  mu_crosser :: clock_crosser
  mu_fences :: "u32 list"

text \<open>What the constructor of a channel reads to compute its ranks.\<close>

record geometry =
  ge_rows :: u64
  ge_width :: u32
  ge_bus_bits :: u64

definition is_power_of_two :: "u64 \<Rightarrow> bool" where
  "is_power_of_two x \<longleftrightarrow> push_bit (unat (u_log2 (ucast x))) 1 = x"

text \<open>A channel: the size in megabytes sets the number of ranks of the shared configuration; a size of zero leaves the
  configuration as it is and makes no rank.\<close>

definition channel_init ::
  "geometry \<Rightarrow> queue_structure \<Rightarrow> sched_policy \<Rightarrow> u32 \<Rightarrow> (bool \<times> bool \<times> bool \<times> bool) list \<Rightarrow> dram_config
     \<Rightarrow> (dram_config \<times> mem_system) result" where
  "channel_init g st pol megs junks c0 =
     rbind (rank_count (ge_rows g) (NUM_COLS c0) (ge_width g) (NUM_BANKS c0) (ge_bus_bits g) megs) (\<lambda>n.
       let c = (if megs \<noteq> 0 then c0\<lparr>NUM_RANKS := n\<rparr> else c0) in
       rbind (mem_system_init junks st pol c) (\<lambda>s. Inr (c, s\<lparr>ms_ranks := take (unat n) (ms_ranks s)\<rparr>)))"

fun channels_init ::
  "geometry \<Rightarrow> queue_structure \<Rightarrow> sched_policy \<Rightarrow> u32 \<Rightarrow> (nat \<Rightarrow> (bool \<times> bool \<times> bool \<times> bool) list) \<Rightarrow> nat \<Rightarrow> nat \<Rightarrow> dram_config
     \<Rightarrow> (dram_config \<times> mem_system list) result" where
  "channels_init g st pol megs junks i 0 c = Inr (c, [])"
| "channels_init g st pol megs junks i (Suc n) c =
     rbind (channel_init g st pol megs (junks i) c) (\<lambda>(c', s).
     rbind (channels_init g st pol megs junks (Suc i) n c') (\<lambda>(c'', ss). Inr (c'', s # ss)))"

text \<open>A number of channels of zero is refused by the constructor of \<^verbatim>\<open>Configuration\<close>.\<close>

definition multi_init ::
  "geometry \<Rightarrow> queue_structure \<Rightarrow> sched_policy \<Rightarrow> u32 \<Rightarrow> (nat \<Rightarrow> (bool \<times> bool \<times> bool \<times> bool) list) \<Rightarrow> u32 \<Rightarrow> dram_config
     \<Rightarrow> (dram_config \<times> multi_system) result" where
  "multi_init g st pol megs junks chans c =
     (if \<not> is_power_of_two (ucast megs) \<or> chans = 0 then Inl Exited
      else rbind (channels_init g st pol (megs div chans) junks 0 (unat chans) c) (\<lambda>(c', ss).
        Inr (c', \<lparr>mu_channels = ss, mu_clock = 0, mu_crosser = crosser_init, mu_fences = replicate (unat chans) 0\<rparr>)))"

section \<open>Accesses\<close>

definition find_channel :: "multi_env \<Rightarrow> u64 \<Rightarrow> nat result" where
  "find_channel v a =
     (if mv_chans v = 1 then Inr 0
      else if \<not> is_power_of_two (ucast (mv_chans v)) then Inl Exited
      else rbind (address_mapping (me_map (mv_env v)) a) (\<lambda>co.
        if mv_chans v \<le> co_chan co then Inl Exited else Inr (unat (co_chan co))))"

definition on_channel :: "(mem_system \<Rightarrow> bool \<times> mem_system) \<Rightarrow> nat \<Rightarrow> multi_system \<Rightarrow> (bool \<times> multi_system) result" where
  "on_channel f i s =
     rbind (deref (vec_get (mu_channels s) i)) (\<lambda>m.
       let (ok, m') = f m in Inr (ok, s\<lparr>mu_channels := (mu_channels s)[i := m']\<rparr>))"

definition mu_add_transaction :: "multi_env \<Rightarrow> transaction \<Rightarrow> multi_system \<Rightarrow> (bool \<times> multi_system) result" where
  "mu_add_transaction v t s =
     rbind (find_channel v (tr_addr t)) (\<lambda>i. on_channel (ms_add_transaction (me_cfg (mv_env v)) t) i s)"

definition ms_add_access ::
  "row_policy \<Rightarrow> dram_config \<Rightarrow> bool \<Rightarrow> u64 \<Rightarrow> string \<Rightarrow> burst option \<Rightarrow> mem_system \<Rightarrow> bool \<times> mem_system" where
  "ms_add_access pol c is_write a tg d s =
     ms_add_transaction c (mk_transaction pol (if is_write then DATA_WRITE else DATA_READ) a tg d) s"

definition mu_add_access ::
  "row_policy \<Rightarrow> multi_env \<Rightarrow> bool \<Rightarrow> u64 \<Rightarrow> string \<Rightarrow> burst option \<Rightarrow> multi_system \<Rightarrow> (bool \<times> multi_system) result" where
  "mu_add_access pol v is_write a tg d s =
     rbind (find_channel v a) (\<lambda>i. on_channel (ms_add_access pol (me_cfg (mv_env v)) is_write a tg d) i s)"

definition mu_add_barrier :: "multi_env \<Rightarrow> nat \<Rightarrow> multi_system \<Rightarrow> (bool \<times> multi_system) result" where
  "mu_add_barrier v i s =
     rbind (deref (vec_get (mu_fences s) i)) (\<lambda>n.
       on_channel (ms_add_barrier (me_cfg (mv_env v))) i (s\<lparr>mu_fences := (mu_fences s)[i := n + 1]\<rparr>))"

section \<open>Cycles\<close>

fun update_channels :: "mem_env \<Rightarrow> mem_system list \<Rightarrow> mem_system list result" where
  "update_channels e [] = Inr []"
| "update_channels e (m # ms) =
     rbind (mem_system_update e m) (\<lambda>m'. rbind (update_channels e ms) (\<lambda>ms'. Inr (m' # ms')))"

text \<open>One cycle of the memory; the statistics printed at the end of an epoch leave the state as it is.\<close>

definition actual_update :: "multi_env \<Rightarrow> multi_system \<Rightarrow> multi_system result" where
  "actual_update v s =
     (if 0 < mu_clock s \<and> mv_epoch v = 0 then Inl Undefined
      else rbind (update_channels (mv_env v) (mu_channels s)) (\<lambda>ms.
        Inr (s\<lparr>mu_channels := ms, mu_clock := mu_clock s + 1\<rparr>)))"

definition mu_update :: "multi_env \<Rightarrow> multi_system \<Rightarrow> multi_system result option" where
  "mu_update v s =
     map_option (\<lambda>r. rbind r (\<lambda>(x, s'). Inr (s'\<lparr>mu_crosser := x\<rparr>)))
       (crosser_update (actual_update v) (mu_crosser s) s)"

definition mu_set_cpu_clock :: "multi_env \<Rightarrow> u64 \<Rightarrow> multi_system \<Rightarrow> multi_system result" where
  "mu_set_cpu_clock v hz s =
     rbind (set_cpu_clock (tCK (me_cfg (mv_env v))) hz (mu_crosser s)) (\<lambda>x. Inr (s\<lparr>mu_crosser := x\<rparr>))"

section \<open>Queries and statistics\<close>

text \<open>The number of pending transactions is an \<^verbatim>\<open>int\<close>: the sum, cut to 32 bits.\<close>

definition pending_transactions :: "multi_system \<Rightarrow> u32" where
  "pending_transactions s = fold (\<lambda>m n. ucast (ucast n + ms_in_flight m)) (mu_channels s) 0"

definition mu_will_accept_at :: "multi_env \<Rightarrow> u64 \<Rightarrow> multi_system \<Rightarrow> bool result" where
  "mu_will_accept_at v a s =
     rbind (address_mapping (me_map (mv_env v)) a) (\<lambda>co.
     rbind (deref (vec_get (mu_channels s) (unat (co_chan co)))) (\<lambda>m. Inr (will_accept (me_cfg (mv_env v)) (ms_ctrl m))))"

definition mu_will_accept :: "multi_env \<Rightarrow> multi_system \<Rightarrow> bool" where
  "mu_will_accept v s \<longleftrightarrow> list_all (\<lambda>m. will_accept (me_cfg (mv_env v)) (ms_ctrl m)) (mu_channels s)"

text \<open>Of the statistics that are printed and then reset, the model has the latencies of the epoch.\<close>

definition mc_reset_stats :: "mem_ctrl \<Rightarrow> mem_ctrl" where
  "mc_reset_stats m = m\<lparr>mc_epoch_latency := map (\<lambda>_. 0) (mc_epoch_latency m)\<rparr>"

definition mu_reset_stats :: "multi_system \<Rightarrow> multi_system" where
  "mu_reset_stats s = s\<lparr>mu_channels := map (\<lambda>m. m\<lparr>ms_ctrl := mc_reset_stats (ms_ctrl m)\<rparr>) (mu_channels s)\<rparr>"

section \<open>Runs\<close>

datatype mu_op = MuAdd transaction | MuBarrier nat | MuUpdate

text \<open>\<^const>\<open>None\<close> for a clock domain crosser that does not come back.\<close>

fun mu_op_step :: "multi_env \<Rightarrow> mu_op \<Rightarrow> multi_system \<Rightarrow> multi_system result option" where
  "mu_op_step v (MuAdd t) s = Some (rbind (mu_add_transaction v t s) (\<lambda>(_, s'). Inr s'))"
| "mu_op_step v (MuBarrier i) s = Some (rbind (mu_add_barrier v i s) (\<lambda>(_, s'). Inr s'))"
| "mu_op_step v MuUpdate s = mu_update v s"

fun run_multi :: "multi_env \<Rightarrow> mu_op list \<Rightarrow> multi_system \<Rightarrow> multi_system result option" where
  "run_multi v [] s = Some (Inr s)"
| "run_multi v (op # ops) s =
     (case mu_op_step v op s of
        None \<Rightarrow> None
      | Some (Inl err) \<Rightarrow> Some (Inl err)
      | Some (Inr s') \<Rightarrow> run_multi v ops s')"

definition mu_op_ok :: "multi_env \<Rightarrow> mu_op \<Rightarrow> bool" where
  "mu_op_ok v op \<longleftrightarrow> (case op of
     MuAdd t \<Rightarrow> plain_trans (mv_env v) t \<and> (\<exists>i < unat (mv_chans v). find_channel v (tr_addr t) = Inr i)
   | MuBarrier i \<Rightarrow> i < unat (mv_chans v)
   | MuUpdate \<Rightarrow> True)"

text \<open>What one channel sees, the memory running at \<^verbatim>\<open>c1\<close> and the caller, \<^verbatim>\<open>n\<close> cycles old, at \<^verbatim>\<open>c2\<close>.\<close>

fun channel_ops :: "multi_env \<Rightarrow> u64 \<Rightarrow> u64 \<Rightarrow> nat \<Rightarrow> nat \<Rightarrow> mu_op list \<Rightarrow> mem_op list" where
  "channel_ops v c1 c2 i n [] = []"
| "channel_ops v c1 c2 i n (MuAdd t # ops) =
     (if find_channel v (tr_addr t) = Inr i then [AddTransaction t] else []) @ channel_ops v c1 c2 i n ops"
| "channel_ops v c1 c2 i n (MuBarrier j # ops) = (if j = i then [AddBarrier] else []) @ channel_ops v c1 c2 i n ops"
| "channel_ops v c1 c2 i n (MuUpdate # ops) =
     replicate (ticks_due (Suc n) c1 c2 - ticks_due n c1 c2) Update @ channel_ops v c1 c2 i (Suc n) ops"

fun updates_in :: "mu_op list \<Rightarrow> nat" where
  "updates_in [] = 0"
| "updates_in (MuUpdate # ops) = Suc (updates_in ops)"
| "updates_in (_ # ops) = updates_in ops"

section \<open>Every channel by itself\<close>

lemma run_mem_append: "run_mem e (ops @ ops') s = rbind (run_mem e ops s) (run_mem e ops')"
proof (induction ops arbitrary: s)
  case (Cons op ops)
  then show ?case by (cases "mem_op_step e op s") simp_all
qed simp

definition multi_inv :: "multi_env \<Rightarrow> nat \<Rightarrow> multi_system \<Rightarrow> bool" where
  "multi_inv v k s \<longleftrightarrow> channel_ok (mv_env v) \<and> mv_epoch v \<noteq> 0 \<and> length (mu_channels s) = unat (mv_chans v)
     \<and> length (mu_fences s) = unat (mv_chans v) \<and> (\<forall>m \<in> set (mu_channels s). channel_inv (mv_env v) (of_nat k) m)"

text \<open>From a start at \<^verbatim>\<open>t0\<close> some cycles on: the same crosser and fences, and each channel updated as often.\<close>

definition multi_ticked :: "multi_env \<Rightarrow> nat \<Rightarrow> multi_system \<Rightarrow> nat \<Rightarrow> multi_system \<Rightarrow> bool" where
  "multi_ticked v t0 s0 t s \<longleftrightarrow> multi_inv v t s \<and> t0 \<le> t \<and> mu_crosser s = mu_crosser s0 \<and> mu_fences s = mu_fences s0
     \<and> (\<forall>i < unat (mv_chans v). run_mem (mv_env v) (replicate (t - t0) Update) (mu_channels s0 ! i) = Inr (mu_channels s ! i))"

lemma update_channels_ok:
  assumes "channel_ok e" and "cycle_ok now"
  shows "\<forall>m \<in> set ms. channel_inv e now m \<Longrightarrow>
    \<exists>ms'. update_channels e ms = Inr ms' \<and> list_all2 (\<lambda>m m'. mem_system_update e m = Inr m' \<and> channel_inv e (now + 1) m') ms ms'"
proof (induction ms)
  case (Cons m ms)
  obtain m' where m': "mem_system_update e m = Inr m'" "channel_inv e (now + 1) m'"
    using update_ok [OF assms] Cons.prems by auto
  from Cons m' show ?case by auto
qed simp

lemma replicate_Suc_end: "replicate (Suc n) x = replicate n x @ [x]"
  by (simp add: replicate_append_same)

interpretation multi: ticking "actual_update v" "multi_ticked v t0 s0" "2 ^ 64 - 2 ^ 32" for v t0 s0
proof
  fix t s
  assume I: "multi_ticked v t0 s0 t s" and t: "t < 2 ^ 64 - 2 ^ 32"
  have inv: "channel_ok (mv_env v)" "mv_epoch v \<noteq> 0" "\<forall>m \<in> set (mu_channels s). channel_inv (mv_env v) (of_nat t) m"
    using I by (simp_all add: multi_ticked_def multi_inv_def)
  have "cycle_ok (of_nat t)" using t by (simp add: cycle_ok_def unat_fits)
  from update_channels_ok [OF inv(1) this inv(3)] obtain ms where
    ms: "update_channels (mv_env v) (mu_channels s) = Inr ms"
    "list_all2 (\<lambda>m m'. mem_system_update (mv_env v) m = Inr m' \<and> channel_inv (mv_env v) (of_nat t + 1) m') (mu_channels s) ms" by blast
  let ?s = "s\<lparr>mu_channels := ms, mu_clock := mu_clock s + 1\<rparr>"
  have len: "length (mu_channels s) = unat (mv_chans v)" using I by (simp add: multi_ticked_def multi_inv_def)
  have nth: "mem_system_update (mv_env v) (mu_channels s ! i) = Inr (ms ! i) \<and> channel_inv (mv_env v) (of_nat t + 1) (ms ! i)"
    if "i < unat (mv_chans v)" for i using list_all2_nthD [OF ms(2)] that len by simp
  have lms: "length ms = unat (mv_chans v)" using ms(2) len by (simp add: list_all2_lengthD)
  then have "\<forall>m \<in> set ms. channel_inv (mv_env v) (of_nat (Suc t)) m" using nth by (auto simp: in_set_conv_nth add.commute)
  then have "multi_inv v (Suc t) ?s" using I lms by (auto simp: multi_ticked_def multi_inv_def)
  moreover have "run_mem (mv_env v) (replicate (Suc t - t0) Update) (mu_channels s0 ! i) = Inr (ms ! i)"
    if i: "i < unat (mv_chans v)" for i
  proof -
    have "replicate (Suc t - t0) Update = replicate (t - t0) Update @ [Update]"
      using I by (simp add: multi_ticked_def Suc_diff_le replicate_append_same)
    then show ?thesis using I i nth [OF i] by (simp add: multi_ticked_def run_mem_append)
  qed
  ultimately have "multi_ticked v t0 s0 (Suc t) ?s" using I by (simp add: multi_ticked_def)
  moreover have "actual_update v s = Inr ?s" using inv(2) ms(1) by (simp add: actual_update_def)
  ultimately show "\<exists>s'. actual_update v s = Inr s' \<and> multi_ticked v t0 s0 (Suc t) s'" by blast
qed

definition multi_at :: "multi_env \<Rightarrow> nat \<Rightarrow> multi_system \<Rightarrow> bool" where
  "multi_at v n s \<longleftrightarrow> clocks_ok (mu_crosser s) \<and> (\<exists>k. crossed n k (mu_crosser s) \<and> multi_inv v k s)"

abbreviation due :: "nat \<Rightarrow> multi_system \<Rightarrow> nat" where
  "due n s \<equiv> ticks_due n (cx_clock1 (mu_crosser s)) (cx_clock2 (mu_crosser s))"

text \<open>What a step of the whole does to each channel, \<^verbatim>\<open>js\<close> being the operations of the channel.\<close>

definition channels_step :: "multi_env \<Rightarrow> (nat \<Rightarrow> mem_op list) \<Rightarrow> multi_system \<Rightarrow> multi_system \<Rightarrow> bool" where
  "channels_step v js s s' \<longleftrightarrow> cx_clock1 (mu_crosser s') = cx_clock1 (mu_crosser s) \<and> cx_clock2 (mu_crosser s') = cx_clock2 (mu_crosser s)
     \<and> (\<forall>i < unat (mv_chans v). run_mem (mv_env v) (js i) (mu_channels s ! i) = Inr (mu_channels s' ! i))"

lemma mu_update_ok:
  assumes at: "multi_at v n s" and lim: "due (Suc n) s \<le> 2 ^ 64 - 2 ^ 32"
  shows "\<exists>s'. mu_update v s = Some (Inr s') \<and> multi_at v (Suc n) s'
    \<and> channels_step v (\<lambda>_. replicate (due (Suc n) s - due n s) Update) s s'"
proof -
  obtain k where k: "clocks_ok (mu_crosser s)" "crossed n k (mu_crosser s)" "multi_inv v k s" using at by (auto simp: multi_at_def)
  have "multi_ticked v k s k s" using k(3) by (simp add: multi_ticked_def)
  from multi.update_crossed [OF k(1,2) this lim] obtain x s' k' where
    x: "crosser_update (actual_update v) (mu_crosser s) s = Some (Inr (x, s'))" "multi_ticked v k s k' s'" "crossed (Suc n) k' x"
      "cx_clock1 x = cx_clock1 (mu_crosser s)" "cx_clock2 x = cx_clock2 (mu_crosser s)" by blast
  have ok: "clocks_ok x" using k(1) x(4,5) by (simp add: clocks_ok_def)
  have "k = due n s" "k' = due (Suc n) s" using crossed_due [OF k(1,2)] crossed_due [OF ok x(3)] x(4,5) by simp_all
  with x k ok show ?thesis
    by (intro exI [of _ "s'\<lparr>mu_crosser := x\<rparr>"])
      (auto simp: mu_update_def multi_at_def channels_step_def multi_ticked_def multi_inv_def)
qed

lemma on_channel_ok:
  assumes at: "multi_at v n s" and i: "i < unat (mv_chans v)" and op: "run_mem (mv_env v) js (mu_channels s ! i) = Inr (snd (f (mu_channels s ! i)))"
    and inv: "\<And>now. channel_inv (mv_env v) now (mu_channels s ! i) \<Longrightarrow> channel_inv (mv_env v) now (snd (f (mu_channels s ! i)))"
    and fs: "length fs = length (mu_fences s)"
  shows "\<exists>ok s'. on_channel f i (s\<lparr>mu_fences := fs\<rparr>) = Inr (ok, s') \<and> multi_at v n s'
    \<and> channels_step v (\<lambda>j. if i = j then js else []) s s'"
proof -
  obtain k where k: "clocks_ok (mu_crosser s)" "crossed n k (mu_crosser s)" "multi_inv v k s" using at by (auto simp: multi_at_def)
  obtain ok m' where f: "f (mu_channels s ! i) = (ok, m')" by fastforce
  let ?s = "s\<lparr>mu_fences := fs, mu_channels := (mu_channels s)[i := m']\<rparr>"
  have len: "i < length (mu_channels s)" using k(3) i by (simp add: multi_inv_def)
  have "on_channel f i (s\<lparr>mu_fences := fs\<rparr>) = Inr (ok, ?s)" using len f by (simp add: on_channel_def)
  moreover have "multi_inv v k ?s"
    using k(3) inv [of "of_nat k"] f fs len by (auto simp: multi_inv_def dest!: subsetD [OF set_update_subset_insert])
  then have "multi_at v n ?s" using k(1,2) by (auto simp: multi_at_def)
  moreover have "channels_step v (\<lambda>j. if i = j then js else []) s ?s"
    using op f len by (auto simp: channels_step_def nth_list_update)
  ultimately show ?thesis by blast
qed

lemma mu_op_step_ok:
  assumes at: "multi_at v n s" and ok: "mu_op_ok v op" and lim: "due (n + updates_in [op]) s \<le> 2 ^ 64 - 2 ^ 32"
  shows "\<exists>s'. mu_op_step v op s = Some (Inr s') \<and> multi_at v (n + updates_in [op]) s'
    \<and> channels_step v (\<lambda>i. channel_ops v (cx_clock1 (mu_crosser s)) (cx_clock2 (mu_crosser s)) i n [op]) s s'"
proof (cases op)
  case (MuAdd t)
  let ?c = "me_cfg (mv_env v)"
  obtain i where i: "plain_trans (mv_env v) t" "i < unat (mv_chans v)" "find_channel v (tr_addr t) = Inr i"
    using ok MuAdd by (auto simp: mu_op_ok_def)
  have "\<exists>ok s'. on_channel (ms_add_transaction ?c t) i (s\<lparr>mu_fences := mu_fences s\<rparr>) = Inr (ok, s') \<and> multi_at v n s'
    \<and> channels_step v (\<lambda>j. if i = j then [AddTransaction t] else []) s s'"
    by (rule on_channel_ok [OF at i(2)]) (simp_all add: add_ok(1) i(1))
  then show ?thesis using i(3) MuAdd by (auto simp: mu_add_transaction_def)
next
  case (MuBarrier i)
  let ?c = "me_cfg (mv_env v)"
  have i: "i < unat (mv_chans v)" "i < length (mu_fences s)" using ok MuBarrier at by (auto simp: mu_op_ok_def multi_at_def multi_inv_def)
  have "\<exists>ok s'. on_channel (ms_add_barrier ?c) i (s\<lparr>mu_fences := (mu_fences s)[i := mu_fences s ! i + 1]\<rparr>) = Inr (ok, s')
    \<and> multi_at v n s' \<and> channels_step v (\<lambda>j. if i = j then [AddBarrier] else []) s s'"
    by (rule on_channel_ok [OF at i(1)]) (simp_all add: barrier_ok)
  then show ?thesis using i(2) MuBarrier by (auto simp: mu_add_barrier_def)
next
  case MuUpdate
  then show ?thesis using mu_update_ok [OF at] lim by simp
qed

lemma run_multi_ok:
  "multi_at v n s \<Longrightarrow> list_all (mu_op_ok v) ops \<Longrightarrow> due (n + updates_in ops) s \<le> 2 ^ 64 - 2 ^ 32 \<Longrightarrow>
    \<exists>s'. run_multi v ops s = Some (Inr s') \<and> multi_at v (n + updates_in ops) s'
      \<and> channels_step v (\<lambda>i. channel_ops v (cx_clock1 (mu_crosser s)) (cx_clock2 (mu_crosser s)) i n ops) s s'"
proof (induction ops arbitrary: n s)
  case (Cons op ops)
  have sum: "updates_in (op # ops) = updates_in [op] + updates_in ops" by (cases op) simp_all
  let ?c1 = "cx_clock1 (mu_crosser s)" and ?c2 = "cx_clock2 (mu_crosser s)" and ?n = "n + updates_in [op]"
  have "due ?n s \<le> due (n + updates_in (op # ops)) s" by (rule ticks_due_mono) (simp add: sum)
  with Cons.prems(3) have "due ?n s \<le> 2 ^ 64 - 2 ^ 32" by linarith
  with mu_op_step_ok [OF Cons.prems(1), of op] Cons.prems(2) obtain s1 where
    1: "mu_op_step v op s = Some (Inr s1)" "multi_at v ?n s1" "channels_step v (\<lambda>i. channel_ops v ?c1 ?c2 i n [op]) s s1" by auto
  have clk: "cx_clock1 (mu_crosser s1) = ?c1" "cx_clock2 (mu_crosser s1) = ?c2" using 1(3) by (simp_all add: channels_step_def)
  have n: "?n + updates_in ops = n + updates_in (op # ops)" using sum by simp
  have "due (?n + updates_in ops) s1 \<le> 2 ^ 64 - 2 ^ 32" unfolding clk n by (rule Cons.prems(3))
  from Cons.IH [OF 1(2) _ this] Cons.prems(2) obtain s' where
    2: "run_multi v ops s1 = Some (Inr s')" "multi_at v (?n + updates_in ops) s'"
      "channels_step v (\<lambda>i. channel_ops v ?c1 ?c2 i ?n ops) s1 s'"
    unfolding clk by auto
  have "channel_ops v c1 c2 i n (op # ops) = channel_ops v c1 c2 i n [op] @ channel_ops v c1 c2 i ?n ops" for c1 c2 i
    by (cases op) simp_all
  then have "channels_step v (\<lambda>i. channel_ops v ?c1 ?c2 i n (op # ops)) s s'"
    using 1(3) 2(3) by (simp add: channels_step_def run_mem_append)
  moreover have "run_multi v (op # ops) s = Some (Inr s')" using 1(1) 2(1) by simp
  ultimately show ?case using 2(2) unfolding n by blast
qed (simp add: channels_step_def)

section \<open>From the start\<close>

lemma mem_system_init_ranks:
  "mem_system_init jk st pol c = Inr s \<Longrightarrow> length (ms_ranks s) = ranks_of c"
  by (cases "mem_ctrl_init st pol c") (auto simp: mem_system_init_def)

lemma channel_init_ok:
  assumes "channel_init g st pol megs jk c = Inr (c', s)" and "megs \<noteq> 0"
  shows "\<exists>n. rank_count (ge_rows g) (NUM_COLS c) (ge_width g) (NUM_BANKS c) (ge_bus_bits g) megs = Inr n
    \<and> c' = c\<lparr>NUM_RANKS := n\<rparr> \<and> mem_system_init jk st pol c' = Inr s"
proof (cases "rank_count (ge_rows g) (NUM_COLS c) (ge_width g) (NUM_BANKS c) (ge_bus_bits g) megs")
  case (Inl err)
  then show ?thesis using assms(1) by (simp add: channel_init_def)
next
  case (Inr n)
  define d where "d = c\<lparr>NUM_RANKS := n\<rparr>"
  have i: "rbind (mem_system_init jk st pol d) (\<lambda>s. Inr (d, s\<lparr>ms_ranks := take (unat n) (ms_ranks s)\<rparr>)) = Inr (c', s)"
    using assms unfolding channel_init_def Inr rbind.simps Let_def d_def by simp
  then obtain s1 where s1: "mem_system_init jk st pol d = Inr s1" "c' = d" "s = s1\<lparr>ms_ranks := take (unat n) (ms_ranks s1)\<rparr>"
    by (cases "mem_system_init jk st pol d") simp_all
  have "length (ms_ranks s1) = unat n" using mem_system_init_ranks [OF s1(1)] by (simp add: d_def ranks_of_def)
  then have "s = s1" using s1(3) by simp
  with Inr s1(1,2) show ?thesis by (simp add: d_def)
qed

lemma channels_init_ok:
  assumes "channels_init g st pol megs junks i n c = Inr (c', ss)" and "megs \<noteq> 0"
  shows "length ss = n \<and> (\<forall>s \<in> set ss. \<exists>jk. mem_system_init jk st pol c' = Inr s)
    \<and> (0 < n \<longrightarrow> (\<exists>m. rank_count (ge_rows g) (NUM_COLS c) (ge_width g) (NUM_BANKS c) (ge_bus_bits g) megs = Inr m
        \<and> c' = c\<lparr>NUM_RANKS := m\<rparr>))"
  using assms
proof (induction n arbitrary: i c c' ss)
  case (Suc n)
  obtain c1 s ss' where 1: "channel_init g st pol megs (junks i) c = Inr (c1, s)"
    "channels_init g st pol megs junks (Suc i) n c1 = Inr (c', ss')" "ss = s # ss'"
    using Suc.prems(1) by (auto simp: rbind_Inr)
  obtain m where m: "rank_count (ge_rows g) (NUM_COLS c) (ge_width g) (NUM_BANKS c) (ge_bus_bits g) megs = Inr m"
    "c1 = c\<lparr>NUM_RANKS := m\<rparr>" "mem_system_init (junks i) st pol c1 = Inr s"
    using channel_init_ok [OF 1(1) Suc.prems(2)] by blast
  have "c' = c1"
  proof (cases n)
    case 0
    then show ?thesis using 1(2) by simp
  next
    case Suc
    have "rank_count (ge_rows g) (NUM_COLS c1) (ge_width g) (NUM_BANKS c1) (ge_bus_bits g) megs = Inr m"
      using m(1) by (simp add: m(2))
    then have "c' = c1\<lparr>NUM_RANKS := m\<rparr>" using Suc.IH [OF 1(2) Suc.prems(2)] Suc by auto
    then show ?thesis by (simp add: m(2))
  qed
  with Suc.IH [OF 1(2) Suc.prems(2)] 1(3) m show ?case by (metis length_Cons set_ConsD)
qed simp

lemma multi_init_at:
  assumes "channel_ok (mv_env v)" and "mv_epoch v \<noteq> 0" and "mv_chans v \<le> megs"
    and "multi_init g PerRank pol megs junks (mv_chans v) c = Inr (me_cfg (mv_env v), s)"
  shows "multi_inv v 0 s" and "mu_crosser s = crosser_init"
proof -
  obtain ss where ss: "channels_init g PerRank pol (megs div mv_chans v) junks 0 (unat (mv_chans v)) c = Inr (me_cfg (mv_env v), ss)"
    "s = \<lparr>mu_channels = ss, mu_clock = 0, mu_crosser = crosser_init, mu_fences = replicate (unat (mv_chans v)) 0\<rparr>"
    "mv_chans v \<noteq> 0"
    using assms(4) by (auto simp: multi_init_def rbind_Inr split: if_splits)
  have "0 < unat megs div unat (mv_chans v)"
    using assms(3) ss(3) by (simp add: div_greater_zero_iff word_le_nat_alt unat_gt_0 word_gt_0)
  then have "megs div mv_chans v \<noteq> 0" by (metis unat_0 unat_div nat_less_le)
  from channels_init_ok [OF ss(1) this] init_inv [OF assms(1)]
  have "length ss = unat (mv_chans v)" "\<forall>m \<in> set ss. channel_inv (mv_env v) 0 m" by blast+
  then show "multi_inv v 0 s" using assms(1,2) ss(2) by (simp add: multi_inv_def)
  show "mu_crosser s = crosser_init" using ss(2) by simp
qed

text \<open>C5: from the constructor, with a configuration whose delays fit, a power of two of megabytes of at least one per
  channel, and any clocks whose least common multiple fits, every sequence of plain accesses, barriers and
  cycles of the caller runs to its end without an error and without hanging in the clock domain crosser, and
  each channel is then in exactly the state it would have reached alone from the accesses of its own
  addresses, its own barriers and the cycles that are due by the ratio of the clocks.\<close>

theorem channels_independent:
  assumes "channel_ok (mv_env v)" and "mv_epoch v \<noteq> 0" and "mv_chans v \<le> megs"
    and "multi_init g PerRank pol megs junks (mv_chans v) c = Inr (me_cfg (mv_env v), s0)"
    and "clocks_ok (crosser_init\<lparr>cx_clock1 := c1, cx_clock2 := c2\<rparr>)"
    and "list_all (mu_op_ok v) ops" and "ticks_due (updates_in ops) c1 c2 + 2 ^ 32 \<le> 2 ^ 64"
  shows "\<exists>s. run_multi v ops (s0\<lparr>mu_crosser := crosser_init\<lparr>cx_clock1 := c1, cx_clock2 := c2\<rparr>\<rparr>) = Some (Inr s)
    \<and> (\<forall>i < unat (mv_chans v). run_mem (mv_env v) (channel_ops v c1 c2 i 0 ops) (mu_channels s0 ! i) = Inr (mu_channels s ! i))"
proof -
  let ?x = "crosser_init\<lparr>cx_clock1 := c1, cx_clock2 := c2\<rparr>" and ?s = "s0\<lparr>mu_crosser := crosser_init\<lparr>cx_clock1 := c1, cx_clock2 := c2\<rparr>\<rparr>"
  have "crossed 0 0 ?x" using assms(5) by (auto simp: crossed_def Let_def clocks_ok_def crosser_init_def unat_gt_0 word_gt_0 lcm_pos_nat)
  moreover have "multi_inv v 0 ?s" using multi_init_at(1) [OF assms(1-4)] by (simp add: multi_inv_def)
  ultimately have at: "multi_at v 0 ?s" using assms(5) by (auto simp: multi_at_def)
  have "due (0 + updates_in ops) ?s \<le> 2 ^ 64 - 2 ^ 32" using assms(7) by simp
  from run_multi_ok [OF at assms(6) this] show ?thesis by (auto simp: channels_step_def)
qed

text \<open>Two channels of one rank; the memory runs at 2 clocks for 3 of the caller.\<close>

definition demo_multi :: multi_env where
  "demo_multi = \<lparr>mv_env = demo_mem, mv_chans = 2, mv_epoch = 1000\<rparr>"

definition demo_geometry :: geometry where
  "demo_geometry = \<lparr>ge_rows = 4096, ge_width = 64, ge_bus_bits = 64\<rparr>"

definition demo_mu_ops :: "mu_op list" where
  "demo_mu_ops =
     [MuAdd (mk_transaction OpenPage DATA_READ 0 [] (Some 1)), MuUpdate, MuBarrier 0,
      MuAdd (mk_transaction OpenPage DATA_WRITE 96 [] (Some 2)), MuUpdate, MuUpdate]"

lemma demo_multi_start:
  "\<exists>s0. multi_init demo_geometry PerRank RankThenBankRoundRobin 2 (\<lambda>_. [(False, False, False, False)]) (mv_chans demo_multi)
     (me_cfg demo_mem) = Inr (me_cfg demo_mem, s0)"
proof -
  have p: "is_power_of_two 2" by (simp add: is_power_of_two_def u_log2_def halvings.simps drop_bit_eq_div Let_def)
  have r: "rank_count 4096 (NUM_COLS (me_cfg demo_mem)) 64 (NUM_BANKS (me_cfg demo_mem)) 64 1 = Inr 1"
    by (simp add: rank_count_def demo_mem_def demo_env_def me_cfg_def drop_bit_eq_div)
  have c: "(me_cfg demo_mem)\<lparr>NUM_RANKS := 1\<rparr> = me_cfg demo_mem" by (simp add: demo_mem_def demo_env_def me_cfg_def)
  obtain s1 where s1: "mem_system_init [(False, False, False, False)] PerRank RankThenBankRoundRobin (me_cfg demo_mem) = Inr s1"
    using demo_start by blast
  have "length (ms_ranks s1) = 1" using s1 by (simp add: mem_system_init_def mem_ctrl_init_def demo_mem_def demo_env_def me_cfg_def
      ranks_of_def demo_cycles) (auto simp: mem_system.defs)
  then have "s1\<lparr>ms_ranks := take (unat (1 :: u32)) (ms_ranks s1)\<rparr> = s1" by simp
  then have i: "channel_init demo_geometry PerRank RankThenBankRoundRobin 1 [(False, False, False, False)] (me_cfg demo_mem)
    = Inr (me_cfg demo_mem, s1)"
    unfolding channel_init_def demo_geometry_def geometry.simps r using s1 c by simp
  have "(2 :: u32) div 2 = 1" "unat (2 :: u32) = Suc (Suc 0)" by simp_all
  with p show ?thesis unfolding multi_init_def demo_multi_def multi_env.simps
    by (simp add: i numeral_2_eq_2)
qed

lemma demo_mu_ops_ok: "list_all (mu_op_ok demo_multi) demo_mu_ops"
proof -
  have p: "is_power_of_two 2" by (simp add: is_power_of_two_def u_log2_def halvings.simps drop_bit_eq_div Let_def)
  show ?thesis
    by (simp add: demo_mu_ops_def mu_op_ok_def demo_multi_def find_channel_def p mk_transaction_def demo_mem_def demo_address plain_trans_def
        demo_env_def me_cfg_def ranks_of_def banks_of_def is_reserved_ra_def word_le_nat_alt)
qed

theorem channels_independent_witness:
  "\<exists>s0 s. multi_init demo_geometry PerRank RankThenBankRoundRobin 2 (\<lambda>_. [(False, False, False, False)]) 2 (me_cfg demo_mem)
       = Inr (me_cfg demo_mem, s0)
     \<and> run_multi demo_multi demo_mu_ops (s0\<lparr>mu_crosser := crosser_init\<lparr>cx_clock1 := 2, cx_clock2 := 3\<rparr>\<rparr>) = Some (Inr s)
     \<and> run_mem demo_mem [Update, AddTransaction (mk_transaction OpenPage DATA_WRITE 96 [] (Some 2)), Update] (mu_channels s0 ! 1)
       = Inr (mu_channels s ! 1)"
proof -
  obtain s0 where s0: "multi_init demo_geometry PerRank RankThenBankRoundRobin 2 (\<lambda>_. [(False, False, False, False)]) (mv_chans demo_multi)
     (me_cfg demo_mem) = Inr (me_cfg demo_mem, s0)" using demo_multi_start by blast
  have p: "is_power_of_two 2" by (simp add: is_power_of_two_def u_log2_def halvings.simps drop_bit_eq_div Let_def)
  have l: "lcm 2 3 = (6 :: nat)" by code_simp
  have e: "mv_env demo_multi = demo_mem" "mv_chans demo_multi = 2" "mv_epoch demo_multi \<noteq> 0" by (simp_all add: demo_multi_def)
  have "clocks_ok (crosser_init\<lparr>cx_clock1 := 2, cx_clock2 := 3\<rparr>)" by (simp add: clocks_ok_def l)
  moreover have "ticks_due (updates_in demo_mu_ops) 2 3 + 2 ^ 32 \<le> 2 ^ 64" by (simp add: demo_mu_ops_def ticks_due_def)
  ultimately obtain s where s: "run_multi demo_multi demo_mu_ops (s0\<lparr>mu_crosser := crosser_init\<lparr>cx_clock1 := 2, cx_clock2 := 3\<rparr>\<rparr>) = Some (Inr s)"
    "\<forall>i < unat (mv_chans demo_multi).
       run_mem demo_mem (channel_ops demo_multi 2 3 i 0 demo_mu_ops) (mu_channels s0 ! i) = Inr (mu_channels s ! i)"
    using channels_independent [where v = demo_multi and ?c1.0 = 2 and ?c2.0 = 3 and ops = demo_mu_ops and megs = 2]
      s0 e demo_channel demo_mu_ops_ok by (metis order_refl)
  have f: "find_channel demo_multi 0 = Inr 0" "find_channel demo_multi 96 = Inr 1"
    by (simp_all add: find_channel_def demo_multi_def p demo_mem_def demo_address word_le_nat_alt)
  have "channel_ops demo_multi 2 3 1 0 demo_mu_ops
      = [Update, AddTransaction (mk_transaction OpenPage DATA_WRITE 96 [] (Some 2)), Update]"
    by (simp add: demo_mu_ops_def f mk_transaction_def ticks_due_def)
  with s s0 e(2) show ?thesis by (auto dest!: spec [of _ 1])
qed

section \<open>Errors\<close>

lemma address_mapping_fits:
  assumes "widths_ok m"
  shows "\<exists>co. address_mapping m a = Inr co \<and> coords_fit m co"
  using address_mapping_eq [OF assms, of a] values_of_assign [OF assms, of "split_fields (map (unat \<circ> snd) (scheme_fields m)) (unat a div 2 ^ low_bits m)"]
    split_fit by (simp add: values_fit_def)

lemma unat_widen: "unat (ucast (x :: u32) :: u64) = unat x"
proof -
  have "unat x < 2 ^ 64" using unsigned_less [of x, where 'a = nat] by simp
  then show ?thesis by (simp add: unsigned_ucast_eq take_bit_nat_eq_self)
qed

lemma power_of_two_channels:
  assumes "is_power_of_two (ucast (n :: u32))" and "n \<noteq> 0"
  shows "2 ^ unat (u_log2 n) = unat n"
proof -
  let ?k = "unat (u_log2 n)"
  have p: "push_bit ?k 1 = (ucast n :: u64)" using assms(1) by (simp add: is_power_of_two_def)
  have "?k < 64"
  proof (rule ccontr)
    assume "\<not> ?k < 64"
    then have "push_bit ?k (1 :: u64) = 0" by (simp add: push_bit_eq_mult)
    with p have "unat (ucast n :: u64) = 0" by simp
    with assms(2) show False by (simp add: unat_widen unat_eq_zero)
  qed
  then have "unat (push_bit ?k (1 :: u64)) = 2 ^ ?k" by (simp add: push_bit_eq_mult unat_pow2)
  then show ?thesis using p by (simp add: unat_widen)
qed

text \<open>C40: with a mapping whose channel bits are those of the number of channels, an access ends in an error exactly if there
  are several channels and their number is not a power of two; otherwise it reaches the one channel of its
  address, which exists, and leaves the others alone.  A barrier on a channel that does not exist is undefined.\<close>

theorem access_errors:
  assumes "widths_ok (me_map (mv_env v))" and "am_chan_w (me_map (mv_env v)) = ucast (u_log2 (mv_chans v))"
    and "mv_chans v \<noteq> 0" and "length (mu_channels s) = unat (mv_chans v)" and "length (mu_fences s) = unat (mv_chans v)"
  shows "mu_add_access pol v is_write a tg d s =
      (if mv_chans v = 1 \<or> is_power_of_two (ucast (mv_chans v))
       then let co = projr (address_mapping (me_map (mv_env v)) a); i = (if mv_chans v = 1 then 0 else unat (co_chan co));
                (ok, m) = ms_add_access pol (me_cfg (mv_env v)) is_write a tg d (mu_channels s ! i) in
              Inr (ok, s\<lparr>mu_channels := (mu_channels s)[i := m]\<rparr>)
       else Inl Exited)
    \<and> (mu_add_barrier v j s = Inl err \<longleftrightarrow> unat (mv_chans v) \<le> j \<and> err = Undefined)"
proof
  let ?m = "me_map (mv_env v)"
  obtain co where co: "address_mapping ?m a = Inr co" "coords_fit ?m co" using address_mapping_fits [OF assms(1)] by blast
  have "find_channel v a = (if mv_chans v = 1 \<or> is_power_of_two (ucast (mv_chans v))
      then Inr (if mv_chans v = 1 then 0 else unat (co_chan co)) else Inl Exited)
    \<and> (mv_chans v = 1 \<or> is_power_of_two (ucast (mv_chans v)) \<longrightarrow> (if mv_chans v = 1 then 0 else unat (co_chan co)) < unat (mv_chans v))"
  proof (cases "mv_chans v \<noteq> 1 \<and> is_power_of_two (ucast (mv_chans v))")
    case True
    have "unat (ucast (u_log2 (mv_chans v)) :: u64) = unat (u_log2 (mv_chans v))" by (rule unat_widen)
    then have "unat (co_chan co) < unat (mv_chans v)"
      using co(2) assms(2) power_of_two_channels [OF _ assms(3)] True by (simp add: coords_fit_def)
    then show ?thesis using True co(1) by (simp add: find_channel_def word_le_nat_alt)
  next
    case False
    then show ?thesis by (auto simp: find_channel_def)
  qed
  then show "mu_add_access pol v is_write a tg d s =
      (if mv_chans v = 1 \<or> is_power_of_two (ucast (mv_chans v))
       then let co = projr (address_mapping ?m a); i = (if mv_chans v = 1 then 0 else unat (co_chan co));
                (ok, m) = ms_add_access pol (me_cfg (mv_env v)) is_write a tg d (mu_channels s ! i) in
              Inr (ok, s\<lparr>mu_channels := (mu_channels s)[i := m]\<rparr>)
       else Inl Exited)"
    using assms(4) by (simp add: mu_add_access_def on_channel_def co(1) Let_def split: prod.split)
  show "mu_add_barrier v j s = Inl err \<longleftrightarrow> unat (mv_chans v) \<le> j \<and> err = Undefined"
    using assms(4,5) by (cases "j < unat (mv_chans v)") (auto simp: mu_add_barrier_def on_channel_def vec_get_def split: prod.split)
qed

theorem access_errors_witness:
  "\<exists>s0. multi_init demo_geometry PerRank RankThenBankRoundRobin 2 (\<lambda>_. [(False, False, False, False)]) 2 (me_cfg demo_mem)
       = Inr (me_cfg demo_mem, s0)
     \<and> mu_add_access OpenPage demo_multi True 96 [] (Some 2) s0
       = (let (ok, m) = ms_add_access OpenPage (me_cfg demo_mem) True 96 [] (Some 2) (mu_channels s0 ! 1) in
          Inr (ok, s0\<lparr>mu_channels := (mu_channels s0)[1 := m]\<rparr>))
     \<and> mu_add_barrier demo_multi 2 s0 = Inl Undefined"
proof -
  obtain s0 where s0: "multi_init demo_geometry PerRank RankThenBankRoundRobin 2 (\<lambda>_. [(False, False, False, False)]) (mv_chans demo_multi)
     (me_cfg demo_mem) = Inr (me_cfg demo_mem, s0)" using demo_multi_start by blast
  have e: "mv_env demo_multi = demo_mem" "mv_chans demo_multi = 2" "mv_epoch demo_multi \<noteq> 0" "me_map demo_mem = demo_map"
    by (simp_all add: demo_multi_def demo_mem_def)
  have "multi_inv demo_multi 0 s0" using multi_init_at(1) [of demo_multi 2] s0 demo_channel e(1,3) by (simp add: e(2))
  then have len: "length (mu_channels s0) = 2" "length (mu_fences s0) = 2" by (simp_all add: multi_inv_def e(2))
  have p: "is_power_of_two 2" and l: "u_log2 2 = 1"
    by (simp_all add: is_power_of_two_def u_log2_def halvings.simps drop_bit_eq_div Let_def)
  have w: "widths_ok demo_map" "am_chan_w demo_map = 1" by (simp_all add: widths_ok_def width_ok_def demo_map_def)
  show ?thesis
    using access_errors [of demo_multi s0 OpenPage True 96 "[]" "Some 2" 2 Undefined] s0 len w p l e demo_address(2)
    by (simp add: Let_def)
qed

end
