(* ===== verification/NpuNet.thy ===== *)
theory NpuNet
  imports NpuCommon PimStorage "HOL-Library.Multiset"
begin

text \<open>
  The simple memory side of the NPU simulator: the channel hash (\<^verbatim>\<open>ONNXim/src/Hashing.cc\<close>,
  \<^verbatim>\<open>Dram::get_channel_id\<close>), \<^verbatim>\<open>SimpleDram\<close> (\<^verbatim>\<open>Dram.cc\<close>) and \<^verbatim>\<open>SimpleInterconnect\<close>
  (\<^verbatim>\<open>Interconnect.cc\<close>).  An access is a value, since its pointer is in one queue at a time.  Two locales
  state what the simulator relies on: a memory device that gives back what it was handed, channel by channel, and an
  interconnect that moves what it was handed to its destination.  The other DRAM models and the other interconnect
  wrap libraries that are not in the repository; they would be further instances.
\<close>

unbundle bit_operations_syntax

section \<open>The channel of an address\<close>

text \<open>The positions of the address bits that make up each bit of the hash.\<close>

definition ipoly_rows :: "u32 \<Rightarrow> nat list list" where
  "ipoly_rows n =
     (if n = 16 then
        [[11, 10, 9, 8, 6, 4, 3, 0], [12, 8, 7, 6, 5, 3, 1, 0], [9, 8, 7, 6, 4, 2, 1], [10, 9, 8, 7, 5, 3, 2]]
      else if n = 32 then
        [[13, 12, 11, 10, 9, 6, 5, 3, 0], [14, 13, 12, 11, 10, 7, 6, 4, 1], [14, 10, 9, 8, 7, 6, 3, 2, 0],
         [11, 10, 9, 8, 7, 4, 3, 1], [12, 11, 10, 9, 8, 5, 4, 2]]
      else if n = 64 then
        [[18, 17, 16, 15, 12, 10, 6, 5, 0], [15, 13, 12, 11, 10, 7, 5, 1, 0], [16, 14, 13, 12, 11, 8, 6, 2, 1],
         [17, 15, 14, 13, 12, 9, 7, 3, 2], [18, 16, 15, 14, 13, 10, 8, 4, 3], [17, 16, 15, 14, 11, 9, 5, 4]]
      else [])"

fun xor_bits :: "u64 \<Rightarrow> nat list \<Rightarrow> bool" where
  "xor_bits a [] = False"
| "xor_bits a (j # js) = (bit a j \<noteq> xor_bits a js)"

definition ipoly_hash :: "u64 \<Rightarrow> u32 \<Rightarrow> u32 \<Rightarrow> u32 result" where
  "ipoly_hash a index n =
     (case ipoly_rows n of
        [] \<Rightarrow> Inl Exited
      | rows \<Rightarrow> Inr (horner_sum of_bool 2 (map (\<lambda>i. xor_bits a (rows ! i) \<noteq> bit index i) [0..<length rows])))"

definition get_channel_id :: "u32 \<Rightarrow> u32 \<Rightarrow> mem_access \<Rightarrow> u32 result" where
  "get_channel_id n_ch req_size m =
     (if req_size = 0 \<or> n_ch = 0 then Inl Undefined
      else let line = ma_dram_address m div ucast req_size in
        if 16 \<le> n_ch then ipoly_hash line 0 n_ch
        else rbind (ipoly_hash line 0 16) (\<lambda>h. Inr (h mod n_ch)))"

section \<open>The simple memory\<close>

text \<open>The cycle of the last completion is not initialised: a parameter of the constructor.\<close>

record simple_dram =
  dm_latency :: u32
  dm_cycles :: u64
  dm_last_finish :: u64
  dm_waiting :: "(u64 \<times> mem_access) list list"
  dm_response :: "mem_access list list"

definition simple_dram_init :: "u64 \<Rightarrow> u32 \<Rightarrow> u32 \<Rightarrow> simple_dram" where
  "simple_dram_init junk latency n_ch =
     \<lparr>dm_latency = latency, dm_cycles = 0, dm_last_finish = junk, dm_waiting = replicate (unat n_ch) [],
      dm_response = replicate (unat n_ch) []\<rparr>"

definition simple_dram_cycle :: "simple_dram \<Rightarrow> simple_dram" where
  "simple_dram_cycle s =
     (let ready = (\<lambda>q. q \<noteq> [] \<and> fst (hd q) \<le> dm_cycles s) in
      s\<lparr>dm_response := map2 (\<lambda>q r. if ready q then r @ [snd (hd q)] else r) (dm_waiting s) (dm_response s),
        dm_waiting := map (\<lambda>q. if ready q then tl q else q) (dm_waiting s),
        dm_cycles := dm_cycles s + 1\<rparr>)"

definition simple_dram_is_full :: "nat \<Rightarrow> mem_access \<Rightarrow> simple_dram \<Rightarrow> bool" where
  "simple_dram_is_full ch m s = False"

definition simple_dram_push :: "nat \<Rightarrow> mem_access \<Rightarrow> simple_dram \<Rightarrow> simple_dram result" where
  "simple_dram_push ch m s =
     (let finish = max (dm_cycles s + ucast (dm_latency s)) (dm_last_finish s) in
      rbind (deref (vec_get (dm_waiting s) ch)) (\<lambda>q.
        Inr (s\<lparr>dm_last_finish := finish, dm_waiting := (dm_waiting s)[ch := q @ [(finish, m\<lparr>ma_request := False\<rparr>)]]\<rparr>)))"

definition simple_dram_is_empty :: "nat \<Rightarrow> simple_dram \<Rightarrow> bool result" where
  "simple_dram_is_empty ch s = rbind (deref (vec_get (dm_response s) ch)) (\<lambda>q. Inr (q = []))"

definition simple_dram_top :: "nat \<Rightarrow> simple_dram \<Rightarrow> mem_access result" where
  "simple_dram_top ch s =
     rbind (deref (vec_get (dm_response s) ch)) (\<lambda>q. if q = [] then Inl Exited else Inr (hd q))"

definition simple_dram_pop :: "nat \<Rightarrow> simple_dram \<Rightarrow> simple_dram result" where
  "simple_dram_pop ch s =
     rbind (deref (vec_get (dm_response s) ch)) (\<lambda>q.
       if q = [] then Inl Exited else Inr (s\<lparr>dm_response := (dm_response s)[ch := tl q]\<rparr>))"

section \<open>The simple interconnect\<close>

text \<open>The node the round robin starts with is not initialised either.\<close>

record icnt_entity =
  ie_finish_cycle :: u64
  ie_dest :: u32
  ie_access :: mem_access

record simple_icnt =
  ic_latency :: u32
  ic_nodes :: u32
  ic_cycles :: u64
  ic_rr_start :: u32
  ic_in :: "icnt_entity list list"
  ic_out :: "mem_access list list"
  ic_busy :: "bool list"

definition simple_icnt_init :: "u32 \<Rightarrow> u32 \<Rightarrow> u32 \<Rightarrow> u32 \<Rightarrow> simple_icnt" where
  "simple_icnt_init junk latency num_cores dram_channels =
     (let n = num_cores + dram_channels in
      \<lparr>ic_latency = latency, ic_nodes = n, ic_cycles = 0, ic_rr_start = junk, ic_in = replicate (unat n) [],
       ic_out = replicate (unat n) [], ic_busy = replicate (unat n) False\<rparr>)"

definition icnt_visit :: "nat \<Rightarrow> simple_icnt \<Rightarrow> simple_icnt result" where
  "icnt_visit src s =
     rbind (deref (vec_get (ic_in s) src)) (\<lambda>q.
       if q = [] \<or> ic_cycles s < ie_finish_cycle (hd q) then Inr s
       else let d = unat (ie_dest (hd q)) in
         rbind (deref (vec_get (ic_busy s) d)) (\<lambda>busy.
           if busy then Inr s
           else rbind (deref (vec_get (ic_out s) d)) (\<lambda>out.
             Inr (s\<lparr>ic_out := (ic_out s)[d := out @ [ie_access (hd q)]], ic_in := (ic_in s)[src := tl q],
                    ic_busy := (ic_busy s)[d := True]\<rparr>))))"

fun icnt_visits :: "nat list \<Rightarrow> simple_icnt \<Rightarrow> simple_icnt result" where
  "icnt_visits [] s = Inr s"
| "icnt_visits (src # srcs) s = rbind (icnt_visit src s) (icnt_visits srcs)"

definition simple_icnt_cycle :: "simple_icnt \<Rightarrow> simple_icnt result" where
  "simple_icnt_cycle s =
     (if ic_nodes s = 0 then Inl Undefined
      else rbind (icnt_visits (map (\<lambda>i. unat ((ic_rr_start s + of_nat i) mod ic_nodes s)) [0..<unat (ic_nodes s)]) s) (\<lambda>s.
        Inr (s\<lparr>ic_busy := map (\<lambda>_. False) (ic_busy s), ic_rr_start := (ic_rr_start s + 1) mod ic_nodes s,
               ic_cycles := ic_cycles s + 1\<rparr>)))"

definition simple_icnt_push :: "nat \<Rightarrow> u32 \<Rightarrow> mem_access \<Rightarrow> simple_icnt \<Rightarrow> simple_icnt result" where
  "simple_icnt_push src dest m s =
     rbind (deref (vec_get (ic_in s) src)) (\<lambda>q.
       let finish = (if q = [] then ic_cycles s + ucast (ic_latency s) else ie_finish_cycle (last q) + 1) in
       Inr (s\<lparr>ic_in := (ic_in s)[src := q @ [\<lparr>ie_finish_cycle = finish, ie_dest = dest, ie_access = m\<rparr>]]\<rparr>))"

definition simple_icnt_is_full :: "nat \<Rightarrow> mem_access \<Rightarrow> simple_icnt \<Rightarrow> bool" where
  "simple_icnt_is_full nid m s = False"

definition simple_icnt_is_empty :: "nat \<Rightarrow> simple_icnt \<Rightarrow> bool result" where
  "simple_icnt_is_empty nid s = rbind (deref (vec_get (ic_out s) nid)) (\<lambda>q. Inr (q = []))"

definition simple_icnt_top :: "nat \<Rightarrow> simple_icnt \<Rightarrow> mem_access result" where
  "simple_icnt_top nid s =
     rbind (deref (vec_get (ic_out s) nid)) (\<lambda>q. if q = [] then Inl Exited else Inr (hd q))"

text \<open>Popping an empty queue is undefined.\<close>

definition simple_icnt_pop :: "nat \<Rightarrow> simple_icnt \<Rightarrow> simple_icnt result" where
  "simple_icnt_pop nid s =
     rbind (deref (vec_get (ic_out s) nid)) (\<lambda>q.
       if q = [] then Inl Undefined else Inr (s\<lparr>ic_out := (ic_out s)[nid := tl q]\<rparr>))"

section \<open>The hash is linear and free of conflicts\<close>

lemma xor_bits_xor: "xor_bits (a XOR b) js = (xor_bits a js \<noteq> xor_bits b js)"
  by (induction js) (auto simp: bit_xor_iff)

definition hash_bits :: "nat list list \<Rightarrow> u64 \<Rightarrow> u32" where
  "hash_bits rows a = horner_sum of_bool 2 (map (xor_bits a) rows)"

lemma horner_bits_eq:
  assumes "horner_sum of_bool 2 bs = (horner_sum of_bool 2 cs :: u32)" and "length bs = length cs" and "length bs \<le> 32"
  shows "bs = cs"
proof (rule nth_equalityI [OF assms(2)])
  fix i assume i: "i < length bs"
  have "bit (horner_sum of_bool 2 bs :: u32) i = bit (horner_sum of_bool 2 cs :: u32) i" using assms(1) by simp
  then show "bs ! i = cs ! i" using i assms(2,3) by (simp add: bit_horner_sum_bit_iff)
qed

lemma kernel_16:
  assumes z: "\<And>j. j < k \<or> k + 4 \<le> j \<Longrightarrow> \<not> bit a j" and k: "k \<le> 9" and h: "\<forall>r \<in> set (ipoly_rows 16). \<not> xor_bits a r"
  shows "\<not> bit a 0 \<and> \<not> bit a 1 \<and> \<not> bit a 2 \<and> \<not> bit a 3 \<and> \<not> bit a 4 \<and> \<not> bit a 5 \<and> \<not> bit a 6 \<and> \<not> bit a 7 \<and> \<not> bit a 8 \<and> \<not> bit a 9 \<and> \<not> bit a 10 \<and> \<not> bit a 11 \<and> \<not> bit a 12"
proof -
  have "k = 0 \<or> k = 1 \<or> k = 2 \<or> k = 3 \<or> k = 4 \<or> k = 5 \<or> k = 6 \<or> k = 7 \<or> k = 8 \<or> k = 9" using k by arith
  then show ?thesis using h by (elim disjE) (simp_all add: ipoly_rows_def z, satx+)
qed

lemma kernel_32:
  assumes z: "\<And>j. j < k \<or> k + 5 \<le> j \<Longrightarrow> \<not> bit a j" and k: "k \<le> 10" and h: "\<forall>r \<in> set (ipoly_rows 32). \<not> xor_bits a r"
  shows "\<not> bit a 0 \<and> \<not> bit a 1 \<and> \<not> bit a 2 \<and> \<not> bit a 3 \<and> \<not> bit a 4 \<and> \<not> bit a 5 \<and> \<not> bit a 6 \<and> \<not> bit a 7 \<and> \<not> bit a 8 \<and> \<not> bit a 9 \<and> \<not> bit a 10 \<and> \<not> bit a 11 \<and> \<not> bit a 12 \<and> \<not> bit a 13 \<and> \<not> bit a 14"
proof -
  have "k = 0 \<or> k = 1 \<or> k = 2 \<or> k = 3 \<or> k = 4 \<or> k = 5 \<or> k = 6 \<or> k = 7 \<or> k = 8 \<or> k = 9 \<or> k = 10" using k by arith
  then show ?thesis using h by (elim disjE) (simp_all add: ipoly_rows_def z, satx+)
qed

lemma kernel_64:
  assumes z: "\<And>j. j < k \<or> k + 6 \<le> j \<Longrightarrow> \<not> bit a j" and k: "k \<le> 13" and h: "\<forall>r \<in> set (ipoly_rows 64). \<not> xor_bits a r"
  shows "\<not> bit a 0 \<and> \<not> bit a 1 \<and> \<not> bit a 2 \<and> \<not> bit a 3 \<and> \<not> bit a 4 \<and> \<not> bit a 5 \<and> \<not> bit a 6 \<and> \<not> bit a 7 \<and> \<not> bit a 8 \<and> \<not> bit a 9 \<and> \<not> bit a 10 \<and> \<not> bit a 11 \<and> \<not> bit a 12 \<and> \<not> bit a 13 \<and> \<not> bit a 14 \<and> \<not> bit a 15 \<and> \<not> bit a 16 \<and> \<not> bit a 17 \<and> \<not> bit a 18"
proof -
  have "k = 0 \<or> k = 1 \<or> k = 2 \<or> k = 3 \<or> k = 4 \<or> k = 5 \<or> k = 6 \<or> k = 7 \<or> k = 8 \<or> k = 9 \<or> k = 10 \<or> k = 11 \<or> k = 12 \<or> k = 13" using k by arith
  then show ?thesis using h by (elim disjE) (simp_all add: ipoly_rows_def z, satx+)
qed

text \<open>The number of address bits that the hash reads.\<close>

definition ipoly_span :: "u32 \<Rightarrow> nat" where
  "ipoly_span n = (if n = 16 then 13 else if n = 32 then 15 else 19)"

lemma ipoly_cases:
  assumes "ipoly_rows n \<noteq> []"
  shows "n = 16 \<and> length (ipoly_rows n) = 4 \<or> n = 32 \<and> length (ipoly_rows n) = 5 \<or> n = 64 \<and> length (ipoly_rows n) = 6"
  using assms by (auto simp: ipoly_rows_def split: if_splits)

lemma ipoly_size: "ipoly_rows n \<noteq> [] \<Longrightarrow> unat n = 2 ^ length (ipoly_rows n) \<and> length (ipoly_rows n) \<le> 6"
  using ipoly_cases [of n] by auto

lemma kernel:
  assumes n: "ipoly_rows n \<noteq> []" and k: "k + length (ipoly_rows n) \<le> ipoly_span n"
    and z: "\<And>j. j < k \<or> k + length (ipoly_rows n) \<le> j \<Longrightarrow> \<not> bit a j" and h: "\<forall>r \<in> set (ipoly_rows n). \<not> xor_bits a r"
  shows "a = 0"
proof -
  have "\<not> bit a j" if "j < ipoly_span n" for j
    using ipoly_cases [OF n]
  proof (elim disjE conjE)
    assume c: "n = 16" "length (ipoly_rows n) = 4"
    have "\<forall>j \<in> {..<13}. \<not> bit a j" unfolding lessThan_nat_numeral lessThan_Suc pred_numeral_simps BitM.simps
      using kernel_16 [of k a] z k h c by (simp add: ipoly_span_def)
    then show ?thesis using that c by (simp add: ipoly_span_def)
  next
    assume c: "n = 32" "length (ipoly_rows n) = 5"
    have "\<forall>j \<in> {..<15}. \<not> bit a j" unfolding lessThan_nat_numeral lessThan_Suc pred_numeral_simps BitM.simps
      using kernel_32 [of k a] z k h c by (simp add: ipoly_span_def)
    then show ?thesis using that c by (simp add: ipoly_span_def)
  next
    assume c: "n = 64" "length (ipoly_rows n) = 6"
    have "\<forall>j \<in> {..<19}. \<not> bit a j" unfolding lessThan_nat_numeral lessThan_Suc pred_numeral_simps BitM.simps
      using kernel_64 [of k a] z k h c by (simp add: ipoly_span_def)
    then show ?thesis using that c by (simp add: ipoly_span_def)
  qed
  moreover have "\<not> bit a j" if "ipoly_span n \<le> j" for j using z [of j] k that by simp
  ultimately show ?thesis by (intro bit_word_eqI) (metis bit_0_eq bot_apply bot_bool_def linorder_not_less)
qed

lemma ipoly_hash_eq:
  "ipoly_rows n \<noteq> [] \<Longrightarrow> ipoly_hash a idx n =
     Inr (horner_sum of_bool 2 (map (\<lambda>i. xor_bits a (ipoly_rows n ! i) \<noteq> bit idx i) [0..<length (ipoly_rows n)]))"
  by (simp add: ipoly_hash_def split: list.splits)

lemma horner_less:
  assumes "length bs < 32"
  shows "unat (horner_sum of_bool 2 bs :: u32) < 2 ^ length bs"
proof -
  have "take_bit (length bs) (horner_sum of_bool 2 bs :: u32) = horner_sum of_bool 2 bs"
    by (simp add: take_bit_horner_sum_bit_eq)
  then have "unat (horner_sum of_bool 2 bs :: u32) = take_bit (length bs) (unat (horner_sum of_bool 2 bs :: u32))"
    by (metis unsigned_take_bit_eq)
  then show ?thesis by (metis take_bit_nat_less_exp)
qed

lemma words_below: "{..<n :: u32} = of_nat ` {..<unat n}" "card {..<n :: u32} = unat n"
proof -
  have small: "unat (of_nat i :: u32) = i" if "i < unat n" for i
    using that unsigned_less [of n, where 'a = nat] by (intro unat_of_nat_small) simp
  show e: "{..<n} = of_nat ` {..<unat n}"
  proof (intro equalityI subsetI)
    fix x assume "x \<in> {..<n}"
    then show "x \<in> of_nat ` {..<unat n}" by (intro image_eqI [of _ _ "unat x"]) (simp_all add: word_less_nat_alt)
  qed (auto simp: word_less_nat_alt small)
  have "inj_on (of_nat :: nat \<Rightarrow> u32) {..<unat n}" by (rule inj_onI) (metis lessThan_iff small)
  then show "card {..<n} = unat n" unfolding e by (simp add: card_image)
qed

lemma hash_range: "ipoly_rows n \<noteq> [] \<Longrightarrow> \<exists>h. ipoly_hash a idx n = Inr h \<and> h < n"
  using ipoly_size [of n] by (simp add: ipoly_hash_eq word_less_nat_alt less_le_trans [OF horner_less])

text \<open>The lines of a block, whose bits at the counting positions take all values.\<close>

lemma hash_block:
  assumes n: "ipoly_rows n \<noteq> []" and k: "k + length (ipoly_rows n) \<le> ipoly_span n"
  shows "bij_betw (\<lambda>i. ipoly_hash (a XOR push_bit k (of_nat i)) idx n) {..<unat n} (Inr ` {..<n})"
proof -
  let ?rows = "ipoly_rows n" and ?p = "\<lambda>i :: nat. push_bit k (of_nat i) :: u64"
  let ?f = "\<lambda>i. ipoly_hash (a XOR ?p i) idx n"
  have "inj_on ?f {..<unat n}"
  proof (rule inj_onI)
    fix i j assume i: "i \<in> {..<unat n}" "j \<in> {..<unat n}" and "?f i = ?f j"
    then have "map (\<lambda>t. xor_bits (a XOR ?p i) (?rows ! t) \<noteq> bit idx t) [0..<length ?rows]
        = map (\<lambda>t. xor_bits (a XOR ?p j) (?rows ! t) \<noteq> bit idx t) [0..<length ?rows]"
      using ipoly_size [OF n] unfolding ipoly_hash_eq [OF n] by (intro horner_bits_eq) simp_all
    then have "\<forall>t < length ?rows. \<not> xor_bits (?p i XOR ?p j) (?rows ! t)" by (auto simp: xor_bits_xor)
    then have h: "\<forall>r \<in> set ?rows. \<not> xor_bits (?p i XOR ?p j) r" by (metis in_set_conv_nth)
    have low: "\<not> bit (of_nat i :: u64) t" if "length ?rows \<le> t" "i < unat n" for i t
    proof -
      have "(2 :: nat) ^ length ?rows \<le> 2 ^ t" using that(1) by (intro power_increasing) simp_all
      moreover have "i < 2 ^ length ?rows" using that(2) ipoly_size [OF n] by simp
      ultimately have "i < 2 ^ t" by linarith
      then have "\<not> bit i t" by (simp add: bit_iff_odd)
      then show ?thesis by (simp add: bit_of_nat_iff)
    qed
    have "?p i XOR ?p j = 0"
      using low i by (intro kernel [OF n k _ h]) (auto simp: bit_simps)
    then have "bit (?p i) t = bit (?p j) t" for t by (metis bit_xor_iff bit_0_eq bot_apply bot_bool_def)
    then have b: "bit (?p i) (k + t) = bit (?p j) (k + t)" for t by blast
    have "length ?rows + k < 64" using k by (simp add: ipoly_span_def split: if_splits)
    then have "bit (of_nat i :: u64) t = bit (of_nat j :: u64) t" for t
      using b [of t] low [of t i] low [of t j] i by (cases "t < length ?rows") (auto simp: bit_simps)
    then have "(of_nat i :: u64) = of_nat j" by (intro bit_word_eqI) simp
    moreover have "unat (of_nat i :: u64) = i" "unat (of_nat j :: u64) = j"
      using i unsigned_less [of n, where 'a = nat] by (auto intro!: unat_of_nat_small)
    ultimately show "i = j" by metis
  qed
  moreover have "?f ` {..<unat n} \<subseteq> Inr ` {..<n}"
    using hash_range [OF n] by (metis (no_types, lifting) image_eqI image_subsetI lessThan_iff)
  moreover have "card (Inr ` {..<n} :: u32 result set) = unat n" by (simp add: card_image words_below(2))
  ultimately have "?f ` {..<unat n} = Inr ` {..<n}"
    by (intro card_subset_eq) (simp_all add: card_image)
  with \<open>inj_on ?f {..<unat n}\<close> show ?thesis by (simp add: bij_betw_def)
qed

lemma aligned_line:
  fixes a :: u64
  assumes "\<And>j. k \<le> j \<Longrightarrow> j < k + len \<Longrightarrow> \<not> bit a j" and "i < 2 ^ len"
  shows "a + of_nat i * 2 ^ k = a XOR push_bit k (of_nat i)"
proof -
  have "\<not> bit (of_nat i :: u64) t" if "len \<le> t" for t
  proof -
    have "(2 :: nat) ^ len \<le> 2 ^ t" using that by (intro power_increasing) simp_all
    then have "i < 2 ^ t" using assms(2) by linarith
    then have "\<not> bit i t" by (simp add: bit_iff_odd)
    then show ?thesis by (simp add: bit_of_nat_iff)
  qed
  moreover have "\<not> bit a t" if "k \<le> t" "t - k < len" for t using assms(1) [of t] that by simp
  ultimately have "a AND push_bit k (of_nat i) = 0"
    by (auto intro!: bit_word_eqI simp: bit_push_bit_iff bit_and_iff) (meson not_le)
  then show ?thesis by (simp add: disjunctive_add_eq_xor push_bit_eq_mult [symmetric])
qed

text \<open>C18: the channel hash spreads every aligned block of as many lines as there are channels evenly, for every
  power-of-two stride \<^verbatim>\<open>2 ^ k\<close> whose line-counting bits are among those the hash reads: from any base in which the bits
  that count the lines are zero, the lines fall on the channels one to one.\<close>

theorem hash_conflict_free:
  assumes n: "ipoly_rows n \<noteq> []" and k: "k + length (ipoly_rows n) \<le> ipoly_span n"
    and a: "\<forall>j. k \<le> j \<and> j < k + length (ipoly_rows n) \<longrightarrow> \<not> bit a j"
  shows "bij_betw (\<lambda>i. ipoly_hash (a + of_nat i * 2 ^ k) idx n) {..<unat n} (Inr ` {..<n})"
proof -
  have "a + of_nat i * 2 ^ k = a XOR push_bit k (of_nat i)" if "i \<in> {..<unat n}" for i
    using a that ipoly_size [OF n] by (intro aligned_line [where len = "length (ipoly_rows n)"]) auto
  then show ?thesis using hash_block [OF n k, of a idx] by (subst bij_betw_cong) auto
qed

theorem hash_conflict_free_witness:
  "bij_betw (\<lambda>i. ipoly_hash (5 + of_nat i * 2 ^ 9) 0 16) {..<16} (Inr ` {..<16})"
proof -
  have "\<not> bit (5 :: u64) j" if "9 \<le> j" for j
  proof -
    have "(5 :: nat) < 2 ^ 9" "(2 :: nat) ^ 9 \<le> 2 ^ j" using that by (simp, intro power_increasing) simp_all
    then have "\<not> bit (5 :: nat) j" by (simp add: bit_iff_odd)
    then show ?thesis using bit_of_nat_iff [where 'a = "64 word", of 5 j] by simp
  qed
  then show ?thesis using hash_conflict_free [of 16 9 5 0] by (simp add: ipoly_rows_def ipoly_span_def)
qed

text \<open>From a base that is not aligned two of the lines may fall on one channel: the third and the last of the sixteen
  lines from line 1.\<close>

lemma hash_conflict_unaligned: "ipoly_hash (1 + 2) 0 16 = ipoly_hash (1 + 15) 0 16"
  by (simp add: ipoly_hash_def ipoly_rows_def bit_iff_odd)

text \<open>One stride beyond, the conflicts begin, although the hash is said to be free of them for every power of two.\<close>

lemma hash_conflict: "ipoly_hash (2 ^ 13) 0 16 = ipoly_hash 0 0 16"
  by (simp add: ipoly_hash_def ipoly_rows_def bit_iff_odd)

lemma channel_range:
  assumes "req_size \<noteq> 0" and "0 < n_ch" and "n_ch < 16 \<or> ipoly_rows n_ch \<noteq> []"
  shows "\<exists>c. get_channel_id n_ch req_size m = Inr c \<and> c < n_ch"
proof (cases "n_ch < 16")
  case True
  obtain h where "ipoly_hash (ma_dram_address m div ucast req_size) 0 16 = Inr h"
    using hash_range [of 16] by (auto simp: ipoly_rows_def)
  moreover have "\<not> 16 \<le> n_ch" "n_ch \<noteq> 0" using True assms(2) by auto
  ultimately show ?thesis using assms by (simp add: get_channel_id_def Let_def word_mod_less_divisor)
next
  case False
  then show ?thesis using assms hash_range [of n_ch] by (auto simp: get_channel_id_def Let_def)
qed

section \<open>What the simulator relies on\<close>

text \<open>A memory device: a well-formed state that is not full takes an access on one of its channels, marks it as a response, and gives back on each
  channel, in some order, what it was handed there.\<close>

locale memory_device =
  fixes cycle :: "'d \<Rightarrow> 'd" and is_full :: "nat \<Rightarrow> mem_access \<Rightarrow> 'd \<Rightarrow> bool"
    and push :: "nat \<Rightarrow> mem_access \<Rightarrow> 'd \<Rightarrow> 'd result" and is_empty :: "nat \<Rightarrow> 'd \<Rightarrow> bool result"
    and top :: "nat \<Rightarrow> 'd \<Rightarrow> mem_access result" and pop :: "nat \<Rightarrow> 'd \<Rightarrow> 'd result"
    and wf :: "nat \<Rightarrow> 'd \<Rightarrow> bool" and held :: "nat \<Rightarrow> 'd \<Rightarrow> mem_access multiset"
  assumes cycle_ok: "wf n s \<Longrightarrow> wf n (cycle s) \<and> held c (cycle s) = held c s"
    and push_ok: "wf n s \<Longrightarrow> c < n \<Longrightarrow> \<not> is_full c m s \<Longrightarrow>
      \<exists>s'. push c m s = Inr s' \<and> wf n s' \<and> (\<forall>d. held d s' = (if d = c then {#m\<lparr>ma_request := False\<rparr>#} else {#}) + held d s)"
    and empty_ok: "wf n s \<Longrightarrow> c < n \<Longrightarrow> \<exists>b. is_empty c s = Inr b"
    and pop_ok: "wf n s \<Longrightarrow> c < n \<Longrightarrow> is_empty c s = Inr False \<Longrightarrow>
      \<exists>m s'. top c s = Inr m \<and> pop c s = Inr s' \<and> wf n s' \<and> (\<forall>d. held d s = (if d = c then {#m#} else {#}) + held d s')"

text \<open>An interconnect of \<^verbatim>\<open>n\<close> nodes: an access pushed at a node that is not full comes out at its destination, and only there.\<close>

locale interconnect =
  fixes cycle :: "'i \<Rightarrow> 'i result" and is_full :: "nat \<Rightarrow> mem_access \<Rightarrow> 'i \<Rightarrow> bool"
    and push :: "nat \<Rightarrow> u32 \<Rightarrow> mem_access \<Rightarrow> 'i \<Rightarrow> 'i result" and is_empty :: "nat \<Rightarrow> 'i \<Rightarrow> bool result"
    and top :: "nat \<Rightarrow> 'i \<Rightarrow> mem_access result" and pop :: "nat \<Rightarrow> 'i \<Rightarrow> 'i result"
    and wf :: "nat \<Rightarrow> 'i \<Rightarrow> bool" and bound_for :: "nat \<Rightarrow> 'i \<Rightarrow> mem_access multiset"
  assumes cycle_ok: "wf n s \<Longrightarrow> \<exists>s'. cycle s = Inr s' \<and> wf n s' \<and> (\<forall>d. bound_for d s' = bound_for d s)"
    and push_ok: "wf n s \<Longrightarrow> c < n \<Longrightarrow> unat dest < n \<Longrightarrow> \<not> is_full c m s \<Longrightarrow>
      \<exists>s'. push c dest m s = Inr s' \<and> wf n s' \<and> (\<forall>d. bound_for d s' = (if d = unat dest then {#m#} else {#}) + bound_for d s)"
    and empty_ok: "wf n s \<Longrightarrow> c < n \<Longrightarrow> \<exists>b. is_empty c s = Inr b"
    and pop_ok: "wf n s \<Longrightarrow> c < n \<Longrightarrow> is_empty c s = Inr False \<Longrightarrow>
      \<exists>m s'. top c s = Inr m \<and> pop c s = Inr s' \<and> wf n s' \<and> (\<forall>d. bound_for d s = (if d = c then {#m#} else {#}) + bound_for d s')"

section \<open>The simple ones provide it\<close>

text \<open>Lists of queues, read out of range as empty.\<close>

definition at_queue :: "'a list list \<Rightarrow> nat \<Rightarrow> 'a list" where
  "at_queue qs i = (if i < length qs then qs ! i else [])"

lemma at_queue_update: "i < length qs \<Longrightarrow> at_queue (qs[i := q]) j = (if j = i then q else at_queue qs j)"
  by (simp add: at_queue_def)

definition dram_wf :: "nat \<Rightarrow> simple_dram \<Rightarrow> bool" where
  "dram_wf n s \<longleftrightarrow> length (dm_waiting s) = n \<and> length (dm_response s) = n"

definition dram_held :: "nat \<Rightarrow> simple_dram \<Rightarrow> mem_access multiset" where
  "dram_held c s = mset (map snd (at_queue (dm_waiting s) c)) + mset (at_queue (dm_response s) c)"

lemma dram_cycle_held: "dram_wf n s \<Longrightarrow> dram_held c (simple_dram_cycle s) = dram_held c s"
  by (cases "c < n"; cases "dm_waiting s ! c")
    (auto simp: dram_held_def simple_dram_cycle_def dram_wf_def at_queue_def Let_def)

interpretation dram: memory_device simple_dram_cycle simple_dram_is_full simple_dram_push simple_dram_is_empty simple_dram_top
  simple_dram_pop dram_wf dram_held
proof
  fix n c and s :: simple_dram
  show "dram_wf n s \<Longrightarrow> dram_wf n (simple_dram_cycle s) \<and> dram_held c (simple_dram_cycle s) = dram_held c s"
    using dram_cycle_held by (auto simp: dram_wf_def simple_dram_cycle_def Let_def)
  show "dram_wf n s \<Longrightarrow> c < n \<Longrightarrow> \<not> simple_dram_is_full c m s \<Longrightarrow> \<exists>s'. simple_dram_push c m s = Inr s' \<and> dram_wf n s' \<and>
      (\<forall>d. dram_held d s' = (if d = c then {#m\<lparr>ma_request := False\<rparr>#} else {#}) + dram_held d s)" for m
    by (auto simp: simple_dram_push_def dram_wf_def dram_held_def Let_def at_queue_update) (simp_all add: at_queue_def)
  show "dram_wf n s \<Longrightarrow> c < n \<Longrightarrow> \<exists>b. simple_dram_is_empty c s = Inr b"
    by (simp add: simple_dram_is_empty_def dram_wf_def)
  show "dram_wf n s \<Longrightarrow> c < n \<Longrightarrow> simple_dram_is_empty c s = Inr False \<Longrightarrow> \<exists>m s'. simple_dram_top c s = Inr m \<and>
      simple_dram_pop c s = Inr s' \<and> dram_wf n s' \<and> (\<forall>d. dram_held d s = (if d = c then {#m#} else {#}) + dram_held d s')"
    by (cases "dm_response s ! c")
      (auto simp: simple_dram_is_empty_def simple_dram_top_def simple_dram_pop_def dram_wf_def dram_held_def at_queue_update at_queue_def)
qed

definition icnt_wf :: "nat \<Rightarrow> simple_icnt \<Rightarrow> bool" where
  "icnt_wf n s \<longleftrightarrow> 0 < n \<and> unat (ic_nodes s) = n \<and> length (ic_in s) = n \<and> length (ic_out s) = n \<and> length (ic_busy s) = n
     \<and> (\<forall>e \<in> set (concat (ic_in s)). unat (ie_dest e) < n)"

definition going_to :: "nat \<Rightarrow> icnt_entity list \<Rightarrow> mem_access multiset" where
  "going_to d es = mset (map ie_access (filter (\<lambda>e. unat (ie_dest e) = d) es))"

definition icnt_bound :: "nat \<Rightarrow> simple_icnt \<Rightarrow> mem_access multiset" where
  "icnt_bound d s = going_to d (concat (ic_in s)) + mset (at_queue (ic_out s) d)"

lemma going_to_append [simp]: "going_to d (es @ fs) = going_to d es + going_to d fs"
  by (simp add: going_to_def)

lemma going_to_simps [simp]:
  "going_to d [] = {#}" "going_to d (e # es) = (if unat (ie_dest e) = d then {#ie_access e#} else {#}) + going_to d es"
  by (simp_all add: going_to_def)

lemma going_to_update:
  assumes "i < length qs"
  shows "going_to d (concat (qs[i := q])) + going_to d (qs ! i) = going_to d (concat qs) + going_to d q"
proof -
  have "qs = take i qs @ qs ! i # drop (Suc i) qs" using assms by (simp add: id_take_nth_drop)
  then have "going_to d (concat qs) = going_to d (concat (take i qs)) + going_to d (qs ! i) + going_to d (concat (drop (Suc i) qs))"
    by (metis concat.simps(2) concat_append going_to_append union_assoc)
  then show ?thesis using assms by (simp add: upd_conv_take_nth_drop)
qed

lemma queue_dests: "icnt_wf n s \<Longrightarrow> i < n \<Longrightarrow> e \<in> set (ic_in s ! i) \<Longrightarrow> unat (ie_dest e) < n"
  unfolding icnt_wf_def set_concat by (metis UN_I nth_mem)

lemma icnt_visit_ok:
  assumes "icnt_wf n s" and "src < n"
  shows "\<exists>s'. icnt_visit src s = Inr s' \<and> icnt_wf n s' \<and> ic_nodes s' = ic_nodes s \<and> ic_rr_start s' = ic_rr_start s
    \<and> (\<forall>d. icnt_bound d s' = icnt_bound d s)"
proof -
  have len: "src < length (ic_in s)" using assms by (simp add: icnt_wf_def)
  let ?q = "ic_in s ! src"
  show ?thesis
  proof (cases "?q = [] \<or> ic_cycles s < ie_finish_cycle (hd ?q) \<or> ic_busy s ! unat (ie_dest (hd ?q))")
    case True
    have "?q \<noteq> [] \<Longrightarrow> unat (ie_dest (hd ?q)) < n" using queue_dests [OF assms] by simp
    with True assms len show ?thesis by (auto simp: icnt_visit_def icnt_wf_def Let_def)
  next
    case False
    then obtain e es where q: "?q = e # es" by (cases ?q) auto
    let ?d = "unat (ie_dest e)"
    let ?s = "s\<lparr>ic_out := (ic_out s)[?d := ic_out s ! ?d @ [ie_access e]], ic_in := (ic_in s)[src := es], ic_busy := (ic_busy s)[?d := True]\<rparr>"
    have e: "\<forall>f \<in> set (e # es). unat (ie_dest f) < n" using queue_dests [OF assms] q by metis
    then have d: "?d < n" by simp
    have "icnt_visit src s = Inr ?s" using False q len d assms(1) by (simp add: icnt_visit_def icnt_wf_def Let_def)
    moreover have "icnt_wf n ?s" using assms(1) e by (auto simp: icnt_wf_def dest!: subsetD [OF set_update_subset_insert])
    moreover have "icnt_bound d ?s = icnt_bound d s" for d
      using going_to_update [OF len, of d es] q \<open>?d < n\<close> assms(1)
      by (auto simp: icnt_bound_def icnt_wf_def at_queue_update) (simp_all add: at_queue_def)
    ultimately show ?thesis by auto
  qed
qed

lemma icnt_visits_ok:
  "icnt_wf n s \<Longrightarrow> \<forall>src \<in> set srcs. src < n \<Longrightarrow> \<exists>s'. icnt_visits srcs s = Inr s' \<and> icnt_wf n s' \<and> ic_nodes s' = ic_nodes s
    \<and> ic_rr_start s' = ic_rr_start s \<and> (\<forall>d. icnt_bound d s' = icnt_bound d s)"
proof (induction srcs arbitrary: s)
  case (Cons src srcs)
  obtain s1 where s1: "icnt_visit src s = Inr s1" "icnt_wf n s1" "ic_nodes s1 = ic_nodes s" "ic_rr_start s1 = ic_rr_start s"
    "\<forall>d. icnt_bound d s1 = icnt_bound d s" using icnt_visit_ok [OF Cons.prems(1), of src] Cons.prems(2) by auto
  from Cons.IH [OF s1(2)] Cons.prems(2) s1 show ?case by auto
qed simp

lemma icnt_cycle_ok:
  assumes "icnt_wf n s"
  shows "\<exists>s'. simple_icnt_cycle s = Inr s' \<and> icnt_wf n s' \<and> (\<forall>d. icnt_bound d s' = icnt_bound d s)"
proof -
  have n: "0 < ic_nodes s" "unat (ic_nodes s) = n" using assms by (auto simp: icnt_wf_def word_less_nat_alt)
  then have "unat (w mod ic_nodes s) < n" for w by (metis word_less_nat_alt word_mod_less_divisor)
  with icnt_visits_ok [OF assms, of "map (\<lambda>i. unat ((ic_rr_start s + of_nat i) mod ic_nodes s)) [0..<unat (ic_nodes s)]"]
  obtain s' where s': "icnt_visits (map (\<lambda>i. unat ((ic_rr_start s + of_nat i) mod ic_nodes s)) [0..<unat (ic_nodes s)]) s = Inr s'"
    "icnt_wf n s'" "ic_nodes s' = ic_nodes s" "ic_rr_start s' = ic_rr_start s" "\<forall>d. icnt_bound d s' = icnt_bound d s" by auto
  then show ?thesis using n(1) by (auto simp: simple_icnt_cycle_def icnt_wf_def icnt_bound_def)
qed

interpretation icnt: interconnect simple_icnt_cycle simple_icnt_is_full simple_icnt_push simple_icnt_is_empty simple_icnt_top
  simple_icnt_pop icnt_wf icnt_bound
proof
  fix n c and s :: simple_icnt
  show "icnt_wf n s \<Longrightarrow> \<exists>s'. simple_icnt_cycle s = Inr s' \<and> icnt_wf n s' \<and> (\<forall>d. icnt_bound d s' = icnt_bound d s)"
    by (rule icnt_cycle_ok)
  show "\<exists>s'. simple_icnt_push c dest m s = Inr s' \<and> icnt_wf n s' \<and>
      (\<forall>d. icnt_bound d s' = (if d = unat dest then {#m#} else {#}) + icnt_bound d s)"
    if w: "icnt_wf n s" and c: "c < n" and d: "unat dest < n" for dest m
  proof -
    have len: "c < length (ic_in s)" using w c by (simp add: icnt_wf_def)
    let ?e = "\<lparr>ie_finish_cycle = (if ic_in s ! c = [] then ic_cycles s + ucast (ic_latency s) else ie_finish_cycle (last (ic_in s ! c)) + 1),
      ie_dest = dest, ie_access = m\<rparr>"
    let ?s = "s\<lparr>ic_in := (ic_in s)[c := ic_in s ! c @ [?e]]\<rparr>"
    have "\<forall>e \<in> set (ic_in s ! c). unat (ie_dest e) < n" using queue_dests [OF w c] by blast
    then have "icnt_wf n ?s" using w d by (auto simp: icnt_wf_def dest!: subsetD [OF set_update_subset_insert])
    moreover have "icnt_bound k ?s = (if k = unat dest then {#m#} else {#}) + icnt_bound k s" for k
      using going_to_update [OF len, of k "ic_in s ! c @ [?e]"] by (auto simp: icnt_bound_def)
    moreover have "simple_icnt_push c dest m s = Inr ?s" using len by (simp add: simple_icnt_push_def Let_def)
    ultimately show ?thesis by blast
  qed
  show "icnt_wf n s \<Longrightarrow> c < n \<Longrightarrow> \<exists>b. simple_icnt_is_empty c s = Inr b"
    by (simp add: simple_icnt_is_empty_def icnt_wf_def)
  show "icnt_wf n s \<Longrightarrow> c < n \<Longrightarrow> simple_icnt_is_empty c s = Inr False \<Longrightarrow> \<exists>m s'. simple_icnt_top c s = Inr m \<and>
      simple_icnt_pop c s = Inr s' \<and> icnt_wf n s' \<and> (\<forall>d. icnt_bound d s = (if d = c then {#m#} else {#}) + icnt_bound d s')"
    by (cases "ic_out s ! c")
      (auto simp: simple_icnt_is_empty_def simple_icnt_top_def simple_icnt_pop_def icnt_wf_def icnt_bound_def at_queue_update at_queue_def)
qed

end
