(* ===== verification/NpuCore.thy ===== *)
theory NpuCore
  imports NpuNet Floats
begin

text \<open>
  A core of the NPU simulator: the scratchpads (\<^verbatim>\<open>ONNXim/src/Sram.cc\<close>), the core (\<^verbatim>\<open>Core.cc\<close>) and the
  weight-stationary systolic array (\<^verbatim>\<open>SystolicWS.cc\<close>).  A tile is named by its address, through which its
  last instruction reports back.  The two buffers of a scratchpad are a function of the index, which is 0 or 1
  (\<^verbatim>\<open>Core::issue\<close> takes it modulo 2).  The time stamp of an entry is written and never read, and is left out, as
  are the log messages and the output-stationary array, which only asserts.  A failed assertion and a call of
  \<^verbatim>\<open>exit\<close> are \<^const>\<open>Exited\<close>.
\<close>

section \<open>Scratchpads\<close>

record sram_entry =
  se_valid :: bool
  se_size :: u64
  se_remain :: u64

record sram_buffer =
  sb_current :: u32
  sb_table :: "u64 \<Rightarrow> sram_entry option"

record sram =
  sr_size :: u32
  sr_width :: u32
  sr_accum :: bool
  sr_buffers :: "nat \<Rightarrow> sram_buffer"

definition empty_buffer :: sram_buffer where
  "empty_buffer = \<lparr>sb_current = 0, sb_table = (\<lambda>_. None)\<rparr>"

definition sram_init :: "bool \<Rightarrow> u32 \<Rightarrow> u32 \<Rightarrow> sram" where
  "sram_init accum kilobytes width =
     \<lparr>sr_size = kilobytes * 1024 div 2, sr_width = width, sr_accum = accum, sr_buffers = (\<lambda>_. empty_buffer)\<rparr>"

abbreviation entry_of :: "sram \<Rightarrow> nat \<Rightarrow> u64 \<Rightarrow> sram_entry option" where
  "entry_of s b a \<equiv> sb_table (sr_buffers s b) a"

definition check_hit :: "u64 \<Rightarrow> nat \<Rightarrow> sram \<Rightarrow> bool" where
  "check_hit a b s = (case entry_of s b a of None \<Rightarrow> False | Some e \<Rightarrow> se_valid e)"

text \<open>The product of two \<^verbatim>\<open>int\<close>s may overflow.\<close>

definition check_full :: "nat \<Rightarrow> sram \<Rightarrow> bool result" where
  "check_full b s =
     (let p = sint (sb_current (sr_buffers s b)) * sint (sr_width s) in
      if - (2 ^ 31) \<le> p \<and> p < 2 ^ 31 then Inr (p < sint (sr_size s)) else Inl Undefined)"

text \<open>Here the sizes are \<^verbatim>\<open>size_t\<close>, and an \<^verbatim>\<open>int\<close> is sign-extended.\<close>

definition check_remain :: "u64 \<Rightarrow> nat \<Rightarrow> sram \<Rightarrow> bool" where
  "check_remain n b s \<longleftrightarrow> (scast (sb_current (sr_buffers s b)) + n) * scast (sr_width s) \<le> (scast (sr_size s) :: u64)"

definition check_allocated :: "u64 \<Rightarrow> nat \<Rightarrow> sram \<Rightarrow> bool" where
  "check_allocated a b s \<longleftrightarrow> entry_of s b a \<noteq> None"

definition upd_buffer :: "nat \<Rightarrow> (sram_buffer \<Rightarrow> sram_buffer) \<Rightarrow> sram \<Rightarrow> sram" where
  "upd_buffer b f s = s\<lparr>sr_buffers := (sr_buffers s)(b := f (sr_buffers s b))\<rparr>"

definition put_entry :: "u64 \<Rightarrow> nat \<Rightarrow> sram_entry \<Rightarrow> sram \<Rightarrow> sram" where
  "put_entry a b e = upd_buffer b (\<lambda>t. t\<lparr>sb_table := (sb_table t)(a \<mapsto> e)\<rparr>)"

definition sram_flush :: "nat \<Rightarrow> sram \<Rightarrow> sram" where
  "sram_flush b = upd_buffer b (\<lambda>_. empty_buffer)"

definition prefetch :: "u64 \<Rightarrow> nat \<Rightarrow> u64 \<Rightarrow> u64 \<Rightarrow> sram \<Rightarrow> (bool \<times> sram) result" where
  "prefetch a b sz cnt s =
     (case entry_of s b a of
        None \<Rightarrow>
          if \<not> check_remain sz b s then Inl Exited
          else Inr (True, put_entry a b \<lparr>se_valid = False, se_size = sz, se_remain = cnt\<rparr>
                 (upd_buffer b (\<lambda>t. t\<lparr>sb_current := ucast (scast (sb_current t) + sz :: u64)\<rparr>) s))
      | Some e \<Rightarrow>
          if sr_accum s then (if se_size e = sz then Inr (False, s) else Inl Exited)
          else Inl Exited)"

definition sram_fill :: "u64 \<Rightarrow> nat \<Rightarrow> sram \<Rightarrow> sram result" where
  "sram_fill a b s =
     (case entry_of s b a of
        None \<Rightarrow> Inl Exited
      | Some e \<Rightarrow>
          if 0 < se_remain e \<and> \<not> se_valid e
          then let n = se_remain e - 1 in Inr (put_entry a b (e\<lparr>se_remain := n, se_valid := (n = 0)\<rparr>) s)
          else Inl Exited)"

definition count_up :: "u64 \<Rightarrow> nat \<Rightarrow> sram \<Rightarrow> sram result" where
  "count_up a b s =
     (case entry_of s b a of
        None \<Rightarrow> Inl Exited
      | Some e \<Rightarrow> Inr (put_entry a b (e\<lparr>se_remain := se_remain e + 1, se_valid := False\<rparr>) s))"

section \<open>Instructions, tiles and the core\<close>

datatype opcode =
  MOVIN | MOVOUT | MOVOUT_POOL | GEMM_PRELOAD | GEMM | GEMM_WRITE | COMP | IM2COL | SOFTMAX | LAYERNORM | OP_ADD | OP_MUL
| OP_MAC | OP_DIV | ADDTREE | OP_EXP | GELU | SWISH | BAR

definition ACCUM_SPAD_BASE :: u64 where "ACCUM_SPAD_BASE = 0x20000000"
definition GARBEGE_ADDR :: u64 where "GARBEGE_ADDR = 0xFFFFFFFFFFFFFFF"

record instruction =
  in_opcode :: opcode
  in_start_cycle :: u64
  in_finish_cycle :: u64
  in_dest_addr :: u64
  in_size :: u32
  in_compute_size :: u32
  in_src_addrs :: "u64 list"
  in_spad_id :: nat
  in_accum_spad_id :: nat
  in_operand_id :: u32
  in_request_id :: u32
  in_tagged :: bool
  in_spec_task_type :: u32
  in_base_addr :: u64
  in_tile_m :: u32
  in_tile_k :: u32
  in_tile_n :: u32
  in_src_from_accum :: bool
  in_zero_init :: bool
  in_last_inst :: bool
  in_my_tile :: "nat option"

datatype tile_status = T_INITIALIZED | T_RUNNING | T_FINISH | T_BAR | T_EMPTY

record tile =
  ti_address :: nat
  ti_status :: tile_status
  ti_layer_id :: u32
  ti_fused_op_id :: u32
  ti_instructions :: "instruction list"
  ti_accum :: bool
  ti_skip :: bool
  ti_spad_id :: nat
  ti_accum_spad_id :: nat
  ti_inst_finished :: bool
  ti_start_cycle :: u64
  ti_cycles :: u64
  ti_compute_cycles :: u64
  ti_memory_stall :: u64

record core_config =
  cc_width :: u32
  cc_height :: u32
  cc_vector_process_bit :: u32
  cc_add_latency :: u32
  cc_mul_latency :: u32
  cc_mac_latency :: u32
  cc_div_latency :: u32
  cc_exp_latency :: u32
  cc_gelu_latency :: u32
  cc_add_tree_latency :: u32
  cc_scalar_sqrt_latency :: u32
  cc_scalar_mul_latency :: u32
  cc_spad_size :: u32
  cc_accum_spad_size :: u32
  cc_dram_req_size :: u32
  cc_print_interval :: u32

record core_stats =
  cs_idle :: u64
  cs_bubble :: u64
  cs_memory_idle :: u64
  cs_compute :: u64
  cs_vec_compute :: u64
  cs_systolic_active :: u64
  cs_matmul :: fp

record core =
  co_id :: u32
  co_cycle :: u64
  co_now :: core_stats
  co_total :: core_stats
  co_inst_issued :: u32
  co_preloads_issued :: u32
  co_tagged_requests :: u64
  co_tagged_bytes :: u64
  co_tagged_read_bytes :: u64
  co_tagged_write_bytes :: u64
  co_running_layer :: u32
  co_tile_rr :: u32
  co_tiles :: "tile list"
  co_finished :: "tile list"
  co_compute_pipeline :: "instruction list"
  co_vector_pipeline :: "instruction list"
  co_ld_queue :: "instruction list"
  co_st_queue :: "instruction option list"
  co_ex_queue :: "instruction list"
  co_requests :: "mem_access list"
  co_waiting_writes :: u32
  co_layer_id :: u32
  co_fused_op_id :: u32
  co_spad :: sram
  co_acc_spad :: sram
  co_next_id :: u32

definition core_stats_init :: core_stats where
  "core_stats_init = \<lparr>cs_idle = 0, cs_bubble = 0, cs_memory_idle = 0, cs_compute = 0, cs_vec_compute = 0,
     cs_systolic_active = 0, cs_matmul = FFin 0\<rparr>"

text \<open>The current layer is not initialised; \<^verbatim>\<open>nid\<close> is the counter of \<^verbatim>\<open>generate_mem_access_id\<close>.\<close>

definition core_init :: "u32 \<Rightarrow> u32 \<Rightarrow> u32 \<Rightarrow> u32 \<Rightarrow> core_config \<Rightarrow> core" where
  "core_init layer fused nid i c =
     \<lparr>co_id = i, co_cycle = 0, co_now = core_stats_init, co_total = core_stats_init, co_inst_issued = 0,
      co_preloads_issued = 0, co_tagged_requests = 0, co_tagged_bytes = 0, co_tagged_read_bytes = 0,
      co_tagged_write_bytes = 0, co_running_layer = - 1, co_tile_rr = 0, co_tiles = [], co_finished = [],
      co_compute_pipeline = [], co_vector_pipeline = [], co_ld_queue = [], co_st_queue = [], co_ex_queue = [],
      co_requests = [], co_waiting_writes = 0, co_layer_id = layer, co_fused_op_id = fused,
      co_spad = sram_init False (cc_spad_size c) (cc_dram_req_size c),
      co_acc_spad = sram_init True (cc_accum_spad_size c) (cc_dram_req_size c), co_next_id = nid\<rparr>"

section \<open>Tiles\<close>

definition can_issue :: "core \<Rightarrow> bool" where
  "can_issue s \<longleftrightarrow> length (co_tiles s) < 2"

definition count_tagged :: "u64 \<Rightarrow> u64 \<Rightarrow> bool \<Rightarrow> core \<Rightarrow> core" where
  "count_tagged n bytes is_write s =
     (if n = 0 \<or> bytes = 0 then s
      else let s = s\<lparr>co_tagged_requests := co_tagged_requests s + n, co_tagged_bytes := co_tagged_bytes s + bytes\<rparr> in
        if is_write then s\<lparr>co_tagged_write_bytes := co_tagged_write_bytes s + bytes\<rparr>
        else s\<lparr>co_tagged_read_bytes := co_tagged_read_bytes s + bytes\<rparr>)"

definition count_instruction :: "core_config \<Rightarrow> instruction \<Rightarrow> core \<Rightarrow> core" where
  "count_instruction c i s =
     (if \<not> in_tagged i then s
      else let n = ucast (in_size i); bytes = ucast (in_size i) * ucast (cc_dram_req_size c) in
        if in_opcode i = MOVOUT \<or> in_opcode i = MOVOUT_POOL then count_tagged n bytes True s
        else if in_opcode i = MOVIN then count_tagged n bytes False s else s)"

definition issue :: "core_config \<Rightarrow> tile \<Rightarrow> core \<Rightarrow> core" where
  "issue c op s =
     (let one = (length (co_tiles s) = 1);
          spad_id = ((if one then ti_spad_id (hd (co_tiles s)) else 0) + 1) mod 2;
          acc_old = (if one then ti_accum_spad_id (hd (co_tiles s)) else 0);
          same = (ti_accum op \<and> co_layer_id s = ti_layer_id op \<and> co_fused_op_id s = ti_fused_op_id op);
          acc_id = (if same then acc_old else (acc_old + 1) mod 2);
          s1 = s\<lparr>co_spad := sram_flush spad_id (co_spad s),
                 co_acc_spad := (if same then co_acc_spad s else sram_flush acc_id (co_acc_spad s)),
                 co_layer_id := ti_layer_id op, co_fused_op_id := ti_fused_op_id op\<rparr>;
          op1 = op\<lparr>ti_start_cycle := co_cycle s, ti_cycles := 0, ti_compute_cycles := 0, ti_memory_stall := 0,
                  ti_spad_id := spad_id, ti_accum_spad_id := acc_id, ti_status := T_RUNNING\<rparr> in
      if ti_skip op
      then let s2 = fold (count_instruction c) (ti_instructions op) s1 in
        s2\<lparr>co_finished := co_finished s2 @ [op1\<lparr>ti_status := T_FINISH\<rparr>]\<rparr>
      else s1\<lparr>co_running_layer := ti_layer_id op, co_tiles := co_tiles s1 @ [op1]\<rparr>)"

text \<open>\<^const>\<open>None\<close> for the empty tile.\<close>

definition pop_finished_tile :: "core \<Rightarrow> tile option \<times> core" where
  "pop_finished_tile s =
     (case co_finished s of [] \<Rightarrow> (None, s) | t # ts \<Rightarrow> (Some t, s\<lparr>co_finished := ts\<rparr>))"

text \<open>The last instruction reports to its tile, which must still be there.\<close>

definition finish_tile_of :: "instruction \<Rightarrow> core \<Rightarrow> core result" where
  "finish_tile_of i s =
     (if \<not> in_last_inst i then Inr s
      else case in_my_tile i of None \<Rightarrow> Inl Undefined | Some a \<Rightarrow>
        let mark_one = (\<lambda>t. if ti_address t = a then t\<lparr>ti_inst_finished := True\<rparr> else t) in
        if a \<in> ti_address ` set (co_tiles s @ co_finished s)
        then Inr (s\<lparr>co_tiles := map mark_one (co_tiles s), co_finished := map mark_one (co_finished s)\<rparr>)
        else Inl Undefined)"

section \<open>Timing of the units\<close>

definition vector_op_iterations :: "core_config \<Rightarrow> u32 \<Rightarrow> u64 result" where
  "vector_op_iterations c n =
     (let unit = drop_bit 3 (cc_vector_process_bit c) in
      if unit = 0 then Inl Undefined
      else Inr (ucast (n div unit + (if n mod unit \<noteq> 0 then 1 else 0))))"

text \<open>The recursion of the adder tree divides by zero for a unit of zero and never ends for a unit of one, which
  exhausts the stack.\<close>

function add_tree_iterations :: "u32 \<Rightarrow> u32 \<Rightarrow> u64 result" where
  "add_tree_iterations unit n =
     (if n \<le> unit then Inr 1
      else if unit \<le> 1 then Inl Undefined
      else let m = n div unit + (if n mod unit \<noteq> 0 then 1 else 0) in
        rbind (add_tree_iterations unit m) (\<lambda>t. Inr (ucast m + t)))"
  by pat_completeness auto

lemma tree_level:
  assumes "\<not> n \<le> unit" and "\<not> unit \<le> (1 :: u32)"
  shows "unat (n div unit + (if n mod unit \<noteq> 0 then 1 else 0)) \<le> unat n div unat unit + 1"
    and "unat (n div unit + (if n mod unit \<noteq> 0 then 1 else 0)) < unat n"
proof -
  let ?u = "unat unit" and ?n = "unat n"
  have u: "2 \<le> ?u" "?u < ?n" using assms by (simp_all add: word_le_nat_alt)
  have "?n div ?u * 2 \<le> ?n div ?u * ?u" using u(1) by (intro mult_le_mono2)
  also have "\<dots> \<le> ?n" by simp
  finally have half: "?n div ?u * 2 \<le> ?n" .
  have big: "?n < 2 ^ 32" using unsigned_less [of n, where 'a = nat] by simp
  have "unat (n div unit + 1) = ?n div ?u + 1" using half big by (simp add: unat_word_ariths unat_div)
  moreover have "unat (n div unit) = ?n div ?u" by (simp add: unat_div)
  ultimately show "unat (n div unit + (if n mod unit \<noteq> 0 then 1 else 0)) \<le> ?n div ?u + 1" by simp
  then show "unat (n div unit + (if n mod unit \<noteq> 0 then 1 else 0)) < ?n" using half u by linarith
qed

termination add_tree_iterations
proof (relation "measure (\<lambda>(unit, n). unat n)")
qed (simp, simp only: in_measure split_conv, rule tree_level(2))

definition compute_cycles :: "core_config \<Rightarrow> instruction \<Rightarrow> u64" where
  "compute_cycles c i = ucast (cc_height c + cc_width c - 2 + max (in_compute_size i) 4)"

definition vector_cycles :: "core_config \<Rightarrow> instruction \<Rightarrow> u64 result" where
  "vector_cycles c i =
     rbind (vector_op_iterations c (in_compute_size i)) (\<lambda>v.
     rbind (add_tree_iterations (drop_bit 3 (cc_vector_process_bit c)) (in_compute_size i)) (\<lambda>t. Inr (
       case in_opcode i of
         LAYERNORM \<Rightarrow> 2 * t * ucast (cc_add_tree_latency c)
           + ucast (2 * cc_scalar_mul_latency c + cc_scalar_sqrt_latency c)
           + v * ucast (2 * cc_add_latency c + 3 * cc_mul_latency c) * ucast (in_tile_m i)
       | SOFTMAX \<Rightarrow> 2 * t * ucast (cc_add_tree_latency c) * ucast (in_tile_m i)
           + v * ucast (cc_add_latency c + cc_exp_latency c + cc_mul_latency c)
       | OP_ADD \<Rightarrow> v * ucast (cc_add_latency c)
       | OP_MUL \<Rightarrow> v * ucast (cc_mul_latency c)
       | OP_MAC \<Rightarrow> v * ucast (cc_mac_latency c)
       | SWISH \<Rightarrow> v * ucast (cc_gelu_latency c)
       | GELU \<Rightarrow> v * ucast (cc_gelu_latency c)
       | COMP \<Rightarrow> v * 1
       | ADDTREE \<Rightarrow> t * ucast (cc_add_tree_latency c) * ucast (in_tile_m i)
       | OP_DIV \<Rightarrow> v * ucast (cc_div_latency c)
       | OP_EXP \<Rightarrow> v * ucast (cc_exp_latency c)
       | _ \<Rightarrow> 0)))"

definition is_gemm :: "instruction \<Rightarrow> bool" where
  "is_gemm i \<longleftrightarrow> in_opcode i = GEMM \<or> in_opcode i = GEMM_PRELOAD"

text \<open>The operands are there; the unit of the instruction has room.\<close>

definition sources_hit :: "instruction \<Rightarrow> core \<Rightarrow> bool" where
  "sources_hit i s \<longleftrightarrow> list_all (\<lambda>a. if in_src_from_accum i \<and> ACCUM_SPAD_BASE \<le> a
     then check_hit a (in_accum_spad_id i) (co_acc_spad s) else check_hit a (in_spad_id i) (co_spad s)) (in_src_addrs i)"

definition can_issue_compute :: "core_config \<Rightarrow> instruction \<Rightarrow> core \<Rightarrow> bool" where
  "can_issue_compute c i s \<longleftrightarrow> sources_hit i s
     \<and> (if is_gemm i then length (co_compute_pipeline s) < unat (cc_height c) else co_vector_pipeline s = [])"

section \<open>The stages of a cycle\<close>

definition in_acc :: "instruction \<Rightarrow> bool" where
  "in_acc i \<longleftrightarrow> ACCUM_SPAD_BASE \<le> in_dest_addr i"

definition dest_buffer :: "instruction \<Rightarrow> nat" where
  "dest_buffer i = (if in_acc i then in_accum_spad_id i else in_spad_id i)"

definition dest_sram :: "instruction \<Rightarrow> core \<Rightarrow> sram" where
  "dest_sram i s = (if in_acc i then co_acc_spad s else co_spad s)"

definition on_dest :: "instruction \<Rightarrow> (sram \<Rightarrow> sram result) \<Rightarrow> core \<Rightarrow> core result" where
  "on_dest i f s =
     (if in_acc i then rbind (f (co_acc_spad s)) (\<lambda>m. Inr (s\<lparr>co_acc_spad := m\<rparr>))
      else rbind (f (co_spad s)) (\<lambda>m. Inr (s\<lparr>co_spad := m\<rparr>)))"

definition upd_now :: "(core_stats \<Rightarrow> core_stats) \<Rightarrow> core \<Rightarrow> core" where
  "upd_now f s = s\<lparr>co_now := f (co_now s)\<rparr>"

definition finish_compute :: "core_config \<Rightarrow> core \<Rightarrow> core result" where
  "finish_compute c s =
     (case co_compute_pipeline s of [] \<Rightarrow> Inr s | i # is \<Rightarrow>
        if co_cycle s < in_finish_cycle i then Inr s
        else rbind (on_dest i (sram_fill (in_dest_addr i) (dest_buffer i)) s) (\<lambda>s.
          rbind (finish_tile_of i s) (\<lambda>s.
            if cc_height c * cc_width c = 0 then Inl Undefined
            else let q = in_tile_k i * in_tile_m i * in_tile_n i div (cc_height c * cc_width c) in
              Inr (upd_now (\<lambda>t. t\<lparr>cs_matmul := fadd b64 (cs_matmul t) (du64 q)\<rparr>) s\<lparr>co_compute_pipeline := is\<rparr>))))"

definition finish_vector :: "core \<Rightarrow> core result" where
  "finish_vector s =
     (case co_vector_pipeline s of [] \<Rightarrow> Inr s | i # is \<Rightarrow>
        if co_cycle s < in_finish_cycle i then Inr s
        else rbind (on_dest i (sram_fill (in_dest_addr i) (dest_buffer i)) s) (\<lambda>s.
          rbind (finish_tile_of i s) (\<lambda>s. Inr (s\<lparr>co_vector_pipeline := is\<rparr>))))"

text \<open>The accesses of a load or a store, one per source address.\<close>

definition make_access :: "core_config \<Rightarrow> bool \<Rightarrow> instruction \<Rightarrow> core \<Rightarrow> u64 \<Rightarrow> mem_access" where
  "make_access c is_write i s a =
     \<lparr>ma_id = co_next_id s, ma_dram_address = a + in_base_addr i, ma_spad_address = in_dest_addr i,
      ma_size = ucast (cc_dram_req_size c), ma_write = is_write, ma_request = True, ma_core_id = co_id s,
      ma_start_cycle = co_cycle s, ma_dram_enter_cycle = 0, ma_dram_finish_cycle = 0,
      ma_buffer_id = int (dest_buffer i), ma_request_id = in_request_id i, ma_operand_id = in_operand_id i,
      ma_request_identity_tagged = in_tagged i, ma_spec_task_type = in_spec_task_type i\<rparr>"

fun send_accesses :: "core_config \<Rightarrow> bool \<Rightarrow> instruction \<Rightarrow> u64 list \<Rightarrow> core \<Rightarrow> core result" where
  "send_accesses c is_write i [] s = Inr s"
| "send_accesses c is_write i (a # as) s =
     (if in_base_addr i = GARBEGE_ADDR then Inl Exited
      else let m = make_access c is_write i s a;
               s1 = (if in_tagged i then count_tagged 1 (ma_size m) is_write s else s) in
        send_accesses c is_write i as
          (s1\<lparr>co_next_id := co_next_id s + 1, co_requests := co_requests s @ [m],
              co_waiting_writes := (if is_write then co_waiting_writes s + 1 else co_waiting_writes s)\<rparr>))"

definition handle_ld :: "core_config \<Rightarrow> core \<Rightarrow> core result" where
  "handle_ld c s =
     (case co_ld_queue s of [] \<Rightarrow> Inr s | i # is \<Rightarrow>
        if in_opcode i \<noteq> MOVIN then Inl Exited
        else rbind (on_dest i (\<lambda>m. rbind (prefetch (in_dest_addr i) (dest_buffer i) (ucast (in_size i)) (ucast (in_size i)) m)
               (\<lambda>(done, m'). if done then Inr m' else Inl Exited)) s) (\<lambda>s.
          rbind (send_accesses c False i (in_src_addrs i) s) (\<lambda>s. Inr (s\<lparr>co_ld_queue := is\<rparr>))))"

text \<open>The front is moved out of the store queue before the test; if its data is not there, a null pointer stays behind.\<close>

definition handle_st :: "core_config \<Rightarrow> core \<Rightarrow> core result" where
  "handle_st c s =
     (case co_st_queue s of [] \<Rightarrow> Inr s | None # is \<Rightarrow> Inl Undefined | Some i # is \<Rightarrow>
        if in_opcode i \<noteq> MOVOUT \<and> in_opcode i \<noteq> MOVOUT_POOL then Inl Exited
        else if \<not> check_hit (in_dest_addr i) (dest_buffer i) (dest_sram i s) then Inr (s\<lparr>co_st_queue := None # is\<rparr>)
        else rbind (send_accesses c True i (in_src_addrs i) s) (\<lambda>s.
          rbind (finish_tile_of i s) (\<lambda>s. Inr (s\<lparr>co_st_queue := is\<rparr>))))"

text \<open>The start of a matrix instruction behind the last one of the pipeline, with the bubble it leaves.\<close>

definition start_behind :: "core_config \<Rightarrow> instruction \<Rightarrow> instruction \<Rightarrow> u64 \<Rightarrow> u64 \<times> u64" where
  "start_behind c prev i now =
     (let offset = max (in_compute_size prev) 4;
          offset = (if in_opcode i = GEMM_PRELOAD then max offset (cc_height c) else offset) in
      if in_start_cycle prev + ucast offset < now then (now, now - in_start_cycle prev + ucast offset)
      else (in_start_cycle prev + ucast offset, 0))"

definition push_compute :: "core_config \<Rightarrow> instruction \<Rightarrow> core \<Rightarrow> core" where
  "push_compute c i s =
     (let now = co_cycle s; pre = (in_opcode i = GEMM_PRELOAD);
          (start, bubble) = (if co_compute_pipeline s \<noteq> [] then start_behind c (last (co_compute_pipeline s)) i now
                             else (if pre then now + ucast (cc_height c + cc_height c - 1) else now, 0));
          i1 = i\<lparr>in_start_cycle := start, in_finish_cycle := start + compute_cycles c i\<rparr> in
      upd_now (\<lambda>t. t\<lparr>cs_bubble := cs_bubble t + bubble\<rparr>) s
        \<lparr>co_compute_pipeline := co_compute_pipeline s @ [i1], co_inst_issued := co_inst_issued s + 1,
         co_preloads_issued := co_preloads_issued s + (if pre then 1 else 0)\<rparr>)"

definition handle_ex :: "core_config \<Rightarrow> core \<Rightarrow> core result" where
  "handle_ex c s =
     (case co_ex_queue s of [] \<Rightarrow> Inr s | i # is \<Rightarrow>
        if \<not> can_issue_compute c i s then Inr s
        else rbind (on_dest i (\<lambda>m.
              if check_allocated (in_dest_addr i) (dest_buffer i) m then count_up (in_dest_addr i) (dest_buffer i) m
              else rbind (prefetch (in_dest_addr i) (dest_buffer i) (ucast (in_size i)) (if in_zero_init i then ucast (in_size i) else 1) m)
                     (\<lambda>(done, m'). if done then Inr m' else Inl Exited)) s) (\<lambda>s.
          if is_gemm i then Inr (push_compute c i s\<lparr>co_ex_queue := is\<rparr>)
          else rbind (vector_cycles c i) (\<lambda>n.
            Inr (s\<lparr>co_vector_pipeline := co_vector_pipeline s
                     @ [i\<lparr>in_start_cycle := co_cycle s, in_finish_cycle := co_cycle s + n\<rparr>], co_ex_queue := is\<rparr>))))"

definition core_running :: "core \<Rightarrow> bool" where
  "core_running s \<longleftrightarrow> co_tiles s \<noteq> [] \<or> co_compute_pipeline s \<noteq> [] \<or> co_vector_pipeline s \<noteq> [] \<or> co_waiting_writes s \<noteq> 0
     \<or> co_ld_queue s \<noteq> [] \<or> co_st_queue s \<noteq> [] \<or> co_ex_queue s \<noteq> []"

definition count_cycle :: "core \<Rightarrow> core" where
  "count_cycle s =
     (let busy = (\<lambda>p. p \<noteq> [] \<and> in_start_cycle (hd p) \<le> co_cycle s);
          cb = busy (co_compute_pipeline s); vb = busy (co_vector_pipeline s); one = (\<lambda>b. if b then 1 else 0) in
      upd_now (\<lambda>t. t\<lparr>cs_systolic_active := cs_systolic_active t + one cb, cs_vec_compute := cs_vec_compute t + one vb,
         cs_compute := cs_compute t + one (cb \<or> vb), cs_memory_idle := cs_memory_idle t + one (co_requests s = []),
         cs_idle := cs_idle t + one (\<not> core_running s)\<rparr>) s)"

definition update_stats :: "core \<Rightarrow> core" where
  "update_stats s =
     (let n = co_now s; t = co_total s in
      s\<lparr>co_total := \<lparr>cs_idle = cs_idle t + cs_idle n, cs_bubble = cs_bubble t + cs_bubble n,
            cs_memory_idle = cs_memory_idle t + cs_memory_idle n, cs_compute = cs_compute t + cs_compute n,
            cs_vec_compute = cs_vec_compute t + cs_vec_compute n,
            cs_systolic_active = cs_systolic_active t + cs_systolic_active n,
            cs_matmul = fadd b64 (cs_matmul t) (cs_matmul n)\<rparr>,
         co_now := core_stats_init\<rparr>)"

text \<open>The front instruction of the \<^verbatim>\<open>i\<close>-th tile is prepared and, if its queue takes it, moved there.\<close>

definition put_tile :: "nat \<Rightarrow> tile \<Rightarrow> core \<Rightarrow> core" where
  "put_tile i t s = s\<lparr>co_tiles := (co_tiles s)[i := t]\<rparr>"

definition prepare :: "tile \<Rightarrow> instruction \<Rightarrow> instruction" where
  "prepare t inst =
     (let inst = (if length (ti_instructions t) = 1 then inst\<lparr>in_last_inst := True, in_my_tile := Some (ti_address t)\<rparr> else inst) in
      inst\<lparr>in_spad_id := ti_spad_id t, in_accum_spad_id := ti_accum_spad_id t\<rparr>)"

definition try_tile :: "core_config \<Rightarrow> nat \<Rightarrow> core \<Rightarrow> (bool \<times> core) result" where
  "try_tile c i s =
     (let t = co_tiles s ! i in
      case ti_instructions t of [] \<Rightarrow> Inr (False, s) | inst0 # rest \<Rightarrow>
      let inst = prepare t inst0;
          stay = put_tile i (t\<lparr>ti_instructions := inst # rest\<rparr>) s;
          go = put_tile i (t\<lparr>ti_instructions := rest\<rparr>) s\<lparr>co_tile_rr := of_nat i\<rparr>;
          m = dest_sram inst s; a = in_dest_addr inst; b = dest_buffer inst in
      if in_opcode inst = MOVIN then
        if \<not> check_allocated a b m \<and> check_remain (ucast (in_size inst)) b m
        then Inr (True, go\<lparr>co_ld_queue := co_ld_queue s @ [inst]\<rparr>) else Inl Exited
      else if in_opcode inst = MOVOUT \<or> in_opcode inst = MOVOUT_POOL then
        Inr (if check_hit a b m then (True, go\<lparr>co_st_queue := co_st_queue s @ [Some inst]\<rparr>) else (False, stay))
      else
        Inr (if co_ex_queue s = [] \<and> can_issue_compute c inst s
             then (True, go\<lparr>co_ex_queue := [inst]\<rparr>) else (False, stay)))"

fun try_tiles :: "core_config \<Rightarrow> nat list \<Rightarrow> core \<Rightarrow> core result" where
  "try_tiles c [] s = Inr s"
| "try_tiles c (i # is) s =
     rbind (try_tile c i s) (\<lambda>(issued, s'). if issued then Inr s' else try_tiles c is s')"

text \<open>The first tile that is done leaves.\<close>

fun take_done :: "tile list \<Rightarrow> (tile \<times> tile list) option" where
  "take_done [] = None"
| "take_done (t # ts) =
     (if ti_instructions t = [] \<and> ti_inst_finished t then Some (t, ts)
      else map_option (\<lambda>(d, ts'). (d, t # ts')) (take_done ts))"

definition retire_tile :: "core \<Rightarrow> core" where
  "retire_tile s =
     (case take_done (co_tiles s) of None \<Rightarrow> s | Some (t, ts) \<Rightarrow>
        let n = co_cycle s - ti_start_cycle t in
        s\<lparr>co_tiles := ts,
          co_finished := co_finished s @ [t\<lparr>ti_status := T_FINISH, ti_cycles := n, ti_memory_stall := n - ti_compute_cycles t\<rparr>]\<rparr>)"

definition base_cycle :: "core_config \<Rightarrow> core \<Rightarrow> core result" where
  "base_cycle c s0 =
     (let s = s0\<lparr>co_cycle := co_cycle s0 + 1\<rparr>; n = length (co_tiles s);
          order = map (\<lambda>k. unat (of_nat k + co_tile_rr s) mod n) [0..<n] in
      rbind (try_tiles c order s) (\<lambda>s.
        let s = retire_tile s in
        Inr (if cc_print_interval c \<noteq> 0 \<and> co_cycle s mod ucast (cc_print_interval c) = 0 then update_stats s else s)))"

definition core_cycle :: "core_config \<Rightarrow> core \<Rightarrow> core result" where
  "core_cycle c s =
     rbind (finish_compute c s) (\<lambda>s.
     rbind (finish_vector s) (\<lambda>s.
     rbind (handle_ld c s) (\<lambda>s.
     rbind (handle_ex c s) (\<lambda>s.
     rbind (handle_st c s) (\<lambda>s.
     base_cycle c (count_cycle s))))))"

section \<open>Memory requests and responses\<close>

definition pop_memory_request :: "core \<Rightarrow> (mem_access \<times> core) result" where
  "pop_memory_request s =
     (case co_requests s of [] \<Rightarrow> Inl Exited | m # ms \<Rightarrow> Inr (m, s\<lparr>co_requests := ms\<rparr>))"

definition push_memory_response :: "mem_access \<Rightarrow> core \<Rightarrow> core result" where
  "push_memory_response m s =
     (if ma_request m then Inl Exited
      else if ma_write m then Inr (s\<lparr>co_waiting_writes := co_waiting_writes s - 1\<rparr>)
      else if ACCUM_SPAD_BASE \<le> ma_spad_address m
      then rbind (sram_fill (ma_spad_address m) (nat (ma_buffer_id m)) (co_acc_spad s)) (\<lambda>x. Inr (s\<lparr>co_acc_spad := x\<rparr>))
      else rbind (sram_fill (ma_spad_address m) (nat (ma_buffer_id m)) (co_spad s)) (\<lambda>x. Inr (s\<lparr>co_spad := x\<rparr>)))"

end
