(* ===== verification/NpuUnits.thy ===== *)
theory NpuUnits
  imports NpuCore
begin

text \<open>
  What keeps a core of the NPU simulator consistent: the scratchpads account for their entries and never hold more
  than they have room for, the matrix pipeline is in order and on time, tiles and writes are accounted for, and
  the recursion of the adder tree ends.
\<close>

section \<open>Scratchpads\<close>

definition sram_ok :: "sram \<Rightarrow> bool" where
  "sram_ok s \<longleftrightarrow> unat (sr_size s) < 2 ^ 31 \<and> 0 < unat (sr_width s) \<and> unat (sr_width s) < 2 ^ 31
     \<and> (\<forall>b. finite (dom (sb_table (sr_buffers s b)))
          \<and> map_total (unat \<circ> se_size) (sb_table (sr_buffers s b)) = unat (sb_current (sr_buffers s b))
          \<and> unat (sb_current (sr_buffers s b)) * unat (sr_width s) \<le> unat (sr_size s)
          \<and> (\<forall>a e. entry_of s b a = Some e \<longrightarrow> se_valid e \<longrightarrow> se_remain e = 0))"

lemma unat_scast:
  assumes "unat (x :: u32) < 2 ^ 31"
  shows "unat (scast x :: u64) = unat x"
proof -
  have "int (unat x) < int (2 ^ 31)" using assms by (simp only: of_nat_less_iff)
  then have "uint x < 2 ^ 31" by simp
  moreover have "- (2 ^ 31) \<le> uint x" by (rule order_trans [of _ 0]) simp_all
  ultimately have "signed_take_bit 31 (uint x) = uint x" by (intro signed_take_bit_int_eq_self) simp_all
  then have "sint x = int (unat x)" by (simp add: sint_uint)
  then have "(scast x :: u64) = of_nat (unat x)" by (simp add: scast_eq)
  moreover have "unat x < 2 ^ 64" using unsigned_less [of x, where 'a = nat] by simp
  ultimately show ?thesis by (simp add: unsigned_ucast_eq take_bit_nat_eq_self)
qed

lemma unat_sum:
  assumes "unat (x :: u64) + unat y < 2 ^ 64"
  shows "unat (x + y) = unat x + unat y"
  using assms by (simp add: unat_word_ariths)

lemma sram_init_ok: "0 < unat w \<Longrightarrow> unat w < 2 ^ 31 \<Longrightarrow> sram_ok (sram_init acc kb w)"
  using unsigned_less [of "kb * 1024", where 'a = nat]
  by (simp add: sram_ok_def sram_init_def empty_buffer_def unat_div)

lemma flush_ok: "sram_ok s \<Longrightarrow> sram_ok (sram_flush b s)"
  by (simp add: sram_ok_def sram_flush_def upd_buffer_def empty_buffer_def)

text \<open>Replacing an entry by one of the same size.\<close>

lemma put_same_size:
  assumes "sram_ok s" and "entry_of s b a = Some e" and "se_size e' = se_size e" and "se_valid e' \<longrightarrow> se_remain e' = 0"
  shows "sram_ok (put_entry a b e' s)"
proof -
  let ?m = "sb_table (sr_buffers s b)"
  have fin: "finite (dom ?m)" using assms(1) by (simp add: sram_ok_def)
  have "map_total (unat \<circ> se_size) (?m(a \<mapsto> e')) + at_key (unat \<circ> se_size) ?m a = map_total (unat \<circ> se_size) ?m + unat (se_size e')"
    using map_total_upd [OF fin] by simp
  then have "map_total (unat \<circ> se_size) (?m(a \<mapsto> e')) = map_total (unat \<circ> se_size) ?m" using assms(2,3) by (simp add: at_key_def)
  then show ?thesis using assms(1,4) by (simp add: sram_ok_def put_entry_def upd_buffer_def)
qed

lemma fill_ok:
  assumes "sram_ok s" and "sram_fill a b s = Inr s'"
  shows "sram_ok s'"
  using assms by (auto simp: sram_fill_def Let_def split: option.splits if_splits intro!: put_same_size)

lemma count_up_ok:
  assumes "sram_ok s" and "count_up a b s = Inr s'"
  shows "sram_ok s'"
  using assms by (auto simp: count_up_def split: option.splits intro!: put_same_size)

lemma check_remain_iff:
  assumes "sram_ok s" and "unat sz < 2 ^ 32"
  shows "check_remain sz b s \<longleftrightarrow> (unat (sb_current (sr_buffers s b)) + unat sz) * unat (sr_width s) \<le> unat (sr_size s)"
proof -
  let ?cur = "unat (sb_current (sr_buffers s b))" and ?w = "unat (sr_width s)"
  have s: "unat (sr_size s) < 2 ^ 31" "0 < ?w" "?w < 2 ^ 31" "?cur * ?w \<le> unat (sr_size s)" using assms(1) by (auto simp: sram_ok_def)
  have "?cur \<le> ?cur * ?w" using s(2) by simp
  then have cur: "?cur < 2 ^ 31" using s(1,4) by linarith
  have c: "unat (scast (sb_current (sr_buffers s b)) :: u64) = ?cur" "unat (scast (sr_width s) :: u64) = ?w"
    "unat (scast (sr_size s) :: u64) = unat (sr_size s)" using unat_scast cur s by blast+
  have p: "unat (scast (sb_current (sr_buffers s b)) + sz) = ?cur + unat sz"
    using cur assms(2) c(1) unat_sum [of "scast (sb_current (sr_buffers s b)) :: u64" sz] by simp
  have "(?cur + unat sz) * ?w < 2 ^ 33 * 2 ^ 31" using cur assms(2) s(3) by (intro mult_strict_mono) simp_all
  then have "unat ((scast (sb_current (sr_buffers s b)) + sz) * scast (sr_width s)) = (?cur + unat sz) * ?w"
    using p c(2) by (simp add: unat_mult_lem unat_word_ariths)
  then show ?thesis using c(3) by (simp add: check_remain_def word_le_nat_alt)
qed

lemma prefetch_ok:
  assumes "sram_ok s" and "unat sz < 2 ^ 32" and "prefetch a b sz cnt s = Inr (d, s')"
  shows "sram_ok s'"
proof (cases "entry_of s b a")
  case None
  let ?t = "sr_buffers s b"
  let ?new = "\<lparr>se_valid = False, se_size = sz, se_remain = cnt\<rparr>"
  have r: "check_remain sz b s" and s': "s' = put_entry a b ?new (upd_buffer b (\<lambda>t. t\<lparr>sb_current := ucast (scast (sb_current t) + sz :: u64)\<rparr>) s)"
    using assms(3) None by (auto simp: prefetch_def split: if_splits)
  have s: "unat (sr_size s) < 2 ^ 31" "0 < unat (sr_width s)" "finite (dom (sb_table ?t))"
    "map_total (unat \<circ> se_size) (sb_table ?t) = unat (sb_current ?t)" using assms(1) by (auto simp: sram_ok_def)
  have fit: "(unat (sb_current ?t) + unat sz) * unat (sr_width s) \<le> unat (sr_size s)"
    using r check_remain_iff [OF assms(1,2)] by simp
  have "unat (sb_current ?t) + unat sz \<le> unat (sr_size s)" by (rule le_trans [OF _ fit]) (use s(2) in simp)
  then have small: "unat (sb_current ?t) + unat sz < 2 ^ 31" using s(1) by linarith
  then have "unat (scast (sb_current ?t) + sz :: u64) = unat (sb_current ?t) + unat sz"
    using unat_sum [of "scast (sb_current ?t) :: u64" sz] unat_scast [of "sb_current ?t"] by simp
  then have cur: "unat (ucast (scast (sb_current ?t) + sz :: u64) :: u32) = unat (sb_current ?t) + unat sz"
    using small by (simp add: unsigned_ucast_eq take_bit_nat_eq_self)
  have "map_total (unat \<circ> se_size) ((sb_table ?t)(a \<mapsto> ?new)) = unat (sb_current ?t) + unat sz"
    using map_total_upd [OF s(3), of "unat \<circ> se_size" a ?new] None s(4) by (simp add: at_key_def)
  then show ?thesis using assms(1) cur fit unfolding s'
    by (simp add: sram_ok_def put_entry_def upd_buffer_def)
next
  case (Some e)
  then show ?thesis using assms by (auto simp: prefetch_def split: if_splits)
qed

section \<open>What the stages of a core keep\<close>

definition pads_ok :: "core \<Rightarrow> bool" where
  "pads_ok s \<longleftrightarrow> sram_ok (co_spad s) \<and> sram_ok (co_acc_spad s)"

text \<open>The accesses a step adds to the requests, each from this core, with the writes counted.\<close>

definition sends :: "core \<Rightarrow> mem_access list \<Rightarrow> core \<Rightarrow> bool" where
  "sends s ms s' \<longleftrightarrow> co_id s' = co_id s \<and> co_requests s' = co_requests s @ ms
     \<and> co_waiting_writes s' = co_waiting_writes s + of_nat (length (filter ma_write ms))
     \<and> (\<forall>m \<in> set ms. ma_core_id m = co_id s \<and> ma_request m)"

definition core_keeps :: "core \<Rightarrow> core \<Rightarrow> bool" where
  "core_keeps s s' \<longleftrightarrow> (pads_ok s \<longrightarrow> pads_ok s') \<and> (\<exists>ms. sends s ms s')"

lemma sends_trans: "sends s ms s' \<Longrightarrow> sends s' ns s'' \<Longrightarrow> sends s (ms @ ns) s''"
  by (auto simp: sends_def)

lemma keeps_refl [simp]: "core_keeps s s"
  unfolding core_keeps_def sends_def by (auto intro!: exI [of _ "[]"])

lemma keeps_trans: "core_keeps s s' \<Longrightarrow> core_keeps s' s'' \<Longrightarrow> core_keeps s s''"
  unfolding core_keeps_def using sends_trans by blast

text \<open>A step that leaves the scratchpads, the requests and their count alone.\<close>

definition same_memory :: "core \<Rightarrow> core \<Rightarrow> bool" where
  "same_memory s s' \<longleftrightarrow> co_id s' = co_id s \<and> co_requests s' = co_requests s \<and> co_waiting_writes s' = co_waiting_writes s
     \<and> co_spad s' = co_spad s \<and> co_acc_spad s' = co_acc_spad s"

lemma same_keeps: "same_memory s s' \<Longrightarrow> core_keeps s s'"
  unfolding core_keeps_def sends_def same_memory_def pads_ok_def by (auto intro!: exI [of _ "[]"])

lemma same_trans: "same_memory s s' \<Longrightarrow> same_memory s' s'' \<Longrightarrow> same_memory s s''"
  by (simp add: same_memory_def)

lemma same_refl [simp]: "same_memory s s"
  by (simp add: same_memory_def)

lemma on_dest_keeps:
  assumes "on_dest i f s = Inr s'" and "\<And>m m'. sram_ok m \<Longrightarrow> f m = Inr m' \<Longrightarrow> sram_ok m'"
  shows "core_keeps s s'"
  using assms unfolding core_keeps_def sends_def pads_ok_def
  by (auto simp: on_dest_def rbind_Inr split: if_splits intro!: exI [of _ "[]"])

lemma finish_tile_same: "finish_tile_of i s = Inr s' \<Longrightarrow> same_memory s s'"
  by (auto simp: finish_tile_of_def same_memory_def Let_def split: if_splits option.splits)

lemma count_tagged_same: "same_memory s (count_tagged n b w s)"
  by (simp add: count_tagged_def same_memory_def Let_def)

lemma send_accesses_keeps: "send_accesses c w i as s = Inr s' \<Longrightarrow> core_keeps s s'"
proof (induction as arbitrary: s)
  case (Cons a as)
  let ?m = "make_access c w i s a"
  let ?s1 = "if in_tagged i then count_tagged 1 (ma_size ?m) w s else s"
  let ?s2 = "?s1\<lparr>co_next_id := co_next_id s + 1, co_requests := co_requests s @ [?m],
    co_waiting_writes := (if w then co_waiting_writes s + 1 else co_waiting_writes s)\<rparr>"
  have "same_memory s ?s1" using count_tagged_same by simp
  then have "core_keeps s ?s2"
    unfolding core_keeps_def sends_def same_memory_def pads_ok_def
    by (auto simp: make_access_def intro!: exI [of _ "[?m]"])
  moreover have "core_keeps ?s2 s'" using Cons by (simp add: Let_def split: if_splits)
  ultimately show ?case by (rule keeps_trans)
qed simp

lemma finish_compute_keeps:
  assumes "finish_compute c s = Inr s'" shows "core_keeps s s'"
proof (cases "co_compute_pipeline s")
  case (Cons i js)
  show ?thesis
  proof (cases "co_cycle s < in_finish_cycle i")
    case False
    then obtain s1 s2 where r: "on_dest i (sram_fill (in_dest_addr i) (dest_buffer i)) s = Inr s1" "finish_tile_of i s1 = Inr s2"
      "same_memory s2 s'"
      using assms Cons by (auto simp: finish_compute_def rbind_Inr same_memory_def upd_now_def Let_def split: if_splits)
    from r(1) have "core_keeps s s1" by (rule on_dest_keeps) (rule fill_ok)
    with r(2,3) show ?thesis by (meson finish_tile_same same_keeps keeps_trans)
  qed (use assms Cons in \<open>simp add: finish_compute_def\<close>)
qed (use assms in \<open>simp add: finish_compute_def\<close>)

lemma finish_vector_keeps:
  assumes "finish_vector s = Inr s'" shows "core_keeps s s'"
proof (cases "co_vector_pipeline s")
  case (Cons i js)
  show ?thesis
  proof (cases "co_cycle s < in_finish_cycle i")
    case False
    then obtain s1 s2 where r: "on_dest i (sram_fill (in_dest_addr i) (dest_buffer i)) s = Inr s1" "finish_tile_of i s1 = Inr s2"
      "same_memory s2 s'"
      using assms Cons by (auto simp: finish_vector_def rbind_Inr same_memory_def)
    from r(1) have "core_keeps s s1" by (rule on_dest_keeps) (rule fill_ok)
    with r(2,3) show ?thesis by (meson finish_tile_same same_keeps keeps_trans)
  qed (use assms Cons in \<open>simp add: finish_vector_def\<close>)
qed (use assms in \<open>simp add: finish_vector_def\<close>)

lemma unat_ucast_less: "unat (ucast (n :: u32) :: u64) < 2 ^ 32"
  using unsigned_less [of n, where 'a = nat] by (simp add: unsigned_ucast_eq take_bit_nat_eq_self)

lemma allocate_ok:
  assumes "sram_ok m" and "rbind (prefetch a b (ucast (n :: u32)) cnt m) (\<lambda>(done, m'). if done then Inr m' else Inl Exited) = Inr m'"
  shows "sram_ok m'"
  using assms prefetch_ok [OF assms(1) unat_ucast_less] by (auto simp: rbind_Inr split: if_splits)

lemma handle_ld_keeps:
  assumes "handle_ld c s = Inr s'" shows "core_keeps s s'"
proof (cases "co_ld_queue s")
  case (Cons i js)
  then obtain s1 s2 where r: "on_dest i (\<lambda>m. rbind (prefetch (in_dest_addr i) (dest_buffer i) (ucast (in_size i)) (ucast (in_size i)) m)
      (\<lambda>(done, m'). if done then Inr m' else Inl Exited)) s = Inr s1" "send_accesses c False i (in_src_addrs i) s1 = Inr s2"
    "same_memory s2 s'"
    using assms by (auto simp: handle_ld_def rbind_Inr same_memory_def split: if_splits)
  from r(1) have "core_keeps s s1" by (rule on_dest_keeps) (rule allocate_ok)
  with r(2,3) show ?thesis by (meson send_accesses_keeps same_keeps keeps_trans)
qed (use assms in \<open>simp add: handle_ld_def\<close>)

lemma handle_st_keeps:
  assumes "handle_st c s = Inr s'" shows "core_keeps s s'"
proof (cases "co_st_queue s")
  case (Cons x js)
  then obtain i where x: "x = Some i" using assms by (cases x) (simp_all add: handle_st_def)
  show ?thesis
  proof (cases "check_hit (in_dest_addr i) (dest_buffer i) (dest_sram i s)")
    case True
    then obtain s1 s2 where r: "send_accesses c True i (in_src_addrs i) s = Inr s1" "finish_tile_of i s1 = Inr s2" "same_memory s2 s'"
      using assms Cons x by (auto simp: handle_st_def rbind_Inr same_memory_def split: if_splits)
    then show ?thesis by (meson send_accesses_keeps finish_tile_same same_keeps keeps_trans)
  next
    case False
    then have "same_memory s s'" using assms Cons x by (auto simp: handle_st_def same_memory_def split: if_splits)
    then show ?thesis by (rule same_keeps)
  qed
qed (use assms in \<open>simp add: handle_st_def\<close>)

lemma push_compute_same: "same_memory s (push_compute c i s)"
  by (simp add: push_compute_def same_memory_def upd_now_def Let_def split: prod.splits)

lemma handle_ex_keeps:
  assumes "handle_ex c s = Inr s'" shows "core_keeps s s'"
proof (cases "co_ex_queue s")
  case (Cons i js)
  show ?thesis
  proof (cases "can_issue_compute c i s")
    case True
    then obtain s1 where r: "on_dest i (\<lambda>m. if check_allocated (in_dest_addr i) (dest_buffer i) m
          then count_up (in_dest_addr i) (dest_buffer i) m
          else rbind (prefetch (in_dest_addr i) (dest_buffer i) (ucast (in_size i)) (if in_zero_init i then ucast (in_size i) else 1) m)
                 (\<lambda>(done, m'). if done then Inr m' else Inl Exited)) s = Inr s1" "same_memory s1 s'"
      using assms Cons push_compute_same [of _ c i]
      by (auto simp: handle_ex_def rbind_Inr same_memory_def split: if_splits)
    from r(1) have "core_keeps s s1"
      by (rule on_dest_keeps) (simp split: if_splits; erule (1) count_up_ok allocate_ok)
    with r(2) show ?thesis by (meson same_keeps keeps_trans)
  qed (use assms Cons in \<open>simp add: handle_ex_def\<close>)
qed (use assms in \<open>simp add: handle_ex_def\<close>)

lemma try_tile_same: "try_tile c i s = Inr (b, s') \<Longrightarrow> same_memory s s'"
  by (auto simp: try_tile_def same_memory_def put_tile_def Let_def split: list.splits if_splits)

lemma try_tiles_same: "try_tiles c is s = Inr s' \<Longrightarrow> same_memory s s'"
proof (induction "is" arbitrary: s)
  case (Cons i "is")
  then show ?case by (auto simp: rbind_Inr split: if_splits dest: try_tile_same intro: same_trans)
qed simp

lemma retire_same: "same_memory s (retire_tile s)"
  by (auto simp: retire_tile_def same_memory_def Let_def split: option.splits)

lemma update_stats_same: "same_memory s (update_stats s)"
  by (simp add: update_stats_def same_memory_def Let_def)

lemma base_cycle_same:
  assumes "base_cycle c s = Inr s'" shows "same_memory s s'"
proof -
  let ?s = "s\<lparr>co_cycle := co_cycle s + 1\<rparr>"
  obtain s1 where "try_tiles c (map (\<lambda>k. unat (of_nat k + co_tile_rr ?s) mod length (co_tiles ?s)) [0..<length (co_tiles ?s)]) ?s = Inr s1"
    and s': "s' = retire_tile s1 \<or> s' = update_stats (retire_tile s1)"
    using assms by (auto simp: base_cycle_def rbind_Inr Let_def)
  then have "same_memory ?s s1" by (intro try_tiles_same)
  moreover have "same_memory s1 s'" using s' retire_same update_stats_same same_trans by metis
  ultimately have "same_memory ?s s'" by (rule same_trans)
  then show ?thesis by (simp add: same_memory_def)
qed

lemma count_cycle_same: "same_memory s (count_cycle s)"
  by (simp add: count_cycle_def same_memory_def upd_now_def Let_def)

lemma core_cycle_keeps:
  assumes "core_cycle c s = Inr s'" shows "core_keeps s s'"
proof -
  obtain s1 s2 s3 s4 s5 where "finish_compute c s = Inr s1" "finish_vector s1 = Inr s2" "handle_ld c s2 = Inr s3" "handle_ex c s3 = Inr s4"
    "handle_st c s4 = Inr s5" "base_cycle c (count_cycle s5) = Inr s'"
    using assms by (auto simp: core_cycle_def rbind_Inr)
  then show ?thesis
    by (meson finish_compute_keeps finish_vector_keeps handle_ld_keeps handle_ex_keeps handle_st_keeps base_cycle_same
        count_cycle_same same_keeps keeps_trans)
qed

end
