(* ===== verification/NpuPipe.thy ===== *)
theory NpuPipe
  imports NpuUnits
begin

text \<open>
  The matrix pipeline of a core is in order and on time: the instructions start one behind the other, each after the one
  before it has left its input, they finish in that order, and each leaves in the cycle in which it finishes.
\<close>

section \<open>Order\<close>

definition occupancy :: "instruction \<Rightarrow> nat" where
  "occupancy i = max (unat (in_compute_size i)) 4"

definition started :: "instruction \<Rightarrow> nat" where
  "started i = unat (in_start_cycle i)"

text \<open>Each start is behind the occupancy of the one before, and not further than an instruction can delay it.\<close>

fun in_order :: "nat \<Rightarrow> instruction list \<Rightarrow> bool" where
  "in_order now [] = True"
| "in_order now [i] = True"
| "in_order now (i # j # is) = (started i + occupancy i \<le> started j \<and> started j \<le> max now (started i + 2 ^ 32) \<and> in_order now (j # is))"

lemma in_order_mono: "in_order now p \<Longrightarrow> now \<le> now' \<Longrightarrow> in_order now' p"
  by (induction now p rule: in_order.induct) auto

lemma in_order_tl: "in_order now (i # p) \<Longrightarrow> in_order now p"
  by (cases p) simp_all

lemma in_order_snoc:
  "in_order now p \<Longrightarrow> (p \<noteq> [] \<Longrightarrow> started (last p) + occupancy (last p) \<le> started j \<and> started j \<le> max now (started (last p) + 2 ^ 32))
    \<Longrightarrow> in_order now (p @ [j])"
  by (induction now p rule: in_order.induct) auto

lemma in_order_last:
  "in_order now (i # p) \<Longrightarrow> started i \<le> now + b \<Longrightarrow> started (last (i # p)) \<le> now + b + length p * 2 ^ 32"
proof (induction p arbitrary: i b)
  case (Cons j p)
  then have "started j \<le> now + (b + 2 ^ 32)" by auto
  then have "started (last (j # p)) \<le> now + (b + 2 ^ 32) + length p * 2 ^ 32" using Cons by (intro Cons.IH) simp_all
  then show ?case by simp
qed simp

text \<open>When an instruction finishes.\<close>

definition timed :: "core_config \<Rightarrow> instruction \<Rightarrow> bool" where
  "timed c i \<longleftrightarrow> unat (in_finish_cycle i) = started i + unat (cc_height c) + unat (cc_width c) - 2 + occupancy i"

definition array_small :: "core_config \<Rightarrow> bool" where
  "array_small c \<longleftrightarrow> 0 < unat (cc_height c) \<and> unat (cc_height c) < 2 ^ 16 \<and> 0 < unat (cc_width c) \<and> unat (cc_width c) < 2 ^ 16"

definition inst_small :: "instruction \<Rightarrow> bool" where
  "inst_small i \<longleftrightarrow> unat (in_compute_size i) < 2 ^ 31"

lemma finish_after:
  assumes "array_small c" and "timed c i" and "timed c j" and "started i + occupancy i \<le> started j"
  shows "unat (in_finish_cycle i) + 4 \<le> unat (in_finish_cycle j)"
proof -
  have "4 \<le> occupancy j" by (simp add: occupancy_def)
  then show ?thesis using assms by (simp add: timed_def array_small_def)
qed

lemma finish_order:
  assumes "array_small c"
  shows "in_order now (i # p) \<Longrightarrow> \<forall>j \<in> set (i # p). timed c j \<Longrightarrow> j \<in> set p \<Longrightarrow> unat (in_finish_cycle i) + 4 \<le> unat (in_finish_cycle j)"
proof (induction p arbitrary: i)
  case (Cons k p)
  then have "unat (in_finish_cycle i) + 4 \<le> unat (in_finish_cycle k)" using finish_after [OF assms, of i k] by auto
  moreover have "j \<noteq> k \<Longrightarrow> unat (in_finish_cycle k) + 4 \<le> unat (in_finish_cycle j)" using Cons by (intro Cons.IH) auto
  ultimately show ?case by (cases "j = k") simp_all
qed simp

section \<open>The pipeline of a core\<close>

definition waiting_insts :: "core \<Rightarrow> instruction set" where
  "waiting_insts s = set (co_ex_queue s) \<union> (\<Union>t \<in> set (co_tiles s). set (ti_instructions t))"

definition pipe_ok :: "core_config \<Rightarrow> core \<Rightarrow> bool" where
  "pipe_ok c s \<longleftrightarrow>
     (\<forall>i \<in> waiting_insts s. inst_small i)
     \<and> length (co_compute_pipeline s) \<le> unat (cc_height c)
     \<and> in_order (unat (co_cycle s)) (co_compute_pipeline s)
     \<and> (\<forall>i \<in> set (co_compute_pipeline s). inst_small i \<and> timed c i \<and> co_cycle s \<le> in_finish_cycle i)
     \<and> (co_compute_pipeline s \<noteq> [] \<longrightarrow> started (hd (co_compute_pipeline s)) \<le> unat (co_cycle s) + 2 ^ 33)"

definition same_timing :: "core \<Rightarrow> core \<Rightarrow> bool" where
  "same_timing s s' \<longleftrightarrow> co_cycle s' = co_cycle s \<and> co_compute_pipeline s' = co_compute_pipeline s \<and> co_ex_queue s' = co_ex_queue s
     \<and> map ti_instructions (co_tiles s') = map ti_instructions (co_tiles s)"

lemma same_timing_refl [simp]: "same_timing s s" by (simp add: same_timing_def)

lemma same_timing_trans: "same_timing s s' \<Longrightarrow> same_timing s' s'' \<Longrightarrow> same_timing s s''"
  by (simp add: same_timing_def)

lemma same_insts:
  assumes "map ti_instructions ts' = map ti_instructions ts"
  shows "(\<Union>t \<in> set ts'. set (ti_instructions t)) = (\<Union>t \<in> set ts. set (ti_instructions t))"
proof -
  have "(\<Union>t \<in> set us. set (ti_instructions t)) = \<Union> (set ` set (map ti_instructions us))" for us by auto
  then show ?thesis using assms by metis
qed

lemma same_timing_ok: "same_timing s s' \<Longrightarrow> pipe_ok c s \<Longrightarrow> pipe_ok c s'"
  using same_insts [of "co_tiles s'" "co_tiles s"] by (simp add: same_timing_def pipe_ok_def waiting_insts_def)

lemma on_dest_timing: "on_dest i f s = Inr s' \<Longrightarrow> same_timing s s'"
  by (auto simp: on_dest_def rbind_Inr same_timing_def split: if_splits)

lemma finish_tile_timing: "finish_tile_of i s = Inr s' \<Longrightarrow> same_timing s s'"
  by (auto simp: finish_tile_of_def same_timing_def Let_def split: if_splits option.splits)

lemma send_accesses_timing: "send_accesses c w i as s = Inr s' \<Longrightarrow> same_timing s s'"
proof (induction as arbitrary: s)
  case (Cons a as)
  let ?s1 = "if in_tagged i then count_tagged 1 (ma_size (make_access c w i s a)) w s else s"
  have "same_timing s ?s1" by (simp add: count_tagged_def same_timing_def Let_def)
  with Cons show ?case by (fastforce simp: Let_def same_timing_def split: if_splits)
qed simp

lemma finish_vector_timing: "finish_vector s = Inr s' \<Longrightarrow> same_timing s s'"
  by (auto simp: finish_vector_def rbind_Inr same_timing_def split: list.splits if_splits
      dest!: on_dest_timing finish_tile_timing)

lemma handle_ld_timing: "handle_ld c s = Inr s' \<Longrightarrow> same_timing s s'"
  by (auto simp: handle_ld_def rbind_Inr same_timing_def split: list.splits if_splits
      dest!: on_dest_timing send_accesses_timing)

lemma handle_st_timing: "handle_st c s = Inr s' \<Longrightarrow> same_timing s s'"
  by (auto simp: handle_st_def rbind_Inr same_timing_def split: list.splits option.splits if_splits
      dest!: finish_tile_timing send_accesses_timing)

lemma count_cycle_timing: "same_timing s (count_cycle s)"
  by (simp add: count_cycle_def same_timing_def upd_now_def Let_def)

section \<open>A cycle\<close>

lemma finish_compute_ok:
  assumes "finish_compute c s = Inr s'" and "array_small c" and "pipe_ok c s"
  shows "pipe_ok c s' \<and> co_cycle s' = co_cycle s \<and> (\<forall>i \<in> set (co_compute_pipeline s'). co_cycle s < in_finish_cycle i)"
proof (cases "co_compute_pipeline s")
  case Nil
  then show ?thesis using assms by (simp add: finish_compute_def)
next
  case (Cons i p)
  have t: "\<forall>j \<in> set (i # p). timed c j" and o: "in_order (unat (co_cycle s)) (i # p)" using assms(3) Cons by (auto simp: pipe_ok_def)
  have later: "in_finish_cycle i < in_finish_cycle j" if "j \<in> set p" for j
    using finish_order [OF assms(2) o t that] by (simp add: word_less_nat_alt)
  show ?thesis
  proof (cases "co_cycle s < in_finish_cycle i")
    case True
    then show ?thesis using assms Cons later by (fastforce simp: finish_compute_def)
  next
    case False
    then have now: "in_finish_cycle i = co_cycle s" using assms(3) Cons by (auto simp: pipe_ok_def)
    obtain s1 s2 where r: "on_dest i (sram_fill (in_dest_addr i) (dest_buffer i)) s = Inr s1" "finish_tile_of i s1 = Inr s2"
      and s': "co_cycle s' = co_cycle s2" "co_compute_pipeline s' = p" "co_ex_queue s' = co_ex_queue s2" "co_tiles s' = co_tiles s2"
      using assms(1) Cons False by (auto simp: finish_compute_def rbind_Inr upd_now_def Let_def split: if_splits)
    have same: "same_timing s s2" using r on_dest_timing finish_tile_timing same_timing_trans by blast
    have start: "started i \<le> unat (co_cycle s)"
    proof -
      have "unat (in_finish_cycle i) = started i + unat (cc_height c) + unat (cc_width c) - 2 + occupancy i"
        using t by (simp add: timed_def)
      moreover have "0 < unat (cc_height c)" "0 < unat (cc_width c)" using assms(2) by (simp_all add: array_small_def)
      ultimately have "started i \<le> unat (in_finish_cycle i)" by linarith
      then show ?thesis using now by simp
    qed
    have "started (hd p) \<le> unat (co_cycle s) + 2 ^ 33" if "p \<noteq> []"
      using o that start by (cases p) auto
    moreover have "waiting_insts s' = waiting_insts s"
      using same s' same_insts [of "co_tiles s2" "co_tiles s"] by (simp add: waiting_insts_def same_timing_def)
    ultimately show ?thesis
      using assms(3) Cons s' same in_order_tl [OF o] later now by (auto simp: pipe_ok_def same_timing_def)
  qed
qed

text \<open>The bound of the clock keeps the sums of cycles within 64 bits.\<close>

lemma compute_cycles_eq:
  assumes "array_small c" and "inst_small i"
  shows "unat (compute_cycles c i) = unat (cc_height c) + unat (cc_width c) - 2 + occupancy i"
proof -
  have b: "0 < unat (cc_height c)" "unat (cc_height c) < 2 ^ 16" "0 < unat (cc_width c)" "unat (cc_width c) < 2 ^ 16"
    "unat (in_compute_size i) < 2 ^ 31" using assms by (simp_all add: array_small_def inst_small_def)
  have m: "unat (max (in_compute_size i) 4) = occupancy i" by (simp add: occupancy_def max_def word_le_nat_alt)
  have hw: "unat (cc_height c + cc_width c) = unat (cc_height c) + unat (cc_width c)"
    using b by (simp add: unat_word_ariths)
  then have "2 \<le> cc_height c + cc_width c" using b by (simp add: word_le_nat_alt)
  then have d: "unat (cc_height c + cc_width c - 2) = unat (cc_height c) + unat (cc_width c) - 2"
    using hw by (simp add: unat_sub)
  have "occupancy i < 2 ^ 31" using b(5) by (simp add: occupancy_def)
  then have "unat (cc_height c + cc_width c - 2 + max (in_compute_size i) 4) = unat (cc_height c) + unat (cc_width c) - 2 + occupancy i"
    using d m b by (simp add: unat_word_ariths)
  then show ?thesis using b \<open>occupancy i < 2 ^ 31\<close>
    by (simp add: compute_cycles_def unsigned_ucast_eq take_bit_nat_eq_self)
qed

text \<open>The start of an instruction that follows another.\<close>

lemma start_behind_ok:
  assumes "start_behind c prev i now = (st, bub)" and "unat (in_start_cycle prev) < 2 ^ 63" and "unat (cc_height c) < 2 ^ 16"
    and "inst_small prev"
  shows "now \<le> st \<and> started prev + occupancy prev \<le> unat st \<and> unat st \<le> max (unat now) (started prev + 2 ^ 32)"
proof -
  define k where "k = (if in_opcode i = GEMM_PRELOAD then max (max (in_compute_size prev) 4) (cc_height c) else max (in_compute_size prev) 4)"
  define e where "e = in_start_cycle prev + ucast k"
  have m: "unat (max x y) = max (unat x) (unat y)" for x y :: u32 by (simp add: max_def word_le_nat_alt)
  have lo: "occupancy prev \<le> unat k" by (auto simp: k_def m occupancy_def)
  have hi: "unat k < 2 ^ 32" using unsigned_less [of k, where 'a = nat] by simp
  then have sum: "unat e = started prev + unat k"
    using assms(2) unat_sum [of "in_start_cycle prev" "ucast k"] by (simp add: e_def started_def unsigned_ucast_eq take_bit_nat_eq_self)
  have st: "st = (if e < now then now else e)"
    using assms(1) by (simp add: start_behind_def Let_def e_def k_def split: if_splits)
  show ?thesis
  proof (cases "e < now")
    case True
    then have "started prev + unat k < unat now" using sum by (simp add: word_less_nat_alt)
    then show ?thesis using st True lo by simp
  next
    case False
    then have "st = e" "now \<le> e" using st by simp_all
    then show ?thesis using sum lo hi by (simp add: le_max_iff_disj)
  qed
qed

text \<open>The core stays within the bounds for \<^verbatim>\<open>2 ^ 62\<close> cycles.\<close>

lemma last_start:
  assumes "pipe_ok c s" and "array_small c" and "unat (co_cycle s) < 2 ^ 62" and "co_compute_pipeline s \<noteq> []"
  shows "unat (in_start_cycle (last (co_compute_pipeline s))) < 2 ^ 62 + 2 ^ 49"
proof -
  obtain i p where p: "co_compute_pipeline s = i # p" using assms(4) by (cases "co_compute_pipeline s") auto
  then have "in_order (unat (co_cycle s)) (i # p)" "started i \<le> unat (co_cycle s) + 2 ^ 33"
    using assms(1) by (auto simp: pipe_ok_def)
  then have "started (last (i # p)) \<le> unat (co_cycle s) + 2 ^ 33 + length p * 2 ^ 32" by (rule in_order_last)
  moreover have "length p < 2 ^ 16" using assms(1,2) p by (simp add: pipe_ok_def array_small_def)
  ultimately show ?thesis using assms(3) p by (simp add: started_def)
qed

lemma push_compute_ok:
  assumes "pipe_ok c s" and "array_small c" and "unat (co_cycle s) < 2 ^ 62" and "inst_small i"
    and "length (co_compute_pipeline s) < unat (cc_height c)"
    and "\<forall>k \<in> set (co_compute_pipeline s). co_cycle s < in_finish_cycle k"
  shows "pipe_ok c (push_compute c i s) \<and> (\<forall>k \<in> set (co_compute_pipeline (push_compute c i s)). co_cycle s < in_finish_cycle k)"
proof -
  let ?p = "co_compute_pipeline s" and ?now = "co_cycle s"
  obtain st bub where sb: "(if ?p \<noteq> [] then start_behind c (last ?p) i ?now
      else (if in_opcode i = GEMM_PRELOAD then ?now + ucast (cc_height c + cc_height c - 1) else ?now, 0)) = (st, bub)"
    by fastforce
  let ?i = "i\<lparr>in_start_cycle := st, in_finish_cycle := st + compute_cycles c i\<rparr>"
  have s': "co_compute_pipeline (push_compute c i s) = ?p @ [?i]" "co_cycle (push_compute c i s) = ?now"
    "waiting_insts (push_compute c i s) = waiting_insts s"
    using sb by (simp_all add: push_compute_def waiting_insts_def upd_now_def Let_def)
  have h: "unat (cc_height c) < 2 ^ 16" using assms(2) by (simp add: array_small_def)
  have first: "?now \<le> st \<and> unat st \<le> unat ?now + 2 ^ 33" if "?p = []"
  proof -
    have "unat (ucast (cc_height c + cc_height c - 1) :: u64) < 2 ^ 32" by (rule unat_ucast_less)
    then have "unat (?now + ucast (cc_height c + cc_height c - 1)) = unat ?now + unat (ucast (cc_height c + cc_height c - 1) :: u64)"
      using assms(3) by (intro unat_sum) simp
    then show ?thesis using sb that \<open>unat (ucast (cc_height c + cc_height c - 1) :: u64) < 2 ^ 32\<close>
      by (auto simp: word_le_nat_alt split: if_splits)
  qed
  have next_one: "?now \<le> st \<and> started (last ?p) + occupancy (last ?p) \<le> unat st \<and> unat st \<le> max (unat ?now) (started (last ?p) + 2 ^ 32)
      \<and> unat (in_start_cycle (last ?p)) < 2 ^ 62 + 2 ^ 49" if "?p \<noteq> []"
  proof -
    have "inst_small (last ?p)" using assms(1) that by (simp add: pipe_ok_def)
    then show ?thesis using sb that last_start [OF assms(1,2,3) that] h
      by (intro conjI) (auto dest!: start_behind_ok)
  qed
  have st: "?now \<le> st" "unat st < 2 ^ 63"
    using first next_one assms(3) by (cases "?p = []"; auto simp: started_def)+
  have "occupancy i < 2 ^ 31" using assms(4) by (simp add: occupancy_def inst_small_def)
  moreover have "unat (cc_height c) < 2 ^ 16" "unat (cc_width c) < 2 ^ 16" using assms(2) by (simp_all add: array_small_def)
  ultimately have "unat st + unat (compute_cycles c i) < 2 ^ 64"
    using st(2) compute_cycles_eq [OF assms(2,4)] by simp
  then have fin: "unat (st + compute_cycles c i) = unat st + (unat (cc_height c) + unat (cc_width c) - 2 + occupancy i)"
    using unat_sum compute_cycles_eq [OF assms(2,4)] by metis
  have i: "started ?i = unat st" "occupancy ?i = occupancy i" "inst_small ?i = inst_small i"
    by (simp_all add: started_def occupancy_def inst_small_def)
  have timed: "timed c ?i" using fin assms(2) i by (simp add: timed_def array_small_def)
  have late: "?now < in_finish_cycle ?i"
    using fin st(1) by (simp add: word_less_nat_alt word_le_nat_alt occupancy_def)
  have "in_order (unat ?now) (?p @ [?i])"
    using assms(1) next_one i by (intro in_order_snoc) (simp_all add: pipe_ok_def)
  moreover have "started (hd (?p @ [?i])) \<le> unat ?now + 2 ^ 33"
    using assms(1) first i by (cases ?p) (simp_all add: pipe_ok_def)
  ultimately show ?thesis using assms(1,4,5,6) s' timed late i by (auto simp: pipe_ok_def)
qed

lemma handle_ex_ok:
  assumes "handle_ex c s = Inr s'" and "pipe_ok c s" and "array_small c" and "unat (co_cycle s) < 2 ^ 62"
    and "\<forall>k \<in> set (co_compute_pipeline s). co_cycle s < in_finish_cycle k"
  shows "pipe_ok c s' \<and> co_cycle s' = co_cycle s \<and> (\<forall>k \<in> set (co_compute_pipeline s'). co_cycle s < in_finish_cycle k)"
proof (cases "co_ex_queue s")
  case (Cons i js)
  show ?thesis
  proof (cases "can_issue_compute c i s")
    case True
    then obtain s1 where r: "same_timing s s1" and s': "if is_gemm i then s' = push_compute c i s1\<lparr>co_ex_queue := js\<rparr>
        else co_compute_pipeline s' = co_compute_pipeline s1 \<and> co_cycle s' = co_cycle s1 \<and> co_ex_queue s' = js \<and> co_tiles s' = co_tiles s1"
      using assms(1) Cons by (auto simp: handle_ex_def rbind_Inr split: if_splits dest: on_dest_timing)
    have ok: "pipe_ok c s1" by (rule same_timing_ok [OF r assms(2)])
    have s1: "co_cycle s1 = co_cycle s" "co_compute_pipeline s1 = co_compute_pipeline s" "co_ex_queue s1 = i # js"
      using r Cons by (simp_all add: same_timing_def)
    have i: "inst_small i" using ok s1(3) by (simp add: pipe_ok_def waiting_insts_def)
    show ?thesis
    proof (cases "is_gemm i")
      case False
      with s' s1 ok assms(5) show ?thesis by (auto simp: pipe_ok_def waiting_insts_def)
    next
      case gemm: True
      have len: "length (co_compute_pipeline s1) < unat (cc_height c)" using True gemm s1(2) by (simp add: can_issue_compute_def)
      have "pipe_ok c (push_compute c i s1) \<and> (\<forall>k \<in> set (co_compute_pipeline (push_compute c i s1)). co_cycle s1 < in_finish_cycle k)"
        by (rule push_compute_ok [OF ok assms(3) _ i len]) (use s1 assms(4,5) in simp_all)
      moreover have "waiting_insts s' \<subseteq> waiting_insts (push_compute c i s1)" "co_cycle (push_compute c i s1) = co_cycle s1"
        using s' gemm s1(3) by (auto simp: waiting_insts_def push_compute_def upd_now_def Let_def split: prod.splits)
      ultimately show ?thesis using s' gemm s1(1) by (auto simp: pipe_ok_def)
    qed
  qed (use assms Cons in \<open>simp add: handle_ex_def\<close>)
qed (use assms in \<open>simp add: handle_ex_def\<close>)

lemma list_update_insts:
  "i < length ts \<Longrightarrow> set (ti_instructions t) \<subseteq> S \<Longrightarrow> (\<Union>t \<in> set ts. set (ti_instructions t)) \<subseteq> S
    \<Longrightarrow> (\<Union>t \<in> set (ts[i := t]). set (ti_instructions t)) \<subseteq> S"
  by (auto dest!: subsetD [OF set_update_subset_insert])

lemma prepare_small [simp]: "inst_small (prepare t i) = inst_small i"
  by (simp add: prepare_def inst_small_def Let_def)

text \<open>The tile either keeps its prepared front instruction or loses it to a queue.\<close>

lemma try_tile_shape:
  assumes "try_tile c i s = Inr (b, s')" and "ti_instructions (co_tiles s ! i) = x # xs"
  shows "(\<exists>w l k e. s' = put_tile i ((co_tiles s ! i)\<lparr>ti_instructions := xs\<rparr>) s
            \<lparr>co_tile_rr := w, co_ld_queue := l, co_st_queue := k, co_ex_queue := e\<rparr>
          \<and> (e = co_ex_queue s \<or> e = [prepare (co_tiles s ! i) x]))
       \<or> s' = put_tile i ((co_tiles s ! i)\<lparr>ti_instructions := prepare (co_tiles s ! i) x # xs\<rparr>) s"
proof -
  define inst where "inst = prepare (co_tiles s ! i) x"
  define go where "go = put_tile i ((co_tiles s ! i)\<lparr>ti_instructions := xs\<rparr>) s"
  define stay where "stay = put_tile i ((co_tiles s ! i)\<lparr>ti_instructions := inst # xs\<rparr>) s"
  have e: "try_tile c i s =
     (let m = dest_sram inst s; a = in_dest_addr inst; b = dest_buffer inst in
      if in_opcode inst = MOVIN then
        if \<not> check_allocated a b m \<and> check_remain (ucast (in_size inst)) b m
        then Inr (True, go\<lparr>co_tile_rr := of_nat i, co_ld_queue := co_ld_queue s @ [inst]\<rparr>) else Inl Exited
      else if in_opcode inst = MOVOUT \<or> in_opcode inst = MOVOUT_POOL then
        Inr (if check_hit a b m then (True, go\<lparr>co_tile_rr := of_nat i, co_st_queue := co_st_queue s @ [Some inst]\<rparr>) else (False, stay))
      else
        Inr (if co_ex_queue s = [] \<and> can_issue_compute c inst s
             then (True, go\<lparr>co_tile_rr := of_nat i, co_ex_queue := [inst]\<rparr>) else (False, stay)))"
    by (simp add: try_tile_def Let_def assms(2) inst_def go_def stay_def)
  have g: "co_ex_queue go = co_ex_queue s" by (simp add: go_def put_tile_def)
  consider (stay) "s' = stay" | (ld) "s' = go\<lparr>co_tile_rr := of_nat i, co_ld_queue := co_ld_queue s @ [inst]\<rparr>"
    | (st) "s' = go\<lparr>co_tile_rr := of_nat i, co_st_queue := co_st_queue s @ [Some inst]\<rparr>"
    | (ex) "s' = go\<lparr>co_tile_rr := of_nat i, co_ex_queue := [inst]\<rparr>"
    using assms(1) unfolding e Let_def by (auto simp only: sum.inject prod.inject sum.distinct split: if_splits)
  then show ?thesis
  proof cases
    case ld
    then have "s' = go\<lparr>co_tile_rr := of_nat i, co_ld_queue := co_ld_queue s @ [inst], co_st_queue := co_st_queue go, co_ex_queue := co_ex_queue go\<rparr>"
      by simp
    then show ?thesis using g unfolding go_def stay_def inst_def by blast
  next
    case st
    then have "s' = go\<lparr>co_tile_rr := of_nat i, co_ld_queue := co_ld_queue go, co_st_queue := co_st_queue s @ [Some inst], co_ex_queue := co_ex_queue go\<rparr>"
      by simp
    then show ?thesis using g unfolding go_def stay_def inst_def by blast
  next
    case ex
    then have "s' = go\<lparr>co_tile_rr := of_nat i, co_ld_queue := co_ld_queue go, co_st_queue := co_st_queue go, co_ex_queue := [inst]\<rparr>"
      by simp
    then show ?thesis unfolding go_def stay_def inst_def by blast
  qed (simp add: stay_def inst_def)
qed

lemma try_tile_insts:
  assumes "try_tile c i s = Inr (b, s')" and "i < length (co_tiles s)" and "\<forall>x \<in> waiting_insts s. inst_small x"
  shows "co_cycle s' = co_cycle s \<and> co_compute_pipeline s' = co_compute_pipeline s \<and> length (co_tiles s') = length (co_tiles s)
    \<and> (\<forall>x \<in> waiting_insts s'. inst_small x)"
proof (cases "ti_instructions (co_tiles s ! i)")
  case Nil
  then show ?thesis using assms by (simp add: try_tile_def Let_def)
next
  case (Cons x xs)
  let ?t = "co_tiles s ! i" and ?S = "Collect inst_small"
  have all: "(\<Union>t \<in> set (co_tiles s). set (ti_instructions t)) \<subseteq> ?S" "set (co_ex_queue s) \<subseteq> ?S"
    using assms(3) by (auto simp: waiting_insts_def)
  then have x: "set (x # xs) \<subseteq> ?S" using nth_mem [OF assms(2)] Cons by (metis UN_subset_iff)
  have upd: "(\<Union>t \<in> set ((co_tiles s)[i := ?t\<lparr>ti_instructions := ys\<rparr>]). set (ti_instructions t)) \<subseteq> ?S" if "set ys \<subseteq> ?S" for ys
    using list_update_insts [OF assms(2) _ all(1)] that by simp
  have "\<exists>ys. set ys \<subseteq> ?S \<and> co_tiles s' = (co_tiles s)[i := ?t\<lparr>ti_instructions := ys\<rparr>]"
    and "co_ex_queue s' = co_ex_queue s \<or> co_ex_queue s' = [prepare ?t x]"
    and c: "co_cycle s' = co_cycle s" "co_compute_pipeline s' = co_compute_pipeline s"
  proof -
    show "\<exists>ys. set ys \<subseteq> ?S \<and> co_tiles s' = (co_tiles s)[i := ?t\<lparr>ti_instructions := ys\<rparr>]"
      using try_tile_shape [OF assms(1) Cons]
    proof
      assume "s' = put_tile i (?t\<lparr>ti_instructions := prepare ?t x # xs\<rparr>) s"
      then show ?thesis using x by (intro exI [of _ "prepare ?t x # xs"]) (simp add: put_tile_def)
    qed (use x in \<open>auto simp: put_tile_def\<close>)
  qed (use try_tile_shape [OF assms(1) Cons] in \<open>auto simp: put_tile_def\<close>)
  then obtain ys where ys: "set ys \<subseteq> ?S" "co_tiles s' = (co_tiles s)[i := ?t\<lparr>ti_instructions := ys\<rparr>]"
    and ex: "set (co_ex_queue s') \<subseteq> ?S" using all(2) x by auto
  have "waiting_insts s' \<subseteq> ?S" using upd [OF ys(1)] ex ys(2) by (simp add: waiting_insts_def)
  then show ?thesis using c ys(2) by auto
qed

lemma try_tiles_insts:
  "try_tiles c js s = Inr s' \<Longrightarrow> \<forall>i \<in> set js. i < length (co_tiles s) \<Longrightarrow> \<forall>x \<in> waiting_insts s. inst_small x \<Longrightarrow>
   co_cycle s' = co_cycle s \<and> co_compute_pipeline s' = co_compute_pipeline s \<and> (\<forall>x \<in> waiting_insts s'. inst_small x)"
proof (induction js arbitrary: s)
  case (Cons i js)
  then obtain b s1 where t: "try_tile c i s = Inr (b, s1)" and r: "if b then s1 = s' else try_tiles c js s1 = Inr s'"
    by (auto simp: rbind_Inr split: if_splits)
  note s1 = try_tile_insts [OF t, simplified]
  show ?case using Cons.IH [of s1] Cons.prems s1 r by (cases b) auto
qed simp

lemma take_done_insts: "take_done ts = Some (t, us) \<Longrightarrow> set us \<subseteq> set ts"
  by (induction ts arbitrary: us) (auto split: if_splits)

lemma base_cycle_ok:
  assumes "base_cycle c s = Inr s'" and "pipe_ok c s" and "unat (co_cycle s) < 2 ^ 62"
    and "\<forall>k \<in> set (co_compute_pipeline s). co_cycle s < in_finish_cycle k"
  shows "pipe_ok c s' \<and> co_cycle s' = co_cycle s + 1"
proof -
  let ?s = "s\<lparr>co_cycle := co_cycle s + 1\<rparr>"
  let ?js = "map (\<lambda>k. unat (of_nat k + co_tile_rr ?s) mod length (co_tiles ?s)) [0..<length (co_tiles ?s)]"
  obtain s1 where t: "try_tiles c ?js ?s = Inr s1" and s': "s' = retire_tile s1 \<or> s' = update_stats (retire_tile s1)"
    using assms(1) by (auto simp: base_cycle_def rbind_Inr Let_def)
  have "\<forall>i \<in> set ?js. i < length (co_tiles ?s)" by (auto intro!: mod_less_divisor)
  moreover have "\<forall>x \<in> waiting_insts ?s. inst_small x" using assms(2) by (simp add: pipe_ok_def waiting_insts_def)
  ultimately have s1: "co_cycle s1 = co_cycle s + 1" "co_compute_pipeline s1 = co_compute_pipeline s" "\<forall>x \<in> waiting_insts s1. inst_small x"
    using try_tiles_insts [OF t] by simp_all
  have "co_cycle s' = co_cycle s1" "co_compute_pipeline s' = co_compute_pipeline s1" "waiting_insts s' \<subseteq> waiting_insts s1"
    using s' by (auto simp: retire_tile_def update_stats_def waiting_insts_def Let_def split: option.splits dest!: take_done_insts)
  moreover have now: "unat (co_cycle s + 1) = unat (co_cycle s) + 1" using assms(3) unat_sum [of "co_cycle s" 1] by simp
  moreover have "in_order (unat (co_cycle s) + 1) (co_compute_pipeline s)"
    using assms(2) in_order_mono [of "unat (co_cycle s)" _ "unat (co_cycle s) + 1"] by (simp add: pipe_ok_def)
  moreover have "co_cycle s + 1 \<le> in_finish_cycle k" if "k \<in> set (co_compute_pipeline s)" for k
    using assms(4) that now by (simp add: word_less_nat_alt word_le_nat_alt Suc_le_eq)
  ultimately show ?thesis using assms(2) s1 by (auto simp: pipe_ok_def)
qed

lemma core_cycle_ok:
  assumes "core_cycle c s = Inr s'" and "array_small c" and "pipe_ok c s" and "unat (co_cycle s) < 2 ^ 62"
  shows "pipe_ok c s' \<and> co_cycle s' = co_cycle s + 1"
proof -
  obtain s1 s2 s3 s4 s5 where r: "finish_compute c s = Inr s1" "finish_vector s1 = Inr s2" "handle_ld c s2 = Inr s3"
    "handle_ex c s3 = Inr s4" "handle_st c s4 = Inr s5" "base_cycle c (count_cycle s5) = Inr s'"
    using assms(1) by (auto simp: core_cycle_def rbind_Inr)
  note s1 = finish_compute_ok [OF r(1) assms(2,3)]
  have t3: "same_timing s1 s3" using r(2,3) finish_vector_timing handle_ld_timing same_timing_trans by blast
  then have s3: "pipe_ok c s3" "co_cycle s3 = co_cycle s" "co_compute_pipeline s3 = co_compute_pipeline s1"
    using s1 same_timing_ok by (blast, simp_all add: same_timing_def)
  have s4: "pipe_ok c s4 \<and> co_cycle s4 = co_cycle s3 \<and> (\<forall>k \<in> set (co_compute_pipeline s4). co_cycle s3 < in_finish_cycle k)"
    by (rule handle_ex_ok [OF r(4) s3(1) assms(2)]) (use s1 s3 assms(4) in simp_all)
  have t5: "same_timing s4 (count_cycle s5)" using handle_st_timing [OF r(5)] count_cycle_timing same_timing_trans by blast
  then have s5: "pipe_ok c (count_cycle s5)" "co_cycle (count_cycle s5) = co_cycle s" "co_compute_pipeline (count_cycle s5) = co_compute_pipeline s4"
    using s3(2) s4 same_timing_ok by (blast, simp_all add: same_timing_def)
  show ?thesis using base_cycle_ok [OF r(6) s5(1)] s5 s4 s3(2) assms(4) by simp
qed

section \<open>Runs of a core\<close>

datatype core_op = Issue tile | PopTile | Cycle | PopRequest | Respond mem_access

fun core_step :: "core_config \<Rightarrow> core_op \<Rightarrow> core \<Rightarrow> core result" where
  "core_step c (Issue t) s = Inr (issue c t s)"
| "core_step c PopTile s = Inr (snd (pop_finished_tile s))"
| "core_step c Cycle s = core_cycle c s"
| "core_step c PopRequest s = rbind (pop_memory_request s) (\<lambda>(_, s'). Inr s')"
| "core_step c (Respond m) s = push_memory_response m s"

fun run_core :: "core_config \<Rightarrow> core_op list \<Rightarrow> core \<Rightarrow> core result" where
  "run_core c [] s = Inr s"
| "run_core c (x # xs) s = rbind (core_step c x s) (run_core c xs)"

lemma flush_pads: "pads_ok s \<Longrightarrow> pads_ok (issue c t s)"
proof -
  assume "pads_ok s"
  moreover have "pads_ok (fold (count_instruction c) is s') = pads_ok s'" for "is" s'
    by (induction "is" arbitrary: s') (simp_all add: pads_ok_def count_instruction_def count_tagged_def Let_def)
  ultimately show ?thesis by (simp add: issue_def Let_def pads_ok_def flush_ok)
qed

lemma step_pads:
  assumes "core_step c x s = Inr s'" and "pads_ok s" shows "pads_ok s'"
proof (cases x)
  case (Issue t)
  then show ?thesis using assms flush_pads by auto
next
  case Cycle
  then show ?thesis using assms core_cycle_keeps by (auto simp: core_keeps_def)
next
  case (Respond m)
  then show ?thesis using assms
    by (auto simp: push_memory_response_def rbind_Inr pads_ok_def split: if_splits intro: fill_ok)
qed (use assms in \<open>auto simp: pop_finished_tile_def pads_ok_def pop_memory_request_def rbind_Inr split: list.splits\<close>)

lemma run_core_induct:
  assumes "run_core c xs s = Inr s'" and "P s" and "\<And>x s s'. x \<in> set xs \<Longrightarrow> core_step c x s = Inr s' \<Longrightarrow> P s \<Longrightarrow> P s'"
  shows "P s'"
  using assms by (induction xs arbitrary: s) (auto simp: rbind_Inr)

text \<open>C17: whatever a core is given - tiles, responses, cycles, in any order - its scratchpads stay consistent: for each buffer
  the sizes of the entries add up to the count, which never exceeds the room there is, and no entry is valid while it
  waits for data.\<close>

theorem scratchpads_fit:
  assumes "0 < unat (cc_dram_req_size c)" and "unat (cc_dram_req_size c) < 2 ^ 31"
    and "run_core c ops (core_init layer fused nid i c) = Inr s"
  shows "sram_ok (co_spad s) \<and> sram_ok (co_acc_spad s)"
proof -
  have "pads_ok (core_init layer fused nid i c)" using assms(1,2) by (simp add: pads_ok_def core_init_def sram_init_ok)
  then have "pads_ok s" using run_core_induct [OF assms(3), of pads_ok] step_pads by blast
  then show ?thesis by (simp add: pads_ok_def)
qed

text \<open>Instructions whose sums stay within 32 bits.\<close>

fun op_small :: "core_op \<Rightarrow> bool" where
  "op_small (Issue t) = (\<forall>i \<in> set (ti_instructions t). inst_small i)"
| "op_small _ = True"

lemma issue_timing:
  assumes "pipe_ok c s" and "\<forall>i \<in> set (ti_instructions t). inst_small i"
  shows "pipe_ok c (issue c t s) \<and> co_cycle (issue c t s) = co_cycle s"
proof -
  have f: "co_cycle (fold (count_instruction c) js s') = co_cycle s' \<and> co_compute_pipeline (fold (count_instruction c) js s') = co_compute_pipeline s'
      \<and> waiting_insts (fold (count_instruction c) js s') = waiting_insts s'" for js s'
    by (induction js arbitrary: s') (simp_all add: waiting_insts_def count_instruction_def count_tagged_def Let_def)
  have "co_cycle (issue c t s) = co_cycle s \<and> co_compute_pipeline (issue c t s) = co_compute_pipeline s
      \<and> waiting_insts (issue c t s) \<subseteq> waiting_insts s \<union> set (ti_instructions t)"
    using f by (auto simp: issue_def Let_def) (auto simp: waiting_insts_def)
  then show ?thesis using assms by (auto simp: pipe_ok_def)
qed

lemma step_timing:
  assumes "core_step c x s = Inr s'" and "array_small c" and "pipe_ok c s" and "op_small x" and "unat (co_cycle s) < 2 ^ 62"
  shows "pipe_ok c s' \<and> (co_cycle s' = co_cycle s \<or> co_cycle s' = co_cycle s + 1)"
proof (cases x)
  case Cycle
  then show ?thesis using core_cycle_ok assms by simp
next
  case (Issue t)
  then show ?thesis using assms issue_timing by auto
next
  case PopTile
  then have "same_timing s s'" using assms(1) by (auto simp: pop_finished_tile_def same_timing_def split: list.splits)
  then show ?thesis using same_timing_ok assms(3) by (auto simp: same_timing_def)
next
  case PopRequest
  then have "same_timing s s'" using assms(1) by (auto simp: pop_memory_request_def same_timing_def rbind_Inr split: list.splits)
  then show ?thesis using same_timing_ok assms(3) by (auto simp: same_timing_def)
next
  case (Respond m)
  then have "same_timing s s'" using assms(1) by (auto simp: push_memory_response_def same_timing_def rbind_Inr split: if_splits)
  then show ?thesis using same_timing_ok assms(3) by (auto simp: same_timing_def)
qed

lemma run_timing:
  "run_core c xs s = Inr s' \<Longrightarrow> array_small c \<Longrightarrow> pipe_ok c s \<Longrightarrow> list_all op_small xs \<Longrightarrow> unat (co_cycle s) + length xs \<le> 2 ^ 62
    \<Longrightarrow> pipe_ok c s'"
proof (induction xs arbitrary: s)
  case (Cons x xs)
  then obtain s1 where x: "core_step c x s = Inr s1" and r: "run_core c xs s1 = Inr s'" by (auto simp: rbind_Inr)
  have s1: "pipe_ok c s1" "co_cycle s1 = co_cycle s \<or> co_cycle s1 = co_cycle s + 1"
    using step_timing [OF x Cons.prems(2,3)] Cons.prems by simp_all
  have "unat (co_cycle s1) \<le> unat (co_cycle s) + 1"
    using s1(2) unat_sum [of "co_cycle s" 1] Cons.prems(5) by auto
  then show ?case using Cons.IH [OF r Cons.prems(2) s1(1)] Cons.prems(4,5) by simp
qed simp

lemma in_order_nth:
  assumes "array_small c" and "in_order now p" and "\<forall>i \<in> set p. timed c i" and "j < k" and "k < length p"
  shows "unat (in_finish_cycle (p ! j)) + 4 \<le> unat (in_finish_cycle (p ! k))"
  using assms(2-)
proof (induction p arbitrary: j k)
  case (Cons i p)
  show ?case
  proof (cases j)
    case 0
    with Cons.prems have "p ! (k - 1) \<in> set p" by simp
    then have "unat (in_finish_cycle i) + 4 \<le> unat (in_finish_cycle (p ! (k - 1)))"
      using finish_order [OF assms(1) Cons.prems(1)] Cons.prems(2) by blast
    then show ?thesis using 0 Cons.prems(3) by simp
  next
    case (Suc j')
    then show ?thesis using Cons.IH [of j' "k - 1"] Cons.prems in_order_tl [OF Cons.prems(1)] by auto
  qed
qed simp

text \<open>C16: the matrix pipeline of a core is in order and on time: at no moment of a run are there more instructions in it than
  the array has rows, each finishes at least four cycles after the one before it, and none is still there when its
  finish has passed: as only the front leaves, one per cycle, each leaves in the cycle in which it finishes.\<close>

theorem matrix_pipeline_on_time:
  assumes "array_small c" and "list_all op_small ops" and "length ops \<le> 2 ^ 62"
    and "run_core c ops (core_init layer fused nid i c) = Inr s"
  shows "length (co_compute_pipeline s) \<le> unat (cc_height c)
    \<and> (\<forall>k < length (co_compute_pipeline s). \<forall>j < k.
         unat (in_finish_cycle (co_compute_pipeline s ! j)) + 4 \<le> unat (in_finish_cycle (co_compute_pipeline s ! k)))
    \<and> (\<forall>x \<in> set (co_compute_pipeline s). co_cycle s \<le> in_finish_cycle x)"
proof -
  have "pipe_ok c (core_init layer fused nid i c)" by (simp add: pipe_ok_def core_init_def waiting_insts_def)
  then have "pipe_ok c s" using run_timing [OF assms(4,1)] assms(2,3) by (simp add: core_init_def)
  then show ?thesis using in_order_nth [OF assms(1)] by (auto simp: pipe_ok_def)
qed

section \<open>The adder tree\<close>

lemma tree_half:
  assumes "\<not> n \<le> unit" and "\<not> unit \<le> (1 :: u32)"
  shows "unat (n div unit + (if n mod unit \<noteq> 0 then 1 else 0)) * 2 \<le> unat n + 1"
proof -
  let ?u = "unat unit" and ?n = "unat n"
  have half: "?n div ?u * 2 \<le> ?n div ?u * ?u" using assms(2) by (intro mult_le_mono2) (simp add: word_le_nat_alt)
  have eq: "?n div ?u * ?u + ?n mod ?u = ?n" by simp
  show ?thesis
  proof (cases "n mod unit = 0")
    case True
    then have "unat (n div unit + (if n mod unit \<noteq> 0 then 1 else 0)) = ?n div ?u" by (simp add: unat_div)
    then show ?thesis using half eq by linarith
  next
    case False
    then have "0 < ?n mod ?u" by (simp add: word_unat_eq_iff unat_mod)
    moreover have "unat (n div unit + 1) \<le> ?n div ?u + 1" using tree_level(1) [OF assms] False by simp
    ultimately have "unat (n div unit + 1) * 2 \<le> ?n + 1" using half eq by linarith
    then show ?thesis using False by simp
  qed
qed

lemma add_tree_bound:
  "1 < unit \<Longrightarrow> \<exists>t. add_tree_iterations unit n = Inr t \<and> unat t \<le> 2 * unat n + 1"
proof (induction unit n rule: add_tree_iterations.induct)
  case (1 unit n)
  show ?case
  proof (cases "n \<le> unit")
    case False
    define m where "m = n div unit + (if n mod unit \<noteq> 0 then 1 else 0)"
    have u: "\<not> unit \<le> 1" using 1(2) by simp
    then obtain t where t: "add_tree_iterations unit m = Inr t" "unat t \<le> 2 * unat m + 1"
      using 1(1) [OF False _ m_def] 1(2) by auto
    have big: "2 \<le> unat unit" "unat unit < unat n" using u False by (simp_all add: word_le_nat_alt)
    have "unat m * 2 \<le> unat n + 1" using tree_half [OF False u] by (simp add: m_def)
    then have m: "3 * unat m \<le> 2 * unat n" using big by linarith
    have "unat n < 2 ^ 32" using unsigned_less [of n, where 'a = nat] by simp
    then have "unat (ucast m + t) = unat m + unat t"
      using m t(2) by (subst unat_sum) (simp_all add: unsigned_ucast_eq take_bit_nat_eq_self)
    moreover have "add_tree_iterations unit n = Inr (ucast m + t)"
      using False u t(1) by (subst add_tree_iterations.simps) (simp add: m_def Let_def)
    ultimately show ?thesis using m t(2) by simp
  qed (subst add_tree_iterations.simps, simp)
qed

text \<open>C19: the recursion that counts the levels of the adder tree ends exactly for the vectors that fit its unit and for the
  units of at least two elements; the count is then at most twice the size of the vector, plus one.\<close>

theorem adder_tree_ends:
  "(\<exists>t. add_tree_iterations unit n = Inr t \<and> unat t \<le> 2 * unat n + 1) \<longleftrightarrow> n \<le> unit \<or> 1 < unit"
proof
  assume "\<exists>t. add_tree_iterations unit n = Inr t \<and> unat t \<le> 2 * unat n + 1"
  then show "n \<le> unit \<or> 1 < unit"
    by (subst (asm) add_tree_iterations.simps) (auto split: if_splits)
next
  assume "n \<le> unit \<or> 1 < unit"
  then show "\<exists>t. add_tree_iterations unit n = Inr t \<and> unat t \<le> 2 * unat n + 1"
  proof
    assume "n \<le> unit"
    then show ?thesis by (subst add_tree_iterations.simps) simp
  qed (rule add_tree_bound)
qed

section \<open>A run\<close>

text \<open>A core with an array of two by two, and a tile of two matrix instructions whose operands are at hand.\<close>

definition small_core :: core_config where
  "small_core = \<lparr>cc_width = 2, cc_height = 2, cc_vector_process_bit = 32, cc_add_latency = 1, cc_mul_latency = 1, cc_mac_latency = 1,
     cc_div_latency = 1, cc_exp_latency = 1, cc_gelu_latency = 1, cc_add_tree_latency = 1, cc_scalar_sqrt_latency = 1,
     cc_scalar_mul_latency = 1, cc_spad_size = 1, cc_accum_spad_size = 1, cc_dram_req_size = 32, cc_print_interval = 0\<rparr>"

definition small_inst :: "opcode \<Rightarrow> u64 \<Rightarrow> u64 list \<Rightarrow> instruction" where
  "small_inst op a srcs = \<lparr>in_opcode = op, in_start_cycle = 0, in_finish_cycle = 0, in_dest_addr = a, in_size = 2, in_compute_size = 2,
     in_src_addrs = srcs, in_spad_id = 0, in_accum_spad_id = 0, in_operand_id = 0, in_request_id = 0, in_tagged = False,
     in_spec_task_type = 0, in_base_addr = 0, in_tile_m = 2, in_tile_k = 2, in_tile_n = 2, in_src_from_accum = False,
     in_zero_init = False, in_last_inst = False, in_my_tile = None\<rparr>"

definition small_tile :: "instruction list \<Rightarrow> tile" where
  "small_tile is = \<lparr>ti_address = 7, ti_status = T_INITIALIZED, ti_layer_id = 0, ti_fused_op_id = 0, ti_instructions = is, ti_accum = False,
     ti_skip = False, ti_spad_id = 0, ti_accum_spad_id = 0, ti_inst_finished = False, ti_start_cycle = 0, ti_cycles = 0,
     ti_compute_cycles = 0, ti_memory_stall = 0\<rparr>"

definition small_run :: "core_op list" where
  "small_run = Issue (small_tile [small_inst GEMM 100 [], small_inst GEMM_PRELOAD ACCUM_SPAD_BASE []]) # replicate 3 Cycle"

lemma small_run_ok: "\<not> isl (run_core small_core small_run (core_init 0 0 0 0 small_core))"
  by code_simp

theorem matrix_pipeline_on_time_witness:
  "\<exists>s. run_core small_core small_run (core_init 0 0 0 0 small_core) = Inr s \<and> length (co_compute_pipeline s) \<le> 2
     \<and> (\<forall>x \<in> set (co_compute_pipeline s). co_cycle s \<le> in_finish_cycle x)"
proof -
  obtain s where s: "run_core small_core small_run (core_init 0 0 0 0 small_core) = Inr s"
    using small_run_ok by (cases "run_core small_core small_run (core_init 0 0 0 0 small_core)") auto
  moreover have "array_small small_core" by (simp add: array_small_def small_core_def)
  moreover have "list_all op_small small_run" by (simp add: small_run_def small_tile_def small_inst_def inst_small_def numeral_3_eq_3)
  moreover have "length small_run \<le> 2 ^ 62" by (simp add: small_run_def)
  ultimately show ?thesis using matrix_pipeline_on_time [of small_core small_run 0 0 0 0 s] by (auto simp: small_core_def)
qed

theorem scratchpads_fit_witness:
  "\<exists>s. run_core small_core small_run (core_init 0 0 0 0 small_core) = Inr s \<and> sram_ok (co_spad s) \<and> sram_ok (co_acc_spad s)"
proof -
  obtain s where s: "run_core small_core small_run (core_init 0 0 0 0 small_core) = Inr s"
    using small_run_ok by (cases "run_core small_core small_run (core_init 0 0 0 0 small_core)") auto
  then show ?thesis using scratchpads_fit [OF _ _ s] by (simp add: small_core_def)
qed

end
