(* ===== verification/NpuSim.thy ===== *)
theory NpuSim
  imports NpuPipe PimBackend
begin

text \<open>
  The cycle loop of the NPU simulator (\<^verbatim>\<open>ONNXim/src/Simulator.cc\<close>): the clock domains, the cores, and the way of
  a memory access from its core over the interconnect, past the PIM overlay with its hold and bypass queues, to the memory
  and back.  The memory and the interconnect are records of operations, as the classes \<^verbatim>\<open>Dram\<close> and
  \<^verbatim>\<open>Interconnect\<close> are abstract.  What the tile scheduler and the language scheduler do in a cycle is an input:
  the tile they offer each core and the operations they run on the PIM overlay.  Two fields are histories that the code does
  not keep: the accesses the cores have made and the deliveries to them.
\<close>

section \<open>State\<close>

record ('d, 'i) devices =
  dv_cycle :: "'d \<Rightarrow> 'd"
  dv_full :: "nat \<Rightarrow> mem_access \<Rightarrow> 'd \<Rightarrow> bool"
  dv_push :: "nat \<Rightarrow> mem_access \<Rightarrow> 'd \<Rightarrow> 'd result"
  dv_empty :: "nat \<Rightarrow> 'd \<Rightarrow> bool result"
  dv_top :: "nat \<Rightarrow> 'd \<Rightarrow> mem_access result"
  dv_pop :: "nat \<Rightarrow> 'd \<Rightarrow> 'd result"
  iv_cycle :: "'i \<Rightarrow> 'i result"
  iv_full :: "nat \<Rightarrow> mem_access \<Rightarrow> 'i \<Rightarrow> bool"
  iv_push :: "nat \<Rightarrow> u32 \<Rightarrow> mem_access \<Rightarrow> 'i \<Rightarrow> 'i result"
  iv_empty :: "nat \<Rightarrow> 'i \<Rightarrow> bool result"
  iv_top :: "nat \<Rightarrow> 'i \<Rightarrow> mem_access result"
  iv_pop :: "nat \<Rightarrow> 'i \<Rightarrow> 'i result"

record sim_config =
  sg_num_cores :: u32
  sg_channels :: u32
  sg_req_size :: u32
  sg_core_freq :: u32
  sg_icnt_freq :: u32
  sg_dram_freq :: u32
  sg_cmd_sched :: bool
  sg_cmd_entries :: u32
  sg_icnt_interval :: u64
  sg_core :: "nat \<Rightarrow> core_config"

record cmd_stats =
  cm_candidate_slots :: u64
  cm_issued :: u64
  cm_tlm_attempts :: u64
  cm_tlm_blocked :: u64
  cm_tlm_attempts_active :: u64
  cm_tlm_blocked_active :: u64
  cm_tlm_attempts_inactive :: u64
  cm_tlm_blocked_inactive :: u64

record icnt_counts =
  ct_from_core :: u64
  ct_to_core :: u64
  ct_from_mem :: u64
  ct_to_mem :: u64

record ('d, 'i) sim =
  si_cores :: "core list"
  si_dram :: 'd
  si_icnt :: 'i
  si_pim :: pim
  si_ssrc :: ssrc
  si_hold :: "(u64 \<times> mem_access) list list"
  si_bypass :: "(u64 \<times> mem_access) list list"
  si_ssrc_bypass :: "(u64 \<times> mem_access) list list"
  si_ooo :: "mem_access list list"
  si_core_cycles :: u64
  si_icnt_cycle :: u64
  si_core_period :: u64
  si_icnt_period :: u64
  si_dram_period :: u64
  si_core_time :: u64
  si_icnt_time :: u64
  si_dram_time :: u64
  si_next_id :: u32
  si_recent :: icnt_counts
  si_total :: icnt_counts
  si_cmd :: cmd_stats
  si_made :: "mem_access list"
  si_delivered :: "(nat \<times> mem_access) list"

definition no_counts :: icnt_counts where
  "no_counts = \<lparr>ct_from_core = 0, ct_to_core = 0, ct_from_mem = 0, ct_to_mem = 0\<rparr>"

text \<open>The constructor; a frequency of zero divides by zero.  The layers are the uninitialised current layers of the cores.\<close>

definition sim_init :: "sim_config \<Rightarrow> u32 list \<Rightarrow> 'd \<Rightarrow> 'i \<Rightarrow> pim \<Rightarrow> ssrc \<Rightarrow> ('d, 'i) sim result" where
  "sim_init g layers dram icnt p sr =
     (if sg_core_freq g = 0 \<or> sg_icnt_freq g = 0 \<or> sg_dram_freq g = 0 then Inl Undefined
      else let n = unat (sg_channels g) in
        Inr \<lparr>si_cores = map (\<lambda>i. core_init (layers ! (2 * i)) (layers ! (2 * i + 1)) 0 (of_nat i) (sg_core g i)) [0..<unat (sg_num_cores g)],
          si_dram = dram, si_icnt = icnt, si_pim = p, si_ssrc = sr, si_hold = replicate n [], si_bypass = replicate n [],
          si_ssrc_bypass = replicate n [], si_ooo = replicate n [], si_core_cycles = 0, si_icnt_cycle = 0,
          si_core_period = ucast (1000000 div sg_core_freq g), si_icnt_period = ucast (1000000 div sg_icnt_freq g),
          si_dram_period = ucast (1000000 div sg_dram_freq g), si_core_time = 0, si_icnt_time = 0, si_dram_time = 0,
          si_next_id = 0, si_recent = no_counts, si_total = no_counts,
          si_cmd = \<lparr>cm_candidate_slots = 0, cm_issued = 0, cm_tlm_attempts = 0, cm_tlm_blocked = 0, cm_tlm_attempts_active = 0,
            cm_tlm_blocked_active = 0, cm_tlm_attempts_inactive = 0, cm_tlm_blocked_inactive = 0\<rparr>,
          si_made = [], si_delivered = []\<rparr>)"

section \<open>Clock domains\<close>

text \<open>The domains whose time is the least take a step.\<close>

definition set_cycle_mask :: "('d, 'i) sim \<Rightarrow> (bool \<times> bool \<times> bool) \<times> ('d, 'i) sim" where
  "set_cycle_mask s =
     (let m = min (si_core_time s) (min (si_dram_time s) (si_icnt_time s));
          c = (si_core_time s \<le> m); d = (si_dram_time s \<le> m); i = (si_icnt_time s \<le> m) in
      ((c, d, i),
       s\<lparr>si_core_time := (if c then si_core_time s + si_core_period s else si_core_time s),
         si_dram_time := (if d then si_dram_time s + si_dram_period s else si_dram_time s),
         si_icnt_time := (if i then si_icnt_time s + si_icnt_period s else si_icnt_time s)\<rparr>))"

section \<open>The PIM command queue\<close>

definition sim_is_pim :: "nat \<Rightarrow> ('d, 'i) sim \<Rightarrow> bool" where
  "sim_is_pim ch s \<longleftrightarrow> pb_active (si_pim s) \<and> is_pim_channel (si_pim s) (of_nat ch)"

definition is_tlm_read :: "mem_access \<Rightarrow> bool" where
  "is_tlm_read m \<longleftrightarrow> \<not> ma_write m \<and> (ma_spec_task_type m = SPEC_TASK_VERIFY \<or> ma_spec_task_type m = SPEC_TASK_PRE_VERIFY)"

definition is_draft_command :: "mem_access \<Rightarrow> bool" where
  "is_draft_command m \<longleftrightarrow> ma_spec_task_type m = SPEC_TASK_DRAFT"

definition has_candidate :: "(mem_access \<Rightarrow> bool) \<Rightarrow> nat \<Rightarrow> mem_access option \<Rightarrow> ('d, 'i) sim \<Rightarrow> bool" where
  "has_candidate P ch selected s \<longleftrightarrow>
     (case selected of None \<Rightarrow> False | Some m \<Rightarrow> P m)
     \<or> (si_hold s ! ch \<noteq> [] \<and> P (snd (hd (si_hold s ! ch)))) \<or> list_ex P (si_ooo s ! ch)"

definition select_pim_command :: "sim_config \<Rightarrow> ('d, 'i) devices \<Rightarrow> nat \<Rightarrow> ('d, 'i) sim \<Rightarrow> nat" where
  "select_pim_command g D ch s =
     (let q = si_ooo s ! ch; full = (\<lambda>i. dv_full D ch (q ! i) (si_dram s)) in
      if q = [] \<or> \<not> sg_cmd_sched g then 0
      else case find (\<lambda>i. is_tlm_read (q ! i) \<and> \<not> full i) [0..<length q] of Some i \<Rightarrow> i | None \<Rightarrow>
        (case find (\<lambda>i. \<not> full i) [0..<length q] of Some i \<Rightarrow> i | None \<Rightarrow>
          (case find (\<lambda>i. is_tlm_read (q ! i)) [0..<length q] of Some i \<Rightarrow> i | None \<Rightarrow> 0)))"

definition upd_cmd :: "(cmd_stats \<Rightarrow> cmd_stats) \<Rightarrow> ('d, 'i) sim \<Rightarrow> ('d, 'i) sim" where
  "upd_cmd f s = s\<lparr>si_cmd := f (si_cmd s)\<rparr>"

definition note_candidate :: "nat \<Rightarrow> bool \<Rightarrow> ('d, 'i) sim \<Rightarrow> ('d, 'i) sim" where
  "note_candidate ch has s =
     (if \<not> has \<or> \<not> sim_is_pim ch s then s else upd_cmd (\<lambda>t. t\<lparr>cm_candidate_slots := cm_candidate_slots t + 1\<rparr>) s)"

definition note_issued :: "nat \<Rightarrow> ('d, 'i) sim \<Rightarrow> ('d, 'i) sim" where
  "note_issued ch s = (if \<not> sim_is_pim ch s then s else upd_cmd (\<lambda>t. t\<lparr>cm_issued := cm_issued t + 1\<rparr>) s)"

definition note_tlm_window :: "nat \<Rightarrow> mem_access option \<Rightarrow> ('d, 'i) sim \<Rightarrow> ('d, 'i) sim" where
  "note_tlm_window ch selected s =
     (if \<not> sim_is_pim ch s \<or> \<not> has_candidate is_tlm_read ch selected s then s
      else let blocked = (case selected of None \<Rightarrow> True | Some m \<Rightarrow> \<not> is_tlm_read m);
               active = has_candidate is_draft_command ch selected s; b = (if blocked then 1 else 0) in
        upd_cmd (\<lambda>t. t\<lparr>cm_tlm_attempts := cm_tlm_attempts t + 1, cm_tlm_blocked := cm_tlm_blocked t + b,
          cm_tlm_attempts_active := cm_tlm_attempts_active t + (if active then 1 else 0),
          cm_tlm_blocked_active := cm_tlm_blocked_active t + (if active then b else 0),
          cm_tlm_attempts_inactive := cm_tlm_attempts_inactive t + (if active then 0 else 1),
          cm_tlm_blocked_inactive := cm_tlm_blocked_inactive t + (if active then 0 else b)\<rparr>) s)"

section \<open>The ports of the cores\<close>

definition get_dest_node :: "sim_config \<Rightarrow> mem_access \<Rightarrow> u32 result" where
  "get_dest_node g m =
     (if ma_request m then rbind (get_channel_id (sg_channels g) (sg_req_size g) m) (\<lambda>c. Inr (sg_num_cores g + c))
      else Inr (ma_core_id m))"

definition put_core :: "nat \<Rightarrow> core \<Rightarrow> ('d, 'i) sim \<Rightarrow> ('d, 'i) sim" where
  "put_core i c s = s\<lparr>si_cores := (si_cores s)[i := c]\<rparr>"

definition count_both :: "(icnt_counts \<Rightarrow> icnt_counts) \<Rightarrow> ('d, 'i) sim \<Rightarrow> ('d, 'i) sim" where
  "count_both f s = s\<lparr>si_recent := f (si_recent s), si_total := f (si_total s)\<rparr>"

definition send_request :: "sim_config \<Rightarrow> ('d, 'i) devices \<Rightarrow> nat \<Rightarrow> ('d, 'i) sim \<Rightarrow> ('d, 'i) sim result" where
  "send_request g D i s =
     (let c = si_cores s ! i in
      case co_requests c of [] \<Rightarrow> Inr s | m0 # ms \<Rightarrow>
        let m = m0\<lparr>ma_core_id := of_nat i\<rparr> in
        if iv_full D i m (si_icnt s) then Inr (put_core i (c\<lparr>co_requests := m # ms\<rparr>) s)
        else rbind (get_dest_node g m) (\<lambda>dest. rbind (iv_push D i dest m (si_icnt s)) (\<lambda>ic.
          rbind (pop_memory_request c) (\<lambda>(_, c').
            Inr (count_both (\<lambda>t. t\<lparr>ct_from_core := ct_from_core t + 1\<rparr>) (put_core i c' s\<lparr>si_icnt := ic\<rparr>))))))"

definition take_response :: "('d, 'i) devices \<Rightarrow> nat \<Rightarrow> ('d, 'i) sim \<Rightarrow> ('d, 'i) sim result" where
  "take_response D i s =
     rbind (iv_empty D i (si_icnt s)) (\<lambda>e. if e then Inr s else
       rbind (iv_top D i (si_icnt s)) (\<lambda>m. rbind (push_memory_response m (si_cores s ! i)) (\<lambda>c.
         rbind (iv_pop D i (si_icnt s)) (\<lambda>ic.
           Inr (count_both (\<lambda>t. t\<lparr>ct_to_core := ct_to_core t + 1\<rparr>)
             (put_core i c s\<lparr>si_icnt := ic, si_delivered := si_delivered s @ [(i, m)]\<rparr>))))))"

section \<open>The ports of the memory channels\<close>

definition mem_node :: "sim_config \<Rightarrow> nat \<Rightarrow> nat" where
  "mem_node g ch = unat (sg_num_cores g + of_nat ch)"

definition to_mem :: "('d, 'i) sim \<Rightarrow> ('d, 'i) sim" where
  "to_mem = count_both (\<lambda>t. t\<lparr>ct_to_mem := ct_to_mem t + 1\<rparr>)"

definition from_mem :: "('d, 'i) sim \<Rightarrow> ('d, 'i) sim" where
  "from_mem = count_both (\<lambda>t. t\<lparr>ct_from_mem := ct_from_mem t + 1\<rparr>)"

definition note_slot :: "sim_config \<Rightarrow> ('d, 'i) devices \<Rightarrow> nat \<Rightarrow> ('d, 'i) sim \<Rightarrow> ('d, 'i) sim result" where
  "note_slot g D ch s =
     (if \<not> sim_is_pim ch s then Inr s
      else if si_hold s ! ch \<noteq> [] \<or> si_ooo s ! ch \<noteq> [] then Inr (note_candidate ch True s)
      else rbind (iv_empty D (mem_node g ch) (si_icnt s)) (\<lambda>e. Inr (note_candidate ch (\<not> e) s)))"

text \<open>A held request whose deadline has passed goes to the memory.\<close>

definition drain_hold :: "('d, 'i) devices \<Rightarrow> nat \<Rightarrow> ('d, 'i) sim \<Rightarrow> ('d, 'i) sim result" where
  "drain_hold D ch s =
     (case si_hold s ! ch of [] \<Rightarrow> Inr s | (due, m) # q \<Rightarrow>
        if pb_active (si_pim s) \<and> due \<le> si_core_cycles s \<and> \<not> dv_full D ch m (si_dram s)
        then rbind (dv_push D ch m (si_dram s)) (\<lambda>d.
          Inr (to_mem (note_issued ch (s\<lparr>si_dram := d, si_hold := (si_hold s)[ch := q]\<rparr>))))
        else Inr s)"

text \<open>The command queue of a PIM channel fills up to its entries; the first argument is the room it has.\<close>

fun pull_commands :: "nat \<Rightarrow> sim_config \<Rightarrow> ('d, 'i) devices \<Rightarrow> nat \<Rightarrow> ('d, 'i) sim \<Rightarrow> ('d, 'i) sim result" where
  "pull_commands 0 g D ch s = Inr s"
| "pull_commands (Suc n) g D ch s =
     rbind (iv_empty D (mem_node g ch) (si_icnt s)) (\<lambda>e. if e then Inr s else
       rbind (iv_top D (mem_node g ch) (si_icnt s)) (\<lambda>m. rbind (iv_pop D (mem_node g ch) (si_icnt s)) (\<lambda>ic.
         pull_commands n g D ch (s\<lparr>si_icnt := ic, si_ooo := (si_ooo s)[ch := si_ooo s ! ch @ [m]]\<rparr>))))"

text \<open>The incoming request: an entry of the command queue, or the front of the interconnect.\<close>

definition choose_incoming :: "sim_config \<Rightarrow> ('d, 'i) devices \<Rightarrow> nat \<Rightarrow> ('d, 'i) sim \<Rightarrow> (nat option \<times> mem_access option) result" where
  "choose_incoming g D ch s =
     (if sim_is_pim ch s \<and> si_ooo s ! ch \<noteq> []
      then let i = select_pim_command g D ch s in Inr (Some i, Some (si_ooo s ! ch ! i))
      else rbind (iv_empty D (mem_node g ch) (si_icnt s)) (\<lambda>e.
        if e then Inr (None, None) else rbind (iv_top D (mem_node g ch) (si_icnt s)) (\<lambda>m. Inr (None, Some m))))"

text \<open>It leaves the queue it came from.\<close>

definition remove_incoming :: "sim_config \<Rightarrow> ('d, 'i) devices \<Rightarrow> nat \<Rightarrow> nat option \<Rightarrow> ('d, 'i) sim \<Rightarrow> ('d, 'i) sim result" where
  "remove_incoming g D ch from_ooo s =
     (case from_ooo of
        Some i \<Rightarrow> Inr (s\<lparr>si_ooo := (si_ooo s)[ch := take i (si_ooo s ! ch) @ drop (Suc i) (si_ooo s ! ch)]\<rparr>)
      | None \<Rightarrow> rbind (iv_pop D (mem_node g ch) (si_icnt s)) (\<lambda>ic. Inr (s\<lparr>si_icnt := ic\<rparr>)))"

text \<open>Where it goes: the staging buffer of SSRC, the attention unit, the memory, or the hold queue.\<close>

definition route_incoming :: "('d, 'i) devices \<Rightarrow> nat \<Rightarrow> mem_access \<Rightarrow> ('d, 'i) sim \<Rightarrow> ('d, 'i) sim result" where
  "route_incoming D ch m s =
     (let act = pb_active (si_pim s); cid = of_nat ch;
          (ssrc_hit, p1, sr1) =
            (if act \<and> sc_enable (sr_cfg (si_ssrc s)) then try_ssrc_bypass (si_pim s) (Some (si_ssrc s)) cid (Some m)
             else (False, si_pim s, Some (si_ssrc s))) in
      rbind (deref sr1) (\<lambda>sr.
        let s1 = s\<lparr>si_pim := p1, si_ssrc := sr\<rparr> in
        if ssrc_hit then
          Inr (note_issued ch (s1\<lparr>si_ssrc_bypass := (si_ssrc_bypass s)[ch := si_ssrc_bypass s ! ch
                 @ [(si_core_cycles s + ucast (pb_ssrc_bypass_npu_cycles p1), m\<lparr>ma_request := False\<rparr>)]]\<rparr>))
        else rbind (if act then deref (try_aau_bypass p1 cid (Some m)) else Inr (False, p1)) (\<lambda>(aau_hit, p2).
          let s2 = s1\<lparr>si_pim := p2\<rparr> in
          if aau_hit then
            Inr (note_issued ch (s2\<lparr>si_bypass := (si_bypass s)[ch := si_bypass s ! ch
                   @ [(si_core_cycles s + ucast (pb_aau_bypass_npu_cycles p2), m\<lparr>ma_request := False\<rparr>)]]\<rparr>))
          else let (hold, p3) = (if act then on_dram_push p2 cid (Some m) (si_core_cycles s) else (0, p2));
                   s3 = s2\<lparr>si_pim := p3\<rparr> in
            if hold = 0 then rbind (dv_push D ch m (si_dram s)) (\<lambda>d. Inr (note_issued ch (s3\<lparr>si_dram := d\<rparr>)))
            else Inr (s3\<lparr>si_hold := (si_hold s)[ch := si_hold s ! ch @ [(si_core_cycles s + ucast hold, m)]]\<rparr>))))"

definition accept_incoming :: "sim_config \<Rightarrow> ('d, 'i) devices \<Rightarrow> nat \<Rightarrow> ('d, 'i) sim \<Rightarrow> ('d, 'i) sim result" where
  "accept_incoming g D ch s =
     rbind (if sim_is_pim ch s then pull_commands (unat (sg_cmd_entries g) - length (si_ooo s ! ch)) g D ch s else Inr s) (\<lambda>s.
     rbind (choose_incoming g D ch s) (\<lambda>(from_ooo, incoming).
       let s = note_tlm_window ch incoming s in
       case incoming of None \<Rightarrow> Inr s | Some m \<Rightarrow>
         if dv_full D ch m (si_dram s) then Inr s
         else rbind (route_incoming D ch m s) (\<lambda>s. rbind (remove_incoming g D ch from_ooo s) (\<lambda>s. Inr (to_mem s)))))"

text \<open>A bypassed request that is ready goes back to its core.\<close>

definition send_back :: "sim_config \<Rightarrow> ('d, 'i) devices \<Rightarrow> nat \<Rightarrow> (u64 \<times> mem_access) list \<Rightarrow> ('d, 'i) sim \<Rightarrow> (bool \<times> ('d, 'i) sim) result" where
  "send_back g D ch q s =
     (case q of [] \<Rightarrow> Inr (False, s) | (ready, m) # _ \<Rightarrow>
        if pb_active (si_pim s) \<and> ready \<le> si_core_cycles s \<and> \<not> iv_full D (mem_node g ch) m (si_icnt s)
        then rbind (get_dest_node g m) (\<lambda>dest. rbind (iv_push D (mem_node g ch) dest m (si_icnt s)) (\<lambda>ic.
          Inr (True, from_mem (s\<lparr>si_icnt := ic\<rparr>))))
        else Inr (False, s))"

definition drain_bypass :: "sim_config \<Rightarrow> ('d, 'i) devices \<Rightarrow> nat \<Rightarrow> ('d, 'i) sim \<Rightarrow> ('d, 'i) sim result" where
  "drain_bypass g D ch s =
     rbind (send_back g D ch (si_bypass s ! ch) s) (\<lambda>(sent, s).
       Inr (if sent then s\<lparr>si_bypass := (si_bypass s)[ch := tl (si_bypass s ! ch)]\<rparr> else s))"

definition drain_ssrc_bypass :: "sim_config \<Rightarrow> ('d, 'i) devices \<Rightarrow> nat \<Rightarrow> ('d, 'i) sim \<Rightarrow> ('d, 'i) sim result" where
  "drain_ssrc_bypass g D ch s =
     rbind (send_back g D ch (si_ssrc_bypass s ! ch) s) (\<lambda>(sent, s).
       Inr (if sent then s\<lparr>si_ssrc_bypass := (si_ssrc_bypass s)[ch := tl (si_ssrc_bypass s ! ch)]\<rparr> else s))"

definition drain_dram :: "sim_config \<Rightarrow> ('d, 'i) devices \<Rightarrow> nat \<Rightarrow> ('d, 'i) sim \<Rightarrow> ('d, 'i) sim result" where
  "drain_dram g D ch s =
     rbind (dv_empty D ch (si_dram s)) (\<lambda>e. if e then Inr s else
       rbind (dv_top D ch (si_dram s)) (\<lambda>m. if iv_full D (mem_node g ch) m (si_icnt s) then Inr s else
         rbind (get_dest_node g m) (\<lambda>dest. rbind (iv_push D (mem_node g ch) dest m (si_icnt s)) (\<lambda>ic.
           rbind (dv_pop D ch (si_dram s)) (\<lambda>d. Inr (from_mem (s\<lparr>si_icnt := ic, si_dram := d\<rparr>)))))))"

definition mem_port :: "sim_config \<Rightarrow> ('d, 'i) devices \<Rightarrow> nat \<Rightarrow> ('d, 'i) sim \<Rightarrow> ('d, 'i) sim result" where
  "mem_port g D ch s =
     rbind (note_slot g D ch s) (\<lambda>s. rbind (drain_hold D ch s) (\<lambda>s. rbind (accept_incoming g D ch s) (\<lambda>s.
     rbind (drain_bypass g D ch s) (\<lambda>s. rbind (drain_ssrc_bypass g D ch s) (drain_dram g D ch)))))"

section \<open>The cycle\<close>

fun each :: "('a \<Rightarrow> 's \<Rightarrow> 's result) \<Rightarrow> 'a list \<Rightarrow> 's \<Rightarrow> 's result" where
  "each f [] s = Inr s"
| "each f (x # xs) s = rbind (f x s) (each f xs)"

text \<open>The log of the interval divides by the period.\<close>

definition icnt_part :: "sim_config \<Rightarrow> ('d, 'i) devices \<Rightarrow> ('d, 'i) sim \<Rightarrow> ('d, 'i) sim result" where
  "icnt_part g D s0 =
     (let s = s0\<lparr>si_icnt_cycle := si_icnt_cycle s0 + 1\<rparr> in
      rbind (each (\<lambda>i s. rbind (send_request g D i s) (take_response D i)) [0..<unat (sg_num_cores g)] s) (\<lambda>s.
      rbind (each (mem_port g D) [0..<unat (sg_channels g)] s) (\<lambda>s.
      let log = (sg_icnt_interval g \<noteq> 0 \<and> si_icnt_cycle s mod sg_icnt_interval g = 0) in
      if log \<and> si_icnt_period s = 0 then Inl Undefined
      else rbind (iv_cycle D (si_icnt s)) (\<lambda>ic.
        Inr ((if log then s\<lparr>si_recent := no_counts\<rparr> else s)\<lparr>si_icnt := ic\<rparr>)))))"

text \<open>What the schedulers do in a cycle: the operations on the PIM overlay and the tile that each core is offered, if it has room;
  a tile that is not initialised is dropped.\<close>

record front =
  fr_ops :: "pim_op list"
  fr_tile :: "nat \<Rightarrow> tile option"

definition core_part :: "sim_config \<Rightarrow> front \<Rightarrow> nat \<Rightarrow> ('d, 'i) sim \<Rightarrow> ('d, 'i) sim result" where
  "core_part g f i s =
     (let c0 = snd (pop_finished_tile (si_cores s ! i));
          c1 = (case fr_tile f i of None \<Rightarrow> c0 | Some t \<Rightarrow>
                  if can_issue c0 \<and> ti_status t = T_INITIALIZED then issue (sg_core g i) t c0 else c0) in
      rbind (core_cycle (sg_core g i) (c1\<lparr>co_next_id := si_next_id s\<rparr>)) (\<lambda>c.
        Inr (put_core i c s\<lparr>si_next_id := co_next_id c,
               si_made := si_made s @ drop (length (co_requests c1)) (co_requests c)\<rparr>)))"

definition sim_cycle :: "sim_config \<Rightarrow> ('d, 'i) devices \<Rightarrow> front \<Rightarrow> ('d, 'i) sim \<Rightarrow> ('d, 'i) sim result" where
  "sim_cycle g D f s0 =
     (let ((core, dram, icnt), s) = set_cycle_mask s0 in
      rbind (if core then
               rbind (deref (run_ops pim_step (fr_ops f) (si_pim s, si_ssrc s))) (\<lambda>(p, sr).
               rbind (each (core_part g f) [0..<unat (sg_num_cores g)] (s\<lparr>si_pim := p, si_ssrc := sr\<rparr>)) (\<lambda>s.
                 Inr (s\<lparr>si_core_cycles := si_core_cycles s + 1\<rparr>)))
             else Inr s) (\<lambda>s.
      let s = (if dram then s\<lparr>si_dram := dv_cycle D (si_dram s)\<rparr> else s) in
      rbind (if icnt then icnt_part g D s else Inr s) (\<lambda>s.
      if core then rbind (deref (pim_cycle (si_pim s) (si_core_cycles s))) (\<lambda>p. Inr (s\<lparr>si_pim := p\<rparr>))
      else Inr s)))"

text \<open>The work the loop waits for; the simple memory and interconnect never report any, and the schedulers' own is an input.\<close>

definition sim_running :: "bool \<Rightarrow> ('d, 'i) sim \<Rightarrow> bool" where
  "sim_running front_busy s \<longleftrightarrow> front_busy \<or> list_ex core_running (si_cores s)
     \<or> (pb_active (si_pim s) \<and> (list_ex (\<lambda>q. q \<noteq> []) (si_hold s) \<or> list_ex (\<lambda>q. q \<noteq> []) (si_bypass s)
          \<or> list_ex (\<lambda>q. q \<noteq> []) (si_ssrc_bypass s) \<or> list_ex (\<lambda>q. q \<noteq> []) (si_ooo s)))"

text \<open>A run: one input per round of the loop.\<close>

fun run_sim :: "sim_config \<Rightarrow> ('d, 'i) devices \<Rightarrow> front list \<Rightarrow> ('d, 'i) sim \<Rightarrow> ('d, 'i) sim result" where
  "run_sim g D [] s = Inr s"
| "run_sim g D (f # fs) s = rbind (sim_cycle g D f s) (run_sim g D fs)"

end
