(* ===== verification/NpuFlow.thy ===== *)
theory NpuFlow
  imports NpuSim
begin

text \<open>
  Where the memory accesses of the NPU simulator are: in the request queue of a core, on the interconnect, in a command,
  hold or bypass queue, or in the memory.  Over any memory and any interconnect that keep their contracts, each access is in
  exactly one of these places until it is delivered, once, to the core that made it.
\<close>

section \<open>Queues of queues\<close>

definition pooled :: "('a \<Rightarrow> 'b) \<Rightarrow> 'a list list \<Rightarrow> 'b multiset" where
  "pooled f qs = image_mset f (mset (concat qs))"

definition all_in :: "('a \<Rightarrow> bool) \<Rightarrow> 'a list list \<Rightarrow> bool" where
  "all_in P qs \<longleftrightarrow> (\<forall>q \<in> set qs. \<forall>x \<in> set q. P x)"

lemma pooled_split: "i < length qs \<Longrightarrow> pooled f (qs[i := q]) + image_mset f (mset (qs ! i)) = pooled f qs + image_mset f (mset q)"
proof -
  assume i: "i < length qs"
  then have "qs = take i qs @ qs ! i # drop (Suc i) qs" by (simp add: id_take_nth_drop)
  then have "pooled f qs = pooled f (take i qs) + image_mset f (mset (qs ! i)) + pooled f (drop (Suc i) qs)"
    unfolding pooled_def by (metis concat.simps(2) concat_append image_mset_union mset_append union_assoc)
  then show ?thesis using i by (simp add: upd_conv_take_nth_drop pooled_def)
qed

lemma pooled_snoc: "i < length qs \<Longrightarrow> pooled f (qs[i := qs ! i @ xs]) = image_mset f (mset xs) + pooled f qs"
  using pooled_split [of i qs f "qs ! i @ xs"] by (simp add: ac_simps)

lemma pooled_tl: "i < length qs \<Longrightarrow> qs ! i = x # q \<Longrightarrow> pooled f qs = {#f x#} + pooled f (qs[i := q])"
  using pooled_split [of i qs f q] by simp

lemma pooled_remove:
  assumes "i < length qs" and "j < length (qs ! i)"
  shows "pooled f qs = {#f (qs ! i ! j)#} + pooled f (qs[i := take j (qs ! i) @ drop (Suc j) (qs ! i)])"
proof -
  have "qs ! i = take j (qs ! i) @ qs ! i ! j # drop (Suc j) (qs ! i)" using assms(2) by (simp add: id_take_nth_drop)
  then have "mset (qs ! i) = {#qs ! i ! j#} + mset (take j (qs ! i) @ drop (Suc j) (qs ! i))"
    by (metis add_mset_add_single mset.simps(2) mset_append union_commute union_mset_add_mset_right)
  then show ?thesis
    using pooled_split [OF assms(1), of f "take j (qs ! i) @ drop (Suc j) (qs ! i)"] by simp
qed

lemma all_in_upd: "all_in P qs \<Longrightarrow> \<forall>x \<in> set q. P x \<Longrightarrow> all_in P (qs[i := q])"
  by (auto simp: all_in_def dest!: subsetD [OF set_update_subset_insert])

lemma all_in_nth: "all_in P qs \<Longrightarrow> i < length qs \<Longrightarrow> x \<in> set (qs ! i) \<Longrightarrow> P x"
  by (auto simp: all_in_def)

lemma sum_at:
  assumes "\<forall>d. A d = (if d = c then {#x#} else {#}) + B d" and "c < (n :: nat)"
  shows "(\<Sum>d < n. image_mset f (A d)) = {#f x#} + (\<Sum>d < n. image_mset f (B d))"
proof -
  have "image_mset f (A d) = (if d = c then {#f x#} else {#}) + image_mset f (B d)" for d
    using assms(1) by (cases "d = c") simp_all
  then have "(\<Sum>d < n. image_mset f (A d)) = (\<Sum>d < n. if d = c then {#f x#} else {#}) + (\<Sum>d < n. image_mset f (B d))"
    by (simp only: sum.distrib)
  then show ?thesis using assms(2) by simp
qed

section \<open>The traffic\<close>

text \<open>An access up to its direction.\<close>

definition key :: "mem_access \<Rightarrow> mem_access" where
  "key m = m\<lparr>ma_request := True\<rparr>"

lemma key_simps [simp]: "key (m\<lparr>ma_request := b\<rparr>) = key m" "ma_write (key m) = ma_write m" "ma_core_id (key m) = ma_core_id m"
  by (simp_all add: key_def)

definition flight :: "(nat \<Rightarrow> 'd \<Rightarrow> mem_access multiset) \<Rightarrow> (nat \<Rightarrow> 'i \<Rightarrow> mem_access multiset) \<Rightarrow> sim_config \<Rightarrow> ('d, 'i) sim \<Rightarrow> mem_access multiset" where
  "flight held bound g s =
     pooled key (map co_requests (si_cores s)) + pooled (key \<circ> snd) (si_hold s) + pooled (key \<circ> snd) (si_bypass s)
     + pooled (key \<circ> snd) (si_ssrc_bypass s) + pooled key (si_ooo s)
     + (\<Sum>c < unat (sg_channels g). image_mset key (held c (si_dram s)))
     + (\<Sum>i < unat (sg_num_cores g) + unat (sg_channels g). image_mset key (bound i (si_icnt s)))"

definition owed :: "nat \<Rightarrow> mem_access \<Rightarrow> bool" where
  "owed i m \<longleftrightarrow> ma_write m \<and> ma_core_id m = of_nat i"

text \<open>The books of the histories: what was made is in flight or delivered, to its own core, which counts the writes it is owed.\<close>

definition books_ok :: "mem_access multiset \<Rightarrow> sim_config \<Rightarrow> ('d, 'i) sim \<Rightarrow> bool" where
  "books_ok F g s \<longleftrightarrow>
     mset (map key (si_made s)) = F + mset (map (key \<circ> snd) (si_delivered s))
     \<and> (\<forall>(i, m) \<in> set (si_delivered s). i < unat (sg_num_cores g) \<and> ma_core_id m = of_nat i \<and> \<not> ma_request m)
     \<and> (\<forall>i < length (si_cores s). co_waiting_writes (si_cores s ! i) = of_nat (size (filter_mset (owed i) F)))"

text \<open>A configuration whose channels have a hash and whose nodes have numbers.\<close>

definition sim_config_ok :: "sim_config \<Rightarrow> bool" where
  "sim_config_ok g \<longleftrightarrow> sg_req_size g \<noteq> 0 \<and> 0 < sg_channels g \<and> (sg_channels g < 16 \<or> ipoly_rows (sg_channels g) \<noteq> [])
     \<and> unat (sg_num_cores g) + unat (sg_channels g) < 2 ^ 32"

definition is_request :: "sim_config \<Rightarrow> mem_access \<Rightarrow> bool" where
  "is_request g m \<longleftrightarrow> ma_request m \<and> unat (ma_core_id m) < unat (sg_num_cores g)"

definition is_response :: "sim_config \<Rightarrow> mem_access \<Rightarrow> bool" where
  "is_response g m \<longleftrightarrow> \<not> ma_request m \<and> unat (ma_core_id m) < unat (sg_num_cores g)"

definition own_request :: "nat \<Rightarrow> core \<Rightarrow> bool" where
  "own_request i c \<longleftrightarrow> co_id c = of_nat i \<and> (\<forall>m \<in> set (co_requests c). ma_request m \<and> ma_core_id m = of_nat i)"

locale npu_memory =
  fixes D :: "('d, 'i) devices" and dwf :: "nat \<Rightarrow> 'd \<Rightarrow> bool" and held :: "nat \<Rightarrow> 'd \<Rightarrow> mem_access multiset"
    and iwf :: "nat \<Rightarrow> 'i \<Rightarrow> bool" and bound_for :: "nat \<Rightarrow> 'i \<Rightarrow> mem_access multiset"
  assumes dram: "memory_device (dv_cycle D) (dv_full D) (dv_push D) (dv_empty D) (dv_top D) (dv_pop D) dwf held"
    and icnt: "interconnect (iv_cycle D) (iv_full D) (iv_push D) (iv_empty D) (iv_top D) (iv_pop D) iwf bound_for"

sublocale npu_memory \<subseteq> dev: memory_device "dv_cycle D" "dv_full D" "dv_push D" "dv_empty D" "dv_top D" "dv_pop D" dwf held
  by (rule dram)

sublocale npu_memory \<subseteq> net: interconnect "iv_cycle D" "iv_full D" "iv_push D" "iv_empty D" "iv_top D" "iv_pop D" iwf bound_for
  by (rule icnt)

context npu_memory
begin

abbreviation nodes :: "sim_config \<Rightarrow> nat" where
  "nodes g \<equiv> unat (sg_num_cores g) + unat (sg_channels g)"

abbreviation mem_sum :: "sim_config \<Rightarrow> 'd \<Rightarrow> mem_access multiset" where
  "mem_sum g d \<equiv> (\<Sum>c < unat (sg_channels g). image_mset key (held c d))"

abbreviation net_sum :: "sim_config \<Rightarrow> 'i \<Rightarrow> mem_access multiset" where
  "net_sum g ic \<equiv> (\<Sum>i < nodes g. image_mset key (bound_for i ic))"

abbreviation air :: "sim_config \<Rightarrow> ('d, 'i) sim \<Rightarrow> mem_access multiset" where
  "air \<equiv> flight held bound_for"

text \<open>What the memory holds are responses; the interconnect brings requests to the channels and responses to their cores.\<close>

definition mem_ok :: "sim_config \<Rightarrow> 'd \<Rightarrow> bool" where
  "mem_ok g d \<longleftrightarrow> dwf (unat (sg_channels g)) d \<and> (\<forall>c < unat (sg_channels g). \<forall>m \<in># held c d. is_response g m)"

definition net_ok :: "sim_config \<Rightarrow> 'i \<Rightarrow> bool" where
  "net_ok g ic \<longleftrightarrow> iwf (nodes g) ic
     \<and> (\<forall>i < unat (sg_num_cores g). \<forall>m \<in># bound_for i ic. \<not> ma_request m \<and> ma_core_id m = of_nat i)
     \<and> (\<forall>i. unat (sg_num_cores g) \<le> i \<longrightarrow> i < nodes g \<longrightarrow> (\<forall>m \<in># bound_for i ic. is_request g m))"

lemma dest_ok:
  assumes "sim_config_ok g" and "is_request g m \<or> is_response g m"
  shows "\<exists>dest. get_dest_node g m = Inr dest \<and> unat dest < nodes g
    \<and> (ma_request m \<longrightarrow> unat (sg_num_cores g) \<le> unat dest) \<and> (\<not> ma_request m \<longrightarrow> dest = ma_core_id m)"
proof (cases "ma_request m")
  case True
  obtain c where c: "get_channel_id (sg_channels g) (sg_req_size g) m = Inr c" "c < sg_channels g"
    using channel_range assms(1) unfolding sim_config_ok_def by blast
  then have "unat c < unat (sg_channels g)" by (simp add: word_less_nat_alt)
  moreover have "unat (sg_num_cores g + c) = unat (sg_num_cores g) + unat c"
    using calculation assms(1) by (simp add: sim_config_ok_def unat_word_ariths)
  ultimately show ?thesis using True c(1) by (simp add: get_dest_node_def)
next
  case False
  then show ?thesis using assms(2) by (auto simp: get_dest_node_def is_request_def is_response_def)
qed

lemma net_push:
  assumes "net_ok g ic" and "sim_config_ok g" and "node < nodes g" and "\<not> iv_full D node m ic"
    and "is_request g m \<or> is_response g m"
  shows "\<exists>dest ic'. get_dest_node g m = Inr dest \<and> iv_push D node dest m ic = Inr ic' \<and> net_ok g ic'
    \<and> net_sum g ic' = {#key m#} + net_sum g ic"
proof -
  obtain dest where d: "get_dest_node g m = Inr dest" "unat dest < nodes g" "ma_request m \<longrightarrow> unat (sg_num_cores g) \<le> unat dest"
    "\<not> ma_request m \<longrightarrow> dest = ma_core_id m" using dest_ok [OF assms(2,5)] by blast
  obtain ic' where ic: "iv_push D node dest m ic = Inr ic'" "iwf (nodes g) ic'"
    and b: "\<forall>d. bound_for d ic' = (if d = unat dest then {#m#} else {#}) + bound_for d ic"
    using net.push_ok [OF _ assms(3) d(2) assms(4)] assms(1) by (auto simp: net_ok_def)
  have "net_sum g ic' = {#key m#} + net_sum g ic" by (rule sum_at [OF b d(2)])
  moreover have "net_ok g ic'"
    unfolding net_ok_def
  proof (intro conjI allI impI ballI ic(2))
    fix i x assume i: "i < unat (sg_num_cores g)" and x: "x \<in># bound_for i ic'"
    consider "x \<in># bound_for i ic" | "i = unat dest" "x = m" using x b by (auto split: if_splits)
    then have "\<not> ma_request x \<and> ma_core_id x = of_nat i"
    proof cases
      case 1
      then show ?thesis using assms(1) i by (auto simp: net_ok_def)
    next
      case 2
      then have "\<not> ma_request x" using d(3) i by auto
      then show ?thesis using 2 d(4) by simp
    qed
    then show "\<not> ma_request x" "ma_core_id x = of_nat i" by simp_all
  next
    fix i x assume i: "unat (sg_num_cores g) \<le> i" "i < nodes g" and x: "x \<in># bound_for i ic'"
    consider "x \<in># bound_for i ic" | "i = unat dest" "x = m" using x b by (auto split: if_splits)
    then show "is_request g x"
    proof cases
      case 2
      then have "\<not> is_response g m" using d(4) i(1) by (auto simp: is_response_def)
      then show ?thesis using 2 assms(5) by simp
    qed (use assms(1) i in \<open>auto simp: net_ok_def\<close>)
  qed
  ultimately show ?thesis using d(1) ic(1) by blast
qed

lemma net_pop:
  assumes "net_ok g ic" and "node < nodes g" and "iv_empty D node ic = Inr False"
  shows "\<exists>m ic'. iv_top D node ic = Inr m \<and> iv_pop D node ic = Inr ic' \<and> net_ok g ic' \<and> net_sum g ic = {#key m#} + net_sum g ic'
    \<and> (node < unat (sg_num_cores g) \<longrightarrow> \<not> ma_request m \<and> ma_core_id m = of_nat node)
    \<and> (unat (sg_num_cores g) \<le> node \<longrightarrow> is_request g m)"
proof -
  obtain m ic' where ic: "iv_top D node ic = Inr m" "iv_pop D node ic = Inr ic'" "iwf (nodes g) ic'"
    and b: "\<forall>d. bound_for d ic = (if d = node then {#m#} else {#}) + bound_for d ic'"
    using net.pop_ok [OF _ assms(2,3)] assms(1) by (auto simp: net_ok_def)
  have "net_sum g ic = {#key m#} + net_sum g ic'" by (rule sum_at [OF b assms(2)])
  moreover have "net_ok g ic'"
  proof -
    have "x \<in># bound_for i ic" if "x \<in># bound_for i ic'" for x i using that b by simp
    then show ?thesis using assms(1) ic(3) unfolding net_ok_def by blast
  qed
  moreover have "m \<in># bound_for node ic" using b by simp
  then have "node < unat (sg_num_cores g) \<longrightarrow> \<not> ma_request m \<and> ma_core_id m = of_nat node"
    "unat (sg_num_cores g) \<le> node \<longrightarrow> is_request g m" using assms(1,2) by (auto simp: net_ok_def)
  ultimately show ?thesis using ic(1,2) by blast
qed

lemma mem_push:
  assumes "mem_ok g d" and "c < unat (sg_channels g)" and "\<not> dv_full D c m d" and "is_request g m"
  shows "\<exists>d'. dv_push D c m d = Inr d' \<and> mem_ok g d' \<and> mem_sum g d' = {#key m#} + mem_sum g d"
proof -
  obtain d' where d: "dv_push D c m d = Inr d'" "dwf (unat (sg_channels g)) d'"
    and h: "\<forall>e. held e d' = (if e = c then {#m\<lparr>ma_request := False\<rparr>#} else {#}) + held e d"
    using dev.push_ok [OF _ assms(2,3)] assms(1) by (auto simp: mem_ok_def)
  have "mem_sum g d' = {#key (m\<lparr>ma_request := False\<rparr>)#} + mem_sum g d" by (rule sum_at [OF h assms(2)])
  moreover have "mem_ok g d'" using assms(1,4) d(2) h by (auto simp: mem_ok_def is_request_def is_response_def)
  ultimately show ?thesis using d(1) by simp
qed

lemma mem_pop:
  assumes "mem_ok g d" and "c < unat (sg_channels g)" and "dv_empty D c d = Inr False"
  shows "\<exists>m d'. dv_top D c d = Inr m \<and> dv_pop D c d = Inr d' \<and> mem_ok g d' \<and> mem_sum g d = {#key m#} + mem_sum g d' \<and> is_response g m"
proof -
  obtain m d' where d: "dv_top D c d = Inr m" "dv_pop D c d = Inr d'" "dwf (unat (sg_channels g)) d'"
    and h: "\<forall>e. held e d = (if e = c then {#m#} else {#}) + held e d'"
    using dev.pop_ok [OF _ assms(2,3)] assms(1) by (auto simp: mem_ok_def)
  have "mem_sum g d = {#key m#} + mem_sum g d'" by (rule sum_at [OF h assms(2)])
  moreover have "mem_ok g d'"
  proof -
    have "x \<in># held i d" if "x \<in># held i d'" for x i using that h by simp
    then show ?thesis using assms(1) d(3) unfolding mem_ok_def by blast
  qed
  moreover have "m \<in># held c d" using h by simp
  then have "is_response g m" using assms(1,2) by (auto simp: mem_ok_def)
  ultimately show ?thesis using d(1,2) by blast
qed

text \<open>Each access where it belongs.\<close>

definition shape :: "sim_config \<Rightarrow> ('d, 'i) sim \<Rightarrow> bool" where
  "shape g s \<longleftrightarrow> sim_config_ok g \<and> length (si_cores s) = unat (sg_num_cores g) \<and> (\<forall>i < length (si_cores s). own_request i (si_cores s ! i))
     \<and> length (si_hold s) = unat (sg_channels g) \<and> length (si_bypass s) = unat (sg_channels g)
     \<and> length (si_ssrc_bypass s) = unat (sg_channels g) \<and> length (si_ooo s) = unat (sg_channels g)
     \<and> all_in (is_request g \<circ> snd) (si_hold s) \<and> all_in (is_response g \<circ> snd) (si_bypass s)
     \<and> all_in (is_response g \<circ> snd) (si_ssrc_bypass s) \<and> all_in (is_request g) (si_ooo s)
     \<and> mem_ok g (si_dram s) \<and> net_ok g (si_icnt s)"

text \<open>A step that only moves accesses.\<close>

definition same_books :: "('d, 'i) sim \<Rightarrow> ('d, 'i) sim \<Rightarrow> bool" where
  "same_books s s' \<longleftrightarrow> map co_waiting_writes (si_cores s') = map co_waiting_writes (si_cores s)
     \<and> si_delivered s' = si_delivered s \<and> si_made s' = si_made s"

definition moved :: "sim_config \<Rightarrow> ('d, 'i) sim \<Rightarrow> ('d, 'i) sim \<Rightarrow> bool" where
  "moved g s s' \<longleftrightarrow> shape g s' \<and> air g s' = air g s \<and> same_books s s'"

lemma moved_refl: "shape g s \<Longrightarrow> moved g s s"
  by (simp add: moved_def same_books_def)

lemma moved_trans: "moved g s s' \<Longrightarrow> moved g s' s'' \<Longrightarrow> moved g s s''"
  by (auto simp: moved_def same_books_def)

lemma moved_books: "moved g s s' \<Longrightarrow> books_ok (air g s) g s \<Longrightarrow> books_ok (air g s') g s'"
proof -
  assume m: "moved g s s'" and b: "books_ok (air g s) g s"
  have w: "map co_waiting_writes (si_cores s') = map co_waiting_writes (si_cores s)" and h: "si_delivered s' = si_delivered s"
    "si_made s' = si_made s" and a: "air g s' = air g s" using m by (simp_all add: moved_def same_books_def)
  have l: "length (si_cores s') = length (si_cores s)" using w by (rule map_eq_imp_length_eq)
  have "co_waiting_writes (si_cores s' ! i) = co_waiting_writes (si_cores s ! i)" if "i < length (si_cores s)" for i
    using arg_cong [OF w, of "\<lambda>xs. xs ! i"] that l by simp
  then show ?thesis using b unfolding books_ok_def a h l by simp
qed

lemma mem_node_eq: "shape g s \<Longrightarrow> ch < unat (sg_channels g) \<Longrightarrow> mem_node g ch = unat (sg_num_cores g) + ch \<and> mem_node g ch < nodes g"
proof -
  assume "shape g s" and ch: "ch < unat (sg_channels g)"
  then have small: "unat (sg_num_cores g) + ch < 2 ^ 32" by (simp add: shape_def sim_config_ok_def)
  then have "unat (of_nat ch :: u32) = ch" by (simp add: unat_of_nat)
  then have "mem_node g ch = unat (sg_num_cores g) + ch" using small by (simp add: mem_node_def unat_word_ariths)
  then show ?thesis using ch by simp
qed

text \<open>Steps that only count.\<close>

definition inert :: "('d, 'i) sim \<Rightarrow> ('d, 'i) sim \<Rightarrow> bool" where
  "inert s s' \<longleftrightarrow> si_cores s' = si_cores s \<and> si_dram s' = si_dram s \<and> si_icnt s' = si_icnt s \<and> si_hold s' = si_hold s
     \<and> si_bypass s' = si_bypass s \<and> si_ssrc_bypass s' = si_ssrc_bypass s \<and> si_ooo s' = si_ooo s
     \<and> si_delivered s' = si_delivered s \<and> si_made s' = si_made s"

lemma inert_shape: "inert s s' \<Longrightarrow> shape g s' = shape g s"
  by (simp add: inert_def shape_def)

lemma inert_air: "inert s s' \<Longrightarrow> air g s' = air g s"
  by (simp add: inert_def flight_def)

lemma inert_moved: "inert s s' \<Longrightarrow> shape g s \<Longrightarrow> moved g s s'"
  unfolding moved_def by (simp add: inert_shape inert_air) (simp add: same_books_def inert_def)

lemma inert_upd: "inert s s" "inert s (upd_cmd h s)" "inert s (count_both f s)"
  by (simp_all add: inert_def upd_cmd_def count_both_def)

lemma inert_if: "inert s a \<Longrightarrow> inert s b \<Longrightarrow> inert s (if c then a else b)"
  by simp

lemma inert_candidate: "inert s (note_candidate ch b s)"
  unfolding note_candidate_def by (rule inert_if inert_upd)+

lemma inert_issued: "inert s (note_issued ch s)"
  unfolding note_issued_def by (rule inert_if inert_upd)+

lemma inert_window: "inert s (note_tlm_window ch x s)"
  unfolding note_tlm_window_def Let_def by (rule inert_if inert_upd)+

lemma inert_counts: "inert s (to_mem s)" "inert s (from_mem s)"
  unfolding to_mem_def from_mem_def by (rule inert_upd)+

lemmas inert_notes = inert_candidate inert_issued inert_window inert_counts

lemma same_requests: "co_requests c = r \<Longrightarrow> c\<lparr>co_requests := r\<rparr> = c"
  by (cases c) simp

lemma moved_inert: "moved g s s' \<Longrightarrow> inert s' s'' \<Longrightarrow> moved g s s''"
  using inert_moved moved_trans by (metis moved_def)

lemma inert_trans: "inert s s' \<Longrightarrow> inert s' s'' \<Longrightarrow> inert s s''"
  by (simp add: inert_def)

section \<open>Each port\<close>

lemma send_request_moved:
  assumes "send_request g D i s = Inr s'" and "shape g s" and "i < unat (sg_num_cores g)"
  shows "moved g s s'"
proof (cases "co_requests (si_cores s ! i)")
  case Nil
  then show ?thesis using assms by (simp add: send_request_def moved_refl)
next
  case (Cons m0 ms)
  have own: "own_request i (si_cores s ! i)" and len: "i < length (si_cores s)" and ok: "sim_config_ok g" "net_ok g (si_icnt s)"
    using assms(2,3) by (auto simp: shape_def)
  have m: "m0\<lparr>ma_core_id := of_nat i\<rparr> = m0" "ma_request m0" "ma_core_id m0 = of_nat i"
    using own Cons by (simp_all add: own_request_def)
  have i32: "unat (of_nat i :: u32) = i" using assms(3) unsigned_less [of "sg_num_cores g", where 'a = nat]
    by (intro unat_of_nat_small) simp
  have req: "is_request g m0" using m assms(3) i32 by (simp add: is_request_def)
  show ?thesis
  proof (cases "iv_full D i m0 (si_icnt s)")
    case True
    then have "s' = put_core i (si_cores s ! i) s" using assms(1) Cons m(1) by (simp add: send_request_def Let_def same_requests)
    then have "s' = s" using len by (simp add: put_core_def)
    then show ?thesis using assms(2) moved_refl by simp
  next
    case False
    have "i < nodes g" using assms(3) by simp
    from net_push [OF ok(2,1) this False] req obtain dest ic where d: "get_dest_node g m0 = Inr dest"
      "iv_push D i dest m0 (si_icnt s) = Inr ic" "net_ok g ic" "net_sum g ic = {#key m0#} + net_sum g (si_icnt s)" by blast
    let ?c = "(si_cores s ! i)\<lparr>co_requests := ms\<rparr>"
    let ?s = "put_core i ?c s\<lparr>si_icnt := ic\<rparr>"
    have s': "inert ?s s'"
      using assms(1) Cons m(1) False d(1,2) inert_upd(3) by (auto simp: send_request_def pop_memory_request_def Let_def)
    have cores: "map co_requests (si_cores ?s) = (map co_requests (si_cores s))[i := ms]"
      "map co_waiting_writes (si_cores ?s) = map co_waiting_writes (si_cores s)"
      using len by (simp_all add: put_core_def map_update list_update_same_conv)
    have "pooled key (map co_requests (si_cores s)) = {#key m0#} + pooled key ((map co_requests (si_cores s))[i := ms])"
      using len Cons by (intro pooled_tl) simp_all
    then have "air g ?s = air g s" using d(4) cores(1) by (simp add: flight_def put_core_def)
    moreover have "own_request j (si_cores ?s ! j)" if "j < length (si_cores s)" for j
      using that assms(2) own Cons len by (cases "j = i") (auto simp: put_core_def own_request_def shape_def)
    then have "shape g ?s" using assms(2) d(3) by (simp add: shape_def put_core_def)
    ultimately have "moved g s ?s" using cores(2) by (simp add: moved_def same_books_def put_core_def)
    then show ?thesis using s' by (rule moved_inert)
  qed
qed

lemma drain_hold_moved:
  assumes "drain_hold D ch s = Inr s'" and "shape g s" and "ch < unat (sg_channels g)"
  shows "moved g s s'"
proof (cases "si_hold s ! ch")
  case Nil
  then show ?thesis using assms by (simp add: drain_hold_def moved_refl)
next
  case (Cons x q)
  obtain due m where x: "x = (due, m)" by (cases x)
  show ?thesis
  proof (cases "pb_active (si_pim s) \<and> due \<le> si_core_cycles s \<and> \<not> dv_full D ch m (si_dram s)")
    case False
    then have "s' = s" using assms(1) Cons x by (auto simp: drain_hold_def)
    then show ?thesis using moved_refl [OF assms(2)] by simp
  next
    case True
    have len: "ch < length (si_hold s)" using assms(2,3) by (simp add: shape_def)
    have "all_in (is_request g \<circ> snd) (si_hold s)" using assms(2) by (simp add: shape_def)
    from all_in_nth [OF this len, of "(due, m)"] have req: "is_request g m" using Cons x by simp
    have "mem_ok g (si_dram s)" using assms(2) by (simp add: shape_def)
    from mem_push [OF this assms(3) _ req] True obtain d where d: "dv_push D ch m (si_dram s) = Inr d" "mem_ok g d"
      "mem_sum g d = {#key m#} + mem_sum g (si_dram s)" by blast
    let ?s = "s\<lparr>si_dram := d, si_hold := (si_hold s)[ch := q]\<rparr>"
    have s': "inert ?s s'"
      using assms(1) Cons x True d(1) inert_trans [OF inert_notes(2) inert_notes(4)] by (auto simp: drain_hold_def)
    have "pooled (key \<circ> snd) (si_hold s) = {#key m#} + pooled (key \<circ> snd) ((si_hold s)[ch := q])"
      using pooled_tl [OF len, of x q "key \<circ> snd"] Cons x by simp
    then have "air g ?s = air g s" using d(3) by (simp add: flight_def)
    moreover have "all_in (is_request g \<circ> snd) ((si_hold s)[ch := q])"
      using assms(2) all_in_nth [OF _ len, of "is_request g \<circ> snd"] Cons by (intro all_in_upd) (auto simp: shape_def)
    then have "shape g ?s" using assms(2) d(2) by (simp add: shape_def)
    ultimately have "moved g s ?s" by (simp add: moved_def same_books_def)
    then show ?thesis using s' by (rule moved_inert)
  qed
qed

lemma pull_commands_moved:
  "pull_commands n g D ch s = Inr s' \<Longrightarrow> shape g s \<Longrightarrow> ch < unat (sg_channels g) \<Longrightarrow> moved g s s'"
proof (induction n arbitrary: s)
  case (Suc n)
  note node = mem_node_eq [OF Suc.prems(2,3)]
  have ok: "net_ok g (si_icnt s)" and len: "ch < length (si_ooo s)" using Suc.prems(2,3) by (auto simp: shape_def)
  obtain e where e: "iv_empty D (mem_node g ch) (si_icnt s) = Inr e" using Suc.prems(1) by (auto simp: rbind_Inr)
  show ?case
  proof (cases e)
    case True
    then show ?thesis using Suc.prems e by (simp add: moved_refl)
  next
    case False
    then obtain m ic where m: "iv_top D (mem_node g ch) (si_icnt s) = Inr m" "iv_pop D (mem_node g ch) (si_icnt s) = Inr ic"
      "net_ok g ic" "net_sum g (si_icnt s) = {#key m#} + net_sum g ic" "is_request g m"
      using net_pop [OF ok, of "mem_node g ch"] node e by auto
    let ?s = "s\<lparr>si_icnt := ic, si_ooo := (si_ooo s)[ch := si_ooo s ! ch @ [m]]\<rparr>"
    have "air g ?s = air g s" using m(4) pooled_snoc [OF len, of key "[m]"] by (simp add: flight_def)
    moreover have "all_in (is_request g) ((si_ooo s)[ch := si_ooo s ! ch @ [m]])"
      using Suc.prems(2) all_in_nth [OF _ len, of "is_request g"] m(5) by (intro all_in_upd) (auto simp: shape_def)
    then have shape: "shape g ?s" using Suc.prems(2) m(3) by (simp add: shape_def)
    ultimately have "moved g s ?s" by (simp add: moved_def same_books_def)
    moreover have "pull_commands n g D ch ?s = Inr s'" using Suc.prems(1) e False m(1,2) by simp
    ultimately show ?thesis using Suc.IH shape Suc.prems(3) moved_trans by blast
  qed
qed (simp add: moved_refl)

text \<open>The four ways of an incoming request; what it does to the PIM overlay and to SSRC is not seen here.\<close>

lemma inert_pim: "inert s s' \<Longrightarrow> inert s (s'\<lparr>si_pim := p\<rparr>)" "inert s s' \<Longrightarrow> inert s (s'\<lparr>si_ssrc := sr\<rparr>)"
  by (simp_all add: inert_def)

lemma route_cases:
  assumes "route_incoming D ch m s = Inr s'"
  obtains (ssrc) t where "inert (s\<lparr>si_ssrc_bypass := (si_ssrc_bypass s)[ch := si_ssrc_bypass s ! ch @ [(t, m\<lparr>ma_request := False\<rparr>)]]\<rparr>) s'"
    | (aau) t where "inert (s\<lparr>si_bypass := (si_bypass s)[ch := si_bypass s ! ch @ [(t, m\<lparr>ma_request := False\<rparr>)]]\<rparr>) s'"
    | (push) d where "dv_push D ch m (si_dram s) = Inr d" "inert (s\<lparr>si_dram := d\<rparr>) s'"
    | (hold) t where "inert (s\<lparr>si_hold := (si_hold s)[ch := si_hold s ! ch @ [(t, m)]]\<rparr>) s'"
proof -
  let ?act = "pb_active (si_pim s)"
  obtain hit p1 sr1 where t: "(if ?act \<and> sc_enable (sr_cfg (si_ssrc s)) then try_ssrc_bypass (si_pim s) (Some (si_ssrc s)) (of_nat ch) (Some m)
      else (False, si_pim s, Some (si_ssrc s))) = (hit, p1, sr1)" by (metis prod_cases3)
  obtain sr where sr: "sr1 = Some sr" using assms t by (cases sr1) (auto simp: route_incoming_def Let_def)
  define s1 where "s1 = s\<lparr>si_pim := p1, si_ssrc := sr\<rparr>"
  show ?thesis
  proof (cases hit)
    case True
    then have e: "s' = note_issued ch (s1\<lparr>si_ssrc_bypass := (si_ssrc_bypass s)[ch := si_ssrc_bypass s ! ch
        @ [(si_core_cycles s + ucast (pb_ssrc_bypass_npu_cycles p1), m\<lparr>ma_request := False\<rparr>)]]\<rparr>)"
      using assms t sr by (simp add: route_incoming_def Let_def s1_def)
    show ?thesis
      by (intro ssrc [of "si_core_cycles s + ucast (pb_ssrc_bypass_npu_cycles p1)"]) (simp only: e, rule inert_trans [OF _ inert_issued], simp add: inert_def s1_def)
  next
    case False
    then obtain hit2 p2 where u: "(if ?act then deref (try_aau_bypass p1 (of_nat ch) (Some m)) else Inr (False, p1)) = Inr (hit2, p2)"
      using assms t sr by (auto simp: route_incoming_def Let_def rbind_Inr)
    define s2 where "s2 = s1\<lparr>si_pim := p2\<rparr>"
    show ?thesis
    proof (cases hit2)
      case True
      then have e: "s' = note_issued ch (s2\<lparr>si_bypass := (si_bypass s)[ch := si_bypass s ! ch
          @ [(si_core_cycles s + ucast (pb_aau_bypass_npu_cycles p2), m\<lparr>ma_request := False\<rparr>)]]\<rparr>)"
        using assms t sr u \<open>\<not> hit\<close> by (simp add: route_incoming_def Let_def s1_def s2_def)
      show ?thesis
        by (intro aau [of "si_core_cycles s + ucast (pb_aau_bypass_npu_cycles p2)"])
          (simp only: e, rule inert_trans [OF _ inert_issued], simp add: inert_def s1_def s2_def)
    next
      case hit2: False
      obtain h p3 where v: "(if ?act then on_dram_push p2 (of_nat ch) (Some m) (si_core_cycles s) else (0, p2)) = (h, p3)" by fastforce
      define s3 where "s3 = s2\<lparr>si_pim := p3\<rparr>"
      have r: "(if h = 0 then rbind (dv_push D ch m (si_dram s)) (\<lambda>d. Inr (note_issued ch (s3\<lparr>si_dram := d\<rparr>)))
          else Inr (s3\<lparr>si_hold := (si_hold s)[ch := si_hold s ! ch @ [(si_core_cycles s + ucast h, m)]]\<rparr>)) = Inr s'"
        using assms False hit2 unfolding route_incoming_def Let_def s1_def s2_def s3_def
        by (simp only: t sr u v prod.case deref_simps rbind.simps if_False)
      show ?thesis
      proof (cases "h = 0")
        case True
        then obtain d where d: "dv_push D ch m (si_dram s) = Inr d" "s' = note_issued ch (s3\<lparr>si_dram := d\<rparr>)"
          using r by (auto simp: rbind_Inr)
        then show ?thesis
          by (intro push [OF d(1)]) (simp only: d(2), rule inert_trans [OF _ inert_issued], simp add: inert_def s1_def s2_def s3_def)
      next
        case False
        then show ?thesis using r
          by (intro hold [of "si_core_cycles s + ucast h"]) (auto simp: inert_def s1_def s2_def s3_def)
      qed
    qed
  qed
qed

text \<open>A place gets the access.\<close>

definition gains :: "sim_config \<Rightarrow> mem_access \<Rightarrow> ('d, 'i) sim \<Rightarrow> ('d, 'i) sim \<Rightarrow> bool" where
  "gains g m s s' \<longleftrightarrow> shape g s' \<and> air g s' = {#key m#} + air g s \<and> same_books s s' \<and> si_icnt s' = si_icnt s \<and> si_ooo s' = si_ooo s"

lemma gains_inert: "gains g m s s' \<Longrightarrow> inert s' s'' \<Longrightarrow> gains g m s s''"
  using inert_shape [of s' s'' g] inert_air [of s' s'' g] by (simp add: gains_def same_books_def) (simp add: inert_def)

lemma route_gains:
  assumes "route_incoming D ch m s = Inr s'" and "shape g s" and "ch < unat (sg_channels g)" and "is_request g m"
    and "\<not> dv_full D ch m (si_dram s)"
  shows "gains g m s s'"
proof -
  have len: "ch < length (si_hold s)" "ch < length (si_bypass s)" "ch < length (si_ssrc_bypass s)" using assms(2,3) by (simp_all add: shape_def)
  have resp: "is_response g (m\<lparr>ma_request := False\<rparr>)" using assms(4) by (simp add: is_request_def is_response_def)
  from assms(1) show ?thesis
  proof (cases rule: route_cases)
    case (ssrc t)
    let ?q = "(si_ssrc_bypass s)[ch := si_ssrc_bypass s ! ch @ [(t, m\<lparr>ma_request := False\<rparr>)]]"
    have "all_in (is_response g \<circ> snd) ?q"
      using assms(2) all_in_nth [OF _ len(3), of "is_response g \<circ> snd"] resp by (intro all_in_upd) (auto simp: shape_def)
    then have "gains g m s (s\<lparr>si_ssrc_bypass := ?q\<rparr>)"
      using assms(2) pooled_snoc [OF len(3), of "key \<circ> snd" "[(t, m\<lparr>ma_request := False\<rparr>)]"]
      by (simp add: gains_def shape_def flight_def same_books_def)
    then show ?thesis using ssrc by (rule gains_inert)
  next
    case (aau t)
    let ?q = "(si_bypass s)[ch := si_bypass s ! ch @ [(t, m\<lparr>ma_request := False\<rparr>)]]"
    have "all_in (is_response g \<circ> snd) ?q"
      using assms(2) all_in_nth [OF _ len(2), of "is_response g \<circ> snd"] resp by (intro all_in_upd) (auto simp: shape_def)
    then have "gains g m s (s\<lparr>si_bypass := ?q\<rparr>)"
      using assms(2) pooled_snoc [OF len(2), of "key \<circ> snd" "[(t, m\<lparr>ma_request := False\<rparr>)]"]
      by (simp add: gains_def shape_def flight_def same_books_def)
    then show ?thesis using aau by (rule gains_inert)
  next
    case (push d)
    have "mem_ok g (si_dram s)" using assms(2) by (simp add: shape_def)
    from mem_push [OF this assms(3,5,4)] push(1) have "mem_ok g d" "mem_sum g d = {#key m#} + mem_sum g (si_dram s)" by auto
    then have "gains g m s (s\<lparr>si_dram := d\<rparr>)" using assms(2) by (simp add: gains_def shape_def flight_def same_books_def)
    then show ?thesis using push(2) by (rule gains_inert)
  next
    case (hold t)
    let ?q = "(si_hold s)[ch := si_hold s ! ch @ [(t, m)]]"
    have "all_in (is_request g \<circ> snd) ?q"
      using assms(2) all_in_nth [OF _ len(1), of "is_request g \<circ> snd"] assms(4) by (intro all_in_upd) (auto simp: shape_def)
    then have "gains g m s (s\<lparr>si_hold := ?q\<rparr>)"
      using assms(2) pooled_snoc [OF len(1), of "key \<circ> snd" "[(t, m)]"]
      by (simp add: gains_def shape_def flight_def same_books_def)
    then show ?thesis using hold by (rule gains_inert)
  qed
qed

lemma select_in_queue:
  assumes "si_ooo s ! ch \<noteq> []"
  shows "select_pim_command g D ch s < length (si_ooo s ! ch)"
proof -
  have "find P [0..<n] = Some i \<Longrightarrow> i < n" for P i and n :: nat by (auto simp: find_Some_iff)
  then show ?thesis using assms by (auto simp: select_pim_command_def Let_def split: option.splits)
qed

text \<open>The chosen request leaves its place.\<close>

lemma chosen_leaves:
  assumes "choose_incoming g D ch s = Inr (from, Some m)" and "shape g s" and "ch < unat (sg_channels g)"
  shows "is_request g m \<and> (\<forall>s1 s2. shape g s1 \<longrightarrow> si_icnt s1 = si_icnt s \<longrightarrow> si_ooo s1 = si_ooo s \<longrightarrow> remove_incoming g D ch from s1 = Inr s2 \<longrightarrow>
    shape g s2 \<and> air g s1 = {#key m#} + air g s2 \<and> same_books s1 s2)"
proof (cases "sim_is_pim ch s \<and> si_ooo s ! ch \<noteq> []")
  case True
  let ?i = "select_pim_command g D ch s" and ?q = "si_ooo s ! ch"
  have m: "from = Some ?i" "m = ?q ! ?i" using assms(1) True by (auto simp: choose_incoming_def Let_def)
  have i: "?i < length ?q" and len: "ch < length (si_ooo s)" using True select_in_queue assms(2,3) by (auto simp: shape_def)
  have all: "all_in (is_request g) (si_ooo s)" using assms(2) by (simp add: shape_def)
  have q: "\<forall>x \<in> set (take ?i ?q @ drop (Suc ?i) ?q). is_request g x"
    using all_in_nth [OF all len] by (auto dest: in_set_takeD in_set_dropD)
  have rem: "shape g (s1\<lparr>si_ooo := (si_ooo s)[ch := take ?i ?q @ drop (Suc ?i) ?q]\<rparr>)
      \<and> air g s1 = {#key m#} + air g (s1\<lparr>si_ooo := (si_ooo s)[ch := take ?i ?q @ drop (Suc ?i) ?q]\<rparr>)"
    if "shape g s1" "si_ooo s1 = si_ooo s" for s1
    using that all_in_upd [OF all q] pooled_remove [OF len i, of key] m(2) by (simp add: shape_def flight_def)
  have "is_request g m" using all_in_nth [OF all len nth_mem [OF i]] m(2) by simp
  then show ?thesis using rem m(1) by (auto simp: remove_incoming_def same_books_def)
next
  case False
  note node = mem_node_eq [OF assms(2,3)]
  have ok: "net_ok g (si_icnt s)" using assms(2) by (simp add: shape_def)
  have t: "from = None" "iv_empty D (mem_node g ch) (si_icnt s) = Inr False" "iv_top D (mem_node g ch) (si_icnt s) = Inr m"
    using assms(1) False by (auto simp: choose_incoming_def rbind_Inr split: if_splits)
  then obtain ic where ic: "iv_pop D (mem_node g ch) (si_icnt s) = Inr ic" "net_ok g ic"
    "net_sum g (si_icnt s) = {#key m#} + net_sum g ic" "is_request g m" using net_pop [OF ok _ t(2)] node by auto
  have "shape g (s1\<lparr>si_icnt := ic\<rparr>) \<and> air g s1 = {#key m#} + air g (s1\<lparr>si_icnt := ic\<rparr>)" if "shape g s1" "si_icnt s1 = si_icnt s" for s1
    using that ic(2,3) by (simp add: shape_def flight_def)
  then show ?thesis using t(1) ic(1,4) by (auto simp: remove_incoming_def same_books_def)
qed

lemma accept_incoming_moved:
  assumes "accept_incoming g D ch s = Inr s'" and "shape g s" and "ch < unat (sg_channels g)"
  shows "moved g s s'"
proof -
  obtain s1 where p: "(if sim_is_pim ch s then pull_commands (unat (sg_cmd_entries g) - length (si_ooo s ! ch)) g D ch s else Inr s) = Inr s1"
    using assms(1) by (auto simp: accept_incoming_def rbind_Inr simp del: pull_commands.simps)
  have m1: "moved g s s1" using p pull_commands_moved [OF _ assms(2,3)] moved_refl [OF assms(2)] by (auto split: if_splits)
  then have shape1: "shape g s1" by (simp add: moved_def)
  obtain ff incoming where c: "choose_incoming g D ch s1 = Inr (ff, incoming)"
    using assms(1) p by (auto simp: accept_incoming_def rbind_Inr simp del: pull_commands.simps)
  define s2 where "s2 = note_tlm_window ch incoming s1"
  have i2: "inert s1 s2" by (simp add: s2_def inert_notes)
  have m2: "moved g s s2" using m1 i2 by (rule moved_inert)
  show ?thesis
  proof (cases "incoming = None \<or> dv_full D ch (the incoming) (si_dram s2)")
    case True
    then have "s' = s2" using assms(1) p c
      by (cases incoming) (simp_all add: accept_incoming_def Let_def s2_def del: pull_commands.simps)
    then show ?thesis using m2 by simp
  next
    case False
    then obtain m where m: "incoming = Some m" "\<not> dv_full D ch m (si_dram s2)" by auto
    obtain s3 s4 where r: "route_incoming D ch m s2 = Inr s3" "remove_incoming g D ch ff s3 = Inr s4" "s' = to_mem s4"
      using assms(1) p c m by (auto simp: accept_incoming_def Let_def s2_def rbind_Inr simp del: pull_commands.simps)
    note leave = chosen_leaves [OF c [unfolded m(1)] shape1 assms(3)]
    have shape2: "shape g s2" using m2 by (simp add: moved_def)
    have g: "gains g m s2 s3" using leave by (intro route_gains [OF r(1) shape2 assms(3) _ m(2)]) blast
    then have same: "si_icnt s3 = si_icnt s1" "si_ooo s3 = si_ooo s1" using i2 by (simp_all add: gains_def inert_def)
    have "shape g s3" using g by (simp add: gains_def)
    then have l: "shape g s4" "air g s3 = {#key m#} + air g s4" "same_books s3 s4" using leave same r(2) by blast+
    have "air g s4 = air g s2" using l(2) g by (simp add: gains_def)
    moreover have "same_books s2 s4" using g l(3) by (simp add: gains_def same_books_def)
    ultimately have "moved g s2 s4" using l(1) by (simp add: moved_def)
    then have "moved g s2 s'" unfolding r(3) by (rule moved_inert) (rule inert_notes)
    then show ?thesis using m2 moved_trans by blast
  qed
qed

text \<open>The way back.\<close>

lemma send_back_ok:
  assumes "send_back g D ch q s = Inr (sent, s1)" and "shape g s" and "ch < unat (sg_channels g)" and "\<forall>x \<in> set q. is_response g (snd x)"
  shows "if sent then q \<noteq> [] \<and> shape g s1 \<and> air g s1 = {#key (snd (hd q))#} + air g s \<and> same_books s s1
           \<and> si_bypass s1 = si_bypass s \<and> si_ssrc_bypass s1 = si_ssrc_bypass s
         else s1 = s"
proof (cases q)
  case Nil
  then show ?thesis using assms(1) by (simp add: send_back_def)
next
  case (Cons x q')
  obtain ready m where x: "x = (ready, m)" by (cases x)
  note node = mem_node_eq [OF assms(2,3)]
  show ?thesis
  proof (cases "pb_active (si_pim s) \<and> ready \<le> si_core_cycles s \<and> \<not> iv_full D (mem_node g ch) m (si_icnt s)")
    case False
    then show ?thesis using assms(1) Cons x by (auto simp: send_back_def)
  next
    case True
    have ok: "net_ok g (si_icnt s)" "sim_config_ok g" using assms(2) by (auto simp: shape_def)
    have "is_response g m" using assms(4) Cons x by simp
    then obtain dest ic where d: "get_dest_node g m = Inr dest" "iv_push D (mem_node g ch) dest m (si_icnt s) = Inr ic"
      "net_ok g ic" "net_sum g ic = {#key m#} + net_sum g (si_icnt s)"
      using net_push [OF ok(1,2)] node True by blast
    let ?s = "s\<lparr>si_icnt := ic\<rparr>"
    have s1: "sent" "s1 = from_mem ?s" using assms(1) Cons x True d(1,2) by (auto simp: send_back_def)
    have "shape g ?s" "air g ?s = {#key m#} + air g s" "same_books s ?s"
      using assms(2) d(3,4) by (simp_all add: shape_def flight_def same_books_def)
    moreover have i: "inert ?s s1" unfolding s1(2) by (rule inert_notes)
    ultimately show ?thesis using s1(1) Cons x inert_shape [OF i] inert_air [OF i] by (auto simp: inert_def same_books_def)
  qed
qed

lemma drain_bypass_moved:
  assumes "drain_bypass g D ch s = Inr s'" and "shape g s" and "ch < unat (sg_channels g)"
  shows "moved g s s'"
proof -
  have len: "ch < length (si_bypass s)" and all: "all_in (is_response g \<circ> snd) (si_bypass s)" using assms(2,3) by (auto simp: shape_def)
  have resp: "\<forall>x \<in> set (si_bypass s ! ch). is_response g (snd x)" using all_in_nth [OF all len] by simp
  obtain sent s1 where b: "send_back g D ch (si_bypass s ! ch) s = Inr (sent, s1)"
    and s': "s' = (if sent then s1\<lparr>si_bypass := (si_bypass s1)[ch := tl (si_bypass s1 ! ch)]\<rparr> else s1)"
    using assms(1) by (auto simp: drain_bypass_def rbind_Inr)
  note bk = send_back_ok [OF b assms(2,3) resp]
  show ?thesis
  proof (cases sent)
    case False
    then show ?thesis using bk s' moved_refl [OF assms(2)] by simp
  next
    case True
    then obtain x q where q: "si_bypass s ! ch = x # q" using bk by (cases "si_bypass s ! ch") auto
    have k: "shape g s1" "air g s1 = {#key (snd x)#} + air g s" "same_books s s1" "si_bypass s1 = si_bypass s" using bk True q by simp_all
    have e: "s' = s1\<lparr>si_bypass := (si_bypass s)[ch := q]\<rparr>" using s' True q k(4) by simp
    have "all_in (is_response g \<circ> snd) ((si_bypass s)[ch := q])" using resp q by (intro all_in_upd [OF all]) simp
    then have "shape g s'" using k(1,4) e by (simp add: shape_def)
    moreover have "pooled (key \<circ> snd) (si_bypass s) = {#key (snd x)#} + pooled (key \<circ> snd) ((si_bypass s)[ch := q])"
      using pooled_tl [OF len q, of "key \<circ> snd"] by simp
    then have "air g s1 = {#key (snd x)#} + air g s'" using e k(4) by (simp add: flight_def)
    then have "air g s' = air g s" using k(2) by simp
    moreover have "same_books s s'" using k(3) e by (simp add: same_books_def)
    ultimately show ?thesis by (simp add: moved_def)
  qed
qed

lemma drain_ssrc_bypass_moved:
  assumes "drain_ssrc_bypass g D ch s = Inr s'" and "shape g s" and "ch < unat (sg_channels g)"
  shows "moved g s s'"
proof -
  have len: "ch < length (si_ssrc_bypass s)" and all: "all_in (is_response g \<circ> snd) (si_ssrc_bypass s)" using assms(2,3) by (auto simp: shape_def)
  have resp: "\<forall>x \<in> set (si_ssrc_bypass s ! ch). is_response g (snd x)" using all_in_nth [OF all len] by simp
  obtain sent s1 where b: "send_back g D ch (si_ssrc_bypass s ! ch) s = Inr (sent, s1)"
    and s': "s' = (if sent then s1\<lparr>si_ssrc_bypass := (si_ssrc_bypass s1)[ch := tl (si_ssrc_bypass s1 ! ch)]\<rparr> else s1)"
    using assms(1) by (auto simp: drain_ssrc_bypass_def rbind_Inr)
  note bk = send_back_ok [OF b assms(2,3) resp]
  show ?thesis
  proof (cases sent)
    case False
    then show ?thesis using bk s' moved_refl [OF assms(2)] by simp
  next
    case True
    then obtain x q where q: "si_ssrc_bypass s ! ch = x # q" using bk by (cases "si_ssrc_bypass s ! ch") auto
    have k: "shape g s1" "air g s1 = {#key (snd x)#} + air g s" "same_books s s1" "si_ssrc_bypass s1 = si_ssrc_bypass s"
      using bk True q by simp_all
    have e: "s' = s1\<lparr>si_ssrc_bypass := (si_ssrc_bypass s)[ch := q]\<rparr>" using s' True q k(4) by simp
    have "all_in (is_response g \<circ> snd) ((si_ssrc_bypass s)[ch := q])" using resp q by (intro all_in_upd [OF all]) simp
    then have "shape g s'" using k(1,4) e by (simp add: shape_def)
    moreover have "pooled (key \<circ> snd) (si_ssrc_bypass s) = {#key (snd x)#} + pooled (key \<circ> snd) ((si_ssrc_bypass s)[ch := q])"
      using pooled_tl [OF len q, of "key \<circ> snd"] by simp
    then have "air g s1 = {#key (snd x)#} + air g s'" using e k(4) by (simp add: flight_def)
    then have "air g s' = air g s" using k(2) by simp
    moreover have "same_books s s'" using k(3) e by (simp add: same_books_def)
    ultimately show ?thesis by (simp add: moved_def)
  qed
qed

lemma drain_dram_moved:
  assumes "drain_dram g D ch s = Inr s'" and "shape g s" and "ch < unat (sg_channels g)"
  shows "moved g s s'"
proof -
  note node = mem_node_eq [OF assms(2,3)]
  have ok: "net_ok g (si_icnt s)" "sim_config_ok g" "mem_ok g (si_dram s)" using assms(2) by (auto simp: shape_def)
  obtain e where e: "dv_empty D ch (si_dram s) = Inr e" using assms(1) by (auto simp: drain_dram_def rbind_Inr)
  show ?thesis
  proof (cases e)
    case True
    then show ?thesis using assms(1) e moved_refl [OF assms(2)] by (simp add: drain_dram_def)
  next
    case False
    then obtain m d where m: "dv_top D ch (si_dram s) = Inr m" "dv_pop D ch (si_dram s) = Inr d" "mem_ok g d"
      "mem_sum g (si_dram s) = {#key m#} + mem_sum g d" "is_response g m"
      using mem_pop [OF ok(3) assms(3)] e by auto
    show ?thesis
    proof (cases "iv_full D (mem_node g ch) m (si_icnt s)")
      case True
      then show ?thesis using assms(1) e False m(1) moved_refl [OF assms(2)] by (simp add: drain_dram_def)
    next
      case room: False
      obtain dest ic where i: "get_dest_node g m = Inr dest" "iv_push D (mem_node g ch) dest m (si_icnt s) = Inr ic"
        "net_ok g ic" "net_sum g ic = {#key m#} + net_sum g (si_icnt s)"
        using net_push [OF ok(1,2) _ room] node m(5) by blast
      let ?s = "s\<lparr>si_icnt := ic, si_dram := d\<rparr>"
      have "s' = from_mem ?s" using assms(1) e False m(1,2) room i(1,2) by (simp add: drain_dram_def)
      moreover have "moved g s ?s"
        using assms(2) m(3,4) i(3,4) by (simp add: moved_def shape_def flight_def same_books_def)
      ultimately show ?thesis using moved_inert inert_notes(5) by blast
    qed
  qed
qed

lemma note_slot_moved: "note_slot g D ch s = Inr s' \<Longrightarrow> shape g s \<Longrightarrow> moved g s s'"
  using inert_moved [OF inert_candidate] moved_refl
  by (auto simp: note_slot_def rbind_Inr split: if_splits)

lemma mem_port_moved:
  assumes "mem_port g D ch s = Inr s'" and "shape g s" and "ch < unat (sg_channels g)"
  shows "moved g s s'"
proof -
  obtain s1 s2 s3 s4 s5 where r: "note_slot g D ch s = Inr s1" "drain_hold D ch s1 = Inr s2" "accept_incoming g D ch s2 = Inr s3"
    "drain_bypass g D ch s3 = Inr s4" "drain_ssrc_bypass g D ch s4 = Inr s5" "drain_dram g D ch s5 = Inr s'"
    using assms(1) by (auto simp: mem_port_def rbind_Inr)
  have shape: "moved g a b \<Longrightarrow> shape g b" for a b by (simp add: moved_def)
  note m1 = note_slot_moved [OF r(1) assms(2)]
  note m2 = drain_hold_moved [OF r(2) shape [OF m1] assms(3)]
  note m3 = accept_incoming_moved [OF r(3) shape [OF m2] assms(3)]
  note m4 = drain_bypass_moved [OF r(4) shape [OF m3] assms(3)]
  note m5 = drain_ssrc_bypass_moved [OF r(5) shape [OF m4] assms(3)]
  note m6 = drain_dram_moved [OF r(6) shape [OF m5] assms(3)]
  show ?thesis by (rule moved_trans [OF m1 moved_trans [OF m2 moved_trans [OF m3 moved_trans [OF m4 moved_trans [OF m5 m6]]]]])
qed

section \<open>Deliveries and new accesses\<close>

lemma core_response:
  assumes "push_memory_response m c = Inr c'"
  shows "co_id c' = co_id c \<and> co_requests c' = co_requests c \<and> \<not> ma_request m
    \<and> co_waiting_writes c' = (if ma_write m then co_waiting_writes c - 1 else co_waiting_writes c)"
  using assms by (auto simp: push_memory_response_def rbind_Inr split: if_splits)

lemma core_index: "shape g s \<Longrightarrow> i < unat (sg_num_cores g) \<Longrightarrow> j < unat (sg_num_cores g) \<Longrightarrow> (of_nat i :: u32) = of_nat j \<longleftrightarrow> i = j"
proof -
  assume a: "i < unat (sg_num_cores g)" "j < unat (sg_num_cores g)"
  then have "unat (of_nat i :: u32) = i" "unat (of_nat j :: u32) = j"
    using unsigned_less [of "sg_num_cores g", where 'a = nat] by (auto intro!: unat_of_nat_small)
  then show ?thesis by metis
qed

definition sound :: "sim_config \<Rightarrow> ('d, 'i) sim \<Rightarrow> bool" where
  "sound g s \<longleftrightarrow> shape g s \<and> books_ok (air g s) g s"

lemma moved_sound: "moved g s s' \<Longrightarrow> sound g s \<Longrightarrow> sound g s'"
  using moved_books by (simp add: sound_def moved_def)

lemma take_response_sound:
  assumes "take_response D i s = Inr s'" and "sound g s" and "i < unat (sg_num_cores g)"
  shows "sound g s'"
proof -
  have shape: "shape g s" and books: "books_ok (air g s) g s" using assms(2) by (simp_all add: sound_def)
  have ok: "net_ok g (si_icnt s)" and len: "length (si_cores s) = unat (sg_num_cores g)" and own: "own_request i (si_cores s ! i)"
    using shape assms(3) by (auto simp: shape_def)
  have node: "i < nodes g" using assms(3) by simp
  obtain e where e: "iv_empty D i (si_icnt s) = Inr e" using assms(1) by (auto simp: take_response_def rbind_Inr)
  show ?thesis
  proof (cases e)
    case True
    then show ?thesis using assms(1,2) e by (simp add: take_response_def)
  next
    case False
    then obtain m ic where m: "iv_top D i (si_icnt s) = Inr m" "iv_pop D i (si_icnt s) = Inr ic" "net_ok g ic"
      "net_sum g (si_icnt s) = {#key m#} + net_sum g ic" "ma_core_id m = of_nat i"
      using net_pop [OF ok node] e assms(3) by auto
    obtain c where c: "push_memory_response m (si_cores s ! i) = Inr c"
      using assms(1) e False m(1) by (auto simp: take_response_def rbind_Inr)
    note cr = core_response [OF c]
    let ?s = "put_core i c s\<lparr>si_icnt := ic, si_delivered := si_delivered s @ [(i, m)]\<rparr>"
    have in1: "inert ?s s'"
      using assms(1) e False m(1,2) c inert_upd(3) by (auto simp: take_response_def)
    have "map co_requests (si_cores ?s) = map co_requests (si_cores s)"
      using cr assms(3) len by (simp add: put_core_def map_update list_update_same_conv)
    then have air: "air g s = {#key m#} + air g ?s" using m(4) by (simp add: flight_def put_core_def)
    have "own_request j (si_cores ?s ! j)" if "j < length (si_cores s)" for j
      using that shape own cr by (cases "j = i") (auto simp: put_core_def own_request_def shape_def)
    then have "shape g ?s" using shape m(3) by (simp add: shape_def put_core_def)
    moreover have "co_waiting_writes (si_cores ?s ! j) = of_nat (size (filter_mset (owed j) (air g ?s)))" if j: "j < length (si_cores s)" for j
    proof -
      have w: "co_waiting_writes (si_cores s ! j) = of_nat (size (filter_mset (owed j) (air g s)))" using books j by (simp add: books_ok_def)
      show ?thesis
      proof (cases "j = i")
        case True
        then show ?thesis using w air cr m(5) j by (simp add: put_core_def owed_def)
      next
        case False
        then have "\<not> owed j (key m)" using m(5) core_index [OF shape assms(3), of j] j len by (auto simp: owed_def)
        then show ?thesis using w air False by (simp add: put_core_def)
      qed
    qed
    then have "books_ok (air g ?s) g ?s"
      using books air cr m(5) assms(3) unfolding books_ok_def by (auto simp: put_core_def)
    ultimately show ?thesis using in1 inert_shape [OF in1] inert_air [OF in1]
      by (auto simp: sound_def books_ok_def inert_def)
  qed
qed

lemma issue_requests:
  "co_id (issue c t s) = co_id s \<and> co_requests (issue c t s) = co_requests s \<and> co_waiting_writes (issue c t s) = co_waiting_writes s"
proof -
  have "co_id (fold (count_instruction c) js s') = co_id s' \<and> co_requests (fold (count_instruction c) js s') = co_requests s'
      \<and> co_waiting_writes (fold (count_instruction c) js s') = co_waiting_writes s'" for js s'
    by (induction js arbitrary: s') (simp_all add: count_instruction_def count_tagged_def Let_def)
  then show ?thesis by (simp add: issue_def Let_def)
qed

lemma pop_tile_requests:
  "co_id (snd (pop_finished_tile s)) = co_id s \<and> co_requests (snd (pop_finished_tile s)) = co_requests s
    \<and> co_waiting_writes (snd (pop_finished_tile s)) = co_waiting_writes s"
  by (simp add: pop_finished_tile_def split: list.splits)

text \<open>The accesses that a cycle of a core makes.\<close>

lemma core_part_makes:
  assumes "core_part g f i s = Inr s'"
  obtains c ms n where "s' = put_core i c s\<lparr>si_next_id := n, si_made := si_made s @ ms\<rparr>" and "sends (si_cores s ! i) ms c"
proof -
  define c0 where "c0 = snd (pop_finished_tile (si_cores s ! i))"
  define c1 where "c1 = (case fr_tile f i of None \<Rightarrow> c0 | Some t \<Rightarrow>
    if can_issue c0 \<and> ti_status t = T_INITIALIZED then issue (sg_core g i) t c0 else c0)"
  obtain c where c: "core_cycle (sg_core g i) (c1\<lparr>co_next_id := si_next_id s\<rparr>) = Inr c"
    and s': "s' = put_core i c s\<lparr>si_next_id := co_next_id c, si_made := si_made s @ drop (length (co_requests c1)) (co_requests c)\<rparr>"
    using assms unfolding core_part_def Let_def c0_def [symmetric] c1_def [symmetric] by (auto simp: rbind_Inr)
  obtain ms where ms: "sends (c1\<lparr>co_next_id := si_next_id s\<rparr>) ms c" using core_cycle_keeps [OF c] by (auto simp: core_keeps_def)
  have c1: "co_id c1 = co_id (si_cores s ! i)" "co_requests c1 = co_requests (si_cores s ! i)"
    "co_waiting_writes c1 = co_waiting_writes (si_cores s ! i)"
    unfolding c1_def c0_def using issue_requests pop_tile_requests by (auto split: option.splits)
  then have "sends (si_cores s ! i) ms c" using ms by (simp add: sends_def)
  moreover have "drop (length (co_requests c1)) (co_requests c) = ms" using ms by (simp add: sends_def)
  ultimately show ?thesis using that s' by simp
qed

lemma core_part_sound:
  assumes "core_part g f i s = Inr s'" and "sound g s" and "i < unat (sg_num_cores g)"
  shows "sound g s'"
proof -
  have shape: "shape g s" and books: "books_ok (air g s) g s" using assms(2) by (simp_all add: sound_def)
  have len: "length (si_cores s) = unat (sg_num_cores g)" and own: "own_request i (si_cores s ! i)"
    using shape assms(3) by (auto simp: shape_def)
  obtain c ms n where s': "s' = put_core i c s\<lparr>si_next_id := n, si_made := si_made s @ ms\<rparr>" and ms: "sends (si_cores s ! i) ms c"
    by (rule core_part_makes [OF assms(1)])
  have new: "\<forall>m \<in> set ms. ma_core_id m = of_nat i \<and> ma_request m" using ms own by (auto simp: sends_def own_request_def)
  have "map co_requests (si_cores s') = (map co_requests (si_cores s))[i := map co_requests (si_cores s) ! i @ ms]"
    using ms s' assms(3) len by (simp add: put_core_def map_update sends_def)
  then have "pooled key (map co_requests (si_cores s')) = image_mset key (mset ms) + pooled key (map co_requests (si_cores s))"
    using pooled_snoc [of i "map co_requests (si_cores s)" key ms] assms(3) len by simp
  then have air: "air g s' = image_mset key (mset ms) + air g s" using s' by (simp add: flight_def put_core_def ac_simps)
  have "own_request j (si_cores s' ! j)" if "j < length (si_cores s)" for j
    using that shape own ms new s' by (cases "j = i") (auto simp: put_core_def own_request_def shape_def sends_def)
  then have "shape g s'" using shape s' by (simp add: shape_def put_core_def)
  moreover have "co_waiting_writes (si_cores s' ! j) = of_nat (size (filter_mset (owed j) (air g s')))" if j: "j < length (si_cores s)" for j
  proof -
    have w: "co_waiting_writes (si_cores s ! j) = of_nat (size (filter_mset (owed j) (air g s)))" using books j by (simp add: books_ok_def)
    show ?thesis
    proof (cases "j = i")
      case True
      have "filter_mset (owed i) (image_mset key (mset ms)) = image_mset key (mset (filter ma_write ms))"
        using new by (induction ms) (auto simp: owed_def)
      then have "size (filter_mset (owed i) (image_mset key (mset ms))) = length (filter ma_write ms)" by (simp only: size_image_mset size_mset)
      then show ?thesis using w air ms s' True j by (simp add: put_core_def sends_def add.commute)
    next
      case False
      have "filter_mset (owed j) (image_mset key (mset ms)) = {#}"
        using new core_index [OF shape assms(3), of j] False j len by (induction ms) (auto simp: owed_def)
      then have "filter_mset (owed j) (air g s') = filter_mset (owed j) (air g s)" by (simp only: air filter_union_mset empty_neutral)
      then show ?thesis using w s' False by (simp add: put_core_def)
    qed
  qed
  then have "books_ok (air g s') g s'"
    using books air s' unfolding books_ok_def by (auto simp: put_core_def ac_simps)
  ultimately show ?thesis by (simp add: sound_def)
qed

section \<open>Cycles\<close>

lemma each_keeps:
  assumes "each f xs s = Inr s'" and "P s" and "\<And>x s s'. x \<in> set xs \<Longrightarrow> f x s = Inr s' \<Longrightarrow> P s \<Longrightarrow> P s'"
  shows "P s'"
  using assms by (induction xs arbitrary: s) (auto simp: rbind_Inr)

lemma inert_sound: "inert s s' \<Longrightarrow> sound g s \<Longrightarrow> sound g s'"
proof -
  assume i: "inert s s'" and s: "sound g s"
  then have "moved g s s'" by (intro inert_moved) (simp_all add: sound_def)
  then show ?thesis using s by (rule moved_sound)
qed

lemma net_cycle:
  assumes "net_ok g ic"
  shows "\<exists>ic'. iv_cycle D ic = Inr ic' \<and> net_ok g ic' \<and> net_sum g ic' = net_sum g ic"
proof -
  obtain ic' where "iv_cycle D ic = Inr ic'" "iwf (nodes g) ic'" "\<forall>d. bound_for d ic' = bound_for d ic"
    using net.cycle_ok assms unfolding net_ok_def by blast
  then show ?thesis using assms by (simp add: net_ok_def)
qed

lemma icnt_part_sound:
  assumes "icnt_part g D s = Inr s'" and "sound g s"
  shows "sound g s'"
proof -
  let ?s = "s\<lparr>si_icnt_cycle := si_icnt_cycle s + 1\<rparr>"
  have "sound g ?s" using assms(2) by (rule inert_sound [rotated]) (simp add: inert_def)
  define P where "P = (\<lambda>i s. rbind (send_request g D i s) (take_response D i))"
  define finish where "finish = (\<lambda>s :: ('d, 'i) sim. let log = (sg_icnt_interval g \<noteq> 0 \<and> si_icnt_cycle s mod sg_icnt_interval g = 0) in
      if log \<and> si_icnt_period s = 0 then Inl Undefined
      else rbind (iv_cycle D (si_icnt s)) (\<lambda>ic. Inr ((if log then s\<lparr>si_recent := no_counts\<rparr> else s)\<lparr>si_icnt := ic\<rparr>)))"
  have part: "icnt_part g D s = rbind (each P [0..<unat (sg_num_cores g)] ?s) (\<lambda>s. rbind (each (mem_port g D) [0..<unat (sg_channels g)] s) finish)"
    unfolding icnt_part_def P_def finish_def by (simp only: Let_def)
  obtain s1 s2 where r: "each P [0..<unat (sg_num_cores g)] ?s = Inr s1" "each (mem_port g D) [0..<unat (sg_channels g)] s1 = Inr s2"
    and fin: "finish s2 = Inr s'" using trans [OF part [symmetric] assms(1)] by (auto simp: rbind_Inr)
  have "sound g s1" using r(1) \<open>sound g ?s\<close>
  proof (rule each_keeps)
    fix i a b assume i: "i \<in> set [0..<unat (sg_num_cores g)]" and ab: "P i a = Inr b" and a: "sound g a"
    then obtain c where "send_request g D i a = Inr c" "take_response D i c = Inr b" unfolding P_def by (auto simp: rbind_Inr)
    then have "moved g a c" using a i by (intro send_request_moved) (simp_all add: sound_def)
    then have "sound g c" using a by (rule moved_sound)
    with \<open>take_response D i c = Inr b\<close> show "sound g b" by (rule take_response_sound) (use i in simp)
  qed
  with r(2) have s2: "sound g s2"
  proof (rule each_keeps)
    fix ch a b assume ch: "ch \<in> set [0..<unat (sg_channels g)]" "mem_port g D ch a = Inr b" and a: "sound g a"
    then have "moved g a b" by (intro mem_port_moved) (simp_all add: sound_def)
    then show "sound g b" using a by (rule moved_sound)
  qed
  define log where "log \<longleftrightarrow> sg_icnt_interval g \<noteq> 0 \<and> si_icnt_cycle s2 mod sg_icnt_interval g = 0"
  define s3 where "s3 = (if log then s2\<lparr>si_recent := no_counts\<rparr> else s2)"
  have s3: "sound g s3" using s2 by (rule inert_sound [rotated]) (simp add: inert_def s3_def)
  have "(if log \<and> si_icnt_period s2 = 0 then Inl Undefined else rbind (iv_cycle D (si_icnt s2)) (\<lambda>ic. Inr (s3\<lparr>si_icnt := ic\<rparr>))) = Inr s'"
    using fin unfolding finish_def Let_def log_def [symmetric] s3_def [symmetric] .
  then have "rbind (iv_cycle D (si_icnt s2)) (\<lambda>ic. Inr (s3\<lparr>si_icnt := ic\<rparr>)) = Inr s'"
    by (cases "log \<and> si_icnt_period s2 = 0") simp_all
  then obtain ic where "iv_cycle D (si_icnt s2) = Inr ic" and s': "s' = s3\<lparr>si_icnt := ic\<rparr>" by (auto simp: rbind_Inr)
  moreover have "si_icnt s3 = si_icnt s2" by (simp add: s3_def)
  ultimately have "net_ok g ic" "net_sum g ic = net_sum g (si_icnt s3)"
    using net_cycle [of g "si_icnt s2"] s2 by (auto simp: sound_def shape_def)
  then have "moved g s3 s'" using s3 s' by (simp add: moved_def sound_def shape_def flight_def same_books_def)
  then show ?thesis using s3 by (rule moved_sound)
qed

lemma dram_cycle_sound:
  assumes "sound g s"
  shows "sound g (s\<lparr>si_dram := dv_cycle D (si_dram s)\<rparr>)"
proof -
  have "mem_ok g (si_dram s)" using assms by (simp add: sound_def shape_def)
  then have "mem_ok g (dv_cycle D (si_dram s))" "mem_sum g (dv_cycle D (si_dram s)) = mem_sum g (si_dram s)"
    using dev.cycle_ok by (auto simp: mem_ok_def)
  then have "moved g s (s\<lparr>si_dram := dv_cycle D (si_dram s)\<rparr>)"
    using assms by (simp add: moved_def sound_def shape_def flight_def same_books_def)
  then show ?thesis using assms by (rule moved_sound)
qed

lemma sim_cycle_sound:
  assumes "sim_cycle g D f s0 = Inr s'" and "sound g s0"
  shows "sound g s'"
proof -
  obtain core dr ic s where m: "set_cycle_mask s0 = ((core, dr, ic), s)" by (metis prod_cases3 surj_pair)
  moreover have "inert s0 (snd (set_cycle_mask s0))" by (simp add: set_cycle_mask_def Let_def inert_def)
  ultimately have "inert s0 s" by simp
  then have s: "sound g s" using assms(2) by (rule inert_sound)
  define A where "A = (if core then rbind (deref (run_ops pim_step (fr_ops f) (si_pim s, si_ssrc s))) (\<lambda>(p, sr).
        rbind (each (core_part g f) [0..<unat (sg_num_cores g)] (s\<lparr>si_pim := p, si_ssrc := sr\<rparr>)) (\<lambda>s.
          Inr (s\<lparr>si_core_cycles := si_core_cycles s + 1\<rparr>))) else Inr s)"
  define B where "B = (\<lambda>s :: ('d, 'i) sim. let s = (if dr then s\<lparr>si_dram := dv_cycle D (si_dram s)\<rparr> else s) in
      rbind (if ic then icnt_part g D s else Inr s) (\<lambda>s.
        if core then rbind (deref (pim_cycle (si_pim s) (si_core_cycles s))) (\<lambda>p. Inr (s\<lparr>si_pim := p\<rparr>)) else Inr s))"
  have cyc: "sim_cycle g D f s0 = rbind A B" unfolding sim_cycle_def A_def B_def m by (simp only: Let_def prod.case)
  obtain s1 where s1: "A = Inr s1" and r1: "B s1 = Inr s'" using trans [OF cyc [symmetric] assms(1)] by (auto simp: rbind_Inr)
  have k1: "sound g s1"
  proof (cases core)
    case True
    then obtain p sr s2 where e: "each (core_part g f) [0..<unat (sg_num_cores g)] (s\<lparr>si_pim := p, si_ssrc := sr\<rparr>) = Inr s2"
      and s1': "s1 = s2\<lparr>si_core_cycles := si_core_cycles s2 + 1\<rparr>" using s1 unfolding A_def by (auto simp: rbind_Inr)
    have "sound g (s\<lparr>si_pim := p, si_ssrc := sr\<rparr>)" using s by (rule inert_sound [rotated]) (simp add: inert_def)
    with e have "sound g s2" by (rule each_keeps) (auto intro: core_part_sound)
    then show ?thesis unfolding s1' by (rule inert_sound [rotated]) (simp add: inert_def)
  qed (use s s1 in \<open>simp add: A_def\<close>)
  define s2 where "s2 = (if dr then s1\<lparr>si_dram := dv_cycle D (si_dram s1)\<rparr> else s1)"
  have k2: "sound g s2" using k1 dram_cycle_sound by (simp add: s2_def)
  obtain s3 where s3: "(if ic then icnt_part g D s2 else Inr s2) = Inr s3"
    and r3: "(if core then rbind (deref (pim_cycle (si_pim s3) (si_core_cycles s3))) (\<lambda>p. Inr (s3\<lparr>si_pim := p\<rparr>)) else Inr s3) = Inr s'"
    using r1 unfolding B_def Let_def s2_def [symmetric] by (auto simp: rbind_Inr)
  have "sound g s3" using s3 k2 icnt_part_sound by (cases ic) auto
  moreover have "inert s3 s'" using r3 by (auto simp: rbind_Inr inert_def split: if_splits)
  ultimately show ?thesis by (metis inert_sound)
qed

lemma run_sim_sound: "run_sim g D fs s = Inr s' \<Longrightarrow> sound g s \<Longrightarrow> sound g s'"
  by (induction fs arbitrary: s) (auto simp: rbind_Inr dest: sim_cycle_sound)

lemma pooled_empty [simp]: "pooled f (replicate n []) = {#}" "all_in P (replicate n [])"
  by (induction n) (simp_all add: pooled_def all_in_def)

lemma sim_init_sound:
  assumes "sim_init g layers d ic p sr = Inr s" and "sim_config_ok g" and "dwf (unat (sg_channels g)) d" and "iwf (nodes g) ic"
    and "\<forall>c. held c d = {#}" and "\<forall>i. bound_for i ic = {#}"
  shows "sound g s"
proof -
  have s: "si_cores s = map (\<lambda>i. core_init (layers ! (2 * i)) (layers ! (2 * i + 1)) 0 (of_nat i) (sg_core g i)) [0..<unat (sg_num_cores g)]"
    "si_hold s = replicate (unat (sg_channels g)) []" "si_bypass s = replicate (unat (sg_channels g)) []"
    "si_ssrc_bypass s = replicate (unat (sg_channels g)) []" "si_ooo s = replicate (unat (sg_channels g)) []"
    "si_dram s = d" "si_icnt s = ic" "si_made s = []" "si_delivered s = []"
    using assms(1) by (auto simp: sim_init_def Let_def split: if_splits)
  have c: "co_requests (si_cores s ! i) = []" "co_id (si_cores s ! i) = of_nat i" "co_waiting_writes (si_cores s ! i) = 0"
    if "i < unat (sg_num_cores g)" for i using that by (simp_all add: s(1) core_init_def)
  have "map co_requests (si_cores s) = replicate (unat (sg_num_cores g)) []"
    by (simp add: s(1) core_init_def map_replicate_const comp_def)
  then have air: "air g s = {#}" using assms(5,6) by (simp add: flight_def s)
  have "shape g s" using assms(2-6) c by (simp add: shape_def s(2-9) mem_ok_def net_ok_def own_request_def s(1))
  moreover have "books_ok {#} g s" using c by (simp add: books_ok_def s(8,9)) (simp add: s(1))
  ultimately show ?thesis using air by (simp add: sound_def)
qed

end

section \<open>The simple memory and interconnect\<close>

definition simple_devices :: "(simple_dram, simple_icnt) devices" where
  "simple_devices = \<lparr>dv_cycle = simple_dram_cycle, dv_full = simple_dram_is_full, dv_push = simple_dram_push, dv_empty = simple_dram_is_empty,
     dv_top = simple_dram_top, dv_pop = simple_dram_pop, iv_cycle = simple_icnt_cycle, iv_full = simple_icnt_is_full,
     iv_push = simple_icnt_push, iv_empty = simple_icnt_is_empty, iv_top = simple_icnt_top, iv_pop = simple_icnt_pop\<rparr>"

interpretation simple: npu_memory simple_devices dram_wf dram_held icnt_wf icnt_bound
  by (rule npu_memory.intro) (simp_all add: simple_devices_def dram.memory_device_axioms icnt.interconnect_axioms)

lemma simple_dram_start: "dram_wf (unat n) (simple_dram_init junk latency n) \<and> dram_held c (simple_dram_init junk latency n) = {#}"
  by (simp add: dram_wf_def dram_held_def simple_dram_init_def at_queue_def)

lemma simple_icnt_start:
  assumes "sim_config_ok g"
  shows "icnt_wf (unat (sg_num_cores g) + unat (sg_channels g)) (simple_icnt_init junk latency (sg_num_cores g) (sg_channels g))
    \<and> icnt_bound i (simple_icnt_init junk latency (sg_num_cores g) (sg_channels g)) = {#}"
proof -
  have "unat (sg_num_cores g + sg_channels g) = unat (sg_num_cores g) + unat (sg_channels g)" "0 < unat (sg_channels g)"
    using assms by (simp_all add: sim_config_ok_def unat_word_ariths word_less_nat_alt)
  moreover have "concat (replicate k []) = []" for k :: nat by (induction k) simp_all
  ultimately show ?thesis by (simp add: icnt_wf_def icnt_bound_def simple_icnt_init_def at_queue_def Let_def)
qed

text \<open>C4: no memory access of the NPU simulator is lost or made up.  In every run on the simple memory and interconnect, whatever
  tiles the cores get and whatever the schedulers do to the PIM overlay - holds, rank switches, deferred rounds -, the
  accesses the cores have made are those in exactly one queue or memory and those delivered, as responses and to the core
  that made them; and what each core counts as outstanding writes is the number of its writes under way.\<close>

theorem accesses_conserved:
  assumes "sim_config_ok g"
    and "sim_init g layers (simple_dram_init j1 l1 (sg_channels g)) (simple_icnt_init j2 l2 (sg_num_cores g) (sg_channels g)) p sr = Inr s0"
    and "run_sim g simple_devices fs s0 = Inr s"
  shows "mset (map key (si_made s)) = flight dram_held icnt_bound g s + mset (map (key \<circ> snd) (si_delivered s))
    \<and> (\<forall>(i, m) \<in> set (si_delivered s). ma_core_id m = of_nat i \<and> \<not> ma_request m)
    \<and> (\<forall>i < length (si_cores s). co_waiting_writes (si_cores s ! i)
         = of_nat (size (filter_mset (\<lambda>m. ma_write m \<and> ma_core_id m = of_nat i) (flight dram_held icnt_bound g s))))"
proof -
  have "simple.sound g s0"
    using simple_dram_start simple_icnt_start [OF assms(1)] by (intro simple.sim_init_sound [OF assms(2,1)]) blast+
  with assms(3) have "simple.sound g s" by (rule simple.run_sim_sound)
  then have "books_ok (flight dram_held icnt_bound g s) g s" by (simp add: simple.sound_def)
  moreover have "owed i = (\<lambda>m. ma_write m \<and> ma_core_id m = of_nat i)" for i by (simp add: fun_eq_iff owed_def)
  ultimately show ?thesis by (auto simp: books_ok_def)
qed

text \<open>One core that loads two lines over one channel.\<close>

definition mini_sim :: sim_config where
  "mini_sim = \<lparr>sg_num_cores = 1, sg_channels = 1, sg_req_size = 32, sg_core_freq = 1000, sg_icnt_freq = 1000, sg_dram_freq = 1000,
     sg_cmd_sched = False, sg_cmd_entries = 4, sg_icnt_interval = 0, sg_core = (\<lambda>_. small_core)\<rparr>"

definition mini_pim :: pim where
  "mini_pim = pim_inactive \<lparr>pc_dram_channels = 1, pc_core_freq = 1000, pc_pim_enable = False, pc_pim_channel_mask = [], pc_pim_channel_stride = 1,
     pc_pim_clock_mhz = 1000, pc_pim_enable_aau_fusion = False, pc_pim_aau_fusion_ratio = FFin 0, pc_pim_gtsu_switch_ns = 0,
     pc_pim_aau_bypass_ns = 0, pc_ssrc_enable = False, pc_ssrc_bypass_ns = 0\<rparr> []"

definition mini_start :: "(simple_dram, simple_icnt) sim result" where
  "mini_start = sim_init mini_sim [0, 0] (simple_dram_init 0 1 1) (simple_icnt_init 0 1 1 1) mini_pim (ssrc_init ssrc_default_config)"

definition mini_fronts :: "front list" where
  "mini_fronts = \<lparr>fr_ops = [], fr_tile = (\<lambda>_. Some (small_tile [small_inst MOVIN 100 [0, 32]]))\<rparr>
     # replicate 9 \<lparr>fr_ops = [], fr_tile = (\<lambda>_. None)\<rparr>"

lemma mini_run: "case rbind mini_start (run_sim mini_sim simple_devices mini_fronts) of Inl e \<Rightarrow> False | Inr s \<Rightarrow> si_delivered s \<noteq> []"
  by code_simp

theorem accesses_conserved_witness:
  "\<exists>s. rbind mini_start (run_sim mini_sim simple_devices mini_fronts) = Inr s \<and> si_delivered s \<noteq> []
     \<and> mset (map key (si_made s)) = flight dram_held icnt_bound mini_sim s + mset (map (key \<circ> snd) (si_delivered s))"
proof -
  obtain s where s: "rbind mini_start (run_sim mini_sim simple_devices mini_fronts) = Inr s" "si_delivered s \<noteq> []"
    using mini_run by (auto split: sum.splits)
  then obtain s0 where r: "mini_start = Inr s0" "run_sim mini_sim simple_devices mini_fronts s0 = Inr s" by (auto simp: rbind_Inr)
  have "sim_config_ok mini_sim" by (simp add: sim_config_ok_def mini_sim_def)
  then have "mset (map key (si_made s)) = flight dram_held icnt_bound mini_sim s + mset (map (key \<circ> snd) (si_delivered s))"
    using accesses_conserved [of mini_sim "[0, 0]" 0 1 0 1 mini_pim "ssrc_init ssrc_default_config" s0 mini_fronts s] r
    by (simp add: mini_start_def mini_sim_def)
  with s show ?thesis by blast
qed

end
